(* ===== verification/Prelude.thy ===== *)
theory Prelude
  imports Main "HOL-Library.AList" "HOL-Library.List_Lexorder" "HOL-Library.Char_ord"
begin

text \<open>
  The shared vocabulary of the development: how the values of the Go sources are represented,
  the part of Go's \<open>strings\<close> and \<open>sort\<close> packages the components call, and the lemmas on
  association lists and sorted lists that the component theories use.

  \<^item> A Go \<open>string\<close> is a \<^typ>\<open>string\<close>: a list of bytes.
  \<^item> An \<open>int64\<close> or \<open>int\<close> that holds a clock reading, a duration or a count is an \<^typ>\<open>int\<close>;
    every component that computes such a value by repeated arithmetic has a lemma that bounds it.
  \<^item> A Go \<open>map\<close> is an association list with distinct keys. Go iterates a map in an unspecified
    order, and the list's order stands for that order: a theorem that holds for every list holds
    for every iteration order.
  \<^item> A function that returns \<open>(T, error)\<close> returns \<open>'e + T\<close>, with \<^const>\<open>Inl\<close> for the error.
\<close>

section \<open>Collections of facts\<close>

named_theorems state_defs "the definitions of the operations of a component"
named_theorems inv_intros "introduction rules: an operation keeps a component's invariant"
named_theorems frame_simps "what an operation leaves alone"

section \<open>Types\<close>

type_synonym millis = int
type_synonym ('k, 'v) gomap = "('k \<times> 'v) list"
type_synonym 'a result = "string + 'a"

text \<open>Go's lookup \<open>m[k]\<close> on a map whose zero value is \<open>z\<close>, and its two-valued form.\<close>

abbreviation golookup :: "('k, 'v) gomap \<Rightarrow> 'k \<Rightarrow> 'v option" where
  "golookup m k \<equiv> map_of m k"

abbreviation goput :: "'k \<Rightarrow> 'v \<Rightarrow> ('k, 'v) gomap \<Rightarrow> ('k, 'v) gomap" where
  "goput k v m \<equiv> AList.update k v m"

abbreviation godelete :: "'k \<Rightarrow> ('k, 'v) gomap \<Rightarrow> ('k, 'v) gomap" where
  "godelete k m \<equiv> AList.delete k m"

abbreviation gokeys :: "('k, 'v) gomap \<Rightarrow> 'k list" where
  "gokeys m \<equiv> map fst m"

abbreviation gomap_ok :: "('k, 'v) gomap \<Rightarrow> bool" where
  "gomap_ok m \<equiv> distinct (map fst m)"

section \<open>Association lists as Go maps\<close>

lemma gomap_ok_put [simp, intro]: "gomap_ok m \<Longrightarrow> gomap_ok (goput k v m)"
  by (simp add: AList.distinct_update)

lemma gomap_ok_delete [simp, intro]: "gomap_ok m \<Longrightarrow> gomap_ok (godelete k m)"
  by (simp add: AList.distinct_delete)

lemma golookup_put: "golookup (goput k v m) k' = (if k' = k then Some v else golookup m k')"
  by (simp add: AList.update_conv')

lemma golookup_delete: "golookup (godelete k m) k' = (if k' = k then None else golookup m k')"
  by (simp add: AList.delete_conv')

lemmas gomap_simps = golookup_put golookup_delete

lemma gomap_ok_filter [simp, intro]: "gomap_ok m \<Longrightarrow> gomap_ok (filter P m)"
  by (induction m) (auto simp: image_iff)

lemma golookup_filter:
  "gomap_ok m \<Longrightarrow> golookup (filter (\<lambda>(k, v). P k v) m) k =
    (case golookup m k of Some v \<Rightarrow> if P k v then Some v else None | None \<Rightarrow> None)"
proof (induction m)
  case (Cons x m)
  obtain j v where x: "x = (j, v)" by (cases x)
  show ?case
  proof (cases "j = k")
    case True
    then have "golookup m k = None" using Cons.prems x by (simp add: map_of_eq_None_iff)
    with True Cons x show ?thesis by simp
  next
    case False
    with Cons x show ?thesis by simp
  qed
qed simp

lemma gomap_mem_cases: "gomap_ok m \<Longrightarrow>
    (\<exists>v. (k, v) \<in> set m \<and> P v) \<longleftrightarrow> (case golookup m k of None \<Rightarrow> False | Some v \<Rightarrow> P v)"
proof -
  assume m: "gomap_ok m"
  show ?thesis
  proof (cases "golookup m k")
    case None
    then have "\<And>v. (k, v) \<notin> set m" by (force simp: map_of_eq_None_iff)
    with None show ?thesis by simp
  next
    case (Some w)
    with m have "\<And>v. (k, v) \<in> set m \<longleftrightarrow> v = w" by (metis map_of_eq_Some_iff option.inject)
    with Some show ?thesis by simp
  qed
qed

lemma set_goput: "gomap_ok m \<Longrightarrow> set (goput k v m) = insert (k, v) {p \<in> set m. fst p \<noteq> k}"
  by (induction m) (auto simp: image_iff)

lemma set_godelete [simp]: "set (godelete k m) = {p \<in> set m. fst p \<noteq> k}"
  by (auto simp: AList.delete_eq)

section \<open>Strings\<close>

text \<open>ASCII digits, and \<open>strings.Split\<close> and \<open>strings.Join\<close> for a one-byte separator.\<close>

definition is_digit :: "char \<Rightarrow> bool" where
  "is_digit c \<longleftrightarrow> CHR ''0'' \<le> c \<and> c \<le> CHR ''9''"

fun go_split :: "char \<Rightarrow> string \<Rightarrow> string list" where
  "go_split sep [] = [[]]"
| "go_split sep (c # s) =
     (if c = sep then [] # go_split sep s
      else case go_split sep s of [] \<Rightarrow> [[c]] | w # ws \<Rightarrow> (c # w) # ws)"

fun go_join :: "string \<Rightarrow> string list \<Rightarrow> string" where
  "go_join sep [] = []"
| "go_join sep [w] = w"
| "go_join sep (w # v # ws) = w @ sep @ go_join sep (v # ws)"

text \<open>\<open>strings.ReplaceAll\<close> of each carriage return with its line feed by the line feed.\<close>

fun replace_crlf :: "string \<Rightarrow> string" where
  "replace_crlf [] = []"
| "replace_crlf [c] = [c]"
| "replace_crlf (c # d # s) =
     (if c = CHR 0x0D \<and> d = CHR 0x0A then CHR 0x0A # replace_crlf s else c # replace_crlf (d # s))"

lemma go_split_nonempty [simp]: "go_split sep s \<noteq> []"
  by (induction s) (auto split: list.splits)

text \<open>Joining what was split gives the text back, and no piece holds the separator.\<close>

lemma go_join_split: "go_join [sep] (go_split sep s) = s"
proof (induction s)
  case Nil
  show ?case by simp
next
  case (Cons c s)
  obtain w ws where "go_split sep s = w # ws" by (cases "go_split sep s") auto
  with Cons.IH show ?case by (cases ws) auto
qed

lemma go_split_pieces: "w \<in> set (go_split sep s) \<Longrightarrow> sep \<notin> set w"
  by (induction s arbitrary: w) (auto split: list.splits if_splits)

lemma go_split_join:
  "ws \<noteq> [] \<Longrightarrow> \<forall>w \<in> set ws. sep \<notin> set w \<Longrightarrow> go_split sep (go_join [sep] ws) = ws"
proof (induction "[sep]" ws rule: go_join.induct)
  case 1
  then show ?case by simp
next
  case (2 w)
  have "sep \<notin> set w \<Longrightarrow> go_split sep w = [w]" by (induction w) auto
  with 2 show ?case by simp
next
  case (3 w v ws)
  have "sep \<notin> set w \<Longrightarrow> go_split sep (w @ sep # s) = w # go_split sep s" for s
    by (induction w) auto
  with 3 show ?case by simp
qed

section \<open>State machines\<close>

text \<open>
  A stateful component of the sources is a step function that takes the state and one call and
  returns what the call produced together with the next state. \<open>run\<close> performs a sequence of
  calls and collects what each produced.
\<close>

fun run :: "('s \<Rightarrow> 'e \<Rightarrow> 'o \<times> 's) \<Rightarrow> 's \<Rightarrow> 'e list \<Rightarrow> 'o list \<times> 's" where
  "run step s [] = ([], s)"
| "run step s (e # es) =
     (case step s e of (out, s1) \<Rightarrow> case run step s1 es of (outs, s2) \<Rightarrow> (out # outs, s2))"

lemma run_Cons_fst [simp]: "fst (run step s (e # es)) = fst (step s e) # fst (run step (snd (step s e)) es)"
  by (simp split: prod.splits)

lemma run_Cons_snd [simp]: "snd (run step s (e # es)) = snd (run step (snd (step s e)) es)"
  by (simp split: prod.splits)

lemma run_append_snd: "snd (run step s (es @ fs)) = snd (run step (snd (run step s es)) fs)"
  by (induction es arbitrary: s) (simp_all del: run.simps(2))

lemma run_append_fst: "fst (run step s (es @ fs)) = fst (run step s es) @ fst (run step (snd (run step s es)) fs)"
  by (induction es arbitrary: s) (simp_all del: run.simps(2))

lemma length_run [simp]: "length (fst (run step s es)) = length es"
  by (induction es arbitrary: s) (simp_all del: run.simps(2))

declare run.simps(2) [simp del]

lemma run_snoc_snd [simp]: "snd (run step s (es @ [e])) = snd (step (snd (run step s es)) e)"
  by (simp add: run_append_snd)

lemma run_snoc_fst [simp]: "fst (run step s (es @ [e])) = fst (run step s es) @ [fst (step (snd (run step s es)) e)]"
  by (simp add: run_append_fst)

text \<open>A machine with an invariant that every step keeps.\<close>

locale step_machine =
  fixes step :: "'s \<Rightarrow> 'e \<Rightarrow> 'o \<times> 's"
    and inv :: "'s \<Rightarrow> bool"
  assumes step_inv: "inv s \<Longrightarrow> inv (snd (step s e))"
begin

lemma run_inv: "inv s \<Longrightarrow> inv (snd (run step s es))"
  by (induction es arbitrary: s) (auto intro: step_inv)

lemma run_always:
  assumes "inv s" and "\<And>s e. inv s \<Longrightarrow> P e (fst (step s e))"
  shows "list_all2 P es (fst (run step s es))"
  using assms(1)
proof (induction es arbitrary: s)
  case Nil
  then show ?case by simp
next
  case (Cons e es)
  from Cons.prems have "P e (fst (step s e))" by (rule assms(2))
  moreover have "list_all2 P es (fst (run step (snd (step s e)) es))"
    using Cons.prems by (intro Cons.IH step_inv)
  ultimately show ?case by simp
qed

end

text \<open>
  A machine that implements an abstract one: under the invariant a step of the machine produces
  what the abstract step produces, and the abstraction of its next state is the abstract next
  state. A whole run then refines the abstract run.
\<close>

locale refined_machine = step_machine step inv
  for step :: "'s \<Rightarrow> 'e \<Rightarrow> 'o \<times> 's" and inv :: "'s \<Rightarrow> bool" +
  fixes abs :: "'s \<Rightarrow> 'a"
    and spec :: "'a \<Rightarrow> 'e \<Rightarrow> 'o \<times> 'a"
  assumes step_refines: "inv s \<Longrightarrow> spec (abs s) e = (fst (step s e), abs (snd (step s e)))"
begin

lemma run_refines: "inv s \<Longrightarrow> run spec (abs s) es = (fst (run step s es), abs (snd (run step s es)))"
proof (induction es arbitrary: s)
  case Nil
  then show ?case by simp
next
  case (Cons e es)
  then have "run spec (abs (snd (step s e))) es =
      (fst (run step (snd (step s e)) es), abs (snd (run step (snd (step s e)) es)))"
    by (intro Cons.IH step_inv)
  with Cons.prems show ?case by (simp add: run.simps(2) step_refines split: prod.splits)
qed

end

end
