(* ===== verification/Conn_State.thy ===== *)
theory Conn_State
  imports Prelude
begin

text \<open>
  Whether a router is offline, as opposed to whether its API socket is open this instant:
  the per-router debounce of \<^verbatim>\<open>internal/history/connectivity.go\<close> and the tracker of
  \<^verbatim>\<open>internal/connstate/tracker.go\<close> that holds one debounce per router.

  The debounce has no timer of its own. It is driven by three calls (a connect, a disconnect, a
  tick) that carry the caller's clock, and each call returns the connectivity rows to record and
  the status changes to announce. The tracker is a map from router id to debounce with a fan-out to
  two callbacks. Its mutexes make every call atomic, so a call is one step here; the callbacks run
  unlocked and are the step's output. A nil tracker and the callbacks' own effects are not modelled.
\<close>

section \<open>The debounce of one router\<close>

text \<open>
  The connectivity half of \<open>history.Row\<close>. The fields the bucketer alone fills (name, rates, RTT)
  keep their zero value in every row made here and are left out.
\<close>

record Row =
  Table :: string
  Row_RouterID :: string
  Row_Connected :: bool
  TS :: millis
  ExplicitTS :: bool

record ConnEffect =
  Rows :: "Row list"
  Status :: "bool list"

record Connectivity =
  RouterID :: string
  ThreshMs :: millis
  prev :: "bool option"
  timerAt :: millis
  timerObs :: millis
  timerLive :: bool
  timerCold :: bool
  declaredOffline :: bool

text \<open>The zero value with a router id and a threshold, as the tracker builds it.\<close>

definition zero_Connectivity :: "string \<Rightarrow> millis \<Rightarrow> Connectivity" where
  "zero_Connectivity rid ms = \<lparr>RouterID = rid, ThreshMs = ms, prev = None, timerAt = 0,
     timerObs = 0, timerLive = False, timerCold = False, declaredOffline = False\<rparr>"

definition Connectivity_row :: "Connectivity \<Rightarrow> bool \<Rightarrow> millis \<Rightarrow> bool \<Rightarrow> Row" where
  "Connectivity_row c conn ts expl = \<lparr>Table = ''connectivity'', Row_RouterID = RouterID c,
     Row_Connected = conn, TS = ts, ExplicitTS = expl\<rparr>"

definition Connectivity_Connected :: "Connectivity \<Rightarrow> millis \<Rightarrow> ConnEffect \<times> Connectivity" where
  "Connectivity_Connected c now =
     (let c1 = c\<lparr>timerLive := False, timerCold := False\<rparr>;
          rows = (if prev c = None \<or> prev c = Some False then [Connectivity_row c True now False] else [])
      in (\<lparr>Rows = rows, Status = [True]\<rparr>, c1\<lparr>declaredOffline := False, prev := Some True\<rparr>))"

definition Connectivity_Disconnected :: "Connectivity \<Rightarrow> millis \<Rightarrow> ConnEffect \<times> Connectivity" where
  "Connectivity_Disconnected c now =
     (if timerLive c then (\<lparr>Rows = [], Status = []\<rparr>, c)
      else case prev c of
        None \<Rightarrow>
          (let c1 = c\<lparr>prev := Some False\<rparr> in
           if ThreshMs c \<le> 0
           then (\<lparr>Rows = [Connectivity_row c False now False], Status = [False]\<rparr>, c1)
           else (\<lparr>Rows = [], Status = [False]\<rparr>,
                 c1\<lparr>timerObs := now, timerAt := now + ThreshMs c, timerLive := True, timerCold := True\<rparr>))
      | Some p \<Rightarrow>
          if ThreshMs c \<le> 0
          then (let c1 = (if p then c\<lparr>declaredOffline := True\<rparr> else c) in
                (\<lparr>Rows = [Connectivity_row c False now False], Status = [False]\<rparr>, c1\<lparr>prev := Some False\<rparr>))
          else (\<lparr>Rows = [], Status = []\<rparr>,
                c\<lparr>timerObs := now, timerAt := now + ThreshMs c, timerLive := True\<rparr>))"

definition Connectivity_Tick :: "Connectivity \<Rightarrow> millis \<Rightarrow> ConnEffect \<times> Connectivity" where
  "Connectivity_Tick c now =
     (if \<not> timerLive c \<or> now < timerAt c then (\<lparr>Rows = [], Status = []\<rparr>, c)
      else let c1 = c\<lparr>timerLive := False\<rparr> in
        if timerCold c
        then (\<lparr>Rows = [Connectivity_row c False (timerObs c) True], Status = []\<rparr>, c1\<lparr>timerCold := False\<rparr>)
        else (\<lparr>Rows = [Connectivity_row c False (timerObs c) True], Status = [False]\<rparr>,
              c1\<lparr>declaredOffline := True, prev := Some False\<rparr>))"

text \<open>The debounced verdict: \<open>None\<close> is Go's \<open>known = false\<close>.\<close>

definition Connectivity_Online :: "Connectivity \<Rightarrow> bool \<times> bool" where
  "Connectivity_Online c = (case prev c of None \<Rightarrow> (False, False) | Some p \<Rightarrow> (p, True))"

text \<open>One call on a debounce, the change of its threshold included.\<close>

datatype conn_event = EvConnected millis | EvDisconnected millis | EvTick millis | EvThreshold millis

fun conn_step :: "Connectivity \<Rightarrow> conn_event \<Rightarrow> ConnEffect \<times> Connectivity" where
  "conn_step c (EvConnected now) = Connectivity_Connected c now"
| "conn_step c (EvDisconnected now) = Connectivity_Disconnected c now"
| "conn_step c (EvTick now) = Connectivity_Tick c now"
| "conn_step c (EvThreshold ms) = (\<lparr>Rows = [], Status = []\<rparr>, c\<lparr>ThreshMs := ms\<rparr>)"

lemmas [state_defs] = Connectivity_Connected_def Connectivity_Disconnected_def Connectivity_Tick_def
  Connectivity_row_def

lemmas conn_ops = Connectivity_Connected_def Connectivity_Disconnected_def Connectivity_Tick_def Let_def

section \<open>The tracker\<close>

definition DefaultSec :: int where "DefaultSec = 30"

definition MaxSec :: int where "MaxSec = 300"

definition ThresholdMs :: "int \<Rightarrow> bool \<Rightarrow> millis" where
  "ThresholdMs sec ok = (if \<not> ok \<or> sec < 0 \<or> sec > MaxSec then DefaultSec * 1000 else sec * 1000)"

text \<open>The callbacks are optional: the two flags say whether each is set.\<close>

record Tracker =
  st :: "(string, Connectivity) gomap"
  hasRows :: bool
  hasVerdict :: bool

datatype fanout = RowsOut "Row list" | VerdictOut string bool

definition New_Tracker :: "bool \<Rightarrow> bool \<Rightarrow> Tracker" where
  "New_Tracker rows verdict = \<lparr>st = [], hasRows = rows, hasVerdict = verdict\<rparr>"

definition Tracker_entryFor :: "Tracker \<Rightarrow> string \<Rightarrow> Connectivity \<times> Tracker" where
  "Tracker_entryFor t rid =
     (case golookup (st t) rid of
        Some c \<Rightarrow> (c, t)
      | None \<Rightarrow> (let c = zero_Connectivity rid (DefaultSec * 1000) in (c, t\<lparr>st := goput rid c (st t)\<rparr>)))"

definition Tracker_emit :: "Tracker \<Rightarrow> Row list \<Rightarrow> fanout list" where
  "Tracker_emit t rows = (if rows \<noteq> [] \<and> hasRows t then [RowsOut rows] else [])"

definition Tracker_announce :: "Tracker \<Rightarrow> string \<Rightarrow> bool list \<Rightarrow> fanout list" where
  "Tracker_announce t rid status = (if hasVerdict t then map (VerdictOut rid) status else [])"

definition Tracker_apply ::
  "Tracker \<Rightarrow> string \<Rightarrow> (Connectivity \<Rightarrow> ConnEffect \<times> Connectivity) \<Rightarrow> fanout list \<times> Tracker" where
  "Tracker_apply t rid fn =
     (if rid = '''' then ([], t)
      else let (c, t1) = Tracker_entryFor t rid;
               (eff, c1) = fn c
           in (Tracker_emit t1 (Rows eff) @ Tracker_announce t1 rid (Status eff),
               t1\<lparr>st := goput rid c1 (st t1)\<rparr>))"

definition Tracker_Connected :: "Tracker \<Rightarrow> string \<Rightarrow> millis \<Rightarrow> fanout list \<times> Tracker" where
  "Tracker_Connected t rid now = Tracker_apply t rid (\<lambda>c. Connectivity_Connected c now)"

definition Tracker_Disconnected :: "Tracker \<Rightarrow> string \<Rightarrow> millis \<Rightarrow> fanout list \<times> Tracker" where
  "Tracker_Disconnected t rid now = Tracker_apply t rid (\<lambda>c. Connectivity_Disconnected c now)"

definition Tracker_SetThreshold :: "Tracker \<Rightarrow> string \<Rightarrow> millis \<Rightarrow> Tracker" where
  "Tracker_SetThreshold t rid ms =
     (if rid = '''' then t
      else let (c, t1) = Tracker_entryFor t rid in t1\<lparr>st := goput rid (c\<lparr>ThreshMs := ms\<rparr>) (st t1)\<rparr>)"

definition Tracker_Online :: "Tracker \<Rightarrow> string \<Rightarrow> bool \<times> bool" where
  "Tracker_Online t rid =
     (case golookup (st t) rid of None \<Rightarrow> (False, False) | Some c \<Rightarrow> Connectivity_Online c)"

definition Tracker_Forget :: "Tracker \<Rightarrow> string \<Rightarrow> Tracker" where
  "Tracker_Forget t rid = t\<lparr>st := godelete rid (st t)\<rparr>"

text \<open>The sweep over the entries: the rows of all of them, the announcements, the new entries.\<close>

fun tick_entries ::
  "Tracker \<Rightarrow> millis \<Rightarrow> (string, Connectivity) gomap \<Rightarrow> Row list \<times> fanout list \<times> (string, Connectivity) gomap" where
  "tick_entries t now [] = ([], [], [])"
| "tick_entries t now ((rid, c) # es) =
     (let (eff, c1) = Connectivity_Tick c now;
          (rows, outs, es1) = tick_entries t now es
      in (Rows eff @ rows, Tracker_announce t rid (Status eff) @ outs, (rid, c1) # es1))"

definition Tracker_TickAll :: "Tracker \<Rightarrow> millis \<Rightarrow> fanout list \<times> Tracker" where
  "Tracker_TickAll t now =
     (let (rows, outs, es) = tick_entries t now (st t)
      in (outs @ Tracker_emit t rows, t\<lparr>st := es\<rparr>))"

datatype tracker_event =
    TEConnected string millis
  | TEDisconnected string millis
  | TESetThreshold string millis
  | TEForget string
  | TETickAll millis

fun tracker_step :: "Tracker \<Rightarrow> tracker_event \<Rightarrow> fanout list \<times> Tracker" where
  "tracker_step t (TEConnected rid now) = Tracker_Connected t rid now"
| "tracker_step t (TEDisconnected rid now) = Tracker_Disconnected t rid now"
| "tracker_step t (TESetThreshold rid ms) = ([], Tracker_SetThreshold t rid ms)"
| "tracker_step t (TEForget rid) = ([], Tracker_Forget t rid)"
| "tracker_step t (TETickAll now) = Tracker_TickAll t now"

section \<open>Reachable states\<close>

definition conn_inv :: "Connectivity \<Rightarrow> bool" where
  "conn_inv c \<longleftrightarrow> (timerCold c \<longrightarrow> timerLive c \<and> prev c = Some False \<and> \<not> declaredOffline c) \<and>
     (timerLive c \<longrightarrow> prev c \<noteq> None \<and> timerObs c < timerAt c) \<and>
     (declaredOffline c \<longrightarrow> prev c = Some False)"

definition silent :: ConnEffect where "silent = \<lparr>Rows = [], Status = []\<rparr>"

section \<open>Outages in the history of calls\<close>

text \<open>
  What a history of calls amounts to, without the debounce. Its connects cut it into stretches: the one before the first
  connect, and one after every connect, each with the moment of that connect.
\<close>

fun stretches :: "conn_event list \<Rightarrow> conn_event list \<times> (millis \<times> conn_event list) list" where
  "stretches [] = ([], [])"
| "stretches (EvConnected t # es) = (case stretches es of (s, rest) \<Rightarrow> ([], (t, s) # rest))"
| "stretches (e # es) = (case stretches es of (s, rest) \<Rightarrow> (e # s, rest))"

text \<open>The threshold in force after some calls, when \<open>T\<close> was before them.\<close>

fun threshold_after :: "millis \<Rightarrow> conn_event list \<Rightarrow> millis" where
  "threshold_after T [] = T"
| "threshold_after T (EvThreshold ms # es) = threshold_after ms es"
| "threshold_after T (e # es) = threshold_after T es"

text \<open>Moments that leave an outage undecided: no connect, and no tick at or past its deadline.\<close>

fun before_deadline :: "millis \<Rightarrow> conn_event \<Rightarrow> bool" where
  "before_deadline at (EvConnected _) = False"
| "before_deadline at (EvDisconnected _) = True"
| "before_deadline at (EvTick now) = (now < at)"
| "before_deadline at (EvThreshold _) = True"

text \<open>
  The outages of a stretch that count, each with the moment the link was seen to go and whether it had to wait. Under a
  threshold that is not positive every disconnect counts, at once. Otherwise a disconnect opens an outage, which counts
  when the clock ticks at or past its deadline; until then no other disconnect and no change of the threshold matters.
\<close>

function losses :: "millis \<Rightarrow> conn_event list \<Rightarrow> (millis \<times> bool) list" where
  "losses T [] = []"
| "losses T (EvDisconnected t # es) =
     (if T \<le> 0 then (t, False) # losses T es
      else case dropWhile (before_deadline (t + T)) es of
             [] \<Rightarrow> []
           | e # later \<Rightarrow> (t, True) # losses (threshold_after T (takeWhile (before_deadline (t + T)) es)) later)"
| "losses T (EvThreshold ms # es) = losses ms es"
| "losses T (EvTick now # es) = losses T es"
| "losses T (EvConnected now # es) = losses T es"
  by pat_completeness auto
termination
proof (relation "measure (\<lambda>(T, es). length es)", goal_cases)
  case (3 T t es e later)
  then show ?case using length_dropWhile_le [of "before_deadline (t + T)" es] by simp
qed auto

text \<open>The rows and the statuses a history calls for.\<close>

definition link_row :: "string \<Rightarrow> bool \<Rightarrow> millis \<Rightarrow> bool \<Rightarrow> Row" where
  "link_row rid up t explicit = \<lparr>Table = ''connectivity'', Row_RouterID = rid, Row_Connected = up, TS = t, ExplicitTS = explicit\<rparr>"

definition down_rows :: "string \<Rightarrow> (millis \<times> bool) list \<Rightarrow> Row list" where
  "down_rows rid ls = map (\<lambda>(t, waited). link_row rid False t waited) ls"

text \<open>A connect writes a row when it ends a counted outage, or is the first; \<open>lost\<close> says whether one is owed.\<close>

fun rows_after :: "string \<Rightarrow> millis \<Rightarrow> bool \<Rightarrow> (millis \<times> conn_event list) list \<Rightarrow> Row list" where
  "rows_after rid T lost [] = []"
| "rows_after rid T lost ((t, s) # rest) =
     (if lost then [link_row rid True t False] else []) @ down_rows rid (losses T s) @ rows_after rid (threshold_after T s) (losses T s \<noteq> []) rest"

fun status_after :: "millis \<Rightarrow> (millis \<times> conn_event list) list \<Rightarrow> bool list" where
  "status_after T [] = []"
| "status_after T ((t, s) # rest) = True # map (\<lambda>l. False) (losses T s) @ status_after (threshold_after T s) rest"

fun is_disconnect :: "conn_event \<Rightarrow> bool" where
  "is_disconnect (EvDisconnected t) = True"
| "is_disconnect e = False"

definition history_rows :: "string \<Rightarrow> millis \<Rightarrow> conn_event list \<Rightarrow> Row list" where
  "history_rows rid T es =
     (case stretches es of (s, rest) \<Rightarrow> down_rows rid (losses T s) @ rows_after rid (threshold_after T s) True rest)"

text \<open>Before the first connect the very first disconnect is announced at once, whether its outage will count or not.\<close>

definition history_status :: "millis \<Rightarrow> conn_event list \<Rightarrow> bool list" where
  "history_status T es =
     (case stretches es of (s, rest) \<Rightarrow>
        replicate (if list_ex is_disconnect s then max 1 (length (losses T s)) else 0) False @ status_after (threshold_after T s) rest)"

section \<open>Lemmas on the debounce\<close>

lemma conn_inv_zero [inv_intros]: "conn_inv (zero_Connectivity rid ms)"
  by (simp add: conn_inv_def zero_Connectivity_def)

lemma conn_inv_Connected [inv_intros]: "conn_inv (snd (Connectivity_Connected c now))"
  by (simp add: conn_inv_def conn_ops)

lemma conn_inv_Disconnected [inv_intros]: "conn_inv c \<Longrightarrow> conn_inv (snd (Connectivity_Disconnected c now))"
  by (auto simp: conn_inv_def conn_ops split: option.splits)

lemma conn_inv_Tick [inv_intros]: "conn_inv c \<Longrightarrow> conn_inv (snd (Connectivity_Tick c now))"
  by (auto simp: conn_inv_def conn_ops)

lemma conn_inv_ThreshMs [inv_intros]: "conn_inv c \<Longrightarrow> conn_inv (c\<lparr>ThreshMs := ms\<rparr>)"
  by (simp add: conn_inv_def)

lemma conn_step_inv: "conn_inv c \<Longrightarrow> conn_inv (snd (conn_step c e))"
  by (cases e) (simp_all add: inv_intros)

lemma conn_step_RouterID [frame_simps]: "RouterID (snd (conn_step c e)) = RouterID c"
  by (cases e) (simp_all add: conn_ops split: option.splits)

text \<open>The flags of a debounce, split once.\<close>

lemma conn_flags_cases:
  obtains "prev c = None" "timerLive c" | "prev c = None" "\<not> timerLive c"
  | "prev c = Some True" "timerLive c" "timerCold c" | "prev c = Some True" "timerLive c" "\<not> timerCold c"
  | "prev c = Some True" "\<not> timerLive c" | "prev c = Some False" "timerLive c" "timerCold c"
  | "prev c = Some False" "timerLive c" "\<not> timerCold c" | "prev c = Some False" "\<not> timerLive c"
  by (metis (full_types) not_None_eq)

interpretation conn: step_machine conn_step conn_inv
  by unfold_locales (rule conn_step_inv)

lemma conn_run_RouterID [frame_simps]: "RouterID (snd (run conn_step c es)) = RouterID c"
  by (induction es arbitrary: c) (simp_all add: frame_simps)

lemma pending_step:
  assumes "timerLive c" and "before_deadline (timerAt c) e"
  shows "fst (conn_step c e) = silent \<and> (\<exists>ms. snd (conn_step c e) = c\<lparr>ThreshMs := ms\<rparr>)"
proof -
  have id: "\<exists>ms. c = c\<lparr>ThreshMs := ms\<rparr>" by (rule exI [of _ "ThreshMs c"]) simp
  show ?thesis using assms id by (cases e) (simp_all add: conn_ops silent_def, blast)
qed

lemma pending_run:
  assumes "timerLive c" and "list_all (before_deadline (timerAt c)) es"
  shows "fst (run conn_step c es) = map (\<lambda>_. silent) es \<and>
     (\<exists>ms. snd (run conn_step c es) = c\<lparr>ThreshMs := ms\<rparr>)"
  using assms
proof (induction es arbitrary: c)
  case Nil
  have "c = c\<lparr>ThreshMs := ThreshMs c\<rparr>" by simp
  then show ?case by (simp only: run.simps fst_conv snd_conv list.map) blast
next
  case (Cons e es)
  from Cons.prems have "before_deadline (timerAt c) e" by simp
  with Cons.prems(1) obtain ms where s: "fst (conn_step c e) = silent"
      and ms: "snd (conn_step c e) = c\<lparr>ThreshMs := ms\<rparr>"
    using pending_step by blast
  have "fst (run conn_step (c\<lparr>ThreshMs := ms\<rparr>) es) = map (\<lambda>_. silent) es \<and>
      (\<exists>ms'. snd (run conn_step (c\<lparr>ThreshMs := ms\<rparr>) es) = c\<lparr>ThreshMs := ms, ThreshMs := ms'\<rparr>)"
    by (rule Cons.IH) (use Cons.prems in simp_all)
  with s ms show ?case by simp
qed

section \<open>The debounce and the history\<close>

definition rows_made :: "Connectivity \<Rightarrow> conn_event list \<Rightarrow> Row list" where
  "rows_made c es = concat (map Rows (fst (run conn_step c es)))"

definition status_made :: "Connectivity \<Rightarrow> conn_event list \<Rightarrow> bool list" where
  "status_made c es = concat (map Status (fst (run conn_step c es)))"

definition after_calls :: "Connectivity \<Rightarrow> conn_event list \<Rightarrow> Connectivity" where
  "after_calls c es = snd (run conn_step c es)"

lemma calls_Nil [simp]: "rows_made c [] = []" "status_made c [] = []" "after_calls c [] = c"
  by (simp_all add: rows_made_def status_made_def after_calls_def)

lemma calls_Cons:
  "rows_made c (e # es) = Rows (fst (conn_step c e)) @ rows_made (snd (conn_step c e)) es"
  "status_made c (e # es) = Status (fst (conn_step c e)) @ status_made (snd (conn_step c e)) es"
  "after_calls c (e # es) = after_calls (snd (conn_step c e)) es"
  by (simp_all add: rows_made_def status_made_def after_calls_def)

lemma calls_append:
  "rows_made c (es @ fs) = rows_made c es @ rows_made (after_calls c es) fs"
  "status_made c (es @ fs) = status_made c es @ status_made (after_calls c es) fs"
  "after_calls c (es @ fs) = after_calls (after_calls c es) fs"
  by (simp_all add: rows_made_def status_made_def after_calls_def run_append_fst run_append_snd)

fun is_connect :: "conn_event \<Rightarrow> bool" where
  "is_connect (EvConnected t) = True"
| "is_connect e = False"

lemma after_id [simp]: "RouterID (after_calls c es) = RouterID c"
  by (simp add: after_calls_def frame_simps)

lemma step_thresh: "ThreshMs (snd (conn_step c e)) = threshold_after (ThreshMs c) [e]"
  by (cases e) (simp_all add: conn_ops split: option.splits)

lemma threshold_after_Cons: "threshold_after T (e # es) = threshold_after (threshold_after T [e]) es"
  by (cases e) simp_all

lemma after_thresh: "ThreshMs (after_calls c es) = threshold_after (ThreshMs c) es"
proof (induction es arbitrary: c)
  case (Cons e es)
  then show ?case using threshold_after_Cons [of "ThreshMs c" e es] by (simp add: calls_Cons step_thresh)
qed simp

text \<open>A pending outage: nothing happens before its deadline, and the tick that meets it settles it.\<close>

lemma undecided:
  assumes "timerLive c" "list_all (before_deadline (timerAt c)) es"
  shows "rows_made c es = [] \<and> status_made c es = [] \<and> after_calls c es = c\<lparr>ThreshMs := threshold_after (ThreshMs c) es\<rparr>"
proof -
  obtain ms where p: "fst (run conn_step c es) = map (\<lambda>_. silent) es" "after_calls c es = c\<lparr>ThreshMs := ms\<rparr>"
    using pending_run [OF assms] by (auto simp: after_calls_def)
  have "ms = threshold_after (ThreshMs c) es" using after_thresh [of c es] p(2) by simp
  with p show ?thesis by (simp add: rows_made_def status_made_def silent_def)
qed

definition pending :: "Connectivity \<Rightarrow> millis \<Rightarrow> bool \<Rightarrow> Connectivity" where
  "pending c t cold = c\<lparr>timerObs := t, timerAt := t + ThreshMs c, timerLive := True, timerCold := cold\<rparr>"

definition idle :: "Connectivity \<Rightarrow> bool" where
  "idle c \<longleftrightarrow> \<not> timerLive c \<and> \<not> timerCold c"

lemma pending_settles:
  assumes "list_all (\<lambda>e. \<not> is_connect e) es" "dropWhile (before_deadline (t + ThreshMs c)) es = e # later"
  obtains now where "e = EvTick now" "t + ThreshMs c \<le> now" "list_all (\<lambda>e. \<not> is_connect e) later"
    "es = takeWhile (before_deadline (t + ThreshMs c)) es @ e # later"
proof -
  have es: "es = takeWhile (before_deadline (t + ThreshMs c)) es @ e # later" using assms(2) by (metis takeWhile_dropWhile_id)
  have "\<not> before_deadline (t + ThreshMs c) e" using hd_dropWhile [of "before_deadline (t + ThreshMs c)" es] assms(2) by auto
  moreover have "\<not> is_connect e" "list_all (\<lambda>e. \<not> is_connect e) later" using assms(1) by (subst (asm) es, simp)+
  ultimately show ?thesis using es by (cases e) (auto intro: that)
qed

text \<open>A stretch that starts with nothing pending, the link up or down: its losses, and whether it is up at the end.\<close>

lemma stretch_exact:
  assumes "idle c" "prev c = Some p" "list_all (\<lambda>e. \<not> is_connect e) es"
  shows "rows_made c es = down_rows (RouterID c) (losses (ThreshMs c) es) \<and>
    status_made c es = map (\<lambda>l. False) (losses (ThreshMs c) es) \<and> prev (after_calls c es) = Some (p \<and> losses (ThreshMs c) es = [])"
  using assms
proof (induction "ThreshMs c" es arbitrary: c p rule: losses.induct)
  case 1
  then show ?case by (simp add: down_rows_def)
next
  case (2 t es)
  show ?case
  proof (cases "ThreshMs c \<le> 0")
    case True
    define c1 where "c1 = snd (conn_step c (EvDisconnected t))"
    have c1: "fst (conn_step c (EvDisconnected t)) = \<lparr>Rows = [link_row (RouterID c) False t False], Status = [False]\<rparr>"
      "idle c1" "prev c1 = Some False" "ThreshMs c1 = ThreshMs c" "RouterID c1 = RouterID c"
      using True 2(3,4) by (auto simp: c1_def idle_def conn_ops Connectivity_row_def link_row_def)
    have "rows_made c1 es = down_rows (RouterID c1) (losses (ThreshMs c1) es) \<and> status_made c1 es = map (\<lambda>l. False) (losses (ThreshMs c1) es) \<and>
        prev (after_calls c1 es) = Some (False \<and> losses (ThreshMs c1) es = [])"
      using 2(1) [OF True c1(4) [symmetric] c1(2,3)] 2(5) by simp
    then show ?thesis using True c1 by (simp add: calls_Cons c1_def [symmetric] down_rows_def del: conn_step.simps)
  next
    case False
    define c1 where "c1 = pending c t False"
    have s: "conn_step c (EvDisconnected t) = (silent, c1)"
      using False 2(3,4) by (auto simp: c1_def pending_def idle_def conn_ops silent_def)
    have live: "timerLive c1" "timerAt c1 = t + ThreshMs c" "timerObs c1 = t" "\<not> timerCold c1" "ThreshMs c1 = ThreshMs c" "RouterID c1 = RouterID c" "prev c1 = Some p"
      using 2(4) by (simp_all add: c1_def pending_def)
    have nc: "list_all (\<lambda>e. \<not> is_connect e) es" using 2(5) by simp
    let ?bef = "takeWhile (before_deadline (t + ThreshMs c)) es"
    show ?thesis
    proof (cases "dropWhile (before_deadline (t + ThreshMs c)) es")
      case Nil
      then have "list_all (before_deadline (timerAt c1)) es" using live(2) by (simp add: dropWhile_eq_Nil_conv list_all_iff)
      moreover have "losses (ThreshMs c) (EvDisconnected t # es) = []" using False Nil by (simp del: dropWhile_eq_Nil_conv)
      ultimately show ?thesis using undecided [OF live(1)] live(7) s by (simp add: calls_Cons silent_def down_rows_def del: conn_step.simps losses.simps)
    next
      case (Cons e later)
      obtain now where e: "e = EvTick now" "t + ThreshMs c \<le> now" "list_all (\<lambda>e. \<not> is_connect e) later" "es = ?bef @ e # later"
        using pending_settles [OF nc Cons] by blast
      have "list_all (before_deadline (timerAt c1)) ?bef" using live(2) by (auto simp: list_all_iff dest: set_takeWhileD)
      note u = undecided [OF live(1) this]
      define c2 where "c2 = after_calls c1 ?bef"
      define c3 where "c3 = snd (conn_step c2 e)"
      have c2: "c2 = c1\<lparr>ThreshMs := threshold_after (ThreshMs c) ?bef\<rparr>" using u live(5) by (simp add: c2_def)
      have c3: "fst (conn_step c2 e) = \<lparr>Rows = [link_row (RouterID c) False t True], Status = [False]\<rparr>"
        "idle c3" "prev c3 = Some False" "ThreshMs c3 = threshold_after (ThreshMs c) ?bef" "RouterID c3 = RouterID c"
        using e(1,2) live by (auto simp: c3_def c2 idle_def conn_ops Connectivity_row_def link_row_def)
      have ih: "rows_made c3 later = down_rows (RouterID c3) (losses (ThreshMs c3) later) \<and> status_made c3 later = map (\<lambda>l. False) (losses (ThreshMs c3) later) \<and>
          prev (after_calls c3 later) = Some (False \<and> losses (ThreshMs c3) later = [])"
        using 2(2) [OF False Cons c3(4) [symmetric] c3(2,3) e(3)] .
      have split: "rows_made c1 es = rows_made c1 ?bef @ rows_made c2 (e # later)" "status_made c1 es = status_made c1 ?bef @ status_made c2 (e # later)"
        "after_calls c1 es = after_calls c2 (e # later)"
        using calls_append [of c1 ?bef "e # later"] e(4) by (simp_all add: c2_def)
      have "rows_made c1 es = down_rows (RouterID c) ((t, True) # losses (threshold_after (ThreshMs c) ?bef) later)"
        "status_made c1 es = map (\<lambda>l. False) ((t, True) # losses (threshold_after (ThreshMs c) ?bef) later)" "prev (after_calls c1 es) = Some False"
        unfolding split using u ih c3 by (simp_all add: calls_Cons c3_def [symmetric] down_rows_def del: conn_step.simps)
      moreover have "losses (ThreshMs c) (EvDisconnected t # es) = (t, True) # losses (threshold_after (ThreshMs c) ?bef) later"
        using False Cons by simp
      ultimately show ?thesis using s by (simp add: calls_Cons silent_def del: conn_step.simps losses.simps)
    qed
  qed
next
  case (3 ms es)
  have "idle (c\<lparr>ThreshMs := ms\<rparr>)" "prev (c\<lparr>ThreshMs := ms\<rparr>) = Some p" using 3(2,3) by (simp_all add: idle_def)
  then show ?case using 3(1) [of "c\<lparr>ThreshMs := ms\<rparr>" p] 3(4) by (simp add: calls_Cons)
next
  case (4 now es)
  have "conn_step c (EvTick now) = (silent, c)" using 4(2) by (simp add: idle_def conn_ops silent_def)
  then show ?case using 4 by (simp add: calls_Cons silent_def del: conn_step.simps)
next
  case (5 now es)
  then show ?case by simp
qed

text \<open>The stretch before the first connect: its first disconnect is announced at once.\<close>

lemma first_stretch_exact:
  assumes "idle c" "prev c = None" "list_all (\<lambda>e. \<not> is_connect e) es"
  shows "rows_made c es = down_rows (RouterID c) (losses (ThreshMs c) es) \<and>
    status_made c es = replicate (if list_ex is_disconnect es then max 1 (length (losses (ThreshMs c) es)) else 0) False \<and>
    prev (after_calls c es) \<noteq> Some True"
  using assms
proof (induction es arbitrary: c)
  case Nil
  then show ?case by (simp add: down_rows_def)
next
  case (Cons e es)
  have nc: "list_all (\<lambda>e. \<not> is_connect e) es" using Cons.prems(3) by simp
  show ?case
  proof (cases e)
    case (EvConnected t)
    then show ?thesis using Cons.prems(3) by simp
  next
    case (EvThreshold ms)
    have "idle (c\<lparr>ThreshMs := ms\<rparr>)" "prev (c\<lparr>ThreshMs := ms\<rparr>) = None" using Cons.prems by (simp_all add: idle_def)
    then show ?thesis using Cons.IH [of "c\<lparr>ThreshMs := ms\<rparr>"] nc EvThreshold by (simp add: calls_Cons)
  next
    case (EvTick now)
    have "conn_step c e = (silent, c)" using Cons.prems(1) EvTick by (simp add: idle_def conn_ops silent_def)
    then show ?thesis using Cons.IH [OF Cons.prems(1,2) nc] EvTick by (simp add: calls_Cons silent_def del: conn_step.simps)
  next
    case (EvDisconnected t)
    show ?thesis
    proof (cases "ThreshMs c \<le> 0")
      case True
      define c1 where "c1 = snd (conn_step c (EvDisconnected t))"
      have c1: "fst (conn_step c (EvDisconnected t)) = \<lparr>Rows = [link_row (RouterID c) False t False], Status = [False]\<rparr>"
        "idle c1" "prev c1 = Some False" "ThreshMs c1 = ThreshMs c" "RouterID c1 = RouterID c"
        using True Cons.prems(1,2) by (auto simp: c1_def idle_def conn_ops Connectivity_row_def link_row_def)
      then show ?thesis using stretch_exact [OF c1(2,3) nc] True EvDisconnected
        by (simp add: calls_Cons c1_def [symmetric] down_rows_def map_replicate_const del: conn_step.simps)
    next
      case False
      define c1 where "c1 = (pending c t True)\<lparr>prev := Some False\<rparr>"
      have s: "conn_step c e = (\<lparr>Rows = [], Status = [False]\<rparr>, c1)"
        using False Cons.prems(1,2) EvDisconnected by (auto simp: c1_def pending_def idle_def conn_ops)
      have live: "timerLive c1" "timerAt c1 = t + ThreshMs c" "timerObs c1 = t" "timerCold c1" "ThreshMs c1 = ThreshMs c" "RouterID c1 = RouterID c" "prev c1 = Some False"
        by (simp_all add: c1_def pending_def)
      let ?bef = "takeWhile (before_deadline (t + ThreshMs c)) es"
      show ?thesis
      proof (cases "dropWhile (before_deadline (t + ThreshMs c)) es")
        case Nil
        then have "list_all (before_deadline (timerAt c1)) es" using live(2) by (simp add: dropWhile_eq_Nil_conv list_all_iff)
        moreover have "losses (ThreshMs c) (EvDisconnected t # es) = []" using False Nil by (simp del: dropWhile_eq_Nil_conv)
        ultimately show ?thesis using undecided [OF live(1)] live(7) s EvDisconnected
          by (simp add: calls_Cons down_rows_def del: conn_step.simps losses.simps)
      next
        case late: (Cons e2 later)
        obtain now where e2: "e2 = EvTick now" "t + ThreshMs c \<le> now" "list_all (\<lambda>e. \<not> is_connect e) later" "es = ?bef @ e2 # later"
          using pending_settles [OF nc late] by blast
        have "list_all (before_deadline (timerAt c1)) ?bef" using live(2) by (auto simp: list_all_iff dest: set_takeWhileD)
        note u = undecided [OF live(1) this]
        define c2 where "c2 = after_calls c1 ?bef"
        define c3 where "c3 = snd (conn_step c2 e2)"
        have c2: "c2 = c1\<lparr>ThreshMs := threshold_after (ThreshMs c) ?bef\<rparr>" using u live(5) by (simp add: c2_def)
        have c3: "fst (conn_step c2 e2) = \<lparr>Rows = [link_row (RouterID c) False t True], Status = []\<rparr>"
          "idle c3" "prev c3 = Some False" "ThreshMs c3 = threshold_after (ThreshMs c) ?bef" "RouterID c3 = RouterID c"
          using e2(1,2) live by (auto simp: c3_def c2 idle_def conn_ops Connectivity_row_def link_row_def)
        note ih = stretch_exact [OF c3(2,3) e2(3)]
        have split: "rows_made c1 es = rows_made c1 ?bef @ rows_made c2 (e2 # later)" "status_made c1 es = status_made c1 ?bef @ status_made c2 (e2 # later)"
          "after_calls c1 es = after_calls c2 (e2 # later)"
          using calls_append [of c1 ?bef "e2 # later"] e2(4) by (simp_all add: c2_def)
        have "rows_made c1 es = down_rows (RouterID c) ((t, True) # losses (threshold_after (ThreshMs c) ?bef) later)"
          "status_made c1 es = map (\<lambda>l. False) (losses (threshold_after (ThreshMs c) ?bef) later)" "prev (after_calls c1 es) = Some False"
          unfolding split using u ih c3 by (simp_all add: calls_Cons c3_def [symmetric] down_rows_def del: conn_step.simps)
        moreover have "losses (ThreshMs c) (EvDisconnected t # es) = (t, True) # losses (threshold_after (ThreshMs c) ?bef) later"
          using False late by simp
        ultimately show ?thesis using s EvDisconnected by (simp add: calls_Cons map_replicate_const del: conn_step.simps losses.simps)
      qed
    qed
  qed
qed

text \<open>The stretches put together again.\<close>

definition rejoined :: "(millis \<times> conn_event list) list \<Rightarrow> conn_event list" where
  "rejoined rest = concat (map (\<lambda>(t, s). EvConnected t # s) rest)"

lemma stretches_join:
  "stretches es = (s, rest) \<Longrightarrow> es = s @ rejoined rest \<and> list_all (\<lambda>e. \<not> is_connect e) s \<and> list_all (\<lambda>(t, s). list_all (\<lambda>e. \<not> is_connect e) s) rest"
  by (induction es arbitrary: s rest rule: stretches.induct) (auto simp: rejoined_def split: prod.splits)

lemma rest_exact:
  assumes "list_all (\<lambda>(t, s). list_all (\<lambda>e. \<not> is_connect e) s) rest" "lost \<longleftrightarrow> prev c \<noteq> Some True"
  shows "rows_made c (rejoined rest) = rows_after (RouterID c) (ThreshMs c) lost rest \<and> status_made c (rejoined rest) = status_after (ThreshMs c) rest"
  using assms
proof (induction rest arbitrary: c lost)
  case Nil
  then show ?case by (simp add: rejoined_def)
next
  case (Cons x rest)
  obtain t s where x: "x = (t, s)" by (cases x)
  define c1 where "c1 = snd (conn_step c (EvConnected t))"
  define c2 where "c2 = after_calls c1 s"
  have c1: "fst (conn_step c (EvConnected t)) = \<lparr>Rows = (if lost then [link_row (RouterID c) True t False] else []), Status = [True]\<rparr>"
    "idle c1" "prev c1 = Some True" "ThreshMs c1 = ThreshMs c" "RouterID c1 = RouterID c"
    using Cons.prems(2) by (auto simp: c1_def idle_def conn_ops Connectivity_row_def link_row_def)
  have nc: "list_all (\<lambda>e. \<not> is_connect e) s" "list_all (\<lambda>(t, s). list_all (\<lambda>e. \<not> is_connect e) s) rest" using Cons.prems(1) x by simp_all
  note st = stretch_exact [OF c1(2,3) nc(1)]
  have c2: "RouterID c2 = RouterID c" "ThreshMs c2 = threshold_after (ThreshMs c) s" "(losses (ThreshMs c) s \<noteq> []) \<longleftrightarrow> prev c2 \<noteq> Some True"
    using st c1(4,5) by (simp_all add: c2_def after_thresh)
  have "rejoined (x # rest) = EvConnected t # s @ rejoined rest" by (simp add: rejoined_def x)
  then show ?case using Cons.IH [OF nc(2) c2(3)] st c1 c2
    by (simp add: x calls_Cons calls_append c1_def [symmetric] c2_def [symmetric] del: conn_step.simps)
qed

lemma history_exact:
  "rows_made (zero_Connectivity rid T) es = history_rows rid T es \<and> status_made (zero_Connectivity rid T) es = history_status T es"
proof -
  let ?c = "zero_Connectivity rid T"
  obtain s rest where sr: "stretches es = (s, rest)" by (cases "stretches es")
  note j = stretches_join [OF sr]
  have z: "idle ?c" "prev ?c = None" "RouterID ?c = rid" "ThreshMs ?c = T" by (simp_all add: idle_def zero_Connectivity_def)
  note f = first_stretch_exact [OF z(1,2) conjunct1 [OF conjunct2 [OF j]]]
  have "True \<longleftrightarrow> prev (after_calls ?c s) \<noteq> Some True" using f by simp
  from rest_exact [OF conjunct2 [OF conjunct2 [OF j]] this]
  have r: "rows_made (after_calls ?c s) (rejoined rest) = rows_after rid (threshold_after T s) True rest"
    "status_made (after_calls ?c s) (rejoined rest) = status_after (threshold_after T s) rest"
    using z by (simp_all add: after_thresh)
  have "rows_made ?c es = rows_made ?c s @ rows_made (after_calls ?c s) (rejoined rest)" "status_made ?c es = status_made ?c s @ status_made (after_calls ?c s) (rejoined rest)"
    using calls_append [of ?c s "rejoined rest"] j by metis+
  then show ?thesis using f r z by (simp add: history_rows_def history_status_def sr)
qed

text \<open>Where a pending moment comes from: a disconnect in the past, with no connect since.\<close>

definition down_since :: "conn_event list \<Rightarrow> millis \<Rightarrow> bool" where
  "down_since h t \<longleftrightarrow> (\<exists>pre post. h = pre @ EvDisconnected t # post \<and> (\<forall>e \<in> set post. \<forall>x. e \<noteq> EvConnected x))"

lemma down_since_snoc: "down_since h t \<Longrightarrow> (\<And>x. e \<noteq> EvConnected x) \<Longrightarrow> down_since (h @ [e]) t"
  unfolding down_since_def by (metis Un_iff append.assoc append_Cons empty_iff empty_set insert_iff list.simps(15) set_append)

lemma down_since_last: "down_since (h @ [EvDisconnected t]) t"
  unfolding down_since_def by (rule exI [of _ h], rule exI [of _ "[]"]) simp

lemma timer_from_history:
  "timerLive (snd (run conn_step (zero_Connectivity rid ms) h)) \<Longrightarrow>
   down_since h (timerObs (snd (run conn_step (zero_Connectivity rid ms) h)))"
proof (induction h rule: rev_induct)
  case Nil
  then show ?case by (simp add: zero_Connectivity_def)
next
  case (snoc e h)
  let ?c = "snd (run conn_step (zero_Connectivity rid ms) h)"
  show ?case
  proof (cases e)
    case (EvConnected now)
    with snoc.prems show ?thesis by (simp add: conn_ops)
  next
    case (EvDisconnected now)
    with snoc show ?thesis
      by (cases "timerLive ?c")
        (auto simp: conn_ops down_since_last down_since_snoc split: option.splits if_splits)
  next
    case (EvTick now)
    with snoc show ?thesis
      by (auto simp: conn_ops intro!: down_since_snoc split: if_splits)
  next
    case (EvThreshold x)
    with snoc show ?thesis by (auto intro!: down_since_snoc)
  qed
qed

text \<open>The last status announced, as the pair \<open>(up, known)\<close> the tracker reports.\<close>

definition last_status :: "ConnEffect list \<Rightarrow> bool \<times> bool" where
  "last_status outs = (let ss = concat (map Status outs) in if ss = [] then (False, False) else (last ss, True))"

lemma Online_step:
  "conn_inv c \<Longrightarrow> Connectivity_Online (snd (conn_step c e)) =
     (if Status (fst (conn_step c e)) = [] then Connectivity_Online c
      else (last (Status (fst (conn_step c e))), True))"
  by (cases e; cases c rule: conn_flags_cases)
    (simp_all add: conn_ops conn_inv_def Connectivity_Online_def)

section \<open>Lemmas on the tracker\<close>

text \<open>The part of a step's fan-out that concerns one router.\<close>

fun fan_rows :: "string \<Rightarrow> fanout \<Rightarrow> Row list" where
  "fan_rows r (RowsOut rows) = filter (\<lambda>row. Row_RouterID row = r) rows"
| "fan_rows r (VerdictOut _ _) = []"

fun fan_status :: "string \<Rightarrow> fanout \<Rightarrow> bool list" where
  "fan_status r (RowsOut _) = []"
| "fan_status r (VerdictOut r' up) = (if r' = r then [up] else [])"

definition router_view :: "string \<Rightarrow> fanout list \<Rightarrow> ConnEffect" where
  "router_view r outs = \<lparr>Rows = concat (map (fan_rows r) outs), Status = concat (map (fan_status r) outs)\<rparr>"

definition tracker_view_step :: "string \<Rightarrow> Tracker \<Rightarrow> tracker_event \<Rightarrow> ConnEffect \<times> Tracker" where
  "tracker_view_step r t e = (router_view r (fst (tracker_step t e)), snd (tracker_step t e))"

text \<open>What one router should see of the tracker's calls: its own debounce, created on first use.\<close>

definition own_machine :: "string \<Rightarrow> Connectivity option \<Rightarrow> Connectivity" where
  "own_machine r m = (case m of Some c \<Rightarrow> c | None \<Rightarrow> zero_Connectivity r (DefaultSec * 1000))"

definition own_step :: "string \<Rightarrow> Connectivity option \<Rightarrow> conn_event \<Rightarrow> ConnEffect \<times> Connectivity option" where
  "own_step r m e = (let (eff, c) = conn_step (own_machine r m) e in (eff, Some c))"

fun router_spec :: "string \<Rightarrow> Connectivity option \<Rightarrow> tracker_event \<Rightarrow> ConnEffect \<times> Connectivity option" where
  "router_spec r m (TEConnected r' now) =
     (if r' = r \<and> r \<noteq> '''' then own_step r m (EvConnected now) else (silent, m))"
| "router_spec r m (TEDisconnected r' now) =
     (if r' = r \<and> r \<noteq> '''' then own_step r m (EvDisconnected now) else (silent, m))"
| "router_spec r m (TESetThreshold r' ms) =
     (if r' = r \<and> r \<noteq> '''' then own_step r m (EvThreshold ms) else (silent, m))"
| "router_spec r m (TEForget r') = (silent, if r' = r then None else m)"
| "router_spec r m (TETickAll now) =
     (case m of None \<Rightarrow> (silent, None) | Some c \<Rightarrow> own_step r m (EvTick now))"

text \<open>Both callbacks set, distinct keys, and every entry is filed under its own router's id.\<close>

definition tracker_inv :: "Tracker \<Rightarrow> bool" where
  "tracker_inv t \<longleftrightarrow> hasRows t \<and> hasVerdict t \<and> gomap_ok (st t) \<and>
     (\<forall>(r, c) \<in> set (st t). RouterID c = r \<and> conn_inv c)"

lemma conn_step_rows_id: "row \<in> set (Rows (fst (conn_step c e))) \<Longrightarrow> Row_RouterID row = RouterID c"
  by (cases e) (auto simp: conn_ops Connectivity_row_def split: if_splits option.splits)

lemma fan_rows_own:
  assumes "\<And>row. row \<in> set rows \<Longrightarrow> Row_RouterID row = r'"
  shows "filter (\<lambda>row. Row_RouterID row = r) rows = (if r = r' then rows else [])"
  using assms by (induction rows) auto

lemma concat_fan_status: "concat (map (fan_status r) (map (VerdictOut r') ss)) = (if r = r' then ss else [])"
  by (induction ss) auto

lemma concat_fan_rows_verdicts: "concat (map (fan_rows r) (map (VerdictOut r') ss)) = []"
  by (induction ss) auto

lemmas fan_simps = concat_fan_status concat_fan_rows_verdicts

lemma tracker_inv_lookup:
  "tracker_inv t \<Longrightarrow> golookup (st t) r = Some c \<Longrightarrow> RouterID c = r \<and> conn_inv c"
  by (auto simp: tracker_inv_def dest: map_of_SomeD)

lemma own_machine_ok:
  "tracker_inv t \<Longrightarrow> RouterID (own_machine r (golookup (st t) r)) = r \<and> conn_inv (own_machine r (golookup (st t) r))"
  by (auto simp: own_machine_def zero_Connectivity_def conn_inv_def split: option.splits dest: tracker_inv_lookup)

lemma entryFor_own:
  "Tracker_entryFor t r = (own_machine r (golookup (st t) r), snd (Tracker_entryFor t r))"
  by (simp add: Tracker_entryFor_def own_machine_def Let_def split: option.splits)

lemma entryFor_st: "golookup (st (snd (Tracker_entryFor t r))) r' =
    (if r' = r then Some (own_machine r (golookup (st t) r)) else golookup (st t) r')"
  by (auto simp: Tracker_entryFor_def own_machine_def gomap_simps Let_def split: option.splits)

lemma entryFor_frame [simp]:
  "hasRows (snd (Tracker_entryFor t r)) = hasRows t" "hasVerdict (snd (Tracker_entryFor t r)) = hasVerdict t"
  by (simp_all add: Tracker_entryFor_def Let_def split: option.splits)

lemma tracker_inv_put:
  "tracker_inv t \<Longrightarrow> RouterID c = r \<Longrightarrow> conn_inv c \<Longrightarrow> tracker_inv (t\<lparr>st := goput r c (st t)\<rparr>)"
  by (auto simp: tracker_inv_def set_goput)

lemma tracker_inv_entryFor: "tracker_inv t \<Longrightarrow> tracker_inv (snd (Tracker_entryFor t r))"
  by (auto simp: Tracker_entryFor_def zero_Connectivity_def conn_inv_def Let_def split: option.splits
      intro!: tracker_inv_put)

text \<open>One event applied to one router, the shape all three keyed calls share.\<close>

lemma apply_own:
  "Tracker_apply t r fn =
     (if r = '''' then ([], t)
      else let c = own_machine r (golookup (st t) r); t1 = snd (Tracker_entryFor t r)
           in (Tracker_emit t1 (Rows (fst (fn c))) @ Tracker_announce t1 r (Status (fst (fn c))),
               t1\<lparr>st := goput r (snd (fn c)) (st t1)\<rparr>))"
  by (subst Tracker_apply_def, subst entryFor_own) (simp add: Let_def split: prod.splits)

lemma apply_inv:
  assumes "tracker_inv t"
  shows "tracker_inv (snd (Tracker_apply t r (\<lambda>c. conn_step c e)))"
proof -
  let ?c = "own_machine r (golookup (st t) r)"
  from own_machine_ok [OF assms] have "RouterID (snd (conn_step ?c e)) = r" "conn_inv (snd (conn_step ?c e))"
    by (simp_all add: conn_step_RouterID conn_step_inv)
  with assms show ?thesis by (simp add: apply_own Let_def tracker_inv_put tracker_inv_entryFor)
qed

lemma apply_refines:
  assumes "tracker_inv t"
  shows "router_view r (fst (Tracker_apply t r' (\<lambda>c. conn_step c e))) =
      (if r' = r \<and> r \<noteq> '''' then fst (own_step r (golookup (st t) r) e) else silent)"
    and "golookup (st (snd (Tracker_apply t r' (\<lambda>c. conn_step c e)))) r =
      (if r' = r \<and> r \<noteq> '''' then snd (own_step r (golookup (st t) r) e) else golookup (st t) r)"
proof -
  let ?c = "own_machine r' (golookup (st t) r')"
  from assms have on: "hasRows t" "hasVerdict t" by (simp_all add: tracker_inv_def)
  have rows: "\<And>row. row \<in> set (Rows (fst (conn_step ?c e))) \<Longrightarrow> Row_RouterID row = r'"
    using conn_step_rows_id own_machine_ok [OF assms, of r'] by fastforce
  show "router_view r (fst (Tracker_apply t r' (\<lambda>c. conn_step c e))) =
      (if r' = r \<and> r \<noteq> '''' then fst (own_step r (golookup (st t) r) e) else silent)"
    using on fan_rows_own [OF rows, where r = r]
    by (auto simp: apply_own Let_def own_step_def router_view_def silent_def Tracker_emit_def
        Tracker_announce_def fan_simps simp del: map_map split: prod.splits)
  show "golookup (st (snd (Tracker_apply t r' (\<lambda>c. conn_step c e)))) r =
      (if r' = r \<and> r \<noteq> '''' then snd (own_step r (golookup (st t) r) e) else golookup (st t) r)"
    by (auto simp: apply_own Let_def own_step_def gomap_simps entryFor_st split: prod.splits)
qed

lemma tick_entries_keys: "tick_entries t now es = (rows, outs, es1) \<Longrightarrow> map fst es1 = map fst es"
  by (induction es arbitrary: rows outs es1) (auto split: prod.splits)

lemma tick_entries_lookup:
  "tick_entries t now es = (rows, outs, es1) \<Longrightarrow>
   golookup es1 r = map_option (\<lambda>c. snd (Connectivity_Tick c now)) (golookup es r)"
  by (induction es arbitrary: rows outs es1) (auto split: prod.splits)

lemma tick_entries_set:
  "tick_entries t now es = (rows, outs, es1) \<Longrightarrow>
   set es1 = (\<lambda>(r, c). (r, snd (Connectivity_Tick c now))) ` set es"
proof (induction es arbitrary: rows outs es1)
  case Nil
  then show ?case by simp
next
  case (Cons p es)
  obtain r c where p: "p = (r, c)" by (cases p)
  obtain rows' outs' es' where rec: "tick_entries t now es = (rows', outs', es')"
    by (metis prod_cases3)
  from Cons.IH [OF rec] Cons.prems show ?case by (auto simp: p rec split: prod.splits)
qed

lemma tick_entries_absent:
  assumes "tick_entries t now es = (rows, outs, es1)" and "r \<notin> set (map fst es)"
    and "\<forall>(r', c) \<in> set es. RouterID c = r'"
  shows "filter (\<lambda>row. Row_RouterID row = r) rows = [] \<and> concat (map (fan_status r) outs) = []"
  using assms
proof (induction es arbitrary: rows outs es1)
  case Nil
  then show ?case by simp
next
  case (Cons p es)
  obtain r' c where p: "p = (r', c)" by (cases p)
  obtain rows' outs' es' where rec: "tick_entries t now es = (rows', outs', es')"
    by (metis prod_cases3)
  have "\<And>row. row \<in> set (Rows (fst (Connectivity_Tick c now))) \<Longrightarrow> Row_RouterID row = r'"
    using conn_step_rows_id [of _ c "EvTick now"] Cons.prems(3) by (auto simp: p)
  from fan_rows_own [OF this, where r = r] Cons.IH [OF rec] Cons.prems show ?case
    by (auto simp: p rec Tracker_announce_def fan_simps simp del: map_map split: prod.splits)
qed

lemma tick_entries_view:
  assumes "tick_entries t now es = (rows, outs, es1)" and "gomap_ok es"
    and "\<forall>(r', c) \<in> set es. RouterID c = r'" and "hasVerdict t"
  shows "filter (\<lambda>row. Row_RouterID row = r) rows =
      (case golookup es r of None \<Rightarrow> [] | Some c \<Rightarrow> Rows (fst (Connectivity_Tick c now))) \<and>
    concat (map (fan_status r) outs) =
      (case golookup es r of None \<Rightarrow> [] | Some c \<Rightarrow> Status (fst (Connectivity_Tick c now)))"
  using assms
proof (induction es arbitrary: rows outs es1)
  case Nil
  then show ?case by simp
next
  case (Cons p es)
  obtain r' c where p: "p = (r', c)" by (cases p)
  obtain rows' outs' es' where rec: "tick_entries t now es = (rows', outs', es')"
    by (metis prod_cases3)
  have "\<And>row. row \<in> set (Rows (fst (Connectivity_Tick c now))) \<Longrightarrow> Row_RouterID row = r'"
    using conn_step_rows_id [of _ c "EvTick now"] Cons.prems(3) by (auto simp: p)
  note own = fan_rows_own [OF this, where r = r]
  show ?case
  proof (cases "r' = r")
    case True
    with Cons.prems have "r \<notin> set (map fst es)" "\<forall>(r', c) \<in> set es. RouterID c = r'" by (auto simp: p)
    from tick_entries_absent [OF rec this] own True Cons.prems show ?thesis
      by (auto simp: p rec Tracker_announce_def fan_simps simp del: map_map split: prod.splits)
  next
    case False
    with Cons.IH [OF rec] own Cons.prems show ?thesis
      by (auto simp: p rec Tracker_announce_def fan_simps simp del: map_map split: prod.splits)
  qed
qed

lemma fan_rows_announced: "tick_entries t now es = (rows, outs, es1) \<Longrightarrow> concat (map (fan_rows r) outs) = []"
  by (induction es arbitrary: rows outs es1)
    (auto simp: Tracker_announce_def split: prod.splits if_splits)

lemma TickAll_inv:
  assumes "tracker_inv t"
  shows "tracker_inv (snd (Tracker_TickAll t now))"
proof -
  obtain rows outs es1 where te: "tick_entries t now (st t) = (rows, outs, es1)" by (metis prod_cases3)
  have "RouterID (snd (Connectivity_Tick c now)) = RouterID c" for c
    using conn_step_RouterID [of c "EvTick now"] by simp
  with assms tick_entries_keys [OF te] tick_entries_set [OF te] show ?thesis
    by (auto simp: Tracker_TickAll_def te tracker_inv_def inv_intros)
qed

lemma tracker_step_inv: "tracker_inv t \<Longrightarrow> tracker_inv (snd (tracker_step t e))"
proof (cases e)
  case (TEConnected r now)
  assume "tracker_inv t"
  with apply_inv [of t r "EvConnected now"] TEConnected show ?thesis by (simp add: Tracker_Connected_def)
next
  case (TEDisconnected r now)
  assume "tracker_inv t"
  with apply_inv [of t r "EvDisconnected now"] TEDisconnected show ?thesis by (simp add: Tracker_Disconnected_def)
next
  case (TESetThreshold r ms)
  assume t: "tracker_inv t"
  have "tracker_inv (Tracker_SetThreshold t r ms)"
    using own_machine_ok [OF t, of r] t
    by (subst Tracker_SetThreshold_def, subst entryFor_own)
      (simp add: tracker_inv_put tracker_inv_entryFor conn_inv_ThreshMs)
  with TESetThreshold show ?thesis by simp
next
  case (TEForget r)
  assume "tracker_inv t"
  then show ?thesis
    using TEForget by (auto simp: Tracker_Forget_def tracker_inv_def)
next
  case (TETickAll now)
  assume "tracker_inv t"
  with TETickAll show ?thesis by (simp add: TickAll_inv)
qed

lemma SetThreshold_lookup:
  "golookup (st (Tracker_SetThreshold t r' ms)) r =
     (if r' = r \<and> r \<noteq> '''' then snd (own_step r (golookup (st t) r) (EvThreshold ms)) else golookup (st t) r)"
  by (subst Tracker_SetThreshold_def, subst entryFor_own)
    (auto simp: own_step_def gomap_simps entryFor_st)

lemma TickAll_refines:
  assumes "tracker_inv t"
  shows "router_spec r (golookup (st t) r) (TETickAll now) =
    (router_view r (fst (Tracker_TickAll t now)), golookup (st (snd (Tracker_TickAll t now))) r)"
proof -
  obtain rows outs es1 where te: "tick_entries t now (st t) = (rows, outs, es1)" by (metis prod_cases3)
  from assms have i: "gomap_ok (st t)" "\<forall>(r', c) \<in> set (st t). RouterID c = r'" "hasVerdict t" "hasRows t"
    by (auto simp: tracker_inv_def)
  from tick_entries_view [OF te i(1,2,3), of r] tick_entries_lookup [OF te, of r] fan_rows_announced [OF te, of r] i(4)
  show ?thesis
    by (auto simp: Tracker_TickAll_def te router_view_def Tracker_emit_def own_step_def own_machine_def silent_def
        split: option.splits prod.splits)
qed

lemma tracker_step_refines:
  assumes "tracker_inv t"
  shows "router_spec r (golookup (st t) r) e =
    (fst (tracker_view_step r t e), golookup (st (snd (tracker_view_step r t e))) r)"
proof (cases e)
  case (TEConnected r' now)
  with apply_refines [OF assms, where r = r and r' = r' and e = "EvConnected now"] show ?thesis
    by (simp add: tracker_view_step_def Tracker_Connected_def)
next
  case (TEDisconnected r' now)
  with apply_refines [OF assms, where r = r and r' = r' and e = "EvDisconnected now"] show ?thesis
    by (simp add: tracker_view_step_def Tracker_Disconnected_def)
next
  case (TESetThreshold r' ms)
  then show ?thesis
    by (simp add: tracker_view_step_def SetThreshold_lookup router_view_def silent_def own_step_def)
next
  case (TEForget r')
  then show ?thesis
    by (simp add: tracker_view_step_def Tracker_Forget_def gomap_simps router_view_def silent_def)
next
  case (TETickAll now)
  with TickAll_refines [OF assms, of r now] show ?thesis by (simp add: tracker_view_step_def)
qed

interpretation tracker: refined_machine "tracker_view_step r" tracker_inv "\<lambda>t. golookup (st t) r" "router_spec r"
  for r
  by unfold_locales (simp add: tracker_view_step_def tracker_step_inv, rule tracker_step_refines)

lemma tracker_inv_New [inv_intros]: "tracker_inv (New_Tracker True True)"
  by (simp add: tracker_inv_def New_Tracker_def)

lemma run_tracker_view: "snd (run (tracker_view_step r) t es) = snd (run tracker_step t es)"
  by (induction es arbitrary: t) (simp_all add: tracker_view_step_def)

lemma run_tracker_view_fst:
  "fst (run (tracker_view_step r) t es) = map (router_view r) (fst (run tracker_step t es))"
  by (induction es arbitrary: t) (simp_all add: tracker_view_step_def)

section \<open>Properties\<close>

text \<open>
  An outage shorter than the threshold leaves no trace. An online router loses its link at
  \<open>t0\<close>; whatever follows short of a connect or of a tick at \<open>t0 + threshold\<close> (repeated closes
  included) and then a reconnect, nothing is recorded, no outage is announced, and the only status
  announced is the reconnect's.
\<close>

theorem blip_absorbed:
  assumes "prev c = Some True" and "\<not> timerLive c" and "0 < ThreshMs c"
    and "list_all (before_deadline (t0 + ThreshMs c)) es"
  shows "concat (map Rows (fst (run conn_step c (EvDisconnected t0 # es @ [EvConnected t1])))) = [] \<and>
    concat (map Status (fst (run conn_step c (EvDisconnected t0 # es @ [EvConnected t1])))) = [True] \<and>
    Connectivity_Online (snd (run conn_step c (EvDisconnected t0 # es @ [EvConnected t1]))) = (True, True)"
proof -
  let ?c1 = "c\<lparr>timerObs := t0, timerAt := t0 + ThreshMs c, timerLive := True\<rparr>"
  have d: "conn_step c (EvDisconnected t0) = (silent, ?c1)"
    using assms(1,2,3) by (simp add: conn_ops silent_def)
  from assms(4) obtain ms where "fst (run conn_step ?c1 es) = map (\<lambda>_. silent) es"
      and ms: "snd (run conn_step ?c1 es) = ?c1\<lparr>ThreshMs := ms\<rparr>"
    using pending_run [of ?c1 es] by auto
  moreover have "concat (map Rows (map (\<lambda>_. silent) es)) = []" "concat (map Status (map (\<lambda>_. silent) es)) = []"
    by (simp_all add: silent_def)
  ultimately show ?thesis using assms(1)
    by (simp add: d silent_def run_append_fst run_append_snd Connectivity_Connected_def Let_def
        Connectivity_Online_def del: conn_step.simps(2))
qed

theorem blip_absorbed_witness:
  "Connectivity_Online (snd (run conn_step
     ((zero_Connectivity ''r1'' 30000)\<lparr>prev := Some True\<rparr>)
     (EvDisconnected 1000 # [EvTick 2000, EvDisconnected 3000] @ [EvConnected 7000]))) = (True, True)"
  using blip_absorbed [of "(zero_Connectivity ''r1'' 30000)\<lparr>prev := Some True\<rparr>" 1000
      "[EvTick 2000, EvDisconnected 3000]" 7000]
  by (simp add: zero_Connectivity_def)

text \<open>
  An outage that outlasts the threshold is declared once, at the first tick past the deadline,
  and its row carries the moment the link was seen to go rather than the moment of the tick.
\<close>

theorem outage_declared:
  assumes "prev c = Some True" and "\<not> timerLive c" and "\<not> timerCold c" and "0 < ThreshMs c"
    and "list_all (before_deadline (t0 + ThreshMs c)) es" and "t0 + ThreshMs c \<le> t1"
  shows "fst (run conn_step c (EvDisconnected t0 # es @ [EvTick t1])) =
      silent # map (\<lambda>_. silent) es @
      [\<lparr>Rows = [\<lparr>Table = ''connectivity'', Row_RouterID = RouterID c, Row_Connected = False, TS = t0,
          ExplicitTS = True\<rparr>], Status = [False]\<rparr>] \<and>
    Connectivity_Online (snd (run conn_step c (EvDisconnected t0 # es @ [EvTick t1]))) = (False, True)"
proof -
  let ?c1 = "c\<lparr>timerObs := t0, timerAt := t0 + ThreshMs c, timerLive := True\<rparr>"
  have d: "conn_step c (EvDisconnected t0) = (silent, ?c1)"
    using assms(1,2,4) by (simp add: conn_ops silent_def)
  from assms(5) obtain ms where "fst (run conn_step ?c1 es) = map (\<lambda>_. silent) es"
      and "snd (run conn_step ?c1 es) = ?c1\<lparr>ThreshMs := ms\<rparr>"
    using pending_run [of ?c1 es] by auto
  with assms(3,6) show ?thesis
    by (simp add: d run_append_fst run_append_snd Connectivity_Tick_def Let_def Connectivity_row_def
        Connectivity_Online_def del: conn_step.simps(2))
qed

theorem outage_declared_witness:
  "Connectivity_Online (snd (run conn_step
     ((zero_Connectivity ''r1'' 30000)\<lparr>prev := Some True\<rparr>)
     (EvDisconnected 1000 # [EvDisconnected 5000] @ [EvTick 31000]))) = (False, True)"
  using outage_declared [of "(zero_Connectivity ''r1'' 30000)\<lparr>prev := Some True\<rparr>" 1000
      "[EvDisconnected 5000]" 31000]
  by (simp add: zero_Connectivity_def)

text \<open>
  No row is invented. After any history, a row written by a connect says ``up'' at that moment
  and only when the verdict was not already up; a row written by a disconnect says ``down'' at that
  moment; a row written by a tick says ``down'' at the moment of a disconnect of the history that no
  connect has followed.
\<close>

theorem rows_are_observed:
  assumes "row \<in> set (Rows (fst (conn_step (snd (run conn_step (zero_Connectivity rid ms) h)) e)))"
  shows "case e of
      EvConnected now \<Rightarrow> Row_Connected row \<and> TS row = now \<and>
        Connectivity_Online (snd (run conn_step (zero_Connectivity rid ms) h)) \<noteq> (True, True)
    | EvDisconnected now \<Rightarrow> \<not> Row_Connected row \<and> TS row = now
    | EvTick now \<Rightarrow> \<not> Row_Connected row \<and> ExplicitTS row \<and> down_since h (TS row)
    | EvThreshold _ \<Rightarrow> False"
proof (cases e)
  case (EvTick now)
  let ?c = "snd (run conn_step (zero_Connectivity rid ms) h)"
  from assms EvTick have "timerLive ?c" and "row = Connectivity_row ?c False (timerObs ?c) True"
    by (auto simp: Connectivity_Tick_def Let_def split: if_splits)
  with timer_from_history [of rid ms h] EvTick show ?thesis by (simp add: Connectivity_row_def)
qed (use assms in \<open>auto simp: conn_ops Connectivity_row_def Connectivity_Online_def
      split: if_splits option.splits\<close>)

theorem rows_are_observed_witness:
  "down_since [EvConnected 0, EvDisconnected 1000] 1000"
  using rows_are_observed [of "\<lparr>Table = ''connectivity'', Row_RouterID = ''r1'', Row_Connected = False,
      TS = 1000, ExplicitTS = True\<rparr>" "''r1''" 30000 "[EvConnected 0, EvDisconnected 1000]" "EvTick 40000"]
  by (simp add: zero_Connectivity_def conn_ops Connectivity_row_def)

text \<open>
  The badge and the alerts agree: after any history the debounced verdict is the last status
  that was announced, and it is ``not known'' exactly when nothing was announced.
\<close>

theorem verdict_is_last_status:
  "Connectivity_Online (snd (run conn_step (zero_Connectivity rid ms) h)) =
     last_status (fst (run conn_step (zero_Connectivity rid ms) h))"
proof (induction h rule: rev_induct)
  case Nil
  show ?case by (simp add: zero_Connectivity_def Connectivity_Online_def last_status_def)
next
  case (snoc e h)
  from Online_step [OF conn.run_inv [OF conn_inv_zero]] snoc.IH show ?case
    by (auto simp: last_status_def Let_def)
qed

text \<open>
  C11. The debounce records and announces exactly what the history of calls amounts to. From a router never observed, in
  every sequence of connects, disconnects, ticks and changes of the threshold: an outage counts at once when the threshold
  in force is not positive, and otherwise only when, with no connect in between, a tick comes at or past its deadline, the
  moment the link was seen to go plus the threshold in force then; further disconnects and changes of the threshold until
  then do not move it. Every outage that counts writes one row, dated at the moment the link was seen to go, and every
  connect writes one exactly when it is the first or an outage counted since the last. A connect announces that the router
  is up; an outage that counts announces that it is down, except that before the first connect the very first disconnect
  does so at once and its outage then only writes the row. The verdict shown is the last status announced. As this holds of
  every history it holds of its beginnings, so each row and status appears with the call that settles it.
\<close>

theorem debounce_exact:
  "concat (map Rows (fst (run conn_step (zero_Connectivity rid T) es))) = history_rows rid T es \<and>
   concat (map Status (fst (run conn_step (zero_Connectivity rid T) es))) = history_status T es \<and>
   Connectivity_Online (snd (run conn_step (zero_Connectivity rid T) es)) =
     (if history_status T es = [] then (False, False) else (last (history_status T es), True))"
  using history_exact [of rid T es] verdict_is_last_status [of rid T es]
  by (simp add: rows_made_def status_made_def last_status_def Let_def)

text \<open>
  C12. The tracker keeps routers apart: after any sequence of calls, in any order over any routers, one
  router's state, its recorded rows and its announced verdicts are those of a debounce of its own that
  saw only the calls naming it, the sweeps, and its own removal.
\<close>

theorem tracker_is_product:
  "run (router_spec r) None es =
     (map (router_view r) (fst (run tracker_step (New_Tracker True True) es)),
      golookup (st (snd (run tracker_step (New_Tracker True True) es))) r)"
  using tracker.run_refines [OF tracker_inv_New, where r = r and es = es]
  by (simp add: run_tracker_view run_tracker_view_fst New_Tracker_def)

end
