(* ===== verification/Dormancy.thy ===== *)
theory Dormancy
  imports Prelude
begin

text \<open>
  The collector dormancy supervisor: \<^verbatim>\<open>internal/dormancy/dormancy.go\<close>, the state of one collector,
  and \<^verbatim>\<open>internal/dormancy/supervisor.go\<close>, which holds one state per collector and plans, on each tick,
  which collectors to suspend, wake and probe. Neither reads a clock or performs anything: the
  caller passes the time in and carries out the plan.
\<close>

section \<open>One collector\<close>

datatype Verdict = VNone | Sleep | Wake

record Options =
  EmptyThreshold :: int
  BackoffMs :: millis
  MaxBackoffMs :: millis
  ProbeTimeoutMs :: millis
  RestampMs :: millis

definition Defaults :: Options where
  "Defaults = \<lparr>EmptyThreshold = 3, BackoffMs = 60000, MaxBackoffMs = 600000,
     ProbeTimeoutMs = 30000, RestampMs = 45000\<rparr>"

record Observation =
  obs_TS :: millis
  Empty :: bool
  Unsupported :: bool

record State =
  opt :: Options
  streak :: int
  dormant :: bool
  probing :: bool
  lastTS :: millis
  wakeAt :: millis
  probeDeadline :: millis
  lastCountedAt :: millis
  delay :: millis

definition New_State :: "Options \<Rightarrow> State" where
  "New_State o1 = \<lparr>opt = o1, streak = 0, dormant = False, probing = False, lastTS = 0, wakeAt = 0,
     probeDeadline = 0, lastCountedAt = 0, delay = BackoffMs o1\<rparr>"

definition sleepFor :: "State \<Rightarrow> millis \<Rightarrow> millis \<Rightarrow> State" where
  "sleepFor s ms now = s\<lparr>dormant := True, streak := 0, delay := ms, wakeAt := now + ms\<rparr>"

definition min64 :: "int \<Rightarrow> int \<Rightarrow> int" where
  "min64 a b = (if a < b then a else b)"

definition backOff :: "State \<Rightarrow> millis \<Rightarrow> State" where
  "backOff s now =
     (let d = min64 (delay s * 2) (MaxBackoffMs (opt s))
      in s\<lparr>probing := False, delay := d, wakeAt := now + d\<rparr>)"

definition State_Observe :: "State \<Rightarrow> Observation \<Rightarrow> millis \<Rightarrow> Verdict \<times> State" where
  "State_Observe s obs now =
     (if obs_TS obs = 0 then (VNone, s)
      else let bad = (Unsupported obs \<or> Empty obs); fresh = (obs_TS obs \<noteq> lastTS s) in
        if \<not> fresh \<and> (\<not> bad \<or> dormant s) then (VNone, s)
        else if \<not> fresh \<and> (lastCountedAt s = 0 \<or> now - lastCountedAt s < RestampMs (opt s)) then (VNone, s)
        else let s1 = s\<lparr>lastTS := obs_TS obs, lastCountedAt := now\<rparr> in
          if \<not> bad then
            (let s2 = s1\<lparr>streak := 0, delay := BackoffMs (opt s), probing := False\<rparr> in
             if \<not> dormant s then (VNone, s2) else (Wake, s2\<lparr>dormant := False, wakeAt := 0\<rparr>))
          else if dormant s then (VNone, backOff s1 now)
          else if Unsupported obs then (Sleep, sleepFor s1 (MaxBackoffMs (opt s)) now)
          else let s2 = s1\<lparr>streak := streak s + 1\<rparr> in
            if streak s2 < EmptyThreshold (opt s) then (VNone, s2)
            else (Sleep, sleepFor s2 (BackoffMs (opt s)) now))"

definition State_DueForProbe :: "State \<Rightarrow> millis \<Rightarrow> bool \<times> State" where
  "State_DueForProbe s now =
     (if \<not> dormant s then (False, s)
      else if probing s then (if now < probeDeadline s then (False, s) else (False, backOff s now))
      else (now \<ge> wakeAt s, s))"

definition State_MarkProbed :: "State \<Rightarrow> millis \<Rightarrow> State" where
  "State_MarkProbed s now = s\<lparr>probing := True, probeDeadline := now + ProbeTimeoutMs (opt s)\<rparr>"

definition State_Reset :: "State \<Rightarrow> State" where
  "State_Reset s = s\<lparr>streak := 0, dormant := False, probing := False, lastTS := 0, wakeAt := 0,
     probeDeadline := 0, lastCountedAt := 0, delay := BackoffMs (opt s)\<rparr>"

section \<open>The supervisor\<close>

datatype OpKind = OpSuspend | OpWake | OpProbe

record Op =
  op_Key :: string
  Do :: OpKind

record Collector =
  Key :: string
  Enabled :: bool
  Present :: bool
  c_TS :: millis
  c_Empty :: bool
  c_Unsupported :: bool

record TickInput =
  Now :: millis
  Watching :: bool
  StartupReady :: bool
  Destroyed :: bool
  Collectors :: "Collector list"

record Plan =
  Ops :: "Op list"
  Emit :: bool
  Dormant :: "string list"

definition empty_Plan :: Plan where "empty_Plan = \<lparr>Ops = [], Emit = False, Dormant = []\<rparr>"

record Supervisor =
  sup_opt :: Options
  states :: "(string, State) gomap"

definition NewSupervisor :: "Options \<Rightarrow> Supervisor" where
  "NewSupervisor o1 = \<lparr>sup_opt = o1, states = []\<rparr>"

definition Supervisor_state :: "Supervisor \<Rightarrow> string \<Rightarrow> State \<times> Supervisor" where
  "Supervisor_state s key =
     (case golookup (states s) key of
        Some x \<Rightarrow> (x, s)
      | None \<Rightarrow> (let x = New_State (sup_opt s) in (x, s\<lparr>states := goput key x (states s)\<rparr>)))"

definition Supervisor_IsDormant :: "Supervisor \<Rightarrow> string \<Rightarrow> bool" where
  "Supervisor_IsDormant s key =
     (case golookup (states s) key of None \<Rightarrow> False | Some x \<Rightarrow> dormant x)"

definition Supervisor_Dormant :: "Supervisor \<Rightarrow> string list" where
  "Supervisor_Dormant s = sort (map fst (filter (\<lambda>(k, x). dormant x) (states s)))"

text \<open>The verdict of one collector's payload, when it has one.\<close>

definition judge :: "State \<Rightarrow> Collector \<Rightarrow> millis \<Rightarrow> Op list \<times> State" where
  "judge x c now =
     (if Present c
      then (case State_Observe x \<lparr>obs_TS = c_TS c, Empty = c_Empty c, Unsupported = c_Unsupported c\<rparr> now of
              (Sleep, x1) \<Rightarrow> ([\<lparr>op_Key = Key c, Do = OpSuspend\<rparr>], x1)
            | (Wake, x1) \<Rightarrow> ([\<lparr>op_Key = Key c, Do = OpWake\<rparr>], x1)
            | (VNone, x1) \<Rightarrow> ([], x1))
      else ([], x))"

text \<open>The probe decision that follows it.\<close>

definition probe :: "State \<Rightarrow> Collector \<Rightarrow> millis \<Rightarrow> Op list \<times> State" where
  "probe x c now =
     (case State_DueForProbe x now of
        (True, x1) \<Rightarrow> ([\<lparr>op_Key = Key c, Do = OpProbe\<rparr>], State_MarkProbed x1 now)
      | (False, x1) \<Rightarrow> ([], x1))"

text \<open>The body of the loop for one collector: the operations, whether a verdict was given, the new map.\<close>

definition tick_collector :: "Supervisor \<Rightarrow> Collector \<Rightarrow> millis \<Rightarrow> Op list \<times> bool \<times> Supervisor" where
  "tick_collector s c now =
     (if \<not> Enabled c then ([], False, s)
      else let (x, s1) = Supervisor_state s (Key c);
               (ops1, x1) = judge x c now;
               (ops2, x2) = probe x1 c now
           in (ops1 @ ops2, ops1 \<noteq> [], s1\<lparr>states := goput (Key c) x2 (states s1)\<rparr>))"

fun tick_loop :: "Supervisor \<Rightarrow> Collector list \<Rightarrow> millis \<Rightarrow> Op list \<times> bool \<times> Supervisor" where
  "tick_loop s [] now = ([], False, s)"
| "tick_loop s (c # cs) now =
     (let (ops1, e1, s1) = tick_collector s c now; (ops2, e2, s2) = tick_loop s1 cs now
      in (ops1 @ ops2, e1 \<or> e2, s2))"

definition Supervisor_Tick :: "Supervisor \<Rightarrow> TickInput \<Rightarrow> Plan \<times> Supervisor" where
  "Supervisor_Tick s inp =
     (if \<not> StartupReady inp \<or> Destroyed inp \<or> \<not> Watching inp then (empty_Plan, s)
      else let (ops, emit, s1) = tick_loop s (Collectors inp) (Now inp)
           in (\<lparr>Ops = ops, Emit = emit, Dormant = (if emit then Supervisor_Dormant s1 else [])\<rparr>, s1))"

definition Supervisor_Reset :: "Supervisor \<Rightarrow> Plan \<times> Supervisor" where
  "Supervisor_Reset s =
     (let keys = sort (gokeys (states s));
          asleep = filter (Supervisor_IsDormant s) keys;
          s1 = s\<lparr>states := map (\<lambda>(k, x). (k, State_Reset x)) (states s)\<rparr>
      in (\<lparr>Ops = map (\<lambda>k. \<lparr>op_Key = k, Do = OpProbe\<rparr>) asleep, Emit = (asleep \<noteq> []),
           Dormant = (if asleep \<noteq> [] then Supervisor_Dormant s1 else [])\<rparr>, s1))"

definition Supervisor_WakeForFocus :: "Supervisor \<Rightarrow> string \<Rightarrow> Plan \<times> Supervisor" where
  "Supervisor_WakeForFocus s key =
     (case golookup (states s) key of
        None \<Rightarrow> (empty_Plan, s)
      | Some x \<Rightarrow>
          if \<not> dormant x then (empty_Plan, s)
          else let s1 = s\<lparr>states := goput key (State_Reset x) (states s)\<rparr>
               in (\<lparr>Ops = [\<lparr>op_Key = key, Do = OpProbe\<rparr>], Emit = True, Dormant = Supervisor_Dormant s1\<rparr>, s1))"

datatype sup_event = SETick TickInput | SEReset | SEFocus string

fun sup_step :: "Supervisor \<Rightarrow> sup_event \<Rightarrow> Plan \<times> Supervisor" where
  "sup_step s (SETick inp) = Supervisor_Tick s inp"
| "sup_step s SEReset = Supervisor_Reset s"
| "sup_step s (SEFocus key) = Supervisor_WakeForFocus s key"

lemmas dorm_ops = State_Observe_def State_DueForProbe_def State_MarkProbed_def State_Reset_def
  sleepFor_def backOff_def min64_def Let_def

section \<open>Invariants\<close>

definition opts_ok :: "Options \<Rightarrow> bool" where
  "opts_ok o1 \<longleftrightarrow> 0 < EmptyThreshold o1 \<and> 0 < BackoffMs o1 \<and> BackoffMs o1 \<le> MaxBackoffMs o1 \<and>
     0 \<le> ProbeTimeoutMs o1"

definition state_inv :: "State \<Rightarrow> bool" where
  "state_inv s \<longleftrightarrow> opts_ok (opt s) \<and> BackoffMs (opt s) \<le> delay s \<and> delay s \<le> MaxBackoffMs (opt s) \<and>
     0 \<le> streak s \<and> streak s < EmptyThreshold (opt s) \<and> (dormant s \<longrightarrow> streak s = 0) \<and>
     (probing s \<longrightarrow> dormant s)"

text \<open>When a sleeping collector will be looked at again, at the latest, as seen at time \<open>t\<close>.\<close>

definition deadlines_by :: "millis \<Rightarrow> State \<Rightarrow> bool" where
  "deadlines_by t s \<longleftrightarrow> (dormant s \<longrightarrow> wakeAt s \<le> t + MaxBackoffMs (opt s)) \<and>
     (probing s \<longrightarrow> probeDeadline s \<le> t + ProbeTimeoutMs (opt s))"

definition sup_inv :: "Supervisor \<Rightarrow> bool" where
  "sup_inv s \<longleftrightarrow> opts_ok (sup_opt s) \<and> gomap_ok (states s) \<and>
     (\<forall>(k, x) \<in> set (states s). opt x = sup_opt s \<and> state_inv x)"

lemma Observe_opt [simp]: "opt (snd (State_Observe s obs now)) = opt s"
  by (simp add: dorm_ops)

lemma DueForProbe_opt [simp]: "opt (snd (State_DueForProbe s now)) = opt s"
  by (simp add: dorm_ops)

lemma state_inv_New [inv_intros]: "opts_ok o1 \<Longrightarrow> state_inv (New_State o1)"
  by (simp add: state_inv_def New_State_def opts_ok_def)

lemma state_inv_backOff [inv_intros]: "state_inv s \<Longrightarrow> state_inv (backOff s now)"
  by (auto simp: state_inv_def opts_ok_def backOff_def min64_def Let_def)

lemma state_inv_Observe [inv_intros]: "state_inv s \<Longrightarrow> state_inv (snd (State_Observe s obs now))"
  by (auto simp: state_inv_def opts_ok_def dorm_ops)

lemma state_inv_Due [inv_intros]: "state_inv s \<Longrightarrow> state_inv (snd (State_DueForProbe s now))"
  by (simp add: State_DueForProbe_def inv_intros)

lemma Due_dormant: "fst (State_DueForProbe s now) \<Longrightarrow> dormant s \<and> snd (State_DueForProbe s now) = s"
  by (auto simp: State_DueForProbe_def split: if_splits)

lemma state_inv_Mark [inv_intros]: "state_inv s \<Longrightarrow> dormant s \<Longrightarrow> state_inv (State_MarkProbed s now)"
  by (simp add: state_inv_def State_MarkProbed_def)

lemma state_inv_Reset [inv_intros]: "state_inv s \<Longrightarrow> state_inv (State_Reset s)"
  by (simp add: state_inv_def State_Reset_def opts_ok_def)

lemma Reset_simps [simp]: "opt (State_Reset s) = opt s" "dormant (State_Reset s) = False"
  by (simp_all add: State_Reset_def)

lemma judge_snd:
  "snd (judge x c now) = (if Present c
     then snd (State_Observe x \<lparr>obs_TS = c_TS c, Empty = c_Empty c, Unsupported = c_Unsupported c\<rparr> now) else x)"
  by (simp add: judge_def split: prod.splits Verdict.splits)

lemma probe_eq:
  "probe x c now = (if fst (State_DueForProbe x now)
     then ([\<lparr>op_Key = Key c, Do = OpProbe\<rparr>], State_MarkProbed (snd (State_DueForProbe x now)) now)
     else ([], snd (State_DueForProbe x now)))"
  by (simp add: probe_def split: prod.splits bool.splits)

lemma judge_inv [inv_intros]: "state_inv x \<Longrightarrow> state_inv (snd (judge x c now))"
  by (simp add: judge_snd state_inv_Observe)

lemma judge_opt [simp]: "opt (snd (judge x c now)) = opt x"
  by (simp add: judge_snd)

lemma probe_inv [inv_intros]: "state_inv x \<Longrightarrow> state_inv (snd (probe x c now))"
  using Due_dormant [of x now] by (simp add: probe_eq state_inv_Due state_inv_Mark)

lemma probe_opt [simp]: "opt (snd (probe x c now)) = opt x"
  by (simp add: probe_eq State_MarkProbed_def)

text \<open>A verdict is given exactly when the collector falls asleep or wakes; a probe changes neither.\<close>

lemma judge_flip:
  "fst (judge x c now) =
     (if \<not> dormant x \<and> dormant (snd (judge x c now)) then [\<lparr>op_Key = Key c, Do = OpSuspend\<rparr>]
      else if dormant x \<and> \<not> dormant (snd (judge x c now)) then [\<lparr>op_Key = Key c, Do = OpWake\<rparr>] else [])"
  by (simp add: judge_def dorm_ops)

lemma probe_dormant [simp]: "dormant (snd (probe x c now)) = dormant x"
  by (simp add: probe_eq dorm_ops)

lemma probe_ops: "fst (probe x c now) = [] \<or> fst (probe x c now) = [\<lparr>op_Key = Key c, Do = OpProbe\<rparr>]"
  by (simp add: probe_eq)

section \<open>The sweep\<close>

lemma state_lookup: "fst (Supervisor_state s key) = (case golookup (states s) key of Some x \<Rightarrow> x | None \<Rightarrow> New_State (sup_opt s))"
  by (simp add: Supervisor_state_def Let_def split: option.splits)

lemma state_states: "golookup (states (snd (Supervisor_state s key))) k =
    (if k = key then Some (fst (Supervisor_state s key)) else golookup (states s) k)"
  by (auto simp: Supervisor_state_def Let_def gomap_simps split: option.splits)

lemma state_sup_opt [simp]: "sup_opt (snd (Supervisor_state s key)) = sup_opt s"
  by (simp add: Supervisor_state_def Let_def split: option.splits)

lemma state_ok: "sup_inv s \<Longrightarrow> state_inv (fst (Supervisor_state s key)) \<and> opt (fst (Supervisor_state s key)) = sup_opt s"
  by (auto simp: state_lookup sup_inv_def New_State_def intro: state_inv_New [unfolded New_State_def]
      split: option.splits dest!: map_of_SomeD)

lemma sup_inv_put:
  "sup_inv s \<Longrightarrow> state_inv x \<Longrightarrow> opt x = sup_opt s \<Longrightarrow> sup_inv (s\<lparr>states := goput k x (states s)\<rparr>)"
  by (auto simp: sup_inv_def set_goput)

lemma sup_inv_state: "sup_inv s \<Longrightarrow> sup_inv (snd (Supervisor_state s key))"
  using state_ok [of s key]
  by (auto simp: Supervisor_state_def Let_def intro!: sup_inv_put split: option.splits)

lemma tick_collector_eq:
  "tick_collector s c now =
     (if \<not> Enabled c then ([], False, s)
      else let x = fst (Supervisor_state s (Key c)); s1 = snd (Supervisor_state s (Key c));
               x1 = snd (judge x c now)
           in (fst (judge x c now) @ fst (probe x1 c now), fst (judge x c now) \<noteq> [],
               s1\<lparr>states := goput (Key c) (snd (probe x1 c now)) (states s1)\<rparr>))"
  by (simp add: tick_collector_def Let_def split: prod.splits)

lemma tick_collector_inv: "sup_inv s \<Longrightarrow> sup_inv (snd (snd (tick_collector s c now)))"
  using state_ok [of s "Key c"]
  by (simp add: tick_collector_eq Let_def sup_inv_put sup_inv_state inv_intros)

lemma tick_loop_eq:
  "tick_loop s (c # cs) now =
     (fst (tick_collector s c now) @ fst (tick_loop (snd (snd (tick_collector s c now))) cs now),
      fst (snd (tick_collector s c now)) \<or> fst (snd (tick_loop (snd (snd (tick_collector s c now))) cs now)),
      snd (snd (tick_loop (snd (snd (tick_collector s c now))) cs now)))"
  by (simp add: Let_def split: prod.splits)

declare tick_loop.simps(2) [simp del]

lemma tick_loop_inv: "sup_inv s \<Longrightarrow> sup_inv (snd (snd (tick_loop s cs now)))"
  by (induction cs arbitrary: s) (simp_all add: tick_loop_eq tick_collector_inv)

lemma sup_inv_map_Reset: "sup_inv s \<Longrightarrow> sup_inv (s\<lparr>states := map (\<lambda>(k, x). (k, State_Reset x)) (states s)\<rparr>)"
proof -
  assume s: "sup_inv s"
  have "map fst (map (\<lambda>(k, x). (k, State_Reset x)) (states s)) = map fst (states s)"
    by (simp add: case_prod_beta)
  with s show ?thesis by (auto simp: sup_inv_def case_prod_beta intro: state_inv_Reset simp del: map_map)
qed

lemma sup_step_inv: "sup_inv s \<Longrightarrow> sup_inv (snd (sup_step s e))"
proof (cases e)
  case (SETick inp)
  assume "sup_inv s"
  then show ?thesis using SETick tick_loop_inv [of s "Collectors inp" "Now inp"]
    by (auto simp: Supervisor_Tick_def split: prod.splits)
next
  case SEReset
  assume "sup_inv s"
  then show ?thesis using SEReset by (simp add: Supervisor_Reset_def Let_def sup_inv_map_Reset)
next
  case (SEFocus key)
  assume s: "sup_inv s"
  then have "golookup (states s) key = Some x \<Longrightarrow> state_inv x \<and> opt x = sup_opt s" for x
    by (auto simp: sup_inv_def dest!: map_of_SomeD)
  with s SEFocus show ?thesis
    by (auto simp: Supervisor_WakeForFocus_def Let_def intro!: sup_inv_put state_inv_Reset split: option.splits)
qed

interpretation supervisor: step_machine sup_step sup_inv
  by unfold_locales (rule sup_step_inv)

lemma sup_inv_New [inv_intros]: "opts_ok o1 \<Longrightarrow> sup_inv (NewSupervisor o1)"
  by (simp add: sup_inv_def NewSupervisor_def)

section \<open>The veto and the plan\<close>

lemma tick_collector_dormant:
  "Supervisor_IsDormant (snd (snd (tick_collector s c now))) k =
     (if k = Key c \<and> Enabled c
      then dormant (snd (judge (fst (Supervisor_state s (Key c))) c now)) else Supervisor_IsDormant s k)"
  by (simp add: tick_collector_eq Let_def Supervisor_IsDormant_def gomap_simps state_states split: option.splits)

lemma state_dormant: "dormant (fst (Supervisor_state s key)) = Supervisor_IsDormant s key"
  by (simp add: state_lookup Supervisor_IsDormant_def New_State_def split: option.splits)

definition suspends :: "Op list \<Rightarrow> string \<Rightarrow> bool" where
  "suspends ops k \<longleftrightarrow> \<lparr>op_Key = k, Do = OpSuspend\<rparr> \<in> set ops"

definition wakes :: "Op list \<Rightarrow> string \<Rightarrow> bool" where
  "wakes ops k \<longleftrightarrow> \<lparr>op_Key = k, Do = OpWake\<rparr> \<in> set ops"

lemma tick_collector_fst:
  "fst (tick_collector s c now) = (if \<not> Enabled c then []
     else fst (judge (fst (Supervisor_state s (Key c))) c now) @
       fst (probe (snd (judge (fst (Supervisor_state s (Key c))) c now)) c now))"
  "fst (snd (tick_collector s c now)) = (Enabled c \<and> fst (judge (fst (Supervisor_state s (Key c))) c now) \<noteq> [])"
  by (simp_all add: tick_collector_eq Let_def)

lemma tick_collector_ops:
  "suspends (fst (tick_collector s c now)) k \<longleftrightarrow>
     \<not> Supervisor_IsDormant s k \<and> Supervisor_IsDormant (snd (snd (tick_collector s c now))) k"
  "wakes (fst (tick_collector s c now)) k \<longleftrightarrow>
     Supervisor_IsDormant s k \<and> \<not> Supervisor_IsDormant (snd (snd (tick_collector s c now))) k"
  "fst (snd (tick_collector s c now)) \<longleftrightarrow>
     (\<exists>k. suspends (fst (tick_collector s c now)) k \<or> wakes (fst (tick_collector s c now)) k)"
proof -
  let ?x = "fst (Supervisor_state s (Key c))"
  note j = judge_flip [of ?x c now]
  note p = probe_ops [of "snd (judge ?x c now)" c now]
  show "suspends (fst (tick_collector s c now)) k \<longleftrightarrow>
      \<not> Supervisor_IsDormant s k \<and> Supervisor_IsDormant (snd (snd (tick_collector s c now))) k"
    using j p by (auto simp: tick_collector_dormant tick_collector_fst suspends_def state_dormant split: if_splits)
  show "wakes (fst (tick_collector s c now)) k \<longleftrightarrow>
      Supervisor_IsDormant s k \<and> \<not> Supervisor_IsDormant (snd (snd (tick_collector s c now))) k"
    using j p by (auto simp: tick_collector_dormant tick_collector_fst wakes_def state_dormant split: if_splits)
  show "fst (snd (tick_collector s c now)) \<longleftrightarrow>
      (\<exists>k. suspends (fst (tick_collector s c now)) k \<or> wakes (fst (tick_collector s c now)) k)"
    using j p by (auto simp: tick_collector_fst suspends_def wakes_def split: if_splits)
qed

lemma tick_loop_other: "k \<notin> Key ` set cs \<Longrightarrow>
    Supervisor_IsDormant (snd (snd (tick_loop s cs now))) k = Supervisor_IsDormant s k"
  by (induction cs arbitrary: s) (simp_all add: tick_loop_eq tick_collector_dormant)

lemma suspends_append [simp]: "suspends (xs @ ys) k = (suspends xs k \<or> suspends ys k)"
  by (auto simp: suspends_def)

lemma wakes_append [simp]: "wakes (xs @ ys) k = (wakes xs k \<or> wakes ys k)"
  by (auto simp: wakes_def)

lemma tick_collector_same: "k \<noteq> Key c \<Longrightarrow>
    Supervisor_IsDormant (snd (snd (tick_collector s c now))) k = Supervisor_IsDormant s k"
  by (simp add: tick_collector_dormant)

lemma tick_loop_ops:
  assumes "distinct (map Key cs)"
  shows "(suspends (fst (tick_loop s cs now)) k \<longleftrightarrow>
      \<not> Supervisor_IsDormant s k \<and> Supervisor_IsDormant (snd (snd (tick_loop s cs now))) k) \<and>
    (wakes (fst (tick_loop s cs now)) k \<longleftrightarrow>
      Supervisor_IsDormant s k \<and> \<not> Supervisor_IsDormant (snd (snd (tick_loop s cs now))) k)"
  using assms
proof (induction cs arbitrary: s)
  case Nil
  then show ?case by (simp add: suspends_def wakes_def)
next
  case (Cons c cs)
  let ?s = "snd (snd (tick_collector s c now))"
  from Cons.prems have d: "distinct (map Key cs)" by simp
  have "k = Key c \<Longrightarrow> k \<notin> Key ` set cs" using Cons.prems by simp
  then have own: "k = Key c \<Longrightarrow>
      Supervisor_IsDormant (snd (snd (tick_loop ?s cs now))) k = Supervisor_IsDormant ?s k"
    by (rule tick_loop_other)
  from own Cons.IH [OF d, of ?s] tick_collector_ops(1,2) [of s c now k] tick_collector_same [of k c s now]
  show ?case by (cases "k = Key c") (auto simp: tick_loop_eq)
qed

lemma tick_loop_emit:
  "fst (snd (tick_loop s cs now)) \<longleftrightarrow>
     (\<exists>k. suspends (fst (tick_loop s cs now)) k \<or> wakes (fst (tick_loop s cs now)) k)"
proof (induction cs arbitrary: s)
  case Nil
  show ?case by (simp add: suspends_def wakes_def)
next
  case (Cons c cs)
  then show ?case by (auto simp: tick_loop_eq tick_collector_ops(3))
qed

lemma IsDormant_iff: "gomap_ok (states s) \<Longrightarrow>
    Supervisor_IsDormant s k \<longleftrightarrow> (\<exists>x. (k, x) \<in> set (states s) \<and> dormant x)"
  by (simp only: Supervisor_IsDormant_def gomap_mem_cases)

lemma set_Supervisor_Dormant: "gomap_ok (states s) \<Longrightarrow> set (Supervisor_Dormant s) = {k. Supervisor_IsDormant s k}"
  by (force simp: Supervisor_Dormant_def IsDormant_iff)

lemma Supervisor_Dormant_canonical:
  "gomap_ok (states s) \<Longrightarrow> sorted (Supervisor_Dormant s) \<and> distinct (Supervisor_Dormant s)"
  by (simp add: Supervisor_Dormant_def distinct_map_filter)

lemma Supervisor_Dormant_eq_iff:
  assumes "gomap_ok (states s)" and "gomap_ok (states s1)"
  shows "Supervisor_Dormant s = Supervisor_Dormant s1 \<longleftrightarrow>
    (\<forall>k. Supervisor_IsDormant s k = Supervisor_IsDormant s1 k)"
proof -
  have "Supervisor_Dormant s = Supervisor_Dormant s1 \<longleftrightarrow> set (Supervisor_Dormant s) = set (Supervisor_Dormant s1)"
    by (metis Supervisor_Dormant_canonical assms sorted_distinct_set_unique)
  then show ?thesis by (simp add: set_Supervisor_Dormant assms set_eq_iff)
qed

section \<open>Runs of one collector\<close>

text \<open>A sequence of observations, each with the clock of the tick that made it.\<close>

fun observe_step :: "State \<Rightarrow> Observation \<times> millis \<Rightarrow> Verdict \<times> State" where
  "observe_step s (obs, now) = State_Observe s obs now"

lemma observe_evidence:
  "\<not> dormant s \<Longrightarrow> \<not> Unsupported obs \<Longrightarrow> 0 \<le> streak s \<Longrightarrow>
   (fst (State_Observe s obs now) = Sleep \<longrightarrow> EmptyThreshold (opt s) \<le> streak s + 1 \<and> Empty obs) \<and>
   (fst (State_Observe s obs now) \<noteq> Sleep \<longrightarrow> \<not> dormant (snd (State_Observe s obs now)) \<and>
      0 \<le> streak (snd (State_Observe s obs now)) \<and>
      streak (snd (State_Observe s obs now)) \<le> streak s + (if Empty obs then 1 else 0))"
  by (simp add: dorm_ops)

lemma observe_run_evidence:
  assumes "\<not> dormant s" and "0 \<le> streak s" and "\<forall>(obs, now) \<in> set h. \<not> Unsupported obs"
    and "Sleep \<in> set (fst (run observe_step s h))"
  shows "EmptyThreshold (opt s) \<le> streak s + int (length (filter (\<lambda>(obs, now). Empty obs) h))"
  using assms
proof (induction h arbitrary: s)
  case Nil
  then show ?case by simp
next
  case (Cons e h)
  obtain obs now where e: "e = (obs, now)" by (cases e)
  let ?s = "snd (State_Observe s obs now)"
  note ev = observe_evidence [of s obs now]
  show ?case
  proof (cases "fst (State_Observe s obs now) = Sleep")
    case True
    with ev Cons.prems show ?thesis by (auto simp: e)
  next
    case False
    with ev Cons.prems have "\<not> dormant ?s" "0 \<le> streak ?s" and le: "streak ?s \<le> streak s + (if Empty obs then 1 else 0)"
      by (auto simp: e)
    moreover from False Cons.prems have "Sleep \<in> set (fst (run observe_step ?s h))" by (simp add: e)
    ultimately have "EmptyThreshold (opt ?s) \<le> streak ?s + int (length (filter (\<lambda>(obs, now). Empty obs) h))"
      using Cons.prems(3) by (intro Cons.IH) (auto simp: e)
    with le show ?thesis by (auto simp: e split: if_splits)
  qed
qed

text \<open>The delay after \<open>n\<close> probes that each came back empty.\<close>

fun failed_probes :: "State \<Rightarrow> millis list \<Rightarrow> State" where
  "failed_probes s [] = s"
| "failed_probes s (now # nows) = failed_probes (backOff s now) nows"

lemma backOff_simps [simp]: "opt (backOff s now) = opt s" "dormant (backOff s now) = dormant s"
  "probing (backOff s now) = False" "streak (backOff s now) = streak s"
  "delay (backOff s now) = min (delay s * 2) (MaxBackoffMs (opt s))"
  by (simp_all add: backOff_def min64_def Let_def min_def)

lemma failed_probes_delay:
  "0 \<le> delay s \<Longrightarrow> delay s \<le> MaxBackoffMs (opt s) \<Longrightarrow>
   delay (failed_probes s nows) = min (delay s * 2 ^ length nows) (MaxBackoffMs (opt s))"
proof (induction nows arbitrary: s)
  case Nil
  then show ?case by simp
next
  case (Cons now nows)
  let ?M = "MaxBackoffMs (opt s)" and ?n = "length nows"
  have "delay (failed_probes (backOff s now) nows) = min (min (delay s * 2) ?M * 2 ^ ?n) ?M"
    using Cons by (subst Cons.IH) auto
  also have "\<dots> = min (delay s * 2 * 2 ^ ?n) ?M"
  proof (cases "delay s * 2 \<le> ?M")
    case False
    have "?M * 1 \<le> ?M * 2 ^ ?n" using Cons.prems by (intro mult_left_mono) auto
    moreover have "?M * 2 ^ ?n \<le> delay s * 2 * 2 ^ ?n" using False by (intro mult_right_mono) auto
    ultimately have "min (?M * 2 ^ ?n) ?M = ?M" "min (delay s * 2 * 2 ^ ?n) ?M = ?M" by linarith+
    with False show ?thesis by simp
  qed simp
  finally show ?case by (simp add: mult.assoc)
qed

text \<open>The supervisor's visits to one enabled collector: the verdict, then the probe decision.\<close>

definition visit :: "State \<Rightarrow> Collector \<times> millis \<Rightarrow> Op list \<times> State" where
  "visit x cn = (case cn of (c, now) \<Rightarrow>
     (fst (judge x c now) @ fst (probe (snd (judge x c now)) c now), snd (probe (snd (judge x c now)) c now)))"

interpretation visits: step_machine visit state_inv
  by unfold_locales (simp add: visit_def inv_intros split: prod.splits)

lemma visit_run_opt: "opt (snd (run visit x h)) = opt x"
  by (induction h arbitrary: x) (simp_all add: visit_def split: prod.splits)

lemma deadlines_mono: "deadlines_by t x \<Longrightarrow> t \<le> t' \<Longrightarrow> deadlines_by t' x"
  by (auto simp: deadlines_by_def)

lemma deadlines_Observe:
  "state_inv x \<Longrightarrow> deadlines_by t x \<Longrightarrow> now \<le> t \<Longrightarrow> deadlines_by t (snd (State_Observe x obs now))"
  by (auto simp: deadlines_by_def state_inv_def opts_ok_def dorm_ops)

lemma deadlines_Due:
  "state_inv x \<Longrightarrow> deadlines_by t x \<Longrightarrow> now \<le> t \<Longrightarrow> deadlines_by t (snd (State_DueForProbe x now))"
  by (auto simp: deadlines_by_def dorm_ops)

lemma deadlines_visit:
  assumes "state_inv x" and "deadlines_by t x" and "now \<le> t"
  shows "deadlines_by t (snd (visit x (c, now)))"
proof -
  have "deadlines_by t (snd (judge x c now))" using assms by (simp add: judge_snd deadlines_Observe)
  moreover have "state_inv (snd (judge x c now))" using assms(1) by (rule judge_inv)
  ultimately have "deadlines_by t (snd (State_DueForProbe (snd (judge x c now)) now))"
    using assms(3) deadlines_Due by blast
  then show ?thesis using assms(3)
    by (auto simp: visit_def probe_eq State_MarkProbed_def deadlines_by_def)
qed

lemma visit_run_deadlines:
  "state_inv x \<Longrightarrow> deadlines_by t x \<Longrightarrow> \<forall>(c, now) \<in> set h. now \<le> t \<Longrightarrow> deadlines_by t (snd (run visit x h))"
proof (induction h arbitrary: x)
  case Nil
  then show ?case by simp
next
  case (Cons cn h)
  obtain c now where cn: "cn = (c, now)" by (cases cn)
  with Cons.prems have "deadlines_by t (snd (visit x cn))" by (auto intro: deadlines_visit)
  with Cons.prems Cons.IH [OF visits.step_inv] show ?case by simp
qed

text \<open>A plan reports a change of the sleeping set: it is emitted when the set changed, and carries the new one.\<close>

definition reports_change :: "Supervisor \<Rightarrow> Plan \<times> Supervisor \<Rightarrow> bool" where
  "reports_change s r \<longleftrightarrow>
     (Emit (fst r) \<longleftrightarrow> (\<exists>k. Supervisor_IsDormant (snd r) k \<noteq> Supervisor_IsDormant s k)) \<and>
     (Emit (fst r) \<longrightarrow> Dormant (fst r) = Supervisor_Dormant (snd r))"

lemma tick_reports:
  assumes "distinct (map Key (Collectors inp))"
  shows "reports_change s (Supervisor_Tick s inp)"
proof -
  let ?l = "tick_loop s (Collectors inp) (Now inp)"
  note flips = tick_loop_ops [OF assms, of s "Now inp"]
  have emit: "fst (snd ?l) \<longleftrightarrow> (\<exists>k. Supervisor_IsDormant (snd (snd ?l)) k \<noteq> Supervisor_IsDormant s k)"
    by (simp only: tick_loop_emit flips [THEN conjunct1] flips [THEN conjunct2]) blast
  have eq: "Supervisor_Tick s inp = (if \<not> StartupReady inp \<or> Destroyed inp \<or> \<not> Watching inp then (empty_Plan, s)
      else (\<lparr>Ops = fst ?l, Emit = fst (snd ?l),
        Dormant = (if fst (snd ?l) then Supervisor_Dormant (snd (snd ?l)) else [])\<rparr>, snd (snd ?l)))"
    by (simp add: Supervisor_Tick_def case_prod_beta)
  show ?thesis
  proof (cases "\<not> StartupReady inp \<or> Destroyed inp \<or> \<not> Watching inp")
    case True
    with eq show ?thesis by (simp add: empty_Plan_def reports_change_def)
  next
    case False
    with eq emit show ?thesis by (simp add: reports_change_def)
  qed
qed

lemma reset_reports:
  assumes "gomap_ok (states s)" "gomap_ok (states (snd (Supervisor_Reset s)))"
  shows "reports_change s (Supervisor_Reset s)"
proof -
  have "dormant x \<Longrightarrow> (k, x) \<notin> set (states (snd (Supervisor_Reset s)))" for k x
    by (auto simp: Supervisor_Reset_def Let_def)
  then have none: "\<not> Supervisor_IsDormant (snd (Supervisor_Reset s)) k" for k
    using assms(2) by (auto simp: IsDormant_iff)
  have "Supervisor_IsDormant s k \<Longrightarrow> k \<in> set (sort (gokeys (states s)))" for k
    using assms(1) by (force simp: IsDormant_iff)
  then have "filter (Supervisor_IsDormant s) (sort (gokeys (states s))) \<noteq> [] \<longleftrightarrow> (\<exists>k. Supervisor_IsDormant s k)"
    unfolding filter_empty_conv by blast
  then have "Emit (fst (Supervisor_Reset s)) \<longleftrightarrow> (\<exists>k. Supervisor_IsDormant s k)"
    by (simp add: Supervisor_Reset_def Let_def)
  moreover have "Emit (fst (Supervisor_Reset s)) \<longrightarrow> Dormant (fst (Supervisor_Reset s)) = Supervisor_Dormant (snd (Supervisor_Reset s))"
    by (simp add: Supervisor_Reset_def Let_def)
  ultimately show ?thesis using none unfolding reports_change_def by blast
qed

lemma focus_reports: "reports_change s (Supervisor_WakeForFocus s key)"
proof -
  let ?r = "Supervisor_WakeForFocus s key"
  have "Supervisor_IsDormant (snd ?r) k \<longleftrightarrow> Supervisor_IsDormant s k \<and> k \<noteq> key" for k
    by (auto simp: Supervisor_WakeForFocus_def Supervisor_IsDormant_def Let_def gomap_simps split: option.splits)
  moreover have "Emit (fst ?r) \<longleftrightarrow> Supervisor_IsDormant s key"
    by (simp add: Supervisor_WakeForFocus_def Supervisor_IsDormant_def Let_def empty_Plan_def split: option.splits)
  moreover have "Emit (fst ?r) \<longrightarrow> Dormant (fst ?r) = Supervisor_Dormant (snd ?r)"
    by (simp add: Supervisor_WakeForFocus_def Let_def empty_Plan_def split: option.splits)
  ultimately show ?thesis unfolding reports_change_def by blast
qed

section \<open>Properties\<close>

text \<open>
  C13. The dashboard is told about sleeping collectors exactly when the set of them changes: a tick, a
  reset or a page focus emits a status if and only if the sorted list of sleeping collectors after it
  differs from the one before, and the list it emits is the one after it.
\<close>

theorem emit_iff_changed:
  assumes "sup_inv s" and "case e of SETick inp \<Rightarrow> distinct (map Key (Collectors inp)) | _ \<Rightarrow> True"
  shows "(Emit (fst (sup_step s e)) \<longleftrightarrow> Supervisor_Dormant (snd (sup_step s e)) \<noteq> Supervisor_Dormant s) \<and>
    (Emit (fst (sup_step s e)) \<longrightarrow> Dormant (fst (sup_step s e)) = Supervisor_Dormant (snd (sup_step s e)))"
proof -
  have ok: "gomap_ok (states s)" "gomap_ok (states (snd (sup_step s e)))"
    using assms(1) sup_step_inv [OF assms(1), of e] by (simp_all add: sup_inv_def)
  have "reports_change s (sup_step s e)"
    using assms(2) ok tick_reports reset_reports focus_reports by (cases e) simp_all
  then show ?thesis unfolding reports_change_def Supervisor_Dormant_eq_iff [OF ok(2,1)] by blast
qed

theorem emit_iff_changed_witness:
  "Emit (fst (sup_step (NewSupervisor Defaults)
     (SETick \<lparr>Now = 1000, Watching = True, StartupReady = True, Destroyed = False,
        Collectors = [\<lparr>Key = ''vpn'', Enabled = True, Present = True, c_TS = 900, c_Empty = True,
          c_Unsupported = True\<rparr>]\<rparr>)))"
  using emit_iff_changed [of "NewSupervisor Defaults"
      "SETick \<lparr>Now = 1000, Watching = True, StartupReady = True, Destroyed = False,
        Collectors = [\<lparr>Key = ''vpn'', Enabled = True, Present = True, c_TS = 900, c_Empty = True,
          c_Unsupported = True\<rparr>]\<rparr>"] sup_inv_New [of Defaults]
  by (simp add: Defaults_def opts_ok_def NewSupervisor_def Supervisor_Tick_def tick_loop_eq tick_collector_eq
      Supervisor_state_def New_State_def judge_def probe_eq dorm_ops Supervisor_Dormant_def)

text \<open>
  The operations a tick plans are the verdicts: a collector is suspended if and only if it was
  awake and is asleep afterwards, and woken if and only if it was asleep and is awake afterwards. So
  the veto every other resume path asks (\<open>IsDormant\<close>) always agrees with the operations given out.
\<close>

theorem tick_ops_match_veto:
  assumes "distinct (map Key (Collectors inp))"
  shows "(suspends (Ops (fst (Supervisor_Tick s inp))) k \<longleftrightarrow>
      \<not> Supervisor_IsDormant s k \<and> Supervisor_IsDormant (snd (Supervisor_Tick s inp)) k) \<and>
    (wakes (Ops (fst (Supervisor_Tick s inp))) k \<longleftrightarrow>
      Supervisor_IsDormant s k \<and> \<not> Supervisor_IsDormant (snd (Supervisor_Tick s inp)) k)"
  using tick_loop_ops [OF assms, of s "Now inp" k]
  by (auto simp: Supervisor_Tick_def empty_Plan_def suspends_def wakes_def split: prod.splits)

theorem tick_ops_match_veto_witness:
  "\<not> wakes (Ops (fst (Supervisor_Tick (NewSupervisor Defaults)
     \<lparr>Now = 1000, Watching = True, StartupReady = True, Destroyed = False,
      Collectors = [\<lparr>Key = ''vpn'', Enabled = True, Present = True, c_TS = 900, c_Empty = False,
        c_Unsupported = False\<rparr>]\<rparr>))) ''vpn''"
  using tick_ops_match_veto [of "\<lparr>Now = 1000, Watching = True, StartupReady = True, Destroyed = False,
      Collectors = [\<lparr>Key = ''vpn'', Enabled = True, Present = True, c_TS = 900, c_Empty = False,
        c_Unsupported = False\<rparr>]\<rparr>" "NewSupervisor Defaults" "''vpn''"]
  by (simp add: NewSupervisor_def Supervisor_IsDormant_def)

text \<open>
  However the supervisor is driven, every collector's probe delay stays between the base backoff and
  the maximum, its streak stays below the threshold, a sleeping collector has no streak, and only a
  sleeping collector is ever being probed.
\<close>

theorem supervisor_bounds:
  assumes "opts_ok o1" and "golookup (states (snd (run sup_step (NewSupervisor o1) es))) k = Some x"
  shows "BackoffMs (opt x) \<le> delay x \<and> delay x \<le> MaxBackoffMs (opt x) \<and> 0 \<le> streak x \<and>
    streak x < EmptyThreshold (opt x) \<and> (dormant x \<longrightarrow> streak x = 0) \<and> (probing x \<longrightarrow> dormant x)"
proof -
  have "sup_inv (snd (run sup_step (NewSupervisor o1) es))"
    by (rule supervisor.run_inv [OF sup_inv_New [OF assms(1)]])
  with assms(2) show ?thesis by (auto simp: sup_inv_def state_inv_def dest!: map_of_SomeD)
qed

theorem supervisor_bounds_witness:
  "delay (New_State Defaults) \<le> MaxBackoffMs Defaults"
  using supervisor_bounds [of Defaults "[SETick \<lparr>Now = 1000, Watching = True, StartupReady = True,
      Destroyed = False, Collectors = [\<lparr>Key = ''vpn'', Enabled = True, Present = False, c_TS = 0,
        c_Empty = False, c_Unsupported = False\<rparr>]\<rparr>]" "''vpn''" "New_State Defaults"]
  by (simp add: Defaults_def opts_ok_def NewSupervisor_def Supervisor_Tick_def tick_loop_eq tick_collector_eq
      Supervisor_state_def New_State_def judge_def probe_eq dorm_ops)

text \<open>
  A collector is never put to sleep on thin evidence: if no observation said ``unsupported'' and a
  sleep verdict was given, at least the threshold's number of observations were empty.
\<close>

theorem sleep_needs_evidence:
  assumes "\<forall>(obs, now) \<in> set h. \<not> Unsupported obs" and "Sleep \<in> set (fst (run observe_step (New_State o1) h))"
  shows "EmptyThreshold o1 \<le> int (length (filter (\<lambda>(obs, now). Empty obs) h))"
  using observe_run_evidence [OF _ _ assms] by (simp add: New_State_def)

theorem sleep_needs_evidence_witness:
  "EmptyThreshold Defaults \<le> int (length (filter (\<lambda>(obs, now). Empty obs)
     [(\<lparr>obs_TS = 1, Empty = True, Unsupported = False\<rparr>, 10), (\<lparr>obs_TS = 2, Empty = True, Unsupported = False\<rparr>, 20),
      (\<lparr>obs_TS = 3, Empty = True, Unsupported = False\<rparr>, 30::int)]))"
  by (rule sleep_needs_evidence) (simp_all add: Defaults_def New_State_def dorm_ops)

text \<open>
  Probing backs off exponentially up to the cap: after \<open>n\<close> probes in a row that each came back empty
  the delay is the smaller of the first delay times \<open>2 ^ n\<close> and the maximum.
\<close>

theorem backoff_exponential:
  assumes "state_inv s"
  shows "delay (failed_probes s nows) = min (delay s * 2 ^ length nows) (MaxBackoffMs (opt s))"
  using assms by (intro failed_probes_delay) (auto simp: state_inv_def opts_ok_def)

theorem backoff_exponential_witness:
  "delay (failed_probes (New_State Defaults) [1, 2, 3, 4]) = 600000"
proof -
  have "state_inv (New_State Defaults)" by (rule state_inv_New) (simp add: opts_ok_def Defaults_def)
  from backoff_exponential [OF this] show ?thesis by (simp add: New_State_def Defaults_def)
qed

text \<open>
  A sleeping collector is looked at again. After any history of supervisor visits to a collector at
  times up to \<open>t\<close>, if it is asleep then asking once the probe timeout has passed, and again once the
  maximum delay has passed after that, finds it due at least once.
\<close>

theorem probe_comes_due:
  assumes "opts_ok o1" and "\<forall>(c, now) \<in> set h. now \<le> t"
    and "dormant (snd (run visit (New_State o1) h))"
    and "t + ProbeTimeoutMs o1 \<le> t1" and "t1 + MaxBackoffMs o1 \<le> t2"
  shows "fst (State_DueForProbe (snd (run visit (New_State o1) h)) t1) \<or>
    fst (State_DueForProbe (snd (State_DueForProbe (snd (run visit (New_State o1) h)) t1)) t2)"
proof -
  have "state_inv (snd (run visit (New_State o1) h))" "opt (snd (run visit (New_State o1) h)) = o1"
    using visits.run_inv [OF state_inv_New [OF assms(1)]] by (simp_all add: visit_run_opt New_State_def)
  moreover have "deadlines_by t (snd (run visit (New_State o1) h))"
    by (rule visit_run_deadlines) (use assms(1,2) in \<open>auto simp: deadlines_by_def New_State_def intro: state_inv_New [unfolded New_State_def]\<close>)
  ultimately show ?thesis using assms(3,4,5)
    by (auto simp: State_DueForProbe_def deadlines_by_def state_inv_def opts_ok_def backOff_def Let_def min64_def)
qed

theorem probe_comes_due_witness:
  "fst (State_DueForProbe (snd (run visit (New_State Defaults)
       [(\<lparr>Key = ''vpn'', Enabled = True, Present = True, c_TS = 900, c_Empty = True, c_Unsupported = True\<rparr>, 1000)])) 31000) \<or>
   fst (State_DueForProbe (snd (State_DueForProbe (snd (run visit (New_State Defaults)
       [(\<lparr>Key = ''vpn'', Enabled = True, Present = True, c_TS = 900, c_Empty = True, c_Unsupported = True\<rparr>, 1000)])) 31000)) 631000)"
  by (rule probe_comes_due [of _ _ 1000])
    (simp_all add: opts_ok_def New_State_def Defaults_def visit_def judge_def probe_eq dorm_ops)

end
