(* ===== verification/Diff.thy ===== *)
theory Diff
  imports Prelude "HOL-Library.Sublist"
begin

text \<open>
  Comparing two configuration exports: \<^verbatim>\<open>internal/backups/diff.go\<close>. The text is normalised into
  lines, Myers' greedy algorithm finds a shortest edit script, the script is read back from the
  trace, and the script is grouped into hunks.

  Go's slice reads \<open>a[x]\<close> and \<open>b[y]\<close> panic out of range. Every read below returns
  \<^const>\<open>None\<close> there, and \<^const>\<open>None\<close> stands for the panic throughout; the theorems show it does
  not happen. The map \<open>v\<close> is read with \<open>0\<close> for a missing key, so it is a total function here.
\<close>

section \<open>Normalisation\<close>

definition maxEdits :: int where "maxEdits = 4000"

definition context_lines :: nat where "context_lines = 3"

definition replace_cr :: "string \<Rightarrow> string" where
  "replace_cr s = map (\<lambda>c. if c = CHR 0x0D then CHR 0x0A else c) s"

text \<open>The pattern of the volatile header: \<open>None\<close> is a digit, \<open>Some c\<close> the character itself.\<close>

definition header_pattern :: "char option list" where
  "header_pattern =
     map Some ''# '' @ replicate 4 None @ map Some ''-'' @ replicate 2 None @ map Some ''-'' @ replicate 2 None @
     map Some '' '' @ replicate 2 None @ map Some '':'' @ replicate 2 None @ map Some '':'' @ replicate 2 None @
     map Some '' by RouterOS ''"

fun match_prefix :: "char option list \<Rightarrow> string \<Rightarrow> bool" where
  "match_prefix [] s = True"
| "match_prefix (p # ps) [] = False"
| "match_prefix (p # ps) (c # s) =
     ((case p of None \<Rightarrow> is_digit c | Some d \<Rightarrow> c = d) \<and> match_prefix ps s)"

definition volatileHeader :: "string \<Rightarrow> bool" where
  "volatileHeader line = match_prefix header_pattern line"

definition NormalizeLines :: "string \<Rightarrow> string list" where
  "NormalizeLines text =
     (let lines = go_split (CHR 0x0A) (replace_cr (replace_crlf text));
          lines1 = (case lines of [] \<Rightarrow> [] | l # ls \<Rightarrow> if volatileHeader l then ls else lines)
      in if lines1 \<noteq> [] \<and> last lines1 = [] then butlast lines1 else lines1)"

definition Normalize :: "string \<Rightarrow> string" where
  "Normalize text = go_join [CHR 0x0A] (NormalizeLines text)"

section \<open>The shortest edit script\<close>

datatype mark = Keep | Del | Ins

record editOp =
  op_mark :: mark
  op_text :: string

record DiffLine =
  dl_op :: mark
  dl_text :: string
  ALine :: "int option"
  BLine :: "int option"

record Hunk =
  AStart :: int
  BStart :: int
  ACount :: int
  BCount :: int
  Lines :: "DiffLine list"

record DiffResult =
  Changed :: bool
  Added :: "int option"
  Removed :: "int option"
  Hunks :: "Hunk list"
  Truncated :: bool

type_synonym vmap = "int \<Rightarrow> int"

text \<open>A slice read: \<open>None\<close> is the panic of an index out of range.\<close>

definition go_index :: "'a list \<Rightarrow> int \<Rightarrow> 'a option" where
  "go_index xs i = (if 0 \<le> i \<and> i < int (length xs) then Some (xs ! nat i) else None)"

text \<open>The loop that follows the diagonal as far as the lines agree.\<close>

function snake :: "string list \<Rightarrow> string list \<Rightarrow> int \<Rightarrow> int \<Rightarrow> (int \<times> int) option" where
  "snake a b x y =
     (if x < int (length a) \<and> y < int (length b)
      then (case (go_index a x, go_index b y) of
              (Some s, Some t) \<Rightarrow> if s = t then snake a b (x + 1) (y + 1) else Some (x, y)
            | _ \<Rightarrow> None)
      else Some (x, y))"
  by pat_completeness auto
termination
  by (relation "measure (\<lambda>(a, b, x, y). nat (int (length a) - x))") auto

declare snake.simps [simp del]

text \<open>Where diagonal \<open>k\<close> of round \<open>d\<close> starts from.\<close>

definition goes_down :: "int \<Rightarrow> int \<Rightarrow> vmap \<Rightarrow> bool" where
  "goes_down d k v \<longleftrightarrow> k = - d \<or> (k \<noteq> d \<and> v (k - 1) < v (k + 1))"

definition start_x :: "int \<Rightarrow> int \<Rightarrow> vmap \<Rightarrow> int" where
  "start_x d k v = (if goes_down d k v then v (k + 1) else v (k - 1) + 1)"

text \<open>The diagonals of one round: \<open>True\<close> when the end was reached and the round stopped there.\<close>

function round_loop :: "string list \<Rightarrow> string list \<Rightarrow> int \<Rightarrow> int \<Rightarrow> vmap \<Rightarrow> (bool \<times> vmap) option" where
  "round_loop a b d k v =
     (if k \<le> d
      then let x0 = start_x d k v in
        case snake a b x0 (x0 - k) of
          None \<Rightarrow> None
        | Some (x, y) \<Rightarrow>
            let v1 = v(k := x) in
            if int (length a) \<le> x \<and> int (length b) \<le> y then Some (True, v1)
            else round_loop a b d (k + 2) v1
      else Some (False, v))"
  by pat_completeness auto
termination
  by (relation "measure (\<lambda>(a, b, d, k, v). nat (d + 1 - k))") auto

declare round_loop.simps [simp del]

text \<open>The rounds. The outer \<open>None\<close> is a panic, the inner one Go's nil: too far apart.\<close>

function edit_loop ::
  "string list \<Rightarrow> string list \<Rightarrow> int \<Rightarrow> int \<Rightarrow> vmap \<Rightarrow> vmap list \<Rightarrow> vmap list option option" where
  "edit_loop a b mx d v trace =
     (if d \<le> mx
      then let trace1 = trace @ [v] in
        case round_loop a b d (- d) v of
          None \<Rightarrow> None
        | Some (True, v1) \<Rightarrow> Some (Some trace1)
        | Some (False, v1) \<Rightarrow> edit_loop a b mx (d + 1) v1 trace1
      else Some None)"
  by pat_completeness auto
termination
  by (relation "measure (\<lambda>(a, b, mx, d, v, trace). nat (mx + 1 - d))") auto

declare edit_loop.simps [simp del]

definition shortestEdit :: "string list \<Rightarrow> string list \<Rightarrow> vmap list option option" where
  "shortestEdit a b =
     (let n = int (length a); m = int (length b); mx = (if n + m < maxEdits then n + m else maxEdits)
      in edit_loop a b mx 0 ((\<lambda>_. 0)(1 := 0)) [])"

section \<open>Reading the script back\<close>

text \<open>Both loops that walk back along a diagonal, down to \<open>(px, py)\<close>.\<close>

function walk_back ::
  "string list \<Rightarrow> int \<Rightarrow> int \<Rightarrow> int \<Rightarrow> int \<Rightarrow> editOp list \<Rightarrow> (int \<times> int \<times> editOp list) option" where
  "walk_back a px py x y ops =
     (if px < x \<and> py < y
      then (case go_index a (x - 1) of
              None \<Rightarrow> None
            | Some t \<Rightarrow> walk_back a px py (x - 1) (y - 1) (ops @ [\<lparr>op_mark = Keep, op_text = t\<rparr>]))
      else Some (x, y, ops))"
  by pat_completeness auto
termination
  by (relation "measure (\<lambda>(a, px, py, x, y, ops). nat (x - px))") auto

declare walk_back.simps [simp del]

text \<open>One round read back: the diagonal, then the edit that led to it.\<close>

definition back_round ::
  "string list \<Rightarrow> string list \<Rightarrow> int \<Rightarrow> vmap \<Rightarrow> int \<times> int \<times> editOp list \<Rightarrow> (int \<times> int \<times> editOp list) option" where
  "back_round a b d v st =
     (case st of (x, y, ops) \<Rightarrow>
        let k = x - y;
            prevK = (if goes_down d k v then k + 1 else k - 1);
            prevX = v prevK;
            prevY = prevX - prevK
        in case walk_back a prevX prevY x y ops of
             None \<Rightarrow> None
           | Some (x1, y1, ops1) \<Rightarrow>
               if prevX < x1
               then (case go_index a (x1 - 1) of
                       None \<Rightarrow> None
                     | Some t \<Rightarrow> Some (x1 - 1, y1, ops1 @ [\<lparr>op_mark = Del, op_text = t\<rparr>]))
               else (case go_index b (y1 - 1) of
                       None \<Rightarrow> None
                     | Some t \<Rightarrow> Some (x1, y1 - 1, ops1 @ [\<lparr>op_mark = Ins, op_text = t\<rparr>])))"

fun back_loop ::
  "string list \<Rightarrow> string list \<Rightarrow> vmap list \<Rightarrow> nat \<Rightarrow> int \<times> int \<times> editOp list \<Rightarrow> (int \<times> int \<times> editOp list) option" where
  "back_loop a b trace 0 st = Some st"
| "back_loop a b trace (Suc d) st =
     (case go_index trace (int (Suc d)) of
        None \<Rightarrow> None
      | Some v \<Rightarrow> (case back_round a b (int (Suc d)) v st of
          None \<Rightarrow> None
        | Some st1 \<Rightarrow> back_loop a b trace d st1))"

definition backtrack :: "vmap list \<Rightarrow> string list \<Rightarrow> string list \<Rightarrow> editOp list option" where
  "backtrack trace a b =
     (case back_loop a b trace (length trace - 1) (int (length a), int (length b), []) of
        None \<Rightarrow> None
      | Some (x, y, ops) \<Rightarrow> (case walk_back a 0 0 x y ops of
          None \<Rightarrow> None
        | Some (_, _, ops1) \<Rightarrow> Some (rev ops1)))"

section \<open>Hunks\<close>

definition push :: "Hunk \<Rightarrow> DiffLine \<Rightarrow> Hunk" where
  "push h e = h\<lparr>Lines := Lines h @ [e],
     ACount := (if dl_op e \<noteq> Ins then ACount h + 1 else ACount h),
     BCount := (if dl_op e \<noteq> Del then BCount h + 1 else BCount h)\<rparr>"

record hunk_state =
  h_out :: "Hunk list"
  h_cur :: "Hunk option"
  h_a :: int
  h_b :: int
  h_pending :: "DiffLine list"

definition keep_line :: "hunk_state \<Rightarrow> editOp \<Rightarrow> DiffLine" where
  "keep_line st o1 = \<lparr>dl_op = Keep, dl_text = op_text o1, ALine = Some (h_a st), BLine = Some (h_b st)\<rparr>"

text \<open>The last three of a list: Go's \<open>pending[len(pending)-context:]\<close>.\<close>

definition last_context :: "'a list \<Rightarrow> 'a list" where
  "last_context xs = drop (length xs - context_lines) xs"

text \<open>An unchanged line: it waits, and a hunk far enough behind it is closed.\<close>

definition hunk_keep :: "hunk_state \<Rightarrow> editOp \<Rightarrow> hunk_state" where
  "hunk_keep st o1 =
     (let pending = h_pending st @ [keep_line st o1];
          st1 = st\<lparr>h_a := h_a st + 1, h_b := h_b st + 1, h_pending := pending\<rparr>;
          st2 = (case h_cur st of
                   Some h \<Rightarrow>
                     if context_lines * 2 < length pending
                     then st1\<lparr>h_out := h_out st @ [foldl push h (take context_lines pending)], h_cur := None,
                            h_pending := last_context pending\<rparr>
                     else st1
                 | None \<Rightarrow> st1)
      in if h_cur st2 = None \<and> context_lines < length (h_pending st2)
         then st2\<lparr>h_pending := last_context (h_pending st2)\<rparr> else st2)"

text \<open>
  The hunk a changed line goes into: a new one starts at the first waiting line when there is one.
  A waiting line always carries both its numbers (\<open>keep_line\<close>).
\<close>

definition open_hunk :: "hunk_state \<Rightarrow> Hunk" where
  "open_hunk st =
     (case h_cur st of
        Some h \<Rightarrow> h
      | None \<Rightarrow>
          (case h_pending st of
             [] \<Rightarrow> \<lparr>AStart = h_a st, BStart = h_b st, ACount = 0, BCount = 0, Lines = []\<rparr>
           | p # _ \<Rightarrow> \<lparr>AStart = (case ALine p of Some n \<Rightarrow> n | None \<Rightarrow> h_a st),
                      BStart = (case BLine p of Some n \<Rightarrow> n | None \<Rightarrow> h_b st),
                      ACount = 0, BCount = 0, Lines = []\<rparr>))"

definition hunk_change :: "hunk_state \<Rightarrow> editOp \<Rightarrow> hunk_state" where
  "hunk_change st o1 =
     (let h = foldl push (open_hunk st) (h_pending st)
      in if op_mark o1 = Del
         then st\<lparr>h_cur := Some (push h \<lparr>dl_op = Del, dl_text = op_text o1, ALine = Some (h_a st), BLine = None\<rparr>),
                 h_a := h_a st + 1, h_pending := []\<rparr>
         else st\<lparr>h_cur := Some (push h \<lparr>dl_op = Ins, dl_text = op_text o1, ALine = None, BLine = Some (h_b st)\<rparr>),
                 h_b := h_b st + 1, h_pending := []\<rparr>)"

definition hunk_step :: "hunk_state \<Rightarrow> editOp \<Rightarrow> hunk_state" where
  "hunk_step st o1 = (if op_mark o1 = Keep then hunk_keep st o1 else hunk_change st o1)"

definition buildHunks :: "editOp list \<Rightarrow> Hunk list" where
  "buildHunks ops =
     (let st = foldl hunk_step \<lparr>h_out = [], h_cur = None, h_a = 1, h_b = 1, h_pending = []\<rparr> ops
      in case h_cur st of
           None \<Rightarrow> h_out st
         | Some h \<Rightarrow> h_out st @ [foldl push h (take context_lines (h_pending st))])"

text \<open>The whole comparison; \<open>None\<close> is a panic.\<close>

definition Diff :: "string \<Rightarrow> string \<Rightarrow> DiffResult option" where
  "Diff oldText newText =
     (let a = NormalizeLines oldText; b = NormalizeLines newText
      in if length a = length b \<and> a = b
         then Some \<lparr>Changed = False, Added = Some 0, Removed = Some 0, Hunks = [], Truncated = False\<rparr>
         else case shortestEdit a b of
           None \<Rightarrow> None
         | Some None \<Rightarrow> Some \<lparr>Changed = True, Added = None, Removed = None, Hunks = [], Truncated = True\<rparr>
         | Some (Some trace) \<Rightarrow>
             (case backtrack trace a b of
                None \<Rightarrow> None
              | Some ops \<Rightarrow>
                  let added = int (length (filter (\<lambda>o1. op_mark o1 = Ins) ops));
                      removed = int (length (filter (\<lambda>o1. op_mark o1 = Del) ops))
                  in Some \<lparr>Changed = (added > 0 \<or> removed > 0), Added = Some added, Removed = Some removed,
                           Hunks = buildHunks ops, Truncated = False\<rparr>))"

section \<open>Edit paths\<close>

text \<open>
  The specification: a point \<open>(x, y)\<close> of the edit grid is reached with \<open>d\<close> edits by deleting a line of
  the old text, inserting a line of the new one, or keeping a line the two share. The grid is not
  bounded, as the algorithm's own walk is not.
\<close>

inductive reach :: "string list \<Rightarrow> string list \<Rightarrow> nat \<Rightarrow> int \<Rightarrow> int \<Rightarrow> bool" for a b where
  origin: "reach a b 0 0 0"
| diagonal: "reach a b d x y \<Longrightarrow> x < int (length a) \<Longrightarrow> y < int (length b) \<Longrightarrow> a ! nat x = b ! nat y \<Longrightarrow>
    reach a b d (x + 1) (y + 1)"
| right: "reach a b d x y \<Longrightarrow> reach a b (Suc d) (x + 1) y"
| down: "reach a b d x y \<Longrightarrow> reach a b (Suc d) x (y + 1)"

lemmas reach_intros = reach.intros

text \<open>The two sides of a script.\<close>

definition old_of :: "editOp list \<Rightarrow> string list" where
  "old_of ops = map op_text (filter (\<lambda>o1. op_mark o1 \<noteq> Ins) ops)"

definition new_of :: "editOp list \<Rightarrow> string list" where
  "new_of ops = map op_text (filter (\<lambda>o1. op_mark o1 \<noteq> Del) ops)"

definition edits :: "editOp list \<Rightarrow> nat" where
  "edits ops = length (filter (\<lambda>o1. op_mark o1 \<noteq> Keep) ops)"

definition transforms :: "editOp list \<Rightarrow> string list \<Rightarrow> string list \<Rightarrow> bool" where
  "transforms ops a b \<longleftrightarrow> old_of ops = a \<and> new_of ops = b"

lemma reach_nonneg: "reach a b d x y \<Longrightarrow> 0 \<le> x \<and> 0 \<le> y"
  by (induction rule: reach.induct) auto

lemma reach_band: "reach a b d x y \<Longrightarrow> - int d \<le> x - y \<and> x - y \<le> int d \<and> even (x - y + int d)"
  by (induction rule: reach.induct) (auto simp: algebra_simps)

text \<open>Clipping a path to the texts costs nothing, and saves an edit when it left them.\<close>

lemma reach_clip:
  "reach a b d x y \<Longrightarrow> \<exists>d'. reach a b d' (min x (int (length a))) (min y (int (length b))) \<and>
     (if x \<le> int (length a) \<and> y \<le> int (length b) then d' \<le> d else d' < d)"
proof (induction rule: reach.induct)
  case origin
  show ?case using reach.origin [of a b] by (intro exI [of _ 0]) auto
next
  case (diagonal d x y)
  then obtain d' where "reach a b d' x y" "d' \<le> d" by auto
  with diagonal.hyps show ?case by (intro exI [of _ d']) (auto intro: reach.diagonal)
next
  case (right d x y)
  then obtain d' where d': "reach a b d' (min x (int (length a))) (min y (int (length b)))"
      "if x \<le> int (length a) \<and> y \<le> int (length b) then d' \<le> d else d' < d" by blast
  show ?case
  proof (cases "x + 1 \<le> int (length a)")
    case True
    with d' reach.right [OF d'(1)] show ?thesis by (intro exI [of _ "Suc d'"]) (auto split: if_splits)
  next
    case False
    then have "min (x + 1) (int (length a)) = min x (int (length a))" by simp
    with d' False show ?thesis by (intro exI [of _ d']) (auto split: if_splits)
  qed
next
  case (down d x y)
  then obtain d' where d': "reach a b d' (min x (int (length a))) (min y (int (length b)))"
      "if x \<le> int (length a) \<and> y \<le> int (length b) then d' \<le> d else d' < d" by blast
  show ?case
  proof (cases "y + 1 \<le> int (length b)")
    case True
    with d' reach.down [OF d'(1)] show ?thesis by (intro exI [of _ "Suc d'"]) (auto split: if_splits)
  next
    case False
    then have "min (y + 1) (int (length b)) = min y (int (length b))" by simp
    with d' False show ?thesis by (intro exI [of _ d']) (auto split: if_splits)
  qed
qed

text \<open>A script is a path: as many edits, ending at the end of both texts.\<close>

lemma prefix_snocD:
  "prefix (xs @ [t]) zs \<Longrightarrow> prefix xs zs \<and> length xs < length zs \<and> zs ! length xs = t"
  by (auto simp: prefix_def nth_append)

lemma script_reach:
  assumes "prefix (old_of ops) a" and "prefix (new_of ops) b"
  shows "reach a b (edits ops) (int (length (old_of ops))) (int (length (new_of ops)))"
  using assms
proof (induction ops rule: rev_induct)
  case Nil
  show ?case by (simp add: old_of_def new_of_def edits_def reach.origin)
next
  case (snoc o1 ops)
  show ?case
  proof (cases "op_mark o1")
    case Keep
    then have o: "old_of (ops @ [o1]) = old_of ops @ [op_text o1]" "new_of (ops @ [o1]) = new_of ops @ [op_text o1]"
      "edits (ops @ [o1]) = edits ops" by (simp_all add: old_of_def new_of_def edits_def)
    with snoc.prems have "prefix (old_of ops @ [op_text o1]) a" "prefix (new_of ops @ [op_text o1]) b" by simp_all
    note ends = this [THEN prefix_snocD]
    with snoc.IH have ih: "reach a b (edits ops) (int (length (old_of ops))) (int (length (new_of ops)))" by simp
    have "reach a b (edits ops) (int (length (old_of ops)) + 1) (int (length (new_of ops)) + 1)"
      by (rule reach.diagonal [OF ih]) (use ends in simp_all)
    with o show ?thesis by (simp add: add.commute)
  next
    case Del
    then have o: "old_of (ops @ [o1]) = old_of ops @ [op_text o1]" "new_of (ops @ [o1]) = new_of ops"
      "edits (ops @ [o1]) = Suc (edits ops)" by (simp_all add: old_of_def new_of_def edits_def)
    with snoc have "reach a b (edits ops) (int (length (old_of ops))) (int (length (new_of ops)))"
      using prefix_snocD by metis
    from reach.right [OF this] o show ?thesis by (simp add: add.commute)
  next
    case Ins
    then have o: "old_of (ops @ [o1]) = old_of ops" "new_of (ops @ [o1]) = new_of ops @ [op_text o1]"
      "edits (ops @ [o1]) = Suc (edits ops)" by (simp_all add: old_of_def new_of_def edits_def)
    with snoc have "reach a b (edits ops) (int (length (old_of ops))) (int (length (new_of ops)))"
      using prefix_snocD by metis
    from reach.down [OF this] o show ?thesis by (simp add: add.commute)
  qed
qed

lemma transforms_reach: "transforms ops a b \<Longrightarrow> reach a b (edits ops) (int (length a)) (int (length b))"
  using script_reach [of ops a b] by (auto simp: transforms_def)

section \<open>The greedy rounds\<close>

definition matches :: "string list \<Rightarrow> string list \<Rightarrow> int \<Rightarrow> int \<Rightarrow> bool" where
  "matches a b x y \<longleftrightarrow> x < int (length a) \<and> y < int (length b) \<and> a ! nat x = b ! nat y"

lemma snake_step:
  "0 \<le> x \<Longrightarrow> 0 \<le> y \<Longrightarrow> snake a b x y = (if matches a b x y then snake a b (x + 1) (y + 1) else Some (x, y))"
  by (subst snake.simps) (auto simp: go_index_def matches_def)

text \<open>The end of the slide from \<open>x\<close> on diagonal \<open>k\<close>.\<close>

definition slide :: "string list \<Rightarrow> string list \<Rightarrow> int \<Rightarrow> int \<Rightarrow> int" where
  "slide a b k x = (case snake a b x (x - k) of Some (x', _) \<Rightarrow> x' | None \<Rightarrow> x)"

lemma snake_slides:
  assumes "0 \<le> x" "0 \<le> y"
  shows "\<exists>x'. snake a b x y = Some (x', x' - (x - y)) \<and> x \<le> x' \<and>
     (\<forall>j. x \<le> j \<longrightarrow> j < x' \<longrightarrow> matches a b j (j - (x - y))) \<and> \<not> matches a b x' (x' - (x - y))"
  using assms
proof (induction "nat (int (length a) - x)" arbitrary: x y rule: less_induct)
  case less
  show ?case
  proof (cases "matches a b x y")
    case False
    with less.prems show ?thesis by (intro exI [of _ x]) (simp add: snake_step)
  next
    case True
    then have "nat (int (length a) - (x + 1)) < nat (int (length a) - x)" by (simp add: matches_def)
    from less.hyps [OF this, of "y + 1"] less.prems obtain x' where x':
      "snake a b (x + 1) (y + 1) = Some (x', x' - (x - y))" "x + 1 \<le> x'"
      "\<forall>j. x + 1 \<le> j \<longrightarrow> j < x' \<longrightarrow> matches a b j (j - (x - y))" "\<not> matches a b x' (x' - (x - y))"
      by auto
    have "matches a b j (j - (x - y))" if "x \<le> j" "j < x'" for j
      using x'(3) that True by (cases "j = x") auto
    with x' True less.prems show ?thesis by (intro exI [of _ x']) (simp add: snake_step)
  qed
qed

lemma slide_props:
  assumes "0 \<le> x" "0 \<le> x - k"
  shows "snake a b x (x - k) = Some (slide a b k x, slide a b k x - k)" "x \<le> slide a b k x"
    "\<And>j. x \<le> j \<Longrightarrow> j < slide a b k x \<Longrightarrow> matches a b j (j - k)"
    "\<not> matches a b (slide a b k x) (slide a b k x - k)"
  using snake_slides [OF assms, of a b] by (auto simp: slide_def)

text \<open>The start and the end of diagonal \<open>k\<close> in round \<open>d\<close>.\<close>

fun first_x :: "string list \<Rightarrow> string list \<Rightarrow> nat \<Rightarrow> int \<Rightarrow> int" and
  furthest :: "string list \<Rightarrow> string list \<Rightarrow> nat \<Rightarrow> int \<Rightarrow> int" where
  "first_x a b 0 k = 0"
| "first_x a b (Suc d) k = start_x (int (Suc d)) k (furthest a b d)"
| "furthest a b d k = slide a b k (first_x a b d k)"

declare furthest.simps [simp del]
declare first_x.simps(2) [simp del]

definition band :: "nat \<Rightarrow> int \<Rightarrow> bool" where
  "band d k \<longleftrightarrow> \<bar>k\<bar> \<le> int d \<and> even (k + int d)"

lemma band_0 [simp]: "band 0 k \<longleftrightarrow> k = 0"
  by (auto simp: band_def)

lemma band_nbrs:
  "band (Suc d) k \<Longrightarrow> k \<noteq> int (Suc d) \<Longrightarrow> band d (k + 1)"
  "band (Suc d) k \<Longrightarrow> k \<noteq> - int (Suc d) \<Longrightarrow> band d (k - 1)"
  by (auto simp: band_def abs_le_iff) presburger+

lemma reach_slide:
  assumes "reach a b d x (x - k)"
  shows "reach a b d (slide a b k x) (slide a b k x - k)"
proof -
  have nn: "0 \<le> x" "0 \<le> x - k" using reach_nonneg [OF assms] by auto
  have "reach a b d (x + int i) (x + int i - k)" if "x + int i \<le> slide a b k x" for i
    using that
  proof (induction i)
    case 0
    then show ?case using assms by simp
  next
    case (Suc i)
    then have "matches a b (x + int i) (x + int i - k)" by (intro slide_props(3) [OF nn]) auto
    with reach.diagonal [of a b d "x + int i" "x + int i - k"] Suc show ?case
      by (simp add: matches_def algebra_simps)
  qed
  from this [of "nat (slide a b k x - x)"] slide_props(2) [OF nn, of a b] show ?thesis by simp
qed

lemma first_x_reach: "band d k \<Longrightarrow> reach a b d (first_x a b d k) (first_x a b d k - k)"
proof (induction d arbitrary: k)
  case 0
  then show ?case by (simp add: reach.origin)
next
  case (Suc d)
  have ends: "reach a b d (furthest a b d j) (furthest a b d j - j)" if "band d j" for j
    using reach_slide [OF Suc.IH [OF that]] by (simp add: furthest.simps)
  show ?case
  proof (cases "goes_down (int (Suc d)) k (furthest a b d)")
    case True
    then have "band d (k + 1)" using Suc.prems by (intro band_nbrs) (auto simp: goes_down_def)
    from reach.down [OF ends [OF this]] True show ?thesis by (simp add: first_x.simps start_x_def algebra_simps)
  next
    case False
    then have "band d (k - 1)" using Suc.prems by (intro band_nbrs) (auto simp: goes_down_def)
    from reach.right [OF ends [OF this]] False show ?thesis by (simp add: first_x.simps start_x_def algebra_simps)
  qed
qed

lemma furthest_reach: "band d k \<Longrightarrow> reach a b d (furthest a b d k) (furthest a b d k - k)"
  by (simp add: furthest.simps reach_slide first_x_reach)

lemma first_x_nonneg: "band d k \<Longrightarrow> 0 \<le> first_x a b d k \<and> 0 \<le> first_x a b d k - k"
  using first_x_reach reach_nonneg by blast

lemma furthest_slide:
  assumes "band d k"
  shows "snake a b (first_x a b d k) (first_x a b d k - k) = Some (furthest a b d k, furthest a b d k - k)"
    "first_x a b d k \<le> furthest a b d k"
    "\<And>j. first_x a b d k \<le> j \<Longrightarrow> j < furthest a b d k \<Longrightarrow> matches a b j (j - k)"
    "\<not> matches a b (furthest a b d k) (furthest a b d k - k)"
  using slide_props [where x = "first_x a b d k" and k = k and a = a and b = b] first_x_nonneg [OF assms, of a b]
  by (simp_all add: furthest.simps)

lemma reach_in_band: "reach a b d x y \<Longrightarrow> band d (x - y)"
  using reach_band by (force simp: band_def abs_le_iff)

text \<open>No path with as few edits gets further along its diagonal.\<close>

lemma furthest_greatest: "reach a b d x y \<Longrightarrow> x \<le> furthest a b d (x - y)"
proof (induction rule: reach.induct)
  case origin
  show ?case using furthest_slide(2) [of 0 0 a b] by simp
next
  case (diagonal d x y)
  have "x \<noteq> furthest a b d (x - y)"
    using furthest_slide(4) [of d "x - y" a b] reach_in_band [OF diagonal.hyps(1)] diagonal.hyps
    by (auto simp: matches_def)
  with diagonal.IH show ?case by simp
next
  case (right d x y)
  have b: "band (Suc d) (x + 1 - y)" using reach_in_band [OF reach.right [OF right.hyps]] .
  have "x + 1 \<le> first_x a b (Suc d) (x + 1 - y)"
    using right.IH reach_band [OF right.hyps] by (auto simp: first_x.simps start_x_def goes_down_def algebra_simps)
  with furthest_slide(2) [OF b, of a b] show ?case by simp
next
  case (down d x y)
  have b: "band (Suc d) (x - (y + 1))" using reach_in_band [OF reach.down [OF down.hyps]] .
  have "x \<le> first_x a b (Suc d) (x - (y + 1))"
    using down.IH reach_band [OF down.hyps] by (auto simp: first_x.simps start_x_def goes_down_def algebra_simps)
  with furthest_slide(2) [OF b, of a b] show ?case by simp
qed

text \<open>The map holds, at the start of round \<open>d\<close>, all that the round reads.\<close>

fun ready :: "string list \<Rightarrow> string list \<Rightarrow> nat \<Rightarrow> vmap \<Rightarrow> bool" where
  "ready a b 0 v \<longleftrightarrow> v 1 = 0"
| "ready a b (Suc d) v \<longleftrightarrow> (\<forall>k. band d k \<longrightarrow> v k = furthest a b d k)"

definition ends_at :: "string list \<Rightarrow> string list \<Rightarrow> nat \<Rightarrow> int \<Rightarrow> bool" where
  "ends_at a b d k \<longleftrightarrow> int (length a) \<le> furthest a b d k \<and> int (length b) \<le> furthest a b d k - k"

definition hit :: "string list \<Rightarrow> string list \<Rightarrow> nat \<Rightarrow> bool" where
  "hit a b d \<longleftrightarrow> (\<exists>k. band d k \<and> ends_at a b d k)"

lemma ready_reads:
  assumes "ready a b (Suc d) v" "band (Suc d) k"
  shows "goes_down (int (Suc d)) k v = goes_down (int (Suc d)) k (furthest a b d)"
    "goes_down (int (Suc d)) k v \<Longrightarrow> band d (k + 1) \<and> v (k + 1) = furthest a b d (k + 1)"
    "\<not> goes_down (int (Suc d)) k v \<Longrightarrow> band d (k - 1) \<and> v (k - 1) = furthest a b d (k - 1)"
proof -
  have up: "v (k + 1) = furthest a b d (k + 1)" "band d (k + 1)" if "k \<noteq> int (Suc d)"
    using assms(1) band_nbrs(1) [OF assms(2) that] by simp_all
  have down: "v (k - 1) = furthest a b d (k - 1)" "band d (k - 1)" if "k \<noteq> - int (Suc d)"
    using assms(1) band_nbrs(2) [OF assms(2) that] by simp_all
  show "goes_down (int (Suc d)) k v = goes_down (int (Suc d)) k (furthest a b d)"
    unfolding goes_down_def using up(1) down(1) by fastforce
  show "goes_down (int (Suc d)) k v \<Longrightarrow> band d (k + 1) \<and> v (k + 1) = furthest a b d (k + 1)"
    unfolding goes_down_def using up by fastforce
  show "\<not> goes_down (int (Suc d)) k v \<Longrightarrow> band d (k - 1) \<and> v (k - 1) = furthest a b d (k - 1)"
    unfolding goes_down_def using down by fastforce
qed

lemma ready_start: "ready a b d v \<Longrightarrow> band d k \<Longrightarrow> start_x (int d) k v = first_x a b d k"
proof (induction d)
  case 0
  then show ?case by (simp add: start_x_def goes_down_def)
next
  case (Suc d)
  then show ?case using ready_reads [OF Suc.prems] unfolding first_x.simps start_x_def by presburger
qed

text \<open>Storing a diagonal's end does not touch what later diagonals of the round read.\<close>

lemma ready_upd: "ready a b d v \<Longrightarrow> band d k \<Longrightarrow> ready a b d (v(k := x))"
  by (cases d) (auto simp: band_def)

lemma round_loop_spec:
  assumes "ready a b d v" "k \<le> int d \<Longrightarrow> band d k" "even (k + int d)" "- int d \<le> k"
    "\<And>j. band d j \<Longrightarrow> j < k \<Longrightarrow> v j = furthest a b d j"
  shows "(\<exists>v'. round_loop a b (int d) k v = Some (True, v') \<and> (\<exists>j. band d j \<and> ends_at a b d j)) \<or>
    (\<exists>v'. round_loop a b (int d) k v = Some (False, v') \<and> (\<forall>j. band d j \<longrightarrow> k \<le> j \<longrightarrow> \<not> ends_at a b d j) \<and>
      (\<forall>j. band d j \<longrightarrow> v' j = furthest a b d j))"
  using assms
proof (induction "nat (int d + 1 - k)" arbitrary: k v rule: less_induct)
  case less
  show ?case
  proof (cases "k \<le> int d")
    case False
    then show ?thesis using less.prems(5) by (subst (1 2) round_loop.simps) (auto simp: band_def)
  next
    case True
    note bk = less.prems(2) [OF True]
    let ?f = "furthest a b d k"
    have s: "snake a b (start_x (int d) k v) (start_x (int d) k v - k) = Some (?f, ?f - k)"
      using ready_start [OF less.prems(1) bk] furthest_slide(1) [OF bk, of a b] by simp
    show ?thesis
    proof (cases "ends_at a b d k")
      case True
      with s \<open>k \<le> int d\<close> bk show ?thesis
        by (subst (1) round_loop.simps) (auto simp: ends_at_def Let_def)
    next
      case False
      with s \<open>k \<le> int d\<close> have step: "round_loop a b (int d) k v = round_loop a b (int d) (k + 2) (v(k := ?f))"
        by (subst (1) round_loop.simps) (auto simp: ends_at_def Let_def)
      have upto: "(v(k := ?f)) j = furthest a b d j" if "band d j" "j < k + 2" for j
        using that less.prems(5) [OF that(1)] bk by (cases "j = k + 1") (auto simp: band_def)
      have rest: "\<not> ends_at a b d j" if "band d j" "k \<le> j" "\<forall>j. band d j \<longrightarrow> k + 2 \<le> j \<longrightarrow> \<not> ends_at a b d j" for j
        using that False bk by (cases "j = k \<or> j = k + 1") (auto simp: band_def)
      have "nat (int d + 1 - (k + 2)) < nat (int d + 1 - k)" using \<open>k \<le> int d\<close> by simp
      note ih = less.hyps [OF this ready_upd [OF less.prems(1) bk, of ?f] _ _ _ upto]
      have "k + 2 \<le> int d \<Longrightarrow> band d (k + 2)" "even (k + 2 + int d)" "- int d \<le> k + 2"
        using less.prems(2-4) bk by (auto simp: band_def)
      from ih [OF this] rest step show ?thesis by metis
    qed
  qed
qed

lemma round_loop_cases:
  assumes "ready a b d v"
  obtains (found) v' where "round_loop a b (int d) (- int d) v = Some (True, v')" "hit a b d"
    | (missed) v' where "round_loop a b (int d) (- int d) v = Some (False, v')" "\<not> hit a b d" "ready a b (Suc d) v'"
proof -
  have "(\<exists>v'. round_loop a b (int d) (- int d) v = Some (True, v') \<and> hit a b d) \<or>
    (\<exists>v'. round_loop a b (int d) (- int d) v = Some (False, v') \<and> \<not> hit a b d \<and> ready a b (Suc d) v')"
    using round_loop_spec [OF assms, of "- int d"]
    by (force simp: band_def hit_def)
  then show ?thesis using that by blast
qed

lemma edit_loop_spec:
  assumes "ready a b d v"
  shows "(\<exists>D ts. edit_loop a b mx (int d) v trace = Some (Some (trace @ ts)) \<and> d \<le> D \<and> int D \<le> mx \<and> hit a b D \<and>
      (\<forall>e. d \<le> e \<longrightarrow> e < D \<longrightarrow> \<not> hit a b e) \<and> length ts = Suc D - d \<and> (\<forall>i<length ts. ready a b (d + i) (ts ! i))) \<or>
    edit_loop a b mx (int d) v trace = Some None \<and> (\<forall>e. d \<le> e \<longrightarrow> int e \<le> mx \<longrightarrow> \<not> hit a b e)"
  using assms
proof (induction "nat (mx + 1 - int d)" arbitrary: d v trace rule: less_induct)
  case less
  show ?case
  proof (cases "int d \<le> mx")
    case False
    then have "edit_loop a b mx (int d) v trace = Some None" by (simp add: edit_loop.simps)
    with False show ?thesis by auto
  next
    case le: True
    show ?thesis
    proof (cases rule: round_loop_cases [OF less.prems])
      case (1 v')
      with le have "edit_loop a b mx (int d) v trace = Some (Some (trace @ [v]))" by (subst edit_loop.simps) simp
      with 1 le less.prems show ?thesis by (intro disjI1 exI [of _ d] exI [of _ "[v]"]) simp
    next
      case (2 v')
      with le have step: "edit_loop a b mx (int d) v trace = edit_loop a b mx (int (Suc d)) v' (trace @ [v])"
        by (subst edit_loop.simps) (simp add: add.commute)
      have "nat (mx + 1 - int (Suc d)) < nat (mx + 1 - int d)" using le by simp
      from less.hyps [OF this \<open>ready a b (Suc d) v'\<close>, of "trace @ [v]"] show ?thesis
      proof (elim disjE exE conjE)
        fix D ts
        assume e: "edit_loop a b mx (int (Suc d)) v' (trace @ [v]) = Some (Some ((trace @ [v]) @ ts))"
          and D: "Suc d \<le> D" "int D \<le> mx" "hit a b D" "\<forall>e. Suc d \<le> e \<longrightarrow> e < D \<longrightarrow> \<not> hit a b e"
          and ts: "length ts = Suc D - Suc d" "\<forall>i<length ts. ready a b (Suc d + i) (ts ! i)"
        have "\<not> hit a b e" if "d \<le> e" "e < D" for e using that D(4) 2(2) by (cases "e = d") auto
        moreover have "ready a b (d + i) ((v # ts) ! i)" if "i < length (v # ts)" for i
          using that ts(2) less.prems by (cases i) auto
        ultimately show ?thesis using e D ts(1) step
          by (intro disjI1 exI [of _ D] exI [of _ "v # ts"]) (auto simp: Suc_diff_le)
      next
        assume e: "edit_loop a b mx (int (Suc d)) v' (trace @ [v]) = Some None"
          and no: "\<forall>e. Suc d \<le> e \<longrightarrow> int e \<le> mx \<longrightarrow> \<not> hit a b e"
        have "\<not> hit a b e" if "d \<le> e" "int e \<le> mx" for e using that no 2(2) by (cases "e = d") auto
        with e step show ?thesis by auto
      qed
    qed
  qed
qed

text \<open>The least number of edits, and that the first round to reach the end is that number.\<close>

definition distance :: "string list \<Rightarrow> string list \<Rightarrow> nat \<Rightarrow> bool" where
  "distance a b D \<longleftrightarrow> reach a b D (int (length a)) (int (length b)) \<and>
     (\<forall>d. reach a b d (int (length a)) (int (length b)) \<longrightarrow> D \<le> d)"

lemma hit_reach: "hit a b d \<Longrightarrow> \<exists>d'\<le>d. reach a b d' (int (length a)) (int (length b))"
proof -
  assume "hit a b d"
  then obtain k where k: "band d k" "ends_at a b d k" by (auto simp: hit_def)
  from reach_clip [OF furthest_reach [OF k(1), of a b]] k(2) show ?thesis
    by (fastforce simp: ends_at_def min_def split: if_splits)
qed

lemma reach_hit: "reach a b d (int (length a)) (int (length b)) \<Longrightarrow> hit a b d"
  using furthest_greatest [of a b d "int (length a)" "int (length b)"]
    reach_in_band [of a b d "int (length a)" "int (length b)"]
  by (auto simp: hit_def ends_at_def intro!: exI [of _ "int (length a) - int (length b)"])

lemma first_hit: "\<forall>e<D. \<not> hit a b e \<Longrightarrow> hit a b D \<Longrightarrow> distance a b D"
proof -
  assume least: "\<forall>e<D. \<not> hit a b e" and h: "hit a b D"
  obtain d' where "d' \<le> D" "reach a b d' (int (length a)) (int (length b))" using hit_reach [OF h] by blast
  moreover then have "\<not> d' < D" using least reach_hit by blast
  ultimately have "reach a b D (int (length a)) (int (length b))" by simp
  moreover have "D \<le> d" if "reach a b d (int (length a)) (int (length b))" for d
    using reach_hit [OF that] least by (meson not_le)
  ultimately show ?thesis by (simp add: distance_def)
qed

lemma distance_furthest:
  assumes "distance a b D"
  shows "furthest a b D (int (length a) - int (length b)) = int (length a)"
proof -
  let ?n = "int (length a)" and ?m = "int (length b)"
  let ?k = "?n - ?m"
  have r: "reach a b D ?n ?m" using assms by (simp add: distance_def)
  have ge: "?n \<le> furthest a b D ?k" by (rule furthest_greatest [OF r])
  have "\<not> ?n < furthest a b D ?k"
  proof
    assume gt: "?n < furthest a b D ?k"
    then have "min (furthest a b D ?k) ?n = ?n" "min (furthest a b D ?k - ?k) ?m = ?m" by auto
    with reach_clip [OF furthest_reach [OF reach_in_band [OF r], of a b]] gt
    obtain d' where "reach a b d' ?n ?m" "d' < D" by auto
    with assms show False by (fastforce simp: distance_def)
  qed
  with ge show ?thesis by simp
qed

lemma reach_delete: "reach a b i (int i) 0"
proof (induction i)
  case (Suc i)
  from reach.right [OF Suc.IH] show ?case by (simp add: add.commute)
qed (simp add: reach.origin)

lemma reach_all: "reach a b (n + j) (int n) (int j)"
proof (induction j)
  case (Suc j)
  from reach.down [OF Suc.IH] show ?case by (simp add: add.commute)
qed (simp add: reach_delete)

lemma distance_exists: "\<exists>D\<le>length a + length b. distance a b D"
proof -
  let ?P = "\<lambda>d. reach a b d (int (length a)) (int (length b))"
  have "?P (length a + length b)" by (rule reach_all)
  then have "?P (Least ?P)" "Least ?P \<le> length a + length b" by (auto intro: LeastI Least_le)
  then show ?thesis by (intro exI [of _ "Least ?P"]) (auto simp: distance_def intro: Least_le)
qed

lemma distance_unique: "distance a b D \<Longrightarrow> distance a b E \<Longrightarrow> D = E"
  by (meson distance_def le_antisym)

text \<open>The trace of the rounds up to the distance, or nil when it is more than \<open>maxEdits\<close>.\<close>

lemma shortestEdit_spec:
  assumes D: "distance a b D"
  shows "if int D \<le> maxEdits
    then \<exists>ts. shortestEdit a b = Some (Some ts) \<and> length ts = Suc D \<and> (\<forall>i\<le>D. ready a b i (ts ! i))
    else shortestEdit a b = Some None"
proof -
  define mx where "mx = (if int (length a) + int (length b) < maxEdits
    then int (length a) + int (length b) else maxEdits)"
  have D_le: "D \<le> length a + length b" using distance_exists D distance_unique by blast
  then have mx: "int D \<le> mx \<longleftrightarrow> int D \<le> maxEdits" by (auto simp: mx_def)
  have e: "shortestEdit a b = edit_loop a b mx (int 0) ((\<lambda>_. 0)(1 := 0)) []"
    by (simp add: shortestEdit_def mx_def Let_def)
  have least: "\<not> hit a b e" if "e < D" for e
    using that D hit_reach [of a b e] by (auto simp: distance_def dest: le_less_trans)
  have hitD: "hit a b D" using D reach_hit by (auto simp: distance_def)
  have r0: "ready a b 0 ((\<lambda>_. 0)(1 := 0))" by simp
  from edit_loop_spec [OF r0, of mx "[]"] show ?thesis
  proof (elim disjE exE conjE)
    fix E ts
    assume t: "edit_loop a b mx (int 0) ((\<lambda>_. 0)(1 := 0)) [] = Some (Some ([] @ ts))"
      and E: "int E \<le> mx" "hit a b E" "\<forall>e. 0 \<le> e \<longrightarrow> e < E \<longrightarrow> \<not> hit a b e"
      and ts: "length ts = Suc E - 0" "\<forall>i<length ts. ready a b (0 + i) (ts ! i)"
    have "E = D" using E least hitD by (meson linorder_neqE_nat zero_le)
    with t E ts e mx show ?thesis by simp
  next
    assume "edit_loop a b mx (int 0) ((\<lambda>_. 0)(1 := 0)) [] = Some None"
      and "\<forall>e. 0 \<le> e \<longrightarrow> int e \<le> mx \<longrightarrow> \<not> hit a b e"
    with hitD mx e show ?thesis by auto
  qed
qed

section \<open>The script read back\<close>

text \<open>The script so far, backwards, turns what is behind \<open>(x, y)\<close> of the old text into that of the new.\<close>

definition tail_script :: "string list \<Rightarrow> string list \<Rightarrow> int \<times> int \<times> editOp list \<Rightarrow> bool" where
  "tail_script a b st \<longleftrightarrow> (case st of (x, y, ops) \<Rightarrow>
     0 \<le> x \<and> x \<le> int (length a) \<and> 0 \<le> y \<and> y \<le> int (length b) \<and>
     transforms (rev ops) (drop (nat x) a) (drop (nat y) b))"

lemma drop_nth: "0 < x \<Longrightarrow> x \<le> int (length a) \<Longrightarrow> drop (nat (x - 1)) a = a ! nat (x - 1) # drop (nat x) a"
  using Cons_nth_drop_Suc [of "nat (x - 1)" a] by (simp add: Suc_nat_eq_nat_zadd1)

lemma tail_script_keep:
  "tail_script a b (x, y, ops) \<Longrightarrow> 0 < x \<Longrightarrow> 0 < y \<Longrightarrow> matches a b (x - 1) (y - 1) \<Longrightarrow>
   go_index a (x - 1) = Some (a ! nat (x - 1)) \<and>
   tail_script a b (x - 1, y - 1, ops @ [\<lparr>op_mark = Keep, op_text = a ! nat (x - 1)\<rparr>])"
  using drop_nth [of x a] drop_nth [of y b]
  by (auto simp: tail_script_def transforms_def old_of_def new_of_def go_index_def matches_def)

lemma tail_script_del:
  "tail_script a b (x, y, ops) \<Longrightarrow> 0 < x \<Longrightarrow>
   go_index a (x - 1) = Some (a ! nat (x - 1)) \<and>
   tail_script a b (x - 1, y, ops @ [\<lparr>op_mark = Del, op_text = a ! nat (x - 1)\<rparr>])"
  using drop_nth [of x a]
  by (auto simp: tail_script_def transforms_def old_of_def new_of_def go_index_def)

lemma tail_script_ins:
  "tail_script a b (x, y, ops) \<Longrightarrow> 0 < y \<Longrightarrow>
   go_index b (y - 1) = Some (b ! nat (y - 1)) \<and>
   tail_script a b (x, y - 1, ops @ [\<lparr>op_mark = Ins, op_text = b ! nat (y - 1)\<rparr>])"
  using drop_nth [of y b]
  by (auto simp: tail_script_def transforms_def old_of_def new_of_def go_index_def)

lemma walk_back_spec:
  assumes "tail_script a b (x, y, ops)" "sx \<le> x" "sx = px \<and> sx - (x - y) = py + 1 \<or> sx - (x - y) = py \<and> sx = px + 1 \<or> sx = px \<and> sx - (x - y) = py"
    "0 \<le> px" "0 \<le> py" "\<And>j. sx \<le> j \<Longrightarrow> j < x \<Longrightarrow> matches a b j (j - (x - y))"
  shows "\<exists>ops'. walk_back a px py x y ops = Some (sx, sx - (x - y), ops') \<and>
     tail_script a b (sx, sx - (x - y), ops') \<and> edits ops' = edits ops"
  using assms
proof (induction "nat (x - sx)" arbitrary: x y ops rule: less_induct)
  case less
  show ?case
  proof (cases "x = sx")
    case True
    with less.prems show ?thesis by (subst walk_back.simps) auto
  next
    case False
    then have lt: "sx < x" using less.prems(2) by simp
    then have m: "matches a b (x - 1) (y - 1)" using less.prems(6) [of "x - 1"] by simp
    have c: "px < x \<and> py < y" using less.prems(3) lt by auto
    let ?ops = "ops @ [\<lparr>op_mark = Keep, op_text = a ! nat (x - 1)\<rparr>]"
    have k: "go_index a (x - 1) = Some (a ! nat (x - 1))" "tail_script a b (x - 1, y - 1, ?ops)"
      using tail_script_keep [OF less.prems(1) _ _ m] c less.prems(4,5) by auto
    have step: "walk_back a px py x y ops = walk_back a px py (x - 1) (y - 1) ?ops"
      by (subst walk_back.simps) (simp add: c k)
    have ed: "edits ?ops = edits ops" by (simp add: edits_def)
    have "nat (x - 1 - sx) < nat (x - sx)" using lt by simp
    from less.hyps [OF this k(2)] lt less.prems(3-6) step ed show ?thesis by simp
  qed
qed

text \<open>Where the walk back stands before round \<open>d\<close> is read: at the end of a diagonal of that round.\<close>

definition back_inv :: "string list \<Rightarrow> string list \<Rightarrow> nat \<Rightarrow> nat \<Rightarrow> int \<times> int \<times> editOp list \<Rightarrow> bool" where
  "back_inv a b D d st \<longleftrightarrow> tail_script a b st \<and> (case st of (x, y, ops) \<Rightarrow>
     band d (x - y) \<and> x = furthest a b d (x - y) \<and> edits ops + d = D)"

lemma back_round_spec:
  assumes inv: "back_inv a b D (Suc d) (x, y, ops)" and rdy: "ready a b (Suc d) v"
  shows "\<exists>st. back_round a b (int (Suc d)) v (x, y, ops) = Some st \<and> back_inv a b D d st"
proof -
  define k where "k = x - y"
  define sx where "sx = first_x a b (Suc d) k"
  have ts: "tail_script a b (x, y, ops)" and bk: "band (Suc d) k" and x: "x = furthest a b (Suc d) k"
    and ed: "edits ops + Suc d = D" using inv by (auto simp: back_inv_def k_def)
  have y: "y = x - k" by (simp add: k_def)
  have sx: "sx \<le> x" "\<And>j. sx \<le> j \<Longrightarrow> j < x \<Longrightarrow> matches a b j (j - (x - y))"
    using furthest_slide(2,3) [OF bk, where a = a and b = b] unfolding sx_def x [symmetric] k_def [symmetric] by blast+
  have start: "start_x (int (Suc d)) k v = sx" using ready_start [OF rdy bk] by (simp add: sx_def)
  show ?thesis
  proof (cases "goes_down (int (Suc d)) k v")
    case True
    note prev = ready_reads(2) [OF rdy bk True]
    have nn: "0 \<le> v (k + 1)" "0 \<le> v (k + 1) - (k + 1)" 
      using reach_nonneg [OF furthest_reach [OF conjunct1 [OF prev], of a b]] prev by auto
    have s: "sx = v (k + 1)" using start True by (simp add: start_x_def)
    from walk_back_spec [OF ts sx(1) _ nn sx(2)] s y
    obtain ops' where w: "walk_back a (v (k + 1)) (v (k + 1) - (k + 1)) x y ops = Some (sx, sx - k, ops')"
      "tail_script a b (sx, sx - k, ops')" "edits ops' = edits ops" by auto
    have pos: "0 < sx - k" using nn s by simp
    note ins = tail_script_ins [OF w(2) pos]
    let ?st = "(sx, sx - k - 1, ops' @ [\<lparr>op_mark = Ins, op_text = b ! nat (sx - k - 1)\<rparr>])"
    have "back_round a b (int (Suc d)) v (x, y, ops) = Some ?st"
      using w(1) ins True s by (simp add: back_round_def Let_def k_def)
    moreover have "back_inv a b D d ?st" using ins prev ed w(3) s
      by (simp add: back_inv_def edits_def algebra_simps)
    ultimately show ?thesis by blast
  next
    case False
    note prev = ready_reads(3) [OF rdy bk False]
    have nn: "0 \<le> v (k - 1)" "0 \<le> v (k - 1) - (k - 1)" 
      using reach_nonneg [OF furthest_reach [OF conjunct1 [OF prev], of a b]] prev by auto
    have s: "sx = v (k - 1) + 1" using start False by (simp add: start_x_def)
    from walk_back_spec [OF ts sx(1) _ nn sx(2)] s y
    obtain ops' where w: "walk_back a (v (k - 1)) (v (k - 1) - (k - 1)) x y ops = Some (sx, sx - k, ops')"
      "tail_script a b (sx, sx - k, ops')" "edits ops' = edits ops" by auto
    have pos: "0 < sx" using nn s by simp
    note del = tail_script_del [OF w(2) pos]
    let ?st = "(sx - 1, sx - k, ops' @ [\<lparr>op_mark = Del, op_text = a ! nat (sx - 1)\<rparr>])"
    have "back_round a b (int (Suc d)) v (x, y, ops) = Some ?st"
      using w(1) del False s by (simp add: back_round_def Let_def k_def)
    moreover have "back_inv a b D d ?st" using del prev ed w(3) s
      by (simp add: back_inv_def edits_def algebra_simps)
    ultimately show ?thesis by blast
  qed
qed

lemma back_loop_spec:
  assumes "back_inv a b D d st" "d < length ts" "\<forall>i\<le>d. ready a b i (ts ! i)"
  shows "\<exists>st'. back_loop a b ts d st = Some st' \<and> back_inv a b D 0 st'"
  using assms
proof (induction d arbitrary: st)
  case 0
  then show ?case by simp
next
  case (Suc d)
  obtain x y ops where st: "st = (x, y, ops)" by (cases st) auto
  have "ready a b (Suc d) (ts ! Suc d)" using Suc.prems(3) by blast
  from back_round_spec [OF Suc.prems(1) [unfolded st] this] st obtain st1
    where st1: "back_round a b (int (Suc d)) (ts ! Suc d) st = Some st1" "back_inv a b D d st1" by blast
  have "go_index ts (int (Suc d)) = Some (ts ! Suc d)" using Suc.prems(2) by (simp add: go_index_def del: of_nat_Suc)
  with st1 Suc.IH [OF st1(2)] Suc.prems(2,3) show ?case by simp
qed

lemma edits_rev [simp]: "edits (rev ops) = edits ops"
  by (simp add: edits_def rev_filter [symmetric])

lemma backtrack_spec:
  assumes D: "distance a b D" and ts: "length ts = Suc D" "\<forall>i\<le>D. ready a b i (ts ! i)"
  shows "\<exists>ops. backtrack ts a b = Some ops \<and> transforms ops a b \<and> edits ops = D"
proof -
  have r: "reach a b D (int (length a)) (int (length b))" using D by (simp add: distance_def)
  have "back_inv a b D D (int (length a), int (length b), [])"
    using distance_furthest [OF D] reach_in_band [OF r]
    by (simp add: back_inv_def tail_script_def transforms_def old_of_def new_of_def edits_def)
  from back_loop_spec [OF this _ ts(2)] ts(1) obtain x y ops where l:
    "back_loop a b ts D (int (length a), int (length b), []) = Some (x, y, ops)" "back_inv a b D 0 (x, y, ops)"
    by (metis lessI prod_cases3)
  then have i: "tail_script a b (x, y, ops)" "y = x" "x = furthest a b 0 0" "edits ops = D"
    by (auto simp: back_inv_def)
  have "0 \<le> x" using i(1) by (simp add: tail_script_def)
  with walk_back_spec [OF i(1), of 0 0 0] i(2,3) furthest_slide(3) [of 0 0 a b]
  obtain ops' where w: "walk_back a 0 0 x y ops = Some (0, 0, ops')" "tail_script a b (0, 0, ops')"
    "edits ops' = edits ops" by auto
  have "backtrack ts a b = Some (rev ops')" using l(1) w(1) ts(1) by (simp add: backtrack_def)
  with w i(4) show ?thesis by (simp add: tail_script_def)
qed

lemma shortest_script:
  obtains (beyond) D where "distance a b D" "maxEdits < int D" "shortestEdit a b = Some None"
    | (within) D ts ops where "distance a b D" "int D \<le> maxEdits" "shortestEdit a b = Some (Some ts)"
        "backtrack ts a b = Some ops" "transforms ops a b" "edits ops = D"
proof -
  obtain D where D: "distance a b D" using distance_exists by blast
  show thesis
  proof (cases "int D \<le> maxEdits")
    case True
    with shortestEdit_spec [OF D] obtain ts where ts: "shortestEdit a b = Some (Some ts)" "length ts = Suc D"
      "\<forall>i\<le>D. ready a b i (ts ! i)" by auto
    with backtrack_spec [OF D ts(2,3)] within [OF D True ts(1)] show ?thesis by blast
  next
    case False
    with shortestEdit_spec [OF D] beyond [OF D] show ?thesis by simp
  qed
qed

section \<open>What the hunks show\<close>

definition keeps :: "editOp list \<Rightarrow> bool" where
  "keeps ops \<longleftrightarrow> (\<forall>o1\<in>set ops. op_mark o1 = Keep)"

text \<open>The lines of a script with their numbers in both texts.\<close>

fun number :: "int \<Rightarrow> int \<Rightarrow> editOp list \<Rightarrow> DiffLine list" where
  "number n m [] = []"
| "number n m (o1 # ops) =
     (case op_mark o1 of
        Keep \<Rightarrow> \<lparr>dl_op = Keep, dl_text = op_text o1, ALine = Some n, BLine = Some m\<rparr> # number (n + 1) (m + 1) ops
      | Del \<Rightarrow> \<lparr>dl_op = Del, dl_text = op_text o1, ALine = Some n, BLine = None\<rparr> # number (n + 1) m ops
      | Ins \<Rightarrow> \<lparr>dl_op = Ins, dl_text = op_text o1, ALine = None, BLine = Some m\<rparr> # number n (m + 1) ops)"

text \<open>The line numbers at which what follows a script starts, and the hunk that shows a stretch.\<close>

definition next_a :: "editOp list \<Rightarrow> int" where "next_a ops = 1 + int (length (old_of ops))"

definition next_b :: "editOp list \<Rightarrow> int" where "next_b ops = 1 + int (length (new_of ops))"

definition hunk_of :: "editOp list \<Rightarrow> editOp list \<Rightarrow> Hunk" where
  "hunk_of before body =
     \<lparr>AStart = next_a before, BStart = next_b before, ACount = int (length (old_of body)),
      BCount = int (length (new_of body)), Lines = number (next_a before) (next_b before) body\<rparr>"

definition leading :: "editOp list \<Rightarrow> nat" where
  "leading ops = length (takeWhile (\<lambda>o1. op_mark o1 = Keep) ops)"

text \<open>
  The hunks show a stretch of the script: each a contiguous part of it that holds a change, with at most
  three unchanged lines at either end and exactly three in front when some were left out, and only
  unchanged lines between them.
\<close>

inductive covered :: "Hunk list \<Rightarrow> editOp list \<Rightarrow> bool" where
  none: "covered [] []"
| hunk: "covered hs p \<Longrightarrow> keeps gap \<Longrightarrow> \<not> keeps body \<Longrightarrow> leading body \<le> context_lines \<Longrightarrow>
    (gap \<noteq> [] \<longrightarrow> leading body = context_lines) \<Longrightarrow> leading (rev body) \<le> context_lines \<Longrightarrow>
    covered (hs @ [hunk_of (p @ gap) body]) (p @ gap @ body)"

lemma side_simps [simp]:
  "old_of [] = []" "new_of [] = []" "old_of (xs @ ys) = old_of xs @ old_of ys" "new_of (xs @ ys) = new_of xs @ new_of ys"
  "old_of (o1 # ops) = (if op_mark o1 = Ins then [] else [op_text o1]) @ old_of ops"
  "new_of (o1 # ops) = (if op_mark o1 = Del then [] else [op_text o1]) @ new_of ops"
  by (simp_all add: old_of_def new_of_def)

lemma keeps_simps [simp]:
  "keeps []" "keeps (xs @ ys) \<longleftrightarrow> keeps xs \<and> keeps ys" "keeps (o1 # ops) \<longleftrightarrow> op_mark o1 = Keep \<and> keeps ops"
  "keeps (rev ops) = keeps ops"
  by (auto simp: keeps_def)

lemma leading_keeps: "keeps ks \<Longrightarrow> leading (ks @ xs) = length ks + leading xs"
  by (induction ks) (auto simp: leading_def)

lemma leading_mono: "\<not> keeps xs \<Longrightarrow> leading (xs @ ys) = leading xs"
  by (induction xs) (auto simp: leading_def)

lemma leading_change [simp]: "op_mark o1 \<noteq> Keep \<Longrightarrow> leading (o1 # ops) = 0"
  by (simp add: leading_def)

lemma number_append:
  "number n m (xs @ ys) = number n m xs @ number (n + int (length (old_of xs))) (m + int (length (new_of xs))) ys"
  by (induction xs arbitrary: n m) (auto simp: algebra_simps split: mark.split)

lemma push_hunk_of:
  "number (next_a (p @ body)) (next_b (p @ body)) [o1] = [l] \<Longrightarrow> push (hunk_of p body) l = hunk_of p (body @ [o1])"
  by (cases "op_mark o1") (auto simp: push_def hunk_of_def next_a_def next_b_def number_append algebra_simps)

lemma fold_push_hunk_of:
  "foldl push (hunk_of p body) (number (next_a (p @ body)) (next_b (p @ body)) ks) = hunk_of p (body @ ks)"
proof (induction ks rule: rev_induct)
  case (snoc o1 ks)
  have "number (next_a (p @ body)) (next_b (p @ body)) (ks @ [o1]) =
      number (next_a (p @ body)) (next_b (p @ body)) ks @ number (next_a (p @ body @ ks)) (next_b (p @ body @ ks)) [o1]"
    by (subst number_append) (simp add: next_a_def next_b_def add.assoc)
  moreover obtain l where "number (next_a (p @ body @ ks)) (next_b (p @ body @ ks)) [o1] = [l]"
    by (cases "op_mark o1") auto
  ultimately show ?case using snoc.IH push_hunk_of [of p "body @ ks" o1 l] by simp
qed simp

lemma length_number [simp]: "length (number n m ops) = length ops"
  by (induction ops arbitrary: n m) (auto split: mark.split)

lemma take_number: "take i (number n m ops) = number n m (take i ops)"
  by (induction ops arbitrary: n m i) (auto simp: take_Cons split: mark.split nat.split)

lemma drop_number:
  "drop i (number n m ops) =
   number (n + int (length (old_of (take i ops)))) (m + int (length (new_of (take i ops)))) (drop i ops)"
  by (induction ops arbitrary: n m i) (auto simp: take_Cons drop_Cons algebra_simps split: mark.split nat.split)

lemma drop_next:
  "drop i (number (next_a q) (next_b q) ops) = number (next_a (q @ take i ops)) (next_b (q @ take i ops)) (drop i ops)"
  by (simp add: drop_number next_a_def next_b_def add.assoc)

text \<open>What the builder knows after a prefix of the script: the hunks closed, the one open, the lines waiting.\<close>

definition hunk_inv :: "editOp list \<Rightarrow> hunk_state \<Rightarrow> bool" where
  "hunk_inv ops st \<longleftrightarrow> h_a st = next_a ops \<and> h_b st = next_b ops \<and>
     (\<exists>p gap body pend. covered (h_out st) p \<and> keeps gap \<and> keeps pend \<and> ops = p @ gap @ body @ pend \<and>
        h_pending st = number (next_a (p @ gap @ body)) (next_b (p @ gap @ body)) pend \<and>
        (case h_cur st of
           None \<Rightarrow> body = [] \<and> length pend \<le> context_lines \<and> (gap \<noteq> [] \<longrightarrow> length pend = context_lines)
         | Some h \<Rightarrow> h = hunk_of (p @ gap) body \<and> \<not> keeps body \<and> leading (rev body) = 0 \<and>
             leading body \<le> context_lines \<and> (gap \<noteq> [] \<longrightarrow> leading body = context_lines) \<and>
             length pend \<le> 2 * context_lines))"

lemma keeps_take: "keeps ops \<Longrightarrow> keeps (take i ops)" "keeps ops \<Longrightarrow> keeps (drop i ops)"
  by (auto simp: keeps_def dest: in_set_takeD in_set_dropD)

lemma hunk_inv_closedI:
  assumes "h_cur st = None" "h_a st = next_a ops" "h_b st = next_b ops" "covered (h_out st) p" "keeps gap" "keeps pend"
    "ops = p @ gap @ pend" "h_pending st = number (next_a (p @ gap)) (next_b (p @ gap)) pend"
    "length pend \<le> context_lines" "gap \<noteq> [] \<longrightarrow> length pend = context_lines"
  shows "hunk_inv ops st"
  unfolding hunk_inv_def using assms
  by (intro conjI exI [of _ p] exI [of _ gap] exI [of _ "[]"] exI [of _ pend]) simp_all

lemma hunk_inv_openI:
  assumes "h_cur st = Some (hunk_of (p @ gap) body)" "h_a st = next_a ops" "h_b st = next_b ops" "covered (h_out st) p"
    "keeps gap" "keeps pend" "ops = p @ gap @ body @ pend"
    "h_pending st = number (next_a (p @ gap @ body)) (next_b (p @ gap @ body)) pend"
    "\<not> keeps body" "leading (rev body) = 0" "leading body \<le> context_lines"
    "gap \<noteq> [] \<longrightarrow> leading body = context_lines" "length pend \<le> 2 * context_lines"
  shows "hunk_inv ops st"
  unfolding hunk_inv_def using assms
  by (intro conjI exI [of _ p] exI [of _ gap] exI [of _ body] exI [of _ pend]) simp_all

lemma hunk_invE:
  assumes "hunk_inv ops st"
  obtains (closed) p gap pend where "h_cur st = None" "h_a st = next_a ops" "h_b st = next_b ops" "covered (h_out st) p"
      "keeps gap" "keeps pend" "ops = p @ gap @ pend" "h_pending st = number (next_a (p @ gap)) (next_b (p @ gap)) pend"
      "length pend \<le> context_lines" "gap \<noteq> [] \<longrightarrow> length pend = context_lines"
    | (opened) p gap body pend where "h_cur st = Some (hunk_of (p @ gap) body)" "h_a st = next_a ops" "h_b st = next_b ops"
      "covered (h_out st) p" "keeps gap" "keeps pend" "ops = p @ gap @ body @ pend"
      "h_pending st = number (next_a (p @ gap @ body)) (next_b (p @ gap @ body)) pend"
      "\<not> keeps body" "leading (rev body) = 0" "leading body \<le> context_lines"
      "gap \<noteq> [] \<longrightarrow> leading body = context_lines" "length pend \<le> 2 * context_lines"
proof (cases "h_cur st")
  case None
  with assms show ?thesis unfolding hunk_inv_def by (auto intro: closed)
next
  case (Some h)
  with assms show ?thesis unfolding hunk_inv_def by (auto intro: opened)
qed

lemma next_keep: "op_mark o1 = Keep \<Longrightarrow> next_a (ops @ [o1]) = next_a ops + 1 \<and> next_b (ops @ [o1]) = next_b ops + 1"
  by (simp add: next_a_def next_b_def)

lemma pending_snoc:
  assumes "h_a st = next_a (q @ pend)" "h_b st = next_b (q @ pend)" "op_mark o1 = Keep"
    "h_pending st = number (next_a q) (next_b q) pend"
  shows "h_pending st @ [keep_line st o1] = number (next_a q) (next_b q) (pend @ [o1])"
  using assms by (simp add: number_append keep_line_def next_a_def next_b_def add.assoc)

lemma hunk_inv_keep_closed:
  assumes st: "h_cur st = None" "h_a st = next_a ops" "h_b st = next_b ops" "covered (h_out st) p" "keeps gap" "keeps pend"
    "ops = p @ gap @ pend" "h_pending st = number (next_a (p @ gap)) (next_b (p @ gap)) pend"
    "length pend \<le> context_lines" "gap \<noteq> [] \<longrightarrow> length pend = context_lines" and k: "op_mark o1 = Keep"
  shows "hunk_inv (ops @ [o1]) (hunk_keep st o1)"
proof -
  define ps where "ps = pend @ [o1]"
  have pending: "h_pending st @ [keep_line st o1] = number (next_a (p @ gap)) (next_b (p @ gap)) ps"
    using pending_snoc [of st "p @ gap" pend o1] st k by (simp add: ps_def)
  have kp: "keeps ps" and ops: "ops @ [o1] = p @ gap @ ps" using st k by (simp_all add: ps_def)
  show ?thesis
  proof (cases "context_lines < length ps")
    case True
    define j where "j = length ps - context_lines"
    have step: "hunk_keep st o1 = st\<lparr>h_a := h_a st + 1, h_b := h_b st + 1,
        h_pending := number (next_a ((p @ gap) @ take j ps)) (next_b ((p @ gap) @ take j ps)) (drop j ps)\<rparr>"
      using st(1) True unfolding hunk_keep_def pending by (simp add: last_context_def drop_next j_def)
    show ?thesis
      by (rule hunk_inv_closedI [of _ _ p "gap @ take j ps" "drop j ps"])
        (use st kp ops True next_keep [OF k, of ops] in \<open>simp_all add: step keeps_take j_def\<close>)
  next
    case False
    then have step: "hunk_keep st o1 = st\<lparr>h_a := h_a st + 1, h_b := h_b st + 1,
        h_pending := number (next_a (p @ gap)) (next_b (p @ gap)) ps\<rparr>"
      using st(1) unfolding hunk_keep_def pending by simp
    show ?thesis
      by (rule hunk_inv_closedI [of _ _ p gap ps])
        (use st kp ops False next_keep [OF k, of ops] in \<open>auto simp: step ps_def\<close>)
  qed
qed

lemma covered_extend:
  assumes "covered hs p" "keeps gap" "\<not> keeps body" "leading (rev body) = 0" "leading body \<le> context_lines"
    "gap \<noteq> [] \<longrightarrow> leading body = context_lines" "keeps t" "length t \<le> context_lines"
  shows "covered (hs @ [hunk_of (p @ gap) (body @ t)]) (p @ gap @ body @ t)"
  using assms leading_keeps [of "rev t" "rev body"]
  by (intro covered.hunk) (simp_all add: leading_mono)

lemma hunk_inv_keep_opened:
  assumes st: "h_cur st = Some (hunk_of (p @ gap) body)" "h_a st = next_a ops" "h_b st = next_b ops"
      "covered (h_out st) p" "keeps gap" "keeps pend" "ops = p @ gap @ body @ pend"
      "h_pending st = number (next_a (p @ gap @ body)) (next_b (p @ gap @ body)) pend"
      "\<not> keeps body" "leading (rev body) = 0" "leading body \<le> context_lines"
      "gap \<noteq> [] \<longrightarrow> leading body = context_lines" "length pend \<le> 2 * context_lines" and k: "op_mark o1 = Keep"
  shows "hunk_inv (ops @ [o1]) (hunk_keep st o1)"
proof -
  define ps where "ps = pend @ [o1]"
  define q where "q = p @ gap @ body"
  have pending: "h_pending st @ [keep_line st o1] = number (next_a q) (next_b q) ps"
    using pending_snoc [of st q pend o1] st k by (simp add: ps_def q_def)
  have kp: "keeps ps" and ops: "ops @ [o1] = q @ ps" using st k by (simp_all add: ps_def q_def)
  show ?thesis
  proof (cases "context_lines * 2 < length ps")
    case True
    define t where "t = take context_lines ps"
    define j where "j = length ps - context_lines"
    define g where "g = take (j - context_lines) (drop context_lines ps)"
    have tg: "t @ g = take j ps"
      using True take_add [of context_lines "j - context_lines" ps] by (simp add: t_def g_def j_def)
    have "foldl push (hunk_of (p @ gap) body) (take context_lines (number (next_a q) (next_b q) ps)) =
        hunk_of (p @ gap) (body @ t)"
      using fold_push_hunk_of [of "p @ gap" body t] by (simp add: take_number t_def q_def)
    then have step: "hunk_keep st o1 = st\<lparr>h_a := h_a st + 1, h_b := h_b st + 1,
        h_out := h_out st @ [hunk_of (p @ gap) (body @ t)], h_cur := None,
        h_pending := number (next_a (q @ t @ g)) (next_b (q @ t @ g)) (drop j ps)\<rparr>"
      using st(1) True unfolding hunk_keep_def pending
      by (simp add: last_context_def drop_next tg j_def [symmetric]) (simp add: j_def)
    have cov: "covered (h_out st @ [hunk_of (p @ gap) (body @ t)]) (q @ t)"
      using covered_extend [OF st(4,5,9,10,11,12) keeps_take(1) [OF kp], of context_lines] by (simp add: t_def q_def)
    have "ops @ [o1] = (q @ t) @ g @ drop j ps" using ops tg by (metis append.assoc append_take_drop_id)
    moreover have "keeps g" by (simp add: g_def keeps_take kp)
    ultimately show ?thesis
      using cov True next_keep [OF k, of ops] st(2,3)
      by (intro hunk_inv_closedI [of _ _ "q @ t" g "drop j ps"]) (simp_all add: step keeps_take kp j_def)
  next
    case False
    then have step: "hunk_keep st o1 = st\<lparr>h_a := h_a st + 1, h_b := h_b st + 1, h_pending := number (next_a q) (next_b q) ps\<rparr>"
      using st(1) unfolding hunk_keep_def pending by simp
    show ?thesis
      by (rule hunk_inv_openI [of _ p gap body _ ps])
        (use st kp ops False next_keep [OF k, of ops] in \<open>simp_all add: step q_def\<close>)
  qed
qed

lemma hunk_inv_keep: "hunk_inv ops st \<Longrightarrow> op_mark o1 = Keep \<Longrightarrow> hunk_inv (ops @ [o1]) (hunk_keep st o1)"
  by (elim hunk_invE) (rule hunk_inv_keep_closed hunk_inv_keep_opened; assumption)+

text \<open>A changed line joins the open hunk, or opens one at the first waiting line.\<close>

lemma hunk_inv_changeI:
  assumes "open_hunk st = hunk_of (p @ gap) body" "h_a st = next_a ops" "h_b st = next_b ops" "covered (h_out st) p"
    "keeps gap" "ops = p @ gap @ body @ pend"
    "h_pending st = number (next_a (p @ gap @ body)) (next_b (p @ gap @ body)) pend" "op_mark o1 \<noteq> Keep"
    "leading (body @ pend @ [o1]) \<le> context_lines" "gap \<noteq> [] \<longrightarrow> leading (body @ pend @ [o1]) = context_lines"
  shows "hunk_inv (ops @ [o1]) (hunk_change st o1)"
proof -
  have h: "foldl push (open_hunk st) (h_pending st) = hunk_of (p @ gap) (body @ pend)"
    using fold_push_hunk_of [of "p @ gap" body pend] assms(1,7) by simp
  obtain l where l: "number (next_a ops) (next_b ops) [o1] = [l]" by (cases "op_mark o1") auto
  have pu: "push (hunk_of (p @ gap) (body @ pend)) l = hunk_of (p @ gap) (body @ pend @ [o1])"
    using push_hunk_of [of "p @ gap" "body @ pend" o1 l] l assms(6) by simp
  have step: "hunk_change st o1 = st\<lparr>h_cur := Some (hunk_of (p @ gap) (body @ pend @ [o1])),
      h_a := next_a (ops @ [o1]), h_b := next_b (ops @ [o1]), h_pending := []\<rparr>"
    using assms(2,3,8) l pu unfolding hunk_change_def h by (cases "op_mark o1") (auto simp: next_a_def next_b_def)
  show ?thesis
    by (rule hunk_inv_openI [of _ p gap "body @ pend @ [o1]" _ "[]"]) (use assms in \<open>simp_all add: step\<close>)
qed

lemma hunk_inv_change:
  assumes "hunk_inv ops st" and k: "op_mark o1 \<noteq> Keep"
  shows "hunk_inv (ops @ [o1]) (hunk_change st o1)"
  using assms(1)
proof (cases rule: hunk_invE)
  case (closed p gap pend)
  have "open_hunk st = hunk_of (p @ gap) []"
    using closed(1,2,3,6,7,8) by (cases pend) (auto simp: open_hunk_def hunk_of_def next_a_def next_b_def)
  then show ?thesis
    by (rule hunk_inv_changeI [where pend = pend]) (use closed k leading_keeps [of pend "[o1]"] in auto)
next
  case (opened p gap body pend)
  have "open_hunk st = hunk_of (p @ gap) body" by (simp add: open_hunk_def opened)
  then show ?thesis
    by (rule hunk_inv_changeI [where pend = pend]) (use opened k leading_mono [of body "pend @ [o1]"] in auto)
qed

lemma hunk_inv_step: "hunk_inv ops st \<Longrightarrow> hunk_inv (ops @ [o1]) (hunk_step st o1)"
  by (simp add: hunk_step_def hunk_inv_keep hunk_inv_change)

lemma hunk_inv_run: "hunk_inv ops (foldl hunk_step \<lparr>h_out = [], h_cur = None, h_a = 1, h_b = 1, h_pending = []\<rparr> ops)"
proof (induction ops rule: rev_induct)
  case Nil
  show ?case unfolding hunk_inv_def
    by (intro conjI exI [of _ "[]"]) (auto simp: next_a_def next_b_def covered.none)
qed (simp add: hunk_inv_step)

lemma buildHunks_covered: "\<exists>p rest. ops = p @ rest \<and> keeps rest \<and> covered (buildHunks ops) p"
proof -
  define st where "st = foldl hunk_step \<lparr>h_out = [], h_cur = None, h_a = 1, h_b = 1, h_pending = []\<rparr> ops"
  have "hunk_inv ops st" unfolding st_def by (rule hunk_inv_run)
  then show ?thesis
  proof (cases rule: hunk_invE)
    case (closed p gap pend)
    have "buildHunks ops = h_out st" using closed(1) by (simp add: buildHunks_def st_def [symmetric])
    with closed show ?thesis by (intro exI [of _ p] exI [of _ "gap @ pend"]) simp
  next
    case (opened p gap body pend)
    let ?t = "take context_lines pend"
    have "buildHunks ops = h_out st @ [hunk_of (p @ gap) (body @ ?t)]"
      using opened(1,8) fold_push_hunk_of [of "p @ gap" body ?t]
      by (simp add: buildHunks_def st_def [symmetric] take_number)
    moreover have "covered (h_out st @ [hunk_of (p @ gap) (body @ ?t)]) (p @ gap @ body @ ?t)"
      using covered_extend [OF opened(4,5,9,10,11,12) keeps_take(1) [OF opened(6)], of context_lines] by simp
    moreover have "ops = (p @ gap @ body @ ?t) @ drop context_lines pend" using opened(7) by simp
    ultimately show ?thesis using keeps_take(2) [OF opened(6)] by metis
  qed
qed

section \<open>The comparison\<close>

lemma counts_edits:
  "length (filter (\<lambda>o1. op_mark o1 = Ins) ops) + length (filter (\<lambda>o1. op_mark o1 = Del) ops) = edits ops"
  by (induction ops) (auto simp: edits_def split: mark.splits intro: mark.exhaust)

lemma no_edits_same: "edits ops = 0 \<Longrightarrow> old_of ops = new_of ops"
  by (auto simp: edits_def old_of_def new_of_def filter_empty_conv intro!: arg_cong [where f = "map op_text"] filter_cong)

text \<open>The result for texts that differ, one case for each way the search ends.\<close>

lemma Diff_cases:
  obtains (same) "NormalizeLines t = NormalizeLines u"
      "Diff t u = Some \<lparr>Changed = False, Added = Some 0, Removed = Some 0, Hunks = [], Truncated = False\<rparr>"
    | (far) D where "NormalizeLines t \<noteq> NormalizeLines u" "distance (NormalizeLines t) (NormalizeLines u) D" "maxEdits < int D"
      "Diff t u = Some \<lparr>Changed = True, Added = None, Removed = None, Hunks = [], Truncated = True\<rparr>"
    | (near) ops where "NormalizeLines t \<noteq> NormalizeLines u" "transforms ops (NormalizeLines t) (NormalizeLines u)"
      "distance (NormalizeLines t) (NormalizeLines u) (edits ops)" "int (edits ops) \<le> maxEdits"
      "Diff t u = Some \<lparr>Changed = 0 < edits ops, Added = Some (int (length (filter (\<lambda>o1. op_mark o1 = Ins) ops))),
         Removed = Some (int (length (filter (\<lambda>o1. op_mark o1 = Del) ops))), Hunks = buildHunks ops, Truncated = False\<rparr>"
proof (cases "NormalizeLines t = NormalizeLines u")
  case True
  then show ?thesis by (intro same) (simp_all add: Diff_def)
next
  case ne: False
  let ?a = "NormalizeLines t" and ?b = "NormalizeLines u"
  have d: "Diff t u = (case shortestEdit ?a ?b of None \<Rightarrow> None
      | Some None \<Rightarrow> Some \<lparr>Changed = True, Added = None, Removed = None, Hunks = [], Truncated = True\<rparr>
      | Some (Some trace) \<Rightarrow> (case backtrack trace ?a ?b of None \<Rightarrow> None
          | Some ops \<Rightarrow> Some \<lparr>Changed = 0 < edits ops, Added = Some (int (length (filter (\<lambda>o1. op_mark o1 = Ins) ops))),
             Removed = Some (int (length (filter (\<lambda>o1. op_mark o1 = Del) ops))), Hunks = buildHunks ops, Truncated = False\<rparr>))"
    using ne unfolding Diff_def Let_def counts_edits [symmetric]
    by (auto split: option.splits simp del: filter_False)
  show ?thesis
  proof (cases rule: shortest_script [of ?a ?b])
    case (beyond D)
    with ne d show ?thesis by (intro far [of D]) simp_all
  next
    case (within D ts ops)
    with ne d show ?thesis by (intro near [of ops]) simp_all
  qed
qed

lemma distance_least: "distance a b D \<Longrightarrow> transforms ops a b \<Longrightarrow> D \<le> edits ops"
  using transforms_reach by (auto simp: distance_def)

lemma covered_changes: "covered hs p \<Longrightarrow> keeps p \<Longrightarrow> hs = []"
  by (induction rule: covered.induct) auto

lemma no_hunks: "keeps ops \<Longrightarrow> buildHunks ops = []"
  using buildHunks_covered [of ops] covered_changes by fastforce

text \<open>
  C14. The comparison always returns, and what it returns is a shortest script: when it is not cut short,
  there is a script that turns the old lines into the new ones, whose insertions and deletions are the
  numbers reported and whose hunks are the hunks shown, and no script that does so has fewer edits;
  when it is cut short, every script has more than \<open>maxEdits\<close> edits and nothing is shown.
\<close>

theorem diff_shortest:
  "\<exists>r. Diff oldText newText = Some r \<and>
     (if Truncated r
      then Added r = None \<and> Removed r = None \<and> Hunks r = [] \<and>
        {ops. transforms ops (NormalizeLines oldText) (NormalizeLines newText) \<and> int (edits ops) \<le> maxEdits} = {}
      else \<exists>ops. transforms ops (NormalizeLines oldText) (NormalizeLines newText) \<and>
        Added r = Some (int (length (filter (\<lambda>o1. op_mark o1 = Ins) ops))) \<and>
        Removed r = Some (int (length (filter (\<lambda>o1. op_mark o1 = Del) ops))) \<and> Hunks r = buildHunks ops \<and>
        {ops'. transforms ops' (NormalizeLines oldText) (NormalizeLines newText) \<and> edits ops' < edits ops} = {})"
proof (cases rule: Diff_cases [of oldText newText])
  case same
  let ?ops = "map (\<lambda>l. \<lparr>op_mark = Keep, op_text = l\<rparr>) (NormalizeLines oldText)"
  have "buildHunks ?ops = []" by (rule no_hunks) (simp add: keeps_def)
  moreover have "transforms ?ops (NormalizeLines oldText) (NormalizeLines newText)" "edits ?ops = 0"
    "filter (\<lambda>o1. op_mark o1 = Ins) ?ops = []" "filter (\<lambda>o1. op_mark o1 = Del) ?ops = []"
    using same(1) by (simp_all add: transforms_def old_of_def new_of_def filter_map o_def edits_def)
  ultimately show ?thesis using same(2) by (auto intro!: exI [of _ ?ops])
next
  case (far D)
  then show ?thesis using distance_least [OF far(2)] by fastforce
next
  case (near ops)
  then show ?thesis using distance_least [OF near(3)] by (auto intro!: exI [of _ ops] dest: leD)
qed

text \<open>
  Whatever the script, the hunks built from it are contiguous stretches of it in order, with the right
  line numbers and counts, each around at least one change with at most three unchanged lines at either
  end; what lies between and after them is unchanged, so no change is left out or shown twice.
\<close>

theorem hunks_cover_script: "\<exists>p rest. ops = p @ rest \<and> keeps rest \<and> covered (buildHunks ops) p"
  by (rule buildHunks_covered)

text \<open>A comparison says the texts changed exactly when their normalised lines differ.\<close>

theorem changed_iff_lines_differ:
  "\<exists>r. Diff oldText newText = Some r \<and> (Changed r \<longleftrightarrow> NormalizeLines oldText \<noteq> NormalizeLines newText)"
proof (cases rule: Diff_cases [of oldText newText])
  case (near ops)
  then show ?thesis using no_edits_same [of ops] by (auto simp: transforms_def)
qed simp_all

section \<open>What normalisation ignores\<close>

definition to_crlf :: "string \<Rightarrow> string" where
  "to_crlf s = concat (map (\<lambda>c. if c = CHR 0x0A then [CHR 0x0D, CHR 0x0A] else [c]) s)"

lemma replace_crlf_id: "CHR 0x0D \<notin> set s \<Longrightarrow> replace_crlf s = s"
  by (induction s rule: replace_crlf.induct) auto

lemma replace_crlf_Cons: "c \<noteq> CHR 0x0D \<Longrightarrow> replace_crlf (c # s) = c # replace_crlf s"
  by (cases s) auto

lemma replace_crlf_to_crlf: "CHR 0x0D \<notin> set s \<Longrightarrow> replace_crlf (to_crlf s) = s"
  by (induction s) (auto simp: to_crlf_def replace_crlf_Cons)

lemma replace_cr_id: "CHR 0x0D \<notin> set s \<Longrightarrow> replace_cr s = s"
  by (induction s) (auto simp: replace_cr_def)

lemma NormalizeLines_crlf: "CHR 0x0D \<notin> set s \<Longrightarrow> NormalizeLines (to_crlf s) = NormalizeLines s"
  by (simp add: NormalizeLines_def replace_crlf_to_crlf replace_crlf_id)

lemma go_split_first: "c \<notin> set h \<Longrightarrow> go_split c (h @ c # t) = h # go_split c t"
  by (induction h) auto

lemma NormalizeLines_header:
  assumes "volatileHeader h" "CHR 0x0A \<notin> set h" "CHR 0x0D \<notin> set h" "CHR 0x0D \<notin> set body"
  shows "NormalizeLines (h @ CHR 0x0A # body) =
    (let ls = go_split (CHR 0x0A) body in if last ls = [] then butlast ls else ls)"
proof -
  have "CHR 0x0D \<notin> set (h @ CHR 0x0A # body)" using assms by simp
  moreover have "go_split (CHR 0x0A) body \<noteq> []" by (cases body) (auto split: list.splits)
  ultimately show ?thesis unfolding NormalizeLines_def
    by (simp add: replace_crlf_id replace_cr_id go_split_first assms Let_def)
qed

text \<open>
  Two exports of the same configuration compare as unchanged whatever their time stamps say, and
  whichever of the two line endings either uses.
\<close>

theorem export_noise_ignored:
  assumes "volatileHeader h1" "volatileHeader h2"
    and "CHR 0x0A \<notin> set h1 \<union> set h2" "CHR 0x0D \<notin> set h1 \<union> set h2 \<union> set body"
  shows "\<exists>r. Diff (to_crlf (h1 @ CHR 0x0A # body)) (h2 @ CHR 0x0A # body) = Some r \<and> \<not> Changed r \<and> Hunks r = []"
proof -
  have "NormalizeLines (to_crlf (h1 @ CHR 0x0A # body)) = NormalizeLines (h2 @ CHR 0x0A # body)"
    using assms by (simp add: NormalizeLines_crlf NormalizeLines_header)
  then show ?thesis by (simp add: Diff_def)
qed

theorem export_noise_ignored_witness:
  "\<exists>r. Diff (to_crlf (''# 2024-01-02 03:04:05 by RouterOS 7.1'' @ CHR 0x0A # ''/ip''))
     (''# 2025-11-12 13:14:15 by RouterOS 7.2'' @ CHR 0x0A # ''/ip'') = Some r \<and> \<not> Changed r \<and> Hunks r = []"
  by (rule export_noise_ignored) code_simp+

end
