(* ===== verification/Go_Strings.thy ===== *)
theory Go_Strings
  imports Prelude
begin

text \<open>
  The part of Go's \<^verbatim>\<open>strings\<close> package the components below call, on strings as byte lists.
  \<open>TrimSpace\<close> removes the white space of Unicode, whose encodings are listed here: no encoding is a
  prefix or a suffix of another, and a UTF-8 decoder recognises a space at either end of a string
  exactly when its encoding stands there.
\<close>

definition space_encodings :: "string list" where
  "space_encodings =
     [[CHR 0x09], [CHR 0x0A], [CHR 0x0B], [CHR 0x0C], [CHR 0x0D], [CHR 0x20],
      [CHR 0xC2, CHR 0x85], [CHR 0xC2, CHR 0xA0], [CHR 0xE1, CHR 0x9A, CHR 0x80],
      [CHR 0xE2, CHR 0x80, CHR 0x80], [CHR 0xE2, CHR 0x80, CHR 0x81], [CHR 0xE2, CHR 0x80, CHR 0x82],
      [CHR 0xE2, CHR 0x80, CHR 0x83], [CHR 0xE2, CHR 0x80, CHR 0x84], [CHR 0xE2, CHR 0x80, CHR 0x85],
      [CHR 0xE2, CHR 0x80, CHR 0x86], [CHR 0xE2, CHR 0x80, CHR 0x87], [CHR 0xE2, CHR 0x80, CHR 0x88],
      [CHR 0xE2, CHR 0x80, CHR 0x89], [CHR 0xE2, CHR 0x80, CHR 0x8A], [CHR 0xE2, CHR 0x80, CHR 0xA8],
      [CHR 0xE2, CHR 0x80, CHR 0xA9], [CHR 0xE2, CHR 0x80, CHR 0xAF], [CHR 0xE2, CHR 0x81, CHR 0x9F],
      [CHR 0xE3, CHR 0x80, CHR 0x80]]"

fun has_prefix :: "string \<Rightarrow> string \<Rightarrow> bool" where
  "has_prefix s [] = True"
| "has_prefix [] (p # ps) = False"
| "has_prefix (c # s) (p # ps) = (c = p \<and> has_prefix s ps)"

lemma has_prefix_iff: "has_prefix s p \<longleftrightarrow> (\<exists>t. s = p @ t)"
  by (induction s p rule: has_prefix.induct) auto

definition has_suffix :: "string \<Rightarrow> string \<Rightarrow> bool" where
  "has_suffix s p = has_prefix (rev s) (rev p)"

lemma has_suffix_iff: "has_suffix s p \<longleftrightarrow> (\<exists>t. s = t @ p)"
  by (metis has_prefix_iff has_suffix_def rev_append rev_rev_ident)

text \<open>\<open>strings.Cut\<close>: before the first separator, after it, and whether there is one.\<close>

definition Cut :: "char \<Rightarrow> string \<Rightarrow> string \<times> string \<times> bool" where
  "Cut c s = (takeWhile (\<lambda>d. d \<noteq> c) s, tl (dropWhile (\<lambda>d. d \<noteq> c) s), c \<in> set s)"

text \<open>\<open>strings.Contains\<close>.\<close>

definition contains_text :: "string \<Rightarrow> string \<Rightarrow> bool" where
  "contains_text s p \<longleftrightarrow> list_ex (\<lambda>i. has_prefix (drop i s) p) [0..<Suc (length s)]"

text \<open>How many bytes of a string the first encoding that starts it takes; \<open>0\<close> when none does.\<close>

fun lead_len :: "string list \<Rightarrow> string \<Rightarrow> nat" where
  "lead_len [] s = 0"
| "lead_len (e # es) s = (if has_prefix s e then length e else lead_len es s)"

lemma lead_len_le: "lead_len es s \<le> length s"
  by (induction es) (auto simp: has_prefix_iff)

function trim_left :: "string list \<Rightarrow> string \<Rightarrow> string" where
  "trim_left es s = (if lead_len es s = 0 then s else trim_left es (drop (lead_len es s) s))"
  by pat_completeness auto
termination
proof (relation "measure (\<lambda>(es, s). length s)", goal_cases)
  case (2 es s)
  then show ?case using lead_len_le [of es s] by simp
qed simp

declare trim_left.simps [simp del]

definition TrimSpace :: "string \<Rightarrow> string" where
  "TrimSpace s = rev (trim_left (map rev space_encodings) (rev (trim_left space_encodings s)))"

lemma trim_left_done: "lead_len es (trim_left es s) = 0"
  by (induction es s rule: trim_left.induct) (metis trim_left.simps)

lemma trim_left_suffix: "\<exists>p. s = p @ trim_left es s"
proof (induction es s rule: trim_left.induct)
  case (1 es s)
  show ?case
  proof (cases "lead_len es s = 0")
    case True
    then show ?thesis by (subst trim_left.simps) simp
  next
    case False
    with 1 obtain p where "drop (lead_len es s) s = p @ trim_left es s" by (metis trim_left.simps)
    then show ?thesis by (metis append.assoc append_take_drop_id)
  qed
qed

text \<open>A string that starts and ends with a graphic ASCII character is left alone.\<close>

definition graphic :: "char \<Rightarrow> bool" where
  "graphic c \<longleftrightarrow> CHR 0x21 \<le> c \<and> c \<le> CHR 0x7E"

lemma lead_len_other: "\<forall>e\<in>set es. e \<noteq> [] \<and> hd e \<noteq> c \<Longrightarrow> lead_len es (c # s) = 0"
proof (induction es)
  case (Cons e es)
  then show ?case by (cases e) auto
qed simp

lemma no_graphic_space:
  "list_all (\<lambda>e. e \<noteq> [] \<and> \<not> graphic (hd e)) space_encodings"
  "list_all (\<lambda>e. e \<noteq> [] \<and> \<not> graphic (hd e)) (map rev space_encodings)"
  by code_simp+

lemma lead_len_graphic: "graphic c \<Longrightarrow> lead_len space_encodings (c # s) = 0"
  using no_graphic_space(1) by (intro lead_len_other) (auto simp only: list_all_iff)

lemma lead_len_graphic_rev: "graphic c \<Longrightarrow> lead_len (map rev space_encodings) (c # s) = 0"
  using no_graphic_space(2) by (intro lead_len_other) (auto simp only: list_all_iff)

lemma TrimSpace_graphic: "s \<noteq> [] \<Longrightarrow> graphic (hd s) \<Longrightarrow> graphic (last s) \<Longrightarrow> TrimSpace s = s"
proof -
  assume s: "s \<noteq> []" "graphic (hd s)" "graphic (last s)"
  then obtain c t where ct: "s = c # t" by (cases s) auto
  have l: "trim_left space_encodings s = s" using s ct by (subst trim_left.simps) (simp add: lead_len_graphic)
  obtain d u where du: "rev s = d # u" "d = last s" using s by (cases "rev s") (auto simp: last_rev hd_rev [symmetric])
  have "trim_left (map rev space_encodings) (rev s) = rev s"
    using s lead_len_graphic_rev [of d u] by (subst trim_left.simps) (simp del: rev_eq_Cons_iff add: du)
  with l show ?thesis by (simp add: TrimSpace_def)
qed

lemma TrimSpace_Nil [simp]: "TrimSpace [] = []"
  by (simp add: TrimSpace_def trim_left.simps space_encodings_def)

lemma TrimSpace_all: "list_all graphic s \<Longrightarrow> TrimSpace s = s"
  by (cases "s = []") (auto intro!: TrimSpace_graphic simp: list_all_iff)

text \<open>What is trimmed stays trimmed.\<close>

lemma lead_len_0: "[] \<notin> set es \<Longrightarrow> lead_len es s = 0 \<longleftrightarrow> (\<forall>e\<in>set es. \<not> has_prefix s e)"
  by (induction es) auto

lemma lead_len_prefix: "[] \<notin> set es \<Longrightarrow> lead_len es (s @ t) = 0 \<Longrightarrow> lead_len es s = 0"
  by (auto simp: lead_len_0 has_prefix_iff)

lemma trim_left_id: "lead_len es s = 0 \<Longrightarrow> trim_left es s = s"
  by (subst trim_left.simps) simp

lemma TrimSpace_idem [simp]: "TrimSpace (TrimSpace s) = TrimSpace s"
proof -
  define u where "u = trim_left space_encodings s"
  define r where "r = trim_left (map rev space_encodings) (rev u)"
  have ne: "[] \<notin> set space_encodings" "[] \<notin> set (map rev space_encodings)" by (auto simp: space_encodings_def)
  obtain p where p: "rev u = p @ r" using trim_left_suffix [of "rev u" "map rev space_encodings"] unfolding r_def by blast
  then have "u = rev r @ rev p" by (metis rev_append rev_rev_ident)
  moreover have "lead_len space_encodings u = 0" unfolding u_def by (rule trim_left_done)
  ultimately have "lead_len space_encodings (rev r) = 0" using lead_len_prefix [OF ne(1)] by metis
  then have l: "trim_left space_encodings (rev r) = rev r" by (rule trim_left_id)
  have "lead_len (map rev space_encodings) r = 0" unfolding r_def by (rule trim_left_done)
  then have "trim_left (map rev space_encodings) r = r" by (rule trim_left_id)
  with l show ?thesis by (simp add: TrimSpace_def u_def [symmetric] r_def [symmetric])
qed

section \<open>Decimal numbers\<close>

definition digit_char :: "nat \<Rightarrow> char" where
  "digit_char d = char_of (48 + d)"

fun nat_digits :: "nat \<Rightarrow> string" where
  "nat_digits n = (if n < 10 then [digit_char n] else nat_digits (n div 10) @ [digit_char (n mod 10)])"

declare nat_digits.simps [simp del]

text \<open>\<open>strconv.Itoa\<close>, and what \<open>%d\<close> prints.\<close>

definition Itoa :: "int \<Rightarrow> string" where
  "Itoa i = (if i < 0 then CHR ''-'' # nat_digits (nat (- i)) else nat_digits (nat i))"

definition digit_val :: "char \<Rightarrow> nat" where
  "digit_val c = of_char c - 48"

definition digits_val :: "string \<Rightarrow> nat" where
  "digits_val s = foldl (\<lambda>n c. 10 * n + digit_val c) 0 s"

lemma of_char_digit: "d < 10 \<Longrightarrow> of_char (digit_char d) = 48 + d"
  unfolding digit_char_def of_char_of by (subst mod_less) auto

lemma digit_val_char [simp]: "d < 10 \<Longrightarrow> digit_val (digit_char d) = d"
  by (simp add: digit_val_def of_char_digit)

lemma digits_val_digits: "digits_val (nat_digits n) = n"
proof (induction n rule: nat_digits.induct)
  case (1 k)
  have "digits_val (nat_digits k) = (if k < 10 then k else 10 * digits_val (nat_digits (k div 10)) + k mod 10)"
    by (simp add: nat_digits.simps [of k] digits_val_def)
  also have "\<dots> = k" using 1 by simp
  finally show ?case .
qed

lemma nat_digits_inj: "nat_digits m = nat_digits n \<longleftrightarrow> m = n"
  by (metis digits_val_digits)

lemma is_digit_of: "is_digit c \<longleftrightarrow> 48 \<le> (of_char c :: nat) \<and> (of_char c :: nat) \<le> 57"
  unfolding is_digit_def less_eq_char_def by (simp add: of_char_def)

lemma nat_digits_digit: "c \<in> set (nat_digits n) \<Longrightarrow> is_digit c"
proof (induction n rule: nat_digits.induct)
  case (1 k)
  have d: "is_digit (digit_char d)" if "d < 10" for d using that by (simp add: is_digit_of of_char_digit)
  have "c \<in> (if k < 10 then {digit_char k} else insert (digit_char (k mod 10)) (set (nat_digits (k div 10))))"
    using 1(2) by (simp add: nat_digits.simps [of k] split: if_splits)
  then show ?case using 1(1) d [of k] d [of "k mod 10"] by (auto split: if_splits)
qed

lemma nat_digits_nonempty [simp]: "nat_digits n \<noteq> []"
  by (subst nat_digits.simps) simp

text \<open>\<open>strconv.Atoi\<close>: an optional sign and digits, in the range of a 64-bit integer.\<close>

definition int64_ok :: "int \<Rightarrow> bool" where
  "int64_ok i \<longleftrightarrow> - (2 ^ 63) \<le> i \<and> i < 2 ^ 63"

definition Atoi :: "string \<Rightarrow> int option" where
  "Atoi s =
     (let neg = (s \<noteq> [] \<and> hd s = CHR ''-'');
          ds = (if s \<noteq> [] \<and> (hd s = CHR ''-'' \<or> hd s = CHR ''+'') then tl s else s);
          v = (if neg then - int (digits_val ds) else int (digits_val ds))
      in if ds = [] \<or> \<not> list_all is_digit ds \<or> \<not> int64_ok v then None else Some v)"

lemma not_digit_sign [simp]: "\<not> is_digit CHR ''-''" "\<not> is_digit CHR ''+''"
  by (simp_all add: is_digit_of)

text \<open>What is printed is read back.\<close>

lemma Atoi_Itoa:
  assumes "int64_ok i"
  shows "Atoi (Itoa i) = Some i"
proof -
  have d: "list_all is_digit (nat_digits n)" for n by (auto simp: list_all_iff intro: nat_digits_digit)
  then have "hd (nat_digits n) \<noteq> CHR ''-''" "hd (nat_digits n) \<noteq> CHR ''+''" for n
    using not_digit_sign nat_digits_nonempty [of n] hd_in_set [of "nat_digits n"] by (metis list_all_iff)+
  with assms d show ?thesis by (cases "i < 0") (simp_all add: Atoi_def Itoa_def Let_def digits_val_digits)
qed

section \<open>Case\<close>

text \<open>
  \<open>strings.ToLower\<close>: a string of ASCII is lowered byte by byte, and any other goes through the tables of Unicode,
  which are the argument \<open>uni\<close>.
\<close>

type_synonym unicode = "string \<Rightarrow> string"

definition lower_char :: "char \<Rightarrow> char" where
  "lower_char c = (if CHR ''A'' \<le> c \<and> c \<le> CHR ''Z'' then char_of (of_char c + (32::nat)) else c)"

definition is_ascii :: "string \<Rightarrow> bool" where
  "is_ascii s = list_all (\<lambda>c. (of_char c :: nat) < 128) s"

definition ToLower :: "unicode \<Rightarrow> string \<Rightarrow> string" where
  "ToLower uni s = (if is_ascii s then map lower_char s else uni s)"

text \<open>
  \<open>strings.EqualFold\<close> against a string of ASCII: two letters outside ASCII fold to one inside it, the Kelvin sign to
  \<open>k\<close> and the long s to \<open>s\<close>.
\<close>

fun fold_ascii :: "string \<Rightarrow> string" where
  "fold_ascii [] = []"
| "fold_ascii (a # s) =
     (if has_prefix (a # s) [CHR 0xE2, CHR 0x84, CHR 0xAA] then CHR ''k'' # fold_ascii (drop 2 s)
      else if has_prefix (a # s) [CHR 0xC5, CHR 0xBF] then CHR ''s'' # fold_ascii (drop 1 s)
      else lower_char a # fold_ascii s)"

definition EqualFold :: "string \<Rightarrow> string \<Rightarrow> bool" where
  "EqualFold s t \<longleftrightarrow> fold_ascii s = map lower_char t"

text \<open>Hexadecimal digits.\<close>

definition hex_digit :: "nat \<Rightarrow> char" where
  "hex_digit d = char_of (if d < 10 then 48 + d else 87 + d)"

end
