(* ===== verification/Grant_Store.thy ===== *)
theory Grant_Store
  imports Go_Strings "HOL-Library.Word"
begin

text \<open>
  The grant graph and the queries over it: \<^verbatim>\<open>internal/db\<close> as far as authorisation reads and writes
  it (\<^verbatim>\<open>db.go\<close>, \<^verbatim>\<open>grantwrite.go\<close>, \<^verbatim>\<open>groupwrite.go\<close>, \<^verbatim>\<open>globaladmin.go\<close>, \<^verbatim>\<open>rolewrite.go\<close>,
  \<^verbatim>\<open>sites.go\<close>).

  A table is a list of rows, in the order SQLite returns them; the theorems hold for every order. The
  SQL engine is not part of the program: what it may do is fail, and \<open>fault\<close> says which statements
  fail and with what message. The constraints of \<^verbatim>\<open>schema_ddl.go\<close> are checked on a write.
\<close>

section \<open>The tables\<close>

record GrantRow =
  gr_id :: string
  gr_principal_type :: string
  gr_principal_id :: string
  gr_role_id :: string
  gr_role :: string
  gr_scope_type :: string
  gr_scope_id :: string
  gr_created_at :: millis
  gr_created_by :: "string option"

record RoleRow =
  rr_ID :: string
  rr_Name :: string
  rr_Description :: "string option"
  rr_builtin :: int
  rr_CreatedAt :: millis

record Site =
  st_ID :: string
  st_Name :: string
  st_Description :: "string option"
  st_Lat :: "64 word option"
  st_Lon :: "64 word option"
  st_PlaceName :: "string option"
  st_PlaceRegion :: "string option"
  st_PlaceCC :: "string option"
  st_CreatedAt :: millis

datatype query =
    QGrantsForUser string
  | QRole string
  | QRolePages string
  | QGetRole string
  | QGetSite string
  | QBegin
  | QGlobalAdmins
  | QUpsertGrant
  | QDeleteGrants
  | QDeleteGroup
  | QSetMembers

record DB =
  sql_open :: bool
  t_grants :: "GrantRow list"
  t_group_members :: "(string \<times> string) list"
  t_groups :: "string list"
  t_roles :: "RoleRow list"
  t_role_pages :: "(string \<times> string \<times> string) list"
  t_sites :: "Site list"
  fault :: "query \<Rightarrow> string option"

text \<open>What stops a statement: the database is not open, or the engine fails.\<close>

definition query_fault :: "DB \<Rightarrow> query \<Rightarrow> string option" where
  "query_fault d q = (if sql_open d then fault d q else Some ''db not open'')"

section \<open>Reads\<close>

record Grant =
  RoleID :: string
  ScopeType :: string
  ScopeID :: string

record RolePage =
  Page :: string
  Access :: string

record Role =
  role_ID :: string
  Builtin :: bool
  Pages :: "RolePage list"

definition groups_of :: "DB \<Rightarrow> string \<Rightarrow> string list" where
  "groups_of d userID = map fst (filter (\<lambda>m. snd m = userID) (t_group_members d))"

definition GrantsForUser :: "DB \<Rightarrow> string \<Rightarrow> Grant list result" where
  "GrantsForUser d userID =
     (case query_fault d (QGrantsForUser userID) of
        Some e \<Rightarrow> Inl e
      | None \<Rightarrow> Inr (map (\<lambda>g. \<lparr>RoleID = gr_role_id g, ScopeType = gr_scope_type g, ScopeID = gr_scope_id g\<rparr>)
          (filter (\<lambda>g. gr_principal_type g = ''user'' \<and> gr_principal_id g = userID \<or>
                       gr_principal_type g = ''group'' \<and> gr_principal_id g \<in> set (groups_of d userID))
             (t_grants d))))"

definition find_role :: "DB \<Rightarrow> string \<Rightarrow> RoleRow option" where
  "find_role d i = List.find (\<lambda>r. rr_ID r = i) (t_roles d)"

definition RoleByID :: "DB \<Rightarrow> string \<Rightarrow> Role option result" where
  "RoleByID d i =
     (case query_fault d (QRole i) of
        Some e \<Rightarrow> Inl e
      | None \<Rightarrow>
          (case find_role d i of
             None \<Rightarrow> Inr None
           | Some row \<Rightarrow>
               if rr_builtin row \<noteq> 0 then Inr (Some \<lparr>role_ID = i, Builtin = True, Pages = []\<rparr>)
               else (case query_fault d (QRolePages i) of
                       Some e \<Rightarrow> Inl e
                     | None \<Rightarrow> Inr (Some \<lparr>role_ID = i, Builtin = False,
                         Pages = map (\<lambda>(_, p, a). \<lparr>Page = p, Access = a\<rparr>)
                           (filter (\<lambda>(r, _, _). r = i) (t_role_pages d))\<rparr>))))"

definition GetRole :: "DB \<Rightarrow> string \<Rightarrow> RoleRow option result" where
  "GetRole d i = (case query_fault d (QGetRole i) of Some e \<Rightarrow> Inl e | None \<Rightarrow> Inr (find_role d i))"

definition GetSite :: "DB \<Rightarrow> string \<Rightarrow> Site option result" where
  "GetSite d i =
     (case query_fault d (QGetSite i) of Some e \<Rightarrow> Inl e | None \<Rightarrow> Inr (List.find (\<lambda>s. st_ID s = i) (t_sites d)))"

section \<open>Writes\<close>

record GrantSpec =
  sp_PrincipalType :: string
  sp_PrincipalID :: string
  sp_RoleID :: string
  sp_Role :: string
  sp_ScopeType :: string
  sp_ScopeID :: string
  sp_CreatedBy :: string

definition legacyRoleIDs :: "(string, string) gomap" where
  "legacyRoleIDs = [(''admin'', ''administrator''), (''operator'', ''operator''), (''viewer'', ''readonly'')]"

definition legacyByRoleID :: "(string, string) gomap" where
  "legacyByRoleID = [(''administrator'', ''admin''), (''operator'', ''operator''), (''readonly'', ''viewer'')]"

definition LegacyMirror :: "string \<Rightarrow> string" where
  "LegacyMirror roleID = (case golookup legacyByRoleID roleID of Some v \<Rightarrow> v | None \<Rightarrow> ''viewer'')"

definition resolveRoleID :: "GrantSpec \<Rightarrow> string" where
  "resolveRoleID s =
     (if sp_RoleID s \<noteq> [] then sp_RoleID s
      else case golookup legacyRoleIDs (sp_Role s) of Some v \<Rightarrow> v | None \<Rightarrow> ''readonly'')"

definition scopeIDFor :: "GrantSpec \<Rightarrow> string" where
  "scopeIDFor s = (if sp_ScopeType s = ''global'' then [] else sp_ScopeID s)"

text \<open>The constraints of the \<open>grants\<close> table, its foreign key included.\<close>

definition grant_checks :: "DB \<Rightarrow> GrantRow \<Rightarrow> bool" where
  "grant_checks d g \<longleftrightarrow>
     gr_principal_type g \<in> {''user'', ''group''} \<and> gr_scope_type g \<in> {''global'', ''site'', ''router''} \<and>
     (gr_scope_type g = ''global'' \<longleftrightarrow> gr_scope_id g = []) \<and> find_role d (gr_role_id g) \<noteq> None"

definition same_key :: "GrantRow \<Rightarrow> GrantRow \<Rightarrow> bool" where
  "same_key g h \<longleftrightarrow> gr_principal_type g = gr_principal_type h \<and> gr_principal_id g = gr_principal_id h \<and>
     gr_scope_type g = gr_scope_type h \<and> gr_scope_id g = gr_scope_id h"

text \<open>The row an insertion leaves where a row with its key already stands.\<close>

definition on_conflict :: "GrantRow \<Rightarrow> GrantRow \<Rightarrow> GrantRow" where
  "on_conflict old new = old\<lparr>gr_role_id := gr_role_id new, gr_role := gr_role new,
     gr_created_at := gr_created_at new, gr_created_by := gr_created_by new\<rparr>"

definition insert_grant :: "GrantRow \<Rightarrow> GrantRow list \<Rightarrow> GrantRow list" where
  "insert_grant new gs =
     (if \<exists>g\<in>set gs. same_key g new then map (\<lambda>g. if same_key g new then on_conflict g new else g) gs
      else gs @ [new])"

text \<open>\<open>newID\<close> is the identifier drawn at random and \<open>now\<close> the clock.\<close>

definition upsertGrant :: "string \<Rightarrow> millis \<Rightarrow> GrantSpec \<Rightarrow> DB \<Rightarrow> DB result" where
  "upsertGrant newID now s d =
     (if TrimSpace (sp_PrincipalID s) = [] \<or> TrimSpace (sp_PrincipalType s) = []
      then Inl ''db: a grant needs a principal''
      else case query_fault d QUpsertGrant of
        Some e \<Rightarrow> Inl e
      | None \<Rightarrow>
          let roleID = resolveRoleID s;
              row = \<lparr>gr_id = newID, gr_principal_type = sp_PrincipalType s, gr_principal_id = sp_PrincipalID s,
                     gr_role_id = roleID, gr_role = LegacyMirror roleID, gr_scope_type = sp_ScopeType s,
                     gr_scope_id = scopeIDFor s, gr_created_at = now,
                     gr_created_by = (if sp_CreatedBy s \<noteq> [] then Some (sp_CreatedBy s) else None)\<rparr>
          in if grant_checks d row then Inr (d\<lparr>t_grants := insert_grant row (t_grants d)\<rparr>)
             else Inl ''constraint failed'')"

definition DeleteGrant :: "string \<Rightarrow> DB \<Rightarrow> DB result" where
  "DeleteGrant i d =
     (case query_fault d QDeleteGrants of
        Some e \<Rightarrow> Inl e
      | None \<Rightarrow> Inr (d\<lparr>t_grants := filter (\<lambda>g. gr_id g \<noteq> i) (t_grants d)\<rparr>))"

definition DeleteGrantsForPrincipal :: "string \<Rightarrow> string \<Rightarrow> DB \<Rightarrow> DB result" where
  "DeleteGrantsForPrincipal ptype pid d =
     (case query_fault d QDeleteGrants of
        Some e \<Rightarrow> Inl e
      | None \<Rightarrow> Inr (d\<lparr>t_grants := filter (\<lambda>g. \<not> (gr_principal_type g = ptype \<and> gr_principal_id g = pid)) (t_grants d)\<rparr>))"

definition DeleteGrantsForScope :: "string \<Rightarrow> string \<Rightarrow> DB \<Rightarrow> DB result" where
  "DeleteGrantsForScope stype sid d =
     (case query_fault d QDeleteGrants of
        Some e \<Rightarrow> Inl e
      | None \<Rightarrow> Inr (d\<lparr>t_grants := filter (\<lambda>g. \<not> (gr_scope_type g = stype \<and> gr_scope_id g = sid)) (t_grants d)\<rparr>))"

text \<open>Deleting a group takes its grants explicitly and its memberships by the foreign key's cascade.\<close>

definition deleteGroupTx :: "string \<Rightarrow> DB \<Rightarrow> DB result" where
  "deleteGroupTx i d =
     (case query_fault d QDeleteGrants of
        Some e \<Rightarrow> Inl e
      | None \<Rightarrow>
          (case query_fault d QDeleteGroup of
             Some e \<Rightarrow> Inl e
           | None \<Rightarrow> Inr (d\<lparr>t_grants := filter (\<lambda>g. \<not> (gr_principal_type g = ''group'' \<and> gr_principal_id g = i)) (t_grants d),
               t_groups := filter (\<lambda>g. g \<noteq> i) (t_groups d),
               t_group_members := filter (\<lambda>m. fst m \<noteq> i) (t_group_members d)\<rparr>)))"

fun dedupe_loop :: "string list \<Rightarrow> string list \<Rightarrow> string list \<Rightarrow> string list" where
  "dedupe_loop seen out [] = out"
| "dedupe_loop seen out (s # ss) =
     (if s \<in> set seen then dedupe_loop seen out ss else dedupe_loop (s # seen) (out @ [s]) ss)"

definition dedupe :: "string list \<Rightarrow> string list" where
  "dedupe ins = dedupe_loop [] [] ins"

fun insert_members :: "string \<Rightarrow> string list \<Rightarrow> DB \<Rightarrow> DB result" where
  "insert_members gid [] d = Inr d"
| "insert_members gid (u # us) d =
     (case query_fault d QSetMembers of
        Some e \<Rightarrow> Inl e
      | None \<Rightarrow>
          if gid \<notin> set (t_groups d) \<or> (gid, u) \<in> set (t_group_members d) then Inl ''constraint failed''
          else insert_members gid us (d\<lparr>t_group_members := t_group_members d @ [(gid, u)]\<rparr>))"

definition setGroupMembersTx :: "string \<Rightarrow> string list \<Rightarrow> DB \<Rightarrow> DB result" where
  "setGroupMembersTx gid ids d =
     (case query_fault d QSetMembers of
        Some e \<Rightarrow> Inl e
      | None \<Rightarrow> insert_members gid ids (d\<lparr>t_group_members := filter (\<lambda>m. fst m \<noteq> gid) (t_group_members d)\<rparr>))"

definition SetGroupMembers :: "string \<Rightarrow> string list \<Rightarrow> DB \<Rightarrow> (string list \<times> DB) result" where
  "SetGroupMembers gid userIDs d =
     (case query_fault d QBegin of
        Some e \<Rightarrow> Inl e
      | None \<Rightarrow> (case setGroupMembersTx gid (dedupe userIDs) d of
          Inl e \<Rightarrow> Inl e
        | Inr d1 \<Rightarrow> Inr (dedupe userIDs, d1)))"

section \<open>The last administrator\<close>

definition builtin_ids :: "DB \<Rightarrow> string list" where
  "builtin_ids d = map rr_ID (filter (\<lambda>r. rr_builtin r = 1) (t_roles d))"

text \<open>The two halves of the union: grants held directly, and through a group.\<close>

definition globalAdminQuery :: "DB \<Rightarrow> string list" where
  "globalAdminQuery d = remdups
     (map gr_principal_id (filter (\<lambda>g. gr_principal_type g = ''user'' \<and> gr_scope_type g = ''global'' \<and>
          gr_role_id g \<in> set (builtin_ids d)) (t_grants d)) @
      concat (map (\<lambda>g. map snd (filter (\<lambda>m. fst m = gr_principal_id g) (t_group_members d)))
        (filter (\<lambda>g. gr_principal_type g = ''group'' \<and> gr_scope_type g = ''global'' \<and>
          gr_role_id g \<in> set (builtin_ids d)) (t_grants d))))"

definition GlobalAdminUserIDs :: "DB \<Rightarrow> string list result" where
  "GlobalAdminUserIDs d = (case query_fault d QGlobalAdmins of Some e \<Rightarrow> Inl e | None \<Rightarrow> Inr (globalAdminQuery d))"

text \<open>The probe: the change runs on a copy that is thrown away.\<close>

definition WouldOrphanGlobalAdmin :: "(DB \<Rightarrow> DB result) \<Rightarrow> DB \<Rightarrow> bool result" where
  "WouldOrphanGlobalAdmin mutate d =
     (case query_fault d QBegin of
        Some e \<Rightarrow> Inl e
      | None \<Rightarrow> (case mutate d of
          Inl e \<Rightarrow> Inl e
        | Inr d1 \<Rightarrow> (case GlobalAdminUserIDs d1 of Inl e \<Rightarrow> Inl e | Inr admins \<Rightarrow> Inr (admins = []))))"

section \<open>Who a grant reaches\<close>

definition reaches :: "DB \<Rightarrow> string \<Rightarrow> GrantRow \<Rightarrow> bool" where
  "reaches d u g \<longleftrightarrow> g \<in> set (t_grants d) \<and>
     (gr_principal_type g = ''user'' \<and> gr_principal_id g = u \<or>
      gr_principal_type g = ''group'' \<and> (gr_principal_id g, u) \<in> set (t_group_members d))"

definition view :: "GrantRow \<Rightarrow> Grant" where
  "view g = \<lparr>RoleID = gr_role_id g, ScopeType = gr_scope_type g, ScopeID = gr_scope_id g\<rparr>"

lemma groups_of_iff: "gid \<in> set (groups_of d u) \<longleftrightarrow> (gid, u) \<in> set (t_group_members d)"
  by (force simp: groups_of_def)

lemma GrantsForUser_Inr: "GrantsForUser d u = Inr gs \<Longrightarrow> set gs = view ` {g. reaches d u g}"
  by (auto simp: GrantsForUser_def reaches_def view_def groups_of_iff split: option.splits)

lemma GrantsForUser_Inl: "GrantsForUser d u = Inl e \<Longrightarrow> \<exists>q. query_fault d q = Some e"
  by (auto simp: GrantsForUser_def split: option.splits)

lemma RoleByID_Inl: "RoleByID d i = Inl e \<Longrightarrow> \<exists>q. query_fault d q = Some e"
  by (auto simp: RoleByID_def split: option.splits if_splits)

lemma RoleByID_cases:
  assumes "RoleByID d i = Inr r"
  obtains (missing) "find_role d i = None" "r = None"
    | (builtin) row where "find_role d i = Some row" "rr_builtin row \<noteq> 0" "r = Some \<lparr>role_ID = i, Builtin = True, Pages = []\<rparr>"
    | (custom) row where "find_role d i = Some row" "rr_builtin row = 0"
        "r = Some \<lparr>role_ID = i, Builtin = False, Pages = map (\<lambda>(_, p, a). \<lparr>Page = p, Access = a\<rparr>)
           (filter (\<lambda>(x, _, _). x = i) (t_role_pages d))\<rparr>"
  using assms by (auto simp: RoleByID_def split: option.splits if_splits)

lemma find_role_Some: "find_role d i = Some row \<Longrightarrow> row \<in> set (t_roles d) \<and> rr_ID row = i"
  unfolding find_role_def by (auto simp: find_Some_iff)

text \<open>What the schema keeps of the role table: one row to an identifier, and a flag that is 0 or 1.\<close>

definition roles_ok :: "DB \<Rightarrow> bool" where
  "roles_ok d \<longleftrightarrow> distinct (map rr_ID (t_roles d)) \<and> (\<forall>r\<in>set (t_roles d). rr_builtin r \<in> {0, 1})"

lemma find_role_mem: "roles_ok d \<Longrightarrow> row \<in> set (t_roles d) \<Longrightarrow> find_role d (rr_ID row) = Some row"
proof -
  assume ok: "roles_ok d" and row: "row \<in> set (t_roles d)"
  then obtain r where r: "find_role d (rr_ID row) = Some r"
    by (cases "find_role d (rr_ID row)") (auto simp: find_role_def find_None_iff)
  from find_role_Some [OF r] ok row have "r = row" unfolding roles_ok_def by (metis distinct_map inj_on_eq_iff)
  with r show ?thesis by simp
qed

lemma builtin_ids_iff:
  "roles_ok d \<Longrightarrow> i \<in> set (builtin_ids d) \<longleftrightarrow> (\<exists>row. find_role d i = Some row \<and> rr_builtin row \<noteq> 0)"
proof -
  assume ok: "roles_ok d"
  have flag: "rr_builtin r = 1 \<longleftrightarrow> rr_builtin r \<noteq> 0" if "r \<in> set (t_roles d)" for r
    using ok that unfolding roles_ok_def by force
  have "i \<in> set (builtin_ids d) \<longleftrightarrow> (\<exists>r\<in>set (t_roles d). rr_builtin r = 1 \<and> rr_ID r = i)"
    by (auto simp: builtin_ids_def)
  also have "\<dots> \<longleftrightarrow> (\<exists>row. find_role d i = Some row \<and> rr_builtin row \<noteq> 0)"
    using flag find_role_mem [OF ok] find_role_Some by metis
  finally show ?thesis .
qed

lemma globalAdminQuery_iff:
  "u \<in> set (globalAdminQuery d) \<longleftrightarrow>
   (\<exists>g. reaches d u g \<and> gr_scope_type g = ''global'' \<and> gr_role_id g \<in> set (builtin_ids d))"
proof -
  have direct: "u \<in> set (map gr_principal_id (filter P gs)) \<longleftrightarrow> (\<exists>g\<in>set gs. P g \<and> gr_principal_id g = u)"
    for P :: "GrantRow \<Rightarrow> bool" and gs
    by auto
  have through: "u \<in> set (concat (map (\<lambda>g. map snd (filter (\<lambda>m. fst m = gr_principal_id g) ms)) (filter P gs))) \<longleftrightarrow>
      (\<exists>g\<in>set gs. P g \<and> (gr_principal_id g, u) \<in> set ms)" for P :: "GrantRow \<Rightarrow> bool" and gs ms
    by force
  show ?thesis unfolding globalAdminQuery_def set_remdups set_append Un_iff direct through reaches_def by blast
qed

end
