(* ===== verification/Page_List.thy ===== *)
theory Page_List
  imports Prelude
begin

text \<open>
  The list of the application's pages: \<^verbatim>\<open>internal/pages/pages.go\<close>. A page key is the page's URL, the
  name of its room and a permission key, so the renames of keys are kept as a table.
\<close>

record Page =
  Key :: string
  Title :: string
  CollectorKey :: string
  Path :: string

definition mk_page :: "string \<Rightarrow> string \<Rightarrow> string \<Rightarrow> string \<Rightarrow> Page" where
  "mk_page k t c p = \<lparr>Key = k, Title = t, CollectorKey = c, Path = p\<rparr>"

definition All :: "Page list" where
  "All = [
     mk_page ''dashboard'' ''Dashboard'' [] ''home'',
     mk_page ''dns'' ''DNS'' ''dns'' [],
     mk_page ''bridges'' ''Bridges'' ''bridges'' [],
     mk_page ''vlans'' ''VLANs'' ''vlans'' [],
     mk_page ''wan'' ''WAN'' ''wan'' [],
     mk_page ''packages'' ''Packages'' ''packages'' [],
     mk_page ''routing'' ''Routing'' ''routing'' [],
     mk_page ''netwatch'' ''NetWatch'' ''netwatch'' [],
     mk_page ''dhcp'' ''DHCP'' ''dhcpNetworks'' [],
     mk_page ''ppp'' ''PPP'' ''ppp'' [],
     mk_page ''vpn'' ''VPN'' ''vpn'' [],
     mk_page ''users'' ''Users'' ''rosusers'' [],
     mk_page ''queues'' ''Queues'' ''queues'' [],
     mk_page ''security-scan'' ''Security Scan'' [] [],
     mk_page ''firewall'' ''Firewall'' ''firewall'' [],
     mk_page ''wifi-networks'' ''Wifi Networks'' ''wifi'' [],
     mk_page ''capsman'' ''CAPsMAN'' ''capsman'' [],
     mk_page ''interfaces'' ''Interfaces'' ''ifStatus'' [],
     mk_page ''ip-addresses'' ''IP Addresses'' ''areas'' [],
     mk_page ''ip-pools'' ''IP Pools'' ''areas'' [],
     mk_page ''arp'' ''ARP'' ''areas'' [],
     mk_page ''address-lists'' ''Address Lists'' ''areas'' [],
     mk_page ''interface-lists'' ''Interface Lists'' ''areas'' [],
     mk_page ''ip-services'' ''Services'' ''areas'' [],
     mk_page ''certificates'' ''Certificates'' ''areas'' [],
     mk_page ''scripts'' ''Scripts'' ''areas'' [],
     mk_page ''scheduler'' ''Scheduler'' ''areas'' [],
     mk_page ''ntp-client'' ''NTP Client'' ''areas'' [],
     mk_page ''clock'' ''Clock'' ''areas'' [],
     mk_page ''logging'' ''Logging'' ''areas'' [],
     mk_page ''snmp'' ''SNMP'' ''areas'' [],
     mk_page ''files'' ''Files'' ''areas'' [],
     mk_page ''routing-tables'' ''Routing Tables'' ''areas'' [],
     mk_page ''routing-rules'' ''Routing Rules'' ''areas'' [],
     mk_page ''ospf'' ''OSPF'' ''areas'' [],
     mk_page ''ipsec'' ''IPsec'' ''areas'' [],
     mk_page ''openvpn'' ''OpenVPN'' ''areas'' [],
     mk_page ''wireguard'' ''WireGuard'' ''areas'' [],
     mk_page ''vrrp'' ''VRRP'' ''areas'' [],
     mk_page ''pppoe-clients'' ''PPPoE Clients'' ''areas'' [],
     mk_page ''dhcp-clients'' ''DHCP Clients'' ''areas'' [],
     mk_page ''dhcp-servers'' ''DHCP Servers'' ''areas'' [],
     mk_page ''containers'' ''Containers'' ''areas'' [],
     mk_page ''tools-ping'' ''Ping'' [] [],
     mk_page ''tools-traceroute'' ''Traceroute'' [] [],
     mk_page ''tools-torch'' ''Torch'' [] [],
     mk_page ''tools-btest'' ''Bandwidth Test'' [] [],
     mk_page ''tools-sniffer'' ''Packet Sniffer'' [] [],
     mk_page ''terminal'' ''Terminal'' [] [],
     mk_page ''logs'' ''Logs'' ''logs'' [],
     mk_page ''network-topology'' ''Network Topology'' ''topology'' [],
     mk_page ''wifi-clients'' ''Wifi Clients'' ''wireless'' [],
     mk_page ''wifi-map'' ''Wifi Map'' [] [],
     mk_page ''bandwidth'' ''Bandwidth'' ''bandwidth'' [],
     mk_page ''connections'' ''Connections'' ''conns'' [],
     mk_page ''ai-agent'' ''AI Agent'' [] [],
     mk_page ''reports'' ''Reports'' [] [],
     mk_page ''audit-trail'' ''Audit Trail'' [] [],
     mk_page ''backups'' ''Backups'' [] [],
     mk_page ''devices'' ''Devices'' [] [],
     mk_page ''config-management'' ''Config Management'' [] [],
     mk_page ''settings'' ''Settings'' [] []]"

definition Renamed :: "(string, string) gomap" where
  "Renamed = [
     (''routers'', ''devices''),
     (''topology'', ''network-topology''),
     (''wireless'', ''wifi-clients''),
     (''wifi'', ''wifi-networks''),
     (''audit'', ''audit-trail''),
     (''rosusers'', ''users''),
     (''router-users'', ''users''),
     (''tools'', ''tools-ping'')]"

definition Page_URL :: "Page \<Rightarrow> string" where
  "Page_URL p = (if Path p \<noteq> [] then Path p else Key p)"

definition ForURL :: "string \<Rightarrow> string" where
  "ForURL seg = (case List.find (\<lambda>p. Page_URL p = seg) All of Some p \<Rightarrow> Key p | None \<Rightarrow> [])"

definition Keys :: "string list" where
  "Keys = map Key All"

definition Has :: "string \<Rightarrow> bool" where
  "Has key \<longleftrightarrow> (\<exists>p\<in>set All. Key p = key)"

lemma Keys_distinct: "distinct Keys" "[] \<notin> set Keys"
  by code_simp+

lemma URLs_distinct: "distinct (map Page_URL All)" "[] \<notin> set (map Page_URL All)"
  by code_simp+

lemma find_unique: "distinct (map f xs) \<Longrightarrow> x \<in> set xs \<Longrightarrow> List.find (\<lambda>y. f y = f x) xs = Some x"
  by (induction xs) force+

lemma ForURL_page: "p \<in> set All \<Longrightarrow> ForURL (Page_URL p) = Key p"
  using find_unique [OF URLs_distinct(1)] by (simp add: ForURL_def)

end
