(* ===== verification/Rbac.thy ===== *)
theory Rbac
  imports Grant_Store Page_List "HOL-Library.Multiset"
begin

text \<open>
  Authorisation: \<^verbatim>\<open>internal/rbac\<close>. The resolver answers whether a user may use a page of a router
  (\<^verbatim>\<open>rbac.go\<close>), holds a permission (\<^verbatim>\<open>permissions.go\<close>), what the first paint may show
  (\<^verbatim>\<open>capabilities.go\<close>) and what the account dialog lists (\<^verbatim>\<open>summary.go\<close>). A nil database is
  \<^const>\<open>None\<close>. A Go map that is iterated is a list, and the order a runtime may choose is the
  argument \<open>iter\<close>.
\<close>

section \<open>Pages\<close>

definition accessRank :: "string \<Rightarrow> int" where
  "accessRank a = (if a = ''read'' then 1 else if a = ''write'' then 2 else 0)"

record Router =
  ID :: string
  Label :: string
  Host :: string
  SiteIDs :: "string list"

record Resolver =
  rv_db :: "DB option"
  rv_routers :: "Router list"
  rv_pages :: "string list"

definition New_Resolver :: "DB option \<Rightarrow> Router list \<Rightarrow> Resolver" where
  "New_Resolver d rs = \<lparr>rv_db = d, rv_routers = rs, rv_pages = Keys\<rparr>"

definition Available :: "Resolver \<Rightarrow> bool" where
  "Available r \<longleftrightarrow> rv_db r \<noteq> None"

text \<open>Every role the grants confer on one router.\<close>

definition scope_matches :: "Router \<Rightarrow> Grant \<Rightarrow> bool" where
  "scope_matches rt g =
     (if ScopeType g = ''global'' then True
      else if ScopeType g = ''site'' then list_ex (\<lambda>sid. sid \<noteq> [] \<and> ScopeID g = sid) (SiteIDs rt)
      else if ScopeType g = ''router'' then ScopeID g = ID rt
      else False)"

definition scopedRoles :: "Grant list \<Rightarrow> Router \<Rightarrow> string list" where
  "scopedRoles grants rt = map RoleID (filter (scope_matches rt) grants)"

definition roleSetsInScope :: "DB \<Rightarrow> Router list \<Rightarrow> string \<Rightarrow> string \<Rightarrow> string list option result" where
  "roleSetsInScope d routers userID routerID =
     (case List.find (\<lambda>rt. ID rt = routerID) routers of
        None \<Rightarrow> Inr None
      | Some rt \<Rightarrow> (case GrantsForUser d userID of
          Inl e \<Rightarrow> Inl e
        | Inr grants \<Rightarrow> Inr (Some (scopedRoles grants rt))))"

type_synonym role_cache = "(string, Role option) gomap"

definition cached_role :: "DB \<Rightarrow> role_cache \<Rightarrow> string \<Rightarrow> (Role option \<times> role_cache) result" where
  "cached_role d cache roleID =
     (case golookup cache roleID of
        Some role \<Rightarrow> Inr (role, cache)
      | None \<Rightarrow> (case RoleByID d roleID of
          Inl e \<Rightarrow> Inl e
        | Inr role \<Rightarrow> Inr (role, goput roleID role cache)))"

text \<open>The one decision both the single and the batch form make.\<close>

fun setsConfer :: "DB \<Rightarrow> string list \<Rightarrow> string \<Rightarrow> int \<Rightarrow> role_cache \<Rightarrow> (bool \<times> role_cache) result" where
  "setsConfer d [] page need cache = Inr (False, cache)"
| "setsConfer d (roleID # sets) page need cache =
     (case cached_role d cache roleID of
        Inl e \<Rightarrow> Inl e
      | Inr (None, cache1) \<Rightarrow> setsConfer d sets page need cache1
      | Inr (Some role, cache1) \<Rightarrow>
          if Builtin role then Inr (True, cache1)
          else if list_ex (\<lambda>p. Page p = page \<and> need \<le> accessRank (Access p)) (Pages role) then Inr (True, cache1)
          else setsConfer d sets page need cache1)"

definition CanPage :: "Resolver \<Rightarrow> string \<Rightarrow> string \<Rightarrow> string \<Rightarrow> string \<Rightarrow> bool result" where
  "CanPage r userID page access routerID =
     (case rv_db r of
        None \<Rightarrow> Inr False
      | Some d \<Rightarrow>
          if userID = [] \<or> routerID = [] then Inr False
          else if page \<notin> set (rv_pages r) then Inr False
          else if accessRank access = 0 then Inr False
          else case roleSetsInScope d (rv_routers r) userID routerID of
                 Inl e \<Rightarrow> Inl e
               | Inr None \<Rightarrow> Inr False
               | Inr (Some sets) \<Rightarrow> map_sum id fst (setsConfer d sets page (accessRank access) []))"

fun page_routers :: "DB \<Rightarrow> Grant list \<Rightarrow> string \<Rightarrow> int \<Rightarrow> role_cache \<Rightarrow> Router list \<Rightarrow> string list result" where
  "page_routers d grants page need cache [] = Inr []"
| "page_routers d grants page need cache (rt # rts) =
     (case setsConfer d (scopedRoles grants rt) page need cache of
        Inl e \<Rightarrow> Inl e
      | Inr (ok, cache1) \<Rightarrow> (case page_routers d grants page need cache1 rts of
          Inl e \<Rightarrow> Inl e
        | Inr out \<Rightarrow> Inr (if ok then ID rt # out else out)))"

definition PageRouterIDs :: "Resolver \<Rightarrow> string \<Rightarrow> string \<Rightarrow> string \<Rightarrow> string set result" where
  "PageRouterIDs r userID page access =
     (case rv_db r of
        None \<Rightarrow> Inr {}
      | Some d \<Rightarrow>
          if userID = [] \<or> page \<notin> set (rv_pages r) then Inr {}
          else if accessRank access = 0 then Inr {}
          else case GrantsForUser d userID of
                 Inl e \<Rightarrow> Inl e
               | Inr grants \<Rightarrow> map_sum id set (page_routers d grants page (accessRank access) [] (rv_routers r)))"

section \<open>Permissions\<close>

definition GlobalOnly :: "string list" where
  "GlobalOnly = [''system:principals'', ''system:settings'', ''system:db'', ''router:create'']"

definition Scoped :: "string list" where
  "Scoped = [''router:read'', ''router:ack'', ''router:history'', ''router:diagnose'', ''router:scan'',
     ''router:schedule'', ''router:write'', ''router:manage'', ''router:purge'', ''router:secrets'']"

definition readConfers :: "(string, string list) gomap" where
  "readConfers = [(''reports'', [''router:history''])]"

definition writeConfers :: "(string, string list) gomap" where
  "writeConfers =
     [(''dashboard'', [''router:ack'']), (''firewall'', [''router:diagnose'']), (''wifi-clients'', [''router:scan'']),
      (''reports'', [''router:schedule'']), (''devices'', [''router:manage'']),
      (''settings'', [''system:settings'', ''router:purge''])]"

definition writeConfersAlways :: "string list" where
  "writeConfersAlways = [''router:write'']"

definition known :: "string \<Rightarrow> bool" where
  "known permission \<longleftrightarrow> permission \<in> set GlobalOnly \<or> permission \<in> set Scoped"

definition confers :: "(string, string list) gomap \<Rightarrow> string \<Rightarrow> string list" where
  "confers m page = (case golookup m page of Some ps \<Rightarrow> ps | None \<Rightarrow> [])"

definition project_page :: "RolePage \<Rightarrow> string list" where
  "project_page p = ''router:read'' # confers readConfers (Page p) @
     (if Access p = ''write'' then writeConfersAlways @ confers writeConfers (Page p) else [])"

text \<open>The firewall: applied to whatever the projection produced.\<close>

definition strip_global :: "string list \<Rightarrow> string list" where
  "strip_global perms = filter (\<lambda>p. \<not> (p \<in> set GlobalOnly \<and> p \<noteq> ''system:settings'')) perms"

definition roleConfers :: "DB \<Rightarrow> string \<Rightarrow> string \<Rightarrow> bool result" where
  "roleConfers d roleID permission =
     (case RoleByID d roleID of
        Inl e \<Rightarrow> Inl e
      | Inr None \<Rightarrow> Inr False
      | Inr (Some role) \<Rightarrow>
          if Builtin role then Inr (known permission)
          else Inr (permission \<in> set (strip_global (concat (map project_page (Pages role))))))"

text \<open>The loop \<open>for ... { ok, err := f(x); if err ...; if ok return true }; return false\<close>.\<close>

fun first_true :: "('q \<Rightarrow> bool result) \<Rightarrow> 'q list \<Rightarrow> bool result" where
  "first_true f [] = Inr False"
| "first_true f (x # xs) =
     (case f x of Inl e \<Rightarrow> Inl e | Inr True \<Rightarrow> Inr True | Inr False \<Rightarrow> first_true f xs)"

definition Can :: "Resolver \<Rightarrow> string \<Rightarrow> string \<Rightarrow> string \<Rightarrow> bool result" where
  "Can r userID permission routerID =
     (case rv_db r of
        None \<Rightarrow> Inr False
      | Some d \<Rightarrow>
          if userID = [] then Inr False
          else if permission \<in> set GlobalOnly
          then (case GrantsForUser d userID of
                  Inl e \<Rightarrow> Inl e
                | Inr grants \<Rightarrow> first_true (\<lambda>g. roleConfers d (RoleID g) permission)
                    (filter (\<lambda>g. ScopeType g = ''global'') grants))
          else if permission \<notin> set Scoped then Inr False
          else if routerID = [] then Inr False
          else case roleSetsInScope d (rv_routers r) userID routerID of
                 Inl e \<Rightarrow> Inl e
               | Inr None \<Rightarrow> Inr False
               | Inr (Some sets) \<Rightarrow> first_true (\<lambda>roleID. roleConfers d roleID permission) sets)"

text \<open>The loop that keeps the ones answered yes, and fails as a whole when any fails.\<close>

fun keep_true :: "('q \<Rightarrow> bool result) \<Rightarrow> 'q list \<Rightarrow> 'q list result" where
  "keep_true f [] = Inr []"
| "keep_true f (x # xs) =
     (case f x of
        Inl e \<Rightarrow> Inl e
      | Inr ok \<Rightarrow> (case keep_true f xs of Inl e \<Rightarrow> Inl e | Inr out \<Rightarrow> Inr (if ok then x # out else out)))"

definition EffectiveRouterIDs :: "Resolver \<Rightarrow> string \<Rightarrow> string \<Rightarrow> string list result" where
  "EffectiveRouterIDs r userID permission =
     (case rv_db r of
        None \<Rightarrow> Inr []
      | Some d \<Rightarrow> map_sum id sort (keep_true (Can r userID permission) (map ID (rv_routers r))))"

definition CanPageAnywhere :: "Resolver \<Rightarrow> string \<Rightarrow> string \<Rightarrow> string \<Rightarrow> bool result" where
  "CanPageAnywhere r userID page access =
     (if rv_db r = None \<or> userID = [] then Inr False
      else case EffectiveRouterIDs r userID ''router:read'' of
             Inl e \<Rightarrow> Inl e
           | Inr readable \<Rightarrow> first_true (CanPage r userID page access) readable)"

definition WriteCapablePages :: "string list" where
  "WriteCapablePages = sort (gokeys writeConfers)"

definition ConfersAtWrite :: "string \<Rightarrow> bool" where
  "ConfersAtWrite page \<longleftrightarrow> 0 < length (confers writeConfers page)"

section \<open>The interface: a question that may fail\<close>

text \<open>
  A question answers truthfully or reports a fault; so do the loops over it. Every decision of the
  resolver is an instance.
\<close>

locale decision =
  fixes ask :: "'q \<Rightarrow> bool result" and holds :: "'q \<Rightarrow> bool" and faulty :: "string \<Rightarrow> bool"
  assumes answer: "ask q = Inr b \<Longrightarrow> b = holds q"
    and refusal: "ask q = Inl e \<Longrightarrow> faulty e"
begin

lemma first_true_answer: "first_true ask qs = Inr b \<Longrightarrow> b = (\<exists>q\<in>set qs. holds q)"
  by (induction qs) (auto dest: answer split: sum.splits bool.splits)

lemma first_true_refusal: "first_true ask qs = Inl e \<Longrightarrow> faulty e"
  by (induction qs) (auto dest: refusal split: sum.splits bool.splits)

lemma keep_true_answer: "keep_true ask qs = Inr out \<Longrightarrow> out = filter holds qs"
  by (induction qs arbitrary: out) (auto dest: answer split: sum.splits if_splits)

lemma keep_true_refusal: "keep_true ask qs = Inl e \<Longrightarrow> faulty e"
  by (induction qs) (auto dest: refusal split: sum.splits if_splits)

end

definition faulty_db :: "DB option \<Rightarrow> string \<Rightarrow> bool" where
  "faulty_db d e \<longleftrightarrow> (\<exists>db q. d = Some db \<and> query_fault db q = Some e)"

section \<open>What the grants say\<close>

text \<open>The specification, read off the tables: which grants cover a router, what a role confers.\<close>

definition covers :: "Router \<Rightarrow> GrantRow \<Rightarrow> bool" where
  "covers rt g \<longleftrightarrow> gr_scope_type g = ''global'' \<or>
     gr_scope_type g = ''site'' \<and> gr_scope_id g \<noteq> [] \<and> gr_scope_id g \<in> set (SiteIDs rt) \<or>
     gr_scope_type g = ''router'' \<and> gr_scope_id g = ID rt"

definition role_pages_of :: "DB \<Rightarrow> string \<Rightarrow> (string \<times> string) set" where
  "role_pages_of d i = {(p, a). (i, p, a) \<in> set (t_role_pages d)}"

definition is_builtin :: "DB \<Rightarrow> string \<Rightarrow> bool" where
  "is_builtin d i \<longleftrightarrow> (\<exists>row. find_role d i = Some row \<and> rr_builtin row \<noteq> 0)"

definition is_custom :: "DB \<Rightarrow> string \<Rightarrow> bool" where
  "is_custom d i \<longleftrightarrow> (\<exists>row. find_role d i = Some row \<and> rr_builtin row = 0)"

definition role_has_page :: "DB \<Rightarrow> string \<Rightarrow> string \<Rightarrow> int \<Rightarrow> bool" where
  "role_has_page d i page need \<longleftrightarrow> is_builtin d i \<or>
     is_custom d i \<and> (\<exists>a. (page, a) \<in> role_pages_of d i \<and> need \<le> accessRank a)"

definition role_has_perm :: "DB \<Rightarrow> string \<Rightarrow> string \<Rightarrow> bool" where
  "role_has_perm d i perm \<longleftrightarrow> is_builtin d i \<and> known perm \<or>
     is_custom d i \<and> (perm \<in> set GlobalOnly \<longrightarrow> perm = ''system:settings'') \<and>
       (\<exists>p a. (p, a) \<in> role_pages_of d i \<and> perm \<in> set (project_page \<lparr>Page = p, Access = a\<rparr>))"

definition router_of :: "Resolver \<Rightarrow> string \<Rightarrow> Router option" where
  "router_of r rid = List.find (\<lambda>rt. ID rt = rid) (rv_routers r)"

definition may_page :: "Resolver \<Rightarrow> string \<Rightarrow> string \<Rightarrow> string \<Rightarrow> string \<Rightarrow> bool" where
  "may_page r u page access rid \<longleftrightarrow> u \<noteq> [] \<and> rid \<noteq> [] \<and> page \<in> set (rv_pages r) \<and> accessRank access \<noteq> 0 \<and>
     (\<exists>d rt g. rv_db r = Some d \<and> router_of r rid = Some rt \<and> reaches d u g \<and> covers rt g \<and>
        role_has_page d (gr_role_id g) page (accessRank access))"

definition may :: "Resolver \<Rightarrow> string \<Rightarrow> string \<Rightarrow> string \<Rightarrow> bool" where
  "may r u perm rid \<longleftrightarrow> u \<noteq> [] \<and> (\<exists>d g. rv_db r = Some d \<and> reaches d u g \<and> role_has_perm d (gr_role_id g) perm \<and>
     (if perm \<in> set GlobalOnly then gr_scope_type g = ''global''
      else perm \<in> set Scoped \<and> rid \<noteq> [] \<and> (\<exists>rt. router_of r rid = Some rt \<and> covers rt g)))"

lemma scope_matches_view: "scope_matches rt (view g) = covers rt g"
  by (auto simp: scope_matches_def view_def covers_def list_ex_iff)

lemma view_sel [simp]: "RoleID (view g) = gr_role_id g" "ScopeType (view g) = gr_scope_type g"
  by (simp_all add: view_def)

lemma scopedRoles_set:
  "GrantsForUser d u = Inr gs \<Longrightarrow> set (scopedRoles gs rt) = {gr_role_id g | g. reaches d u g \<and> covers rt g}"
proof -
  assume "GrantsForUser d u = Inr gs"
  then have "set (scopedRoles gs rt) = RoleID ` {x \<in> view ` {g. reaches d u g}. scope_matches rt x}"
    by (simp add: scopedRoles_def GrantsForUser_Inr)
  also have "\<dots> = RoleID ` view ` {g. reaches d u g \<and> covers rt g}"
    using scope_matches_view by (intro arg_cong [where f = "image RoleID"]) blast
  also have "\<dots> = {gr_role_id g | g. reaches d u g \<and> covers rt g}" by (auto simp: image_image)
  finally show ?thesis .
qed

lemma strip_global_iff:
  "perm \<in> set (strip_global ps) \<longleftrightarrow> perm \<in> set ps \<and> (perm \<in> set GlobalOnly \<longrightarrow> perm = ''system:settings'')"
  by (auto simp: strip_global_def)

lemma role_pages_of_list:
  "set (map (\<lambda>(_, p, a). \<lparr>Page = p, Access = a\<rparr>) (filter (\<lambda>(x, _, _). x = i) (t_role_pages d))) =
   (\<lambda>(p, a). \<lparr>Page = p, Access = a\<rparr>) ` role_pages_of d i"
  by (force simp: role_pages_of_def)

lemma role_pages_bex:
  "set ps = (\<lambda>(p, a). \<lparr>Page = p, Access = a\<rparr>) ` S \<Longrightarrow> (\<exists>x\<in>set ps. Q x) \<longleftrightarrow> (\<exists>p a. (p, a) \<in> S \<and> Q \<lparr>Page = p, Access = a\<rparr>)"
  by (simp add: Bex_def)

text \<open>What \<open>RoleByID\<close> answers, in the terms of the tables.\<close>

lemma RoleByID_answer:
  assumes "RoleByID d i = Inr r"
  shows "case r of None \<Rightarrow> \<not> is_builtin d i \<and> \<not> is_custom d i
    | Some role \<Rightarrow> if Builtin role then is_builtin d i
        else is_custom d i \<and> \<not> is_builtin d i \<and> set (Pages role) = (\<lambda>(p, a). \<lparr>Page = p, Access = a\<rparr>) ` role_pages_of d i"
  using assms role_pages_of_list [of i d]
  by (cases rule: RoleByID_cases) (simp_all add: is_builtin_def is_custom_def)

lemma roleConfers_answer: "roleConfers d i perm = Inr b \<Longrightarrow> b = role_has_perm d i perm"
proof -
  assume a: "roleConfers d i perm = Inr b"
  then obtain r where r: "RoleByID d i = Inr r" by (auto simp: roleConfers_def split: sum.splits)
  note spec = RoleByID_answer [OF r]
  show ?thesis
  proof (cases r)
    case None
    with a r spec show ?thesis by (auto simp: roleConfers_def role_has_perm_def)
  next
    case (Some role)
    show ?thesis
    proof (cases "Builtin role")
      case True
      then have "is_builtin d i" "\<not> is_custom d i" using spec Some by (auto simp: is_builtin_def is_custom_def)
      with True a r Some show ?thesis by (auto simp: roleConfers_def role_has_perm_def)
    next
      case False
      with spec Some have c: "is_custom d i" "\<not> is_builtin d i"
        "set (Pages role) = (\<lambda>(p, a). \<lparr>Page = p, Access = a\<rparr>) ` role_pages_of d i" by auto
      have "b \<longleftrightarrow> (\<exists>x\<in>set (Pages role). perm \<in> set (project_page x)) \<and> (perm \<in> set GlobalOnly \<longrightarrow> perm = ''system:settings'')"
        using False a r Some by (simp add: roleConfers_def strip_global_iff)
      then show ?thesis unfolding role_pages_bex [OF c(3)] using c by (simp add: role_has_perm_def) blast
    qed
  qed
qed

lemma roleConfers_refusal: "roleConfers d i perm = Inl e \<Longrightarrow> \<exists>q. query_fault d q = Some e"
  by (auto simp: roleConfers_def dest: RoleByID_Inl split: sum.splits option.splits if_splits)

interpretation role_of_grant: decision "\<lambda>g. roleConfers d (RoleID g) perm" "\<lambda>g. role_has_perm d (RoleID g) perm"
    "faulty_db (Some d)" for d perm
  by unfold_locales (auto dest: roleConfers_answer roleConfers_refusal simp: faulty_db_def)

interpretation role: decision "\<lambda>i. roleConfers d i perm" "\<lambda>i. role_has_perm d i perm" "faulty_db (Some d)" for d perm
  by unfold_locales (auto dest: roleConfers_answer roleConfers_refusal simp: faulty_db_def)

text \<open>A cache holds what the database would answer.\<close>

definition cache_ok :: "DB \<Rightarrow> role_cache \<Rightarrow> bool" where
  "cache_ok d cache \<longleftrightarrow> (\<forall>i r. golookup cache i = Some r \<longrightarrow> RoleByID d i = Inr r)"

lemma cached_role_spec:
  "cache_ok d cache \<Longrightarrow> cached_role d cache i = Inr (r, cache') \<Longrightarrow> RoleByID d i = Inr r \<and> cache_ok d cache'"
  by (auto simp: cached_role_def cache_ok_def gomap_simps split: option.splits sum.splits if_splits)

lemma cached_role_refusal: "cached_role d cache i = Inl e \<Longrightarrow> \<exists>q. query_fault d q = Some e"
  by (auto simp: cached_role_def dest: RoleByID_Inl split: option.splits sum.splits)

lemma role_page_answer:
  assumes "RoleByID d i = Inr r"
  shows "role_has_page d i page need = (case r of None \<Rightarrow> False
    | Some role \<Rightarrow> Builtin role \<or> list_ex (\<lambda>p. Page p = page \<and> need \<le> accessRank (Access p)) (Pages role))"
proof (cases r)
  case None
  then show ?thesis using RoleByID_answer [OF assms] by (simp add: role_has_page_def)
next
  case (Some role)
  show ?thesis
  proof (cases "Builtin role")
    case True
    then show ?thesis using RoleByID_answer [OF assms] Some by (simp add: role_has_page_def)
  next
    case False
    then have c: "is_custom d i" "\<not> is_builtin d i"
      "set (Pages role) = (\<lambda>(p, a). \<lparr>Page = p, Access = a\<rparr>) ` role_pages_of d i"
      using RoleByID_answer [OF assms] Some by auto
    show ?thesis using c(1,2) False Some by (auto simp: role_has_page_def list_ex_iff role_pages_bex [OF c(3)])
  qed
qed

lemma setsConfer_answer:
  "cache_ok d cache \<Longrightarrow> setsConfer d sets page need cache = Inr (b, cache') \<Longrightarrow>
   b = (\<exists>i\<in>set sets. role_has_page d i page need) \<and> cache_ok d cache'"
proof (induction sets arbitrary: cache)
  case (Cons i sets)
  from Cons.prems(2) obtain r c1 where c: "cached_role d cache i = Inr (r, c1)"
    by (auto split: sum.splits)
  note ok = cached_role_spec [OF Cons.prems(1) c]
  note step = role_page_answer [OF conjunct1 [OF ok], of page need]
  show ?case using Cons.prems(2) Cons.IH [of c1] c ok step by (cases r) (auto split: if_splits)
qed simp

lemma setsConfer_refusal: "setsConfer d sets page need cache = Inl e \<Longrightarrow> \<exists>q. query_fault d q = Some e"
  by (induction sets arbitrary: cache)
    (auto dest: cached_role_refusal split: sum.splits option.splits if_splits prod.splits)

lemma cache_ok_Nil: "cache_ok d []"
  by (simp add: cache_ok_def)

lemma roleSets_answer:
  "roleSetsInScope d rs u rid = Inr ss \<Longrightarrow>
   (case List.find (\<lambda>rt. ID rt = rid) rs of None \<Rightarrow> ss = None
    | Some rt \<Rightarrow> \<exists>l. ss = Some l \<and> set l = {gr_role_id g | g. reaches d u g \<and> covers rt g})"
  by (auto simp: roleSetsInScope_def scopedRoles_set split: option.splits sum.splits)

lemma roleSets_refusal: "roleSetsInScope d rs u rid = Inl e \<Longrightarrow> \<exists>q. query_fault d q = Some e"
  by (auto simp: roleSetsInScope_def dest: GrantsForUser_Inl split: option.splits sum.splits)

section \<open>The answers are exact\<close>

definition truthful :: "Resolver \<Rightarrow> 'a result \<Rightarrow> 'a \<Rightarrow> bool" where
  "truthful r answer v \<longleftrightarrow> (case answer of Inr b \<Rightarrow> b = v | Inl e \<Rightarrow> faulty_db (rv_db r) e)"

lemma truthfulI:
  "(\<And>b. answer = Inr b \<Longrightarrow> b = v) \<Longrightarrow> (\<And>e. answer = Inl e \<Longrightarrow> faulty_db (rv_db r) e) \<Longrightarrow> truthful r answer v"
  by (auto simp: truthful_def split: sum.split)

lemma truthfulD: "truthful r answer v \<Longrightarrow> answer = Inr b \<Longrightarrow> b = v"
  "truthful r answer v \<Longrightarrow> answer = Inl e \<Longrightarrow> faulty_db (rv_db r) e"
  by (auto simp: truthful_def)

lemma map_sum_cases: "map_sum id f m = Inr b \<longleftrightarrow> (\<exists>x. m = Inr x \<and> b = f x)" "map_sum id f m = Inl e \<longleftrightarrow> m = Inl e"
  by (cases m; auto)+

lemma CanPage_truthful: "truthful r (CanPage r u page access rid) (may_page r u page access rid)"
proof (cases "rv_db r = None \<or> u = [] \<or> rid = [] \<or> page \<notin> set (rv_pages r) \<or> accessRank access = 0")
  case True
  then show ?thesis by (auto simp: truthful_def CanPage_def may_page_def split: option.splits)
next
  case False
  then obtain d where d: "rv_db r = Some d" by auto
  have eq: "CanPage r u page access rid = (case roleSetsInScope d (rv_routers r) u rid of
      Inl e \<Rightarrow> Inl e | Inr None \<Rightarrow> Inr False
    | Inr (Some sets) \<Rightarrow> map_sum id fst (setsConfer d sets page (accessRank access) []))"
    using False d by (simp add: CanPage_def)
  show ?thesis
  proof (cases "roleSetsInScope d (rv_routers r) u rid")
    case (Inl e)
    then show ?thesis using eq roleSets_refusal [OF Inl] d by (auto simp: truthful_def faulty_db_def)
  next
    case (Inr ss)
    note sets = roleSets_answer [OF Inr]
    show ?thesis
    proof (cases "router_of r rid")
      case None
      then show ?thesis using sets eq Inr by (auto simp: truthful_def may_page_def router_of_def)
    next
      case (Some rt)
      then obtain l where l: "ss = Some l" "set l = {gr_role_id g | g. reaches d u g \<and> covers rt g}"
        using sets by (auto simp: router_of_def)
      have spec: "may_page r u page access rid \<longleftrightarrow> (\<exists>i\<in>set l. role_has_page d i page (accessRank access))"
        using False d Some l(2) by (auto simp: may_page_def)
      have eq': "CanPage r u page access rid = map_sum id fst (setsConfer d l page (accessRank access) [])"
        using eq Inr l(1) by simp
      show ?thesis unfolding spec eq'
        by (rule truthfulI)
          (auto simp: faulty_db_def d map_sum_cases dest: setsConfer_refusal setsConfer_answer [OF cache_ok_Nil])
    qed
  qed
qed

lemma Can_global_truthful:
  assumes d: "rv_db r = Some d" and u: "u \<noteq> []" and g: "perm \<in> set GlobalOnly"
  shows "truthful r (Can r u perm rid) (may r u perm rid)"
proof -
  have k: "known perm" using g by (simp add: known_def)
  have eq: "Can r u perm rid = (case GrantsForUser d u of Inl e \<Rightarrow> Inl e
      | Inr gs \<Rightarrow> first_true (\<lambda>g. roleConfers d (RoleID g) perm) (filter (\<lambda>g. ScopeType g = ''global'') gs))"
    using assms k by (simp add: Can_def)
  have spec: "may r u perm rid \<longleftrightarrow>
      (\<exists>g\<in>set (filter (\<lambda>g. ScopeType g = ''global'') gs). role_has_perm d (RoleID g) perm)"
    if "GrantsForUser d u = Inr gs" for gs
    using assms k GrantsForUser_Inr [OF that] by (auto simp: may_def)
  show ?thesis
  proof (cases "GrantsForUser d u")
    case (Inl e)
    then show ?thesis using GrantsForUser_Inl [OF Inl] by (auto simp: eq d truthful_def faulty_db_def)
  next
    case (Inr gs)
    then have eq': "Can r u perm rid = first_true (\<lambda>g. roleConfers d (RoleID g) perm) (filter (\<lambda>g. ScopeType g = ''global'') gs)"
      by (simp add: eq)
    show ?thesis unfolding spec [OF Inr] eq'
      by (rule truthfulI) (drule role_of_grant.first_true_answer role_of_grant.first_true_refusal, simp only: d)+
  qed
qed

lemma Can_scoped_truthful:
  assumes d: "rv_db r = Some d" and u: "u \<noteq> []" and ng: "perm \<notin> set GlobalOnly" and sc: "perm \<in> set Scoped" and rid: "rid \<noteq> []"
  shows "truthful r (Can r u perm rid) (may r u perm rid)"
proof -
  have k: "known perm" using sc by (simp add: known_def)
  have eq: "Can r u perm rid = (case roleSetsInScope d (rv_routers r) u rid of Inl e \<Rightarrow> Inl e
      | Inr None \<Rightarrow> Inr False | Inr (Some sets) \<Rightarrow> first_true (\<lambda>i. roleConfers d i perm) sets)"
    using assms k by (simp add: Can_def)
  have none: "\<not> may r u perm rid" if "roleSetsInScope d (rv_routers r) u rid = Inr None"
    using roleSets_answer [OF that] ng by (auto simp: may_def router_of_def split: option.splits)
  have spec: "may r u perm rid \<longleftrightarrow> (\<exists>i\<in>set l. role_has_perm d i perm)"
    if "roleSetsInScope d (rv_routers r) u rid = Inr (Some l)" for l
    using roleSets_answer [OF that] assms k by (auto simp: may_def router_of_def split: option.splits)
  show ?thesis
  proof (cases "roleSetsInScope d (rv_routers r) u rid")
    case (Inl e)
    then show ?thesis using roleSets_refusal [OF Inl] by (auto simp: eq d truthful_def faulty_db_def)
  next
    case (Inr ss)
    show ?thesis
    proof (cases ss)
      case None
      then show ?thesis using none Inr by (simp add: eq truthful_def)
    next
      case (Some l)
      then have eq': "Can r u perm rid = first_true (\<lambda>i. roleConfers d i perm) l" by (simp add: eq Inr)
      show ?thesis unfolding spec [OF Inr [unfolded Some]] eq'
        by (rule truthfulI) (drule role.first_true_answer role.first_true_refusal, simp only: d)+
    qed
  qed
qed

lemma Can_truthful: "truthful r (Can r u perm rid) (may r u perm rid)"
proof (cases "rv_db r = None \<or> u = [] \<or> \<not> known perm \<or> perm \<notin> set GlobalOnly \<and> rid = []")
  case True
  then show ?thesis by (auto simp: truthful_def Can_def may_def known_def split: option.splits)
next
  case False
  then obtain d where "rv_db r = Some d" by auto
  with False show ?thesis
    using Can_global_truthful Can_scoped_truthful by (cases "perm \<in> set GlobalOnly") (auto simp: known_def)
qed

interpretation can: decision "Can r u perm" "may r u perm" "faulty_db (rv_db r)" for r u perm
  by unfold_locales (rule truthfulD [OF Can_truthful]; assumption)+

interpretation can_page: decision "CanPage r u page access" "may_page r u page access" "faulty_db (rv_db r)" for r u page access
  by unfold_locales (rule truthfulD [OF CanPage_truthful]; assumption)+

lemma Effective_truthful:
  "truthful r (EffectiveRouterIDs r u perm) (sort (filter (may r u perm) (map ID (rv_routers r))))"
proof (cases "rv_db r")
  case None
  then have "\<not> may r u perm rid" for rid by (simp add: may_def)
  with None show ?thesis by (simp add: truthful_def EffectiveRouterIDs_def)
next
  case (Some d)
  show ?thesis
    by (rule truthfulI)
      (auto simp: EffectiveRouterIDs_def Some map_sum_cases dest: can.keep_true_answer can.keep_true_refusal)
qed

lemma page_routers_answer:
  "cache_ok d cache \<Longrightarrow> page_routers d gs page need cache rts = Inr out \<Longrightarrow>
   set out = {ID rt | rt. rt \<in> set rts \<and> (\<exists>i\<in>set (scopedRoles gs rt). role_has_page d i page need)}"
proof (induction rts arbitrary: cache out)
  case (Cons rt rts)
  from Cons.prems(2) obtain ok c1 out1 where s: "setsConfer d (scopedRoles gs rt) page need cache = Inr (ok, c1)"
    "page_routers d gs page need c1 rts = Inr out1" "out = (if ok then ID rt # out1 else out1)"
    by (auto split: sum.splits)
  note a = setsConfer_answer [OF Cons.prems(1) s(1)]
  from Cons.IH [OF _ s(2)] a s(3) show ?case by auto
qed simp

lemma page_routers_refusal:
  "page_routers d gs page need cache rts = Inl e \<Longrightarrow> \<exists>q. query_fault d q = Some e"
  by (induction rts arbitrary: cache) (auto dest: setsConfer_refusal split: sum.splits prod.splits)

lemma router_of_mem: "distinct (map ID (rv_routers r)) \<Longrightarrow> router_of r rid = Some rt \<longleftrightarrow> rt \<in> set (rv_routers r) \<and> ID rt = rid"
  unfolding router_of_def using find_unique [of ID "rv_routers r" rt] by (auto simp: find_Some_iff)

lemma PageRouterIDs_truthful:
  assumes ids: "distinct (map ID (rv_routers r))" "[] \<notin> set (map ID (rv_routers r))"
  shows "truthful r (PageRouterIDs r u page access) {rid. may_page r u page access rid}"
proof (cases "rv_db r = None \<or> u = [] \<or> page \<notin> set (rv_pages r) \<or> accessRank access = 0")
  case True
  then show ?thesis by (auto simp: truthful_def PageRouterIDs_def may_page_def split: option.splits)
next
  case False
  then obtain d where d: "rv_db r = Some d" by auto
  show ?thesis
  proof (cases "GrantsForUser d u")
    case (Inl e)
    then show ?thesis using GrantsForUser_Inl [OF Inl] False d by (auto simp: PageRouterIDs_def truthful_def faulty_db_def)
  next
    case (Inr gs)
    have named: "ID rt \<noteq> []" if "rt \<in> set (rv_routers r)" for rt using ids(2) that by (metis image_eqI set_map)
    have eq: "PageRouterIDs r u page access = map_sum id set (page_routers d gs page (accessRank access) [] (rv_routers r))"
      using False d Inr by (simp add: PageRouterIDs_def)
    have spec: "{rid. may_page r u page access rid} =
        {ID rt | rt. rt \<in> set (rv_routers r) \<and> (\<exists>i\<in>set (scopedRoles gs rt). role_has_page d i page (accessRank access))}"
      using False named d unfolding may_page_def router_of_mem [OF ids(1)] scopedRoles_set [OF Inr] by auto
    show ?thesis unfolding spec eq
      by (rule truthfulI)
        (auto simp: d faulty_db_def map_sum_cases dest: page_routers_refusal page_routers_answer [OF cache_ok_Nil])
  qed
qed

text \<open>
  C15. A page question is answered exactly as the grants say: yes if and only if the user and the router are
  named, the page and the access level exist, and a grant that reaches the user, directly or through a
  group, covers the router and names a role that confers the page at that level. Otherwise the answer
  is no, or the database's own error; a fault never becomes a yes.
\<close>

theorem can_page_exact:
  "case CanPage r u page access rid of Inr b \<Rightarrow> b = may_page r u page access rid | Inl e \<Rightarrow> faulty_db (rv_db r) e"
  using CanPage_truthful [of r u page access rid] unfolding truthful_def .

text \<open>
  The batch form agrees with the single one on a fleet with distinct, non-empty identifiers: when both
  answer, a router is in the batch answer exactly when the single question says yes.
\<close>

theorem page_routers_agree:
  assumes "distinct (map ID (rv_routers r))" "[] \<notin> set (map ID (rv_routers r))"
    and "PageRouterIDs r u page access = Inr S" "CanPage r u page access rid = Inr b"
  shows "rid \<in> S \<longleftrightarrow> b"
  using truthfulD(1) [OF PageRouterIDs_truthful [OF assms(1,2)] assms(3)] can_page.answer [OF assms(4)] by simp

definition demo_db :: DB where
  "demo_db = \<lparr>sql_open = True,
     t_grants = [\<lparr>gr_id = ''g1'', gr_principal_type = ''group'', gr_principal_id = ''noc'', gr_role_id = ''ops'',
        gr_role = ''viewer'', gr_scope_type = ''site'', gr_scope_id = ''berlin'', gr_created_at = 0, gr_created_by = None\<rparr>,
        \<lparr>gr_id = ''g2'', gr_principal_type = ''user'', gr_principal_id = ''root'', gr_role_id = ''administrator'',
        gr_role = ''admin'', gr_scope_type = ''global'', gr_scope_id = [], gr_created_at = 0, gr_created_by = None\<rparr>],
     t_group_members = [(''noc'', ''ann'')], t_groups = [''noc''],
     t_roles = [\<lparr>rr_ID = ''administrator'', rr_Name = ''Administrator'', rr_Description = None, rr_builtin = 1, rr_CreatedAt = 0\<rparr>,
        \<lparr>rr_ID = ''ops'', rr_Name = ''Ops'', rr_Description = None, rr_builtin = 0, rr_CreatedAt = 0\<rparr>],
     t_role_pages = [(''ops'', ''dns'', ''write''), (''ops'', ''settings'', ''write'')],
     t_sites = [], fault = (\<lambda>_. None)\<rparr>"

definition demo :: Resolver where
  "demo = \<lparr>rv_db = Some demo_db,
     rv_routers = [\<lparr>ID = ''r1'', Label = ''edge'', Host = ''h1'', SiteIDs = [''berlin'']\<rparr>,
                   \<lparr>ID = ''r2'', Label = [], Host = ''h2'', SiteIDs = []\<rparr>],
     rv_pages = [''dns'', ''settings'']\<rparr>"

theorem page_routers_agree_witness:
  "PageRouterIDs demo ''ann'' ''dns'' ''write'' = Inr {''r1''} \<and> CanPage demo ''ann'' ''dns'' ''write'' ''r2'' = Inr False \<and>
   (''r2'' \<in> {''r1''} \<longleftrightarrow> False)"
proof -
  have a: "PageRouterIDs demo ''ann'' ''dns'' ''write'' = Inr {''r1''}" by code_simp
  have b: "CanPage demo ''ann'' ''dns'' ''write'' ''r2'' = Inr False" by code_simp
  show ?thesis
  proof (intro conjI a b page_routers_agree [OF _ _ a b])
    show "distinct (map ID (rv_routers demo))" by code_simp
    show "[] \<notin> set (map ID (rv_routers demo))" by code_simp
  qed
qed

text \<open>
  A permission question is answered exactly as the grants say: a permission of the install only through
  a grant at global scope, a router's permission only through a grant that covers that router, and in
  either case only if the role of the grant confers it.
\<close>

theorem can_exact:
  "case Can r u perm rid of Inr b \<Rightarrow> b = may r u perm rid | Inl e \<Rightarrow> faulty_db (rv_db r) e"
  using Can_truthful [of r u perm rid] unfolding truthful_def .

text \<open>
  C16. The escalation firewall: whatever pages a custom role is given, it never confers the management of
  principals, of the database or of the fleet. Whoever holds one of these permissions holds a builtin
  role through a grant at global scope.
\<close>

theorem escalation_firewall:
  assumes "Can r u perm rid = Inr True" and "perm \<in> {''system:principals'', ''system:db'', ''router:create''}"
  shows "\<exists>d g. rv_db r = Some d \<and> reaches d u g \<and> gr_scope_type g = ''global'' \<and> is_builtin d (gr_role_id g)"
proof -
  have g: "perm \<in> set GlobalOnly" "perm \<noteq> ''system:settings''" using assms(2) by (auto simp: GlobalOnly_def)
  have "may r u perm rid" using can.answer [OF assms(1)] by simp
  with g show ?thesis unfolding may_def role_has_perm_def by auto
qed

theorem escalation_firewall_witness:
  "\<exists>d g. rv_db demo = Some d \<and> reaches d ''root'' g \<and> gr_scope_type g = ''global'' \<and> is_builtin d (gr_role_id g)"
proof (rule escalation_firewall)
  show "Can demo ''root'' ''system:principals'' [] = Inr True" by code_simp
  show "''system:principals'' \<in> {''system:principals'', ''system:db'', ''router:create''}" by simp
qed

text \<open>
  The list of routers a user holds a permission on is sorted and complete: it is the list of exactly
  the routers the single question says yes for; one failing question fails the whole list.
\<close>

theorem effective_routers_exact:
  "case EffectiveRouterIDs r u perm of
     Inr ids \<Rightarrow> sorted ids \<and> mset ids = mset (filter (may r u perm) (map ID (rv_routers r)))
   | Inl e \<Rightarrow> faulty_db (rv_db r) e"
  using Effective_truthful [of r u perm] by (auto simp: truthful_def split: sum.splits)

end
