(* ===== verification/Access.thy ===== *)
theory Access
  imports Rbac
begin

text \<open>
  What is built on the resolver's answers: the first-paint capabilities (\<^verbatim>\<open>rbac/capabilities.go\<close>), the
  account dialog (\<^verbatim>\<open>rbac/summary.go\<close>), the fields only an administrator may set
  (\<^verbatim>\<open>rbac/routerwrite.go\<close>), the grants a user record stands for (\<^verbatim>\<open>rbac/syncgrants.go\<close>), and the two
  uses of that plan in \<^verbatim>\<open>server/users_write_api.go\<close>.
\<close>

section \<open>Capabilities\<close>

record CapabilityRouters =
  Readable :: "string list"
  Manageable :: "string list"
  History :: "string list"
  Ackable :: "string list"
  Diagnosable :: "string list"
  Scannable :: "string list"

record Capabilities =
  ManagePrincipals :: bool
  ManageSettings :: bool
  ManageDB :: bool
  CreateRouters :: bool
  cap_Pages :: "(string, string) gomap"
  cap_Routers :: CapabilityRouters
  cap_Readable :: "string list"

definition conferred :: "bool result \<Rightarrow> bool" where
  "conferred a = (case a of Inr ok \<Rightarrow> ok | Inl _ \<Rightarrow> False)"

definition no_routers :: CapabilityRouters where
  "no_routers = \<lparr>Readable = [], Manageable = [], History = [], Ackable = [], Diagnosable = [], Scannable = []\<rparr>"

definition no_caps :: Capabilities where
  "no_caps = \<lparr>ManagePrincipals = False, ManageSettings = False, ManageDB = False, CreateRouters = False,
     cap_Pages = [], cap_Routers = no_routers, cap_Readable = []\<rparr>"

definition scoped_lists :: "(string \<times> (string list \<Rightarrow> CapabilityRouters \<Rightarrow> CapabilityRouters)) list" where
  "scoped_lists =
     [(''router:read'', \<lambda>ids c. c\<lparr>Readable := ids\<rparr>), (''router:manage'', \<lambda>ids c. c\<lparr>Manageable := ids\<rparr>),
      (''router:history'', \<lambda>ids c. c\<lparr>History := ids\<rparr>), (''router:ack'', \<lambda>ids c. c\<lparr>Ackable := ids\<rparr>),
      (''router:diagnose'', \<lambda>ids c. c\<lparr>Diagnosable := ids\<rparr>), (''router:scan'', \<lambda>ids c. c\<lparr>Scannable := ids\<rparr>)]"

text \<open>The six lists in turn; the first that fails stops the rest, and what was filled stays.\<close>

fun fill_lists ::
  "Resolver \<Rightarrow> string \<Rightarrow> (string \<times> (string list \<Rightarrow> CapabilityRouters \<Rightarrow> CapabilityRouters)) list \<Rightarrow>
   CapabilityRouters \<Rightarrow> CapabilityRouters \<times> string option" where
  "fill_lists r u [] c = (c, None)"
| "fill_lists r u ((perm, into) # ls) c =
     (case EffectiveRouterIDs r u perm of
        Inl e \<Rightarrow> (c, Some e)
      | Inr ids \<Rightarrow> fill_lists r u ls (into (sort ids) c))"

text \<open>The roles in scope on the readable routers, each once.\<close>

fun collect_roles :: "DB \<Rightarrow> Router list \<Rightarrow> string \<Rightarrow> string list \<Rightarrow> string list \<Rightarrow> string list result" where
  "collect_roles d rs u [] seen = Inr seen"
| "collect_roles d rs u (rid # rids) seen =
     (case roleSetsInScope d rs u rid of
        Inl e \<Rightarrow> Inl e
      | Inr roles \<Rightarrow> collect_roles d rs u rids
          (foldl (\<lambda>sn i. if i \<in> set sn then sn else sn @ [i]) seen (case roles of None \<Rightarrow> [] | Some l \<Rightarrow> l)))"

definition add_page :: "(string, string) gomap \<Rightarrow> RolePage \<Rightarrow> (string, string) gomap" where
  "add_page m p = (if golookup m (Page p) = Some ''write'' then m else goput (Page p) (Access p) m)"

fun merge_roles :: "DB \<Rightarrow> string list \<Rightarrow> string list \<Rightarrow> (string, string) gomap \<Rightarrow> (string, string) gomap \<times> string option" where
  "merge_roles d pages [] m = (m, None)"
| "merge_roles d pages (i # is) m =
     (case RoleByID d i of
        Inl e \<Rightarrow> (m, Some e)
      | Inr None \<Rightarrow> merge_roles d pages is m
      | Inr (Some role) \<Rightarrow>
          merge_roles d pages is
            (if Builtin role then foldl (\<lambda>m p. goput p ''write'' m) m pages else foldl add_page m (Pages role)))"

definition CapabilitiesFor :: "(string list \<Rightarrow> string list) \<Rightarrow> Resolver \<Rightarrow> string \<Rightarrow> Capabilities \<times> string option" where
  "CapabilitiesFor iter r u =
     (case rv_db r of
        None \<Rightarrow> (no_caps, None)
      | Some d \<Rightarrow>
          if u = [] then (no_caps, None)
          else
            let caps1 = no_caps\<lparr>ManagePrincipals := conferred (Can r u ''system:principals'' []),
                  ManageSettings := conferred (Can r u ''system:settings'' []),
                  ManageDB := conferred (Can r u ''system:db'' []),
                  CreateRouters := conferred (Can r u ''router:create'' [])\<rparr>
            in case fill_lists r u scoped_lists no_routers of
                 (routers, Some e) \<Rightarrow> (caps1\<lparr>cap_Routers := routers\<rparr>, Some e)
               | (routers, None) \<Rightarrow>
                   let caps2 = caps1\<lparr>cap_Routers := routers, cap_Readable := Readable routers\<rparr>
                   in case collect_roles d (rv_routers r) u (Readable routers) [] of
                        Inl e \<Rightarrow> (caps2, Some e)
                      | Inr seen \<Rightarrow> (case merge_roles d (rv_pages r) (iter seen) [] of
                          (m, err) \<Rightarrow> (caps2\<lparr>cap_Pages := m\<rparr>, err)))"

section \<open>Fields only an administrator may set\<close>

definition privilegedRouterFields :: "string list" where
  "privilegedRouterFields = [''siteIds'', ''siteId'', ''host'', ''port'', ''tls'', ''tlsInsecure'', ''username'',
     ''password'', ''loginProfileId'']"

fun strip_fields :: "string list \<Rightarrow> (string, 'v) gomap \<Rightarrow> string list \<times> (string, 'v) gomap" where
  "strip_fields [] body = ([], body)"
| "strip_fields (k # ks) body =
     (case golookup body k of
        None \<Rightarrow> strip_fields ks body
      | Some _ \<Rightarrow> (case strip_fields ks (godelete k body) of (dropped, body1) \<Rightarrow> (k # dropped, body1)))"

text \<open>The keys dropped and the body left; a nil body has nothing to strip.\<close>

definition StripPrivilegedRouterFields ::
  "(string, 'v) gomap option \<Rightarrow> bool \<Rightarrow> string list \<times> (string, 'v) gomap option" where
  "StripPrivilegedRouterFields body mayManagePrincipals =
     (case body of
        None \<Rightarrow> ([], None)
      | Some b \<Rightarrow> if mayManagePrincipals then ([], Some b)
                  else (case strip_fields privilegedRouterFields b of (dropped, b1) \<Rightarrow> (dropped, Some b1)))"

section \<open>The grants a user record stands for\<close>

text \<open>
  A decoded JSON value, as far as the coercion distinguishes values. A JSON number is a \<open>float64\<close>; the
  ones a router identifier can be are the integers, and those below \<open>2 ^ 53\<close> print as their digits.
\<close>

datatype anyval =
    ANil
  | ABool bool
  | ANum int
  | AStr string
  | AAnys "anyval list"
  | AStrs "string list"
  | AObj

record UserForGrants =
  ug_ID :: string
  ug_Username :: string
  ug_Role :: string
  AllowedRouterIDs :: anyval

datatype GrantOp = GDelete | GUpsert

record GrantStep =
  gs_Op :: GrantOp
  gs_Role :: string
  gs_ScopeType :: string
  gs_ScopeID :: string

record GrantPlan =
  Steps :: "GrantStep list"
  Warnings :: "string list"
  Made :: int

definition grantRole :: "string \<Rightarrow> string" where
  "grantRole role = (if role = ''admin'' then ''admin'' else if role = ''operator'' then ''operator'' else ''viewer'')"

definition truthyID :: "anyval \<Rightarrow> string \<times> bool" where
  "truthyID item =
     (case item of
        AStr x \<Rightarrow> (x, x \<noteq> [])
      | ANum x \<Rightarrow> (Itoa x, x \<noteq> 0)
      | ABool x \<Rightarrow> (''true'', x)
      | _ \<Rightarrow> ([], False))"

definition truthyIDs :: "anyval \<Rightarrow> string list" where
  "truthyIDs v =
     (case v of
        AAnys items \<Rightarrow> map fst (filter snd (map truthyID items))
      | AStrs items \<Rightarrow> filter (\<lambda>s. s \<noteq> []) items
      | _ \<Rightarrow> [])"

definition warn_dropped :: "string \<Rightarrow> string \<Rightarrow> string" where
  "warn_dropped user rid = ''[rbac] dropping '' @ user @ '''s access to unknown router '' @ rid"

definition plan_id :: "string \<Rightarrow> string \<Rightarrow> string list \<Rightarrow> GrantPlan \<Rightarrow> string \<Rightarrow> GrantPlan" where
  "plan_id user role live plan rid =
     (if rid \<notin> set live then plan\<lparr>Warnings := Warnings plan @ [warn_dropped user rid]\<rparr>
      else plan\<lparr>Steps := Steps plan @ [\<lparr>gs_Op = GUpsert, gs_Role = role, gs_ScopeType = ''router'', gs_ScopeID = rid\<rparr>],
                Made := Made plan + 1\<rparr>)"

definition delete_step :: GrantStep where
  "delete_step = \<lparr>gs_Op = GDelete, gs_Role = [], gs_ScopeType = [], gs_ScopeID = []\<rparr>"

definition PlanUserGrants :: "UserForGrants \<Rightarrow> string list \<Rightarrow> GrantPlan" where
  "PlanUserGrants u live =
     (if ug_ID u = [] then \<lparr>Steps = [], Warnings = [], Made = 0\<rparr>
      else let plan = \<lparr>Steps = [delete_step], Warnings = [], Made = 0\<rparr>;
               role = grantRole (ug_Role u);
               ids = truthyIDs (AllowedRouterIDs u)
           in if ids = []
              then plan\<lparr>Steps := Steps plan @ [\<lparr>gs_Op = GUpsert, gs_Role = role, gs_ScopeType = ''global'', gs_ScopeID = []\<rparr>],
                        Made := 1\<rparr>
              else foldl (plan_id (ug_Username u) role live) plan ids)"

text \<open>
  The plan carried out, each step its own statement: a failing step stops the rest and what was done
  stays. \<open>newID\<close> draws the identifier of the n-th grant.
\<close>

definition step_spec :: "string \<Rightarrow> string \<Rightarrow> GrantStep \<Rightarrow> GrantSpec" where
  "step_spec userID username st =
     \<lparr>sp_PrincipalType = ''user'', sp_PrincipalID = userID, sp_RoleID = [], sp_Role = gs_Role st,
      sp_ScopeType = gs_ScopeType st, sp_ScopeID = gs_ScopeID st, sp_CreatedBy = username\<rparr>"

definition run_step :: "(nat \<Rightarrow> string) \<Rightarrow> millis \<Rightarrow> string \<Rightarrow> string \<Rightarrow> nat \<Rightarrow> GrantStep \<Rightarrow> DB \<Rightarrow> DB result" where
  "run_step newID now userID username n st d =
     (case gs_Op st of
        GDelete \<Rightarrow> DeleteGrantsForPrincipal ''user'' userID d
      | GUpsert \<Rightarrow> upsertGrant (newID n) now (step_spec userID username st) d)"

fun run_steps ::
  "(nat \<Rightarrow> string) \<Rightarrow> millis \<Rightarrow> string \<Rightarrow> string \<Rightarrow> nat \<Rightarrow> GrantStep list \<Rightarrow> DB \<Rightarrow> string option \<times> DB" where
  "run_steps newID now userID username n [] d = (None, d)"
| "run_steps newID now userID username n (st # sts) d =
     (case run_step newID now userID username n st d of
        Inl e \<Rightarrow> (Some e, d)
      | Inr d1 \<Rightarrow> run_steps newID now userID username (Suc n) sts d1)"

definition user_plan :: "string \<Rightarrow> string \<Rightarrow> string \<Rightarrow> string list \<Rightarrow> string list \<Rightarrow> GrantPlan" where
  "user_plan userID username role allowed live =
     PlanUserGrants \<lparr>ug_ID = userID, ug_Username = username, ug_Role = role, AllowedRouterIDs = AStrs allowed\<rparr> live"

definition syncUserGrants ::
  "(nat \<Rightarrow> string) \<Rightarrow> millis \<Rightarrow> string list \<Rightarrow> string \<Rightarrow> string \<Rightarrow> string \<Rightarrow> string list \<Rightarrow> DB \<Rightarrow> string option \<times> DB" where
  "syncUserGrants newID now live userID username role allowed d =
     run_steps newID now userID username 0 (Steps (user_plan userID username role allowed live)) d"

definition wouldOrphanBySync ::
  "(nat \<Rightarrow> string) \<Rightarrow> millis \<Rightarrow> string list \<Rightarrow> string \<Rightarrow> string \<Rightarrow> string \<Rightarrow> string list \<Rightarrow> DB \<Rightarrow> bool result" where
  "wouldOrphanBySync newID now live userID username role allowed d =
     WouldOrphanGlobalAdmin
       (\<lambda>tx. case run_steps newID now userID username 0 (Steps (user_plan userID username role allowed live)) tx of
          (None, d1) \<Rightarrow> Inr d1 | (Some e, _) \<Rightarrow> Inl e) d"

section \<open>The account dialog\<close>

record AccessSummaryRow =
  SiteID :: string
  SiteName :: string
  RouterID :: string
  RouterLabel :: string
  RoleNames :: "string list"

record AccessSummary =
  sum_Global :: "string list"
  sum_Sites :: "AccessSummaryRow list"
  sum_Routers :: "AccessSummaryRow list"

definition no_summary :: AccessSummary where
  "no_summary = \<lparr>sum_Global = [], sum_Sites = [], sum_Routers = []\<rparr>"

text \<open>Sets of role identifiers, kept per scope in the order the scopes were first seen.\<close>

definition add_id :: "string \<Rightarrow> string list \<Rightarrow> string list" where
  "add_id i l = (if i \<in> set l then l else l @ [i])"

definition addTo :: "string \<Rightarrow> string \<Rightarrow> (string, string list) gomap \<Rightarrow> (string, string list) gomap" where
  "addTo key roleID m = goput key (add_id roleID (case golookup m key of Some l \<Rightarrow> l | None \<Rightarrow> [])) m"

record grant_view =
  v_global :: "string list"
  v_site :: "(string, string list) gomap"
  v_router :: "(string, string list) gomap"

definition view_grant :: "grant_view \<Rightarrow> Grant \<Rightarrow> grant_view" where
  "view_grant v g =
     (if ScopeType g = ''global'' then v\<lparr>v_global := add_id (RoleID g) (v_global v)\<rparr>
      else if ScopeType g = ''site'' then v\<lparr>v_site := addTo (ScopeID g) (RoleID g) (v_site v)\<rparr>
      else if ScopeType g = ''router'' then v\<lparr>v_router := addTo (ScopeID g) (RoleID g) (v_router v)\<rparr>
      else v)"

fun role_names :: "DB \<Rightarrow> string list \<Rightarrow> string list result" where
  "role_names d [] = Inr []"
| "role_names d (i # is) =
     (case GetRole d i of
        Inl e \<Rightarrow> Inl e
      | Inr role \<Rightarrow> (case role_names d is of
          Inl e \<Rightarrow> Inl e
        | Inr names \<Rightarrow> Inr (case role of None \<Rightarrow> names | Some row \<Rightarrow> rr_Name row # names)))"

definition roleNames :: "DB \<Rightarrow> string list \<Rightarrow> string list result" where
  "roleNames d ids = map_sum id sort (role_names d ids)"

fun site_rows :: "(string list \<Rightarrow> string list) \<Rightarrow> DB \<Rightarrow> (string, string list) gomap \<Rightarrow> AccessSummaryRow list \<times> string option" where
  "site_rows iter d [] = ([], None)"
| "site_rows iter d ((sid, ids) # m) =
     (case GetSite d sid of
        Inl e \<Rightarrow> ([], Some e)
      | Inr None \<Rightarrow> site_rows iter d m
      | Inr (Some site) \<Rightarrow>
          if st_Name site = [] then site_rows iter d m
          else (case roleNames d (iter ids) of
                  Inl e \<Rightarrow> ([], Some e)
                | Inr names \<Rightarrow> (case site_rows iter d m of (rows, err) \<Rightarrow>
                    (\<lparr>SiteID = sid, SiteName = st_Name site, RouterID = [], RouterLabel = [], RoleNames = names\<rparr> # rows, err))))"

text \<open>The label shown for a router: its own, or its host; the last record with the identifier counts.\<close>

definition router_label :: "Router list \<Rightarrow> string \<Rightarrow> string" where
  "router_label rs rid =
     (case golookup (foldl (\<lambda>m rt. goput (ID rt) rt m) [] rs) rid of
        None \<Rightarrow> []
      | Some rt \<Rightarrow> if Label rt = [] then Host rt else Label rt)"

fun router_rows ::
  "(string list \<Rightarrow> string list) \<Rightarrow> DB \<Rightarrow> Router list \<Rightarrow> (string, string list) gomap \<Rightarrow> AccessSummaryRow list \<times> string option" where
  "router_rows iter d rs [] = ([], None)"
| "router_rows iter d rs ((rid, ids) # m) =
     (if router_label rs rid = [] then router_rows iter d rs m
      else (case roleNames d (iter ids) of
              Inl e \<Rightarrow> ([], Some e)
            | Inr names \<Rightarrow> (case router_rows iter d rs m of (rows, err) \<Rightarrow>
                (\<lparr>SiteID = [], SiteName = [], RouterID = rid, RouterLabel = router_label rs rid, RoleNames = names\<rparr> # rows, err))))"

definition AccessSummaryFor :: "(string list \<Rightarrow> string list) \<Rightarrow> Resolver \<Rightarrow> string \<Rightarrow> AccessSummary \<times> string option" where
  "AccessSummaryFor iter r u =
     (case rv_db r of
        None \<Rightarrow> (no_summary, None)
      | Some d \<Rightarrow>
          if u = [] then (no_summary, None)
          else (case GrantsForUser d u of
            Inl e \<Rightarrow> (no_summary, Some e)
          | Inr grants \<Rightarrow>
              let v = foldl view_grant \<lparr>v_global = [], v_site = [], v_router = []\<rparr> grants
              in case roleNames d (iter (v_global v)) of
                   Inl e \<Rightarrow> (no_summary, Some e)
                 | Inr names \<Rightarrow>
                     (case site_rows iter d (v_site v) of
                        (sites, Some e) \<Rightarrow> (\<lparr>sum_Global = names, sum_Sites = sites, sum_Routers = []\<rparr>, Some e)
                      | (sites, None) \<Rightarrow>
                          (case router_rows iter d (rv_routers r) (v_router v) of
                             (routers, err) \<Rightarrow> (\<lparr>sum_Global = names, sum_Sites = sites, sum_Routers = routers\<rparr>, err)))))"

section \<open>The page union\<close>

definition iterates :: "(string list \<Rightarrow> string list) \<Rightarrow> bool" where
  "iterates iter \<longleftrightarrow> (\<forall>l. mset (iter l) = mset l)"

lemma iterates_set: "iterates iter \<Longrightarrow> set (iter l) = set l"
  by (metis iterates_def mset_eq_setD)

definition page_level :: "(string, string) gomap \<Rightarrow> string \<Rightarrow> int" where
  "page_level m p = (case golookup m p of None \<Rightarrow> 0 | Some a \<Rightarrow> accessRank a)"

text \<open>A map that records, for every page, the greatest access seen so far.\<close>

lemma add_page_level:
  assumes "Access p \<in> {''read'', ''write''}" "page_level m q \<in> {0, 1, 2}" "golookup m (Page p) \<in> {None, Some ''read'', Some ''write''}"
  shows "page_level (add_page m p) q = (if q = Page p then max (page_level m q) (accessRank (Access p)) else page_level m q)"
  using assms by (auto simp: add_page_def page_level_def gomap_simps accessRank_def)

definition levels_ok :: "(string, string) gomap \<Rightarrow> bool" where
  "levels_ok m \<longleftrightarrow> (\<forall>p. golookup m p \<in> {None, Some ''read'', Some ''write''})"

lemma levels_ok_range: "levels_ok m \<Longrightarrow> page_level m p \<in> {0, 1, 2}"
  unfolding levels_ok_def page_level_def by (drule spec [of _ p]) (auto simp: accessRank_def)

lemma add_page_ok: "levels_ok m \<Longrightarrow> Access p \<in> {''read'', ''write''} \<Longrightarrow> levels_ok (add_page m p)"
  by (auto simp: levels_ok_def add_page_def gomap_simps)

lemma add_pages_level:
  assumes "levels_ok m" "\<forall>p\<in>set ps. Access p \<in> {''read'', ''write''}" "0 < need"
  shows "levels_ok (foldl add_page m ps) \<and> (need \<le> page_level (foldl add_page m ps) q \<longleftrightarrow>
    need \<le> page_level m q \<or> (\<exists>p\<in>set ps. Page p = q \<and> need \<le> accessRank (Access p)))"
  using assms
proof (induction ps arbitrary: m)
  case (Cons p ps)
  have ok: "levels_ok (add_page m p)" by (rule add_page_ok) (use Cons.prems in auto)
  have lv: "page_level (add_page m p) q = (if q = Page p then max (page_level m q) (accessRank (Access p)) else page_level m q)"
    by (rule add_page_level) (use Cons.prems levels_ok_range levels_ok_def in auto)
  from Cons.IH [OF ok] Cons.prems(2,3) lv show ?case by auto
qed simp

lemma put_all_level:
  assumes "levels_ok m"
  shows "levels_ok (foldl (\<lambda>m p. goput p ''write'' m) m ps) \<and>
    page_level (foldl (\<lambda>m p. goput p ''write'' m) m ps) q = (if q \<in> set ps then 2 else page_level m q)"
  using assms
proof (induction ps arbitrary: m)
  case (Cons p ps)
  have "levels_ok (goput p ''write'' m)" using Cons.prems by (auto simp: levels_ok_def gomap_simps)
  from Cons.IH [OF this] show ?case by (auto simp: page_level_def gomap_simps accessRank_def)
qed simp

definition access_ok :: "DB \<Rightarrow> bool" where
  "access_ok d \<longleftrightarrow> (\<forall>(_, _, a)\<in>set (t_role_pages d). a \<in> {''read'', ''write''})"

lemma access_ok_pages:
  "access_ok d \<Longrightarrow> set ps = (\<lambda>(p, a). \<lparr>Page = p, Access = a\<rparr>) ` role_pages_of d i \<Longrightarrow>
   \<forall>p\<in>set ps. Access p \<in> {''read'', ''write''}"
  by (force simp: access_ok_def role_pages_of_def)

lemma merge_roles_level:
  assumes "access_ok d" "levels_ok m" "q \<in> set pages" "need \<in> {1, 2}" "merge_roles d pages is m = (m', None)"
  shows "need \<le> page_level m' q \<longleftrightarrow> need \<le> page_level m q \<or> (\<exists>i\<in>set is. role_has_page d i q need)"
  using assms
proof (induction "is" arbitrary: m)
  case (Cons i "is")
  from Cons.prems(5) obtain ro where ro: "RoleByID d i = Inr ro" by (auto split: sum.splits)
  note has = role_page_answer [OF ro, of q need] and ans = RoleByID_answer [OF ro]
  show ?case
  proof (cases ro)
    case None
    then show ?thesis using Cons ro has by simp
  next
    case (Some role)
    let ?m = "if Builtin role then foldl (\<lambda>m p. goput p ''write'' m) m pages else foldl add_page m (Pages role)"
    have rest: "merge_roles d pages is ?m = (m', None)" using Cons.prems(5) ro Some by simp
    have m1: "levels_ok ?m \<and> (need \<le> page_level ?m q \<longleftrightarrow> need \<le> page_level m q \<or> role_has_page d i q need)"
    proof (cases "Builtin role")
      case True
      then show ?thesis using put_all_level [OF Cons.prems(2), of pages q] Cons.prems(3,4) has Some by auto
    next
      case False
      with ans Some have "set (Pages role) = (\<lambda>(p, a). \<lparr>Page = p, Access = a\<rparr>) ` role_pages_of d i" by simp
      note acc = access_ok_pages [OF Cons.prems(1) this]
      have "0 < need" using Cons.prems(4) by auto
      from add_pages_level [OF Cons.prems(2) acc this, of q] has Some False show ?thesis by (simp add: list_ex_iff)
    qed
    from Cons.IH [OF Cons.prems(1) _ Cons.prems(3,4) rest] m1 show ?thesis by auto
  qed
qed simp

lemma seen_fold: "set (foldl (\<lambda>sn i. if i \<in> set sn then sn else sn @ [i]) seen l) = set seen \<union> set l"
  by (induction l arbitrary: seen) auto

lemma collect_roles_set:
  "collect_roles d rs u rids seen = Inr out \<Longrightarrow>
   set out = set seen \<union> {gr_role_id g | g rid rt. rid \<in> set rids \<and> List.find (\<lambda>rt. ID rt = rid) rs = Some rt \<and>
     reaches d u g \<and> covers rt g}"
proof (induction rids arbitrary: seen)
  case (Cons rid rids)
  from Cons.prems obtain ro where ro: "roleSetsInScope d rs u rid = Inr ro" by (auto split: sum.splits)
  from Cons.IH Cons.prems ro have ih: "set out = set seen \<union> set (case ro of None \<Rightarrow> [] | Some l \<Rightarrow> l) \<union>
      {gr_role_id g | g rid rt. rid \<in> set rids \<and> List.find (\<lambda>rt. ID rt = rid) rs = Some rt \<and> reaches d u g \<and> covers rt g}"
    by (simp add: seen_fold)
  have "set (case ro of None \<Rightarrow> [] | Some l \<Rightarrow> l) =
      {gr_role_id g | g rt. List.find (\<lambda>rt. ID rt = rid) rs = Some rt \<and> reaches d u g \<and> covers rt g}"
    using roleSets_answer [OF ro] by (auto split: option.splits)
  with ih show ?case by auto
qed simp

lemma fill_lists_readable:
  assumes "fill_lists r u scoped_lists no_routers = (c, None)"
  shows "EffectiveRouterIDs r u ''router:read'' = Inr (Readable c)"
proof -
  obtain ids where ids: "EffectiveRouterIDs r u ''router:read'' = Inr ids"
    using assms by (auto simp: scoped_lists_def split: sum.splits)
  with Effective_truthful [of r u "''router:read''"] have "sort ids = ids"
    by (simp add: truthful_def sorted_sort_id)
  with assms ids show ?thesis by (auto simp: scoped_lists_def no_routers_def split: sum.splits)
qed

lemma level_write: "levels_ok m \<Longrightarrow> golookup m p = Some ''write'' \<longleftrightarrow> 2 \<le> page_level m p"
  unfolding levels_ok_def page_level_def by (drule spec [of _ p]) (auto simp: accessRank_def)

lemma level_read: "levels_ok m \<Longrightarrow> golookup m p \<noteq> None \<longleftrightarrow> 1 \<le> page_level m p"
  unfolding levels_ok_def page_level_def by (drule spec [of _ p]) (auto simp: accessRank_def)

lemma merge_roles_ok:
  "access_ok d \<Longrightarrow> levels_ok m \<Longrightarrow> merge_roles d pages is m = (m', None) \<Longrightarrow> levels_ok m'"
proof (induction "is" arbitrary: m)
  case (Cons i "is")
  from Cons.prems(3) obtain ro where ro: "RoleByID d i = Inr ro" by (auto split: sum.splits)
  show ?case
  proof (cases ro)
    case None
    then show ?thesis using Cons ro by simp
  next
    case (Some role)
    have "levels_ok (if Builtin role then foldl (\<lambda>m p. goput p ''write'' m) m pages else foldl add_page m (Pages role))"
      using put_all_level [OF Cons.prems(2), of pages] add_pages_level [OF Cons.prems(2), of "Pages role" 1]
        access_ok_pages [OF Cons.prems(1), of "Pages role" i] RoleByID_answer [OF ro] Some by auto
    then show ?thesis using Cons.IH [OF Cons.prems(1)] Cons.prems(3) ro Some by simp
  qed
qed simp

lemma levels_ok_Nil: "levels_ok []"
  by (simp add: levels_ok_def)

lemma Capabilities_parts:
  assumes "rv_db r = Some d" "u \<noteq> []" "CapabilitiesFor iter r u = (caps, None)"
  obtains seen where "EffectiveRouterIDs r u ''router:read'' = Inr (cap_Readable caps)"
    "collect_roles d (rv_routers r) u (cap_Readable caps) [] = Inr seen"
    "merge_roles d (rv_pages r) (iter seen) [] = (cap_Pages caps, None)"
proof -
  obtain c e where f: "fill_lists r u scoped_lists no_routers = (c, e)" by (cases "fill_lists r u scoped_lists no_routers")
  have e: "e = None" using assms f by (cases e) (auto simp: CapabilitiesFor_def Let_def)
  then obtain seen where s: "collect_roles d (rv_routers r) u (Readable c) [] = Inr seen"
    using assms f by (auto simp: CapabilitiesFor_def Let_def split: sum.splits)
  obtain m err where m: "merge_roles d (rv_pages r) (iter seen) [] = (m, err)"
    by (cases "merge_roles d (rv_pages r) (iter seen) []")
  have "err = None \<and> cap_Pages caps = m \<and> cap_Readable caps = Readable c"
    using assms f e s m by (auto simp: CapabilitiesFor_def Let_def)
  with that s m fill_lists_readable [of r u c] f e show ?thesis by simp
qed

lemma page_union:
  assumes "iterates iter" "access_ok d" "rv_db r = Some d" "u \<noteq> []" "CapabilitiesFor iter r u = (caps, None)"
    and "page \<in> set (rv_pages r)" "accessRank access = need" "need \<in> {1, 2}"
  shows "levels_ok (cap_Pages caps)"
    and "need \<le> page_level (cap_Pages caps) page \<longleftrightarrow> (\<exists>rid. may r u ''router:read'' rid \<and> may_page r u page access rid)"
proof -
  obtain seen where s: "EffectiveRouterIDs r u ''router:read'' = Inr (cap_Readable caps)"
    "collect_roles d (rv_routers r) u (cap_Readable caps) [] = Inr seen"
    "merge_roles d (rv_pages r) (iter seen) [] = (cap_Pages caps, None)"
    using Capabilities_parts [OF assms(3-5)] by blast
  show "levels_ok (cap_Pages caps)" by (rule merge_roles_ok [OF assms(2) levels_ok_Nil s(3)])
  have mem: "rid \<in> set (map ID (rv_routers r)) \<and> rid \<noteq> []" if "may r u ''router:read'' rid" for rid
    using that by (auto simp: may_def router_of_def GlobalOnly_def find_Some_iff)
  have rd: "set (cap_Readable caps) = {rid. may r u ''router:read'' rid}"
    using Effective_truthful [of r u "''router:read''"] s(1) mem by (auto simp: truthful_def)
  have sn: "set seen = {gr_role_id g | g rid rt. may r u ''router:read'' rid \<and> router_of r rid = Some rt \<and> reaches d u g \<and> covers rt g}"
    using collect_roles_set [OF s(2)] unfolding rd router_of_def by simp
  have mp: "may_page r u page access rid \<longleftrightarrow> rid \<noteq> [] \<and>
      (\<exists>rt g. router_of r rid = Some rt \<and> reaches d u g \<and> covers rt g \<and> role_has_page d (gr_role_id g) page need)" for rid
    using assms(3,4,6,7,8) unfolding may_page_def by auto
  have "need \<le> page_level (cap_Pages caps) page \<longleftrightarrow> (\<exists>i\<in>set seen. role_has_page d i page need)"
    using merge_roles_level [OF assms(2) levels_ok_Nil assms(6,8) s(3)] assms(8) iterates_set [OF assms(1)]
    by (auto simp: page_level_def)
  also have "\<dots> \<longleftrightarrow> (\<exists>rid. may r u ''router:read'' rid \<and> may_page r u page access rid)"
    unfolding sn mp using mem by blast
  finally show "need \<le> page_level (cap_Pages caps) page \<longleftrightarrow> (\<exists>rid. may r u ''router:read'' rid \<and> may_page r u page access rid)" .
qed

text \<open>
  The pages shown at first paint are the union over the routers the user may read, and write wins: a page
  is offered for writing exactly when some readable router allows it, and at all exactly when some
  readable router allows reading it, in whatever order the roles are visited.
\<close>

theorem capabilities_union:
  assumes "iterates iter" "access_ok d" "rv_db r = Some d" "u \<noteq> []" "CapabilitiesFor iter r u = (caps, None)"
    and "page \<in> set (rv_pages r)"
  shows "(golookup (cap_Pages caps) page = Some ''write'' \<longleftrightarrow>
      (\<exists>rid. may r u ''router:read'' rid \<and> may_page r u page ''write'' rid)) \<and>
    (golookup (cap_Pages caps) page \<noteq> None \<longleftrightarrow>
      (\<exists>rid. may r u ''router:read'' rid \<and> may_page r u page ''read'' rid))"
  using page_union [OF assms, of "''write''" 2] page_union [OF assms, of "''read''" 1]
  by (simp_all add: accessRank_def level_write level_read del: not_None_eq)

theorem capabilities_union_witness:
  "(golookup (cap_Pages (fst (CapabilitiesFor rev demo ''ann''))) ''dns'' = Some ''write'' \<longleftrightarrow>
     (\<exists>rid. may demo ''ann'' ''router:read'' rid \<and> may_page demo ''ann'' ''dns'' ''write'' rid)) \<and>
   (golookup (cap_Pages (fst (CapabilitiesFor rev demo ''ann''))) ''dns'' \<noteq> None \<longleftrightarrow>
     (\<exists>rid. may demo ''ann'' ''router:read'' rid \<and> may_page demo ''ann'' ''dns'' ''read'' rid))"
proof (rule capabilities_union)
  show "iterates rev" by (simp add: iterates_def)
  show "access_ok demo_db" by code_simp
  show "rv_db demo = Some demo_db" by (simp add: demo_def)
  show "''ann'' \<noteq> []" by simp
  have "snd (CapabilitiesFor rev demo ''ann'') = None" by code_simp
  then show "CapabilitiesFor rev demo ''ann'' = (fst (CapabilitiesFor rev demo ''ann''), None)" by (metis prod.collapse)
  show "''dns'' \<in> set (rv_pages demo)" by code_simp
qed

section \<open>Stripping\<close>

lemma strip_fields_spec:
  "distinct ks \<Longrightarrow> case strip_fields ks b of (dropped, b') \<Rightarrow>
     dropped = filter (\<lambda>k. golookup b k \<noteq> None) ks \<and>
     (\<forall>k. golookup b' k = (if k \<in> set ks then None else golookup b k))"
proof (induction ks arbitrary: b)
  case (Cons k ks)
  show ?case
  proof (cases "golookup b k")
    case None
    then show ?thesis using Cons.IH [of b] Cons.prems by (auto split: prod.splits)
  next
    case (Some v)
    have "filter (\<lambda>k'. golookup (godelete k b) k' \<noteq> None) ks = filter (\<lambda>k'. golookup b k' \<noteq> None) ks"
      using Cons.prems by (intro filter_cong) (auto simp: gomap_simps)
    then show ?thesis using Cons.IH [of "godelete k b"] Cons.prems Some by (auto simp: gomap_simps split: prod.splits)
  qed
qed simp

text \<open>
  A router edit by anybody who may not manage principals loses every privileged field and nothing else,
  and the fields it loses are reported; the edit of an administrator is left as it is.
\<close>

theorem strip_privileged_exact:
  "case StripPrivilegedRouterFields (Some body) mayManage of
     (dropped, Some body') \<Rightarrow>
       if mayManage then dropped = [] \<and> body' = body
       else dropped = filter (\<lambda>k. golookup body k \<noteq> None) privilegedRouterFields \<and>
         (\<forall>k. golookup body' k = (if k \<in> set privilegedRouterFields then None else golookup body k))
   | (_, None) \<Rightarrow> False"
proof -
  have "distinct privilegedRouterFields" by code_simp
  from strip_fields_spec [OF this, of body] show ?thesis
    by (auto simp: StripPrivilegedRouterFields_def split: prod.splits)
qed

section \<open>Grants from a user record\<close>

definition router_step :: "string \<Rightarrow> string \<Rightarrow> GrantStep" where
  "router_step role rid = \<lparr>gs_Op = GUpsert, gs_Role = role, gs_ScopeType = ''router'', gs_ScopeID = rid\<rparr>"

definition global_step :: "string \<Rightarrow> GrantStep" where
  "global_step role = \<lparr>gs_Op = GUpsert, gs_Role = role, gs_ScopeType = ''global'', gs_ScopeID = []\<rparr>"

lemma plan_ids:
  "foldl (plan_id user role live) plan ids =
   plan\<lparr>Steps := Steps plan @ map (router_step role) (filter (\<lambda>i. i \<in> set live) ids),
        Warnings := Warnings plan @ map (warn_dropped user) (filter (\<lambda>i. i \<notin> set live) ids),
        Made := Made plan + int (length (filter (\<lambda>i. i \<in> set live) ids))\<rparr>"
  by (induction ids arbitrary: plan) (auto simp: plan_id_def router_step_def)

lemma PlanUserGrants_eq:
  "ug_ID u \<noteq> [] \<Longrightarrow> PlanUserGrants u live =
   (let role = grantRole (ug_Role u); ids = truthyIDs (AllowedRouterIDs u); known = filter (\<lambda>i. i \<in> set live) ids
    in if ids = [] then \<lparr>Steps = [delete_step, global_step role], Warnings = [], Made = 1\<rparr>
       else \<lparr>Steps = delete_step # map (router_step role) known,
             Warnings = map (warn_dropped (ug_Username u)) (filter (\<lambda>i. i \<notin> set live) ids), Made = int (length known)\<rparr>)"
  by (simp add: PlanUserGrants_def plan_ids global_step_def Let_def)

text \<open>The grants held by a user directly, and every other grant.\<close>

definition direct :: "string \<Rightarrow> DB \<Rightarrow> (string \<times> string \<times> string) set" where
  "direct u d = {(gr_role_id g, gr_scope_type g, gr_scope_id g) | g.
     g \<in> set (t_grants d) \<and> gr_principal_type g = ''user'' \<and> gr_principal_id g = u}"

definition others :: "string \<Rightarrow> DB \<Rightarrow> GrantRow list" where
  "others u d = filter (\<lambda>g. \<not> (gr_principal_type g = ''user'' \<and> gr_principal_id g = u)) (t_grants d)"

definition no_faults :: "DB \<Rightarrow> bool" where
  "no_faults d \<longleftrightarrow> sql_open d \<and> (\<forall>q. fault d q = None)"

lemma no_faults_query [simp]: "no_faults d \<Longrightarrow> query_fault d q = None"
  by (simp add: no_faults_def query_fault_def)

lemma no_faults_upd [simp]: "no_faults (d\<lparr>t_grants := gs\<rparr>) = no_faults d" "find_role (d\<lparr>t_grants := gs\<rparr>) = find_role d"
  by (auto simp: no_faults_def find_role_def)

lemma delete_direct:
  "no_faults d \<Longrightarrow> \<exists>d1. DeleteGrantsForPrincipal ''user'' u d = Inr d1 \<and> no_faults d1 \<and> find_role d1 = find_role d \<and>
     direct u d1 = {} \<and> others u d1 = others u d"
  by (auto simp: DeleteGrantsForPrincipal_def direct_def others_def)

abbreviation scope_key :: "GrantRow \<Rightarrow> string \<times> string" where
  "scope_key g \<equiv> (gr_scope_type g, gr_scope_id g)"

lemma direct_image:
  "direct u d = (\<lambda>g. (gr_role_id g, scope_key g)) ` {g \<in> set (t_grants d). gr_principal_type g = ''user'' \<and> gr_principal_id g = u}"
  unfolding direct_def by blast

lemma image_override:
  assumes "\<exists>g\<in>S. k g = k0"
  shows "(\<lambda>g. if k g = k0 then (r0, k0) else (r g, k g)) ` S = insert (r0, k0) {x \<in> (\<lambda>g. (r g, k g)) ` S. snd x \<noteq> k0}"
  using assms by (auto simp: image_iff)

lemma on_conflict_sel:
  "gr_principal_type (on_conflict g new) = gr_principal_type g" "gr_principal_id (on_conflict g new) = gr_principal_id g"
  "gr_scope_type (on_conflict g new) = gr_scope_type g" "gr_scope_id (on_conflict g new) = gr_scope_id g"
  "gr_role_id (on_conflict g new) = gr_role_id new"
  by (simp_all add: on_conflict_def)

lemma t_grants_upd: "t_grants (d\<lparr>t_grants := gs\<rparr>) = gs"
  by simp

lemma insert_grant_direct:
  assumes "gr_principal_type new = ''user''" "gr_principal_id new = u"
  shows "direct u (d\<lparr>t_grants := insert_grant new (t_grants d)\<rparr>) =
      insert (gr_role_id new, scope_key new) {x \<in> direct u d. snd x \<noteq> scope_key new}"
proof -
  define S where "S = {g \<in> set (t_grants d). gr_principal_type g = ''user'' \<and> gr_principal_id g = u}"
  have key: "same_key g new \<longleftrightarrow> gr_principal_type g = ''user'' \<and> gr_principal_id g = u \<and> scope_key g = scope_key new" for g
    using assms by (auto simp: same_key_def)
  show ?thesis
  proof (cases "\<exists>g\<in>set (t_grants d). same_key g new")
    case True
    then have ex: "\<exists>g\<in>S. scope_key g = scope_key new" unfolding S_def key by blast
    have "direct u (d\<lparr>t_grants := insert_grant new (t_grants d)\<rparr>) =
        (\<lambda>g. if scope_key g = scope_key new then (gr_role_id new, scope_key new) else (gr_role_id g, scope_key g)) ` S"
    proof -
      let ?f = "\<lambda>g. if same_key g new then on_conflict g new else g"
      have "insert_grant new (t_grants d) = map ?f (t_grants d)" using True by (simp add: insert_grant_def)
      moreover have "{h \<in> set (map ?f (t_grants d)). gr_principal_type h = ''user'' \<and> gr_principal_id h = u} = ?f ` S"
        unfolding S_def by (auto simp: on_conflict_sel)
      ultimately have "direct u (d\<lparr>t_grants := insert_grant new (t_grants d)\<rparr>) = (\<lambda>g. (gr_role_id g, scope_key g)) ` ?f ` S"
        unfolding direct_image by (simp only: t_grants_upd)
      also have "\<dots> = (\<lambda>g. if scope_key g = scope_key new then (gr_role_id new, scope_key new) else (gr_role_id g, scope_key g)) ` S"
        unfolding image_image by (rule image_cong) (auto simp: S_def key on_conflict_sel)
      finally show ?thesis .
    qed
    also have "\<dots> = insert (gr_role_id new, scope_key new) {x \<in> direct u d. snd x \<noteq> scope_key new}"
      unfolding direct_image S_def [symmetric] by (rule image_override [OF ex])
    finally show ?thesis .
  next
    case False
    then have "direct u (d\<lparr>t_grants := insert_grant new (t_grants d)\<rparr>) = insert (gr_role_id new, scope_key new) (direct u d)"
      using assms unfolding direct_image insert_grant_def by auto
    moreover have "snd x \<noteq> scope_key new" if "x \<in> direct u d" for x
      using that False unfolding direct_image key by auto
    ultimately show ?thesis by auto
  qed
qed

lemma insert_grant_others:
  assumes "gr_principal_type new = ''user''" "gr_principal_id new = u"
  shows "others u (d\<lparr>t_grants := insert_grant new (t_grants d)\<rparr>) = others u d"
proof -
  let ?other = "\<lambda>g. \<not> (gr_principal_type g = ''user'' \<and> gr_principal_id g = u)"
  have "filter ?other (map (\<lambda>g. if same_key g new then on_conflict g new else g) gs) = filter ?other gs" for gs
    using assms by (induction gs) (auto simp: same_key_def on_conflict_sel)
  then show ?thesis using assms by (auto simp: others_def insert_grant_def)
qed

definition legacy_id :: "string \<Rightarrow> string" where
  "legacy_id role = (if role = ''admin'' then ''administrator'' else if role = ''operator'' then ''operator'' else ''readonly'')"

lemma resolve_legacy: "gs_Role st = grantRole role \<Longrightarrow> resolveRoleID (step_spec u n st) = legacy_id role"
  by (auto simp: resolveRoleID_def step_spec_def grantRole_def legacy_id_def legacyRoleIDs_def)

lemma TrimSpace_user: "TrimSpace ''user'' = ''user''"
  by (rule TrimSpace_graphic) code_simp+

lemma upsert_direct:
  assumes "no_faults d" "TrimSpace u \<noteq> []" "gs_Op st = GUpsert" "gs_Role st = grantRole role"
    "find_role d (legacy_id role) \<noteq> None"
    "gs_ScopeType st = ''global'' \<and> gs_ScopeID st = [] \<or> gs_ScopeType st = ''router'' \<and> gs_ScopeID st \<noteq> []"
  shows "\<exists>d1. run_step newID now u name n st d = Inr d1 \<and> no_faults d1 \<and> find_role d1 = find_role d \<and>
    direct u d1 = insert (legacy_id role, gs_ScopeType st, gs_ScopeID st)
      {x \<in> direct u d. snd x \<noteq> (gs_ScopeType st, gs_ScopeID st)} \<and> others u d1 = others u d"
proof -
  let ?row = "\<lparr>gr_id = newID n, gr_principal_type = ''user'', gr_principal_id = u, gr_role_id = legacy_id role,
      gr_role = LegacyMirror (legacy_id role), gr_scope_type = gs_ScopeType st, gr_scope_id = gs_ScopeID st,
      gr_created_at = now, gr_created_by = (if name \<noteq> [] then Some name else None)\<rparr>"
  have sc: "scopeIDFor (step_spec u name st) = gs_ScopeID st"
    using assms(6) by (auto simp: scopeIDFor_def step_spec_def)
  have "grant_checks d ?row" using assms(5,6) by (auto simp: grant_checks_def)
  then have "run_step newID now u name n st d = Inr (d\<lparr>t_grants := insert_grant ?row (t_grants d)\<rparr>)"
    using assms(1-3) resolve_legacy [OF assms(4)] sc TrimSpace_user
    by (cases "name = []") (simp add: run_step_def upsertGrant_def Let_def, simp add: step_spec_def)+
  then show ?thesis using assms(1) insert_grant_direct [of ?row u d] insert_grant_others [of ?row u d] by simp
qed

lemma run_upserts:
  assumes "no_faults d" "TrimSpace u \<noteq> []" "find_role d (legacy_id role) \<noteq> None" "[] \<notin> set rids"
    "direct u d \<subseteq> {(legacy_id role, ''router'', rid) | rid. True}"
  shows "\<exists>d1. run_steps newID now u name n (map (router_step (grantRole role)) rids) d = (None, d1) \<and>
    direct u d1 = direct u d \<union> {(legacy_id role, ''router'', rid) | rid. rid \<in> set rids} \<and> others u d1 = others u d"
  using assms
proof (induction rids arbitrary: n d)
  case (Cons rid rids)
  from upsert_direct [OF Cons.prems(1,2), of "router_step (grantRole role) rid" role newID now name n] Cons.prems(3,4)
  obtain d1 where d1: "run_step newID now u name n (router_step (grantRole role) rid) d = Inr d1" "no_faults d1"
    "find_role d1 = find_role d" "others u d1 = others u d"
    "direct u d1 = insert (legacy_id role, ''router'', rid) {x \<in> direct u d. snd x \<noteq> (''router'', rid)}"
    by (auto simp: router_step_def)
  have "direct u d1 = insert (legacy_id role, ''router'', rid) (direct u d)" using d1(5) Cons.prems(5) by auto
  moreover have "\<exists>d2. run_steps newID now u name (Suc n) (map (router_step (grantRole role)) rids) d1 = (None, d2) \<and>
      direct u d2 = direct u d1 \<union> {(legacy_id role, ''router'', rid) | rid. rid \<in> set rids} \<and> others u d2 = others u d1"
    using Cons.prems d1 calculation by (intro Cons.IH) auto
  ultimately show ?case using d1 by auto
qed simp

text \<open>
  C17. Writing a user's grants leaves exactly what the record stands for, whatever the user held before: with
  no router named, one grant of the role for the whole install; otherwise a grant of the role on each
  named router that exists and none elsewhere, which is no grant at all when none exists. Nobody
  else's grants change. Faults aside, the writing always succeeds.
\<close>

theorem sync_grants_exact:
  assumes "no_faults d" "TrimSpace userID \<noteq> []" "find_role d (legacy_id role) \<noteq> None"
  shows "\<exists>d1. syncUserGrants newID now live userID username role allowed d = (None, d1) \<and> others userID d1 = others userID d \<and>
    direct userID d1 =
      (if set allowed \<subseteq> {[]} then {(legacy_id role, ''global'', [])}
       else {(legacy_id role, ''router'', rid) | rid. rid \<in> set allowed \<and> rid \<noteq> [] \<and> rid \<in> set live})"
proof -
  have ne: "userID \<noteq> []" using assms(2) by auto
  obtain d0 where d0: "DeleteGrantsForPrincipal ''user'' userID d = Inr d0" "no_faults d0" "find_role d0 = find_role d"
    "direct userID d0 = {}" "others userID d0 = others userID d" using delete_direct [OF assms(1)] by blast
  have del: "run_step newID now userID username 0 delete_step d = Inr d0" using d0(1) by (simp add: run_step_def delete_step_def)
  show ?thesis
  proof (cases "set allowed \<subseteq> {[]}")
    case True
    then have "filter (\<lambda>s. s \<noteq> []) allowed = []" by (auto simp: filter_empty_conv)
    then have st: "Steps (user_plan userID username role allowed live) = [delete_step, global_step (grantRole role)]"
      using ne by (simp add: user_plan_def PlanUserGrants_eq truthyIDs_def Let_def)
    from upsert_direct [OF d0(2) assms(2), of "global_step (grantRole role)" role newID now username "Suc 0"] assms(3) d0(3,4)
    obtain d1 where "run_step newID now userID username (Suc 0) (global_step (grantRole role)) d0 = Inr d1"
      "direct userID d1 = {(legacy_id role, ''global'', [])}" "others userID d1 = others userID d0"
      by (auto simp: global_step_def)
    then show ?thesis using True d0(5) del st by (simp add: syncUserGrants_def)
  next
    case False
    let ?rids = "filter (\<lambda>i. i \<in> set live) (filter (\<lambda>s. s \<noteq> []) allowed)"
    from False have "filter (\<lambda>s. s \<noteq> []) allowed \<noteq> []" by (auto simp: filter_empty_conv)
    then have st: "Steps (user_plan userID username role allowed live) = delete_step # map (router_step (grantRole role)) ?rids"
      using ne by (simp add: user_plan_def PlanUserGrants_eq truthyIDs_def Let_def)
    have fr: "find_role d0 (legacy_id role) \<noteq> None" using assms(3) d0(3) by simp
    from run_upserts [OF d0(2) assms(2) fr, of ?rids newID now username "Suc 0"] d0(4)
    obtain d1 where "run_steps newID now userID username (Suc 0) (map (router_step (grantRole role)) ?rids) d0 = (None, d1)"
      "direct userID d1 = {(legacy_id role, ''router'', rid) | rid. rid \<in> set ?rids}" "others userID d1 = others userID d0"
      by auto
    then show ?thesis using False d0(5) del st by (auto simp: syncUserGrants_def)
  qed
qed

theorem sync_grants_exact_witness:
  "\<exists>d1. syncUserGrants (\<lambda>_. ''g9'') 0 [''r1''] ''ann'' ''ann'' ''admin'' [''r1'', ''r9''] demo_db = (None, d1) \<and>
     others ''ann'' d1 = others ''ann'' demo_db \<and> direct ''ann'' d1 = {(''administrator'', ''router'', ''r1'')}"
proof -
  have "no_faults demo_db" by (simp add: no_faults_def demo_db_def)
  moreover have "TrimSpace ''ann'' \<noteq> []" by code_simp
  moreover have "find_role demo_db (legacy_id ''admin'') \<noteq> None" by code_simp
  ultimately show ?thesis
    using sync_grants_exact [of demo_db "''ann''" "''admin''" "\<lambda>_. ''g9''" 0 "[''r1'']" "''ann''" "[''r1'', ''r9'']"]
    by (auto simp: legacy_id_def)
qed

section \<open>The last administrator\<close>

text \<open>Who the probe counts is who the resolver lets manage principals.\<close>

lemma admins_agree:
  assumes "roles_ok d" "u \<noteq> []" "rv_db r = Some d"
  shows "u \<in> set (globalAdminQuery d) \<longleftrightarrow> may r u ''system:principals'' rid"
  using assms builtin_ids_iff [OF assms(1)]
  unfolding globalAdminQuery_iff may_def role_has_perm_def is_builtin_def
  by (auto simp: GlobalOnly_def known_def)

lemma Can_no_faults: "rv_db r = Some d \<Longrightarrow> no_faults d \<Longrightarrow> Can r u perm rid = Inr (may r u perm rid)"
  using Can_truthful [of r u perm rid] by (auto simp: truthful_def faulty_db_def split: sum.splits)

text \<open>
  C18. The last-administrator guard works: when the probe answers that a change would not orphan
  administration, then after the change somebody may still manage principals, by the resolver's own
  answer. The probe runs the very change, so what it clears is what is applied.
\<close>

theorem guarded_change_keeps_admin:
  assumes "WouldOrphanGlobalAdmin mutate d = Inr False" "mutate d = Inr d1"
    and "roles_ok d1" "no_faults d1" "[] \<notin> set (globalAdminQuery d1)"
  shows "\<exists>u. Can (New_Resolver (Some d1) routers) u ''system:principals'' [] = Inr True"
proof -
  have "globalAdminQuery d1 \<noteq> []"
    using assms(1,2,4) by (auto simp: WouldOrphanGlobalAdmin_def GlobalAdminUserIDs_def split: option.splits)
  then obtain u where u: "u \<in> set (globalAdminQuery d1)" by (cases "globalAdminQuery d1") auto
  moreover have "u \<noteq> []" using u assms(5) by metis
  ultimately have "may (New_Resolver (Some d1) routers) u ''system:principals'' []"
    using admins_agree [OF assms(3)] by (simp add: New_Resolver_def)
  then show ?thesis using Can_no_faults [of "New_Resolver (Some d1) routers" d1] assms(4) by (auto simp: New_Resolver_def)
qed

definition demo_change :: "DB \<Rightarrow> DB result" where
  "demo_change = DeleteGrantsForPrincipal ''group'' ''noc''"

theorem guarded_change_keeps_admin_witness:
  "WouldOrphanGlobalAdmin demo_change demo_db = Inr False \<and>
   (\<exists>u. Can (New_Resolver (Some (demo_db\<lparr>t_grants := drop 1 (t_grants demo_db)\<rparr>)) []) u ''system:principals'' [] = Inr True)"
proof
  show a: "WouldOrphanGlobalAdmin demo_change demo_db = Inr False" by code_simp
  let ?d1 = "demo_db\<lparr>t_grants := drop 1 (t_grants demo_db)\<rparr>"
  show "\<exists>u. Can (New_Resolver (Some ?d1) []) u ''system:principals'' [] = Inr True"
  proof (rule guarded_change_keeps_admin [OF a])
    show "demo_change demo_db = Inr ?d1"
      by (simp add: demo_change_def DeleteGrantsForPrincipal_def demo_db_def query_fault_def)
    show "roles_ok ?d1" by code_simp
    show "no_faults ?d1" by (simp add: no_faults_def demo_db_def)
    show "[] \<notin> set (globalAdminQuery ?d1)" by code_simp
  qed
qed

end
