(* ===== verification/Spans.thy ===== *)
theory Spans
  imports Go_Strings
begin

text \<open>
  A router's connectivity over a window (\<^verbatim>\<open>internal/history/spans.go\<close>), which routers are observed
  (\<^verbatim>\<open>coverage.go\<close>), and the record of a write that can be undone (\<^verbatim>\<open>history.go\<close>).

  The percentage is a floating-point quotient of two of the numbers computed here; the model carries
  the two numbers.
\<close>

section \<open>The strip\<close>

record ConnEvent =
  TS :: millis
  Connected :: bool

record Run =
  rFrom :: millis
  rTo :: millis

datatype SpanState = SpanUp | SpanDown | SpanUnmonitored

record Span =
  From :: millis
  To :: millis
  State :: SpanState

record SpanInput =
  in_From :: millis
  in_To :: millis
  Before :: "bool option"
  Events :: "ConnEvent list"
  Runs :: "Run list"

text \<open>\<open>UptimePct\<close> is the quotient of the pair, to one decimal; nil when nothing was monitored.\<close>

record SpanResult =
  res_Spans :: "Span list"
  UptimePct :: "(int \<times> int) option"
  MonitoredMs :: millis

definition clip_run :: "millis \<Rightarrow> millis \<Rightarrow> Run \<Rightarrow> Run" where
  "clip_run f t r = \<lparr>rFrom = (if rFrom r < f then f else rFrom r), rTo = (if t < rTo r then t else rTo r)\<rparr>"

definition merge_run :: "Run list \<Rightarrow> Run \<Rightarrow> Run list" where
  "merge_run out r =
     (if out \<noteq> [] \<and> rFrom r \<le> rTo (last out)
      then (if rTo (last out) < rTo r then butlast out @ [(last out)\<lparr>rTo := rTo r\<rparr>] else out)
      else out @ [r])"

definition unionRuns :: "Run list \<Rightarrow> millis \<Rightarrow> millis \<Rightarrow> Run list" where
  "unionRuns runs f t =
     foldl merge_run [] (sort_key rFrom (filter (\<lambda>r. rFrom r < rTo r) (map (clip_run f t) runs)))"

definition isCovered :: "Run list \<Rightarrow> millis \<Rightarrow> bool" where
  "isCovered runs t \<longleftrightarrow> list_ex (\<lambda>r. rFrom r \<le> t \<and> t < rTo r) runs"

text \<open>The events at or before the window's start, folded into the state, and those inside it.\<close>

fun split_events :: "SpanInput \<Rightarrow> ConnEvent list \<Rightarrow> bool option \<Rightarrow> ConnEvent list \<Rightarrow> bool option \<times> ConnEvent list" where
  "split_events i [] st inside = (st, inside)"
| "split_events i (e # es) st inside =
     (if TS e \<le> in_From i then split_events i es (Some (Connected e)) inside
      else if TS e < in_To i then split_events i es st (inside @ [e])
      else split_events i es st inside)"

fun advance :: "millis \<Rightarrow> bool option \<Rightarrow> ConnEvent list \<Rightarrow> bool option \<times> ConnEvent list" where
  "advance a st [] = (st, [])"
| "advance a st (e # es) = (if TS e \<le> a then advance a (Some (Connected e)) es else (st, e # es))"

definition add_span :: "Span list \<Rightarrow> millis \<Rightarrow> millis \<Rightarrow> SpanState \<Rightarrow> Span list" where
  "add_span out a b st =
     (if out \<noteq> [] \<and> State (last out) = st \<and> To (last out) = a
      then butlast out @ [(last out)\<lparr>To := b\<rparr>]
      else out @ [\<lparr>From = a, To = b, State = st\<rparr>])"

definition span_state :: "Run list \<Rightarrow> bool option \<Rightarrow> millis \<Rightarrow> SpanState" where
  "span_state cov st a =
     (case st of
        Some c \<Rightarrow> if isCovered cov a then (if c then SpanUp else SpanDown) else SpanUnmonitored
      | None \<Rightarrow> SpanUnmonitored)"

fun span_loop ::
  "Run list \<Rightarrow> bool option \<Rightarrow> ConnEvent list \<Rightarrow> millis list \<Rightarrow> Span list \<times> int \<times> int \<Rightarrow> Span list \<times> int \<times> int" where
  "span_loop cov st inside (a # b # cuts) (out, upMs, downMs) =
     (if b \<le> a then span_loop cov st inside (b # cuts) (out, upMs, downMs)
      else case advance a st inside of (st1, inside1) \<Rightarrow>
        let s = span_state cov st1 a
        in span_loop cov st1 inside1 (b # cuts)
             (add_span out a b s,
              if s = SpanUp then upMs + (b - a) else upMs,
              if s = SpanDown then downMs + (b - a) else downMs))"
| "span_loop cov st inside cuts acc = acc"

definition Spans :: "SpanInput \<Rightarrow> SpanResult" where
  "Spans i =
     (if in_To i \<le> in_From i then \<lparr>res_Spans = [], UptimePct = None, MonitoredMs = 0\<rparr>
      else
        let cov = unionRuns (Runs i) (in_From i) (in_To i)
        in case split_events i (sort_key TS (Events i)) (Before i) [] of
             (st, inside) \<Rightarrow>
               let cuts = sort ([in_From i, in_To i] @ map TS inside @ concat (map (\<lambda>r. [rFrom r, rTo r]) cov))
               in case span_loop cov st inside cuts ([], 0, 0) of
                    (out, upMs, downMs) \<Rightarrow>
                      \<lparr>res_Spans = out,
                       UptimePct = (if 0 < upMs + downMs then Some (upMs, upMs + downMs) else None),
                       MonitoredMs = upMs + downMs\<rparr>)"

section \<open>What the strip means\<close>

text \<open>The router's state at a moment: the last event at or before it, or what was known before.\<close>

definition latest :: "bool option \<Rightarrow> ConnEvent list \<Rightarrow> millis \<Rightarrow> bool option" where
  "latest st es t = foldl (\<lambda>s e. if TS e \<le> t then Some (Connected e) else s) st es"

definition observed :: "Run list \<Rightarrow> millis \<Rightarrow> bool" where
  "observed runs t \<longleftrightarrow> (\<exists>r\<in>set runs. rFrom r \<le> t \<and> t < rTo r)"

definition true_state :: "SpanInput \<Rightarrow> millis \<Rightarrow> SpanState" where
  "true_state i t =
     (case latest (Before i) (sort_key TS (Events i)) t of
        Some c \<Rightarrow> if observed (Runs i) t then (if c then SpanUp else SpanDown) else SpanUnmonitored
      | None \<Rightarrow> SpanUnmonitored)"

fun tiled :: "(millis \<Rightarrow> SpanState) \<Rightarrow> millis \<Rightarrow> Span list \<Rightarrow> millis \<Rightarrow> bool" where
  "tiled f a [] b \<longleftrightarrow> a = b"
| "tiled f a (s # ss) b \<longleftrightarrow> From s = a \<and> a < To s \<and> (\<forall>t. a \<le> t \<and> t < To s \<longrightarrow> f t = State s) \<and> tiled f (To s) ss b"

definition total :: "SpanState \<Rightarrow> Span list \<Rightarrow> int" where
  "total s ss = sum_list (map (\<lambda>x. if State x = s then To x - From x else 0) ss)"

lemma tiled_snoc:
  "tiled f a (ss @ [s]) b \<longleftrightarrow> tiled f a ss (From s) \<and> From s < To s \<and> To s = b \<and> (\<forall>t. From s \<le> t \<and> t < To s \<longrightarrow> f t = State s)"
  by (induction ss arbitrary: a) auto

lemma tiled_last: "tiled f a ss b \<Longrightarrow> ss \<noteq> [] \<Longrightarrow> To (last ss) = b"
  by (cases ss rule: rev_cases) (auto simp: tiled_snoc)

lemma tiled_le: "tiled f a ss b \<Longrightarrow> a \<le> b"
proof (induction ss arbitrary: a)
  case (Cons s ss)
  from Cons.IH [of "To s"] Cons.prems show ?case by simp
qed simp

lemma add_span_tiled:
  assumes "tiled f c out a" "a < b" "\<And>t. a \<le> t \<Longrightarrow> t < b \<Longrightarrow> f t = s" "distinct_adj (map State out)"
  shows "tiled f c (add_span out a b s) b \<and> distinct_adj (map State (add_span out a b s)) \<and>
    total s' (add_span out a b s) = total s' out + (if s = s' then b - a else 0)"
proof (cases out rule: rev_cases)
  case Nil
  then show ?thesis using assms by (simp add: add_span_def total_def)
next
  case (snoc ss l)
  note parts = assms(1) [unfolded snoc tiled_snoc]
  show ?thesis
  proof (cases "State l = s")
    case True
    have "f t = s" if "From l \<le> t" "t < b" for t
      using that parts True assms(3) by (cases "t < a") auto
    then show ?thesis using snoc parts True assms by (auto simp: add_span_def tiled_snoc total_def)
  next
    case False
    then have e: "add_span out a b s = out @ [\<lparr>From = a, To = b, State = s\<rparr>]" using snoc by (simp add: add_span_def)
    have "distinct_adj (map State out @ [s])"
      using assms(4) False snoc by (auto simp: distinct_adj_append_iff)
    then show ?thesis unfolding e tiled_snoc using assms(1-3) by (simp add: total_def)
  qed
qed

lemma tiled_cong:
  "(\<And>t. a \<le> t \<Longrightarrow> t < b \<Longrightarrow> f t = g t) \<Longrightarrow> tiled f a ss b = tiled g a ss b"
proof (induction ss arbitrary: a)
  case (Cons s ss)
  show ?case
  proof (cases "a < To s \<and> To s \<le> b")
    case True
    then have "tiled f (To s) ss b = tiled g (To s) ss b" using Cons by simp
    with True Cons.prems show ?thesis by auto
  next
    case False
    then have "\<not> tiled h (To s) ss b \<or> \<not> a < To s" for h using tiled_le by blast
    then show ?thesis by auto
  qed
qed simp

lemma tiled_total:
  "tiled f a ss b \<Longrightarrow> int (card {t. a \<le> t \<and> t < b \<and> f t = s}) = total s ss"
proof (induction ss arbitrary: a)
  case (Cons x ss)
  then have c: "From x = a" "a < To x" "\<And>t. a \<le> t \<Longrightarrow> t < To x \<Longrightarrow> f t = State x" "tiled f (To x) ss b" by auto
  have le: "To x \<le> b" using tiled_le [OF c(4)] .
  have split: "{t. a \<le> t \<and> t < b \<and> f t = s} = (if State x = s then {a..<To x} else {}) \<union> {t. To x \<le> t \<and> t < b \<and> f t = s}"
    using c(2,3) le by (auto intro: leI)
  have fin: "finite {t. To x \<le> t \<and> t < b \<and> f t = s}"
    by (rule finite_subset [of _ "{To x..<b}"]) auto
  have "card {t. a \<le> t \<and> t < b \<and> f t = s} = card (if State x = s then {a..<To x} else {}) + card {t. To x \<le> t \<and> t < b \<and> f t = s}"
    unfolding split by (rule card_Un_disjoint) (use fin in auto)
  with Cons.IH [OF c(4)] c show ?case by (simp add: total_def)
next
  case Nil
  then have e: "{t. a \<le> t \<and> t < b \<and> f t = s} = {}" by auto
  show ?case unfolding e by (simp add: total_def)
qed

section \<open>Coverage\<close>

lemma isCovered_iff: "isCovered = observed"
  by (auto simp: fun_eq_iff isCovered_def observed_def list_ex_iff)

lemma merge_run_observed:
  assumes "rFrom r < rTo r" "out \<noteq> [] \<Longrightarrow> rFrom (last out) \<le> rFrom r"
  shows "observed (merge_run out r) t \<longleftrightarrow> observed out t \<or> rFrom r \<le> t \<and> t < rTo r"
    and "rFrom (last (merge_run out r)) \<le> rFrom r \<and> merge_run out r \<noteq> []"
  using assms by (cases out rule: rev_cases; auto simp: merge_run_def observed_def)+

lemma fold_merge_observed:
  assumes "sorted (map rFrom rs)" "\<forall>r\<in>set rs. rFrom r < rTo r" "out \<noteq> [] \<Longrightarrow> \<forall>r\<in>set rs. rFrom (last out) \<le> rFrom r"
  shows "observed (foldl merge_run out rs) t \<longleftrightarrow> observed out t \<or> observed rs t"
  using assms
proof (induction rs arbitrary: out)
  case (Cons r rs)
  have m: "observed (merge_run out r) t \<longleftrightarrow> observed out t \<or> rFrom r \<le> t \<and> t < rTo r"
    "rFrom (last (merge_run out r)) \<le> rFrom r"
    using merge_run_observed [of r out] Cons.prems(2,3) by auto
  have "observed (foldl merge_run (merge_run out r) rs) t \<longleftrightarrow> observed (merge_run out r) t \<or> observed rs t"
    using Cons.prems m(2) by (intro Cons.IH) auto
  then show ?case using m(1) by (auto simp: observed_def)
qed (simp add: observed_def)

lemma clip_covers:
  "rFrom (clip_run f t' r) < rTo (clip_run f t' r) \<and> rFrom (clip_run f t' r) \<le> t \<and> t < rTo (clip_run f t' r) \<longleftrightarrow>
   f \<le> t \<and> t < t' \<and> rFrom r \<le> t \<and> t < rTo r"
  by (auto simp: clip_run_def)

lemma unionRuns_observed: "observed (unionRuns runs f t') t \<longleftrightarrow> f \<le> t \<and> t < t' \<and> observed runs t"
proof -
  let ?c = "filter (\<lambda>r. rFrom r < rTo r) (map (clip_run f t') runs)"
  have "observed (unionRuns runs f t') t \<longleftrightarrow> observed ?c t"
    unfolding unionRuns_def by (subst fold_merge_observed) (auto simp: observed_def)
  also have "\<dots> \<longleftrightarrow> f \<le> t \<and> t < t' \<and> observed runs t"
    using clip_covers [of f t' _ t] unfolding observed_def by auto
  finally show ?thesis .
qed

section \<open>The loop over the cuts\<close>

lemma advance_subset: "advance a st es = (st1, es1) \<Longrightarrow> set es1 \<subseteq> set es"
  by (induction es arbitrary: st) (fastforce split: if_splits)+

lemma advance_after: "advance a st es = (st1, es1) \<Longrightarrow> sorted (map TS es) \<Longrightarrow> sorted (map TS es1) \<and> (\<forall>e\<in>set es1. a < TS e)"
  by (induction es arbitrary: st) (fastforce split: if_splits)+

lemma advance_same: "advance a st es = (st1, es1) \<Longrightarrow> a \<le> t \<Longrightarrow> latest st1 es1 t = latest st es t"
  by (induction es arbitrary: st) (auto simp: latest_def split: if_splits)

lemma latest_later: "\<forall>e\<in>set es. t < TS e \<Longrightarrow> latest st es t = st"
  by (induction es) (auto simp: latest_def)

lemma no_cut_between: "sorted (a # b # cs) \<Longrightarrow> x \<le> a \<or> x \<in> set (b # cs) \<Longrightarrow> x \<le> t \<Longrightarrow> t < b \<Longrightarrow> x \<le> (a::int)"
  by auto

text \<open>Between two neighbouring cuts the state does not change.\<close>

lemma state_between:
  assumes "sorted (a # b # cs)" "a \<le> t" "t < b" "advance a st ins = (st1, ins1)" "sorted (map TS ins)"
    and "\<forall>e\<in>set ins. TS e \<le> a \<or> TS e \<in> set (b # cs)"
    and "\<forall>r\<in>set cov. (rFrom r \<le> a \<or> rFrom r \<in> set (b # cs)) \<and> (rTo r \<le> a \<or> rTo r \<in> set (b # cs))"
  shows "span_state cov (latest st ins t) t = span_state cov st1 a"
proof -
  note av = advance_after [OF assms(4,5)] advance_subset [OF assms(4)] advance_same [OF assms(4)]
  have far: "\<forall>e\<in>set ins1. t < TS e"
  proof
    fix e assume "e \<in> set ins1"
    then have "a < TS e" "TS e \<in> set (b # cs)" using av(1,2) assms(6) by force+
    then show "t < TS e" using assms(1,3) by auto
  qed
  have "rFrom r \<le> t \<and> t < rTo r \<longleftrightarrow> rFrom r \<le> a \<and> a < rTo r" if r: "r \<in> set cov" for r
    using no_cut_between [OF assms(1), of "rFrom r" t] no_cut_between [OF assms(1), of "rTo r" t]
      bspec [OF assms(7) r] assms(2,3) by linarith
  then have cov: "isCovered cov t \<longleftrightarrow> isCovered cov a" unfolding isCovered_def list_ex_iff by blast
  have "span_state cov (latest st ins t) t = span_state cov st1 t"
    using av(3) [OF assms(2)] latest_later [OF far] by simp
  then show ?thesis unfolding span_state_def cov .
qed

lemma span_loop_spec:
  assumes "sorted (a # cs)" "tiled f c out a" "distinct_adj (map State out)" "up = total SpanUp out" "down = total SpanDown out"
    and "\<And>t. a \<le> t \<Longrightarrow> f t = span_state cov (latest st ins t) t" "sorted (map TS ins)"
    and "\<forall>e\<in>set ins. TS e \<le> a \<or> TS e \<in> set cs"
    and "\<forall>r\<in>set cov. (rFrom r \<le> a \<or> rFrom r \<in> set cs) \<and> (rTo r \<le> a \<or> rTo r \<in> set cs)"
  shows "case span_loop cov st ins (a # cs) (out, up, down) of (out', up', down') \<Rightarrow>
    tiled f c out' (last (a # cs)) \<and> distinct_adj (map State out') \<and> up' = total SpanUp out' \<and> down' = total SpanDown out'"
  using assms
proof (induction cs arbitrary: a st ins out up down)
  case Nil
  then show ?case by simp
next
  case (Cons b cs)
  show ?case
  proof (cases "b \<le> a")
    case True
    with Cons.prems(1) have "b = a" by simp
    have "case span_loop cov st ins (a # cs) (out, up, down) of (out', up', down') \<Rightarrow>
      tiled f c out' (last (a # cs)) \<and> distinct_adj (map State out') \<and> up' = total SpanUp out' \<and> down' = total SpanDown out'"
      by (rule Cons.IH) (use Cons.prems \<open>b = a\<close> in auto)
    with True \<open>b = a\<close> show ?thesis by simp
  next
    case False
    obtain st1 ins1 where adv: "advance a st ins = (st1, ins1)" by (cases "advance a st ins")
    note av = advance_after [OF adv Cons.prems(7)] advance_subset [OF adv] advance_same [OF adv]
    let ?s = "span_state cov st1 a"
    have ft: "f t = ?s" if "a \<le> t" "t < b" for t
      using Cons.prems(6) [OF that(1)] state_between [OF Cons.prems(1) that adv Cons.prems(7-9)] by simp
    have ab: "a < b" using False by simp
    note added = add_span_tiled [OF Cons.prems(2) ab ft Cons.prems(3)]
    have "case span_loop cov st1 ins1 (b # cs) (add_span out a b ?s, if ?s = SpanUp then up + (b - a) else up,
        if ?s = SpanDown then down + (b - a) else down) of (out', up', down') \<Rightarrow>
      tiled f c out' (last (b # cs)) \<and> distinct_adj (map State out') \<and> up' = total SpanUp out' \<and> down' = total SpanDown out'"
    proof (rule Cons.IH)
      show "sorted (b # cs)" using Cons.prems(1) by simp
      show "tiled f c (add_span out a b ?s) b" "distinct_adj (map State (add_span out a b ?s))" using added by blast+
      show "(if ?s = SpanUp then up + (b - a) else up) = total SpanUp (add_span out a b ?s)"
        "(if ?s = SpanDown then down + (b - a) else down) = total SpanDown (add_span out a b ?s)"
        using added [of SpanUp] added [of SpanDown] Cons.prems(4,5) by auto
      show "f t = span_state cov (latest st1 ins1 t) t" if "b \<le> t" for t
        using Cons.prems(6) av(3) that ab by simp
      show "sorted (map TS ins1)" using av(1) by blast
      show "\<forall>e\<in>set ins1. TS e \<le> b \<or> TS e \<in> set cs" using av(1,2) Cons.prems(8) by fastforce
      show "\<forall>r\<in>set cov. (rFrom r \<le> b \<or> rFrom r \<in> set cs) \<and> (rTo r \<le> b \<or> rTo r \<in> set cs)"
        using Cons.prems(9) ab by auto
    qed
    then show ?thesis using False adv by (simp add: Let_def)
  qed
qed

lemma latest_simps:
  "latest st [] t = st" "latest st (e # es) t = latest (if TS e \<le> t then Some (Connected e) else st) es t"
  "latest st (es @ [e]) t = (if TS e \<le> t then Some (Connected e) else latest st es t)"
  by (simp_all add: latest_def)

lemma split_events_spec:
  assumes "split_events i es st ins = (st', ins')" "sorted (map TS es)" "in_From i \<le> t" "t < in_To i"
    "sorted (map TS ins)" "\<forall>x\<in>set ins. \<forall>y\<in>set es. TS x \<le> TS y" "\<forall>x\<in>set ins. in_From i < TS x \<and> TS x < in_To i"
  shows "latest st' ins' t = latest (latest st ins t) es t \<and> sorted (map TS ins') \<and> (\<forall>x\<in>set ins'. in_From i < TS x \<and> TS x < in_To i)"
  using assms
proof (induction es arbitrary: st ins)
  case Nil
  then show ?case by (simp add: latest_simps)
next
  case (Cons e es)
  consider (before) "TS e \<le> in_From i" | (inside) "in_From i < TS e" "TS e < in_To i" | (after) "in_To i \<le> TS e" by linarith
  then show ?case
  proof cases
    case before
    then have "ins = []" using Cons.prems(6,7) by (cases ins) force+
    moreover have "split_events i es (Some (Connected e)) [] = (st', ins')" using Cons.prems(1) before \<open>ins = []\<close> by simp
    ultimately show ?thesis using Cons.IH [of "Some (Connected e)" "[]"] Cons.prems(2-4) before by (simp add: latest_simps)
  next
    case inside
    have "split_events i es st (ins @ [e]) = (st', ins')" using Cons.prems(1) inside by simp
    moreover have "sorted (map TS (ins @ [e]))" "\<forall>x\<in>set (ins @ [e]). \<forall>y\<in>set es. TS x \<le> TS y"
      using Cons.prems(2,5,6) by (auto simp: sorted_append)
    ultimately show ?thesis using Cons.IH [of st "ins @ [e]"] Cons.prems(2-4,7) inside by (simp add: latest_simps)
  next
    case after
    then have "\<not> TS e \<le> t" "\<not> TS e \<le> in_From i" using Cons.prems(3,4) by auto
    moreover have "split_events i es st ins = (st', ins')" using Cons.prems(1) after calculation by simp
    ultimately show ?thesis using Cons.IH [of st ins] Cons.prems(2-7) by (simp add: latest_simps)
  qed
qed

definition run_within :: "millis \<Rightarrow> millis \<Rightarrow> Run \<Rightarrow> bool" where
  "run_within lo hi r \<longleftrightarrow> lo \<le> rFrom r \<and> rTo r \<le> hi \<and> rFrom r < rTo r"

lemma merge_run_bounds: "run_within lo hi x \<Longrightarrow> list_all (run_within lo hi) out \<Longrightarrow> list_all (run_within lo hi) (merge_run out x)"
  by (cases out rule: rev_cases) (auto simp: merge_run_def run_within_def)

lemma fold_merge_bounds:
  "list_all (run_within lo hi) rs \<Longrightarrow> list_all (run_within lo hi) out \<Longrightarrow> list_all (run_within lo hi) (foldl merge_run out rs)"
  by (induction rs arbitrary: out) (simp_all add: merge_run_bounds)

lemma unionRuns_bounds: "list_all (run_within f t) (unionRuns runs f t)"
proof -
  have "f \<le> rFrom (clip_run f t x) \<and> rTo (clip_run f t x) \<le> t" for x by (simp add: clip_run_def)
  then show ?thesis unfolding unionRuns_def
    by (intro fold_merge_bounds) (auto simp: list_all_iff run_within_def)
qed

lemma sorted_last: "sorted ys \<Longrightarrow> x \<in> set ys \<Longrightarrow> x \<le> last (ys :: int list)"
  by (cases ys rule: rev_cases) (auto simp: sorted_append)

text \<open>A sorted list of moments that has its bounds as members starts and ends with them.\<close>

lemma sorted_ends:
  assumes "lo \<in> set xs" "hi \<in> set xs" "\<forall>x\<in>set xs. lo \<le> x \<and> x \<le> hi" "lo < hi"
  obtains cs where "sort xs = lo # cs" "last (sort xs) = (hi::int)"
proof -
  obtain y cs where y: "sort xs = y # cs" using assms(1) set_sort [of "\<lambda>x. x" xs] by (cases "sort xs") auto
  have so: "sorted (y # cs)" "set (y # cs) = set xs" using y by (metis sorted_sort, metis set_sort)
  have "y = lo" using so assms(1,3) by (metis insert_iff list.set(2) order_antisym sorted_simps(2))
  moreover have "last (y # cs) = hi" using so sorted_last [of "y # cs" hi] assms(2,3) by (metis last_in_set list.distinct(1) order_antisym)
  ultimately show ?thesis using that y by metis
qed

lemma Spans_spec:
  assumes "in_From i < in_To i"
  shows "tiled (true_state i) (in_From i) (res_Spans (Spans i)) (in_To i) \<and> distinct_adj (map State (res_Spans (Spans i))) \<and>
    MonitoredMs (Spans i) = total SpanUp (res_Spans (Spans i)) + total SpanDown (res_Spans (Spans i)) \<and>
    UptimePct (Spans i) = (if 0 < MonitoredMs (Spans i) then Some (total SpanUp (res_Spans (Spans i)), MonitoredMs (Spans i)) else None)"
proof -
  define cov where "cov = unionRuns (Runs i) (in_From i) (in_To i)"
  define es where "es = sort_key TS (Events i)"
  obtain st ins where se: "split_events i es (Before i) [] = (st, ins)" by (cases "split_events i es (Before i) []")
  have es: "sorted (map TS es)" by (simp add: es_def)
  have sp: "latest st ins t = latest (Before i) es t" if "in_From i \<le> t" "t < in_To i" for t
    using split_events_spec [OF se es that] by (simp add: latest_simps)
  have ins: "sorted (map TS ins)" "\<forall>x\<in>set ins. in_From i < TS x \<and> TS x < in_To i"
    using split_events_spec [OF se es, of "in_From i"] assms by simp_all
  define xs where "xs = [in_From i, in_To i] @ map TS ins @ concat (map (\<lambda>r. [rFrom r, rTo r]) cov)"
  have covb: "in_From i \<le> rFrom r \<and> rTo r \<le> in_To i \<and> rFrom r < rTo r" if "r \<in> set cov" for r
    using that unionRuns_bounds unfolding cov_def list_all_iff run_within_def by blast
  have "\<forall>x\<in>set xs. in_From i \<le> x \<and> x \<le> in_To i" using assms ins(2) covb unfolding xs_def by fastforce
  then obtain cs where cs: "sort xs = in_From i # cs" "last (sort xs) = in_To i"
    using assms by (elim sorted_ends [of "in_From i" xs "in_To i", rotated 2]) (simp_all add: xs_def)
  have mem: "x = in_From i \<or> x \<in> set cs" if "x \<in> set xs" for x
    using that cs(1) by (metis set_ConsD set_sort)
  let ?f = "\<lambda>t. span_state cov (latest st ins t) t"
  have loop: "case span_loop cov st ins (in_From i # cs) ([], 0, 0) of (out', up', down') \<Rightarrow>
      tiled ?f (in_From i) out' (last (in_From i # cs)) \<and> distinct_adj (map State out') \<and> up' = total SpanUp out' \<and> down' = total SpanDown out'"
  proof (rule span_loop_spec)
    show "sorted (in_From i # cs)" using cs(1) by (metis sorted_sort)
    show "\<forall>e\<in>set ins. TS e \<le> in_From i \<or> TS e \<in> set cs"
    proof
      fix e assume "e \<in> set ins"
      then have "TS e \<in> set xs" by (simp add: xs_def)
      then show "TS e \<le> in_From i \<or> TS e \<in> set cs" using mem [of "TS e"] by auto
    qed
    show "\<forall>r\<in>set cov. (rFrom r \<le> in_From i \<or> rFrom r \<in> set cs) \<and> (rTo r \<le> in_From i \<or> rTo r \<in> set cs)"
    proof
      fix r assume "r \<in> set cov"
      then have "rFrom r \<in> set xs" "rTo r \<in> set xs" by (auto simp: xs_def)
      then show "(rFrom r \<le> in_From i \<or> rFrom r \<in> set cs) \<and> (rTo r \<le> in_From i \<or> rTo r \<in> set cs)"
        using mem [of "rFrom r"] mem [of "rTo r"] by auto
    qed
  qed (use ins in \<open>simp_all add: total_def\<close>)
  have tr: "?f t = true_state i t" if "in_From i \<le> t" "t < in_To i" for t
    using sp [OF that] that
    by (simp add: span_state_def true_state_def es_def isCovered_iff cov_def unionRuns_observed split: option.split)
  obtain out up down where o: "span_loop cov st ins (sort xs) ([], 0, 0) = (out, up, down)" by (cases "span_loop cov st ins (sort xs) ([], 0, 0)")
  have r: "res_Spans (Spans i) = out" "MonitoredMs (Spans i) = up + down"
    "UptimePct (Spans i) = (if 0 < up + down then Some (up, up + down) else None)"
    using assms o se unfolding Spans_def cov_def [symmetric] es_def [symmetric] by (simp_all add: Let_def xs_def)
  have "tiled ?f (in_From i) out (in_To i)" "distinct_adj (map State out)" "up = total SpanUp out" "down = total SpanDown out"
    using loop o cs by auto
  with tiled_cong [OF tr] r show ?thesis by simp
qed

text \<open>
  C19. The spans tile the window: the first starts where the window does, each starts where the one before
  ends, the last ends where the window does, no two neighbours have the same state, and at every moment
  of a span the router is in the span's state: the one the last event at or before the moment left it
  in if the router was observed then, and unmonitored otherwise.
\<close>

theorem spans_tile_window:
  assumes "in_From i < in_To i"
  shows "tiled (true_state i) (in_From i) (res_Spans (Spans i)) (in_To i) \<and> distinct_adj (map State (res_Spans (Spans i)))"
  using Spans_spec [OF assms] by blast

definition demo_window :: SpanInput where
  "demo_window = \<lparr>in_From = 0, in_To = 100, Before = Some True, Events = [\<lparr>TS = 40, Connected = False\<rparr>],
     Runs = [\<lparr>rFrom = 30, rTo = 90\<rparr>, \<lparr>rFrom = -5, rTo = 20\<rparr>]\<rparr>"

theorem spans_tile_window_witness:
  "tiled (true_state demo_window) 0 (res_Spans (Spans demo_window)) 100 \<and> distinct_adj (map State (res_Spans (Spans demo_window))) \<and>
   res_Spans (Spans demo_window) =
     [\<lparr>From = 0, To = 20, State = SpanUp\<rparr>, \<lparr>From = 20, To = 30, State = SpanUnmonitored\<rparr>,
      \<lparr>From = 30, To = 40, State = SpanUp\<rparr>, \<lparr>From = 40, To = 90, State = SpanDown\<rparr>,
      \<lparr>From = 90, To = 100, State = SpanUnmonitored\<rparr>]"
proof -
  have "in_From demo_window < in_To demo_window" by code_simp
  from spans_tile_window [OF this]
  have "tiled (true_state demo_window) 0 (res_Spans (Spans demo_window)) 100 \<and> distinct_adj (map State (res_Spans (Spans demo_window)))"
    by (simp add: demo_window_def)
  moreover have "res_Spans (Spans demo_window) =
     [\<lparr>From = 0, To = 20, State = SpanUp\<rparr>, \<lparr>From = 20, To = 30, State = SpanUnmonitored\<rparr>,
      \<lparr>From = 30, To = 40, State = SpanUp\<rparr>, \<lparr>From = 40, To = 90, State = SpanDown\<rparr>,
      \<lparr>From = 90, To = 100, State = SpanUnmonitored\<rparr>]" by code_simp
  ultimately show ?thesis by blast
qed

text \<open>
  Uptime is weighted by time: the percentage's two numbers count the milliseconds of the window the
  router was up and those it was monitored, each once, and no percentage is given for a window in which
  nothing was monitored.
\<close>

theorem uptime_counts_time:
  assumes "in_From i < in_To i"
  shows "MonitoredMs (Spans i) = int (card {t. in_From i \<le> t \<and> t < in_To i \<and> true_state i t \<noteq> SpanUnmonitored}) \<and>
    UptimePct (Spans i) =
      (if {t. in_From i \<le> t \<and> t < in_To i \<and> true_state i t \<noteq> SpanUnmonitored} = {} then None
       else Some (int (card {t. in_From i \<le> t \<and> t < in_To i \<and> true_state i t = SpanUp}), MonitoredMs (Spans i)))"
proof -
  let ?S = "\<lambda>s. {t. in_From i \<le> t \<and> t < in_To i \<and> true_state i t = s}"
  let ?M = "{t. in_From i \<le> t \<and> t < in_To i \<and> true_state i t \<noteq> SpanUnmonitored}"
  note sp = Spans_spec [OF assms]
  have tot: "int (card (?S s)) = total s (res_Spans (Spans i))" for s using tiled_total sp by blast
  have fin: "finite {t. in_From i \<le> t \<and> t < in_To i \<and> P t}" for P
    by (rule finite_subset [of _ "{in_From i..<in_To i}"]) auto
  have "s \<noteq> SpanUnmonitored \<longleftrightarrow> s = SpanUp \<or> s = SpanDown" for s by (cases s) auto
  then have "?M = ?S SpanUp \<union> ?S SpanDown" by auto
  then have "card ?M = card (?S SpanUp) + card (?S SpanDown)" by (simp add: card_Un_disjoint fin disjoint_iff)
  then have mon: "MonitoredMs (Spans i) = int (card ?M)" using sp tot by simp
  moreover have "0 < int (card ?M) \<longleftrightarrow> ?M \<noteq> {}" using fin by (simp add: card_gt_0_iff)
  ultimately show ?thesis using sp tot [of SpanUp] by simp
qed

theorem uptime_counts_time_witness:
  "MonitoredMs (Spans demo_window) = int (card {t. 0 \<le> t \<and> t < 100 \<and> true_state demo_window t \<noteq> SpanUnmonitored}) \<and>
   UptimePct (Spans demo_window) = Some (30, 80)"
proof -
  have "in_From demo_window < in_To demo_window" by code_simp
  note u = uptime_counts_time [OF this]
  have w: "in_From demo_window = 0" "in_To demo_window = 100" by code_simp+
  have "UptimePct (Spans demo_window) = Some (30, 80)" by code_simp
  with u show ?thesis unfolding w by blast
qed

section \<open>Which routers are observed\<close>

definition CoverageTouchMs :: millis where "CoverageTouchMs = 60000"

record CoverageOps =
  Open :: "string list"
  Close :: "string list"
  Touch :: bool

definition is_set :: "(string, bool) gomap \<Rightarrow> string \<Rightarrow> bool" where
  "is_set m i = (golookup m i = Some True)"

definition PlanCoverage :: "(string, bool) gomap \<Rightarrow> (string, bool) gomap \<Rightarrow> millis \<Rightarrow> millis \<Rightarrow> CoverageOps" where
  "PlanCoverage opened cov now lastTouch =
     \<lparr>Open = sort (filter (\<lambda>i. \<not> is_set opened i) (gokeys cov)),
      Close = sort (filter (\<lambda>i. \<not> is_set cov i) (gokeys opened)),
      Touch = (0 < length (filter (is_set cov) (gokeys opened)) \<and> CoverageTouchMs \<le> now - lastTouch)\<rparr>"

definition set_map :: "(string, bool) gomap \<Rightarrow> bool" where
  "set_map m \<longleftrightarrow> gomap_ok m \<and> (\<forall>v\<in>set (map snd m). v)"

lemma set_map_is_set: "set_map m \<Longrightarrow> is_set m i \<longleftrightarrow> i \<in> set (gokeys m)"
proof (cases "golookup m i")
  case None
  then have "\<not> is_set m i" "i \<notin> set (gokeys m)" by (simp_all add: is_set_def) (simp add: map_of_eq_None_iff)
  then show ?thesis by simp
next
  case (Some v)
  assume "set_map m"
  moreover have "(i, v) \<in> set m" using Some by (rule map_of_SomeD)
  ultimately show ?thesis using Some by (force simp: set_map_def is_set_def)
qed

text \<open>
  After a tick's operations are carried out the routers with an open run are exactly the ones observed:
  a run is opened once for each router newly observed and closed once for each no longer observed, in
  sorted order, and the heartbeat is due exactly when a run stays open and the last one is a minute old.
\<close>

theorem coverage_tick:
  assumes "set_map opened" "set_map cov"
  shows "let ops = PlanCoverage opened cov now lastTouch in
    sorted (Open ops) \<and> distinct (Open ops) \<and> set (Open ops) = set (gokeys cov) - set (gokeys opened) \<and>
    sorted (Close ops) \<and> distinct (Close ops) \<and> set (Close ops) = set (gokeys opened) - set (gokeys cov) \<and>
    (Touch ops \<longleftrightarrow> set (gokeys opened) \<inter> set (gokeys cov) \<noteq> {} \<and> lastTouch + 60000 \<le> now)"
proof -
  have "0 < length (filter (is_set cov) (gokeys opened)) \<longleftrightarrow> set (gokeys opened) \<inter> set (gokeys cov) \<noteq> {}"
    by (auto simp: filter_empty_conv set_map_is_set [OF assms(2)])
  moreover have "distinct (gokeys opened)" "distinct (gokeys cov)" using assms by (simp_all add: set_map_def)
  ultimately show ?thesis unfolding PlanCoverage_def Let_def
    by (auto simp: set_map_is_set [OF assms(1)] set_map_is_set [OF assms(2)] CoverageTouchMs_def)
qed

theorem coverage_tick_witness:
  "let ops = PlanCoverage [(''a'', True), (''b'', True)] [(''b'', True), (''c'', True)] 70000 0 in
    sorted (Open ops) \<and> distinct (Open ops) \<and> set (Open ops) = {''b'', ''c''} - {''a'', ''b''} \<and>
    sorted (Close ops) \<and> distinct (Close ops) \<and> set (Close ops) = {''a'', ''b''} - {''b'', ''c''} \<and>
    (Touch ops \<longleftrightarrow> {''a'', ''b''} \<inter> {''b'', ''c''} \<noteq> {} \<and> 0 + 60000 \<le> (70000::int))"
  using coverage_tick [of "[(''a'', True), (''b'', True)]" "[(''b'', True), (''c'', True)]" 70000 0]
  by (simp add: set_map_def)

section \<open>Undo and redo\<close>

definition Sep :: char where "Sep = CHR 0x01"

datatype op_verb = VAdd | VSet | VRemove

record Op =
  op_Op :: op_verb
  op_ID :: string
  op_Values :: "(string, string) gomap"

record Entry =
  Resource :: string
  What :: string
  Identity :: string
  Forward :: Op
  Reverse :: Op
  EntryLabel :: string
  Via :: string

definition verbs :: "(string, string) gomap" where
  "verbs = [(''create'', ''add''), (''update'', ''edit''), (''delete'', ''delete'')]"

text \<open>The labels of resources are ASCII.\<close>

definition Label :: "string \<Rightarrow> string \<Rightarrow> string \<Rightarrow> string" where
  "Label resourceLabel what identity =
     (let name = go_join '' '' (filter (\<lambda>p. p \<noteq> []) (go_split Sep identity));
          verb = (case golookup verbs what of Some v \<Rightarrow> v | None \<Rightarrow> what)
      in verb @ '' of '' @ (if name = [] then map lower_char resourceLabel else name))"

definition Build ::
  "string \<Rightarrow> string \<Rightarrow> string \<Rightarrow> string \<Rightarrow> string \<Rightarrow> (string, string) gomap \<Rightarrow> (string, string) gomap \<Rightarrow> Entry option" where
  "Build resourceKey resourceLabel what i identity before after =
     map_option
       (\<lambda>(f, r). \<lparr>Resource = resourceKey, What = what, Identity = identity, Forward = f, Reverse = r,
                 EntryLabel = Label resourceLabel what identity, Via = []\<rparr>)
       (if what = ''create''
        then Some (\<lparr>op_Op = VAdd, op_ID = [], op_Values = after\<rparr>, \<lparr>op_Op = VRemove, op_ID = i, op_Values = []\<rparr>)
        else if what = ''delete''
        then Some (\<lparr>op_Op = VRemove, op_ID = i, op_Values = []\<rparr>, \<lparr>op_Op = VAdd, op_ID = [], op_Values = before\<rparr>)
        else if what = ''update''
        then Some (\<lparr>op_Op = VSet, op_ID = i, op_Values = after\<rparr>, \<lparr>op_Op = VSet, op_ID = i, op_Values = before\<rparr>)
        else None)"

definition Rebind :: "Entry option \<Rightarrow> string \<Rightarrow> Entry option" where
  "Rebind e i = map_option (\<lambda>e.
     e\<lparr>Forward := (if op_Op (Forward e) \<noteq> VAdd then (Forward e)\<lparr>op_ID := i\<rparr> else Forward e),
       Reverse := (if op_Op (Reverse e) \<noteq> VAdd then (Reverse e)\<lparr>op_ID := i\<rparr> else Reverse e)\<rparr>) e"

text \<open>
  What the verbs do to a router's table, as the specification: a row added gets the identifier the
  router chooses.
\<close>

type_synonym table = "string \<Rightarrow> (string, string) gomap option"

definition run_op :: "string \<Rightarrow> Op \<Rightarrow> table \<Rightarrow> table" where
  "run_op fresh o1 t =
     (case op_Op o1 of
        VAdd \<Rightarrow> t(fresh := Some (op_Values o1))
      | VSet \<Rightarrow> t(op_ID o1 := Some (op_Values o1))
      | VRemove \<Rightarrow> t(op_ID o1 := None))"

definition id_after :: "string \<Rightarrow> Op \<Rightarrow> string" where
  "id_after fresh o1 = (if op_Op o1 = VAdd then fresh else op_ID o1)"

text \<open>
  Undoing a recorded write restores the table, and redoing it then repeats the write, even though a row
  that is added again has a new identifier: the row of an undone deletion holds what it held before, and
  rebinding the entry to it makes the redo address that row.
\<close>

theorem undo_redo:
  assumes "Build key lbl what i identity before after = Some e"
    and "what = ''create'' \<and> t i = None \<or> what \<in> {''update'', ''delete''} \<and> t i = Some before" and "t i2 = None" "i2 \<noteq> i"
  shows "let done = run_op i (Forward e) t;
             undone = run_op i2 (Reverse e) done;
             e2 = the (Rebind (Some e) (if what = ''delete'' then i2 else i))
         in (if what = ''delete'' then undone = t(i := None, i2 := Some before) else undone = t) \<and>
            (what \<noteq> ''create'' \<longrightarrow> run_op i (Forward e2) undone = done) \<and>
            (what = ''create'' \<longrightarrow> run_op i2 (Reverse (the (Rebind (Some e) i2))) (run_op i2 (Forward e) undone) = t)"
  using assms by (auto simp: Build_def Rebind_def run_op_def fun_eq_iff split: if_splits)

theorem undo_redo_witness:
  "let e = the (Build ''k'' ''L'' ''delete'' ''*1'' ''x'' [(''a'', ''1'')] []); t = [''*1'' \<mapsto> [(''a'', ''1'')]];
       done = run_op ''*1'' (Forward e) t; undone = run_op ''*9'' (Reverse e) done
   in undone = t(''*1'' := None, ''*9'' := Some [(''a'', ''1'')])"
proof -
  have b: "Build ''k'' ''L'' ''delete'' ''*1'' ''x'' [(''a'', ''1'')] [] =
      Some (the (Build ''k'' ''L'' ''delete'' ''*1'' ''x'' [(''a'', ''1'')] []))" by (simp add: Build_def)
  show ?thesis using undo_redo [OF b, of "[''*1'' \<mapsto> [(''a'', ''1'')]]" "''*9''"] by (simp add: Let_def)
qed

end
