(* ===== verification/Calendar.thy ===== *)
theory Calendar
  imports Go_Strings "HOL-Library.Signed_Division" "HOL-Library.Product_Lexorder"
begin

text \<open>
  Calendar time: the part of Go's \<^verbatim>\<open>time\<close> package the schedulers use, and the wall clock of
  \<^verbatim>\<open>internal/reports/period.go\<close> (\<open>OffsetAt\<close>, \<open>CivilAt\<close>, \<open>InstantOf\<close>). The time zone database is a parameter: \<open>zones name\<close> is the offset from
  UTC, in seconds, at every second, or \<^const>\<open>None\<close> for a name it does not know.
\<close>

section \<open>Days and civil dates\<close>

definition leap :: "int \<Rightarrow> bool" where
  "leap y \<longleftrightarrow> 4 dvd y \<and> (\<not> 100 dvd y \<or> 400 dvd y)"

definition days_before_year :: "int \<Rightarrow> int" where
  "days_before_year y = 365 * (y - 1) + (y - 1) div 4 - (y - 1) div 100 + (y - 1) div 400"

definition month_days :: "int \<Rightarrow> int \<Rightarrow> int" where
  "month_days y m = (if m = 2 then (if leap y then 29 else 28) else if m \<in> {4, 6, 9, 11} then 30 else 31)"

fun days_before_month :: "int \<Rightarrow> nat \<Rightarrow> int" where
  "days_before_month y 0 = 0"
| "days_before_month y (Suc m) = days_before_month y m + month_days y (int m + 1)"

text \<open>Days since 1970-01-01; the month may be out of range, as \<open>time.Date\<close> allows.\<close>

definition civil_days :: "int \<Rightarrow> int \<Rightarrow> int \<Rightarrow> int" where
  "civil_days y m d =
     (let y1 = y + (m - 1) div 12; m1 = (m - 1) mod 12
      in days_before_year y1 + days_before_month y1 (nat m1) + (d - 1) - 719162)"

definition date_ms :: "int \<Rightarrow> int \<Rightarrow> int \<Rightarrow> int \<Rightarrow> int \<Rightarrow> int \<Rightarrow> millis" where
  "date_ms y m d hour minute sec = ((civil_days y m d * 24 + hour) * 60 + minute) * 60000 + sec * 1000"

text \<open>The year a day falls in: an estimate that is never off by more than one.\<close>

definition year_of :: "int \<Rightarrow> int" where
  "year_of n = (let k = n + 719162; y = 400 * k div 146097 + 1
     in if k < days_before_year y then y - 1 else if days_before_year (y + 1) \<le> k then y + 1 else y)"

fun month_scan :: "int \<Rightarrow> nat \<Rightarrow> int \<Rightarrow> nat \<Rightarrow> int \<times> int" where
  "month_scan y m r 0 = (int m, r + 1)"
| "month_scan y m r (Suc k) =
     (if r < month_days y (int m) then (int m, r + 1) else month_scan y (Suc m) (r - month_days y (int m)) k)"

definition month_day :: "int \<Rightarrow> int \<times> int" where
  "month_day n = (let y = year_of n in month_scan y 1 (n + 719162 - days_before_year y) 11)"

lemma year_length: "days_before_year (y + 1) = days_before_year y + (if leap y then 366 else 365)"
proof -
  have step: "y div k = (y - 1) div k + (if k dvd y then 1 else 0)" if "0 < k" for k :: int
  proof -
    have "y = k * (y div k) + y mod k" "0 \<le> y mod k" "y mod k < k" using that by simp_all
    show ?thesis
    proof (cases "k dvd y")
      case True
      then obtain q where q: "y = k * q" by blast
      have "(k * q - 1) div k = q - 1"
        by (rule int_div_pos_eq [of _ _ _ "k - 1"]) (use that in \<open>simp_all add: right_diff_distrib\<close>)
      with True q that show ?thesis by simp
    next
      case False
      then have pos: "0 < y mod k" using that by (metis dvd_eq_mod_eq_0 le_less pos_mod_sign)
      have "(y - 1) div k = y div k"
        by (rule int_div_pos_eq [of _ _ _ "y mod k - 1"])
          (use pos \<open>y = k * (y div k) + y mod k\<close> \<open>y mod k < k\<close> in linarith)+
      with False show ?thesis by simp
    qed
  qed
  have d: "400 dvd y \<Longrightarrow> 100 dvd y" "100 dvd y \<Longrightarrow> 4 dvd y" by (auto elim: dvd_trans [rotated])
  show ?thesis
  proof (cases "100 dvd y")
    case True
    then show ?thesis using d step [of 4] step [of 100] step [of 400] by (simp add: days_before_year_def leap_def)
  next
    case False
    then have "\<not> 400 dvd y" using d by blast
    with False show ?thesis using step [of 4] step [of 100] step [of 400] by (simp add: days_before_year_def leap_def)
  qed
qed

lemma days_before_year_mono: "y < z \<Longrightarrow> days_before_year y + 365 \<le> days_before_year z"
proof -
  have "days_before_year y + 365 * int k \<le> days_before_year (y + int k)" for k
  proof (induction k)
    case (Suc k)
    then show ?case using year_length [of "y + int k"] by (simp add: add.assoc [symmetric] add.commute [of 1])
  qed simp
  from this [of "nat (z - y)"] show "y < z \<Longrightarrow> ?thesis" by simp
qed

lemma days_before_year_less: "y < z \<Longrightarrow> days_before_year y < days_before_year z"
  using days_before_year_mono [of y z] by linarith

lemma year_unique:
  "days_before_year y \<le> k \<Longrightarrow> k < days_before_year (y + 1) \<Longrightarrow> days_before_year z \<le> k \<Longrightarrow> k < days_before_year (z + 1) \<Longrightarrow> y = z"
  using days_before_year_less [of "y + 1" z] days_before_year_less [of "z + 1" y]
  by (cases "y + 1 = z \<or> z + 1 = y") (force, linarith)

text \<open>The estimate: the average year is \<open>146097 / 400\<close> days.\<close>

lemma days_before_year_bounds:
  "146097 * z - 800 \<le> 400 * days_before_year (z + 1)" "400 * days_before_year (z + 1) \<le> 146097 * z + 400"
proof -
  have d: "k * (z div k) \<le> z" "z < k * (z div k) + k" if "0 < k" for k
    using that mult_div_mod_eq [of k z] pos_mod_bound [of k z] pos_mod_sign [of k z] by linarith+
  have b: "4 * (z div 4) \<le> z" "z < 4 * (z div 4) + 4" "100 * (z div 100) \<le> z" "z < 100 * (z div 100) + 100"
    "400 * (z div 400) \<le> z" "z < 400 * (z div 400) + 400" using d [of 4] d [of 100] d [of 400] by auto
  have e: "400 * days_before_year (z + 1) = 146000 * z + 400 * (z div 4) - 400 * (z div 100) + 400 * (z div 400)"
    by (simp add: days_before_year_def)
  show "146097 * z - 800 \<le> 400 * days_before_year (z + 1)" unfolding e using b(2,3,6) by linarith
  show "400 * days_before_year (z + 1) \<le> 146097 * z + 400" unfolding e using b(1,4,5) by linarith
qed

lemma year_of_bounds:
  "days_before_year (year_of n) \<le> n + 719162" "n + 719162 < days_before_year (year_of n + 1)"
proof -
  define k where "k = n + 719162"
  define w where "w = 400 * k div 146097"
  define y where "y = w + 1"
  have e: "146097 * w \<le> 400 * k" "400 * k < 146097 * w + 146097" unfolding w_def by linarith+
  have "146097 * (w - 1) = 146097 * w - 146097" "146097 * (w + 2) = 146097 * w + 292194" by simp_all
  then have b: "400 * days_before_year w \<le> 146097 * w - 146097 + 400" "146097 * w + 292194 - 800 \<le> 400 * days_before_year (w + 3)"
    using days_before_year_bounds(2) [of "w - 1"] days_before_year_bounds(1) [of "w + 2"] by (simp_all add: add.commute)
  have lo: "days_before_year (y - 1) \<le> k" using b(1) e by (simp add: y_def)
  have "k < days_before_year (w + 3)" using b(2) e by linarith
  then have hi: "k < days_before_year (y + 2)" by (simp add: y_def add.commute)
  have yo: "year_of n = (if k < days_before_year y then y - 1 else if days_before_year (y + 1) \<le> k then y + 1 else y)"
    by (simp add: year_of_def Let_def k_def [symmetric] w_def [symmetric] y_def [symmetric])
  show "days_before_year (year_of n) \<le> n + 719162" "n + 719162 < days_before_year (year_of n + 1)"
    unfolding yo k_def [symmetric] using lo hi by (auto simp: add.assoc)
qed

text \<open>A valid civil date.\<close>

definition valid_date :: "int \<Rightarrow> int \<Rightarrow> int \<Rightarrow> bool" where
  "valid_date y m d \<longleftrightarrow> 1 \<le> m \<and> m \<le> 12 \<and> 1 \<le> d \<and> d \<le> month_days y m"

lemma year_days: "days_before_month y 12 = (if leap y then 366 else 365)"
  by (simp add: eval_nat_numeral month_days_def)

lemma month_days_bounds: "28 \<le> month_days y m" "month_days y m \<le> 31"
  by (auto simp: month_days_def)

lemma days_before_month_mono: "m \<le> n \<Longrightarrow> days_before_month y m \<le> days_before_month y n"
proof (induction n)
  case (Suc n)
  then show ?case using month_days_bounds(1) [of y "int n + 1"] by (cases "m = Suc n") auto
qed simp

lemma month_scan_sound:
  assumes "month_scan y m r k = (m', d)" "0 \<le> r" "days_before_month y (m - 1) + r < days_before_month y (m + k)" "1 \<le> m"
  shows "int m \<le> m' \<and> m' \<le> int (m + k) \<and> 1 \<le> d \<and> d \<le> month_days y m' \<and>
    days_before_month y (m - 1) + r = days_before_month y (nat m' - 1) + (d - 1)"
  using assms
proof (induction k arbitrary: m r)
  case 0
  from 0(4) obtain j where m: "m = Suc j" by (cases m) auto
  with 0 show ?case by (auto simp: add.commute nat_add_distrib)
next
  case (Suc k)
  from Suc.prems(4) obtain j where m: "m = Suc j" by (cases m) auto
  show ?case
  proof (cases "r < month_days y (int m)")
    case True
    with Suc.prems m show ?thesis by (auto simp: nat_add_distrib)
  next
    case False
    with Suc.prems have s: "month_scan y (Suc m) (r - month_days y (int m)) k = (m', d)" by simp
    have "int (Suc m) \<le> m' \<and> m' \<le> int (Suc m + k) \<and> 1 \<le> d \<and> d \<le> month_days y m' \<and>
        days_before_month y (Suc m - 1) + (r - month_days y (int m)) = days_before_month y (nat m' - 1) + (d - 1)"
      using False Suc.prems m by (intro Suc.IH [OF s]) (auto simp: add.commute)
    with m show ?thesis by (auto simp: add.commute)
  qed
qed

lemma month_day_sound:
  assumes "month_day n = (m, d)"
  shows "valid_date (year_of n) m d \<and> civil_days (year_of n) m d = n"
proof -
  define y where "y = year_of n"
  define r where "r = n + 719162 - days_before_year y"
  have "0 \<le> r" using year_of_bounds(1) [of n] by (simp add: r_def y_def)
  moreover have "r < days_before_month y 12"
    using year_of_bounds(2) [of n] year_length [of y] year_days [of y] by (simp add: r_def y_def)
  ultimately have s: "1 \<le> m" "m \<le> 12" "1 \<le> d" "d \<le> month_days y m" "r = days_before_month y (nat m - 1) + (d - 1)"
    using month_scan_sound [of y 1 r 11 m d] assms by (simp_all add: month_day_def Let_def y_def [symmetric] r_def [symmetric])
  have "(m - 1) div 12 = 0" "(m - 1) mod 12 = m - 1" using s(1,2) by simp_all
  then have "civil_days y m d = days_before_year y + days_before_month y (nat (m - 1)) + (d - 1) - 719162"
    by (simp add: civil_days_def Let_def)
  moreover have "nat (m - 1) = nat m - 1" using s(1) by simp
  ultimately have "civil_days y m d = n" using s(5) by (simp add: r_def)
  with s show ?thesis by (simp add: valid_date_def y_def)
qed

lemma civil_days_valid:
  "valid_date y m d \<Longrightarrow> civil_days y m d = days_before_year y + days_before_month y (nat m - 1) + (d - 1) - 719162"
proof -
  assume "valid_date y m d"
  then have "(m - 1) div 12 = 0" "(m - 1) mod 12 = m - 1" "nat (m - 1) = nat m - 1" by (auto simp: valid_date_def)
  then show ?thesis by (simp add: civil_days_def Let_def)
qed

lemma day_in_year:
  assumes "valid_date y m d"
  shows "0 \<le> days_before_month y (nat m - 1) + (d - 1)" "days_before_month y (nat m - 1) + (d - 1) < days_before_month y (nat m)"
    "days_before_month y (nat m) \<le> days_before_month y 12"
proof -
  have "0 < m" using assms by (simp add: valid_date_def)
  then obtain j where j: "nat m = Suc j" "m = int j + 1" by (metis Suc_as_int add.commute int_nat_eq nat_0_iff not_le not0_implies_Suc of_nat_Suc order_less_imp_le)
  show "0 \<le> days_before_month y (nat m - 1) + (d - 1)"
    using assms days_before_month_mono [of 0 "nat m - 1" y] by (simp add: valid_date_def)
  show "days_before_month y (nat m - 1) + (d - 1) < days_before_month y (nat m)"
    using assms j by (simp add: valid_date_def)
  show "days_before_month y (nat m) \<le> days_before_month y 12"
    using assms by (intro days_before_month_mono) (auto simp: valid_date_def nat_le_iff)
qed

text \<open>Civil dates are ordered as their days are.\<close>

lemma civil_days_less:
  assumes "valid_date y m d" "valid_date y' m' d'" "(y, m, d) < (y', m', d')"
  shows "civil_days y m d < civil_days y' m' d'"
proof -
  note c = civil_days_valid [OF assms(1)] civil_days_valid [OF assms(2)]
  note b = day_in_year [OF assms(1)] day_in_year [OF assms(2)]
  consider (year) "y < y'" | (month) "y = y'" "m < m'" | (day) "y = y'" "m = m'" "d < d'"
    using assms(3) by (auto simp: less_prod_def')
  then show ?thesis
  proof cases
    case year
    have "days_before_year (y + 1) \<le> days_before_year y'" using year days_before_year_less [of "y + 1" y'] by (cases "y + 1 = y'") auto
    then show ?thesis using b c year_length [of y] year_days [of y] by linarith
  next
    case month
    then have "nat m \<le> nat m' - 1" using assms(1,2) by (auto simp: valid_date_def)
    then have "days_before_month y (nat m) \<le> days_before_month y (nat m' - 1)" by (rule days_before_month_mono)
    then show ?thesis using b c month assms(2) by (simp add: valid_date_def)
  next
    case day
    then show ?thesis using c by simp
  qed
qed

lemma civil_days_inj:
  "valid_date y m d \<Longrightarrow> valid_date y' m' d' \<Longrightarrow> civil_days y m d = civil_days y' m' d' \<Longrightarrow> (y, m, d) = (y', m', d')"
  using civil_days_less [of y m d y' m' d'] civil_days_less [of y' m' d' y m d] by (metis less_irrefl linorder_neqE)

lemma fields_of_civil:
  assumes "valid_date y m d"
  shows "year_of (civil_days y m d) = y \<and> month_day (civil_days y m d) = (m, d)"
proof -
  obtain m' d' where md: "month_day (civil_days y m d) = (m', d')" by (cases "month_day (civil_days y m d)")
  from month_day_sound [OF this] have "(year_of (civil_days y m d), m', d') = (y, m, d)"
    using civil_days_inj assms by blast
  with md show ?thesis by simp
qed

section \<open>Wall clocks\<close>

record Civil =
  Year :: int
  Month :: int
  Day :: int
  Hour :: int
  Minute :: int
  Weekday :: int

type_synonym tzdata = "string \<Rightarrow> (int \<Rightarrow> int) option"

definition zone_offset :: "tzdata \<Rightarrow> string \<Rightarrow> int \<Rightarrow> int" where
  "zone_offset zones tz sec = (if tz = [] then 0 else case zones tz of Some f \<Rightarrow> f sec | None \<Rightarrow> 0)"

definition OffsetAt :: "tzdata \<Rightarrow> millis \<Rightarrow> string \<Rightarrow> millis" where
  "OffsetAt zones ts tz =
     (if tz = [] then 0
      else let off = zone_offset zones tz (ts div 1000);
               sec0 = ts sdiv 1000;
               sec = (if ts smod 1000 \<noteq> 0 \<and> ts < 0 then sec0 - 1 else sec0)
           in sec * 1000 + off * 1000 - ts)"

text \<open>The fields of an instant in UTC; \<open>1970-01-01\<close> was a Thursday.\<close>

definition utc_fields :: "millis \<Rightarrow> Civil" where
  "utc_fields ts =
     (let n = ts div 86400000; r = ts mod 86400000; md = month_day n
      in \<lparr>Year = year_of n, Month = fst md - 1, Day = snd md, Hour = r div 3600000, Minute = r div 60000 mod 60,
         Weekday = (n + 4) mod 7\<rparr>)"

definition CivilAt :: "tzdata \<Rightarrow> millis \<Rightarrow> string \<Rightarrow> Civil" where
  "CivilAt zones ts tz = utc_fields (ts + OffsetAt zones ts tz)"

definition wall_ms :: "Civil \<Rightarrow> millis" where
  "wall_ms c = date_ms (Year c) (Month c + 1) (Day c) (Hour c) (Minute c) 0"

fun instant_loop :: "tzdata \<Rightarrow> string \<Rightarrow> millis \<Rightarrow> nat \<Rightarrow> millis \<Rightarrow> millis" where
  "instant_loop zones tz wall 0 guess = guess"
| "instant_loop zones tz wall (Suc k) guess =
     (let nxt = wall - OffsetAt zones guess tz in if nxt = guess then guess else instant_loop zones tz wall k nxt)"

definition InstantOf :: "tzdata \<Rightarrow> Civil \<Rightarrow> string \<Rightarrow> millis" where
  "InstantOf zones c tz = instant_loop zones tz (wall_ms c) 3 (wall_ms c)"

definition civil :: "int \<Rightarrow> int \<Rightarrow> int \<Rightarrow> int \<Rightarrow> int \<Rightarrow> Civil" where
  "civil y m d h mi = \<lparr>Year = y, Month = m, Day = d, Hour = h, Minute = mi, Weekday = 0\<rparr>"

section \<open>Instants and wall clocks\<close>

lemma floor_sec: "(if (ts::int) smod 1000 \<noteq> 0 \<and> ts < 0 then ts sdiv 1000 - 1 else ts sdiv 1000) = ts div 1000"
proof (cases "ts < 0")
  case True
  define u where "u = - ts"
  have u: "0 < u" "ts = - u" using True by (simp_all add: u_def)
  have sd: "ts sdiv 1000 = - (u div 1000)" using u by (simp add: signed_divide_int_def sgn_if)
  have sm: "ts smod 1000 = - (u mod 1000)" unfolding signed_modulo_int_def sd using u by (simp add: minus_div_mult_eq_mod [symmetric])
  have "(- u) div 1000 = (if u mod 1000 = 0 then - (u div 1000) else - (u div 1000) - 1)"
    using zdiv_zminus1_eq_if [of 1000 u] by simp
  with True sd sm u show ?thesis by simp
next
  case False
  then show ?thesis by (simp add: signed_divide_int_def sgn_if)
qed

lemma OffsetAt_eq: "OffsetAt zones ts tz = (if tz = [] then 0 else ts div 1000 * 1000 + zone_offset zones tz (ts div 1000) * 1000 - ts)"
  unfolding OffsetAt_def Let_def floor_sec by simp

definition steady :: "tzdata \<Rightarrow> string \<Rightarrow> int \<Rightarrow> bool" where
  "steady zones tz c \<longleftrightarrow> (\<forall>sec. zone_offset zones tz sec = c)"

lemma steady_empty: "steady zones [] c \<longleftrightarrow> c = 0"
  by (simp add: steady_def zone_offset_def)

lemma wall_ms_mod: "1000 dvd wall_ms c"
  unfolding wall_ms_def date_ms_def by (simp add: dvd_mult)

lemma InstantOf_steady: "steady zones tz c \<Longrightarrow> InstantOf zones w tz = wall_ms w - c * 1000"
proof -
  assume st: "steady zones tz c"
  have zo: "zone_offset zones tz s = c" for s using st by (simp add: steady_def)
  show ?thesis
  proof (cases "tz = []")
    case True
    then have "c = 0" using st by (simp add: steady_empty)
    with True show ?thesis by (simp add: InstantOf_def OffsetAt_eq eval_nat_numeral)
  next
    case False
    have d: "1000 dvd wall_ms w" "1000 dvd wall_ms w - c * 1000" using wall_ms_mod by simp_all
    then have "wall_ms w div 1000 * 1000 = wall_ms w" "(wall_ms w - c * 1000) div 1000 * 1000 = wall_ms w - c * 1000" by simp_all
    then have "OffsetAt zones (wall_ms w) tz = c * 1000" "OffsetAt zones (wall_ms w - c * 1000) tz = c * 1000"
      using False zo by (simp_all add: OffsetAt_eq)
    then show ?thesis by (simp add: InstantOf_def Let_def eval_nat_numeral)
  qed
qed

lemma local_steady:
  assumes "steady zones tz c"
  obtains l where "CivilAt zones ts tz = utc_fields l" "l - c * 1000 \<le> ts" "ts < l - c * 1000 + 1000"
    "tz \<noteq> [] \<Longrightarrow> 1000 dvd l" "tz = [] \<Longrightarrow> l = ts \<and> c = 0" "1000 dvd ts \<Longrightarrow> l = ts + c * 1000"
proof (cases "tz = []")
  case True
  with assms have "c = 0" by (simp add: steady_empty)
  with True show ?thesis by (intro that [of ts]) (simp_all add: CivilAt_def OffsetAt_eq)
next
  case False
  have "ts + OffsetAt zones ts tz = ts div 1000 * 1000 + c * 1000"
    using False assms by (simp add: OffsetAt_eq steady_def)
  moreover have "ts div 1000 * 1000 \<le> ts" "ts < ts div 1000 * 1000 + 1000" by linarith+
  ultimately show ?thesis using False
    by (intro that [of "ts div 1000 * 1000 + c * 1000"]) (simp_all add: CivilAt_def)
qed

text \<open>The day an instant falls in, and that fields and days fit together.\<close>

lemma utc_fields_sound:
  "valid_date (Year (utc_fields l)) (Month (utc_fields l) + 1) (Day (utc_fields l)) \<and>
   civil_days (Year (utc_fields l)) (Month (utc_fields l) + 1) (Day (utc_fields l)) = l div 86400000"
  using month_day_sound [of "l div 86400000"]
  by (cases "month_day (l div 86400000)") (simp add: utc_fields_def Let_def)

lemma civil_days_shift: "civil_days y m (d - k) = civil_days y m d - k" "civil_days y m 1 = civil_days y m d - (d - 1)"
  by (simp_all add: civil_days_def Let_def)

lemma wall_midnight: "wall_ms (civil y m d 0 0) = civil_days y (m + 1) d * 86400000"
  by (simp add: wall_ms_def civil_def date_ms_def)

lemma fields_of_ms:
  assumes "valid_date y m d" "0 \<le> r" "r < 86400000"
  shows "utc_fields (civil_days y m d * 86400000 + r) =
    \<lparr>Year = y, Month = m - 1, Day = d, Hour = r div 3600000, Minute = r div 60000 mod 60, Weekday = (civil_days y m d + 4) mod 7\<rparr>"
proof -
  have "(civil_days y m d * 86400000 + r) div 86400000 = civil_days y m d" "(civil_days y m d * 86400000 + r) mod 86400000 = r"
    using assms(2,3) by simp_all
  then show ?thesis using fields_of_civil [OF assms(1)] by (simp add: utc_fields_def Let_def)
qed

definition valid_civil :: "Civil \<Rightarrow> bool" where
  "valid_civil c \<longleftrightarrow> valid_date (Year c) (Month c + 1) (Day c) \<and> 0 \<le> Hour c \<and> Hour c < 24 \<and> 0 \<le> Minute c \<and> Minute c < 60"

lemma fields_of_wall:
  assumes "valid_civil c"
  shows "utc_fields (wall_ms c) = c\<lparr>Weekday := (civil_days (Year c) (Month c + 1) (Day c) + 4) mod 7\<rparr>"
proof -
  define r where "r = Hour c * 3600000 + Minute c * 60000"
  have w: "wall_ms c = civil_days (Year c) (Month c + 1) (Day c) * 86400000 + r"
    by (simp add: wall_ms_def date_ms_def r_def algebra_simps)
  have v: "0 \<le> Hour c" "Hour c \<le> 23" "0 \<le> Minute c" "Minute c \<le> 59" using assms by (simp_all add: valid_civil_def)
  have r: "0 \<le> r" "r < 86400000" using v by (simp_all add: r_def)
  have "r div 3600000 = Hour c" unfolding r_def using v by (intro int_div_pos_eq [of _ _ _ "Minute c * 60000"]) auto
  moreover have "r div 60000 = Hour c * 60 + Minute c" by (simp add: r_def)
  moreover have "(Hour c * 60 + Minute c) mod 60 = Minute c" using v by simp
  ultimately show ?thesis
    unfolding w using fields_of_ms [OF _ r] assms by (simp add: valid_civil_def)
qed

text \<open>In seconds: the three passes, where the offset changes at most once in the days around the time asked for.\<close>

definition local_ms :: "tzdata \<Rightarrow> millis \<Rightarrow> string \<Rightarrow> millis" where
  "local_ms zones ts tz = ts + OffsetAt zones ts tz"

definition one_change :: "tzdata \<Rightarrow> string \<Rightarrow> int \<Rightarrow> int \<Rightarrow> int \<Rightarrow> int \<Rightarrow> bool" where
  "one_change zones tz sec \<tau> before after \<longleftrightarrow>
     \<bar>before\<bar> < 86400 \<and> \<bar>after\<bar> < 86400 \<and> (\<forall>s. \<bar>zone_offset zones tz s\<bar> < 86400) \<and>
     (\<forall>s. \<bar>s - sec\<bar> < 86400 \<longrightarrow> zone_offset zones tz s = (if s < \<tau> then before else after))"

definition skipped :: "millis \<Rightarrow> int \<Rightarrow> int \<Rightarrow> int \<Rightarrow> bool" where
  "skipped wall \<tau> before after \<longleftrightarrow> 1000 * (\<tau> + before) \<le> wall \<and> wall < 1000 * (\<tau> + after)"

lemma OffsetAt_sec: "OffsetAt zones (1000 * s) tz = 1000 * zone_offset zones tz s"
  by (simp add: OffsetAt_eq zone_offset_def)

lemma local_ms_sec: "local_ms zones (1000 * s) tz = 1000 * (s + zone_offset zones tz s)"
  by (simp add: local_ms_def OffsetAt_sec)

lemma wall_sec: obtains w where "wall_ms c = 1000 * w"
  using wall_ms_mod [of c] by blast

lemma three_passes:
  assumes "one_change zones tz w \<tau> before after" "skipped (1000 * w) \<tau> before after"
  shows "local_ms zones (instant_loop zones tz (1000 * w) 3 (1000 * w)) tz =
    1000 * w + (if w < \<tau> then 1 else -1) * 1000 * (after - before)"
proof -
  have off: "zone_offset zones tz s = (if s < \<tau> then before else after)" if "\<bar>s - w\<bar> < 86400" for s
    using assms(1) that unfolding one_change_def by blast
  have b: "\<bar>before\<bar> < 86400" "\<bar>after\<bar> < 86400" using assms(1) by (simp_all add: one_change_def)
  have g: "\<tau> + before \<le> w" "w < \<tau> + after" using assms(2) by (simp_all add: skipped_def)
  have z: "zone_offset zones tz w = (if w < \<tau> then before else after)"
    "zone_offset zones tz (w - before) = after" "zone_offset zones tz (w - after) = before"
    using off [of w] off [of "w - before"] off [of "w - after"] b g by auto
  have e: "1000 * w - 1000 * x = 1000 * (w - x)" for x by simp
  show ?thesis
    using z g by (cases "w < \<tau>"; simp add: eval_nat_numeral OffsetAt_sec e local_ms_sec Let_def del: right_diff_distrib_numeral; simp add: right_diff_distrib)
qed

lemma three_passes_find:
  assumes "one_change zones tz w \<tau> before after" "\<not> skipped (1000 * w) \<tau> before after"
  shows "local_ms zones (instant_loop zones tz (1000 * w) 3 (1000 * w)) tz = 1000 * w"
proof -
  have off: "zone_offset zones tz s = (if s < \<tau> then before else after)" if "\<bar>s - w\<bar> < 86400" for s
    using assms(1) that unfolding one_change_def by blast
  have b: "\<bar>before\<bar> < 86400" "\<bar>after\<bar> < 86400" using assms(1) by (simp_all add: one_change_def)
  have z: "zone_offset zones tz w = (if w < \<tau> then before else after)"
    "zone_offset zones tz (w - before) = (if w - before < \<tau> then before else after)"
    "zone_offset zones tz (w - after) = (if w - after < \<tau> then before else after)"
    using off [of w] off [of "w - before"] off [of "w - after"] b by auto
  have e: "1000 * w - 1000 * x = 1000 * (w - x)" for x by simp
  have g: "w - before < \<tau> \<or> \<not> w - after < \<tau>" using assms(2) by (auto simp: skipped_def)
  show ?thesis
    using z g by (cases "w < \<tau>"; cases "w - before < \<tau>"; cases "w - after < \<tau>")
      (simp_all add: eval_nat_numeral OffsetAt_sec e local_ms_sec Let_def del: right_diff_distrib_numeral)
qed

lemma skipped_never_read:
  assumes "one_change zones tz w \<tau> before after" "skipped (1000 * w) \<tau> before after"
  shows "local_ms zones t tz \<noteq> 1000 * w"
proof
  assume l: "local_ms zones t tz = 1000 * w"
  have b: "\<bar>zone_offset zones tz (t div 1000)\<bar> < 86400" using assms(1) by (simp add: one_change_def)
  have r: "t div 1000 + zone_offset zones tz (t div 1000) = w"
  proof (cases "tz = []")
    case True
    then show ?thesis using l by (simp add: local_ms_def OffsetAt_eq zone_offset_def)
  next
    case False
    then show ?thesis using l by (simp add: local_ms_def OffsetAt_eq)
  qed
  then have "\<bar>t div 1000 - w\<bar> < 86400" using b by linarith
  then have "zone_offset zones tz (t div 1000) = (if t div 1000 < \<tau> then before else after)"
    using assms(1) unfolding one_change_def by blast
  with r assms(2) show False by (auto simp: skipped_def split: if_splits)
qed

lemma reads_wall:
  assumes "valid_civil c" "local_ms zones t tz = wall_ms c"
  shows "CivilAt zones t tz = c\<lparr>Weekday := (civil_days (Year c) (Month c + 1) (Day c) + 4) mod 7\<rparr>"
proof -
  have "CivilAt zones t tz = utc_fields (wall_ms c)" using assms(2) by (simp add: CivilAt_def local_ms_def)
  then show ?thesis using fields_of_wall [OF assms(1)] by simp
qed

lemma instant_found:
  assumes "one_change zones tz (wall_ms c div 1000) \<tau> before after"
  shows "local_ms zones (InstantOf zones c tz) tz =
      (if skipped (wall_ms c) \<tau> before after
       then wall_ms c + (if wall_ms c < 1000 * \<tau> then 1 else -1) * 1000 * (after - before) else wall_ms c)"
    "skipped (wall_ms c) \<tau> before after \<longleftrightarrow> (\<nexists>t. local_ms zones t tz = wall_ms c)"
proof -
  obtain w where w: "wall_ms c = 1000 * w" by (rule wall_sec)
  then have o: "one_change zones tz w \<tau> before after" using assms by simp
  show p: "local_ms zones (InstantOf zones c tz) tz =
      (if skipped (wall_ms c) \<tau> before after
       then wall_ms c + (if wall_ms c < 1000 * \<tau> then 1 else -1) * 1000 * (after - before) else wall_ms c)"
    using three_passes [OF o] three_passes_find [OF o] by (simp add: InstantOf_def w)
  show "skipped (wall_ms c) \<tau> before after \<longleftrightarrow> (\<nexists>t. local_ms zones t tz = wall_ms c)"
    using skipped_never_read [OF o] p w by (cases "skipped (wall_ms c) \<tau> before after") auto
qed

text \<open>
  C20. A wall-clock time is found again wherever the clock shows it, across a change of the clock too. Let the zone's
  offset change at most once in the two days around the time (from \<open>before\<close> to \<open>after\<close> at the second \<open>\<tau>\<close>), and stay under
  a day. If any instant reads as that valid date and time to the second, then the instant computed does, and its civil
  fields are the ones asked for. If none does, because the clock jumps over the time, the instant computed reads as that
  time moved by the whole jump: later when the wall time taken as UTC lies before the change, earlier otherwise.
\<close>

theorem instant_exact:
  assumes "valid_civil c" "one_change zones tz (wall_ms c div 1000) \<tau> before after"
  shows "(\<exists>t. local_ms zones t tz = wall_ms c) \<and> local_ms zones (InstantOf zones c tz) tz = wall_ms c \<and>
      CivilAt zones (InstantOf zones c tz) tz = c\<lparr>Weekday := (civil_days (Year c) (Month c + 1) (Day c) + 4) mod 7\<rparr> \<or>
    (\<nexists>t. local_ms zones t tz = wall_ms c) \<and> before < after \<and>
      CivilAt zones (InstantOf zones c tz) tz =
        utc_fields (wall_ms c + (if wall_ms c < 1000 * \<tau> then 1 else -1) * 1000 * (after - before))"
proof (cases "skipped (wall_ms c) \<tau> before after")
  case True
  then show ?thesis using instant_found [OF assms(2)] by (auto simp: skipped_def CivilAt_def local_ms_def [symmetric])
next
  case False
  then show ?thesis using instant_found [OF assms(2)] reads_wall [OF assms(1)] by auto
qed

definition utc_only :: tzdata where "utc_only = (\<lambda>_. None)"

text \<open>New York in 2024: at two in the morning of March the tenth, five hours behind UTC, the clock jumps to three.\<close>

definition new_york :: tzdata where
  "new_york = (\<lambda>name. if name = ''America/New_York'' then Some (\<lambda>s. if s < 1710054000 then -18000 else -14400) else None)"

lemma new_york_change: "one_change new_york ''America/New_York'' sec 1710054000 (-18000) (-14400)"
  by (simp add: one_change_def zone_offset_def new_york_def)

theorem instant_exact_witness:
  "CivilAt new_york (InstantOf new_york (civil 2024 2 10 3 30) ''America/New_York'') ''America/New_York'' = (civil 2024 2 10 3 30)\<lparr>Weekday := 0\<rparr> \<and>
   CivilAt new_york (InstantOf new_york (civil 2024 2 10 2 30) ''America/New_York'') ''America/New_York'' = (civil 2024 2 10 3 30)\<lparr>Weekday := 0\<rparr>"
proof
  have "valid_civil (civil 2024 2 10 3 30)" by code_simp
  moreover have "local_ms new_york 1710055800000 ''America/New_York'' = wall_ms (civil 2024 2 10 3 30)" by code_simp
  moreover have "(civil_days 2024 3 10 + 4) mod 7 = 0" by code_simp
  ultimately show "CivilAt new_york (InstantOf new_york (civil 2024 2 10 3 30) ''America/New_York'') ''America/New_York'' = (civil 2024 2 10 3 30)\<lparr>Weekday := 0\<rparr>"
    using instant_exact [OF _ new_york_change, of "civil 2024 2 10 3 30"] by (auto simp: civil_def)
  have v: "valid_civil (civil 2024 2 10 2 30)" by code_simp
  have "skipped (wall_ms (civil 2024 2 10 2 30)) 1710054000 (-18000) (-14400)" by code_simp
  then have "\<nexists>t. local_ms new_york t ''America/New_York'' = wall_ms (civil 2024 2 10 2 30)" using instant_found(2) [OF new_york_change] by blast
  moreover have "utc_fields (wall_ms (civil 2024 2 10 2 30) + 3600000) = (civil 2024 2 10 3 30)\<lparr>Weekday := 0\<rparr>" by code_simp
  moreover have "wall_ms (civil 2024 2 10 2 30) < 1710054000000" by code_simp
  ultimately show "CivilAt new_york (InstantOf new_york (civil 2024 2 10 2 30) ''America/New_York'') ''America/New_York'' = (civil 2024 2 10 3 30)\<lparr>Weekday := 0\<rparr>"
    using instant_exact [OF v new_york_change] by auto
qed

end
