(* ===== verification/Reports.thy ===== *)
theory Reports
  imports Calendar
begin

text \<open>
  Scheduled reports: the calendar period a report covers, when it is sent and whether one is due
  (\<^verbatim>\<open>internal/reports/period.go\<close>), and the history of a schedule's runs that
  \<^verbatim>\<open>internal/server/report_scheduler.go\<close> reads before it asks.
\<close>

section \<open>Reporting periods\<close>

definition Frequencies :: "string list" where
  "Frequencies = [''daily'', ''weekly'', ''monthly'']"

definition MaxAttempts :: int where "MaxAttempts = 3"

definition RetryAfterMs :: millis where "RetryAfterMs = 30 * 60 * 1000"

record Period =
  pFrom :: millis
  pTo :: millis

definition PeriodFor :: "tzdata \<Rightarrow> string \<Rightarrow> millis \<Rightarrow> string \<Rightarrow> Period option" where
  "PeriodFor zones frequency now tz =
     (let c = CivilAt zones now tz;
          at = (\<lambda>m d. InstantOf zones (civil (Year c) m d 0 0) tz)
      in if frequency = ''daily'' then Some \<lparr>pFrom = at (Month c) (Day c - 1), pTo = at (Month c) (Day c)\<rparr>
         else if frequency = ''weekly''
         then let back = (Weekday c + 6) mod 7
              in Some \<lparr>pFrom = at (Month c) (Day c - back - 7), pTo = at (Month c) (Day c - back)\<rparr>
         else if frequency = ''monthly'' then Some \<lparr>pFrom = at (Month c - 1) 1, pTo = at (Month c) 1\<rparr>
         else None)"

definition FireAt :: "tzdata \<Rightarrow> Period \<Rightarrow> int \<Rightarrow> string \<Rightarrow> millis" where
  "FireAt zones p sendHour tz =
     (let c = CivilAt zones (pTo p) tz;
          h0 = (if sendHour < 0 then 0 else sendHour);
          h = (if 23 < h0 then 23 else h0)
      in InstantOf zones (civil (Year c) (Month c) (Day c) h 0) tz)"

record Schedule =
  s_Enabled :: bool
  Frequency :: string
  SendHour :: int
  CreatedAt :: millis
  s_Name :: string

record History =
  LastRun :: millis
  LastOutcome :: string
  RunsInPeriod :: int

definition DueWindow :: "tzdata \<Rightarrow> Schedule \<Rightarrow> History \<Rightarrow> millis \<Rightarrow> string \<Rightarrow> Period option" where
  "DueWindow zones s h now tz =
     (if \<not> s_Enabled s then None
      else case PeriodFor zones (Frequency s) now tz of
        None \<Rightarrow> None
      | Some period \<Rightarrow>
          let fire = FireAt zones period (SendHour s) tz;
              floor = (if LastRun h = 0 then CreatedAt s else LastRun h)
          in if now < fire then None
             else if floor < fire then Some period
             else if LastOutcome h \<noteq> ''failed'' then None
             else if MaxAttempts \<le> RunsInPeriod h then None
             else if now - LastRun h < RetryAfterMs then None
             else Some period)"

text \<open>The history of a schedule's recorded runs, as the scheduler reads it before it asks.\<close>

record ReportRun =
  RanAt :: millis
  Outcome :: string
  PeriodFrom :: millis

definition count_run :: "Period \<Rightarrow> History \<Rightarrow> ReportRun \<Rightarrow> History" where
  "count_run p h rr =
     (let h1 = (if LastRun h < RanAt rr then h\<lparr>LastRun := RanAt rr, LastOutcome := Outcome rr\<rparr> else h)
      in if PeriodFrom rr = pFrom p then h1\<lparr>RunsInPeriod := RunsInPeriod h1 + 1\<rparr> else h1)"

definition no_history :: History where
  "no_history = \<lparr>LastRun = 0, LastOutcome = [], RunsInPeriod = 0\<rparr>"

text \<open>\<open>runs\<close> is what the database returned; a failed read is \<^const>\<open>Inl\<close>.\<close>

definition history :: "tzdata \<Rightarrow> ReportRun list result \<Rightarrow> string \<Rightarrow> millis \<Rightarrow> string \<Rightarrow> History" where
  "history zones runs frequency now tz =
     (case runs of
        Inl _ \<Rightarrow> no_history
      | Inr rs \<Rightarrow>
          if rs = [] then no_history
          else foldl (count_run (case PeriodFor zones frequency now tz of Some p \<Rightarrow> p | None \<Rightarrow> \<lparr>pFrom = 0, pTo = 0\<rparr>)) no_history rs)"

section \<open>A period is the last complete one\<close>

text \<open>The instants at which a period of the frequency starts, on the zone's own calendar.\<close>

definition starts_period :: "tzdata \<Rightarrow> string \<Rightarrow> string \<Rightarrow> millis \<Rightarrow> bool" where
  "starts_period zones f tz t \<longleftrightarrow>
     (\<exists>y m d. valid_date y (m + 1) d \<and> t = InstantOf zones (civil y m d 0 0) tz \<and>
        (f = ''weekly'' \<longrightarrow> (civil_days y (m + 1) d + 4) mod 7 = 1) \<and> (f = ''monthly'' \<longrightarrow> d = 1))"

text \<open>The same on day numbers.\<close>

definition starts_day :: "string \<Rightarrow> int \<Rightarrow> bool" where
  "starts_day f n \<longleftrightarrow> (f = ''weekly'' \<longrightarrow> (n + 4) mod 7 = 1) \<and> (f = ''monthly'' \<longrightarrow> snd (month_day n) = 1)"

lemma day_instant: "steady zones tz c \<Longrightarrow> InstantOf zones (civil y m d 0 0) tz = civil_days y (m + 1) d * 86400000 - c * 1000"
  by (simp add: InstantOf_steady wall_midnight)

lemma starts_period_day:
  assumes "steady zones tz c"
  shows "starts_period zones f tz t \<longleftrightarrow> (\<exists>n. starts_day f n \<and> t = n * 86400000 - c * 1000)"
proof
  assume "starts_period zones f tz t"
  then obtain y m d where h: "valid_date y (m + 1) d" "t = InstantOf zones (civil y m d 0 0) tz"
      "f = ''weekly'' \<longrightarrow> (civil_days y (m + 1) d + 4) mod 7 = 1" "f = ''monthly'' \<longrightarrow> d = 1"
    by (auto simp: starts_period_def)
  have "starts_day f (civil_days y (m + 1) d)" using h(3,4) fields_of_civil [OF h(1)] by (auto simp: starts_day_def)
  then show "\<exists>n. starts_day f n \<and> t = n * 86400000 - c * 1000" using h(2) day_instant [OF assms] by blast
next
  assume "\<exists>n. starts_day f n \<and> t = n * 86400000 - c * 1000"
  then obtain n where n: "starts_day f n" "t = n * 86400000 - c * 1000" by blast
  obtain m d where md: "month_day n = (m, d)" by (cases "month_day n")
  from month_day_sound [OF this] have s: "valid_date (year_of n) m d" "civil_days (year_of n) m d = n" by simp_all
  show "starts_period zones f tz t"
    unfolding starts_period_def using s n md
    by (intro exI [of _ "year_of n"] exI [of _ "m - 1"] exI [of _ d]) (simp add: day_instant [OF assms] starts_day_def)
qed

lemma starts_monthly: "starts_day ''monthly'' n \<longleftrightarrow> (\<exists>y m. 1 \<le> m \<and> m \<le> 12 \<and> n = civil_days y m 1)"
proof
  assume h: "starts_day ''monthly'' n"
  obtain m d where md: "month_day n = (m, d)" by (cases "month_day n")
  with h month_day_sound [OF md] show "\<exists>y m. 1 \<le> m \<and> m \<le> 12 \<and> n = civil_days y m 1"
    by (intro exI [of _ "year_of n"] exI [of _ m]) (simp add: starts_day_def valid_date_def)
next
  assume "\<exists>y m. 1 \<le> m \<and> m \<le> 12 \<and> n = civil_days y m 1"
  then obtain y m where h: "1 \<le> m" "m \<le> 12" "n = civil_days y m 1" by blast
  have "valid_date y m 1" using h month_days_bounds(1) [of y m] by (simp add: valid_date_def)
  from fields_of_civil [OF this] h(3) show "starts_day ''monthly'' n" by (simp add: starts_day_def)
qed

lemma month_first_before:
  assumes "valid_date y m d" "1 \<le> m'" "m' \<le> 12" "civil_days y' m' 1 \<le> civil_days y m d"
  shows "(y', m') \<le> (y, m)"
proof (rule ccontr)
  assume "\<not> (y', m') \<le> (y, m)"
  then have lt: "(y, m, d) < (y', m', 1)" by (auto simp: less_prod_def' less_eq_prod_def)
  have v: "valid_date y' m' 1" using assms(2,3) month_days_bounds(1) [of y' m'] by (simp add: valid_date_def)
  show False using civil_days_less [OF assms(1) v lt] assms(4) by simp
qed

text \<open>The first days of two consecutive months, and the day that follows them.\<close>

lemma first_valid: "1 \<le> m \<Longrightarrow> m \<le> 12 \<Longrightarrow> valid_date y m 1"
  using month_days_bounds(1) [of y m] by (simp add: valid_date_def)

lemma previous_month:
  assumes "valid_date y m d"
  obtains y' m' where "1 \<le> m'" "m' \<le> 12" "civil_days y (m - 1) 1 = civil_days y' m' 1" "(y', m') < (y, m)"
    "\<And>a b. 1 \<le> b \<Longrightarrow> b \<le> 12 \<Longrightarrow> (y', m') < (a, b) \<Longrightarrow> (y, m) \<le> (a, b)"
proof (cases "m = 1")
  case True
  have "civil_days y 0 1 = civil_days (y - 1) 12 1" by (simp add: civil_days_def Let_def)
  with True show ?thesis by (intro that [of 12 "y - 1"]) (auto simp: less_prod_def' less_eq_prod_def)
next
  case False
  with assms show ?thesis by (intro that [of "m - 1" y]) (auto simp: valid_date_def less_prod_def' less_eq_prod_def)
qed

text \<open>
  \<open>a\<close> and \<open>b\<close> are consecutive starts, and \<open>b\<close> is the last one up to day \<open>n\<close>.
\<close>

definition last_complete :: "(int \<Rightarrow> bool) \<Rightarrow> int \<Rightarrow> int \<Rightarrow> int \<Rightarrow> bool" where
  "last_complete P a b n \<longleftrightarrow> P a \<and> P b \<and> a < b \<and> b \<le> n \<and> (\<forall>k. P k \<and> k \<le> n \<longrightarrow> k \<le> a \<or> k = b)"

lemma last_complete_daily: "last_complete (starts_day ''daily'') (n - 1) n n"
  by (auto simp: last_complete_def starts_day_def)

lemma last_complete_weekly:
  assumes "bk = (w + 6) mod 7" "w = (n + 4) mod 7"
  shows "last_complete (starts_day ''weekly'') (n - bk - 7) (n - bk) n"
proof -
  have bk: "0 \<le> bk" "bk < 7" using assms(1) by simp_all
  have m: "(n - bk + 4) mod 7 = 1" unfolding assms by presburger
  have "(n - bk - 7 + 4) mod 7 = 1" using m by presburger
  moreover have "k \<le> n - bk - 7 \<or> k = n - bk" if "(k + 4) mod 7 = 1" "k \<le> n" for k
    using that m bk by presburger
  ultimately show ?thesis using m bk by (simp add: last_complete_def starts_day_def)
qed

lemma last_complete_monthly:
  assumes "valid_date y m d"
  shows "last_complete (starts_day ''monthly'') (civil_days y (m - 1) 1) (civil_days y m 1) (civil_days y m d)"
proof -
  obtain y' m' where p: "1 \<le> m'" "m' \<le> 12" "civil_days y (m - 1) 1 = civil_days y' m' 1" "(y', m') < (y, m)"
      "\<And>a b. 1 \<le> b \<Longrightarrow> b \<le> 12 \<Longrightarrow> (y', m') < (a, b) \<Longrightarrow> (y, m) \<le> (a, b)"
    using previous_month [OF assms] by metis
  have m: "1 \<le> m" "m \<le> 12" "1 \<le> d" using assms by (simp_all add: valid_date_def)
  note v = first_valid [OF m(1,2), of y] first_valid [OF p(1,2), of y']
  have lt: "civil_days y' m' 1 < civil_days y m 1"
    using civil_days_less [OF v(2) v(1)] p(4) by (auto simp: less_prod_def')
  have le: "civil_days y m 1 \<le> civil_days y m d" using civil_days_shift(2) [of y m d] m(3) by simp
  have "k \<le> civil_days y' m' 1 \<or> k = civil_days y m 1" if k: "starts_day ''monthly'' k" "k \<le> civil_days y m d" for k
  proof -
    from k(1) obtain a b where ab: "1 \<le> b" "b \<le> 12" "k = civil_days a b 1" unfolding starts_monthly by blast
    have u: "(a, b) \<le> (y, m)" using month_first_before [OF assms ab(1,2)] k(2) ab(3) by simp
    show ?thesis
    proof (cases "(y', m') < (a, b)")
      case True
      have "(a, b) = (y, m)" by (rule order.antisym [OF u p(5) [OF ab(1,2) True]])
      with ab show ?thesis by simp
    next
      case False
      then have "(a, b) \<le> (y', m')" by (simp only: not_less)
      then have "(a, b) = (y', m') \<or> (a, b, 1) < (y', m', 1::int)" by (cases "(a, b) = (y', m')") (auto simp: less_eq_prod_def less_prod_def')
      then have "civil_days a b 1 \<le> civil_days y' m' 1"
      proof
        assume "(a, b, 1) < (y', m', 1::int)"
        from civil_days_less [OF first_valid [OF ab(1,2)] v(2) this] show ?thesis by simp
      qed simp
      with ab(3) show ?thesis by simp
    qed
  qed
  moreover have "starts_day ''monthly'' (civil_days y m 1)" "starts_day ''monthly'' (civil_days y' m' 1)"
    unfolding starts_monthly using m p(1,2) by blast+
  ultimately show ?thesis unfolding last_complete_def p(3) using lt le by blast
qed

lemma PeriodFor_days:
  assumes "steady zones tz c" "PeriodFor zones f now tz = Some p" "CivilAt zones now tz = utc_fields l"
  obtains a b where "last_complete (starts_day f) a b (l div 86400000)" "pFrom p = a * 86400000 - c * 1000" "pTo p = b * 86400000 - c * 1000"
proof -
  define y where "y = Year (utc_fields l)"
  define m where "m = Month (utc_fields l)"
  define d where "d = Day (utc_fields l)"
  have s: "valid_date y (m + 1) d" "civil_days y (m + 1) d = l div 86400000"
    using utc_fields_sound [of l] by (simp_all add: y_def m_def d_def)
  have w: "Weekday (utc_fields l) = (l div 86400000 + 4) mod 7" by (simp add: utc_fields_def Let_def)
  note P = assms(2) [unfolded PeriodFor_def assms(3) Let_def day_instant [OF assms(1)], folded y_def m_def d_def]
  consider "f = ''daily''" | "f = ''weekly''" | "f = ''monthly''" using P by (auto split: if_splits)
  then show ?thesis
  proof cases
    case 1
    with P s(2) last_complete_daily show ?thesis
      by (intro that [of "l div 86400000 - 1" "l div 86400000"]) (auto simp: civil_days_shift(1))
  next
    case 2
    define bk where "bk = (Weekday (utc_fields l) + 6) mod 7"
    from 2 P have "p = \<lparr>pFrom = civil_days y (m + 1) (d - bk - 7) * 86400000 - c * 1000, pTo = civil_days y (m + 1) (d - bk) * 86400000 - c * 1000\<rparr>"
      by (simp add: bk_def)
    with 2 s(2) last_complete_weekly [OF bk_def w] show ?thesis
      by (intro that [of "l div 86400000 - bk - 7" "l div 86400000 - bk"]) (auto simp: civil_days_shift(1))
  next
    case 3
    with P s(2) last_complete_monthly [OF s(1)] show ?thesis
      by (intro that [of "civil_days y m 1" "civil_days y (m + 1) 1"]) auto
  qed
qed

text \<open>
  A report covers the last complete calendar period: in a zone whose offset does not change the two ends of the
  window are starts of a period on that zone's calendar (midnight of a day, of a Monday, of the first of a month),
  the window is not empty and ends no later than now, and no other start lies inside it or between its end and now.
\<close>

theorem period_last_complete:
  assumes "steady zones tz c" "PeriodFor zones f now tz = Some p"
  shows "starts_period zones f tz (pFrom p) \<and> starts_period zones f tz (pTo p) \<and> pFrom p < pTo p \<and> pTo p \<le> now \<and>
    (\<forall>t. starts_period zones f tz t \<and> pFrom p < t \<and> t \<le> now \<longrightarrow> t = pTo p)"
proof -
  obtain l where l: "CivilAt zones now tz = utc_fields l" "l - c * 1000 \<le> now" "now < l - c * 1000 + 1000"
      "tz \<noteq> [] \<Longrightarrow> 1000 dvd l" "tz = [] \<Longrightarrow> l = now \<and> c = 0"
    using local_steady [OF assms(1), of now] by metis
  obtain a b where ab: "last_complete (starts_day f) a b (l div 86400000)" "pFrom p = a * 86400000 - c * 1000"
      "pTo p = b * 86400000 - c * 1000" using PeriodFor_days [OF assms l(1)] by blast
  have day: "k * 86400000 - c * 1000 \<le> now \<longleftrightarrow> k \<le> l div 86400000" for k
  proof (cases "tz = []")
    case True
    with l(5) show ?thesis by (simp, linarith)
  next
    case False
    with l(4) obtain j where "l = 1000 * j" by blast
    then have "k * 86400000 - c * 1000 \<le> now \<longleftrightarrow> k * 86400 \<le> j" using l(2,3) by linarith
    with \<open>l = 1000 * j\<close> show ?thesis by linarith
  qed
  note lc = ab(1) [unfolded last_complete_def]
  have "t = pTo p" if t: "starts_period zones f tz t" "pFrom p < t" "t \<le> now" for t
  proof -
    from t(1) obtain k where k: "starts_day f k" "t = k * 86400000 - c * 1000" using starts_period_day [OF assms(1)] by blast
    have "a < k" using t(2) k(2) ab(2) by simp
    moreover have "k \<le> l div 86400000" using t(3) k(2) day by simp
    ultimately have "k = b" using lc k(1) by force
    with k(2) ab(3) show ?thesis by simp
  qed
  moreover have "starts_period zones f tz (pFrom p)" "starts_period zones f tz (pTo p)"
    unfolding starts_period_day [OF assms(1)] ab(2,3) using lc by blast+
  moreover have "pFrom p < pTo p" using lc ab(2,3) by simp
  moreover have "pTo p \<le> now" using lc ab(3) day by simp
  ultimately show ?thesis by blast
qed

theorem period_last_complete_witness:
  "PeriodFor utc_only ''monthly'' 1709251200000 ''UTC'' = Some \<lparr>pFrom = 1706745600000, pTo = 1709251200000\<rparr> \<and>
   starts_period utc_only ''monthly'' ''UTC'' 1709251200000"
proof -
  have "steady utc_only ''UTC'' 0" by (simp add: steady_def zone_offset_def utc_only_def)
  moreover have p: "PeriodFor utc_only ''monthly'' 1709251200000 ''UTC'' = Some \<lparr>pFrom = 1706745600000, pTo = 1709251200000\<rparr>"
    by code_simp
  ultimately show ?thesis using period_last_complete [of utc_only "''UTC''" 0, OF _ p] by simp
qed

section \<open>Whether a report is due\<close>

lemma count_run_simps [simp]:
  "LastRun (count_run p h r) = max (LastRun h) (RanAt r)"
  "LastOutcome (count_run p h r) = (if LastRun h < RanAt r then Outcome r else LastOutcome h)"
  "RunsInPeriod (count_run p h r) = RunsInPeriod h + (if PeriodFrom r = pFrom p then 1 else 0)"
  by (simp_all add: count_run_def Let_def)

lemma fold_runs:
  "RunsInPeriod (foldl (count_run p) h rs) = RunsInPeriod h + int (length (filter (\<lambda>r. PeriodFrom r = pFrom p) rs))"
  by (induction rs arbitrary: h) auto

text \<open>The latest run of a list is the one the scan keeps; the scan starts below every run.\<close>

lemma fold_latest:
  assumes "\<forall>r\<in>set rs. LastRun h < RanAt r" "distinct (map RanAt rs)" "r \<in> set rs" "\<forall>r'\<in>set rs. RanAt r' \<le> RanAt r"
  shows "LastRun (foldl (count_run p) h rs) = RanAt r \<and> LastOutcome (foldl (count_run p) h rs) = Outcome r"
  using assms
proof (induction rs rule: rev_induct)
  case Nil
  then show ?case by simp
next
  case (snoc x xs)
  define g where "g = foldl (count_run p) h xs"
  have bound: "LastRun (foldl (count_run p) k ys) \<le> b" if "LastRun k \<le> b" "\<forall>r'\<in>set ys. RanAt r' \<le> b" for k ys b
    using that by (induction ys arbitrary: k) auto
  show ?case
  proof (cases "x = r")
    case True
    have "RanAt r' < RanAt r" if "r' \<in> set xs" for r'
    proof -
      have "RanAt r' \<noteq> RanAt r" using snoc.prems(2) True that by (auto simp: image_iff)
      then show ?thesis using snoc.prems(4) that by (simp add: order.strict_iff_order)
    qed
    then have "\<forall>r'\<in>set xs. RanAt r' \<le> RanAt r - 1" by force
    moreover have "LastRun h \<le> RanAt r - 1" using snoc.prems(1,3) by force
    ultimately have "LastRun g \<le> RanAt r - 1" unfolding g_def by (intro bound)
    with True show ?thesis by (simp add: g_def [symmetric])
  next
    case False
    then have "LastRun g = RanAt r \<and> LastOutcome g = Outcome r"
      unfolding g_def using snoc.prems by (intro snoc.IH) auto
    moreover have "RanAt x \<le> RanAt r" using snoc.prems(4) by simp
    ultimately show ?thesis by (simp add: g_def [symmetric])
  qed
qed

lemma latest_exists: "rs \<noteq> [] \<Longrightarrow> \<exists>r\<in>set rs. \<forall>r'\<in>set rs. RanAt r' \<le> RanAt r"
proof -
  assume "rs \<noteq> []"
  then have "Max (RanAt ` set rs) \<in> RanAt ` set rs" by (intro Max_in) simp_all
  then obtain r where "r \<in> set rs" "RanAt r = Max (RanAt ` set rs)" by (metis imageE)
  then show ?thesis by (intro bexI [of _ r]) (simp_all add: Max_ge)
qed

text \<open>
  What should hold of a report that goes out now, in terms of the runs on record: nothing has run since the send
  hour (with no runs at all, the schedule is older than it), or the last run failed, at least half an hour ago, and
  fewer than three runs are on record for the period.
\<close>

definition wanted :: "Schedule \<Rightarrow> ReportRun list \<Rightarrow> Period \<Rightarrow> millis \<Rightarrow> millis \<Rightarrow> bool" where
  "wanted s rs p fire now \<longleftrightarrow>
     (if rs = [] then CreatedAt s < fire
      else (\<forall>r\<in>set rs. RanAt r < fire) \<or>
           (\<exists>r\<in>set rs. (\<forall>r'\<in>set rs. RanAt r' \<le> RanAt r) \<and> Outcome r = ''failed'' \<and> RetryAfterMs \<le> now - RanAt r) \<and>
           int (length (filter (\<lambda>r. PeriodFrom r = pFrom p) rs)) < MaxAttempts)"

text \<open>
  C21. A report is due exactly when it should go out: an enabled schedule whose send hour has passed reports on the
  current window precisely when nothing has run for it, or a failed attempt is retried within its limits. So a
  period that was sent is not sent again while its run is on record, and a dead mail host is tried three times.
\<close>

theorem report_due_exact:
  assumes "\<forall>r\<in>set rs. 0 < RanAt r" "distinct (map RanAt rs)"
  shows "DueWindow zones s (history zones (Inr rs) (Frequency s) now tz) now tz = Some p \<longleftrightarrow>
    s_Enabled s \<and> PeriodFor zones (Frequency s) now tz = Some p \<and> FireAt zones p (SendHour s) tz \<le> now \<and>
    wanted s rs p (FireAt zones p (SendHour s) tz) now"
proof (cases "s_Enabled s \<and> PeriodFor zones (Frequency s) now tz = Some p")
  case False
  then show ?thesis by (auto simp: DueWindow_def Let_def split: option.splits if_splits)
next
  case on: True
  define fire where "fire = FireAt zones p (SendHour s) tz"
  define h where "h = history zones (Inr rs) (Frequency s) now tz"
  have due: "DueWindow zones s h now tz = Some p \<longleftrightarrow> fire \<le> now \<and>
      ((if LastRun h = 0 then CreatedAt s else LastRun h) < fire \<or>
       LastOutcome h = ''failed'' \<and> RunsInPeriod h < MaxAttempts \<and> RetryAfterMs \<le> now - LastRun h)"
    using on by (simp add: DueWindow_def Let_def fire_def [symmetric])
  show ?thesis
  proof (cases "rs = []")
    case True
    then have "h = no_history" by (simp add: h_def history_def)
    with on True show ?thesis unfolding h_def [symmetric] fire_def [symmetric] due by (simp add: no_history_def wanted_def)
  next
    case False
    obtain r where r: "r \<in> set rs" "\<forall>r'\<in>set rs. RanAt r' \<le> RanAt r" using latest_exists [OF False] by blast
    have h: "h = foldl (count_run p) no_history rs" using on False by (simp add: h_def history_def)
    have l: "LastRun h = RanAt r" "LastOutcome h = Outcome r"
      using fold_latest [of rs no_history r p] assms r by (simp_all add: h no_history_def)
    have n: "RunsInPeriod h = int (length (filter (\<lambda>r. PeriodFrom r = pFrom p) rs))" by (simp add: h fold_runs no_history_def)
    have u: "r' = r" if "r' \<in> set rs" "\<forall>r''\<in>set rs. RanAt r'' \<le> RanAt r'" for r'
      using that r assms(2) by (metis distinct_map inj_on_def order.antisym)
    have w: "wanted s rs p fire now \<longleftrightarrow> RanAt r < fire \<or>
        Outcome r = ''failed'' \<and> RetryAfterMs \<le> now - RanAt r \<and> int (length (filter (\<lambda>r. PeriodFrom r = pFrom p) rs)) < MaxAttempts"
    proof -
      have "(\<forall>r\<in>set rs. RanAt r < fire) \<longleftrightarrow> RanAt r < fire" using r by (meson order.strict_trans1)
      moreover have "(\<exists>r\<in>set rs. (\<forall>r'\<in>set rs. RanAt r' \<le> RanAt r) \<and> Q r) \<longleftrightarrow> Q r" for Q using r u by metis
      ultimately show ?thesis using False by (simp add: wanted_def)
    qed
    have "LastRun h \<noteq> 0" using assms(1) r(1) l(1) by force
    then show ?thesis unfolding h_def [symmetric] fire_def [symmetric] due w l n using on by auto
  qed
qed

definition demo_schedule :: Schedule where
  "demo_schedule = \<lparr>s_Enabled = True, Frequency = ''daily'', SendHour = 7, CreatedAt = 1, s_Name = ''daily''\<rparr>"

definition demo_sent :: ReportRun where
  "demo_sent = \<lparr>RanAt = 1709276400000, Outcome = ''sent'', PeriodFrom = 1709164800000\<rparr>"

theorem report_due_exact_witness:
  "DueWindow utc_only demo_schedule (history utc_only (Inr [demo_sent]) ''daily'' 1709280000000 ''UTC'') 1709280000000 ''UTC'' \<noteq>
     Some \<lparr>pFrom = 1709164800000, pTo = 1709251200000\<rparr>"
proof -
  have "\<not> wanted demo_schedule [demo_sent] \<lparr>pFrom = 1709164800000, pTo = 1709251200000\<rparr> 1709276400000 1709280000000"
    by code_simp
  moreover have "FireAt utc_only \<lparr>pFrom = 1709164800000, pTo = 1709251200000\<rparr> 7 ''UTC'' = 1709276400000" by code_simp
  ultimately show ?thesis
    using report_due_exact [of "[demo_sent]" utc_only demo_schedule 1709280000000 "''UTC''"]
    by (simp add: demo_sent_def demo_schedule_def)
qed

text \<open>
  When the runs cannot be read the scheduler takes the history to be empty, so a period that was sent is due again.
\<close>

lemma history_fault_resends:
  "\<exists>zones rs s now tz p. DueWindow zones s (history zones (Inr rs) (Frequency s) now tz) now tz = None \<and>
     DueWindow zones s (history zones (Inl e) (Frequency s) now tz) now tz = Some p"
proof -
  have "DueWindow utc_only demo_schedule (history utc_only (Inr [demo_sent]) (Frequency demo_schedule) 1709280000000 ''UTC'') 1709280000000 ''UTC'' = None"
    by code_simp
  moreover have "DueWindow utc_only demo_schedule no_history 1709280000000 ''UTC'' = Some \<lparr>pFrom = 1709164800000, pTo = 1709251200000\<rparr>"
    by code_simp
  ultimately show ?thesis by (metis (no_types, lifting) history_def old.sum.simps(5))
qed

end
