(* ===== verification/Ros_Wire.thy ===== *)
theory Ros_Wire
  imports Go_Strings "HOL-Library.Word"
begin

text \<open>
  The wire of the RouterOS API, as \<^verbatim>\<open>internal/routeros\<close> reads it beside the client library: the
  \<open>framer\<close> that splits a byte stream into words and sentences (\<^verbatim>\<open>framer.go\<close>), the watcher that catches the
  reason a router gives for ending a session (\<^verbatim>\<open>fatalwatch.go\<close>) and the one that reads the tag of each
  command written (\<^verbatim>\<open>tagwatch.go\<close>).

  A byte is a \<^typ>\<open>char\<close>. The callbacks of a framer change what their closures captured; that captured state is
  the field \<open>watcher\<close>, and the callbacks take and return it.
\<close>

unbundle bit_operations_syntax

section \<open>The framer\<close>

record 'w framer =
  fmax :: int
  keep :: "'w \<Rightarrow> int \<Rightarrow> int \<Rightarrow> bool"
  onWord :: "int \<Rightarrow> string \<Rightarrow> 'w \<Rightarrow> 'w"
  onSentence :: "'w \<Rightarrow> 'w"
  lenExtra :: int
  lenHigh :: int
  lenShift :: nat
  lenAcc :: int
  inWord :: bool
  wordLeft :: int
  word_bytes :: string
  copying :: bool
  index :: int
  watcher :: 'w

definition startLength :: "int \<Rightarrow> int \<Rightarrow> 'w framer \<Rightarrow> 'w framer" where
  "startLength high extra f = f\<lparr>lenHigh := high, lenExtra := extra, lenShift := nat (8 * extra), lenAcc := 0\<rparr>"

definition beginWord :: "int \<Rightarrow> 'w framer \<Rightarrow> 'w framer" where
  "beginWord n f =
     (if n = 0 then f\<lparr>watcher := onSentence f (watcher f), index := 0\<rparr>
      else f\<lparr>inWord := True, wordLeft := n, word_bytes := [], copying := keep f (watcher f) (index f) n\<rparr>)"

definition endWord :: "'w framer \<Rightarrow> 'w framer" where
  "endWord f =
     (let w = (if copying f then word_bytes f else [])
      in f\<lparr>watcher := onWord f (index f) w (watcher f), index := index f + 1\<rparr>)"

text \<open>One byte outside a word, the lower half of the loop of \<open>feed\<close>.\<close>

definition length_byte :: "int \<Rightarrow> 'w framer \<Rightarrow> 'w framer" where
  "length_byte b f =
     (if 0 < lenExtra f
      then let g = f\<lparr>lenAcc := push_bit 8 (lenAcc f) OR b, lenExtra := lenExtra f - 1\<rparr>
           in if lenExtra g = 0 then beginWord (push_bit (lenShift g) (lenHigh g) OR lenAcc g) g else g
      else if b AND 0x80 = 0 then beginWord b f
      else if b AND 0xC0 = 0x80 then startLength (b AND 0x3F) 1 f
      else if b AND 0xE0 = 0xC0 then startLength (b AND 0x1F) 2 f
      else if b AND 0xF0 = 0xE0 then startLength (b AND 0x0F) 3 f
      else if b AND 0xF8 = 0xF0 then startLength 0 4 f
      else beginWord b f)"

text \<open>\<open>k\<close> bytes inside a word, the upper half.\<close>

definition word_part :: "int \<Rightarrow> string \<Rightarrow> 'w framer \<Rightarrow> 'w framer" where
  "word_part k p f =
     (let g = (if copying f
               then let room0 = fmax f - int (length (word_bytes f));
                        room = (if k < room0 then k else room0)
                    in if 0 < room then f\<lparr>word_bytes := word_bytes f @ take (nat room) p\<rparr> else f
               else f);
          h = g\<lparr>wordLeft := wordLeft g - k\<rparr>
      in if wordLeft h = 0 then endWord (h\<lparr>inWord := False\<rparr>) else h)"

lemma inWord_simps [simp]:
  "inWord (endWord f) = inWord f"
  "inWord (word_part k p f) = (inWord f \<and> wordLeft f \<noteq> k)"
  by (simp_all add: endWord_def word_part_def Let_def)

function feed :: "string \<Rightarrow> 'w framer \<Rightarrow> 'w framer" where
  "feed p f =
     (case p of
        [] \<Rightarrow> f
      | c # cs \<Rightarrow>
          if inWord f
          then let k = (if int (length p) < wordLeft f then int (length p) else wordLeft f)
               in feed (drop (nat k) p) (word_part k p f)
          else feed cs (length_byte (of_char c) f))"
  by pat_completeness auto
termination
  by (relation "measures [\<lambda>(p, f). length p, \<lambda>(p, f). if inWord f then 1 else 0]") (auto split: if_splits)

declare feed.simps [simp del]


text \<open>
  Between bytes a framer is inside a word with bytes left to read, or in a length whose parts are not negative.
  Inside a word with nothing left the Go loop would end the word again, and a negative rest would make it panic;
  neither happens.
\<close>

definition framer_ok :: "'w framer \<Rightarrow> bool" where
  "framer_ok f \<longleftrightarrow> (inWord f \<longrightarrow> 0 < wordLeft f) \<and> 0 \<le> lenHigh f \<and> 0 \<le> lenAcc f"

lemma feed_Nil [simp]: "feed [] f = f"
  by (simp add: feed.simps)

lemma feed_length: "\<not> inWord f \<Longrightarrow> feed (c # p) f = feed p (length_byte (of_char c) f)"
  by (subst feed.simps) simp

lemma feed_word:
  "inWord f \<Longrightarrow> p \<noteq> [] \<Longrightarrow> k = min (int (length p)) (wordLeft f) \<Longrightarrow> feed p f = feed (drop (nat k) p) (word_part k p f)"
  by (subst feed.simps) (simp add: Let_def min_def split: list.split)

lemma word_part_one: "word_part 1 (c # p) f = word_part 1 [c] f"
proof -
  have "take (nat room) (c # p) = take (nat room) [c]" if "room \<le> 1" for room :: int using that by (cases "nat room") auto
  then show ?thesis by (simp add: word_part_def Let_def)
qed

lemma word_part_full:
  assumes "\<not> (copying f \<and> 0 < fmax f - int (length (word_bytes f)))"
  shows "word_part k p f = (if wordLeft f - k = 0 then endWord (f\<lparr>wordLeft := wordLeft f - k, inWord := False\<rparr>) else f\<lparr>wordLeft := wordLeft f - k\<rparr>)"
proof (cases "copying f")
  case True
  with assms have "\<not> 0 < (if k < fmax f - int (length (word_bytes f)) then k else fmax f - int (length (word_bytes f)))" by simp
  with True show ?thesis unfolding word_part_def Let_def by (simp only: if_True if_False) simp
next
  case False
  then show ?thesis by (simp add: word_part_def)
qed

lemma word_part_split:
  assumes "1 < wordLeft f" "0 < k"
  shows "word_part (k + 1) (c # p) f = word_part k p (word_part 1 [c] f)"
proof (cases "copying f \<and> 0 < fmax f - int (length (word_bytes f))")
  case True
  define room where "room = fmax f - int (length (word_bytes f))"
  define r where "r = min (k + 1) room"
  define q where "q = min k (room - 1)"
  have q: "r = q + 1" "0 \<le> q" using True assms(2) by (auto simp: r_def q_def room_def)
  then have t: "take (nat r) (c # p) = c # take (nat q) p" by (simp add: nat_add_distrib)
  have c: "copying f" "(if k + 1 < room then k + 1 else room) = r" "0 < r"
    using True q by (auto simp: r_def room_def)
  define h where "h = f\<lparr>word_bytes := word_bytes f @ c # take (nat q) p, wordLeft := wordLeft f - (k + 1)\<rparr>"
  have "word_part (k + 1) (c # p) f = (if wordLeft h = 0 then endWord (h\<lparr>inWord := False\<rparr>) else h)"
    unfolding word_part_def Let_def room_def [symmetric] c(2) t using c(1,3) by (simp add: h_def)
  moreover have one: "word_part 1 [c] f = f\<lparr>word_bytes := word_bytes f @ [c], wordLeft := wordLeft f - 1\<rparr>"
    using True assms by (auto simp: word_part_def Let_def)
  moreover have "word_part k p (word_part 1 [c] f) = (if wordLeft h = 0 then endWord (h\<lparr>inWord := False\<rparr>) else h)"
  proof -
    define g where "g = word_part 1 [c] f"
    have g: "copying g" "(if k < fmax g - int (length (word_bytes g)) then k else fmax g - int (length (word_bytes g))) = q"
      using c(1) by (auto simp: g_def one q_def room_def)
    have "(if 0 < q then g\<lparr>word_bytes := word_bytes g @ take (nat q) p\<rparr> else g) = g\<lparr>word_bytes := word_bytes f @ c # take (nat q) p\<rparr>"
      using q(2) by (cases "q = 0") (simp_all add: g_def one)
    then have "word_part k p g = (let h = g\<lparr>word_bytes := word_bytes f @ c # take (nat q) p, wordLeft := wordLeft g - k\<rparr>
        in if wordLeft h = 0 then endWord (h\<lparr>inWord := False\<rparr>) else h)"
      unfolding word_part_def Let_def g(2) using g(1) by (simp del: take_eq_Nil)
    also have "g\<lparr>word_bytes := word_bytes f @ c # take (nat q) p, wordLeft := wordLeft g - k\<rparr> = h"
      by (simp add: g_def one h_def)
    finally show ?thesis by (simp add: g_def Let_def)
  qed
  ultimately show ?thesis by simp
next
  case False
  have one: "word_part 1 [c] f = f\<lparr>wordLeft := wordLeft f - 1\<rparr>" using word_part_full [OF False] assms(1) by simp
  have "\<not> (copying (word_part 1 [c] f) \<and> 0 < fmax (word_part 1 [c] f) - int (length (word_bytes (word_part 1 [c] f))))"
    unfolding one using False by simp
  from word_part_full [OF this, of k p] show ?thesis
    unfolding word_part_full [OF False, of "k + 1" "c # p"] unfolding one by (simp add: algebra_simps)
qed

lemma of_char_bounds: "(0::int) \<le> of_char c" "of_char c < (256::int)"
proof -
  have "(of_char c :: int) = of_char c mod 256" by simp
  then show "(0::int) \<le> of_char c" "of_char c < (256::int)" by (metis pos_mod_sign pos_mod_bound zero_less_numeral)+
qed

text \<open>Feeding is the same byte by byte.\<close>

lemma feed_Cons:
  assumes "framer_ok f"
  shows "feed (c # p) f = feed p (feed [c] f)"
proof (cases "inWord f")
  case False
  then show ?thesis by (simp add: feed_length)
next
  case True
  have pos: "0 < wordLeft f" using assms True by (simp add: framer_ok_def)
  have one: "feed [c] f = word_part 1 [c] f" using feed_word [OF True, of "[c]" 1] pos by simp
  show ?thesis
  proof (cases "wordLeft f = 1 \<or> p = []")
    case t: True
    then have "min (int (length (c # p))) (wordLeft f) = 1" using pos by auto
    then have "feed (c # p) f = feed p (word_part 1 (c # p) f)" using feed_word [OF True, of "c # p" 1] by simp
    with one show ?thesis by (simp only: word_part_one [of c p])
  next
    case f: False
    define k where "k = min (int (length p)) (wordLeft f - 1)"
    have w: "1 < wordLeft f" "0 < k" using f pos by (auto simp: k_def)
    have "feed (c # p) f = feed (drop (nat (k + 1)) (c # p)) (word_part (k + 1) (c # p) f)"
      by (rule feed_word [OF True]) (auto simp: k_def)
    also have "\<dots> = feed (drop (nat k) p) (word_part k p (word_part 1 [c] f))"
      using w by (simp add: word_part_split nat_add_distrib)
    also have "\<dots> = feed p (word_part 1 [c] f)"
    proof -
      have "wordLeft (word_part 1 [c] f) = wordLeft f - 1" using w(1) by (simp add: word_part_def Let_def)
      then show ?thesis using True f w(1) by (intro feed_word [symmetric]) (simp_all add: k_def)
    qed
    finally show ?thesis using one by simp
  qed
qed

lemma framer_ok_begin: "0 \<le> n \<Longrightarrow> framer_ok f \<Longrightarrow> framer_ok (beginWord n f)"
  by (simp add: framer_ok_def beginWord_def)

lemma framer_ok_byte:
  assumes "framer_ok f"
  shows "framer_ok (feed [c] f)"
proof (cases "inWord f")
  case True
  with assms have "feed [c] f = word_part 1 [c] f" using feed_word [of f "[c]" 1] by (simp add: framer_ok_def)
  with True assms show ?thesis by (auto simp: framer_ok_def word_part_def endWord_def Let_def)
next
  case False
  have "framer_ok (startLength (of_char c AND m) e f)" if "0 \<le> m" for m e
    using assms False that by (simp add: framer_ok_def startLength_def)
  moreover have "framer_ok (startLength 0 e f)" for e using assms False by (simp add: framer_ok_def startLength_def)
  moreover have "framer_ok (f\<lparr>lenAcc := push_bit 8 (lenAcc f) OR of_char c, lenExtra := e\<rparr>)" for e
    using assms of_char_bounds(1) by (simp add: framer_ok_def)
  moreover have "0 \<le> (of_char c :: int)" "0 \<le> lenHigh f" "0 \<le> lenAcc f"
    using assms of_char_bounds(1) by (simp_all add: framer_ok_def)
  ultimately show ?thesis
    using assms by (auto simp: feed_length [OF False] length_byte_def Let_def intro!: framer_ok_begin)
qed

lemma feed_append: "framer_ok f \<Longrightarrow> feed (p @ q) f = feed q (feed p f)"
proof (induction p arbitrary: f)
  case (Cons c p)
  then show ?case using framer_ok_byte [of f c] feed_Cons [of f c p] feed_Cons [of f c "p @ q"] by simp
qed simp

lemma framer_ok_feed: "framer_ok f \<Longrightarrow> framer_ok (feed p f)"
proof (induction p arbitrary: f)
  case (Cons c p)
  then show ?case using framer_ok_byte [of f c] feed_Cons [of f c p] by simp
qed simp

text \<open>However the connection cuts the stream up, the framer ends in the same state.\<close>

lemma feed_chunks: "framer_ok f \<Longrightarrow> foldl (\<lambda>f p. feed p f) f ps = feed (concat ps) f"
  by (induction ps arbitrary: f) (simp_all add: feed_append framer_ok_feed)


section \<open>What a framer reads\<close>

text \<open>
  The encoding of the RouterOS API, from its documentation: a word is its length, in one to five bytes, and its bytes;
  a sentence is its words and an empty word.
\<close>

definition api_length :: "nat \<Rightarrow> string" where
  "api_length n =
     (if n < 0x80 then [char_of n]
      else if n < 0x4000 then [char_of (0x80 + n div 256), char_of (n mod 256)]
      else if n < 0x200000 then [char_of (0xC0 + n div 65536), char_of (n div 256 mod 256), char_of (n mod 256)]
      else if n < 0x10000000
      then [char_of (0xE0 + n div 16777216), char_of (n div 65536 mod 256), char_of (n div 256 mod 256), char_of (n mod 256)]
      else [char_of (0xF0 :: nat), char_of (n div 16777216 mod 256), char_of (n div 65536 mod 256), char_of (n div 256 mod 256),
            char_of (n mod 256)])"

definition api_word :: "string \<Rightarrow> string" where
  "api_word w = api_length (length w) @ w"

definition api_sentence :: "string list \<Rightarrow> string" where
  "api_sentence ws = concat (map api_word ws) @ api_word []"

definition api_ok :: "string \<Rightarrow> bool" where
  "api_ok w \<longleftrightarrow> w \<noteq> [] \<and> length w < 2 ^ 32"

text \<open>What the callbacks of a framer should be told, given the words themselves.\<close>

fun see_words :: "'w framer \<Rightarrow> int \<Rightarrow> string list \<Rightarrow> 'w \<Rightarrow> 'w" where
  "see_words t i [] w = w"
| "see_words t i (x # xs) w =
     see_words t (i + 1) xs (onWord t i (if keep t w i (int (length x)) then take (nat (fmax t)) x else []) w)"

definition see_sentence :: "'w framer \<Rightarrow> 'w \<Rightarrow> string list \<Rightarrow> 'w" where
  "see_sentence t w ws = onSentence t (see_words t 0 ws w)"

text \<open>A framer at the start of a word, with the callbacks of \<open>t\<close>.\<close>

definition resting :: "'w framer \<Rightarrow> 'w \<Rightarrow> int \<Rightarrow> 'w framer \<Rightarrow> bool" where
  "resting t w i f \<longleftrightarrow> \<not> inWord f \<and> lenExtra f = 0 \<and> 0 \<le> lenHigh f \<and> 0 \<le> lenAcc f \<and> fmax f = fmax t \<and> keep f = keep t \<and>
     onWord f = onWord t \<and> onSentence f = onSentence t \<and> watcher f = w \<and> index f = i"

lemma resting_ok: "resting t w i f \<Longrightarrow> framer_ok f"
  by (simp add: resting_def framer_ok_def)

text \<open>Bytes: how the masks split them, and how a length is put together.\<close>

lemma byte_masks:
  "0 \<le> (b::int) \<Longrightarrow> b < 256 \<Longrightarrow>
    (b AND 0x80 = 0 \<longleftrightarrow> b < 128) \<and> (b AND 0xC0 = 0x80 \<longleftrightarrow> 128 \<le> b \<and> b < 192) \<and>
    (b AND 0xE0 = 0xC0 \<longleftrightarrow> 192 \<le> b \<and> b < 224) \<and> (b AND 0xF0 = 0xE0 \<longleftrightarrow> 224 \<le> b \<and> b < 240) \<and>
    (b AND 0xF8 = 0xF0 \<longleftrightarrow> 240 \<le> b \<and> b < 248) \<and> b AND 0x3F = b mod 64 \<and> b AND 0x1F = b mod 32 \<and> b AND 0x0F = b mod 16"
proof -
  have "list_all (\<lambda>b. (b AND 0x80 = 0 \<longleftrightarrow> b < 128) \<and> (b AND 0xC0 = 0x80 \<longleftrightarrow> 128 \<le> b \<and> b < 192) \<and>
    (b AND 0xE0 = 0xC0 \<longleftrightarrow> 192 \<le> b \<and> b < 224) \<and> (b AND 0xF0 = 0xE0 \<longleftrightarrow> 224 \<le> b \<and> b < 240) \<and>
    (b AND 0xF8 = 0xF0 \<longleftrightarrow> 240 \<le> b \<and> b < 248) \<and> b AND 0x3F = b mod 64 \<and> b AND 0x1F = b mod 32 \<and> b AND 0x0F = b mod 16) [0..255::int]"
    by code_simp
  moreover assume "0 \<le> b" "b < 256"
  ultimately show ?thesis unfolding list_all_iff by simp
qed

lemma push_or: "0 \<le> (b::int) \<Longrightarrow> b < 2 ^ n \<Longrightarrow> push_bit n a OR b = a * 2 ^ n + b"
proof -
  assume "0 \<le> b" "b < 2 ^ n"
  then have b: "take_bit n b = b" by (simp add: take_bit_int_eq_self)
  have "push_bit n a AND take_bit n b = 0" by (rule bit_eqI) (auto simp: bit_simps)
  then have "push_bit n a AND b = 0" unfolding b .
  then show ?thesis by (simp add: disjunctive_add_eq_or [symmetric] push_bit_eq_mult)
qed

lemma length_byte_first:
  assumes "lenExtra f = 0" "0 \<le> b" "b < 256"
  shows "length_byte b f = (if b < 128 then beginWord b f else if b < 192 then startLength (b mod 64) 1 f
    else if b < 224 then startLength (b mod 32) 2 f else if b < 240 then startLength (b mod 16) 3 f
    else if b < 248 then startLength 0 4 f else beginWord b f)"
  using byte_masks [OF assms(2,3)] assms(1) by (simp add: length_byte_def)

lemma length_byte_next:
  assumes "lenExtra f = int (Suc e)" "0 \<le> b" "b < 256"
  shows "length_byte b f = (let g = f\<lparr>lenAcc := lenAcc f * 256 + b, lenExtra := int e\<rparr>
    in if e = 0 then beginWord (push_bit (lenShift f) (lenHigh f) OR (lenAcc f * 256 + b)) g else g)"
  using assms push_or [of b 8 "lenAcc f"] by (simp add: length_byte_def Let_def)


lemma byte_val: "n < 256 \<Longrightarrow> (of_char (char_of n :: char) :: int) = int n"
  by (metis mod_less of_char_of of_nat_of_char)

lemma feed_length_bytes:
  assumes "bs \<noteq> []" "\<forall>b\<in>set bs. b < 256" "\<not> inWord f" "lenExtra f = int (length bs)"
  shows "feed (map char_of bs) f = (let a = foldl (\<lambda>a b. a * 256 + int b) (lenAcc f) bs
    in beginWord (push_bit (lenShift f) (lenHigh f) OR a) (f\<lparr>lenAcc := a, lenExtra := 0\<rparr>))"
  using assms
proof (induction bs arbitrary: f)
  case (Cons b bs)
  define g where "g = length_byte (int b) f"
  have g: "g = (let g = f\<lparr>lenAcc := lenAcc f * 256 + int b, lenExtra := int (length bs)\<rparr>
      in if length bs = 0 then beginWord (push_bit (lenShift f) (lenHigh f) OR (lenAcc f * 256 + int b)) g else g)"
    unfolding g_def using Cons.prems by (intro length_byte_next) auto
  have "feed (map char_of (b # bs)) f = feed (map char_of bs) g"
    using Cons.prems by (simp add: feed_length byte_val g_def)
  also have "\<dots> = (let a = foldl (\<lambda>a b. a * 256 + int b) (lenAcc f) (b # bs)
    in beginWord (push_bit (lenShift f) (lenHigh f) OR a) (f\<lparr>lenAcc := a, lenExtra := 0\<rparr>))"
  proof (cases "bs = []")
    case True
    then show ?thesis by (simp add: g Let_def)
  next
    case False
    then have "g = f\<lparr>lenAcc := lenAcc f * 256 + int b, lenExtra := int (length bs)\<rparr>" by (simp add: g Let_def)
    with False Cons.prems Cons.IH [of g] show ?thesis by (simp add: Let_def)
  qed
  finally show ?case .
qed simp

text \<open>A first byte that announces more of them, and those.\<close>

lemma read_long:
  assumes "\<not> inWord f" "lenExtra f = 0" "c < 256" "bs \<noteq> []" "\<forall>b\<in>set bs. b < 256"
    "length_byte (int c) f = startLength high (int (length bs)) f"
  shows "feed (map char_of (c # bs)) f =
    (let a = foldl (\<lambda>a b. a * 256 + int b) 0 bs
     in beginWord (push_bit (8 * length bs) high OR a) (f\<lparr>lenHigh := high, lenShift := 8 * length bs, lenAcc := a, lenExtra := 0\<rparr>))"
proof -
  have "feed (map char_of (c # bs)) f = feed (map char_of bs) (startLength high (int (length bs)) f)"
    using assms by (simp add: feed_length byte_val)
  also have "\<dots> = (let a = foldl (\<lambda>a b. a * 256 + int b) 0 bs
     in beginWord (push_bit (8 * length bs) high OR a) (f\<lparr>lenHigh := high, lenShift := 8 * length bs, lenAcc := a, lenExtra := 0\<rparr>))"
    using feed_length_bytes [OF assms(4,5), of "startLength high (int (length bs)) f"] assms(1)
    by (simp add: startLength_def Let_def nat_mult_distrib)
  finally show ?thesis .
qed

lemma fold_bytes_int: "foldl (\<lambda>a b. a * 256 + int b) (int a) bs = int (foldl (\<lambda>a b. a * 256 + b) a bs)"
proof (induction bs arbitrary: a)
  case (Cons b bs)
  from Cons.IH [of "a * 256 + b"] show ?case by simp
qed simp

lemma fold_bytes_bound: "\<forall>b\<in>set bs. b < 256 \<Longrightarrow> foldl (\<lambda>a b. a * 256 + b) a bs < (a + 1) * 2 ^ (8 * length bs)" for a :: nat
proof (induction bs arbitrary: a)
  case (Cons b bs)
  then have "foldl (\<lambda>a b. a * 256 + b) (a * 256 + b) bs < (a * 256 + b + 1) * 2 ^ (8 * length bs)" by simp
  also have "\<dots> \<le> ((a + 1) * 256) * 2 ^ (8 * length bs)" using Cons.prems by (intro mult_right_mono) auto
  finally show ?case by (simp add: power_add algebra_simps)
qed simp

lemma read_class:
  assumes "\<not> inWord f" "lenExtra f = 0" "c < 256" "bs \<noteq> []" "\<forall>b\<in>set bs. b < 256"
    "length_byte (int c) f = startLength (int high) (int (length bs)) f"
    "n = high * 2 ^ (8 * length bs) + foldl (\<lambda>a b. a * 256 + b) 0 bs"
  shows "\<exists>h s a. 0 \<le> h \<and> 0 \<le> a \<and>
    feed (map char_of (c # bs)) f = beginWord (int n) (f\<lparr>lenHigh := h, lenShift := s, lenAcc := a, lenExtra := 0\<rparr>)"
proof -
  define v where "v = foldl (\<lambda>a b. a * 256 + b) 0 bs"
  have "v < 2 ^ (8 * length bs)" using fold_bytes_bound [OF assms(5), of 0] by (simp add: v_def)
  then have "int v < 2 ^ (8 * length bs)" by (metis of_nat_less_numeral_power_cancel_iff)
  then have "push_bit (8 * length bs) (int high) OR int v = int n"
    using push_or [of "int v" "8 * length bs" "int high"] assms(7) by (simp add: v_def)
  moreover have "foldl (\<lambda>a b. a * 256 + int b) 0 bs = int v" using fold_bytes_int [of 0 bs] by (simp add: v_def)
  ultimately have "feed (map char_of (c # bs)) f =
      beginWord (int n) (f\<lparr>lenHigh := int high, lenShift := 8 * length bs, lenAcc := int v, lenExtra := 0\<rparr>)"
    using read_long [OF assms(1-6)] by (simp only: Let_def)
  then show ?thesis by (metis of_nat_0_le_iff)
qed

text \<open>A number is its digits to the base 256.\<close>

lemma digits_256:
  fixes n :: nat
  shows "n = n div 256 * 256 + n mod 256" "n div 256 = n div 65536 * 256 + n div 256 mod 256"
    "n div 65536 = n div 16777216 * 256 + n div 65536 mod 256"
proof -
  have d: "n div 65536 = n div 256 div 256" "n div 16777216 = n div 65536 div 256" by (simp_all add: div_mult2_eq [symmetric])
  show "n = n div 256 * 256 + n mod 256" by simp
  show "n div 256 = n div 65536 * 256 + n div 256 mod 256" unfolding d by simp
  show "n div 65536 = n div 16777216 * 256 + n div 65536 mod 256" unfolding d(2) by simp
qed

lemma high_bits: "k < m \<Longrightarrow> int (q * m + k) mod int m = int k"
  by (metis mod_less mod_mult_self3 of_nat_mod)

lemma read_length:
  assumes "\<not> inWord f" "lenExtra f = 0" "0 \<le> lenHigh f" "0 \<le> lenAcc f" "n < 2 ^ 32"
  shows "\<exists>h s a. 0 \<le> h \<and> 0 \<le> a \<and>
    feed (api_length n) f = beginWord (int n) (f\<lparr>lenHigh := h, lenShift := s, lenAcc := a, lenExtra := 0\<rparr>)"
proof -
  have mod: "x mod 256 < 256" for x :: nat by simp
  note read = read_class [OF assms(1,2)]
  consider (1) "n < 0x80" | (2) "0x80 \<le> n" "n < 0x4000" | (3) "0x4000 \<le> n" "n < 0x200000" |
    (4) "0x200000 \<le> n" "n < 0x10000000" | (5) "0x10000000 \<le> n" by linarith
  then show ?thesis
  proof cases
    case 1
    then have "feed (api_length n) f = beginWord (int n) f"
      using assms(1,2) by (simp add: api_length_def feed_length byte_val length_byte_first)
    moreover have "f\<lparr>lenHigh := lenHigh f, lenShift := lenShift f, lenAcc := lenAcc f, lenExtra := 0\<rparr> = f"
      using assms(2) by (cases f) simp
    ultimately show ?thesis using assms(3,4) by metis
  next
    case 2
    define c where "c = 0x80 + n div 256"
    have x: "n div 256 < 64" using 2 by simp
    have c: "c < 192" "128 \<le> c" "int c mod 64 = int (n div 256)" using x high_bits [of "n div 256" 64 2] by (simp_all add: c_def)
    have "api_length n = map char_of (c # [n mod 256])" using 2 by (simp add: api_length_def c_def)
    then show ?thesis using c digits_256(1) [of n]
      by (simp only:) (intro read [where high = "n div 256"], simp_all add: length_byte_first assms(2) zmod_int [symmetric])
  next
    case 3
    define c where "c = 0xC0 + n div 65536"
    have x: "n div 65536 < 32" using 3 by simp
    have c: "c < 224" "192 \<le> c" "int c mod 32 = int (n div 65536)" using x high_bits [of "n div 65536" 32 6] by (simp_all add: c_def)
    have "api_length n = map char_of (c # [n div 256 mod 256, n mod 256])" using 3 by (simp add: api_length_def c_def)
    then show ?thesis using c
      by (simp only:) (intro read [where high = "n div 65536"], simp_all add: length_byte_first assms(2), use digits_256 [of n] in linarith)
  next
    case 4
    define c where "c = 0xE0 + n div 16777216"
    have x: "n div 16777216 < 16" using 4 by simp
    have c: "c < 240" "224 \<le> c" "int c mod 16 = int (n div 16777216)" using x high_bits [of "n div 16777216" 16 14] by (simp_all add: c_def)
    have "api_length n = map char_of (c # [n div 65536 mod 256, n div 256 mod 256, n mod 256])" using 4 by (simp add: api_length_def c_def)
    then show ?thesis using c
      by (simp only:) (intro read [where high = "n div 16777216"], simp_all add: length_byte_first assms(2), use digits_256 [of n] in linarith)
  next
    case 5
    have m: "n div 16777216 mod 256 = n div 16777216" using assms(5) by (simp add: less_mult_imp_div_less)
    have "api_length n = map char_of (0xF0 # [n div 16777216 mod 256, n div 65536 mod 256, n div 256 mod 256, n mod 256])"
      using 5 by (simp add: api_length_def)
    then show ?thesis
      by (simp only:) (intro read [where high = 0], simp_all add: length_byte_first assms(2), use m digits_256 [of n] in linarith)
  qed
qed


text \<open>A whole word, the empty word that ends a sentence, and a run of words.\<close>

lemma read_word:
  assumes "resting t w i f" "api_ok x" "0 \<le> fmax t"
  shows "resting t (onWord t i (if keep t w i (int (length x)) then take (nat (fmax t)) x else []) w) (i + 1) (feed (api_word x) f)"
proof -
  obtain h s a where e: "0 \<le> h" "0 \<le> a"
      "feed (api_length (length x)) f = beginWord (int (length x)) (f\<lparr>lenHigh := h, lenShift := s, lenAcc := a, lenExtra := 0\<rparr>)"
    using read_length [of f "length x"] assms(1,2) by (auto simp: resting_def api_ok_def)
  define g where "g = f\<lparr>lenHigh := h, lenShift := s, lenAcc := a, lenExtra := 0\<rparr>"
  define b where "b = beginWord (int (length x)) g"
  have b: "b = g\<lparr>inWord := True, wordLeft := int (length x), word_bytes := [], copying := keep t w i (int (length x))\<rparr>"
    using assms(1,2) by (simp add: b_def beginWord_def api_ok_def resting_def g_def)
  have "feed (api_word x) f = feed x b"
    using feed_append [OF resting_ok [OF assms(1)]] e(3) by (simp add: api_word_def b_def g_def)
  also have "\<dots> = word_part (int (length x)) x b"
    using feed_word [of b x "int (length x)"] assms(2) by (simp add: b api_ok_def)
  also have "\<dots> = endWord (b\<lparr>word_bytes := (if keep t w i (int (length x)) then take (nat (fmax t)) x else []), wordLeft := 0, inWord := False\<rparr>)"
  proof -
    have "fmax g = fmax t" using assms(1) by (simp add: g_def resting_def)
    moreover have "take (nat (if int (length x) < fmax t then int (length x) else fmax t)) x = take (nat (fmax t)) x" by auto
    moreover have "0 < (if int (length x) < fmax t then int (length x) else fmax t) \<longleftrightarrow> 0 < fmax t" using assms(2,3) by (auto simp: api_ok_def)
    ultimately show ?thesis using assms(3) unfolding b word_part_def Let_def by (auto simp: endWord_def)
  qed
  finally show ?thesis using assms(1) e(1,2) unfolding endWord_def Let_def b g_def by (simp add: resting_def)
qed

lemma read_end:
  assumes "resting t w i f"
  shows "resting t (onSentence t w) 0 (feed (api_word []) f)"
  using assms by (simp add: api_word_def api_length_def feed_length byte_val [of 0, simplified] length_byte_first resting_def beginWord_def)

lemma read_words:
  "resting t w i f \<Longrightarrow> \<forall>x\<in>set ws. api_ok x \<Longrightarrow> 0 \<le> fmax t \<Longrightarrow>
    resting t (see_words t i ws w) (i + int (length ws)) (feed (concat (map api_word ws)) f)"
proof (induction ws arbitrary: i w f)
  case (Cons x ws)
  from Cons.prems have r: "resting t (onWord t i (if keep t w i (int (length x)) then take (nat (fmax t)) x else []) w) (i + 1) (feed (api_word x) f)"
    by (intro read_word) auto
  from Cons.IH [OF r] Cons.prems show ?case
    by (simp add: feed_append [OF resting_ok [OF Cons.prems(1)]] algebra_simps)
qed simp

lemma read_sentences:
  "resting t w 0 f \<Longrightarrow> \<forall>s\<in>set ss. \<forall>x\<in>set s. api_ok x \<Longrightarrow> 0 \<le> fmax t \<Longrightarrow>
    resting t (foldl (see_sentence t) w ss) 0 (feed (concat (map api_sentence ss)) f)"
proof (induction ss arbitrary: w f)
  case (Cons s ss)
  have "resting t (see_words t 0 s w) (0 + int (length s)) (feed (concat (map api_word s)) f)"
    using Cons.prems by (intro read_words) auto
  note r = this read_end [OF this]
  have "resting t (see_sentence t w s) 0 (feed (api_sentence s) f)"
    using r(2) by (simp add: api_sentence_def see_sentence_def feed_append [OF resting_ok [OF Cons.prems(1)]])
  from Cons.IH [OF this] Cons.prems show ?case
    by (simp add: feed_append [OF resting_ok [OF Cons.prems(1)]])
qed simp

text \<open>
  C22. The framer finds every word where the router put it: whatever the pieces in which a stream of sentences
  arrives, and whatever bytes its words hold, the callbacks are told each word in turn, by its position in its
  sentence and with its bytes when it was asked for, and each end of a sentence. This is the round trip of the
  documented encoding, for words of up to \<open>2 ^ 32 - 1\<close> bytes, followed by the whole words of an unfinished sentence.
\<close>

theorem framing_exact:
  assumes "resting t w 0 f" "\<forall>s\<in>set ss. \<forall>x\<in>set s. api_ok x" "\<forall>x\<in>set ws. api_ok x" "0 \<le> fmax t"
    "concat ps = concat (map api_sentence ss) @ concat (map api_word ws)"
  shows "resting t (see_words t 0 ws (foldl (see_sentence t) w ss)) (int (length ws)) (foldl (\<lambda>f p. feed p f) f ps)"
proof -
  note ok = resting_ok [OF assms(1)]
  have "resting t (foldl (see_sentence t) w ss) 0 (feed (concat (map api_sentence ss)) f)"
    using assms by (intro read_sentences)
  from read_words [OF this assms(3,4)] show ?thesis by (simp add: feed_chunks [OF ok] assms(5) feed_append [OF ok])
qed


section \<open>The reason a router gives for ending a session\<close>

definition fatalWord :: string where "fatalWord = ''!fatal''"

definition fatalReasonCap :: int where "fatalReasonCap = 512"

record fatalWatch =
  isFatal :: bool
  reason :: string
  haveReason :: bool
  fw_sentences :: int
  seen :: bool
  seenReason :: string

definition fatal_keep :: "fatalWatch \<Rightarrow> int \<Rightarrow> int \<Rightarrow> bool" where
  "fatal_keep w idx n \<longleftrightarrow> (idx = 0 \<and> n = int (length fatalWord)) \<or> (isFatal w \<and> \<not> haveReason w)"

definition fatal_endWord :: "int \<Rightarrow> string \<Rightarrow> fatalWatch \<Rightarrow> fatalWatch" where
  "fatal_endWord idx s w =
     (if idx = 0 then w\<lparr>isFatal := (s = fatalWord)\<rparr>
      else if \<not> isFatal w \<or> haveReason w then w
      else if has_prefix s ''=message='' then w\<lparr>reason := drop (length ''=message='') s, haveReason := True\<rparr>
      else if has_prefix s ''='' \<or> has_prefix s ''.'' then w
      else w\<lparr>reason := s, haveReason := True\<rparr>)"

definition endSentence :: "fatalWatch \<Rightarrow> fatalWatch" where
  "endSentence w =
     (let w1 = w\<lparr>fw_sentences := fw_sentences w + 1\<rparr>;
          w2 = (if isFatal w1 then w1\<lparr>seen := True, seenReason := reason w1\<rparr> else w1)
      in w2\<lparr>isFatal := False, reason := [], haveReason := False\<rparr>)"

definition newFatalWatch :: "fatalWatch framer" where
  "newFatalWatch =
     \<lparr>fmax = fatalReasonCap, keep = fatal_keep, onWord = fatal_endWord, onSentence = endSentence,
      lenExtra = 0, lenHigh = 0, lenShift = 0, lenAcc = 0, inWord = False, wordLeft = 0, word_bytes = [], copying = False,
      index = 0, watcher = \<lparr>isFatal = False, reason = [], haveReason = False, fw_sentences = 0, seen = False, seenReason = []\<rparr>\<rparr>"

text \<open>\<open>n\<close> and \<open>err\<close> are what the connection's own \<open>Read\<close> into \<open>p\<close> returned.\<close>

definition fatalWatch_Read :: "string \<Rightarrow> int \<Rightarrow> string option \<Rightarrow> fatalWatch framer \<Rightarrow> (int \<times> string option) \<times> fatalWatch framer" where
  "fatalWatch_Read p n err f = ((n, err), if 0 < n then feed (take (nat n) p) f else f)"

definition Fatal :: "fatalWatch framer \<Rightarrow> string \<times> bool" where
  "Fatal f = (let w = watcher f in if isFatal w then (reason w, True) else (seenReason w, seen w))"

definition fatalWatch_sentencesSeen :: "fatalWatch framer \<Rightarrow> int" where
  "fatalWatch_sentencesSeen f = fw_sentences (watcher f)"

text \<open>What a \<open>!fatal\<close> sentence says: its message attribute, or its first word that is no attribute and no tag.\<close>

fun fatal_reason :: "string list \<Rightarrow> string option" where
  "fatal_reason [] = None"
| "fatal_reason (x # xs) =
     (if has_prefix x ''=message='' then Some (drop 9 (take 512 x))
      else if has_prefix x ''='' \<or> has_prefix x ''.'' then fatal_reason xs
      else Some (take 512 x))"

definition is_fatal :: "string list \<Rightarrow> bool" where
  "is_fatal ws \<longleftrightarrow> ws \<noteq> [] \<and> hd ws = fatalWord"

definition said :: "string list \<Rightarrow> string" where
  "said ws = (case fatal_reason (tl ws) of Some r \<Rightarrow> r | None \<Rightarrow> [])"

lemma prefix_take: "length p \<le> n \<Longrightarrow> has_prefix (take n s) p = has_prefix s p"
proof (induction s p arbitrary: n rule: has_prefix.induct)
  case (3 c s d p)
  then show ?case by (cases n) auto
qed (auto simp: has_prefix.simps)

text \<open>The watcher through the words after the first.\<close>

lemma fatal_words_done:
  "0 < i \<Longrightarrow> \<not> isFatal w \<or> haveReason w \<Longrightarrow> see_words newFatalWatch i ws w = w"
proof (induction ws arbitrary: i)
  case (Cons x ws)
  have "fatal_endWord i y w = w" for y using Cons.prems by (simp add: fatal_endWord_def)
  with Cons show ?case by (simp add: newFatalWatch_def)
qed simp

lemma fatal_words:
  "0 < i \<Longrightarrow> isFatal w \<Longrightarrow> \<not> haveReason w \<Longrightarrow>
    see_words newFatalWatch i ws w = (case fatal_reason ws of None \<Rightarrow> w | Some r \<Rightarrow> w\<lparr>reason := r, haveReason := True\<rparr>)"
proof (induction ws arbitrary: i)
  case (Cons x ws)
  define y where "y = take 512 x"
  have k: "see_words newFatalWatch i (x # ws) w = see_words newFatalWatch (i + 1) ws (fatal_endWord i y w)"
    using Cons.prems by (simp add: newFatalWatch_def fatal_keep_def fatalReasonCap_def y_def)
  have p: "has_prefix y ''=message='' = has_prefix x ''=message=''" "has_prefix y ''='' = has_prefix x ''=''"
      "has_prefix y ''.'' = has_prefix x ''.''" by (simp_all add: y_def prefix_take)
  show ?case
  proof (cases "has_prefix x ''=message='' \<or> \<not> (has_prefix x ''='' \<or> has_prefix x ''.'')")
    case True
    then have "fatal_endWord i y w = w\<lparr>reason := (if has_prefix x ''=message='' then drop 9 y else y), haveReason := True\<rparr>"
      using Cons.prems p by (auto simp: fatal_endWord_def eval_nat_numeral)
    then show ?thesis unfolding k using Cons.prems True by (auto simp add: fatal_words_done y_def)
  next
    case False
    then have "fatal_endWord i y w = w" using Cons.prems p by (simp add: fatal_endWord_def)
    then show ?thesis unfolding k using Cons.IH [of "i + 1"] Cons.prems False by simp
  qed
qed simp

text \<open>Between sentences nothing of a sentence in progress is left.\<close>

definition fresh :: "fatalWatch \<Rightarrow> bool" where
  "fresh w \<longleftrightarrow> \<not> isFatal w \<and> reason w = [] \<and> \<not> haveReason w"

lemma fatal_first:
  assumes "fresh w" "ws \<noteq> []"
  shows "see_words newFatalWatch 0 ws w = see_words newFatalWatch 1 (tl ws) (w\<lparr>isFatal := is_fatal ws\<rparr>)"
proof -
  obtain x xs where ws: "ws = x # xs" using assms(2) by (cases ws) auto
  define y where "y = (if length x = 6 then take 512 x else [])"
  have "y = fatalWord \<longleftrightarrow> x = fatalWord" by (auto simp: fatalWord_def y_def)
  then have "fatal_endWord 0 y w = w\<lparr>isFatal := is_fatal ws\<rparr>" by (simp add: fatal_endWord_def is_fatal_def ws)
  moreover have "see_words newFatalWatch 0 ws w = see_words newFatalWatch 1 xs (fatal_endWord 0 y w)"
    using assms(1) by (simp add: ws newFatalWatch_def fatal_keep_def fresh_def fatalWord_def fatalReasonCap_def y_def)
  ultimately show ?thesis by (simp add: ws)
qed

lemma fatal_partial:
  assumes "fresh w"
  shows "see_words newFatalWatch 0 ws w =
    (if is_fatal ws then (case fatal_reason (tl ws) of None \<Rightarrow> w\<lparr>isFatal := True\<rparr> | Some r \<Rightarrow> w\<lparr>isFatal := True, reason := r, haveReason := True\<rparr>) else w)"
proof (cases "ws = []")
  case True
  then show ?thesis by (simp add: is_fatal_def)
next
  case False
  have e: "w\<lparr>isFatal := False\<rparr> = w" using assms by (cases w) (simp add: fresh_def)
  show ?thesis
    unfolding fatal_first [OF assms False] using assms
    by (cases "is_fatal ws") (simp_all add: fatal_words fatal_words_done e fresh_def)
qed

lemma fatal_sentence:
  assumes "fresh w"
  shows "see_sentence newFatalWatch w ws =
    (if is_fatal ws then w\<lparr>fw_sentences := fw_sentences w + 1, seen := True, seenReason := said ws\<rparr>
     else w\<lparr>fw_sentences := fw_sentences w + 1\<rparr>)"
proof -
  have "see_sentence newFatalWatch w ws = endSentence (see_words newFatalWatch 0 ws w)"
    by (simp add: see_sentence_def newFatalWatch_def)
  then show ?thesis
    unfolding fatal_partial [OF assms] using assms
    by (cases w) (simp add: endSentence_def said_def fresh_def Let_def split: option.splits)
qed

definition last_said :: "string list list \<Rightarrow> string \<times> bool" where
  "last_said ss = (case filter is_fatal ss of [] \<Rightarrow> ([], False) | _ \<Rightarrow> (said (last (filter is_fatal ss)), True))"

lemma fatal_sentences:
  "fresh w \<Longrightarrow> fresh (foldl (see_sentence newFatalWatch) w ss) \<and>
    fw_sentences (foldl (see_sentence newFatalWatch) w ss) = fw_sentences w + int (length ss) \<and>
    (seenReason (foldl (see_sentence newFatalWatch) w ss), seen (foldl (see_sentence newFatalWatch) w ss)) =
      (if filter is_fatal ss = [] then (seenReason w, seen w) else (said (last (filter is_fatal ss)), True))"
proof (induction ss arbitrary: w)
  case (Cons s ss)
  define v where "v = see_sentence newFatalWatch w s"
  have v: "fresh v" "fw_sentences v = fw_sentences w + 1" "is_fatal s \<Longrightarrow> seenReason v = said s \<and> seen v"
      "\<not> is_fatal s \<Longrightarrow> seenReason v = seenReason w \<and> seen v = seen w"
    using Cons.prems by (simp_all add: v_def fatal_sentence fresh_def)
  from Cons.IH [OF v(1)] v show ?case by (auto simp: v_def [symmetric])
qed simp

text \<open>
  The reason a router gives is caught, and nothing else is taken for one: after any sequence of reads that
  delivered the sentences \<open>ss\<close> and the first words \<open>ws\<close> of the next one, \<open>Fatal\<close> is the reason in \<open>ws\<close> when those
  open with \<open>!fatal\<close>, else the one of the last sentence that did, and no reason when none did. The bytes of a value
  never count as a \<open>!fatal\<close> word, and every read returns what the connection returned.
\<close>

theorem fatal_reason_caught:
  assumes "\<forall>s\<in>set ss. \<forall>x\<in>set s. api_ok x" "\<forall>x\<in>set ws. api_ok x"
    "concat (map (\<lambda>(p, n, err). take (nat n) p) reads) = concat (map api_sentence ss) @ concat (map api_word ws)"
  shows "Fatal (foldl (\<lambda>f (p, n, err). snd (fatalWatch_Read p n err f)) newFatalWatch reads) =
    (if is_fatal ws then (said ws, True) else last_said ss)"
proof -
  have rd: "snd (fatalWatch_Read p n err f) = feed (take (nat n) p) f" for p n err f
    by (cases "0 < n") (simp_all add: fatalWatch_Read_def)
  have fold: "foldl (\<lambda>f (p, n, err). snd (fatalWatch_Read p n err f)) f rs = foldl (\<lambda>f p. feed p f) f (map (\<lambda>(p, n, err). take (nat n) p) rs)" for f rs
    by (induction rs arbitrary: f) (auto simp: rd)
  define w0 where "w0 = watcher newFatalWatch"
  define u where "u = foldl (see_sentence newFatalWatch) w0 ss"
  have start: "resting newFatalWatch w0 0 newFatalWatch" by (simp add: resting_def newFatalWatch_def w0_def)
  have cap: "0 \<le> fmax newFatalWatch" by (simp add: newFatalWatch_def fatalReasonCap_def)
  define g where "g = foldl (\<lambda>f (p, n, err). snd (fatalWatch_Read p n err f)) newFatalWatch reads"
  have g: "watcher g = see_words newFatalWatch 0 ws u"
    using framing_exact [OF start assms(1,2) cap assms(3)] by (simp add: g_def fold resting_def u_def)
  have w0: "fresh w0" "seenReason w0 = []" "\<not> seen w0" by (simp_all add: w0_def newFatalWatch_def fresh_def)
  from fatal_sentences [OF w0(1), of ss] have u: "fresh u" "(seenReason u, seen u) = last_said ss"
    using w0(2,3) by (simp_all add: u_def last_said_def split: list.splits)
  show ?thesis
    unfolding g_def [symmetric] Fatal_def Let_def g fatal_partial [OF u(1)]
    using u by (cases "fatal_reason (tl ws)") (simp_all add: said_def fresh_def)
qed

theorem framing_exact_witness:
  "resting newFatalWatch (see_words newFatalWatch 0 [''!re''] (foldl (see_sentence newFatalWatch) (watcher newFatalWatch) [[''!fatal'', ''bye'']])) 1
     (foldl (\<lambda>f p. feed p f) newFatalWatch [api_word ''!fatal'', CHR 0x03 # ''b'', ''ye'' @ [CHR 0x00], CHR 0x03 # ''!re''])"
proof -
  have "resting newFatalWatch (watcher newFatalWatch) 0 newFatalWatch" by (simp add: resting_def newFatalWatch_def)
  moreover have "concat [api_word ''!fatal'', CHR 0x03 # ''b'', ''ye'' @ [CHR 0x00], CHR 0x03 # ''!re''] =
      concat (map api_sentence [[''!fatal'', ''bye'']]) @ concat (map api_word [''!re''])" by code_simp
  moreover have "0 \<le> fmax newFatalWatch" by code_simp
  ultimately have "resting newFatalWatch (see_words newFatalWatch 0 [''!re''] (foldl (see_sentence newFatalWatch) (watcher newFatalWatch) [[''!fatal'', ''bye'']]))
     (int (length [''!re''])) (foldl (\<lambda>f p. feed p f) newFatalWatch [api_word ''!fatal'', CHR 0x03 # ''b'', ''ye'' @ [CHR 0x00], CHR 0x03 # ''!re''])"
    by (intro framing_exact) (simp_all add: api_ok_def)
  then show ?thesis by simp
qed

theorem fatal_reason_caught_witness:
  "Fatal (foldl (\<lambda>f (p, n, err). snd (fatalWatch_Read p n err f)) newFatalWatch
     [(api_word ''!fatal'' @ [CHR 0x03] @ ''xxxx'', 8, None), (''bye'' @ [CHR 0x00], 4, Some ''EOF'')]) = (''bye'', True)"
proof -
  define rs :: "(string \<times> int \<times> string option) list" where
    "rs = [(api_word ''!fatal'' @ [CHR 0x03] @ ''xxxx'', 8, None), (''bye'' @ [CHR 0x00], 4, Some ''EOF'')]"
  have "concat (map (\<lambda>(p, n, err). take (nat n) p) rs) = concat (map api_sentence [[''!fatal'', ''bye'']]) @ concat (map api_word [])"
    unfolding rs_def by code_simp
  moreover have "last_said [[''!fatal'', ''bye'']] = (''bye'', True)" by code_simp
  ultimately show ?thesis
    unfolding rs_def [symmetric] using fatal_reason_caught [of "[[''!fatal'', ''bye'']]" "[]" rs] by (simp add: api_ok_def is_fatal_def)
qed

section \<open>The tag of each command written\<close>

definition tagCap :: int where "tagCap = 64"

definition tagPrefix :: string where "tagPrefix = ''.tag=''"

text \<open>\<open>sent\<close> is the buffered channel of eight tags; a send that would block is dropped.\<close>

record tagWatch =
  tag :: string
  sent :: "string list"
  tw_sentences :: int

definition tag_keep :: "tagWatch \<Rightarrow> int \<Rightarrow> int \<Rightarrow> bool" where
  "tag_keep w idx n \<longleftrightarrow> 0 < idx \<and> n \<le> tagCap"

definition tag_onWord :: "int \<Rightarrow> string \<Rightarrow> tagWatch \<Rightarrow> tagWatch" where
  "tag_onWord idx s w = (if has_prefix s tagPrefix then w\<lparr>tag := drop (length tagPrefix) s\<rparr> else w)"

definition tag_onSentence :: "tagWatch \<Rightarrow> tagWatch" where
  "tag_onSentence w =
     (let w1 = w\<lparr>tw_sentences := tw_sentences w + 1\<rparr>;
          w2 = (if length (sent w1) < 8 then w1\<lparr>sent := sent w1 @ [tag w1]\<rparr> else w1)
      in w2\<lparr>tag := []\<rparr>)"

definition newTagWatch :: "tagWatch framer" where
  "newTagWatch =
     \<lparr>fmax = tagCap, keep = tag_keep, onWord = tag_onWord, onSentence = tag_onSentence,
      lenExtra = 0, lenHigh = 0, lenShift = 0, lenAcc = 0, inWord = False, wordLeft = 0, word_bytes = [], copying = False,
      index = 0, watcher = \<lparr>tag = [], sent = [], tw_sentences = 0\<rparr>\<rparr>"

text \<open>\<open>n\<close> and \<open>err\<close> are what the connection's own \<open>Write\<close> of \<open>p\<close> returned.\<close>

definition tagWatch_Write :: "string \<Rightarrow> int \<Rightarrow> string option \<Rightarrow> tagWatch framer \<Rightarrow> (int \<times> string option) \<times> tagWatch framer" where
  "tagWatch_Write p n err f = ((n, err), if 0 < n then feed (take (nat n) p) f else f)"

definition forget :: "tagWatch framer \<Rightarrow> tagWatch framer" where
  "forget f = f\<lparr>watcher := (watcher f)\<lparr>sent := []\<rparr>\<rparr>"

definition tagWatch_sentencesSeen :: "tagWatch framer \<Rightarrow> int" where
  "tagWatch_sentencesSeen f = tw_sentences (watcher f)"

text \<open>The tag a sentence carries: its last word after the command path that is a tag of at most 64 bytes.\<close>

definition tag_words :: "string list \<Rightarrow> string list" where
  "tag_words ws = filter (\<lambda>x. length x \<le> 64 \<and> has_prefix x tagPrefix) ws"

definition tag_of :: "string list \<Rightarrow> string" where
  "tag_of ws = (case rev (tag_words (tl ws)) of [] \<Rightarrow> [] | x # _ \<Rightarrow> drop 5 x)"

lemma tag_words_fold:
  "0 < i \<Longrightarrow> see_words newTagWatch i ws w = (case rev (tag_words ws) of [] \<Rightarrow> w | x # _ \<Rightarrow> w\<lparr>tag := drop 5 x\<rparr>)"
proof (induction ws arbitrary: i w)
  case (Cons x ws)
  define y where "y = (if length x \<le> 64 then x else [])"
  have "see_words newTagWatch i (x # ws) w = see_words newTagWatch (i + 1) ws (tag_onWord i y w)"
    using Cons.prems by (simp add: newTagWatch_def tag_keep_def tagCap_def y_def)
  moreover have "tag_onWord i y w = (if length x \<le> 64 \<and> has_prefix x tagPrefix then w\<lparr>tag := drop 5 x\<rparr> else w)"
    by (simp add: tag_onWord_def y_def tagPrefix_def eval_nat_numeral)
  ultimately show ?case using Cons by (auto simp: tag_words_def split: list.splits)
qed (simp add: tag_words_def)

lemma tag_sentence:
  assumes "tag w = []"
  shows "see_sentence newTagWatch w ws =
    w\<lparr>sent := take 8 (sent w @ [tag_of ws]) @ drop 8 (sent w), tw_sentences := tw_sentences w + 1\<rparr>"
proof -
  have "see_words newTagWatch 0 ws w = w\<lparr>tag := tag_of ws\<rparr>"
  proof (cases ws)
    case Nil
    then show ?thesis using assms by (cases w) (simp add: tag_of_def tag_words_def)
  next
    case (Cons x xs)
    have "tag_onWord 0 [] w = w" by (simp add: tag_onWord_def tagPrefix_def)
    then have "see_words newTagWatch 0 ws w = see_words newTagWatch 1 xs w"
      by (simp add: Cons newTagWatch_def tag_keep_def)
    also have "\<dots> = (case rev (tag_words xs) of [] \<Rightarrow> w | y # _ \<Rightarrow> w\<lparr>tag := drop 5 y\<rparr>)" by (rule tag_words_fold) simp
    also have "\<dots> = w\<lparr>tag := tag_of ws\<rparr>" using assms by (cases w) (simp add: tag_of_def Cons split: list.splits)
    finally show ?thesis .
  qed
  then show ?thesis using assms
    by (cases w) (simp add: see_sentence_def newTagWatch_def tag_onSentence_def Let_def)
qed

lemma tag_sentences:
  "tag w = [] \<Longrightarrow> length (sent w) \<le> 8 \<Longrightarrow>
    foldl (see_sentence newTagWatch) w ss = w\<lparr>sent := take 8 (sent w @ map tag_of ss), tw_sentences := tw_sentences w + int (length ss)\<rparr>"
proof (induction ss arbitrary: w)
  case (Cons s ss)
  define v where "v = see_sentence newTagWatch w s"
  have v: "v = w\<lparr>sent := take 8 (sent w @ [tag_of s]), tw_sentences := tw_sentences w + 1\<rparr>"
    using tag_sentence [OF Cons.prems(1), of s] Cons.prems(2) by (simp add: v_def)
  have "take 8 (take 8 (sent w @ [tag_of s]) @ map tag_of ss) = take 8 (sent w @ map tag_of (s # ss))"
    using Cons.prems(2) by (cases "length (sent w) = 8") auto
  with Cons.IH [of v] Cons.prems show ?case by (simp add: v_def [symmetric]) (simp add: v)
qed simp

text \<open>
  The tags of the commands come out in the order the commands were written: after \<open>forget\<close>, whatever the pieces
  in which the next sentences reach the connection, the channel holds the tag of each of them, the first eight.
\<close>

theorem tags_in_order:
  assumes "resting newTagWatch w 0 f" "tag w = []" "\<forall>s\<in>set ss. \<forall>x\<in>set s. api_ok x"
    "concat (map (\<lambda>(p, n, err). take (nat n) p) writes) = concat (map api_sentence ss)"
  shows "sent (watcher (foldl (\<lambda>f (p, n, err). snd (tagWatch_Write p n err f)) (forget f) writes)) = take 8 (map tag_of ss)"
proof -
  have wr: "snd (tagWatch_Write p n err f) = feed (take (nat n) p) f" for p n err f
    by (cases "0 < n") (simp_all add: tagWatch_Write_def)
  have fold: "foldl (\<lambda>f (p, n, err). snd (tagWatch_Write p n err f)) f rs = foldl (\<lambda>f p. feed p f) f (map (\<lambda>(p, n, err). take (nat n) p) rs)" for f rs
    by (induction rs arbitrary: f) (auto simp: wr)
  have start: "resting newTagWatch (w\<lparr>sent := []\<rparr>) 0 (forget f)" using assms(1) by (simp add: resting_def forget_def)
  have cap: "0 \<le> fmax newTagWatch" by (simp add: newTagWatch_def tagCap_def)
  from framing_exact [OF start assms(3) _ cap, of "[]" "map (\<lambda>(p, n, err). take (nat n) p) writes"] assms(4)
  have "watcher (foldl (\<lambda>f (p, n, err). snd (tagWatch_Write p n err f)) (forget f) writes) = foldl (see_sentence newTagWatch) (w\<lparr>sent := []\<rparr>) ss"
    by (simp add: fold resting_def)
  then show ?thesis using assms(2) by (simp add: tag_sentences)
qed

theorem tags_in_order_witness:
  "sent (watcher (foldl (\<lambda>f (p, n, err). snd (tagWatch_Write p n err f)) (forget newTagWatch)
     [(api_sentence [''/cancel'', ''=tag=r1'', ''.tag=r2''], 26, None)])) = [''r2'']"
proof -
  define rs :: "(string \<times> int \<times> string option) list" where "rs = [(api_sentence [''/cancel'', ''=tag=r1'', ''.tag=r2''], 26, None)]"
  have "concat (map (\<lambda>(p, n, err). take (nat n) p) rs) = concat (map api_sentence [[''/cancel'', ''=tag=r1'', ''.tag=r2'']])"
    unfolding rs_def by code_simp
  moreover have "take 8 (map tag_of [[''/cancel'', ''=tag=r1'', ''.tag=r2'']]) = [''r2'']" by code_simp
  moreover have "resting newTagWatch (watcher newTagWatch) 0 newTagWatch" "tag (watcher newTagWatch) = []"
    by (simp_all add: resting_def newTagWatch_def)
  ultimately show ?thesis
    unfolding rs_def [symmetric]
    using tags_in_order [of "watcher newTagWatch" newTagWatch "[[''/cancel'', ''=tag=r1'', ''.tag=r2'']]" rs] by (simp add: api_ok_def)
qed

end
