(* ===== verification/Roslimit.thy ===== *)
theory Roslimit
  imports Go_Strings "HOL-Library.Multiset"
begin

text \<open>
  The per-router limits and instruments of \<^verbatim>\<open>internal/roslimit/roslimit.go\<close>: the gate that bounds the commands
  in flight against one router, the rolling count of commands per source and menu, and the level of open streams.

  The package's variables are the record \<open>Limits\<close>. A gate is a buffered channel: its capacity and the number of
  values in it. The clock and the environment are arguments. A caller of \<open>Acquire\<close> is a ticket, since the call blocks
  between asking for a slot and getting one.
\<close>

section \<open>State\<close>

definition DefaultMax :: int where "DefaultMax = 8"

definition rateWindow :: int where "rateWindow = 60"

type_synonym loadKey = "string \<times> string"

record cmdRate =
  sec :: "int list"
  cnt :: "int list"

record Rate =
  Source :: string
  Menu :: string
  PerMin :: int

record Limits =
  gates :: "(string, int \<times> int) gomap"
  maxOne :: int
  counts :: "(string, int) gomap"
  load :: "(string, (loadKey, cmdRate) gomap) gomap"
  menus :: "(string, int) gomap"
  streams :: "(string, int) gomap"

definition Reset :: Limits where
  "Reset = \<lparr>gates = [], maxOne = -1, counts = [], load = [], menus = [], streams = []\<rparr>"

text \<open>Go's \<open>m[k]++\<close>: an absent key counts from zero.\<close>

definition bump :: "'k \<Rightarrow> int \<Rightarrow> ('k, int) gomap \<Rightarrow> ('k, int) gomap" where
  "bump k d m = goput k ((case golookup m k of Some n \<Rightarrow> n | None \<Rightarrow> 0) + d) m"

text \<open>\<open>env\<close> is the value of \<^verbatim>\<open>MIKRODASH_ROUTER_CONCURRENCY\<close>, empty when it is not set.\<close>

definition limit :: "string \<Rightarrow> Limits \<Rightarrow> int \<times> Limits" where
  "limit env s =
     (if 0 < maxOne s then (maxOne s, s)
      else let m = (if env \<noteq> [] then (case Atoi env of Some n \<Rightarrow> if 0 < n then n else DefaultMax | None \<Rightarrow> DefaultMax) else DefaultMax)
           in (m, s\<lparr>maxOne := m\<rparr>))"

definition Cap :: "string \<Rightarrow> Limits \<Rightarrow> int \<times> Limits" where
  "Cap env s = limit env s"

section \<open>The gate\<close>

datatype phase = Waiting | Holding | Released

type_synonym tickets = "(string \<times> phase) list"

text \<open>The locked part of \<open>Acquire\<close>: find or make the gate, and count the request.\<close>

definition acquire_call :: "string \<Rightarrow> string \<Rightarrow> Limits \<Rightarrow> Limits" where
  "acquire_call env routerID s =
     (let s1 = (case golookup (gates s) routerID of
                  Some _ \<Rightarrow> s
                | None \<Rightarrow> let (m, s0) = limit env s in s0\<lparr>gates := goput routerID (m, 0) (gates s0)\<rparr>)
      in s1\<lparr>counts := bump routerID 1 (counts s1)\<rparr>)"

text \<open>The send on the gate's channel, which blocks while the channel is full, and the receive of the release.\<close>

definition gate_send :: "string \<Rightarrow> Limits \<Rightarrow> Limits option" where
  "gate_send r s = (case golookup (gates s) r of
      Some (c, n) \<Rightarrow> if n < c then Some (s\<lparr>gates := goput r (c, n + 1) (gates s)\<rparr>) else None
    | None \<Rightarrow> None)"

definition gate_receive :: "string \<Rightarrow> Limits \<Rightarrow> Limits option" where
  "gate_receive r s = (case golookup (gates s) r of
      Some (c, n) \<Rightarrow> if 0 < n then Some (s\<lparr>gates := goput r (c, n - 1) (gates s)\<rparr>) else None
    | None \<Rightarrow> None)"

text \<open>
  The system: any caller may ask, any waiting one may get a free slot, and a release may be called again, which the
  \<open>once\<close> makes harmless. A call with an empty id returns at once with a release that does nothing.
\<close>

inductive gate_step :: "string \<Rightarrow> Limits \<times> tickets \<Rightarrow> Limits \<times> tickets \<Rightarrow> bool" for env where
  Ungated: "gate_step env (s, ts) (s, ts @ [([], Released)])"
| Ask: "r \<noteq> [] \<Longrightarrow> gate_step env (s, ts) (acquire_call env r s, ts @ [(r, Waiting)])"
| Enter: "i < length ts \<Longrightarrow> ts ! i = (r, Waiting) \<Longrightarrow> gate_send r s = Some s' \<Longrightarrow> gate_step env (s, ts) (s', ts[i := (r, Holding)])"
| Release: "i < length ts \<Longrightarrow> ts ! i = (r, Holding) \<Longrightarrow> gate_receive r s = Some s' \<Longrightarrow> gate_step env (s, ts) (s', ts[i := (r, Released)])"
| Again: "i < length ts \<Longrightarrow> ts ! i = (r, Released) \<Longrightarrow> gate_step env (s, ts) (s, ts)"

inductive gate_reach :: "string \<Rightarrow> Limits \<times> tickets \<Rightarrow> bool" for env where
  Start: "gate_reach env (Reset, [])"
| Step: "gate_reach env x \<Longrightarrow> gate_step env x y \<Longrightarrow> gate_reach env y"

inductive_cases gate_step_cases: "gate_step env (s, ts) y"

definition InFlight :: "string \<Rightarrow> Limits \<Rightarrow> int" where
  "InFlight r s = (case golookup (gates s) r of Some (c, n) \<Rightarrow> n | None \<Rightarrow> 0)"

definition holders :: "string \<Rightarrow> tickets \<Rightarrow> int" where
  "holders r ts = int (count (mset ts) (r, Holding))"

definition gate_ok :: "Limits \<Rightarrow> tickets \<Rightarrow> bool" where
  "gate_ok s ts \<longleftrightarrow>
     (\<forall>r c n. golookup (gates s) r = Some (c, n) \<longrightarrow> c = maxOne s \<and> 0 < c \<and> n = holders r ts \<and> n \<le> c) \<and>
     (\<forall>r. golookup (gates s) r = None \<longrightarrow> (r, Waiting) \<notin> set ts \<and> (r, Holding) \<notin> set ts)"

lemma gate_okI:
  "(\<And>r c n. golookup (gates s) r = Some (c, n) \<Longrightarrow> c = maxOne s \<and> 0 < c \<and> n = holders r ts \<and> n \<le> c) \<Longrightarrow>
   (\<And>r. golookup (gates s) r = None \<Longrightarrow> (r, Waiting) \<notin> set ts \<and> (r, Holding) \<notin> set ts) \<Longrightarrow> gate_ok s ts"
  by (simp add: gate_ok_def)

lemma gate_okD:
  "gate_ok s ts \<Longrightarrow> golookup (gates s) r = Some (c, n) \<Longrightarrow> c = maxOne s \<and> 0 < c \<and> n = holders r ts \<and> n \<le> c"
  "gate_ok s ts \<Longrightarrow> golookup (gates s) r = None \<Longrightarrow> (r, Waiting) \<notin> set ts \<and> (r, Holding) \<notin> set ts"
  by (simp_all add: gate_ok_def)

lemma holders_append [simp]: "holders r (ts @ [(r', p)]) = holders r ts + (if r' = r \<and> p = Holding then 1 else 0)"
  by (simp add: holders_def)

lemma holders_update:
  assumes "i < length ts" "ts ! i = (r, p)"
  shows "holders r' (ts[i := (r, q)]) = holders r' ts + (if r' = r then (if q = Holding then 1 else 0) - (if p = Holding then 1 else 0) else 0)"
proof -
  have "(r, p) \<in># mset ts" using assms by (metis nth_mem_mset)
  then have "1 \<le> count (mset ts) (r, p)" by (simp add: Suc_leI)
  then show ?thesis using assms by (auto simp: holders_def mset_update of_nat_diff)
qed

lemma holders_nonneg: "0 \<le> holders r ts"
  by (simp add: holders_def)

lemma set_update_subset': "x \<in> set (ts[i := y]) \<Longrightarrow> x \<in> set ts \<or> x = y"
  using set_update_subset_insert by fastforce

lemma limit_pos: "fst (limit env s) = maxOne (snd (limit env s)) \<and> 0 < fst (limit env s) \<and> (0 < maxOne s \<longrightarrow> snd (limit env s) = s) \<and> gates (snd (limit env s)) = gates s"
  by (auto simp: limit_def Let_def DefaultMax_def split: option.splits)

lemma gate_ok_ask:
  assumes "gate_ok s ts" "r \<noteq> []"
  shows "gate_ok (acquire_call env r s) (ts @ [(r, Waiting)])"
proof (cases "golookup (gates s) r")
  case (Some g)
  with assms(1) show ?thesis by (auto simp: acquire_call_def gate_ok_def)
next
  case None
  have free: "holders r ts = 0" using assms(1) None by (simp add: gate_ok_def holders_def count_eq_zero_iff)
  obtain m s0 where l: "limit env s = (m, s0)" by (cases "limit env s")
  have m: "m = maxOne s0" "0 < m" "0 < maxOne s \<Longrightarrow> s0 = s" "gates s0 = gates s" using limit_pos [of env s] l by auto
  have old: "golookup (gates s) r' = Some (c, n) \<Longrightarrow> c = maxOne s0" for r' c n
    using assms(1) m(3) by (metis gate_ok_def)
  show ?thesis
    using assms(1) None l m(1,2,4) free old by (auto simp: acquire_call_def gate_ok_def golookup_put split: if_splits)
qed

lemma gate_ok_enter:
  assumes "gate_ok s ts" "i < length ts" "ts ! i = (r, Waiting)" "gate_send r s = Some s'"
  shows "gate_ok s' (ts[i := (r, Holding)])"
proof -
  obtain c n where g: "golookup (gates s) r = Some (c, n)" "n < c" "s' = s\<lparr>gates := goput r (c, n + 1) (gates s)\<rparr>"
    using assms(4) by (auto simp: gate_send_def split: option.splits if_splits)
  have h: "holders r' (ts[i := (r, Holding)]) = holders r' ts + (if r' = r then 1 else 0)" for r'
    using holders_update [OF assms(2,3)] by simp
  have c: "c = maxOne s" "0 < c" "n = holders r ts" "n \<le> c" using assms(1) g(1) by (auto simp: gate_ok_def)
  show ?thesis
  proof (rule gate_okI)
    fix r' c' n'
    assume a: "golookup (gates s') r' = Some (c', n')"
    show "c' = maxOne s' \<and> 0 < c' \<and> n' = holders r' (ts[i := (r, Holding)]) \<and> n' \<le> c'"
    proof (cases "r' = r")
      case True
      with a c g(2) show ?thesis by (simp add: g(3) golookup_put h)
    next
      case False
      with a have "golookup (gates s) r' = Some (c', n')" by (simp add: g(3) golookup_put)
      from gate_okD(1) [OF assms(1) this] False show ?thesis by (simp add: g(3) h)
    qed
  next
    fix r'
    assume a: "golookup (gates s') r' = None"
    then have "r' \<noteq> r" "golookup (gates s) r' = None" by (auto simp: g(3) golookup_put split: if_splits)
    with gate_okD(2) [OF assms(1), of r'] show "(r', Waiting) \<notin> set (ts[i := (r, Holding)]) \<and> (r', Holding) \<notin> set (ts[i := (r, Holding)])"
      by (auto dest!: set_update_subset')
  qed
qed

lemma gate_ok_release:
  assumes "gate_ok s ts" "i < length ts" "ts ! i = (r, Holding)" "gate_receive r s = Some s'"
  shows "gate_ok s' (ts[i := (r, Released)])"
proof -
  obtain c n where g: "golookup (gates s) r = Some (c, n)" "0 < n" "s' = s\<lparr>gates := goput r (c, n - 1) (gates s)\<rparr>"
    using assms(4) by (auto simp: gate_receive_def split: option.splits if_splits)
  have h: "holders r' (ts[i := (r, Released)]) = holders r' ts - (if r' = r then 1 else 0)" for r'
    using holders_update [OF assms(2,3)] by simp
  have c: "c = maxOne s" "0 < c" "n = holders r ts" "n \<le> c" using assms(1) g(1) by (auto simp: gate_ok_def)
  show ?thesis
  proof (rule gate_okI)
    fix r' c' n'
    assume a: "golookup (gates s') r' = Some (c', n')"
    show "c' = maxOne s' \<and> 0 < c' \<and> n' = holders r' (ts[i := (r, Released)]) \<and> n' \<le> c'"
    proof (cases "r' = r")
      case True
      with a c g(2) show ?thesis by (simp add: g(3) golookup_put h)
    next
      case False
      with a have "golookup (gates s) r' = Some (c', n')" by (simp add: g(3) golookup_put)
      from gate_okD(1) [OF assms(1) this] False show ?thesis by (simp add: g(3) h)
    qed
  next
    fix r'
    assume a: "golookup (gates s') r' = None"
    then have "r' \<noteq> r" "golookup (gates s) r' = None" by (auto simp: g(3) golookup_put split: if_splits)
    with gate_okD(2) [OF assms(1), of r'] show "(r', Waiting) \<notin> set (ts[i := (r, Released)]) \<and> (r', Holding) \<notin> set (ts[i := (r, Released)])"
      by (auto dest!: set_update_subset')
  qed
qed

lemma gate_ok_ungated: "gate_ok s ts \<Longrightarrow> gate_ok s (ts @ [([], Released)])"
  by (simp add: gate_ok_def)

lemma gate_reach_ok: "gate_reach env x \<Longrightarrow> gate_ok (fst x) (snd x)"
proof (induction rule: gate_reach.induct)
  case Start
  then show ?case by (simp add: gate_ok_def Reset_def)
next
  case (Step x y)
  obtain s ts where x: "x = (s, ts)" by (cases x)
  from Step(2) [unfolded x] Step(3) [unfolded x] show ?case
    by (cases rule: gate_step_cases) (auto intro: gate_ok_ask gate_ok_enter gate_ok_release gate_ok_ungated)
qed

text \<open>
  C23. The gate bounds what is in flight against a router and never jams: in every state the callers can bring about,
  the number of commands in flight against a router is exactly the number of callers holding a slot and is at most
  the cap, a waiting caller can go ahead as soon as that number is below the cap, and a holder can always release.
\<close>

theorem gate_bounds:
  assumes "gate_reach env (s, ts)" "r \<noteq> []"
  shows "InFlight r s = holders r ts \<and> InFlight r s \<le> fst (Cap env s) \<and>
    (\<forall>i<length ts. ts ! i = (r, Waiting) \<and> InFlight r s < fst (Cap env s) \<longrightarrow> (\<exists>s'. gate_step env (s, ts) (s', ts[i := (r, Holding)]))) \<and>
    (\<forall>i<length ts. ts ! i = (r, Holding) \<longrightarrow> (\<exists>s'. gate_step env (s, ts) (s', ts[i := (r, Released)]) \<and> InFlight r s' = InFlight r s - 1))"
proof -
  have ok: "gate_ok s ts" using gate_reach_ok [OF assms(1)] by simp
  show ?thesis
  proof (cases "golookup (gates s) r")
    case None
    with ok have w: "(r, Waiting) \<notin> set ts" "(r, Holding) \<notin> set ts" by (simp_all add: gate_ok_def)
    moreover have "holders r ts = 0" using w(2) by (simp add: holders_def count_eq_zero_iff)
    moreover have "0 \<le> fst (Cap env s)" using limit_pos [of env s] by (simp add: Cap_def)
    ultimately show ?thesis using None by (auto simp: InFlight_def) (metis nth_mem)+
  next
    case (Some g)
    obtain c n where g: "g = (c, n)" by (cases g)
    with ok Some have c: "c = maxOne s" "0 < c" "n = holders r ts" "n \<le> c" by (auto simp: gate_ok_def)
    have cap: "fst (Cap env s) = c" using c by (simp add: Cap_def limit_def)
    have fl: "InFlight r s = n" using Some g by (simp add: InFlight_def)
    have "\<exists>s'. gate_step env (s, ts) (s', ts[i := (r, Holding)])" if "i < length ts" "ts ! i = (r, Waiting)" "n < c" for i
      using Enter [OF that(1,2), of s _ env] Some g that(3) by (fastforce simp: gate_send_def)
    moreover have "\<exists>s'. gate_step env (s, ts) (s', ts[i := (r, Released)]) \<and> InFlight r s' = n - 1" if i: "i < length ts" "ts ! i = (r, Holding)" for i
    proof -
      have "(r, Holding) \<in># mset ts" using i by (metis nth_mem_mset)
      then have "0 < n" using c(3) by (simp add: holders_def)
      then have "gate_receive r s = Some (s\<lparr>gates := goput r (c, n - 1) (gates s)\<rparr>)" using Some g by (simp add: gate_receive_def)
      from Release [OF i this, of env] show ?thesis by (fastforce simp: InFlight_def golookup_put)
    qed
    ultimately show ?thesis unfolding fl cap using c by blast
  qed
qed

theorem gate_bounds_witness:
  "InFlight ''r'' (acquire_call ''1'' ''r'' Reset) = 0 \<and>
   (\<exists>s'. gate_step ''1'' (acquire_call ''1'' ''r'' Reset, [(''r'', Waiting)]) (s', [(''r'', Holding)]))"
proof -
  have "gate_reach ''1'' (acquire_call ''1'' ''r'' Reset, [] @ [(''r'', Waiting)])"
    by (rule gate_reach.Step [OF gate_reach.Start]) (rule gate_step.Ask, simp)
  moreover have "InFlight ''r'' (acquire_call ''1'' ''r'' Reset) = 0" "fst (Cap ''1'' (acquire_call ''1'' ''r'' Reset)) = 1" by code_simp+
  ultimately show ?thesis using gate_bounds [of "''1''" "acquire_call ''1'' ''r'' Reset" "[(''r'', Waiting)]" "''r''"] by simp
qed

section \<open>The rolling minute\<close>

definition zeroRate :: cmdRate where
  "zeroRate = \<lparr>sec = replicate 60 0, cnt = replicate 60 0\<rparr>"

definition note_bucket :: "int \<Rightarrow> cmdRate \<Rightarrow> cmdRate" where
  "note_bucket now r =
     (let i = nat (now mod rateWindow);
          r1 = (if sec r ! i \<noteq> now then r\<lparr>sec := (sec r)[i := now], cnt := (cnt r)[i := 0]\<rparr> else r)
      in r1\<lparr>cnt := (cnt r1)[i := cnt r1 ! i + 1]\<rparr>)"

definition noteRateLocked :: "int \<Rightarrow> string \<Rightarrow> loadKey \<Rightarrow> Limits \<Rightarrow> Limits" where
  "noteRateLocked now routerID k s =
     (if routerID = [] then s
      else let rows = (case golookup (load s) routerID of Some rows \<Rightarrow> rows | None \<Rightarrow> []);
               r = (case golookup rows k of Some r \<Rightarrow> r | None \<Rightarrow> zeroRate)
           in s\<lparr>load := goput routerID (goput k (note_bucket now r) rows) (load s)\<rparr>)"

definition Note :: "int \<Rightarrow> string \<Rightarrow> string \<Rightarrow> string \<Rightarrow> Limits \<Rightarrow> Limits" where
  "Note now routerID menu source s =
     (if menu = [] then s
      else let src = (if source = [] then ''Other'' else source);
               s1 = s\<lparr>menus := bump menu 1 (menus s)\<rparr>
           in noteRateLocked now routerID (src, menu) s1)"

definition cmdRate_sum :: "int \<Rightarrow> cmdRate \<Rightarrow> int" where
  "cmdRate_sum now r =
     (let cut = now - rateWindow
      in sum_list (map (\<lambda>i. if cut < sec r ! i then cnt r ! i else 0) [0..<length (sec r)]))"

definition Load :: "int \<Rightarrow> string \<Rightarrow> Limits \<Rightarrow> Rate list \<times> Limits" where
  "Load now routerID s =
     (case golookup (load s) routerID of
        None \<Rightarrow> ([], s)
      | Some rows \<Rightarrow>
          let live = filter (\<lambda>(k, r). cmdRate_sum now r \<noteq> 0) rows
          in (map (\<lambda>(k, r). \<lparr>Source = fst k, Menu = snd k, PerMin = cmdRate_sum now r\<rparr>) live,
              s\<lparr>load := goput routerID live (load s)\<rparr>))"

text \<open>What a row says of one second.\<close>

definition recent :: "cmdRate \<Rightarrow> int \<Rightarrow> int" where
  "recent r t = (let i = nat (t mod 60) in if sec r ! i = t then cnt r ! i else 0)"

definition rate_ok :: "int \<Rightarrow> cmdRate \<Rightarrow> bool" where
  "rate_ok lt r \<longleftrightarrow> length (sec r) = 60 \<and> length (cnt r) = 60 \<and>
     (\<forall>i<60. sec r ! i \<le> lt \<and> 0 \<le> cnt r ! i \<and> (cnt r ! i \<noteq> 0 \<longrightarrow> sec r ! i mod 60 = int i))"

lemma slot: "nat (t mod 60) < 60" for t :: int
  by (simp add: nat_less_iff)

lemma rate_okD:
  assumes "rate_ok lt r"
  shows "length (sec r) = 60" "length (cnt r) = 60" "i < 60 \<Longrightarrow> sec r ! i \<le> lt" "i < 60 \<Longrightarrow> 0 \<le> cnt r ! i"
    "i < 60 \<Longrightarrow> cnt r ! i \<noteq> 0 \<Longrightarrow> sec r ! i mod 60 = int i"
  using assms by (simp_all add: rate_ok_def)

lemma rate_ok_zero: "0 \<le> lt \<Longrightarrow> rate_ok lt zeroRate"
  by (simp add: rate_ok_def zeroRate_def)

lemma recent_zero [simp]: "recent zeroRate t = 0"
  using slot [of t] by (simp add: recent_def zeroRate_def Let_def)

lemma recent_nonneg: "rate_ok lt r \<Longrightarrow> 0 \<le> recent r t"
  using slot [of t] by (simp add: recent_def rate_ok_def Let_def)

lemma recent_future: "rate_ok lt r \<Longrightarrow> lt < t \<Longrightarrow> recent r t = 0"
  using slot [of t] rate_okD(3) [of lt r "nat (t mod 60)"] by (auto simp: recent_def Let_def)

lemma rate_ok_later: "rate_ok lt r \<Longrightarrow> lt \<le> now \<Longrightarrow> rate_ok now r"
  unfolding rate_ok_def by (meson order_trans)

text \<open>Two seconds of one minute fall in different buckets.\<close>

lemma same_slot:
  fixes t u now :: int
  assumes "t mod 60 = u mod 60" "now - 60 < t" "t \<le> now" "now - 60 < u" "u \<le> now"
  shows "t = u"
proof -
  from assms(1) obtain k where k: "t - u = 60 * k" by (metis mod_eq_dvd_iff dvdE)
  have "k < 1" "-1 < k" using k assms(2-5) by linarith+
  then have "k = 0" by linarith
  with k show ?thesis by simp
qed

lemma note_bucket_recent:
  assumes "rate_ok lt r" "now - 60 < t" "t \<le> now"
  shows "recent (note_bucket now r) t = recent r t + (if t = now then 1 else 0)"
proof (cases "t = now")
  case True
  then show ?thesis using rate_okD(1,2) [OF assms(1)] slot [of now]
    by (simp add: recent_def note_bucket_def rateWindow_def Let_def)
next
  case False
  have "nat (t mod 60) \<noteq> nat (now mod 60)"
  proof
    assume "nat (t mod 60) = nat (now mod 60)"
    then have "t mod 60 = now mod 60" using pos_mod_sign [of 60 t] pos_mod_sign [of 60 now] by (simp add: eq_nat_nat_iff)
    from same_slot [OF this assms(2,3)] False show False by simp
  qed
  with False show ?thesis by (simp add: recent_def note_bucket_def rateWindow_def Let_def)
qed

lemma note_bucket_ok:
  assumes "rate_ok lt r" "lt \<le> now"
  shows "rate_ok now (note_bucket now r)"
proof -
  note d = rate_okD [OF rate_ok_later [OF assms]]
  define j where "j = nat (now mod 60)"
  have j: "j < 60" "int j = now mod 60" using slot [of now] by (simp_all add: j_def)
  define r1 where "r1 = (if sec r ! j \<noteq> now then r\<lparr>sec := (sec r)[j := now], cnt := (cnt r)[j := 0]\<rparr> else r)"
  have e: "note_bucket now r = r1\<lparr>cnt := (cnt r1)[j := cnt r1 ! j + 1]\<rparr>"
    by (simp add: note_bucket_def rateWindow_def Let_def j_def r1_def)
  have l: "length (sec r1) = 60" "length (cnt r1) = 60" using d(1,2) by (simp_all add: r1_def)
  have at: "sec r1 ! j = now" "0 \<le> cnt r1 ! j" using d(1,2,4) j(1) by (auto simp: r1_def)
  have other: "i \<noteq> j \<Longrightarrow> sec r1 ! i = sec r ! i \<and> cnt r1 ! i = cnt r ! i" for i by (simp add: r1_def)
  have "sec r1 ! i \<le> now \<and> 0 \<le> ((cnt r1)[j := cnt r1 ! j + 1]) ! i \<and>
      (((cnt r1)[j := cnt r1 ! j + 1]) ! i \<noteq> 0 \<longrightarrow> sec r1 ! i mod 60 = int i)" if "i < 60" for i
  proof (cases "i = j")
    case True
    with at j l show ?thesis by simp
  next
    case False
    with other d(3-5) [of i] that show ?thesis by auto
  qed
  with l show ?thesis unfolding e rate_ok_def by simp
qed

text \<open>The sum of the buckets is the sum over the seconds of the minute.\<close>

lemma cmdRate_sum_recent:
  assumes "rate_ok lt r" "lt \<le> now"
  shows "cmdRate_sum now r = (\<Sum>t\<in>{now - 60<..now}. recent r t)"
proof -
  note d = rate_okD [OF rate_ok_later [OF assms]]
  define slot_of where "slot_of = (\<lambda>t::int. nat (t mod 60))"
  have inj: "inj_on slot_of {now - 60<..now}"
  proof (rule inj_onI)
    fix t u
    assume tu: "t \<in> {now - 60<..now}" "u \<in> {now - 60<..now}" "slot_of t = slot_of u"
    have "t mod 60 = u mod 60" using tu(3) pos_mod_sign [of 60 t] pos_mod_sign [of 60 u] by (simp add: slot_of_def eq_nat_nat_iff)
    from same_slot [OF this, of now] tu(1,2) show "t = u" by simp
  qed
  have "slot_of ` {now - 60<..now} = {..<60}"
  proof (rule card_subset_eq)
    show "slot_of ` {now - 60<..now} \<subseteq> {..<60}" using slot by (auto simp: slot_of_def)
    show "card (slot_of ` {now - 60<..now}) = card {..<60::nat}" using card_image [OF inj] by simp
  qed simp
  then have "(\<Sum>i\<in>{..<60}. if now - 60 < sec r ! i then cnt r ! i else 0) =
      (\<Sum>t\<in>{now - 60<..now}. if now - 60 < sec r ! slot_of t then cnt r ! slot_of t else 0)"
    by (metis (no_types, lifting) sum.reindex_cong [OF inj])
  also have "\<dots> = (\<Sum>t\<in>{now - 60<..now}. recent r t)"
  proof (rule sum.cong [OF refl])
    fix t
    assume t: "t \<in> {now - 60<..now}"
    define i where "i = slot_of t"
    have i: "i < 60" "int i = t mod 60" using slot [of t] by (simp_all add: i_def slot_of_def)
    have "sec r ! i = t" if "now - 60 < sec r ! i" "cnt r ! i \<noteq> 0"
      using same_slot [of "sec r ! i" t now] d(3) [OF i(1)] d(5) [OF i(1) that(2)] that(1) i(2) t by simp
    moreover have "recent r t = (if sec r ! i = t then cnt r ! i else 0)" by (simp add: recent_def Let_def i_def slot_of_def)
    ultimately show "(if now - 60 < sec r ! slot_of t then cnt r ! slot_of t else 0) = recent r t"
      using t unfolding i_def [symmetric] by auto
  qed
  finally show ?thesis
    using d(1) by (simp add: cmdRate_sum_def rateWindow_def Let_def interv_sum_list_conv_sum_set_nat atLeast0LessThan)
qed


text \<open>The state and the notes made so far, each with its second.\<close>

type_synonym command_note = "int \<times> string \<times> loadKey"

datatype load_event = NoteAt int string string string | LoadAt int string

fun event_time :: "load_event \<Rightarrow> int" where
  "event_time (NoteAt now _ _ _) = now"
| "event_time (LoadAt now _) = now"

fun load_step :: "Limits \<Rightarrow> load_event \<Rightarrow> Rate list \<times> Limits" where
  "load_step s (NoteAt now r menu source) = ([], Note now r menu source s)"
| "load_step s (LoadAt now r) = Load now r s"

fun noted :: "load_event list \<Rightarrow> command_note list" where
  "noted [] = []"
| "noted (NoteAt now r menu source # es) =
     (if menu = [] \<or> r = [] then noted es else (now, r, (if source = [] then ''Other'' else source, menu)) # noted es)"
| "noted (LoadAt _ _ # es) = noted es"

definition in_minute :: "command_note list \<Rightarrow> int \<Rightarrow> string \<Rightarrow> loadKey \<Rightarrow> int" where
  "in_minute H now r k = int (length (filter (\<lambda>(t, r', k'). now - 60 < t \<and> t \<le> now \<and> r' = r \<and> k' = k) H))"

definition row_at :: "Limits \<Rightarrow> string \<Rightarrow> loadKey \<Rightarrow> cmdRate option" where
  "row_at s r k = (case golookup (load s) r of None \<Rightarrow> None | Some rows \<Rightarrow> golookup rows k)"

definition recorded :: "Limits \<Rightarrow> string \<Rightarrow> loadKey \<Rightarrow> int \<Rightarrow> int" where
  "recorded s r k t = (case row_at s r k of None \<Rightarrow> 0 | Some c \<Rightarrow> recent c t)"

definition times_of :: "command_note list \<Rightarrow> string \<Rightarrow> loadKey \<Rightarrow> int \<Rightarrow> int" where
  "times_of H r k t = int (count (mset H) (t, r, k))"

definition load_inv :: "int \<Rightarrow> command_note list \<Rightarrow> Limits \<Rightarrow> bool" where
  "load_inv lt H s \<longleftrightarrow> 0 \<le> lt \<and> (\<forall>r rows. golookup (load s) r = Some rows \<longrightarrow> gomap_ok rows) \<and>
     (\<forall>r k c. row_at s r k = Some c \<longrightarrow> rate_ok lt c) \<and> (\<forall>h\<in>set H. fst h \<le> lt) \<and>
     (\<forall>r k t. lt - 60 < t \<and> t \<le> lt \<longrightarrow> recorded s r k t = times_of H r k t)"

lemma load_invD:
  assumes "load_inv lt H s"
  shows "0 \<le> lt" "golookup (load s) r = Some rows \<Longrightarrow> gomap_ok rows" "row_at s r k = Some c \<Longrightarrow> rate_ok lt c"
    "h \<in> set H \<Longrightarrow> fst h \<le> lt" "lt - 60 < t \<Longrightarrow> t \<le> lt \<Longrightarrow> recorded s r k t = times_of H r k t"
  using assms unfolding load_inv_def by blast+

lemma recorded_later:
  assumes "load_inv lt H s" "lt \<le> now" "now - 60 < t"
  shows "recorded s r k t = times_of H r k t"
proof (cases "t \<le> lt")
  case True
  with assms load_invD(5) show ?thesis by simp
next
  case False
  have "(t, r, k) \<notin> set H" using load_invD(4) [OF assms(1), of "(t, r, k)"] False by auto
  then have "times_of H r k t = 0" by (simp add: times_of_def count_eq_zero_iff)
  moreover have "recorded s r k t = 0"
  proof (cases "row_at s r k")
    case (Some c)
    from recent_future [OF load_invD(3) [OF assms(1) Some]] False Some show ?thesis by (simp add: recorded_def)
  qed (simp add: recorded_def)
  ultimately show ?thesis by simp
qed

lemma recorded_sum:
  assumes "load_inv lt H s" "lt \<le> now" "row_at s r k = Some c"
  shows "cmdRate_sum now c = in_minute H now r k"
proof -
  have "cmdRate_sum now c = (\<Sum>t\<in>{now - 60<..now}. recent c t)"
    using load_invD(3) [OF assms(1,3)] assms(2) by (rule cmdRate_sum_recent)
  also have "\<dots> = (\<Sum>t\<in>{now - 60<..now}. times_of H r k t)"
  proof (rule sum.cong [OF refl])
    fix t
    assume "t \<in> {now - 60<..now}"
    then show "recent c t = times_of H r k t" using recorded_later [OF assms(1,2), of t r k] assms(3) by (simp add: recorded_def)
  qed
  also have "\<dots> = in_minute H now r k"
  proof (induction H)
    case (Cons h H)
    obtain t0 r0 k0 where h: "h = (t0, r0, k0)" by (cases h)
    have pt: "times_of (h # H) r k t = times_of H r k t + (if t = t0 then (if r0 = r \<and> k0 = k then 1 else 0) else 0)" for t
      by (simp add: times_of_def h)
    have "(\<Sum>t\<in>{now - 60<..now}. times_of (h # H) r k t) =
        (\<Sum>t\<in>{now - 60<..now}. times_of H r k t) + (\<Sum>t\<in>{now - 60<..now}. if t = t0 then (if r0 = r \<and> k0 = k then 1 else 0) else 0)"
      unfolding pt by (rule sum.distrib)
    also have "(\<Sum>t\<in>{now - 60<..now}. if t = t0 then (if r0 = r \<and> k0 = k then 1 else 0) else 0) =
        (if t0 \<in> {now - 60<..now} \<and> r0 = r \<and> k0 = k then 1 else (0::int))"
      by simp
    finally show ?case using Cons by (simp add: in_minute_def h)
  qed (simp add: times_of_def in_minute_def)
  finally show ?thesis .
qed


lemma load_inv_later: "load_inv lt H s \<Longrightarrow> lt \<le> now \<Longrightarrow> load_inv now H s"
proof -
  assume inv: "load_inv lt H s" and le: "lt \<le> now"
  note d = load_invD [OF inv]
  have "0 \<le> now" using d(1) le by simp
  moreover have "row_at s r k = Some c \<Longrightarrow> rate_ok now c" for r k c using d(3) rate_ok_later le by blast
  moreover have "h \<in> set H \<Longrightarrow> fst h \<le> now" for h using d(4) le by (meson order_trans)
  ultimately show ?thesis unfolding load_inv_def using d(2) recorded_later [OF inv le] by blast
qed

lemma row_at_note:
  "r \<noteq> [] \<Longrightarrow> row_at (noteRateLocked now r k s) r' k' =
    (if r' = r \<and> k' = k then Some (note_bucket now (case row_at s r k of Some c \<Rightarrow> c | None \<Rightarrow> zeroRate)) else row_at s r' k')"
  by (auto simp: noteRateLocked_def row_at_def Let_def golookup_put split: option.splits)

lemma load_inv_noteRate:
  assumes "load_inv now H s" "r \<noteq> []"
  shows "load_inv now ((now, r, k) # H) (noteRateLocked now r k s)"
proof -
  note d = load_invD [OF assms(1)]
  define c where "c = (case row_at s r k of Some c \<Rightarrow> c | None \<Rightarrow> zeroRate)"
  have c: "rate_ok now c" "recent c t = recorded s r k t" for t
    using d(1,3) rate_ok_zero by (auto simp: c_def recorded_def split: option.splits)
  have row: "row_at (noteRateLocked now r k s) r' k' = (if r' = r \<and> k' = k then Some (note_bucket now c) else row_at s r' k')" for r' k'
    using row_at_note [OF assms(2)] by (simp add: c_def)
  have maps: "golookup (load (noteRateLocked now r k s)) r' = Some rows \<Longrightarrow> gomap_ok rows" for r' rows
    using d(2) assms(2) by (auto simp: noteRateLocked_def Let_def golookup_put split: if_splits option.splits)
  have rates: "row_at (noteRateLocked now r k s) r' k' = Some c' \<Longrightarrow> rate_ok now c'" for r' k' c'
    using d(3) note_bucket_ok [OF c(1) order_refl] by (auto simp: row split: if_splits)
  have "recorded (noteRateLocked now r k s) r' k' t = times_of ((now, r, k) # H) r' k' t" if t: "now - 60 < t" "t \<le> now" for r' k' t
  proof (cases "r' = r \<and> k' = k")
    case True
    then have "recorded (noteRateLocked now r k s) r' k' t = recent c t + (if t = now then 1 else 0)"
      using note_bucket_recent [OF c(1) t] by (simp add: recorded_def row)
    with True c(2) d(5) [OF t] show ?thesis by (simp add: times_of_def)
  next
    case False
    then have "recorded (noteRateLocked now r k s) r' k' t = recorded s r' k' t" by (auto simp: recorded_def row)
    with False d(5) [OF t] show ?thesis by (auto simp: times_of_def)
  qed
  with d(1,4) maps rates show ?thesis unfolding load_inv_def by auto
qed

lemma load_inv_cong: "load s = load s' \<Longrightarrow> load_inv lt H s = load_inv lt H s'"
  by (simp add: load_inv_def row_at_def recorded_def)

lemma load_inv_Note:
  assumes "load_inv lt H s" "lt \<le> now"
  shows "load_inv now (rev (noted [NoteAt now r menu source]) @ H) (Note now r menu source s)"
proof -
  define s1 where "s1 = s\<lparr>menus := bump menu 1 (menus s)\<rparr>"
  have i: "load_inv now H s" "load_inv now H s1"
    using load_inv_later [OF assms] load_inv_cong [of s s1] by (simp_all add: s1_def)
  show ?thesis
  proof (cases "menu = [] \<or> r = []")
    case True
    with i show ?thesis by (auto simp: Note_def noteRateLocked_def Let_def s1_def)
  next
    case False
    with load_inv_noteRate [OF i(2)] show ?thesis by (simp add: Note_def Let_def s1_def)
  qed
qed

text \<open>A row with nothing left in its minute says nothing of any second of it.\<close>

lemma empty_minute:
  assumes "rate_ok lt c" "lt \<le> now" "cmdRate_sum now c = 0" "now - 60 < t" "t \<le> now"
  shows "recent c t = 0"
proof -
  have "(\<Sum>t\<in>{now - 60<..now}. recent c t) = 0" using cmdRate_sum_recent [OF assms(1,2)] assms(3) by simp
  then have "\<forall>t\<in>{now - 60<..now}. recent c t = 0"
    using recent_nonneg [OF assms(1)] by (subst (asm) sum_nonneg_eq_0_iff) auto
  with assms(4,5) show ?thesis by simp
qed

lemma load_inv_Load:
  assumes "load_inv lt H s" "lt \<le> now"
  shows "load_inv now H (snd (Load now r s))"
proof (cases "golookup (load s) r")
  case None
  then show ?thesis using load_inv_later [OF assms] by (simp add: Load_def)
next
  case (Some rows)
  have inv: "load_inv now H s" using load_inv_later [OF assms] .
  note d = load_invD [OF inv]
  define live where "live = filter (\<lambda>(k, c). cmdRate_sum now c \<noteq> 0) rows"
  have l: "load (snd (Load now r s)) = goput r live (load s)" using Some by (simp add: Load_def Let_def live_def)
  have row: "row_at (snd (Load now r s)) r' k =
      (case row_at s r' k of Some c \<Rightarrow> if r' = r \<and> cmdRate_sum now c = 0 then None else Some c | None \<Rightarrow> None)" for r' k
    using Some golookup_filter [OF d(2) [OF Some], of "\<lambda>_ c. cmdRate_sum now c \<noteq> 0"]
    by (simp add: row_at_def l golookup_put live_def split: option.splits)
  have maps: "golookup (load (snd (Load now r s))) r' = Some rows' \<Longrightarrow> gomap_ok rows'" for r' rows'
    using d(2) gomap_ok_filter [OF d(2) [OF Some]] by (auto simp: l golookup_put live_def split: if_splits)
  have rates: "row_at (snd (Load now r s)) r' k = Some c \<Longrightarrow> rate_ok now c" for r' k c
    using d(3) by (auto simp: row split: option.splits if_splits)
  have "recorded (snd (Load now r s)) r' k t = recorded s r' k t" if t: "now - 60 < t" "t \<le> now" for r' k t
  proof (cases "row_at s r' k")
    case (Some c)
    with empty_minute [OF d(3) [OF Some] order_refl _ t] show ?thesis by (simp add: recorded_def row)
  qed (simp add: recorded_def row)
  with d(1,4,5) maps rates show ?thesis unfolding load_inv_def by simp
qed

lemma load_inv_step:
  assumes "load_inv lt H s" "lt \<le> event_time e"
  shows "load_inv (event_time e) (rev (noted [e]) @ H) (snd (load_step s e))"
proof (cases e)
  case (NoteAt now r menu source)
  with load_inv_Note [OF assms(1)] assms(2) show ?thesis by simp
next
  case (LoadAt now r)
  with load_inv_Load [OF assms(1)] assms(2) show ?thesis by simp
qed

lemma noted_Cons: "noted (e # es) = noted [e] @ noted es"
  by (cases e) simp_all

lemma load_inv_run:
  "load_inv lt H s \<Longrightarrow> sorted (lt # map event_time es) \<Longrightarrow>
    load_inv (List.last (lt # map event_time es)) (rev (noted es) @ H) (snd (run load_step s es))"
proof (induction es arbitrary: lt H s)
  case (Cons e es)
  then have "load_inv (event_time e) (rev (noted [e]) @ H) (snd (load_step s e))" by (intro load_inv_step) auto
  from Cons.IH [OF this] Cons.prems(2) show ?case by (simp add: noted_Cons [of e es])
qed simp


lemma row_counts:
  assumes "load_inv lt (rev es) s" "lt \<le> now"
  shows "row_at s r k = Some c \<Longrightarrow> cmdRate_sum now c = in_minute es now r k" "row_at s r k = None \<Longrightarrow> in_minute es now r k = 0"
proof -
  have cnt: "in_minute (rev es) now r k = in_minute es now r k" by (simp add: in_minute_def rev_filter [symmetric])
  then show "row_at s r k = Some c \<Longrightarrow> cmdRate_sum now c = in_minute es now r k"
    using recorded_sum [OF assms] by simp
  assume none: "row_at s r k = None"
  have "times_of (rev es) r k t = 0" if "now - 60 < t" for t
    using recorded_later [OF assms that, of r k] none by (simp add: recorded_def)
  then have "(t, r, k) \<notin> set es" if "now - 60 < t" for t using that by (simp add: times_of_def count_eq_zero_iff)
  then show "in_minute es now r k = 0" by (auto simp: in_minute_def filter_empty_conv)
qed

lemma Load_rows:
  assumes "load_inv lt (rev es) s" "lt \<le> now"
  shows "distinct (map (\<lambda>x. (Source x, Menu x)) (fst (Load now r s)))"
    "\<lparr>Source = src, Menu = menu, PerMin = n\<rparr> \<in> set (fst (Load now r s)) \<longleftrightarrow> n = in_minute es now r (src, menu) \<and> 0 < n"
proof -
  define rows where "rows = (case golookup (load s) r of None \<Rightarrow> [] | Some rows \<Rightarrow> rows)"
  have ok: "gomap_ok rows" using load_invD(2) [OF assms(1)] by (simp add: rows_def split: option.split)
  have at: "golookup rows k = row_at s r k" for k by (simp add: rows_def row_at_def split: option.split)
  define live where "live = filter (\<lambda>(k, c). cmdRate_sum now c \<noteq> 0) rows"
  have out: "fst (Load now r s) = map (\<lambda>(k, c). \<lparr>Source = fst k, Menu = snd k, PerMin = cmdRate_sum now c\<rparr>) live"
    by (simp add: Load_def Let_def live_def rows_def split: option.split)
  have "map (\<lambda>x. (Source x, Menu x)) (fst (Load now r s)) = map fst live" unfolding out by (simp add: case_prod_beta comp_def)
  then show "distinct (map (\<lambda>x. (Source x, Menu x)) (fst (Load now r s)))"
    using gomap_ok_filter [OF ok] by (simp add: live_def)
  have "\<lparr>Source = src, Menu = menu, PerMin = n\<rparr> \<in> set (fst (Load now r s)) \<longleftrightarrow>
      (\<exists>c. ((src, menu), c) \<in> set rows \<and> cmdRate_sum now c \<noteq> 0 \<and> n = cmdRate_sum now c)"
    unfolding out live_def by (force simp: image_iff)
  also have "\<dots> \<longleftrightarrow> (case row_at s r (src, menu) of None \<Rightarrow> False | Some c \<Rightarrow> cmdRate_sum now c \<noteq> 0 \<and> n = cmdRate_sum now c)"
    unfolding at [symmetric] by (rule gomap_mem_cases [OF ok])
  also have "\<dots> \<longleftrightarrow> n = in_minute es now r (src, menu) \<and> 0 < n"
    using row_counts [OF assms, of r "(src, menu)"] by (cases "row_at s r (src, menu)") (auto simp: in_minute_def)
  finally show "\<lparr>Source = src, Menu = menu, PerMin = n\<rparr> \<in> set (fst (Load now r s)) \<longleftrightarrow> n = in_minute es now r (src, menu) \<and> 0 < n" .
qed

text \<open>
  C24. The command rate is exact: after any sequence of notes and readings whose clock does not run backwards, reading
  a router's load lists each source and menu that sent it a command in the minute that ends now, once, with the number
  of those commands, and nothing else. Reading drops only rows that no later reading could show.
\<close>

theorem load_exact:
  assumes "sorted (0 # map event_time (es @ [LoadAt now r]))"
  shows "distinct (map (\<lambda>x. (Source x, Menu x)) (fst (Load now r (snd (run load_step Reset es))))) \<and>
    (\<forall>source menu n. \<lparr>Source = source, Menu = menu, PerMin = n\<rparr> \<in> set (fst (Load now r (snd (run load_step Reset es)))) \<longleftrightarrow>
       n = in_minute (noted es) now r (source, menu) \<and> 0 < n)"
proof -
  define lt where "lt = List.last (0 # map event_time es)"
  have "load_inv 0 [] Reset" by (simp add: load_inv_def Reset_def row_at_def recorded_def times_of_def)
  moreover have "sorted (0 # map event_time es)" using assms by (auto simp: sorted_append)
  ultimately have inv: "load_inv lt (rev (noted es)) (snd (run load_step Reset es))"
    using load_inv_run [of 0 "[]" Reset es] by (simp add: lt_def)
  have "lt \<le> now" using assms by (auto simp: lt_def sorted_append last_map)
  from Load_rows [OF inv this] show ?thesis by blast
qed

theorem load_exact_witness:
  "\<lparr>Source = ''Other'', Menu = ''/ip'', PerMin = 2\<rparr> \<in> set (fst (Load 130 ''r''
     (snd (run load_step Reset [NoteAt 60 ''r'' ''/ip'' [], NoteAt 120 ''r'' ''/ip'' [], LoadAt 121 ''r'', NoteAt 129 ''r'' ''/ip'' []]))))"
proof -
  have "in_minute (noted [NoteAt 60 ''r'' ''/ip'' [], NoteAt 120 ''r'' ''/ip'' [], LoadAt 121 ''r'', NoteAt 129 ''r'' ''/ip'' []]) 130 ''r'' (''Other'', ''/ip'') = 2"
    by code_simp
  then show ?thesis
    using load_exact [of "[NoteAt 60 ''r'' ''/ip'' [], NoteAt 120 ''r'' ''/ip'' [], LoadAt 121 ''r'', NoteAt 129 ''r'' ''/ip'' []]" 130 "''r''"] by simp
qed

section \<open>Open streams\<close>

definition StreamOpened :: "string \<Rightarrow> Limits \<Rightarrow> Limits" where
  "StreamOpened routerID s = (if routerID = [] then s else s\<lparr>streams := bump routerID 1 (streams s)\<rparr>)"

text \<open>The body of the release, which its \<open>once\<close> lets run one time.\<close>

definition stream_release :: "string \<Rightarrow> Limits \<Rightarrow> Limits" where
  "stream_release routerID s =
     (if routerID = [] then s
      else let m = bump routerID (-1) (streams s)
           in s\<lparr>streams := (case golookup m routerID of Some n \<Rightarrow> if n \<le> 0 then godelete routerID m else m | None \<Rightarrow> m)\<rparr>)"

definition StreamsGone :: "string \<Rightarrow> Limits \<Rightarrow> Limits" where
  "StreamsGone routerID s = s\<lparr>streams := godelete routerID (streams s)\<rparr>"

definition OpenStreams :: "string \<Rightarrow> Limits \<Rightarrow> int" where
  "OpenStreams routerID s = (case golookup (streams s) routerID of Some n \<Rightarrow> n | None \<Rightarrow> 0)"

lemma OpenStreams_simps:
  "r \<noteq> [] \<Longrightarrow> OpenStreams r' (StreamOpened r s) = OpenStreams r' s + (if r' = r then 1 else 0)"
  "r \<noteq> [] \<Longrightarrow> 0 < OpenStreams r s \<Longrightarrow> OpenStreams r' (stream_release r s) = OpenStreams r' s - (if r' = r then 1 else 0)"
  "OpenStreams r' (StreamsGone r s) = (if r' = r then 0 else OpenStreams r' s)"
  by (auto simp: OpenStreams_def StreamOpened_def stream_release_def StreamsGone_def bump_def Let_def gomap_simps split: option.splits)

text \<open>
  A release that comes after the connection was replaced is counted against the streams of the new one: the level is
  zero although a stream is open.
\<close>

lemma late_release_undercounts:
  "OpenStreams ''r'' (stream_release ''r'' (StreamOpened ''r'' (StreamsGone ''r'' (StreamOpened ''r'' Reset)))) = 0"
  by code_simp

end
