(* ===== verification/Backups.thy ===== *)
theory Backups
  imports Calendar "HOL-Library.Multiset"
begin

text \<open>
  Configuration backups: when one is due (\<^verbatim>\<open>internal/backups/due.go\<close>), which stored pairs retention
  removes (\<^verbatim>\<open>prune.go\<close>), and what a submitted settings block is stored as (\<^verbatim>\<open>normalize.go\<close>).
\<close>

section \<open>When a backup is due\<close>

definition Schedules :: "(string, int) gomap" where
  "Schedules = [(''hourly'', 3600000), (''daily'', 86400000), (''weekly'', 604800000), (''monthly'', 2592000000)]"

definition schedule_ms :: "string \<Rightarrow> int" where
  "schedule_ms s = (case golookup Schedules s of Some n \<Rightarrow> n | None \<Rightarrow> 0)"

definition DefaultTime :: string where "DefaultTime = ''08:00''"


text \<open>The two-digit groups of \<open>backupTime\<close>, an hour up to 23 and a minute up to 59.\<close>

definition hour_ok :: "string \<Rightarrow> bool" where
  "hour_ok h \<longleftrightarrow> length h = 2 \<and> list_all is_digit h \<and> digits_val h < 24"

definition minute_ok :: "string \<Rightarrow> bool" where
  "minute_ok m \<longleftrightarrow> length m = 2 \<and> list_all is_digit m \<and> digits_val m < 60"

definition match_backupTime :: "string \<Rightarrow> (string \<times> string) option" where
  "match_backupTime s =
     (if length s = 5 \<and> s ! 2 = CHR '':'' \<and> hour_ok (take 2 s) \<and> minute_ok (drop 3 s) then Some (take 2 s, drop 3 s) else None)"

definition TimeMinutes :: "string \<Rightarrow> int" where
  "TimeMinutes t = (case match_backupTime (TrimSpace t) of None \<Rightarrow> -1 | Some (h, m) \<Rightarrow> int (digits_val h) * 60 + int (digits_val m))"
















lemma graphic_digit: "is_digit c \<Longrightarrow> graphic c"
  unfolding is_digit_def graphic_def less_eq_char_def by (simp add: of_char_def)






section \<open>What retention removes\<close>

record Pair =
  Stem :: string
  RscBytes :: int
  BackupBytes :: int

record Retention =
  KeepCount :: int
  KeepDays :: int

text \<open>\<open>stemRe\<close>: the six groups of digits of \<open>2006-01-02T150405\<close>.\<close>

definition stem_groups :: "string \<Rightarrow> string list" where
  "stem_groups s = [take 4 s, take 2 (drop 5 s), take 2 (drop 8 s), take 2 (drop 11 s), take 2 (drop 13 s), drop 15 s]"

definition match_stemRe :: "string \<Rightarrow> string list option" where
  "match_stemRe s =
     (if length s = 17 \<and> s ! 4 = CHR ''-'' \<and> s ! 7 = CHR ''-'' \<and> s ! 10 = CHR ''T'' \<and> list_all (list_all is_digit) (stem_groups s)
      then Some (stem_groups s) else None)"

definition stemToMs :: "string \<Rightarrow> int option" where
  "stemToMs s =
     (case match_stemRe s of
        None \<Rightarrow> None
      | Some g \<Rightarrow> let n = (\<lambda>i. int (digits_val (g ! i))) in Some (date_ms (n 0) (n 1) (n 2) (n 3) (n 4) (n 5)))"

text \<open>\<open>sort.SliceStable\<close> with the greater stem first; \<open>sort_key\<close> is stable, so equal stems keep their order.\<close>

definition sort_desc :: "Pair list \<Rightarrow> Pair list" where
  "sort_desc ps = rev (sort_key Stem (rev ps))"

definition SelectForPruning :: "Pair list \<Rightarrow> Retention \<Rightarrow> millis \<Rightarrow> string list" where
  "SelectForPruning pairs r now =
     (let sorted = sort_desc (filter (\<lambda>p. stemToMs (Stem p) \<noteq> None) pairs)
      in if length sorted \<le> 1 then []
         else let over = (if 0 < KeepCount r \<and> KeepCount r < int (length sorted)
                          then map Stem (drop (nat (KeepCount r)) sorted) else []);
                  cutoff = now - KeepDays r * 86400000;
                  aged = (if 0 < KeepDays r
                          then map Stem (filter (\<lambda>p. case stemToMs (Stem p) of Some ms \<Rightarrow> ms < cutoff | None \<Rightarrow> False) sorted) else []);
                  doomed = removeAll (Stem (hd sorted)) (over @ aged)
              in map Stem (filter (\<lambda>p. Stem p \<in> set doomed) sorted))"

text \<open>Strings of one length compare part by part, and digits of one length compare as numbers.\<close>

lemma less_append: "length a = length b \<Longrightarrow> a @ x < b @ y \<longleftrightarrow> a < b \<or> a = b \<and> x < y" for a b x y :: "'a::linorder list"
  by (induction a b rule: list_induct2) (auto simp: list_less_def lexord_cons_cons)

lemma digit_codes:
  assumes "is_digit c" "is_digit d"
  shows "c < d \<longleftrightarrow> digit_val c < digit_val d" "c = d \<longleftrightarrow> digit_val c = digit_val d" "digit_val c < 10"
proof -
  define x y :: nat where "x = of_char c" and "y = of_char d"
  have b: "48 \<le> x" "x \<le> 57" "48 \<le> y" "y \<le> 57" using assms by (simp_all add: is_digit_of x_def y_def)
  have v: "digit_val c = x - 48" "digit_val d = y - 48" by (simp_all add: digit_val_def x_def y_def)
  have "c < d \<longleftrightarrow> x < y" by (simp add: less_char_def x_def y_def)
  with b v show "c < d \<longleftrightarrow> digit_val c < digit_val d" by linarith
  have "c = d \<longleftrightarrow> x = y" by (simp add: x_def y_def)
  with b v show "c = d \<longleftrightarrow> digit_val c = digit_val d" by linarith
  show "digit_val c < 10" using b v by linarith
qed

lemma digits_val_snoc: "digits_val (s @ [c]) = 10 * digits_val s + digit_val c"
  by (simp add: digits_val_def)

lemma digits_less:
  "length a = length b \<Longrightarrow> list_all is_digit a \<Longrightarrow> list_all is_digit b \<Longrightarrow>
    (a < b \<longleftrightarrow> digits_val a < digits_val b) \<and> (a = b \<longleftrightarrow> digits_val a = digits_val b)"
proof (induction a arbitrary: b rule: rev_induct)
  case Nil
  then show ?case by simp
next
  case (snoc c a)
  then obtain b' d where b: "b = b' @ [d]" "length a = length b'" by (metis append_butlast_last_id length_append_singleton length_butlast butlast_snoc length_0_conv nat.distinct(1))
  have ih: "a < b' \<longleftrightarrow> digits_val a < digits_val b'" "a = b' \<longleftrightarrow> digits_val a = digits_val b'"
    using snoc.IH [OF b(2)] snoc.prems by (simp_all add: b)
  have d: "is_digit c" "is_digit d" "digit_val c < 10" "digit_val d < 10"
    using snoc.prems digit_codes(3) [of c c] digit_codes(3) [of d d] by (simp_all add: b)
  have lt: "[c] < [d] \<longleftrightarrow> digit_val c < digit_val d" using digit_codes(1) [OF d(1,2)] by (simp add: list_less_def)
  have "a @ [c] < b \<longleftrightarrow> digits_val a < digits_val b' \<or> digits_val a = digits_val b' \<and> digit_val c < digit_val d"
    unfolding b(1) less_append [OF b(2)] lt ih by simp
  moreover have "a @ [c] = b \<longleftrightarrow> digits_val a = digits_val b' \<and> digit_val c = digit_val d"
    unfolding b(1) using ih(2) digit_codes(2) [OF d(1,2)] by auto
  ultimately show ?case unfolding b(1) digits_val_snoc using d(3,4) by auto
qed


text \<open>A stem as the groups around its punctuation.\<close>

lemma stem_split:
  assumes "match_stemRe s = Some g"
  obtains y mo d h mi se where "g = [y, mo, d, h, mi, se]" "s = y @ ''-'' @ mo @ ''-'' @ d @ ''T'' @ h @ mi @ se"
    "length y = 4" "length mo = 2" "length d = 2" "length h = 2" "length mi = 2" "length se = 2"
    "list_all (list_all is_digit) [y, mo, d, h, mi, se]"
proof -
  from assms have m: "length s = 17" "s ! 4 = CHR ''-''" "s ! 7 = CHR ''-''" "s ! 10 = CHR ''T''"
      "list_all (list_all is_digit) (stem_groups s)" "g = stem_groups s"
    by (auto simp: match_stemRe_def split: if_splits)
  have cut: "drop i s = take k (drop i s) @ drop (i + k) s" for i k by (metis add.commute append_take_drop_id drop_drop)
  have at: "drop i s = s ! i # drop (Suc i) s" if "i < 17" for i using that m(1) by (simp add: Cons_nth_drop_Suc)
  have "s = take 4 s @ drop 4 s" by simp
  also have "drop 4 s = ''-'' @ drop 5 s" using at [of 4] m(2) by simp
  also have "drop 5 s = take 2 (drop 5 s) @ drop 7 s" using cut [of 5 2] by simp
  also have "drop 7 s = ''-'' @ drop 8 s" using at [of 7] m(3) by simp
  also have "drop 8 s = take 2 (drop 8 s) @ drop 10 s" using cut [of 8 2] by simp
  also have "drop 10 s = ''T'' @ drop 11 s" using at [of 10] m(4) by simp
  also have "drop 11 s = take 2 (drop 11 s) @ drop 13 s" using cut [of 11 2] by simp
  also have "drop 13 s = take 2 (drop 13 s) @ drop 15 s" using cut [of 13 2] by simp
  finally show ?thesis using m
    by (intro that [of "take 4 s" "take 2 (drop 5 s)" "take 2 (drop 8 s)" "take 2 (drop 11 s)" "take 2 (drop 13 s)" "drop 15 s"])
      (simp_all add: stem_groups_def)
qed

text \<open>A stem this program could have written names a real date and time.\<close>

definition valid_stem :: "string \<Rightarrow> bool" where
  "valid_stem s = (case match_stemRe s of None \<Rightarrow> False
     | Some g \<Rightarrow> valid_date (int (digits_val (g ! 0))) (int (digits_val (g ! 1))) (int (digits_val (g ! 2))) \<and>
         digits_val (g ! 3) < 24 \<and> digits_val (g ! 4) < 60 \<and> digits_val (g ! 5) < 60)"

lemma date_ms_less:
  assumes "valid_date y m d" "valid_date y' m' d'" "0 \<le> h" "h < 24" "0 \<le> h'" "h' < 24" "0 \<le> n" "n < 60" "0 \<le> n'" "n' < 60"
    "0 \<le> s" "s < 60" "0 \<le> s'" "s' < 60" "(y, m, d, h, n, s) < (y', m', d', h', n', s')"
  shows "date_ms y m d h n s < date_ms y' m' d' h' n' s'"
proof (cases "(y, m, d) = (y', m', d')")
  case True
  then have "h < h' \<or> h = h' \<and> (n < n' \<or> n = n' \<and> s < s')" using assms(15) by (auto simp: less_prod_def')
  with True assms(3-14) show ?thesis by (auto simp: date_ms_def)
next
  case False
  then have "(y, m, d) < (y', m', d')" using assms(15) by (auto simp: less_prod_def')
  from civil_days_less [OF assms(1,2) this] have "civil_days y m d + 1 \<le> civil_days y' m' d'" by simp
  moreover have "date_ms y m d h n s < civil_days y m d * 86400000 + 86400000" using assms(4,8,12) by (simp add: date_ms_def)
  moreover have "civil_days y' m' d' * 86400000 \<le> date_ms y' m' d' h' n' s'" using assms(5,9,13) by (simp add: date_ms_def)
  ultimately show ?thesis by linarith
qed

lemma stem_order:
  assumes "valid_stem a" "valid_stem b" "a < b" "stemToMs a = Some x" "stemToMs b = Some z"
  shows "x < z"
proof -
  obtain g where g: "match_stemRe a = Some g" using assms(1) by (auto simp: valid_stem_def split: option.splits)
  obtain k where k: "match_stemRe b = Some k" using assms(2) by (auto simp: valid_stem_def split: option.splits)
  from stem_split [OF g] obtain y mo d h mi se where p: "g = [y, mo, d, h, mi, se]" "a = y @ ''-'' @ mo @ ''-'' @ d @ ''T'' @ h @ mi @ se"
    "length y = 4" "length mo = 2" "length d = 2" "length h = 2" "length mi = 2" "length se = 2"
    "list_all (list_all is_digit) [y, mo, d, h, mi, se]" .
  from stem_split [OF k] obtain y' mo' d' h' mi' se' where q: "k = [y', mo', d', h', mi', se']" "b = y' @ ''-'' @ mo' @ ''-'' @ d' @ ''T'' @ h' @ mi' @ se'"
    "length y' = 4" "length mo' = 2" "length d' = 2" "length h' = 2" "length mi' = 2" "length se' = 2"
    "list_all (list_all is_digit) [y', mo', d', h', mi', se']" .
  have "(int (digits_val y), int (digits_val mo), int (digits_val d), int (digits_val h), int (digits_val mi), int (digits_val se)) <
      (int (digits_val y'), int (digits_val mo'), int (digits_val d'), int (digits_val h'), int (digits_val mi'), int (digits_val se'))"
    using assms(3) p(3-9) q(3-9) digits_less [of y y'] digits_less [of mo mo'] digits_less [of d d'] digits_less [of h h'] digits_less [of mi mi'] digits_less [of se se']
    by (auto simp: p(2) q(2) less_append less_prod_def')
  with assms(1,2,4,5) show ?thesis
    by (auto simp: valid_stem_def stemToMs_def g k p(1) q(1) Let_def intro!: date_ms_less)
qed


text \<open>The pairs that are newer than an instant.\<close>

definition newer :: "Pair list \<Rightarrow> int \<Rightarrow> Pair list" where
  "newer pairs t = filter (\<lambda>p. case stemToMs (Stem p) of Some u \<Rightarrow> t < u | None \<Rightarrow> False) pairs"

lemma desc_drop:
  "sorted_wrt (\<lambda>p q. Stem q < Stem p) L \<Longrightarrow> p \<in> set L \<Longrightarrow>
    p \<in> set (drop k L) \<longleftrightarrow> k \<le> length (filter (\<lambda>q. Stem p < Stem q) L)"
proof (induction L arbitrary: k)
  case (Cons x xs)
  show ?case
  proof (cases "p = x")
    case True
    have "filter (\<lambda>q. Stem x < Stem q) (x # xs) = []" using Cons.prems(1) by (auto simp: filter_empty_conv)
    moreover have "x \<notin> set xs" using Cons.prems(1) by auto
    ultimately show ?thesis using True by (cases k) (auto dest: in_set_dropD)
  next
    case False
    with Cons.prems have "p \<in> set xs" "Stem p < Stem x" "sorted_wrt (\<lambda>p q. Stem q < Stem p) xs" by auto
    with Cons.IH show ?thesis by (cases k) auto
  qed
qed simp

lemma sort_desc_sorted:
  assumes "distinct (map Stem ps)"
  shows "sorted_wrt (\<lambda>p q. Stem q < Stem p) (sort_desc ps)" "set (sort_desc ps) = set ps" "mset (sort_desc ps) = mset ps"
proof -
  have "sorted (map Stem (sort_key Stem (rev ps)))" by simp
  moreover have "distinct (map Stem (sort_key Stem (rev ps)))" using assms by (simp add: distinct_map)
  ultimately have "sorted_wrt (<) (map Stem (sort_key Stem (rev ps)))" by (simp add: strict_sorted_iff)
  then show "sorted_wrt (\<lambda>p q. Stem q < Stem p) (sort_desc ps)" by (simp add: sort_desc_def sorted_wrt_rev sorted_wrt_map)
qed (simp_all add: sort_desc_def)

lemma newer_stems:
  assumes "\<forall>p\<in>set pairs. stemToMs (Stem p) \<noteq> None \<longrightarrow> valid_stem (Stem p)" "p \<in> set pairs" "stemToMs (Stem p) = Some t"
    "q \<in> set pairs"
  shows "(case stemToMs (Stem q) of Some u \<Rightarrow> t < u | None \<Rightarrow> False) \<longleftrightarrow> stemToMs (Stem q) \<noteq> None \<and> Stem p < Stem q"
proof (cases "stemToMs (Stem q)")
  case (Some u)
  have v: "valid_stem (Stem p)" "valid_stem (Stem q)" using assms Some by auto
  show ?thesis
  proof (cases "Stem p" "Stem q" rule: linorder_cases)
    case less
    with stem_order [OF v less assms(3) Some] Some show ?thesis by simp
  next
    case equal
    with Some assms(3) show ?thesis by simp
  next
    case greater
    with stem_order [OF v(2,1) greater Some assms(3)] Some show ?thesis by simp
  qed
qed simp

text \<open>The pairs whose stem is a time stamp, newest first.\<close>

definition dated :: "Pair list \<Rightarrow> Pair list" where
  "dated pairs = sort_desc (filter (\<lambda>p. stemToMs (Stem p) \<noteq> None) pairs)"

lemma dated_sorted:
  assumes "distinct (map Stem pairs)"
  shows "sorted_wrt (\<lambda>p q. Stem q < Stem p) (dated pairs)" "set (dated pairs) = {p \<in> set pairs. stemToMs (Stem p) \<noteq> None}"
    "mset (dated pairs) = mset (filter (\<lambda>p. stemToMs (Stem p) \<noteq> None) pairs)"
  using sort_desc_sorted [OF distinct_map_filter [OF assms]] by (auto simp: dated_def)

lemma dated_inj:
  assumes "distinct (map Stem pairs)" "p \<in> set (dated pairs)" "q \<in> set (dated pairs)" "Stem p = Stem q"
  shows "p = q"
  using assms dated_sorted(2) [OF assms(1)] by (auto simp: distinct_map inj_on_def)

lemma newer_count:
  assumes "distinct (map Stem pairs)" "\<forall>p\<in>set pairs. stemToMs (Stem p) \<noteq> None \<longrightarrow> valid_stem (Stem p)"
    "p \<in> set pairs" "stemToMs (Stem p) = Some t"
  shows "length (filter (\<lambda>q. Stem p < Stem q) (dated pairs)) = length (newer pairs t)"
proof -
  have "mset (filter (\<lambda>q. Stem p < Stem q) (dated pairs)) =
      mset (filter (\<lambda>q. Stem p < Stem q) (filter (\<lambda>p. stemToMs (Stem p) \<noteq> None) pairs))"
    unfolding mset_filter dated_sorted(3) [OF assms(1)] ..
  also have "filter (\<lambda>q. Stem p < Stem q) (filter (\<lambda>p. stemToMs (Stem p) \<noteq> None) pairs) = newer pairs t"
    unfolding newer_def filter_filter using newer_stems [OF assms(2-4)] by (intro filter_cong refl) auto
  finally show ?thesis by (metis mset_eq_length)
qed

lemma newer_drop:
  assumes "distinct (map Stem pairs)" "\<forall>p\<in>set pairs. stemToMs (Stem p) \<noteq> None \<longrightarrow> valid_stem (Stem p)"
    "p \<in> set pairs" "stemToMs (Stem p) = Some t"
  shows "Stem p \<in> Stem ` set (drop k (dated pairs)) \<longleftrightarrow> k \<le> length (newer pairs t)"
proof -
  have p: "p \<in> set (dated pairs)" using assms(3,4) dated_sorted(2) [OF assms(1)] by auto
  have "Stem p \<in> Stem ` set (drop k (dated pairs)) \<longleftrightarrow> p \<in> set (drop k (dated pairs))"
    using dated_inj [OF assms(1) p] by (auto dest: in_set_dropD)
  then show ?thesis using desc_drop [OF dated_sorted(1) [OF assms(1)] p] newer_count [OF assms] by simp
qed

lemma newest_iff:
  assumes "distinct (map Stem pairs)" "\<forall>p\<in>set pairs. stemToMs (Stem p) \<noteq> None \<longrightarrow> valid_stem (Stem p)"
    "p \<in> set pairs" "stemToMs (Stem p) = Some t"
  shows "newer pairs t \<noteq> [] \<longleftrightarrow> Stem p \<noteq> Stem (hd (dated pairs))"
proof -
  have p: "p \<in> set (dated pairs)" using assms(3,4) dated_sorted(2) [OF assms(1)] by auto
  then obtain x xs where x: "dated pairs = x # xs" by (cases "dated pairs") auto
  have "newer pairs t \<noteq> [] \<longleftrightarrow> Stem p \<in> Stem ` set xs"
    using newer_drop [OF assms, of 1] x by (simp add: Suc_le_eq)
  then show ?thesis using p x dated_sorted(1) [OF assms(1)] by auto
qed

lemma SelectForPruning_mem:
  assumes "distinct (map Stem pairs)" "\<forall>p\<in>set pairs. stemToMs (Stem p) \<noteq> None \<longrightarrow> valid_stem (Stem p)"
    "p \<in> set pairs" "stemToMs (Stem p) = Some t"
  shows "Stem p \<in> set (SelectForPruning pairs r now) \<longleftrightarrow> newer pairs t \<noteq> [] \<and>
    (0 < KeepCount r \<and> KeepCount r \<le> int (length (newer pairs t)) \<or> 0 < KeepDays r \<and> t < now - KeepDays r * 86400000)"
proof -
  have p: "p \<in> set (dated pairs)" using assms(3,4) dated_sorted(2) [OF assms(1)] by auto
  have fewer: "length (newer pairs t) < length (dated pairs)"
    using newer_count [OF assms] length_filter_less [OF p, of "\<lambda>q. Stem p < Stem q"] by simp
  have over: "Stem p \<in> set (if 0 < KeepCount r \<and> KeepCount r < int (length (dated pairs))
      then map Stem (drop (nat (KeepCount r)) (dated pairs)) else []) \<longleftrightarrow> 0 < KeepCount r \<and> KeepCount r \<le> int (length (newer pairs t))"
    using newer_drop [OF assms] fewer by (auto simp: nat_le_iff)
  show ?thesis
  proof (cases "length (dated pairs) \<le> 1")
    case True
    then have "length (newer pairs t) = 0" using fewer by linarith
    then have "newer pairs t = []" by simp
    with True show ?thesis unfolding SelectForPruning_def Let_def dated_def [symmetric] by simp
  next
    case False
    then have "Stem p \<in> set (SelectForPruning pairs r now) \<longleftrightarrow> Stem p \<noteq> Stem (hd (dated pairs)) \<and>
        (Stem p \<in> set (if 0 < KeepCount r \<and> KeepCount r < int (length (dated pairs))
           then map Stem (drop (nat (KeepCount r)) (dated pairs)) else []) \<or> 0 < KeepDays r \<and> t < now - KeepDays r * 86400000)"
      using p assms(4) unfolding SelectForPruning_def Let_def dated_def [symmetric] by auto
    then show ?thesis unfolding over newest_iff [OF assms] .
  qed
qed

lemma SelectForPruning_sub:
  assumes "distinct (map Stem pairs)" "s \<in> set (SelectForPruning pairs r now)"
  obtains p t where "p \<in> set pairs" "s = Stem p" "stemToMs s = Some t"
proof -
  have "s \<in> Stem ` set (dated pairs)"
    using assms(2) unfolding SelectForPruning_def Let_def dated_def [symmetric] by (auto split: if_splits)
  with dated_sorted(2) [OF assms(1)] that show ?thesis by auto
qed

text \<open>
  C26. Retention removes exactly what it may, newest first: a stored pair is removed when it is not the newest and
  either at least \<open>KeepCount\<close> newer ones are kept or it is older than \<open>KeepDays\<close>, each limit applying when it is
  not zero. A file whose name is not a time stamp is never removed and never counts as the newest.
\<close>

theorem prune_exact:
  assumes "distinct (map Stem pairs)" "\<forall>p\<in>set pairs. stemToMs (Stem p) \<noteq> None \<longrightarrow> valid_stem (Stem p)"
  shows "sorted_wrt (\<lambda>a b. b < a) (SelectForPruning pairs r now) \<and>
    (\<forall>s. s \<in> set (SelectForPruning pairs r now) \<longleftrightarrow>
      (\<exists>t. s \<in> Stem ` set pairs \<and> stemToMs s = Some t \<and> newer pairs t \<noteq> [] \<and>
        (0 < KeepCount r \<and> KeepCount r \<le> int (length (newer pairs t)) \<or> 0 < KeepDays r \<and> t < now - KeepDays r * 86400000)))"
proof (intro conjI allI iffI)
  show "sorted_wrt (\<lambda>a b. b < a) (SelectForPruning pairs r now)"
    using dated_sorted(1) [OF assms(1)] unfolding SelectForPruning_def Let_def dated_def [symmetric]
    by (simp add: sorted_wrt_map sorted_wrt_filter)
next
  fix s
  assume s: "s \<in> set (SelectForPruning pairs r now)"
  with assms(1) obtain p t where "p \<in> set pairs" "s = Stem p" "stemToMs s = Some t" by (rule SelectForPruning_sub)
  with s SelectForPruning_mem [OF assms, of p t r now] show "\<exists>t. s \<in> Stem ` set pairs \<and> stemToMs s = Some t \<and> newer pairs t \<noteq> [] \<and>
      (0 < KeepCount r \<and> KeepCount r \<le> int (length (newer pairs t)) \<or> 0 < KeepDays r \<and> t < now - KeepDays r * 86400000)" by auto
next
  fix s
  assume "\<exists>t. s \<in> Stem ` set pairs \<and> stemToMs s = Some t \<and> newer pairs t \<noteq> [] \<and>
      (0 < KeepCount r \<and> KeepCount r \<le> int (length (newer pairs t)) \<or> 0 < KeepDays r \<and> t < now - KeepDays r * 86400000)"
  with SelectForPruning_mem [OF assms] show "s \<in> set (SelectForPruning pairs r now)" by auto
qed

definition demo_pairs :: "Pair list" where
  "demo_pairs = map (\<lambda>s. \<lparr>Stem = s, RscBytes = 1, BackupBytes = 1\<rparr>)
     [''2024-02-29T023000'', ''not-a-timestamp'', ''2024-03-01T023000'', ''2023-12-31T023000'']"

theorem prune_exact_witness:
  "sorted_wrt (\<lambda>a b. b < a) (SelectForPruning demo_pairs \<lparr>KeepCount = 2, KeepDays = 0\<rparr> 1709300000000) \<and>
   SelectForPruning demo_pairs \<lparr>KeepCount = 2, KeepDays = 0\<rparr> 1709300000000 = [''2023-12-31T023000'']"
proof -
  have "distinct (map Stem demo_pairs)" by code_simp
  moreover have "\<forall>p\<in>set demo_pairs. stemToMs (Stem p) \<noteq> None \<longrightarrow> valid_stem (Stem p)" by code_simp
  ultimately have "sorted_wrt (\<lambda>a b. b < a) (SelectForPruning demo_pairs \<lparr>KeepCount = 2, KeepDays = 0\<rparr> 1709300000000)"
    using prune_exact [of demo_pairs] by blast
  moreover have "SelectForPruning demo_pairs \<lparr>KeepCount = 2, KeepDays = 0\<rparr> 1709300000000 = [''2023-12-31T023000'']" by code_simp
  ultimately show ?thesis by simp
qed

section \<open>What a submitted block is stored as\<close>

definition DefaultKeepCount :: int where "DefaultKeepCount = 30"
definition DefaultKeepDays :: int where "DefaultKeepDays = 365"
definition DefaultSchedule :: string where "DefaultSchedule = ''daily''"

definition isSpace :: "char \<Rightarrow> bool" where
  "isSpace c \<longleftrightarrow> c \<in> {CHR 0x20, CHR 0x09, CHR 0x0A, CHR 0x0D, CHR 0x0C, CHR 0x0B}"

definition trimSpace :: "string \<Rightarrow> string" where
  "trimSpace s = rev (dropWhile isSpace (rev (dropWhile isSpace s)))"

text \<open>\<open>writeTime\<close>, looser than \<open>backupTime\<close>: a single-digit hour will do.\<close>

definition match_writeTime :: "string \<Rightarrow> (string \<times> string) option" where
  "match_writeTime s =
     (if match_backupTime s \<noteq> None then match_backupTime s
      else if length s = 4 \<and> s ! 1 = CHR '':'' \<and> is_digit (s ! 0) \<and> minute_ok (drop 2 s) then Some (take 1 s, drop 2 s)
      else None)"

definition NormalizeTime :: "string option \<Rightarrow> string \<Rightarrow> string" where
  "NormalizeTime v fallback =
     (case v of
        None \<Rightarrow> fallback
      | Some value \<Rightarrow>
          let s = trimSpace value
          in if s = [] then []
             else case match_writeTime s of
                    None \<Rightarrow> fallback
                  | Some (h, m) \<Rightarrow> (if length h = 1 then CHR ''0'' # h else h) @ '':'' @ m)"

text \<open>The digits of \<open>truncNumber\<close>: the number so far, whether a digit was seen, whether the point was.\<close>

fun trunc_loop :: "string \<Rightarrow> int \<Rightarrow> bool \<Rightarrow> bool \<Rightarrow> (int \<times> bool) option" where
  "trunc_loop [] n sn frac = Some (n, sn)"
| "trunc_loop (c # cs) n sn frac =
     (if c = CHR ''.'' then (if frac then None else trunc_loop cs n sn True)
      else if \<not> is_digit c then None
      else if frac then trunc_loop cs n True frac
      else let m = n * 10 + int (digit_val c) in trunc_loop cs (if 2 ^ 30 < m then 2 ^ 30 else m) True frac)"

definition truncNumber :: "string \<Rightarrow> int option" where
  "truncNumber v =
     (let s = trimSpace v
      in if s = [] then None
         else let sign = (hd s = CHR ''+'' \<or> hd s = CHR ''-''); neg = (hd s = CHR ''-'')
              in case trunc_loop (if sign then tl s else s) 0 False False of
                   None \<Rightarrow> None
                 | Some (n, sn) \<Rightarrow> if \<not> sn then None else Some (if neg then - n else n))"

definition ClampInt :: "string option \<Rightarrow> int \<Rightarrow> int \<Rightarrow> int \<Rightarrow> int" where
  "ClampInt v fallback lo hi =
     (case v of
        None \<Rightarrow> fallback
      | Some value \<Rightarrow>
          if value = [] then fallback
          else case truncNumber value of
                 None \<Rightarrow> fallback
               | Some n \<Rightarrow> if n < lo then lo else if hi < n then hi else n)"

text \<open>A decoded JSON value, as far as \<open>Truthy\<close> looks at it.\<close>

datatype any_value = ABool bool | AString string | AOther

fun Truthy :: "any_value \<Rightarrow> bool" where
  "Truthy (ABool b) = b"
| "Truthy (AString s) = (s = ''true'')"
| "Truthy AOther = False"

record BackupInput =
  i_Enabled :: "any_value option"
  i_Schedule :: "string option"
  i_Time :: "string option"
  i_KeepCount :: "string option"
  i_KeepDays :: "string option"
  i_MigrationExport :: "any_value option"

record Normalized =
  n_Enabled :: bool
  n_Schedule :: string
  n_Time :: string
  n_KeepCount :: int
  n_KeepDays :: int
  n_MigrationExport :: bool
  n_Password :: string
  PasswordGenerated :: bool

record Prev =
  p_Enabled :: bool
  p_Schedule :: string
  p_Time :: "string option"
  p_KeepCount :: "int option"
  p_KeepDays :: "int option"
  p_MigrationExport :: bool
  p_Password :: string

definition stored :: "Prev option \<Rightarrow> Normalized" where
  "stored prev =
     (case prev of
        None \<Rightarrow> \<lparr>n_Enabled = False, n_Schedule = DefaultSchedule, n_Time = DefaultTime, n_KeepCount = DefaultKeepCount,
                n_KeepDays = DefaultKeepDays, n_MigrationExport = False, n_Password = [], PasswordGenerated = False\<rparr>
      | Some p \<Rightarrow>
          \<lparr>n_Enabled = p_Enabled p, n_Schedule = (if p_Schedule p \<noteq> [] then p_Schedule p else DefaultSchedule),
           n_Time = (case p_Time p of Some t \<Rightarrow> t | None \<Rightarrow> DefaultTime),
           n_KeepCount = (case p_KeepCount p of Some n \<Rightarrow> n | None \<Rightarrow> DefaultKeepCount),
           n_KeepDays = (case p_KeepDays p of Some n \<Rightarrow> n | None \<Rightarrow> DefaultKeepDays),
           n_MigrationExport = p_MigrationExport p, n_Password = p_Password p, PasswordGenerated = False\<rparr>)"

text \<open>\<open>mint\<close> is what the password generator returns if it is called.\<close>

definition NormalizeBackup :: "BackupInput \<Rightarrow> Prev option \<Rightarrow> string result \<Rightarrow> Normalized result" where
  "NormalizeBackup inp prev mint =
     (let out0 = stored prev;
          out1 = out0\<lparr>n_Enabled := (case i_Enabled inp of Some v \<Rightarrow> Truthy v | None \<Rightarrow> n_Enabled out0),
                      n_MigrationExport := (case i_MigrationExport inp of Some v \<Rightarrow> Truthy v | None \<Rightarrow> n_MigrationExport out0),
                      n_Schedule := (case i_Schedule inp of Some s \<Rightarrow> if schedule_ms s \<noteq> 0 then s else n_Schedule out0 | None \<Rightarrow> n_Schedule out0),
                      n_Time := NormalizeTime (i_Time inp) (n_Time out0),
                      n_KeepCount := ClampInt (i_KeepCount inp) (n_KeepCount out0) 0 1000,
                      n_KeepDays := ClampInt (i_KeepDays inp) (n_KeepDays out0) 0 3650\<rparr>
      in if n_Enabled out1 \<and> n_Password out1 = []
         then (case mint of Inl e \<Rightarrow> Inl e | Inr pw \<Rightarrow> Inr (out1\<lparr>n_Password := pw, PasswordGenerated := True\<rparr>))
         else Inr out1)"

text \<open>A block the scheduler and the sweep can use.\<close>

definition time_ok :: "string \<Rightarrow> bool" where
  "time_ok t \<longleftrightarrow> t = [] \<or> match_backupTime t \<noteq> None"

definition block_ok :: "Normalized \<Rightarrow> bool" where
  "block_ok n \<longleftrightarrow> schedule_ms (n_Schedule n) \<noteq> 0 \<and> time_ok (n_Time n) \<and> 0 \<le> n_KeepCount n \<and> n_KeepCount n \<le> 1000 \<and>
     0 \<le> n_KeepDays n \<and> n_KeepDays n \<le> 3650"

lemma time_read_back:
  assumes "match_backupTime t = Some (h, m)"
  shows "TimeMinutes t = int (digits_val h) * 60 + int (digits_val m)"
proof -
  from assms have t: "length t = 5" "hour_ok (take 2 t)" "minute_ok (drop 3 t)" by (auto simp: match_backupTime_def split: if_splits)
  have "t ! 0 \<in> set (take 2 t)" using t(1) by (auto simp: in_set_conv_nth intro!: exI [of _ 0])
  moreover have "t ! 4 \<in> set (drop 3 t)" using t(1) by (auto simp: in_set_conv_nth intro!: exI [of _ 1])
  ultimately have "is_digit (t ! 0)" "is_digit (t ! 4)" using t(2,3) by (auto simp: hour_ok_def minute_ok_def list_all_iff)
  moreover have ne: "t \<noteq> []" using t(1) by auto
  moreover have "hd t = t ! 0" "List.last t = t ! 4" using t(1) hd_conv_nth [OF ne] last_conv_nth [OF ne] by simp_all
  ultimately have "graphic (hd t)" "graphic (List.last t)" "t \<noteq> []" using graphic_digit by auto
  then have "TrimSpace t = t" by (intro TrimSpace_graphic)
  with assms show ?thesis by (simp add: TimeMinutes_def)
qed

lemma NormalizeTime_ok:
  assumes "time_ok fallback"
  shows "time_ok (NormalizeTime v fallback)"
proof -
  have "match_backupTime ((if length h = 1 then CHR ''0'' # h else h) @ '':'' @ m) \<noteq> None" if w: "match_writeTime s = Some (h, m)" for s h m
  proof (cases "match_backupTime s")
    case (Some x)
    with w have s: "length s = 5" "s ! 2 = CHR '':''" "h = take 2 s" "m = drop 3 s"
      by (auto simp: match_writeTime_def match_backupTime_def split: if_splits)
    have "take 2 s @ s ! 2 # drop (Suc 2) s = s" using id_take_nth_drop [of 2 s] s(1) by simp
    then have e: "h @ '':'' @ m = s" unfolding s(3,4) using s(2) by simp
    have "length h \<noteq> 1" unfolding s(3) using s(1) by simp
    then have "(if length h = 1 then CHR ''0'' # h else h) @ '':'' @ m = s" using e by (simp only: if_False)
    then show ?thesis using Some by (simp only:) simp
  next
    case None
    with w have s: "length s = 4" "is_digit (s ! 0)" "minute_ok (drop 2 s)" "h = take 1 s" "m = drop 2 s"
      by (simp_all add: match_writeTime_def split: if_splits)
    have h: "h = [s ! 0]" unfolding s(4) using s(1) by (cases s) auto
    have "digit_val CHR ''0'' = 0" "is_digit CHR ''0''" by (simp_all add: digit_val_def is_digit_of)
    moreover have "digit_val (s ! 0) < 10" using digit_codes(3) [OF s(2) s(2)] .
    ultimately have "hour_ok [CHR ''0'', s ! 0]" using s(2) by (simp add: hour_ok_def digits_val_def)
    with s(1,3,5) h show ?thesis by (simp add: match_backupTime_def)
  qed
  then show ?thesis using assms by (auto simp: NormalizeTime_def time_ok_def Let_def split: option.splits)
qed

lemma ClampInt_range: "lo \<le> fallback \<Longrightarrow> fallback \<le> hi \<Longrightarrow> lo \<le> ClampInt v fallback lo hi \<and> ClampInt v fallback lo hi \<le> hi"
  by (auto simp: ClampInt_def split: option.splits)

text \<open>
  C27. Whatever a browser submits, what is stored is a block the rest of the program can use: when what was stored
  before is one (or nothing was), the new schedule is a known one, the time is empty or one the scheduler reads, the
  two limits are in range, and an enabled router has a password. A password that exists is carried forward and never
  replaced, and the only error is a failure to generate the first one.
\<close>

theorem normalize_backup_ok:
  assumes "block_ok (stored prev)" "\<forall>pw. mint = Inr pw \<longrightarrow> pw \<noteq> []"
  shows "(case NormalizeBackup inp prev mint of
      Inr out \<Rightarrow> block_ok out \<and> (n_Enabled out \<longrightarrow> n_Password out \<noteq> []) \<and>
        (n_Time out \<noteq> [] \<longrightarrow> 0 \<le> TimeMinutes (n_Time out)) \<and>
        (n_Password (stored prev) \<noteq> [] \<longrightarrow> n_Password out = n_Password (stored prev) \<and> \<not> PasswordGenerated out)
    | Inl e \<Rightarrow> mint = Inl e \<and> n_Password (stored prev) = [])"
proof -
  define out0 where "out0 = stored prev"
  define out1 where "out1 = out0\<lparr>n_Enabled := (case i_Enabled inp of Some v \<Rightarrow> Truthy v | None \<Rightarrow> n_Enabled out0),
      n_MigrationExport := (case i_MigrationExport inp of Some v \<Rightarrow> Truthy v | None \<Rightarrow> n_MigrationExport out0),
      n_Schedule := (case i_Schedule inp of Some s \<Rightarrow> if schedule_ms s \<noteq> 0 then s else n_Schedule out0 | None \<Rightarrow> n_Schedule out0),
      n_Time := NormalizeTime (i_Time inp) (n_Time out0),
      n_KeepCount := ClampInt (i_KeepCount inp) (n_KeepCount out0) 0 1000,
      n_KeepDays := ClampInt (i_KeepDays inp) (n_KeepDays out0) 0 3650\<rparr>"
  have eq: "NormalizeBackup inp prev mint = (if n_Enabled out1 \<and> n_Password out1 = []
      then (case mint of Inl e \<Rightarrow> Inl e | Inr pw \<Rightarrow> Inr (out1\<lparr>n_Password := pw, PasswordGenerated := True\<rparr>)) else Inr out1)"
    unfolding NormalizeBackup_def Let_def out0_def out1_def by (rule refl)
  have ok: "block_ok out1"
    using assms(1) NormalizeTime_ok ClampInt_range [of 0 "n_KeepCount out0" 1000] ClampInt_range [of 0 "n_KeepDays out0" 3650]
    by (simp add: block_ok_def out1_def out0_def split: option.splits)
  have rd: "n_Time out1 \<noteq> [] \<longrightarrow> 0 \<le> TimeMinutes (n_Time out1)" using ok time_read_back by (force simp: block_ok_def time_ok_def)
  have pw: "n_Password out1 = n_Password (stored prev)" by (simp add: out1_def out0_def)
  have gen: "\<not> PasswordGenerated out1" by (simp add: out1_def out0_def stored_def split: option.splits)
  have ok2: "block_ok (out1\<lparr>n_Password := q, PasswordGenerated := True\<rparr>)" for q using ok by (simp add: block_ok_def)
  show ?thesis unfolding eq using ok ok2 rd pw gen assms(2) by (cases mint) auto
qed

theorem normalize_backup_ok_witness:
  "NormalizeBackup \<lparr>i_Enabled = Some (ABool True), i_Schedule = Some ''wekly'', i_Time = Some '' 8:05'', i_KeepCount = Some ''12abc'',
      i_KeepDays = Some ''99999'', i_MigrationExport = None\<rparr> None (Inr ''secret'') =
    Inr \<lparr>n_Enabled = True, n_Schedule = ''daily'', n_Time = ''08:05'', n_KeepCount = 30, n_KeepDays = 3650, n_MigrationExport = False,
      n_Password = ''secret'', PasswordGenerated = True\<rparr> \<and> 0 \<le> TimeMinutes ''08:05''"
proof -
  define inp where "inp = \<lparr>i_Enabled = Some (ABool True), i_Schedule = Some ''wekly'', i_Time = Some '' 8:05'', i_KeepCount = Some ''12abc'',
      i_KeepDays = Some ''99999'', i_MigrationExport = None\<rparr>"
  have "block_ok (stored None)" by code_simp
  moreover have "NormalizeBackup inp None (Inr ''secret'') =
    Inr \<lparr>n_Enabled = True, n_Schedule = ''daily'', n_Time = ''08:05'', n_KeepCount = 30, n_KeepDays = 3650, n_MigrationExport = False,
      n_Password = ''secret'', PasswordGenerated = True\<rparr>" unfolding inp_def by code_simp
  ultimately show ?thesis using normalize_backup_ok [of None "Inr ''secret''" inp] by (simp add: inp_def)
qed

end
