(* ===== verification/Netip.thy ===== *)
theory Netip
  imports Go_Strings "HOL-Library.Word"
begin

text \<open>
  The part of Go's \<^verbatim>\<open>net/netip\<close> and \<^verbatim>\<open>net\<close> packages the program uses: addresses, how they are read
  and printed, prefixes, and splitting a host from a port. The zero \<open>Addr\<close>, which is no address, is not a value of
  the type; it only ever accompanies an error.
\<close>

unbundle bit_operations_syntax

section \<open>Addresses\<close>

datatype Addr = V4 "32 word" | V6 "128 word" string

fun Is4 :: "Addr \<Rightarrow> bool" where
  "Is4 (V4 _) = True"
| "Is4 (V6 _ _) = False"

fun has_zone :: "Addr \<Rightarrow> bool" where
  "has_zone (V4 _) = False"
| "has_zone (V6 _ z) = (z \<noteq> [])"

fun BitLen :: "Addr \<Rightarrow> nat" where
  "BitLen (V4 _) = 32"
| "BitLen (V6 _ _) = 128"

text \<open>An IPv4 address inside IPv6, \<open>::ffff:0:0/96\<close>.\<close>

fun Is4In6 :: "Addr \<Rightarrow> bool" where
  "Is4In6 (V4 _) = False"
| "Is4In6 (V6 w _) = (drop_bit 32 w = 0xFFFF)"

fun Unmap :: "Addr \<Rightarrow> Addr" where
  "Unmap (V4 w) = V4 w"
| "Unmap (V6 w z) = (if Is4In6 (V6 w z) then V4 (ucast w) else V6 w z)"

text \<open>Big-endian bytes.\<close>

definition word_of_bytes :: "nat list \<Rightarrow> 'a::len word" where
  "word_of_bytes bs = foldl (\<lambda>w b. push_bit 8 w OR of_nat b) 0 bs"

section \<open>Reading addresses\<close>

definition octet :: "string \<Rightarrow> nat option" where
  "octet s = (if s = [] \<or> \<not> list_all is_digit s \<or> (1 < length s \<and> hd s = CHR ''0'') \<or> 255 < digits_val s then None else Some (digits_val s))"

definition parse_ipv4_fields :: "string \<Rightarrow> nat list option" where
  "parse_ipv4_fields s =
     (let fs = map octet (go_split CHR ''.'' s) in if length fs = 4 \<and> None \<notin> set fs then Some (map the fs) else None)"

definition hex_val :: "char \<Rightarrow> nat option" where
  "hex_val c = (let n = of_char c :: nat
     in if 48 \<le> n \<and> n \<le> 57 then Some (n - 48) else if 97 \<le> n \<and> n \<le> 102 then Some (n - 87)
        else if 65 \<le> n \<and> n \<le> 70 then Some (n - 55) else None)"

fun hex_run :: "string \<Rightarrow> nat list \<times> string" where
  "hex_run [] = ([], [])"
| "hex_run (c # s) = (case hex_val c of None \<Rightarrow> ([], c # s) | Some d \<Rightarrow> (case hex_run s of (ds, rest) \<Rightarrow> (d # ds, rest)))"

lemma hex_run_rest: "length (snd (hex_run s)) \<le> length s"
  by (induction s) (auto split: option.splits prod.splits)

lemma hex_run_less: "fst (hex_run s) \<noteq> [] \<Longrightarrow> length (snd (hex_run s)) < length s"
proof (cases s)
  case (Cons c t)
  assume "fst (hex_run s) \<noteq> []"
  then show ?thesis using hex_run_rest [of t] Cons by (auto split: option.splits prod.splits)
qed simp

text \<open>The two bytes of a field of one to four digits.\<close>

definition hex_bytes :: "nat list \<Rightarrow> nat list" where
  "hex_bytes ds = (let q = replicate (4 - length ds) 0 @ ds in [16 * q ! 0 + q ! 1, 16 * q ! 2 + q ! 3])"

text \<open>
  The loop over the 16-bit fields: \<open>ip\<close> are the bytes so far and \<open>el\<close> the place of the double colon. The result is
  those at the end, \<^const>\<open>None\<close> for an error.
\<close>

function v6_loop :: "string \<Rightarrow> nat list \<Rightarrow> nat option \<Rightarrow> (string \<times> nat list \<times> nat option) option" where
  "v6_loop s ip el =
     (if 16 \<le> length ip then Some (s, ip, el)
      else let (ds, rest) = hex_run s
           in if ds = [] \<or> 4 < length ds then None
              else if rest \<noteq> [] \<and> hd rest = CHR ''.''
              then (if el = None \<and> length ip \<noteq> 12 then None
                    else if 16 < length ip + 4 then None
                    else case parse_ipv4_fields s of None \<Rightarrow> None | Some bs \<Rightarrow> Some ([], ip @ bs, el))
              else let ip' = ip @ hex_bytes ds
                   in if rest = [] then Some ([], ip', el)
                      else if hd rest \<noteq> CHR '':'' then None
                      else if length rest = 1 then None
                      else if hd (tl rest) = CHR '':''
                      then (if el \<noteq> None then None
                            else if length rest = 2 then Some ([], ip', Some (length ip'))
                            else v6_loop (drop 2 rest) ip' (Some (length ip')))
                      else v6_loop (tl rest) ip' el)"
  by pat_completeness auto
termination
proof (relation "measure (\<lambda>(s, ip, el). length s)")
  fix s :: string and ip :: "nat list" and x ds rest
  assume "x = hex_run s" "(ds, rest) = x" "\<not> (ds = [] \<or> 4 < length ds)"
  then have "length rest < length s" using hex_run_less [of s] by (metis fst_conv snd_conv)
  then show "((drop 2 rest, ip', Some n), (s, ip, el)) \<in> measure (\<lambda>(s, ip, el). length s)"
    "((tl rest, ip', el'), (s, ip, el)) \<in> measure (\<lambda>(s, ip, el). length s)" for ip' n el el' by auto
qed auto

declare v6_loop.simps [simp del]

definition parse_v6 :: "string \<Rightarrow> Addr option" where
  "parse_v6 s0 =
     (let i = length (takeWhile (\<lambda>c. c \<noteq> CHR ''%'') s0);
          s = take i s0;
          zoned = (i < length s0);
          zone = drop (Suc i) s0;
          lead = (has_prefix s ''::'');
          t = (if lead then drop 2 s else s)
      in if zoned \<and> zone = [] then None
         else if lead \<and> t = [] then Some (V6 0 zone)
         else case v6_loop t [] (if lead then Some 0 else None) of
                None \<Rightarrow> None
              | Some (rest, ip, el) \<Rightarrow>
                  if rest \<noteq> [] then None
                  else if length ip < 16
                  then (case el of
                          None \<Rightarrow> None
                        | Some e \<Rightarrow> Some (V6 (word_of_bytes (take e ip @ replicate (16 - length ip) 0 @ drop e ip)) zone))
                  else if el \<noteq> None then None
                  else Some (V6 (word_of_bytes ip) zone))"

definition parse_v4 :: "string \<Rightarrow> Addr option" where
  "parse_v4 s = (case parse_ipv4_fields s of None \<Rightarrow> None | Some bs \<Rightarrow> Some (V4 (word_of_bytes bs)))"

definition ParseAddr :: "string \<Rightarrow> Addr option" where
  "ParseAddr s =
     (case filter (\<lambda>c. c \<in> {CHR ''.'', CHR '':'', CHR ''%''}) s of
        [] \<Rightarrow> None
      | c # _ \<Rightarrow> if c = CHR ''.'' then parse_v4 s else if c = CHR '':'' then parse_v6 s else None)"

section \<open>Printing addresses\<close>

definition v4_fields :: "32 word \<Rightarrow> nat list" where
  "v4_fields w = map (\<lambda>i. unat (drop_bit (24 - 8 * i) w AND 0xFF)) [0..<4]"

definition v4_string :: "32 word \<Rightarrow> string" where
  "v4_string w = go_join ''.'' (map nat_digits (v4_fields w))"

fun hex_string :: "nat \<Rightarrow> string" where
  "hex_string n = (if n < 16 then [hex_digit n] else hex_string (n div 16) @ [hex_digit (n mod 16)])"

declare hex_string.simps [simp del]

definition v6_groups :: "128 word \<Rightarrow> nat list" where
  "v6_groups w = map (\<lambda>i. unat (drop_bit (112 - 16 * i) w AND 0xFFFF)) [0..<8]"

definition zero_run :: "nat list \<Rightarrow> nat \<Rightarrow> nat" where
  "zero_run gs i = length (takeWhile (\<lambda>g. g = 0) (drop i gs))"

text \<open>The first of the longest runs of at least two zero groups, as its start and end.\<close>

definition longest_run :: "nat list \<Rightarrow> (nat \<times> nat) option" where
  "longest_run gs =
     foldl (\<lambda>best i. let l = zero_run gs i
        in if 2 \<le> l \<and> (case best of None \<Rightarrow> True | Some (a, b) \<Rightarrow> b - a < l) then Some (i, i + l) else best) None [0..<length gs]"

definition v6_string :: "128 word \<Rightarrow> string" where
  "v6_string w =
     (let gs = v6_groups w
      in case longest_run gs of
           None \<Rightarrow> go_join '':'' (map hex_string gs)
         | Some (a, b) \<Rightarrow> go_join '':'' (map hex_string (take a gs)) @ ''::'' @ go_join '':'' (map hex_string (drop b gs)))"

fun Addr_String :: "Addr \<Rightarrow> string" where
  "Addr_String (V4 w) = v4_string w"
| "Addr_String (V6 w z) =
     (if Is4In6 (V6 w z) then ''::ffff:'' @ v4_string (ucast w) else v6_string w) @ (if z = [] then [] else CHR ''%'' # z)"

section \<open>Prefixes\<close>

record Prefix =
  p_addr :: Addr
  p_bits :: nat

text \<open>Whether two addresses agree in their first bits; \<open>Contains\<close> is false across families and for a zone.\<close>

fun Contains :: "Prefix \<Rightarrow> Addr \<Rightarrow> bool" where
  "Contains p (V4 w) = (case p_addr p of V4 v \<Rightarrow> drop_bit (32 - p_bits p) w = drop_bit (32 - p_bits p) v | V6 _ _ \<Rightarrow> False)"
| "Contains p (V6 w z) =
     (case p_addr p of V6 v _ \<Rightarrow> z = [] \<and> drop_bit (128 - p_bits p) w = drop_bit (128 - p_bits p) v | V4 _ \<Rightarrow> False)"

definition Masked :: "Prefix \<Rightarrow> Prefix" where
  "Masked p = p\<lparr>p_addr := (case p_addr p of
      V4 v \<Rightarrow> V4 (push_bit (32 - p_bits p) (drop_bit (32 - p_bits p) v))
    | V6 v z \<Rightarrow> V6 (push_bit (128 - p_bits p) (drop_bit (128 - p_bits p) v)) [])\<rparr>"

definition bits_of :: "string \<Rightarrow> nat \<Rightarrow> nat option" where
  "bits_of s hi =
     (if s = [] \<or> \<not> list_all is_digit s \<or> (1 < length s \<and> hd s = CHR ''0'') \<or> hi < digits_val s then None else Some (digits_val s))"

definition ParsePrefix :: "string \<Rightarrow> Prefix option" where
  "ParsePrefix s =
     (let parts = go_split CHR ''/'' s; host = go_join ''/'' (butlast parts)
      in if length parts < 2 then None
         else case ParseAddr host of
                None \<Rightarrow> None
              | Some a \<Rightarrow>
                  if has_zone a then None
                  else (case bits_of (List.last parts) (BitLen a) of None \<Rightarrow> None | Some b \<Rightarrow> Some \<lparr>p_addr = a, p_bits = b\<rparr>))"

lemma ParsePrefixI:
  "go_split CHR ''/'' s = [h, b] \<Longrightarrow> ParseAddr h = Some a \<Longrightarrow> \<not> has_zone a \<Longrightarrow> bits_of b (BitLen a) = Some n \<Longrightarrow>
    ParsePrefix s = Some \<lparr>p_addr = a, p_bits = n\<rparr>"
  by (simp add: ParsePrefix_def Let_def)

section \<open>Splitting a host from a port\<close>

definition index_of :: "char \<Rightarrow> string \<Rightarrow> nat option" where
  "index_of c s = (let i = length (takeWhile (\<lambda>d. d \<noteq> c) s) in if i < length s then Some i else None)"

definition last_index_of :: "char \<Rightarrow> string \<Rightarrow> nat option" where
  "last_index_of c s = (case index_of c (rev s) of None \<Rightarrow> None | Some i \<Rightarrow> Some (length s - 1 - i))"

text \<open>The host and the port, or \<^const>\<open>None\<close> for an error.\<close>

definition SplitHostPort :: "string \<Rightarrow> (string \<times> string) option" where
  "SplitHostPort s =
     (case last_index_of CHR '':'' s of
        None \<Rightarrow> None
      | Some i \<Rightarrow>
          if hd s = CHR ''[''
          then (case index_of CHR '']'' s of
                  None \<Rightarrow> None
                | Some e \<Rightarrow>
                    if e + 1 \<noteq> i then None
                    else if CHR ''['' \<in> set (drop 1 s) \<or> CHR '']'' \<in> set (drop (e + 1) s) then None
                    else Some (take (e - 1) (drop 1 s), drop (i + 1) s))
          else if CHR '':'' \<in> set (take i s) \<or> CHR ''['' \<in> set s \<or> CHR '']'' \<in> set s then None
          else Some (take i s, drop (i + 1) s))"


end
