(* ===== verification/Netguard.thy ===== *)
theory Netguard
  imports Netip
begin

text \<open>
  Keeping a connection the server makes on someone's behalf where it may go: \<^verbatim>\<open>internal/netguard/netguard.go\<close>.
  An error is its message, and \<^const>\<open>None\<close> is no error.
\<close>

section \<open>Classes of addresses\<close>

text \<open>The predicates of \<^verbatim>\<open>net/netip\<close>. They look at the address and not at its zone, except \<open>IsUnspecified\<close>,
  which compares whole values.\<close>

fun IsLoopback :: "Addr \<Rightarrow> bool" where
  "IsLoopback (V4 w) = (drop_bit 24 w = 127)"
| "IsLoopback (V6 w z) = (w = 1)"

fun IsLinkLocalUnicast :: "Addr \<Rightarrow> bool" where
  "IsLinkLocalUnicast (V4 w) = (drop_bit 16 w = 0xA9FE)"
| "IsLinkLocalUnicast (V6 w z) = (drop_bit 118 w = 0x3FA)"

fun IsMulticast :: "Addr \<Rightarrow> bool" where
  "IsMulticast (V4 w) = (drop_bit 28 w = 0xE)"
| "IsMulticast (V6 w z) = (drop_bit 120 w = 0xFF)"

fun IsLinkLocalMulticast :: "Addr \<Rightarrow> bool" where
  "IsLinkLocalMulticast (V4 w) = (drop_bit 8 w = 0xE00000)"
| "IsLinkLocalMulticast (V6 w z) = (drop_bit 120 w = 0xFF \<and> drop_bit 112 w AND 0x0F = 2)"

fun IsInterfaceLocalMulticast :: "Addr \<Rightarrow> bool" where
  "IsInterfaceLocalMulticast (V4 w) = False"
| "IsInterfaceLocalMulticast (V6 w z) = (drop_bit 120 w = 0xFF \<and> drop_bit 112 w AND 0x0F = 1)"

fun IsUnspecified :: "Addr \<Rightarrow> bool" where
  "IsUnspecified (V4 w) = (w = 0)"
| "IsUnspecified (V6 w z) = (w = 0 \<and> z = [])"

fun IsPrivate :: "Addr \<Rightarrow> bool" where
  "IsPrivate (V4 w) = (drop_bit 24 w = 10 \<or> drop_bit 20 w = 0xAC1 \<or> drop_bit 16 w = 0xC0A8)"
| "IsPrivate (V6 w z) = (drop_bit 121 w = 0x7E)"

section \<open>The guard\<close>

text \<open>\<open>MustParsePrefix\<close> of the two lists of the source, as the prefixes they denote.\<close>

definition prefixes :: "string list \<Rightarrow> Prefix list" where
  "prefixes ps = map (\<lambda>p. the (ParsePrefix p)) ps"

definition local_ranges :: "Prefix list" where
  "local_ranges = prefixes [''0.0.0.0/8'', ''240.0.0.0/4'']"

definition private_ranges :: "Prefix list" where
  "private_ranges = prefixes [''100.64.0.0/10'', ''192.0.0.0/24'', ''192.0.2.0/24'', ''198.18.0.0/15'', ''198.51.100.0/24'',
     ''203.0.113.0/24'', ''64:ff9b::/96'', ''64:ff9b:1::/48'', ''2002::/16'', ''2001:db8::/32'']"

datatype Reach = Public | Private | Any

definition ParseReach :: "string \<Rightarrow> (string + Reach)" where
  "ParseReach s = (if s = ''public'' then Inr Public else if s = ''private'' then Inr Private else if s = ''any'' then Inr Any
     else Inl (s @ '' is not public, private or any''))"

fun Reach_String :: "Reach \<Rightarrow> string" where
  "Reach_String Public = ''public''"
| "Reach_String Private = ''private''"
| "Reach_String Any = ''any''"

definition is_local :: "Addr \<Rightarrow> bool" where
  "is_local ip \<longleftrightarrow> IsLoopback ip \<or> IsLinkLocalUnicast ip \<or> IsLinkLocalMulticast ip \<or> IsInterfaceLocalMulticast ip \<or>
     IsMulticast ip \<or> IsUnspecified ip \<or> ip = V4 0xFFFFFFFF \<or> list_ex (\<lambda>p. Contains p ip) local_ranges"

definition is_private :: "Addr \<Rightarrow> bool" where
  "is_private ip \<longleftrightarrow> IsPrivate ip \<or> list_ex (\<lambda>p. Contains p ip) private_ranges"

definition Allowed :: "Addr \<Rightarrow> Reach \<Rightarrow> string option" where
  "Allowed ip0 reach =
     (let ip = Unmap ip0
      in if reach = Any then None
         else if is_local ip \<and> reach = Public then Some (Addr_String ip @ '' is not a public address'')
         else if is_local ip then Some (Addr_String ip @ '' is a local address'')
         else if reach = Private then None
         else if is_private ip then Some (Addr_String ip @ '' is not a public address'')
         else None)"

text \<open>What a check can fail with: an error of the library, or the refusal.\<close>

datatype guard_error = SplitHostPortError | ParseAddrError | Refused string

definition check :: "string \<Rightarrow> Reach \<Rightarrow> guard_error option" where
  "check address reach =
     (case SplitHostPort address of
        None \<Rightarrow> Some SplitHostPortError
      | Some (host, _) \<Rightarrow> (case ParseAddr host of None \<Rightarrow> Some ParseAddrError | Some ip \<Rightarrow> map_option Refused (Allowed ip reach)))"

definition Check :: "string \<Rightarrow> Reach \<Rightarrow> guard_error option" where
  "Check address reach =
     (case SplitHostPort address of
        None \<Rightarrow> Some SplitHostPortError
      | Some (host, _) \<Rightarrow> (case ParseAddr host of None \<Rightarrow> None | Some _ \<Rightarrow> check address reach))"

definition Control :: "Reach \<Rightarrow> string \<Rightarrow> string \<Rightarrow> guard_error option" where
  "Control reach network address = check address reach"

definition PublicOnly :: "string \<Rightarrow> string \<Rightarrow> guard_error option" where
  "PublicOnly network address = Control Public network address"

section \<open>What may be reached\<close>

text \<open>The ranges as numbers: the first address and the one after the last.\<close>

definition outside :: "(nat \<times> nat) list \<Rightarrow> nat \<Rightarrow> bool" where
  "outside rs n \<longleftrightarrow> (\<forall>(lo, hi)\<in>set rs. \<not> (lo \<le> n \<and> n < hi))"

definition local4 :: "(nat \<times> nat) list" where
  "local4 = [(0x00000000, 0x01000000), (0x7F000000, 0x80000000), (0xA9FE0000, 0xA9FF0000), (0xE0000000, 0xF0000000),
     (0xF0000000, 0x100000000)]"

definition private4 :: "(nat \<times> nat) list" where
  "private4 = [(0x0A000000, 0x0B000000), (0x64400000, 0x64800000), (0xAC100000, 0xAC200000), (0xC0000000, 0xC0000100),
     (0xC0000200, 0xC0000300), (0xC0A80000, 0xC0A90000), (0xC6120000, 0xC6140000), (0xC6336400, 0xC6336500), (0xCB007100, 0xCB007200)]"

definition local6 :: "(nat \<times> nat) list" where
  "local6 = [(0, 2), (0xFE80 * 2 ^ 112, 0xFEC0 * 2 ^ 112), (0xFF00 * 2 ^ 112, 0x10000 * 2 ^ 112)]"

definition private6 :: "(nat \<times> nat) list" where
  "private6 = [(0x0064FF9B * 2 ^ 96, 0x0064FF9B * 2 ^ 96 + 2 ^ 32), (0x0064FF9B0001 * 2 ^ 80, 0x0064FF9B0002 * 2 ^ 80),
     (0x2002 * 2 ^ 112, 0x2003 * 2 ^ 112), (0x20010DB8 * 2 ^ 96, 0x20010DB9 * 2 ^ 96), (0xFC00 * 2 ^ 112, 0xFE00 * 2 ^ 112)]"

lemma drop_bit_range:
  fixes w :: "'a::len word"
  assumes "k \<le> LENGTH('a)" "c < 2 ^ (LENGTH('a) - k)"
  shows "drop_bit k w = of_nat c \<longleftrightarrow> c * 2 ^ k \<le> unat w \<and> unat w < (c + 1) * 2 ^ k"
proof -
  have "c < 2 ^ LENGTH('a)" using assms(2) by (rule order.strict_trans2) (simp add: power_increasing)
  then have "unat (of_nat c :: 'a word) = c" by (simp add: unsigned_of_nat take_bit_nat_eq_self)
  then have "drop_bit k w = of_nat c \<longleftrightarrow> unat w div 2 ^ k = c" by (metis unat_drop_bit_eq drop_bit_eq_div word_unat_eq_iff)
  also have "\<dots> \<longleftrightarrow> c * 2 ^ k \<le> unat w \<and> unat w < (c + 1) * 2 ^ k"
    by (metis div_nat_eqI less_eq_div_iff_mult_less_eq div_less_iff_less_mult add.commute less_Suc_eq_le plus_1_eq_Suc eq_iff zero_less_numeral zero_less_power)
  finally show ?thesis .
qed


text \<open>The two lists, read.\<close>

lemma parsed_ranges:
  "ParsePrefix ''0.0.0.0/8'' = Some \<lparr>p_addr = V4 0, p_bits = 8\<rparr>"
  "ParsePrefix ''240.0.0.0/4'' = Some \<lparr>p_addr = V4 0xF0000000, p_bits = 4\<rparr>"
  "ParsePrefix ''100.64.0.0/10'' = Some \<lparr>p_addr = V4 0x64400000, p_bits = 10\<rparr>"
  "ParsePrefix ''192.0.0.0/24'' = Some \<lparr>p_addr = V4 0xC0000000, p_bits = 24\<rparr>"
  "ParsePrefix ''192.0.2.0/24'' = Some \<lparr>p_addr = V4 0xC0000200, p_bits = 24\<rparr>"
  "ParsePrefix ''198.18.0.0/15'' = Some \<lparr>p_addr = V4 0xC6120000, p_bits = 15\<rparr>"
  "ParsePrefix ''198.51.100.0/24'' = Some \<lparr>p_addr = V4 0xC6336400, p_bits = 24\<rparr>"
  "ParsePrefix ''203.0.113.0/24'' = Some \<lparr>p_addr = V4 0xCB007100, p_bits = 24\<rparr>"
  "ParsePrefix ''64:ff9b::/96'' = Some \<lparr>p_addr = V6 0x0064FF9B000000000000000000000000 [], p_bits = 96\<rparr>"
  "ParsePrefix ''64:ff9b:1::/48'' = Some \<lparr>p_addr = V6 0x0064FF9B000100000000000000000000 [], p_bits = 48\<rparr>"
  "ParsePrefix ''2002::/16'' = Some \<lparr>p_addr = V6 0x20020000000000000000000000000000 [], p_bits = 16\<rparr>"
  "ParsePrefix ''2001:db8::/32'' = Some \<lparr>p_addr = V6 0x20010DB8000000000000000000000000 [], p_bits = 32\<rparr>"
  apply (rule ParsePrefixI [of _ "''0.0.0.0''" "''8''"]; code_simp)
  apply (rule ParsePrefixI [of _ "''240.0.0.0''" "''4''"]; code_simp)
  apply (rule ParsePrefixI [of _ "''100.64.0.0''" "''10''"]; code_simp)
  apply (rule ParsePrefixI [of _ "''192.0.0.0''" "''24''"]; code_simp)
  apply (rule ParsePrefixI [of _ "''192.0.2.0''" "''24''"]; code_simp)
  apply (rule ParsePrefixI [of _ "''198.18.0.0''" "''15''"]; code_simp)
  apply (rule ParsePrefixI [of _ "''198.51.100.0''" "''24''"]; code_simp)
  apply (rule ParsePrefixI [of _ "''203.0.113.0''" "''24''"]; code_simp)
  apply (rule ParsePrefixI [of _ "''64:ff9b::''" "''96''"]; code_simp)
  apply (rule ParsePrefixI [of _ "''64:ff9b:1::''" "''48''"]; code_simp)
  apply (rule ParsePrefixI [of _ "''2002::''" "''16''"]; code_simp)
  apply (rule ParsePrefixI [of _ "''2001:db8::''" "''32''"]; code_simp)
  done

lemma ranges_are:
  "local_ranges = [\<lparr>p_addr = V4 0, p_bits = 8\<rparr>,
     \<lparr>p_addr = V4 0xF0000000, p_bits = 4\<rparr>]"
  "private_ranges = [\<lparr>p_addr = V4 0x64400000, p_bits = 10\<rparr>,
     \<lparr>p_addr = V4 0xC0000000, p_bits = 24\<rparr>,
     \<lparr>p_addr = V4 0xC0000200, p_bits = 24\<rparr>,
     \<lparr>p_addr = V4 0xC6120000, p_bits = 15\<rparr>,
     \<lparr>p_addr = V4 0xC6336400, p_bits = 24\<rparr>,
     \<lparr>p_addr = V4 0xCB007100, p_bits = 24\<rparr>,
     \<lparr>p_addr = V6 0x0064FF9B000000000000000000000000 [], p_bits = 96\<rparr>,
     \<lparr>p_addr = V6 0x0064FF9B000100000000000000000000 [], p_bits = 48\<rparr>,
     \<lparr>p_addr = V6 0x20020000000000000000000000000000 [], p_bits = 16\<rparr>,
     \<lparr>p_addr = V6 0x20010DB8000000000000000000000000 [], p_bits = 32\<rparr>]"
  by (simp_all add: local_ranges_def private_ranges_def prefixes_def parsed_ranges)

lemma range4: "k \<le> 32 \<Longrightarrow> c < 2 ^ (32 - k) \<Longrightarrow> drop_bit k (w :: 32 word) = of_nat c \<longleftrightarrow> c * 2 ^ k \<le> unat w \<and> unat w < (c + 1) * 2 ^ k"
  using drop_bit_range [where 'a = 32] by simp

lemma range6: "k \<le> 128 \<Longrightarrow> c < 2 ^ (128 - k) \<Longrightarrow> drop_bit k (w :: 128 word) = of_nat c \<longleftrightarrow> c * 2 ^ k \<le> unat w \<and> unat w < (c + 1) * 2 ^ k"
  using drop_bit_range [where 'a = 128] by simp

lemma in_range4: "v = of_nat c \<Longrightarrow> k \<le> 32 \<Longrightarrow> c < 2 ^ (32 - k) \<Longrightarrow> drop_bit k (w :: 32 word) = v \<longleftrightarrow> c * 2 ^ k \<le> unat w \<and> unat w < (c + 1) * 2 ^ k"
  by (simp only: range4)

lemma in_range6: "v = of_nat c \<Longrightarrow> k \<le> 128 \<Longrightarrow> c < 2 ^ (128 - k) \<Longrightarrow> drop_bit k (w :: 128 word) = v \<longleftrightarrow> c * 2 ^ k \<le> unat w \<and> unat w < (c + 1) * 2 ^ k"
  by (simp only: range6)

lemma outside_simps: "\<not> outside [] n \<longleftrightarrow> False" "\<not> outside ((lo, hi) # rs) n \<longleftrightarrow> lo \<le> n \<and> n < hi \<or> \<not> outside rs n"
  by (auto simp: outside_def)

lemma local4_exact: "is_local (V4 w) \<longleftrightarrow> \<not> outside local4 (unat w)"
proof -
  have top: "unat w < 0x100000000" using unsigned_less [of w, where ?'a = nat] by simp
  have e: "drop_bit 24 w = 127 \<longleftrightarrow> 0x7F000000 \<le> unat w \<and> unat w < 0x80000000"
    "drop_bit 16 w = 0xA9FE \<longleftrightarrow> 0xA9FE0000 \<le> unat w \<and> unat w < 0xA9FF0000"
    "drop_bit 8 w = 0xE00000 \<longleftrightarrow> 0xE0000000 \<le> unat w \<and> unat w < 0xE0000100"
    "drop_bit 28 w = 0xE \<longleftrightarrow> 0xE0000000 \<le> unat w \<and> unat w < 0xF0000000"
    "drop_bit 28 w = 0xF \<longleftrightarrow> 0xF0000000 \<le> unat w \<and> unat w < 0x100000000"
    "drop_bit 24 w = 0 \<longleftrightarrow> 0 \<le> unat w \<and> unat w < 0x01000000"
    using in_range4 [of 127 127 24 w] in_range4 [of "0xA9FE" "0xA9FE" 16 w] in_range4 [of "0xE00000" "0xE00000" 8 w]
      in_range4 [of "0xE" "0xE" 28 w] in_range4 [of "0xF" "0xF" 28 w] in_range4 [of 0 0 24 w] by simp_all
  have "w = 0 \<Longrightarrow> drop_bit 24 w = 0" "w = 0xFFFFFFFF \<Longrightarrow> drop_bit 28 w = 0xF" by simp_all
  moreover have "drop_bit 8 w = 0xE00000 \<Longrightarrow> drop_bit 28 w = 0xE" unfolding e by linarith
  moreover have "is_local (V4 w) \<longleftrightarrow> drop_bit 24 w = 127 \<or> drop_bit 16 w = 0xA9FE \<or> drop_bit 8 w = 0xE00000 \<or>
      drop_bit 28 w = 0xE \<or> w = 0 \<or> w = 0xFFFFFFFF \<or> drop_bit 24 w = 0 \<or> drop_bit 28 w = 0xF"
    by (simp add: is_local_def ranges_are)
  ultimately have "is_local (V4 w) \<longleftrightarrow> drop_bit 24 w = 0 \<or> drop_bit 24 w = 127 \<or> drop_bit 16 w = 0xA9FE \<or> drop_bit 28 w = 0xE \<or> drop_bit 28 w = 0xF"
    by blast
  then show ?thesis by (simp only: local4_def outside_simps e simp_thms)
qed

lemma private4_exact: "is_private (V4 w) \<longleftrightarrow> \<not> outside private4 (unat w)"
proof -
  have e: "drop_bit 24 w = 10 \<longleftrightarrow> 0x0A000000 \<le> unat w \<and> unat w < 0x0B000000"
    "drop_bit 20 w = 0xAC1 \<longleftrightarrow> 0xAC100000 \<le> unat w \<and> unat w < 0xAC200000"
    "drop_bit 16 w = 0xC0A8 \<longleftrightarrow> 0xC0A80000 \<le> unat w \<and> unat w < 0xC0A90000"
    "drop_bit 22 w = 0x191 \<longleftrightarrow> 0x64400000 \<le> unat w \<and> unat w < 0x64800000"
    "drop_bit 8 w = 0xC00000 \<longleftrightarrow> 0xC0000000 \<le> unat w \<and> unat w < 0xC0000100"
    "drop_bit 8 w = 0xC00002 \<longleftrightarrow> 0xC0000200 \<le> unat w \<and> unat w < 0xC0000300"
    "drop_bit 17 w = 0x6309 \<longleftrightarrow> 0xC6120000 \<le> unat w \<and> unat w < 0xC6140000"
    "drop_bit 8 w = 0xC63364 \<longleftrightarrow> 0xC6336400 \<le> unat w \<and> unat w < 0xC6336500"
    "drop_bit 8 w = 0xCB0071 \<longleftrightarrow> 0xCB007100 \<le> unat w \<and> unat w < 0xCB007200"
    using in_range4 [of 10 10 24 w] in_range4 [of "0xAC1" "0xAC1" 20 w] in_range4 [of "0xC0A8" "0xC0A8" 16 w] in_range4 [of "0x191" "0x191" 22 w]
      in_range4 [of "0xC00000" "0xC00000" 8 w] in_range4 [of "0xC00002" "0xC00002" 8 w] in_range4 [of "0x6309" "0x6309" 17 w]
      in_range4 [of "0xC63364" "0xC63364" 8 w] in_range4 [of "0xCB0071" "0xCB0071" 8 w] by simp_all
  have "is_private (V4 w) \<longleftrightarrow> drop_bit 24 w = 10 \<or> drop_bit 22 w = 0x191 \<or> drop_bit 20 w = 0xAC1 \<or> drop_bit 8 w = 0xC00000 \<or>
      drop_bit 8 w = 0xC00002 \<or> drop_bit 16 w = 0xC0A8 \<or> drop_bit 17 w = 0x6309 \<or> drop_bit 8 w = 0xC63364 \<or> drop_bit 8 w = 0xCB0071"
    by (simp add: is_private_def ranges_are) blast
  then show ?thesis by (simp only: private4_def outside_simps e simp_thms)
qed

lemma local6_exact: "is_local (V6 w []) \<longleftrightarrow> \<not> outside local6 (unat w)"
proof -
  have top: "unat w < 2 ^ 128" using unsigned_less [of w, where ?'a = nat] by simp
  have "is_local (V6 w []) \<longleftrightarrow> w = 0 \<or> w = 1 \<or> drop_bit 118 w = 0x3FA \<or> drop_bit 120 w = 0xFF"
    by (auto simp: is_local_def ranges_are)
  moreover have "w = 0 \<or> w = 1 \<longleftrightarrow> unat w < 2" 
  proof
    assume "unat w < 2"
    then have "unat w = unat (0 :: 128 word) \<or> unat w = unat (1 :: 128 word)" by auto
    then show "w = 0 \<or> w = 1" by (simp only: word_unat_eq_iff)
  qed auto
  ultimately show ?thesis
    using in_range6 [of "0x3FA" "0x3FA" 118 w] in_range6 [of "0xFF" "0xFF" 120 w] top by (auto simp: outside_def local6_def)
qed

lemma private6_exact: "is_private (V6 w []) \<longleftrightarrow> \<not> outside private6 (unat w)"
proof -
  have "is_private (V6 w []) \<longleftrightarrow> drop_bit 121 w = 0x7E \<or> drop_bit 32 w = 0x0064FF9B0000000000000000 \<or> drop_bit 80 w = 0x0064FF9B0001 \<or>
      drop_bit 112 w = 0x2002 \<or> drop_bit 96 w = 0x20010DB8"
    by (simp add: is_private_def ranges_are)
  then show ?thesis
    using in_range6 [of "0x7E" "0x7E" 121 w] in_range6 [of "0x0064FF9B0000000000000000" "0x0064FF9B0000000000000000" 32 w]
      in_range6 [of "0x0064FF9B0001" "0x0064FF9B0001" 80 w] in_range6 [of "0x2002" "0x2002" 112 w] in_range6 [of "0x20010DB8" "0x20010DB8" 96 w]
    by (auto simp: outside_def private6_def)
qed

lemma Allowed_iff: "Allowed ip reach = None \<longleftrightarrow> reach = Any \<or> \<not> is_local (Unmap ip) \<and> (reach = Private \<or> \<not> is_private (Unmap ip))"
  by (cases reach) (simp_all add: Allowed_def Let_def)

text \<open>
  C28. The guard lets through exactly the addresses within reach: for an IPv4 address and for an IPv6 address without a
  zone, those outside the listed ranges, taken as numbers, and for an IPv4 address carried inside IPv6 exactly what it
  lets through for the IPv4 address itself. What is public is also within private reach, and all is within any.
\<close>

theorem reach_exact:
  "(Allowed (V4 w) reach = None \<longleftrightarrow> reach = Any \<or> outside local4 (unat w) \<and> (reach = Private \<or> outside private4 (unat w))) \<and>
   (\<not> Is4In6 (V6 v []) \<longrightarrow>
      (Allowed (V6 v []) reach = None \<longleftrightarrow> reach = Any \<or> outside local6 (unat v) \<and> (reach = Private \<or> outside private6 (unat v)))) \<and>
   (Is4In6 (V6 v z) \<longrightarrow> Allowed (V6 v z) reach = Allowed (V4 (ucast v)) reach) \<and>
   (Allowed a Public = None \<longrightarrow> Allowed a Private = None) \<and> Allowed a Any = None"
proof -
  have "Allowed (V6 v z) reach = Allowed (V4 (ucast v)) reach" if "Is4In6 (V6 v z)" using that by (simp add: Allowed_def del: Is4In6.simps)
  moreover have "\<not> Is4In6 (V6 v []) \<Longrightarrow> Unmap (V6 v []) = V6 v []" by (simp del: Is4In6.simps)
  ultimately show ?thesis by (auto simp: Allowed_iff local4_exact private4_exact local6_exact private6_exact simp del: Is4In6.simps)
qed

theorem reach_exact_witness:
  "Is4In6 (V6 0xFFFF7F000001 []) \<and> Allowed (V6 0xFFFF7F000001 []) Public = Allowed (V4 0x7F000001) Public \<and>
   Allowed (V4 0x7F000001) Public = Some ''127.0.0.1 is not a public address''"
proof -
  have m: "Is4In6 (V6 0xFFFF7F000001 [])" by code_simp
  have u: "(ucast (0xFFFF7F000001 :: 128 word) :: 32 word) = 0x7F000001" by code_simp
  have l: "Allowed (V4 0x7F000001) Public = Some ''127.0.0.1 is not a public address''" by code_simp
  from reach_exact [of 0 Public "0xFFFF7F000001" "[]" "V4 0"] m
  have "Allowed (V6 0xFFFF7F000001 []) Public = Allowed (V4 (ucast (0xFFFF7F000001 :: 128 word))) Public" by blast
  then show ?thesis unfolding u using m l by (intro conjI)
qed

text \<open>
  An address with a zone is outside every listed IPv6 range and is not the unspecified address to the predicate, so the
  guard lets it through: here \<open>::%lo\<close>, which the kernel connects to this machine.
\<close>

lemma zone_escapes: "Allowed (V6 0 ''lo'') Public = None" "PublicOnly ''tcp'' ''[::%lo]:80'' = None"
  by code_simp+

end
