(* ===== verification/Trusted_Proxy.thy ===== *)
theory Trusted_Proxy
  imports Netip
begin

text \<open>
  Which address a request is attributed to when a reverse proxy may sit in front of the program:
  \<^verbatim>\<open>internal/trustedproxy/trustedproxy.go\<close>.
\<close>

section \<open>The operator's list\<close>

text \<open>The two messages of \<open>Parse\<close>, with the entry each quotes.\<close>

datatype proxy_error = NotAddressOrRange string | TrustsEveryAddress string

text \<open>\<open>strings.FieldsFunc\<close>: the non-empty stretches between separators.\<close>

definition is_sep :: "char \<Rightarrow> bool" where
  "is_sep c \<longleftrightarrow> c \<in> {CHR '','', CHR 0x20, CHR 0x0A, CHR 0x0D, CHR 0x09}"

fun fields_func :: "string \<Rightarrow> string \<Rightarrow> string list" where
  "fields_func [] cur = (if cur = [] then [] else [rev cur])"
| "fields_func (c # s) cur =
     (if is_sep c then (if cur = [] then fields_func s [] else rev cur # fields_func s []) else fields_func s (c # cur))"

definition parsePrefix :: "string \<Rightarrow> Prefix option" where
  "parsePrefix s =
     (if CHR ''/'' \<in> set s
      then (case ParsePrefix s of
              None \<Rightarrow> None
            | Some p \<Rightarrow> if Is4In6 (p_addr p) \<and> 96 \<le> p_bits p then Some \<lparr>p_addr = Unmap (p_addr p), p_bits = p_bits p - 96\<rparr> else Some p)
      else case ParseAddr s of
             None \<Rightarrow> None
           | Some a \<Rightarrow> Some \<lparr>p_addr = Unmap a, p_bits = BitLen (Unmap a)\<rparr>)"

fun parse_fields :: "string list \<Rightarrow> proxy_error + Prefix list" where
  "parse_fields [] = Inr []"
| "parse_fields (f # fs) =
     (case parsePrefix f of
        None \<Rightarrow> Inl (NotAddressOrRange f)
      | Some p \<Rightarrow>
          if p_bits p = 0 then Inl (TrustsEveryAddress f)
          else (case parse_fields fs of Inl e \<Rightarrow> Inl e | Inr ps \<Rightarrow> Inr (Masked p # ps)))"

definition Parse :: "string \<Rightarrow> proxy_error + Prefix list" where
  "Parse s = parse_fields (fields_func s [])"

section \<open>The client of a request\<close>

definition contains :: "Prefix list \<Rightarrow> Addr \<Rightarrow> bool" where
  "contains trusted a = list_ex (\<lambda>p. Contains p a) trusted"

definition parseHop :: "string \<Rightarrow> Addr option" where
  "parseHop s0 =
     (let s = TrimSpace s0;
          h = (case SplitHostPort s of Some (h, _) \<Rightarrow> h | None \<Rightarrow> s)
      in case ParseAddr h of None \<Rightarrow> None | Some a \<Rightarrow> Some (Unmap a))"

definition hops :: "string list \<Rightarrow> string list" where
  "hops forwardedFor = concat (map (go_split CHR '','') forwardedFor)"

text \<open>The walk over the hops, the rightmost first.\<close>

fun walk :: "Prefix list \<Rightarrow> string list \<Rightarrow> Addr \<Rightarrow> Addr" where
  "walk trusted [] client = client"
| "walk trusted (h # hs) client =
     (case parseHop h of
        None \<Rightarrow> client
      | Some a \<Rightarrow> if \<not> contains trusted a then a else walk trusted hs a)"

definition trim_prefix :: "string \<Rightarrow> string \<Rightarrow> string" where
  "trim_prefix s p = (if has_prefix s p then drop (length p) s else s)"

definition Client :: "string \<Rightarrow> string list \<Rightarrow> Prefix list \<Rightarrow> string" where
  "Client remoteAddr forwardedFor trusted =
     (let peerText = (case SplitHostPort remoteAddr of Some (h, _) \<Rightarrow> h | None \<Rightarrow> remoteAddr)
      in case ParseAddr peerText of
           None \<Rightarrow> trim_prefix peerText ''::ffff:''
         | Some p \<Rightarrow>
             let peer = Unmap p
             in if \<not> contains trusted peer then Addr_String peer
                else Addr_String (walk trusted (rev (hops forwardedFor)) peer))"

section \<open>What a client can and cannot choose\<close>

text \<open>The address a trusted peer or proxy vouches for.\<close>

definition vouched :: "Prefix list \<Rightarrow> string \<Rightarrow> bool" where
  "vouched trusted h \<longleftrightarrow> (case parseHop h of Some a \<Rightarrow> contains trusted a | None \<Rightarrow> False)"

lemma walk_vouched:
  "list_all (vouched trusted) ps \<Longrightarrow> walk trusted (ps @ hs) c = walk trusted hs (if ps = [] then c else the (parseHop (last ps)))"
proof (induction ps arbitrary: c)
  case (Cons p ps)
  then obtain a where a: "parseHop p = Some a" "contains trusted a" by (auto simp: vouched_def split: option.splits)
  with Cons show ?case by auto
qed simp

lemma walk_stops:
  assumes "\<not> vouched trusted h"
  shows "walk trusted (h # hs) c = (case parseHop h of Some a \<Rightarrow> a | None \<Rightarrow> c)"
  using assms by (auto simp: vouched_def split: option.splits)

lemma walk_result:
  assumes "list_all (vouched trusted) ps" "\<not> vouched trusted h"
  shows "walk trusted (rev (forged @ h # ps)) c =
    (case parseHop h of Some a \<Rightarrow> a | None \<Rightarrow> (if ps = [] then c else the (parseHop (hd ps))))"
proof -
  have "list_all (vouched trusted) (rev ps)" using assms(1) by (simp add: list_all_iff)
  from walk_vouched [OF this, of "h # rev forged" c] show ?thesis
    using walk_stops [OF assms(2)] by (cases ps) (simp_all del: walk.simps split: option.split)
qed

text \<open>
  C29. A client cannot choose the address it is known by: a peer that is not trusted is known by its own address
  whatever headers it sends, and behind trusted proxies the address is the first one from the right that a trusted
  proxy did not vouch for as another proxy, or, when that entry is no address, the last one a proxy vouched for.
  Nothing written to its left matters, in the same header or in another.
\<close>

theorem client_unforgeable:
  assumes "ParseAddr (case SplitHostPort remote of Some (h, _) \<Rightarrow> h | None \<Rightarrow> remote) = Some p"
  shows "(\<not> contains trusted (Unmap p) \<longrightarrow> Client remote ff trusted = Addr_String (Unmap p)) \<and>
    (contains trusted (Unmap p) \<and> hops ff = forged @ h # ps \<and> list_all (vouched trusted) ps \<and> \<not> vouched trusted h \<longrightarrow>
       Client remote ff trusted =
         Addr_String (case parseHop h of Some a \<Rightarrow> a | None \<Rightarrow> (if ps = [] then Unmap p else the (parseHop (hd ps)))))"
  using assms walk_result [of trusted ps h forged "Unmap p"] by (auto simp: Client_def Let_def)

theorem client_unforgeable_witness:
  "Client ''10.0.0.1:4242'' [''6.6.6.6, 203.0.113.9'', ''10.0.0.2''] [\<lparr>p_addr = V4 0x0A000000, p_bits = 8\<rparr>] = ''203.0.113.9''"
proof -
  define tr where "tr = [\<lparr>p_addr = V4 0x0A000000, p_bits = 8\<rparr>]"
  have "ParseAddr (case SplitHostPort ''10.0.0.1:4242'' of Some (h, _) \<Rightarrow> h | None \<Rightarrow> ''10.0.0.1:4242'') = Some (V4 0x0A000001)" by code_simp
  moreover have "hops [''6.6.6.6, 203.0.113.9'', ''10.0.0.2''] = [''6.6.6.6''] @ '' 203.0.113.9'' # [''10.0.0.2'']" by code_simp
  moreover have "contains tr (V4 0x0A000001)" "list_all (vouched tr) [''10.0.0.2'']" "\<not> vouched tr '' 203.0.113.9''"
    unfolding tr_def by code_simp+
  moreover have "Addr_String (case parseHop '' 203.0.113.9'' of Some a \<Rightarrow> a | None \<Rightarrow> V4 0) = ''203.0.113.9''" by code_simp
  moreover have "parseHop '' 203.0.113.9'' \<noteq> None" by code_simp
  ultimately show ?thesis
    using client_unforgeable [of "''10.0.0.1:4242''" "V4 0x0A000001" tr "[''6.6.6.6, 203.0.113.9'', ''10.0.0.2'']" "[''6.6.6.6'']" "'' 203.0.113.9''" "[''10.0.0.2'']"]
    unfolding tr_def by auto
qed

text \<open>No entry of an accepted list covers a whole family.\<close>

lemma parse_fields_bits: "parse_fields fs = Inr ps \<Longrightarrow> p \<in> set ps \<Longrightarrow> 0 < p_bits p"
  by (induction fs arbitrary: ps) (auto simp: Masked_def split: option.splits if_splits sum.splits)

lemma parse_refuses_everyone: "Parse s = Inr ps \<Longrightarrow> p \<in> set ps \<Longrightarrow> 0 < p_bits p"
  unfolding Parse_def by (rule parse_fields_bits)

end
