(* ===== verification/Expiring.thy ===== *)
theory Expiring
  imports Prelude
begin

text \<open>
  Stores whose entries expire. A component keeps a map and may drop an entry once it has expired, when it looks at it
  or in a sweep; what it promises is the map that drops nothing, read through the expiry. The restore tokens and the
  browser sessions are both such stores.
\<close>

text \<open>The map \<open>m\<close> holds what the map \<open>a\<close> holds, except entries that have expired by \<open>t\<close>.\<close>

definition agrees :: "(int \<Rightarrow> 'e \<Rightarrow> bool) \<Rightarrow> int \<Rightarrow> ('k, 'e) gomap \<Rightarrow> ('k \<rightharpoonup> 'e) \<Rightarrow> bool" where
  "agrees expired t m a \<longleftrightarrow> gomap_ok m \<and>
     (\<forall>k. golookup m k = a k \<or> golookup m k = None \<and> (\<exists>e. a k = Some e \<and> expired t e))"

definition sweep :: "(int \<Rightarrow> 'e \<Rightarrow> bool) \<Rightarrow> int \<Rightarrow> ('k, 'e) gomap \<Rightarrow> ('k, 'e) gomap" where
  "sweep expired t m = filter (\<lambda>(k, e). \<not> expired t e) m"

lemma sweep_ok: "gomap_ok m \<Longrightarrow> gomap_ok (sweep expired t m)"
  by (simp add: sweep_def)

lemma sweep_lookup:
  "gomap_ok m \<Longrightarrow> golookup (sweep expired t m) k = (case golookup m k of Some e \<Rightarrow> if expired t e then None else Some e | None \<Rightarrow> None)"
  by (simp add: sweep_def golookup_filter del: map_of_eq_Some_iff split: option.split)

locale expiring_store =
  fixes expired :: "int \<Rightarrow> 'e \<Rightarrow> bool"
  assumes stays_expired: "expired t e \<Longrightarrow> t \<le> u \<Longrightarrow> expired u e"
begin

lemma start: "agrees expired t [] Map.empty"
  by (simp add: agrees_def)

lemma later: "agrees expired t m a \<Longrightarrow> t \<le> u \<Longrightarrow> agrees expired u m a"
  unfolding agrees_def using stays_expired by meson

lemma put: "agrees expired t m a \<Longrightarrow> agrees expired t (goput k e m) (a(k \<mapsto> e))"
  by (auto simp: agrees_def golookup_put)

lemma remove: "agrees expired t m a \<Longrightarrow> agrees expired t (godelete k m) (a(k := None))"
  by (auto simp: agrees_def golookup_delete)

lemma at:
  assumes "agrees expired t m a"
  obtains "golookup m k = a k" | e where "golookup m k = None" "a k = Some e" "expired t e"
  using assms unfolding agrees_def by blast

lemma agreesI:
  assumes "gomap_ok m" "\<And>k. golookup m k = a k \<or> golookup m k = None \<and> (\<exists>e. a k = Some e \<and> expired t e)"
  shows "agrees expired t m a"
  using assms unfolding agrees_def by blast

lemma ok: "agrees expired t m a \<Longrightarrow> gomap_ok m"
  by (simp add: agrees_def)

lemma known:
  assumes "agrees expired t m a" "golookup m k = Some e"
  shows "a k = Some e"
  using assms(2) by (cases rule: at [OF assms(1), of k]) (simp_all del: map_of_eq_Some_iff)

lemma swept:
  assumes "agrees expired t m a"
  shows "agrees expired t (sweep expired t m) a"
proof (rule agreesI)
  show "gomap_ok (sweep expired t m)" using ok [OF assms] by (rule sweep_ok)
next
  fix k
  have l: "golookup (sweep expired t m) k = (case golookup m k of Some e \<Rightarrow> if expired t e then None else Some e | None \<Rightarrow> None)"
    using ok [OF assms] by (rule sweep_lookup)
  show "golookup (sweep expired t m) k = a k \<or> golookup (sweep expired t m) k = None \<and> (\<exists>e. a k = Some e \<and> expired t e)"
    by (cases rule: at [OF assms, of k]; cases "a k") (simp_all add: l del: map_of_eq_Some_iff)
qed

lemma drop_expired:
  assumes "agrees expired t m a" "golookup m k = Some e" "expired t e"
  shows "agrees expired t (godelete k m) a"
proof (rule agreesI)
  show "gomap_ok (godelete k m)" using ok [OF assms(1)] by simp
next
  fix j
  have "a k = Some e" using assms(1,2) by (rule known)
  then show "golookup (godelete k m) j = a j \<or> golookup (godelete k m) j = None \<and> (\<exists>e. a j = Some e \<and> expired t e)"
    using assms(3) by (cases rule: at [OF assms(1), of j]) (auto simp: golookup_delete)
qed

lemma live:
  assumes "agrees expired t m a"
  shows "golookup m k = Some e \<and> \<not> expired t e \<longleftrightarrow> a k = Some e \<and> \<not> expired t e"
  by (cases rule: at [OF assms, of k]) (auto simp del: map_of_eq_Some_iff)

end

end
