(* ===== verification/Restore_Token.thy ===== *)
theory Restore_Token
  imports Netip Expiring
begin

text \<open>
  The capability tokens of a restore: \<^verbatim>\<open>internal/backups/restoretoken.go\<close>. The clock and the random token are
  arguments; instants are milliseconds.
\<close>

section \<open>Minting and redeeming\<close>

definition RestoreTokenTTL :: millis where "RestoreTokenTTL = 120 * 1000"

record restoreEntry =
  BackupID :: int
  e_RouterID :: string
  Sources :: "Addr list"
  Expires :: millis

type_synonym RestoreTokens = "(string, restoreEntry) gomap"

definition entry_expired :: "millis \<Rightarrow> restoreEntry \<Rightarrow> bool" where
  "entry_expired now e \<longleftrightarrow> Expires e < now"

definition sweepLocked :: "millis \<Rightarrow> RestoreTokens \<Rightarrow> RestoreTokens" where
  "sweepLocked now t = sweep entry_expired now t"

text \<open>\<open>rnd\<close> is the hex of the random bytes, or the error of reading them.\<close>

definition Mint :: "millis \<Rightarrow> string result \<Rightarrow> int \<Rightarrow> string \<Rightarrow> Addr list \<Rightarrow> RestoreTokens \<Rightarrow> string result \<times> RestoreTokens" where
  "Mint now rnd backupID routerID sources t =
     (case rnd of
        Inl e \<Rightarrow> (Inl e, t)
      | Inr token \<Rightarrow>
          (Inr token,
           goput token \<lparr>BackupID = backupID, e_RouterID = routerID, Sources = sources, Expires = now + RestoreTokenTTL\<rparr> (sweepLocked now t)))"

datatype RestoreVerdict = OK restoreEntry | Rejected string

definition from_source :: "restoreEntry \<Rightarrow> string \<Rightarrow> bool" where
  "from_source e remoteIP =
     (case ParseAddr remoteIP of None \<Rightarrow> False | Some from \<Rightarrow> list_ex (\<lambda>a. Unmap a = Unmap from) (Sources e))"

definition Redeem :: "millis \<Rightarrow> string \<Rightarrow> string \<Rightarrow> RestoreTokens \<Rightarrow> RestoreVerdict \<times> RestoreTokens" where
  "Redeem now token remoteIP t =
     (let t' = godelete token t
      in case golookup t token of
           None \<Rightarrow> (Rejected ''unknown-token'', t')
         | Some e \<Rightarrow>
             if entry_expired now e then (Rejected ''expired'', t')
             else if \<not> from_source e remoteIP then (Rejected ''wrong-source'', t')
             else (OK e, t'))"

definition Count :: "RestoreTokens \<Rightarrow> int" where
  "Count t = int (length t)"

definition BackupServable :: "RestoreVerdict \<Rightarrow> int \<Rightarrow> string \<Rightarrow> string \<Rightarrow> int option \<Rightarrow> bool" where
  "BackupServable v rowID rowRouterID rowStem prunedAt =
     (case v of
        Rejected _ \<Rightarrow> False
      | OK e \<Rightarrow> if rowID \<noteq> BackupID e \<or> rowRouterID \<noteq> e_RouterID e then False else rowStem \<noteq> [] \<and> prunedAt = None)"

section \<open>Sequences of calls\<close>

datatype token_call = CallMint millis "string result" int string "Addr list" | CallRedeem millis string string

fun call_time :: "token_call \<Rightarrow> millis" where
  "call_time (CallMint now _ _ _ _) = now"
| "call_time (CallRedeem now _ _) = now"

fun token_step :: "RestoreTokens \<Rightarrow> token_call \<Rightarrow> RestoreVerdict option \<times> RestoreTokens" where
  "token_step t (CallMint now rnd b r src) = (None, snd (Mint now rnd b r src t))"
| "token_step t (CallRedeem now token ip) = (case Redeem now token ip t of (v, t') \<Rightarrow> (Some v, t'))"

text \<open>What each token stands for: the last mint of it that no attempt has followed.\<close>

fun standing_step :: "(string \<rightharpoonup> restoreEntry) \<Rightarrow> token_call \<Rightarrow> (string \<rightharpoonup> restoreEntry)" where
  "standing_step a (CallMint now rnd b r src) =
     (case rnd of Inl _ \<Rightarrow> a
      | Inr token \<Rightarrow> a(token \<mapsto> \<lparr>BackupID = b, e_RouterID = r, Sources = src, Expires = now + RestoreTokenTTL\<rparr>))"
| "standing_step a (CallRedeem now token ip) = a(token := None)"

definition standing :: "token_call list \<Rightarrow> (string \<rightharpoonup> restoreEntry)" where
  "standing cs = foldl standing_step Map.empty cs"

interpretation tokens: expiring_store entry_expired
  by unfold_locales (simp add: entry_expired_def)

lemma token_step_agrees:
  assumes "agrees entry_expired lt t a" "lt \<le> call_time c"
  shows "agrees entry_expired (call_time c) (snd (token_step t c)) (standing_step a c)"
proof -
  have g: "agrees entry_expired (call_time c) t a" using assms by (rule tokens.later)
  show ?thesis
  proof (cases c)
    case (CallMint now rnd b r src)
    then show ?thesis using g tokens.swept [OF g] by (cases rnd) (simp_all add: Mint_def sweepLocked_def tokens.put)
  next
    case (CallRedeem now token ip)
    have "snd (token_step t c) = godelete token t"
      unfolding CallRedeem by (simp add: Redeem_def Let_def split: option.splits)
    then show ?thesis using tokens.remove [OF g] CallRedeem by simp
  qed
qed

lemma token_run_agrees:
  "agrees entry_expired lt t a \<Longrightarrow> sorted (lt # map call_time cs) \<Longrightarrow>
    agrees entry_expired (last (lt # map call_time cs)) (snd (run token_step t cs)) (foldl standing_step a cs)"
proof (induction cs arbitrary: lt t a)
  case (Cons c cs)
  then have "agrees entry_expired (call_time c) (snd (token_step t c)) (standing_step a c)"
    by (intro token_step_agrees) auto
  from Cons.IH [OF this] Cons.prems(2) show ?case by simp
qed simp

text \<open>
  C30. A restore token opens one file, once, for two minutes, to one router: after any sequence of calls under a clock
  that does not run backwards, an attempt succeeds exactly when the token was minted, nobody has attempted it since,
  successfully or not, its two minutes are not over and the caller's address is one of those it was minted for; it then
  yields what it was minted with. In particular a second attempt never succeeds, whatever became of the first.
\<close>

theorem restore_token_exact:
  assumes "sorted (0 # map call_time (cs @ [CallRedeem now token ip]))"
  shows "fst (Redeem now token ip (snd (run token_step [] cs))) = OK e \<longleftrightarrow>
    standing cs token = Some e \<and> now \<le> Expires e \<and> from_source e ip"
proof -
  define t where "t = snd (run token_step [] cs)"
  define lt where "lt = last (0 # map call_time cs)"
  have "sorted (0 # map call_time cs)" using assms by (auto simp: sorted_append)
  then have "agrees entry_expired lt t (standing cs)"
    using token_run_agrees [OF tokens.start, of 0 cs] by (simp add: t_def lt_def standing_def)
  moreover have "lt \<le> now" using assms by (auto simp: lt_def sorted_append last_map)
  ultimately have g: "agrees entry_expired now t (standing cs)" by (rule tokens.later)
  have "fst (Redeem now token ip t) = OK e \<longleftrightarrow> golookup t token = Some e \<and> \<not> entry_expired now e \<and> from_source e ip"
    by (auto simp: Redeem_def Let_def split: option.splits)
  with tokens.live [OF g, of token e] show ?thesis unfolding t_def [symmetric] by (auto simp: entry_expired_def)
qed

theorem restore_token_exact_witness:
  "fst (Redeem 5000 ''tok'' ''::ffff:10.0.0.1'' (snd (run token_step [] [CallMint 1000 (Inr ''tok'') 7 ''r'' [V4 0x0A000001]]))) =
     OK \<lparr>BackupID = 7, e_RouterID = ''r'', Sources = [V4 0x0A000001], Expires = 121000\<rparr>"
proof -
  have "from_source \<lparr>BackupID = 7, e_RouterID = ''r'', Sources = [V4 0x0A000001], Expires = 121000\<rparr> ''::ffff:10.0.0.1''" by code_simp
  then show ?thesis
    using restore_token_exact [of "[CallMint 1000 (Inr ''tok'') 7 ''r'' [V4 0x0A000001]]" 5000 "''tok''" "''::ffff:10.0.0.1''"]
    by (simp add: standing_def RestoreTokenTTL_def)
qed

text \<open>What is served is the row the token was minted for, on its router.\<close>

lemma servable_exact:
  "BackupServable v i r s p \<longleftrightarrow> (\<exists>e. v = OK e \<and> i = BackupID e \<and> r = e_RouterID e \<and> s \<noteq> [] \<and> p = None)"
  by (cases v) (auto simp: BackupServable_def)

end
