(* ===== verification/Websession.thy ===== *)
theory Websession
  imports Go_Strings Expiring
begin

text \<open>
  The browser sessions and their cookie: \<^verbatim>\<open>internal/websession/session.go\<close>. The clock and the random bytes are
  arguments. Instants and durations are nanoseconds.
\<close>

section \<open>The store\<close>

type_synonym nanos = int

definition CookieName :: string where "CookieName = ''mikrodash_sid''"

definition NeverExpires :: nanos where "NeverExpires = ((2 ^ 63 - 1) div 1000000) * 1000000"

record Session =
  Token :: string
  UserID :: string
  Username :: string
  Role :: string
  CreatedAt :: nanos
  ExpiresAt :: nanos
  AllowedRouterIDs :: "string list"
  ActiveRouterID :: string

type_synonym Store = "(string, Session) gomap"

text \<open>\<open>rnd\<close> is the hex of the thirty-two random bytes, or the error of reading them.\<close>

definition new_session :: "nanos \<Rightarrow> string \<Rightarrow> string \<Rightarrow> string \<Rightarrow> string \<Rightarrow> nanos \<Rightarrow> string list \<Rightarrow> Session" where
  "new_session now token userID username role timeout allowed =
     \<lparr>Token = token, UserID = userID, Username = username, Role = role, CreatedAt = now,
      ExpiresAt = (if timeout > 0 then now + timeout else NeverExpires), AllowedRouterIDs = allowed, ActiveRouterID = []\<rparr>"

definition Create :: "nanos \<Rightarrow> string result \<Rightarrow> string \<Rightarrow> string \<Rightarrow> string \<Rightarrow> nanos \<Rightarrow> string list \<Rightarrow> Store \<Rightarrow> Session result \<times> Store" where
  "Create now rnd userID username role timeout allowed s =
     (case rnd of
        Inl e \<Rightarrow> (Inl e, s)
      | Inr token \<Rightarrow>
          let sess = new_session now token userID username role timeout allowed
          in (Inr sess, goput (Token sess) sess s))"

definition expired :: "nanos \<Rightarrow> Session \<Rightarrow> bool" where
  "expired now sess \<longleftrightarrow> ExpiresAt sess \<noteq> NeverExpires \<and> now > ExpiresAt sess"

definition Get :: "nanos \<Rightarrow> string \<Rightarrow> Store \<Rightarrow> Session option \<times> Store" where
  "Get now token s =
     (if token = [] then (None, s)
      else case golookup s token of
             None \<Rightarrow> (None, s)
           | Some sess \<Rightarrow> if expired now sess then (None, godelete token s) else (Some sess, s))"

definition Delete :: "string \<Rightarrow> Store \<Rightarrow> Store" where
  "Delete token s = godelete token s"

definition SetActiveRouter :: "nanos \<Rightarrow> string \<Rightarrow> string \<Rightarrow> Store \<Rightarrow> Store" where
  "SetActiveRouter now token routerID s =
     (case Get now token s of
        (None, s') \<Rightarrow> s'
      | (Some sess, s') \<Rightarrow> goput token (sess\<lparr>ActiveRouterID := routerID\<rparr>) s')"

definition PruneExpired :: "nanos \<Rightarrow> Store \<Rightarrow> int \<times> Store" where
  "PruneExpired now s = (int (length (filter (\<lambda>(_, sess). expired now sess) s)), sweep expired now s)"

definition ForUser :: "nanos \<Rightarrow> string \<Rightarrow> Store \<Rightarrow> Session list" where
  "ForUser now userID s =
     (if userID = [] then []
      else map snd (filter (\<lambda>(_, sess). UserID sess = userID \<and> \<not> expired now sess) s))"

definition DeleteForUser :: "string \<Rightarrow> string \<Rightarrow> Store \<Rightarrow> string list \<times> Store" where
  "DeleteForUser userID exceptToken s =
     (if userID = [] then ([], s)
      else (map fst (filter (\<lambda>(token, sess). UserID sess = userID \<and> token \<noteq> exceptToken) s),
            filter (\<lambda>(token, sess). \<not> (UserID sess = userID \<and> token \<noteq> exceptToken)) s))"

definition Count :: "Store \<Rightarrow> int" where
  "Count s = int (length s)"

section \<open>Sequences of calls\<close>

datatype store_call =
    SignIn nanos "string result" string string string nanos "string list"
  | Look nanos string
  | SignOut nanos string
  | SwitchRouter nanos string string
  | Prune nanos
  | SignOutUser nanos string string

fun at_time :: "store_call \<Rightarrow> nanos" where
  "at_time (SignIn now _ _ _ _ _ _) = now"
| "at_time (Look now _) = now"
| "at_time (SignOut now _) = now"
| "at_time (SwitchRouter now _ _) = now"
| "at_time (Prune now) = now"
| "at_time (SignOutUser now _ _) = now"

fun store_step :: "Store \<Rightarrow> store_call \<Rightarrow> Store" where
  "store_step s (SignIn now rnd u n r d al) = snd (Create now rnd u n r d al s)"
| "store_step s (Look now token) = snd (Get now token s)"
| "store_step s (SignOut now token) = Delete token s"
| "store_step s (SwitchRouter now token router) = SetActiveRouter now token router s"
| "store_step s (Prune now) = snd (PruneExpired now s)"
| "store_step s (SignOutUser now u ex) = snd (DeleteForUser u ex s)"

text \<open>
  What the sessions should be, on a map that drops nothing by itself: signing in opens one, signing out closes one or all
  of a user's but the one named, switching the router changes a session that is still alive, and neither looking nor
  pruning changes anything.
\<close>

fun session_spec :: "(string \<rightharpoonup> Session) \<Rightarrow> store_call \<Rightarrow> (string \<rightharpoonup> Session)" where
  "session_spec a (SignIn now rnd u n r d al) =
     (case rnd of Inl _ \<Rightarrow> a | Inr token \<Rightarrow> a(token \<mapsto> new_session now token u n r d al))"
| "session_spec a (Look now token) = a"
| "session_spec a (SignOut now token) = a(token := None)"
| "session_spec a (SwitchRouter now token router) =
     (case a token of
        None \<Rightarrow> a
      | Some sess \<Rightarrow> if token = [] \<or> expired now sess then a else a(token \<mapsto> sess\<lparr>ActiveRouterID := router\<rparr>))"
| "session_spec a (Prune now) = a"
| "session_spec a (SignOutUser now u ex) =
     (\<lambda>token. case a token of
        None \<Rightarrow> None
      | Some sess \<Rightarrow> if u \<noteq> [] \<and> UserID sess = u \<and> token \<noteq> ex then None else Some sess)"

interpretation sessions: expiring_store expired
  by unfold_locales (auto simp: expired_def)

lemma get_agrees: "agrees expired now s a \<Longrightarrow> agrees expired now (snd (Get now token s)) a"
  by (auto simp: Get_def simp del: map_of_eq_Some_iff split: option.splits intro: sessions.drop_expired)

lemma get_exact:
  assumes "agrees expired now s a"
  shows "fst (Get now token s) = Some sess \<longleftrightarrow> token \<noteq> [] \<and> a token = Some sess \<and> \<not> expired now sess"
proof -
  have "fst (Get now token s) = Some sess \<longleftrightarrow> token \<noteq> [] \<and> golookup s token = Some sess \<and> \<not> expired now sess"
    by (auto simp: Get_def simp del: map_of_eq_Some_iff split: option.splits)
  with sessions.live [OF assms, of token sess] show ?thesis by blast
qed

lemma switch_agrees:
  assumes "agrees expired now s a"
  shows "agrees expired now (SetActiveRouter now token router s) (session_spec a (SwitchRouter now token router))"
proof (cases "fst (Get now token s)")
  case None
  then have "SetActiveRouter now token router s = snd (Get now token s)"
    by (cases "Get now token s") (simp add: SetActiveRouter_def)
  moreover have "session_spec a (SwitchRouter now token router) = a"
    using None get_exact [OF assms, of token] by (auto split: option.splits)
  ultimately show ?thesis using get_agrees [OF assms] by simp
next
  case (Some sess)
  then have "SetActiveRouter now token router s = goput token (sess\<lparr>ActiveRouterID := router\<rparr>) (snd (Get now token s))"
    by (cases "Get now token s") (simp add: SetActiveRouter_def)
  moreover have "session_spec a (SwitchRouter now token router) = a(token \<mapsto> sess\<lparr>ActiveRouterID := router\<rparr>)"
    using Some get_exact [OF assms, of token sess] by simp
  ultimately show ?thesis using sessions.put [OF get_agrees [OF assms]] by simp
qed

lemma sign_out_agrees:
  assumes "agrees expired now s a"
  shows "agrees expired now (snd (DeleteForUser u ex s)) (session_spec a (SignOutUser now u ex))"
proof (cases "u = []")
  case True
  then have "session_spec a (SignOutUser now u ex) = a" by (auto split: option.splits)
  with True assms show ?thesis by (simp add: DeleteForUser_def)
next
  case False
  let ?s = "snd (DeleteForUser u ex s)"
  have ok: "gomap_ok s" using assms by (rule sessions.ok)
  have s: "?s = filter (\<lambda>(token, sess). \<not> (UserID sess = u \<and> token \<noteq> ex)) s" using False by (simp add: DeleteForUser_def)
  show ?thesis
  proof (rule sessions.agreesI)
    show "gomap_ok ?s" unfolding s using ok by simp
  next
    fix k
    show "golookup ?s k = session_spec a (SignOutUser now u ex) k \<or>
      golookup ?s k = None \<and> (\<exists>e. session_spec a (SignOutUser now u ex) k = Some e \<and> expired now e)"
      unfolding s golookup_filter [OF ok] using False
      by (cases rule: sessions.at [OF assms, of k]) (auto split: option.splits simp del: map_of_eq_Some_iff)
  qed
qed

lemma store_step_agrees:
  assumes "agrees expired lt s a" "lt \<le> at_time c"
  shows "agrees expired (at_time c) (store_step s c) (session_spec a c)"
proof -
  have g: "agrees expired (at_time c) s a" using assms by (rule sessions.later)
  show ?thesis
  proof (cases c)
    case (SignIn now rnd u n r d al)
    then show ?thesis using g sessions.put [OF g]
      by (cases rnd) (simp_all add: Create_def Let_def new_session_def)
  next
    case (Look now token)
    then show ?thesis using g get_agrees by simp
  next
    case (SignOut now token)
    then show ?thesis using sessions.remove [OF g] by (simp add: Delete_def)
  next
    case (SwitchRouter now token router)
    then show ?thesis using switch_agrees [of now s a token router] g by simp
  next
    case (Prune now)
    then show ?thesis using sessions.swept [OF g] by (simp add: PruneExpired_def)
  next
    case (SignOutUser now u ex)
    then show ?thesis using sign_out_agrees [of now s a u ex] g by simp
  qed
qed

lemma store_agrees:
  "agrees expired lt s a \<Longrightarrow> sorted (lt # map at_time cs) \<Longrightarrow>
    agrees expired (last (lt # map at_time cs)) (foldl store_step s cs) (foldl session_spec a cs)"
proof (induction cs arbitrary: lt s a)
  case (Cons c cs)
  then have "agrees expired (at_time c) (store_step s c) (session_spec a c)"
    by (intro store_step_agrees) auto
  from Cons.IH [OF this] Cons.prems(2) show ?case by simp
qed simp

lemma store_agrees_now:
  assumes "sorted (t0 # map at_time cs @ [now])"
  shows "agrees expired now (foldl store_step [] cs) (foldl session_spec Map.empty cs)"
proof -
  have "agrees expired (last (t0 # map at_time cs)) (foldl store_step [] cs) (foldl session_spec Map.empty cs)"
    using assms by (intro store_agrees [OF sessions.start]) (auto simp: sorted_append)
  moreover have "last (t0 # map at_time cs) \<le> now" using assms by (auto simp: sorted_append last_map)
  ultimately show ?thesis by (rule sessions.later)
qed

lemma for_user_exact:
  assumes "agrees expired now s a"
  shows "set (ForUser now u s) = {x. u \<noteq> [] \<and> UserID x = u \<and> \<not> expired now x \<and> (\<exists>k. a k = Some x)}"
proof -
  have "set (ForUser now u s) = {x. u \<noteq> [] \<and> UserID x = u \<and> \<not> expired now x \<and> (\<exists>k. (k, x) \<in> set s)}"
    by (force simp: ForUser_def)
  then show ?thesis
    using sessions.live [OF assms] map_of_eq_Some_iff [OF sessions.ok [OF assms]] by blast
qed

text \<open>
  C31. The session store is the map that drops nothing, read through the expiry: after any sequence of sign-ins,
  look-ups, sign-outs, router switches and prunes under a clock that does not run backwards, a token opens a session
  exactly when that session was opened, not closed since, and has not expired, and it yields it with the router last
  switched to; the sessions listed for a user are exactly those.
\<close>

theorem session_exact:
  assumes "sorted (t0 # map at_time cs @ [now])"
  shows "(fst (Get now token (foldl store_step [] cs)) = Some sess \<longleftrightarrow>
      token \<noteq> [] \<and> foldl session_spec Map.empty cs token = Some sess \<and> \<not> expired now sess) \<and>
    set (ForUser now u (foldl store_step [] cs)) =
      {x. u \<noteq> [] \<and> UserID x = u \<and> \<not> expired now x \<and> (\<exists>k. foldl session_spec Map.empty cs k = Some x)}"
  using get_exact [OF store_agrees_now [OF assms]] for_user_exact [OF store_agrees_now [OF assms]] by blast

theorem session_exact_witness:
  "fst (Get 9 ''k'' (foldl store_step [] [SignIn 1 (Inr ''k'') ''u'' ''n'' ''r'' 10 [], SwitchRouter 2 ''k'' ''rt''])) =
     Some ((new_session 1 ''k'' ''u'' ''n'' ''r'' 10 [])\<lparr>ActiveRouterID := ''rt''\<rparr>) \<and>
   fst (Get 12 ''k'' (foldl store_step [] [SignIn 1 (Inr ''k'') ''u'' ''n'' ''r'' 10 [], SwitchRouter 2 ''k'' ''rt''])) = None"
proof -
  let ?cs = "[SignIn 1 (Inr ''k'') ''u'' ''n'' ''r'' 10 [], SwitchRouter 2 ''k'' ''rt'']"
  let ?x = "(new_session 1 ''k'' ''u'' ''n'' ''r'' 10 [])\<lparr>ActiveRouterID := ''rt''\<rparr>"
  have e: "ExpiresAt ?x = 11" "ExpiresAt (new_session 1 ''k'' ''u'' ''n'' ''r'' 10 []) = 11" "11 \<noteq> NeverExpires"
    by (simp_all add: new_session_def NeverExpires_def)
  have f: "foldl session_spec Map.empty ?cs ''k'' = Some ?x" using e by (simp add: expired_def)
  have "\<not> expired 9 ?x" "expired 12 ?x" using e by (simp_all add: expired_def)
  then show ?thesis
    using session_exact [of 0 ?cs 9 "''k''" ?x "[]"] session_exact [of 0 ?cs 12 "''k''" _ "[]"] f
    by (cases "fst (Get 12 ''k'' (foldl store_step [] ?cs))") auto
qed

text \<open>Signing a user out leaves no session of theirs alive but the one named.\<close>

lemma signed_out:
  assumes "sorted (t0 # map at_time (cs @ [SignOutUser t u ex]) @ [now])" "u \<noteq> []"
    and "x \<in> set (ForUser now u (foldl store_step [] (cs @ [SignOutUser t u ex])))"
  shows "foldl session_spec Map.empty cs ex = Some x"
  using assms(2,3) for_user_exact [OF store_agrees_now [OF assms(1)], of u] by (auto split: option.splits if_splits)

section \<open>The cookie\<close>

text \<open>A part at its first \<open>=\<close>, both sides trimmed; \<open>None\<close> when it has no \<open>=\<close> or no name.\<close>

definition cookie_pair :: "string \<Rightarrow> (string \<times> string) option" where
  "cookie_pair part =
     (if CHR ''='' \<notin> set part then None
      else let name = TrimSpace (takeWhile (\<lambda>c. c \<noteq> CHR ''='') part);
               value = TrimSpace (tl (dropWhile (\<lambda>c. c \<noteq> CHR ''='') part))
           in if name = [] then None else Some (name, value))"

fun cookie_loop :: "string list \<Rightarrow> (string, string) gomap \<Rightarrow> (string, string) gomap" where
  "cookie_loop [] out = out"
| "cookie_loop (part # parts) out =
     cookie_loop parts (case cookie_pair part of None \<Rightarrow> out | Some (name, value) \<Rightarrow> goput name value out)"

definition ParseCookieHeader :: "string \<Rightarrow> (string, string) gomap" where
  "ParseCookieHeader header = (if header = [] then [] else cookie_loop (go_split CHR '';'' header) [])"

text \<open>
  \<open>Duration.Milliseconds\<close> truncates, and the difference of two instants is a duration, so it saturates; rounding the
  quotient to whole seconds is exact on such values, and a negative one is raised to one second whatever it rounds to.
\<close>

definition saturate :: "int \<Rightarrow> nanos" where
  "saturate d = max (- (2 ^ 63)) (min (2 ^ 63 - 1) d)"

definition max_age :: "nanos \<Rightarrow> nanos \<Rightarrow> int" where
  "max_age now expiresAt = max 1 ((saturate (expiresAt - now) div 1000000 + 500) div 1000)"

definition BuildCookieHeader :: "nanos \<Rightarrow> string \<Rightarrow> nanos \<Rightarrow> bool \<Rightarrow> string" where
  "BuildCookieHeader now token expiresAt forceHTTPS =
     CookieName @ ''='' @ token @ ''; HttpOnly; SameSite=Strict; Path=/'' @
     (if expiresAt \<noteq> NeverExpires then ''; Max-Age='' @ Itoa (max_age now expiresAt) else []) @
     (if forceHTTPS then ''; Secure'' else [])"

definition ClearCookieHeader :: "bool \<Rightarrow> string" where
  "ClearCookieHeader forceHTTPS =
     CookieName @ ''=; HttpOnly; SameSite=Strict; Path=/; Max-Age=0'' @ (if forceHTTPS then ''; Secure'' else [])"

text \<open>What a browser sends back: the pairs it holds, joined.\<close>

definition cookie_header :: "(string \<times> string) list \<Rightarrow> string" where
  "cookie_header ps = go_join ''; '' (map (\<lambda>(n, v). n @ ''='' @ v) ps)"

definition cookie_ok :: "string \<times> string \<Rightarrow> bool" where
  "cookie_ok p \<longleftrightarrow> fst p \<noteq> [] \<and> list_all (\<lambda>c. graphic c \<and> c \<noteq> CHR '';'' \<and> c \<noteq> CHR ''='') (fst p) \<and>
     list_all (\<lambda>c. graphic c \<and> c \<noteq> CHR '';'') (snd p)"

lemma TrimSpace_space: "TrimSpace (CHR '' '' # s) = TrimSpace s"
proof -
  have "lead_len space_encodings (CHR '' '' # s) = 1" by (simp add: space_encodings_def)
  then have "trim_left space_encodings (CHR '' '' # s) = trim_left space_encodings s" by (subst trim_left.simps) simp
  then show ?thesis by (simp add: TrimSpace_def)
qed

lemma cookie_pair_print:
  assumes "cookie_ok (n, v)"
  shows "cookie_pair (n @ CHR ''='' # v) = Some (n, v)" "cookie_pair (CHR '' '' # n @ CHR ''='' # v) = Some (n, v)"
proof -
  have n: "takeWhile (\<lambda>c. c \<noteq> CHR ''='') (n @ CHR ''='' # v) = n" "dropWhile (\<lambda>c. c \<noteq> CHR ''='') (n @ CHR ''='' # v) = CHR ''='' # v"
    using assms by (auto simp: cookie_ok_def list_all_iff takeWhile_append dropWhile_append)
  have "list_all graphic n" "list_all graphic v" and t3: "n \<noteq> []"
    using assms unfolding cookie_ok_def list_all_iff by auto
  then have t: "TrimSpace n = n" "TrimSpace v = v" by (blast intro: TrimSpace_all)+
  have sp: "takeWhile (\<lambda>c. c \<noteq> CHR ''='') (CHR '' '' # s) = CHR '' '' # takeWhile (\<lambda>c. c \<noteq> CHR ''='') s"
    "dropWhile (\<lambda>c. c \<noteq> CHR ''='') (CHR '' '' # s) = dropWhile (\<lambda>c. c \<noteq> CHR ''='') s" for s by simp_all
  have m: "CHR ''='' \<in> set (n @ CHR ''='' # v)" "CHR ''='' \<in> set (CHR '' '' # n @ CHR ''='' # v)" by simp_all
  note read = cookie_pair_def Let_def not_True_eq_False not_False_eq_True if_False if_True
  show "cookie_pair (n @ CHR ''='' # v) = Some (n, v)"
    using m(1) t3 by (simp only: read n list.sel t)
  show "cookie_pair (CHR '' '' # n @ CHR ''='' # v) = Some (n, v)"
    using m(2) t3 by (simp only: read sp n list.sel t TrimSpace_space)
qed

lemma join_space: "go_join ''; '' (w # ws) = go_join '';'' (w # map (\<lambda>x. CHR '' '' # x) ws)"
proof (induction ws arbitrary: w)
  case (Cons v ws)
  have "CHR '' '' # go_join '';'' (v # us) = go_join '';'' ((CHR '' '' # v) # us)" for us by (cases us) auto
  with Cons show ?case by simp
qed simp

lemma cookie_loop_pairs:
  "list_all2 (\<lambda>part p. cookie_pair part = Some p) parts ps \<Longrightarrow>
    golookup (cookie_loop parts out) n = (golookup out ++ map_of (rev ps)) n"
proof (induction parts ps arbitrary: out rule: list_all2_induct)
  case (Cons part parts p ps)
  then show ?case by (cases p) (simp add: golookup_put map_add_def split: option.split)
qed simp

text \<open>
  What a browser sends is read back: the header made of any list of name and value pairs parses to the map in
  which each name has the value it was last sent with, whatever \<open>=\<close> signs the values hold.
\<close>

theorem cookie_roundtrip:
  assumes "list_all cookie_ok ps"
  shows "golookup (ParseCookieHeader (cookie_header ps)) = map_of (rev ps)"
proof (cases ps)
  case Nil
  then show ?thesis by (simp add: cookie_header_def ParseCookieHeader_def)
next
  case (Cons p qs)
  define show_pair where "show_pair = (\<lambda>(n, v). n @ ''='' @ (v :: string))"
  define parts where "parts = show_pair p # map (\<lambda>x. CHR '' '' # x) (map show_pair qs)"
  have ok: "cookie_ok q" if "q \<in> set ps" for q using assms that by (auto simp: list_all_iff)
  have h: "cookie_header ps = go_join '';'' parts"
    unfolding cookie_header_def Cons show_pair_def parts_def using join_space by simp
  have "CHR '';'' \<notin> set (show_pair q)" if "q \<in> set ps" for q
    using ok [OF that] by (cases q) (auto simp: show_pair_def cookie_ok_def list_all_iff)
  then have "go_split CHR '';'' (cookie_header ps) = parts"
    unfolding h using Cons by (intro go_split_join) (auto simp: parts_def)
  moreover have "cookie_header ps \<noteq> []"
    using h Cons by (cases p; cases qs) (auto simp: parts_def show_pair_def)
  ultimately have q: "ParseCookieHeader (cookie_header ps) = cookie_loop parts []" by (simp add: ParseCookieHeader_def)
  have read: "cookie_pair (show_pair q) = Some q" "cookie_pair (CHR '' '' # show_pair q) = Some q" if "q \<in> set ps" for q
    using cookie_pair_print [of "fst q" "snd q"] ok [OF that] by (simp_all add: show_pair_def split_beta)
  then have "list_all2 (\<lambda>part p. cookie_pair part = Some p) parts ps"
    unfolding Cons parts_def by (auto simp: list_all2_map1 list.rel_map intro!: list.rel_refl_strong)
  from cookie_loop_pairs [OF this, of "[]"] q show ?thesis by (auto simp: fun_eq_iff)
qed

theorem cookie_roundtrip_witness:
  "golookup (ParseCookieHeader (cookie_header [(''a'', ''1''), (CookieName, ''ab==''), (''a'', ''2'')])) CookieName = Some ''ab==''"
proof -
  have "list_all cookie_ok [(''a'', ''1''), (CookieName, ''ab==''), (''a'', ''2'')]" by code_simp
  from cookie_roundtrip [OF this] show ?thesis by (simp add: CookieName_def)
qed

text \<open>The lifetime announced to the browser is at least a second.\<close>

lemma max_age_pos: "1 \<le> max_age now e"
  by (simp add: max_age_def)

end
