(* ===== verification/Go_Json.thy ===== *)
theory Go_Json
  imports Go_Strings
begin

text \<open>
  The part of Go's \<^verbatim>\<open>encoding/json\<close> the program uses to name a decision: values made of strings, integers and
  arrays, and the text \<open>Marshal\<close> gives them. Strings are byte lists; a byte that is not part of a UTF-8 encoding is
  written as the replacement character.
\<close>

section \<open>Runes\<close>

abbreviation byte_code :: "char \<Rightarrow> nat" where
  "byte_code c \<equiv> of_char c"

definition continues :: "char \<Rightarrow> bool" where
  "continues c \<longleftrightarrow> 0x80 \<le> byte_code c \<and> byte_code c \<le> 0xBF"

text \<open>How many bytes the UTF-8 encoding that starts a string takes, \<open>0\<close> when none does.\<close>

definition rune_len :: "string \<Rightarrow> nat" where
  "rune_len s =
     (case s of
        [] \<Rightarrow> 0
      | c # t \<Rightarrow>
          let b = byte_code c; b1 = byte_code (t ! 0)
          in if b < 0x80 then 1
             else if 0xC2 \<le> b \<and> b \<le> 0xDF \<and> 1 \<le> length t \<and> continues (t ! 0) then 2
             else if 0xE0 \<le> b \<and> b \<le> 0xEF \<and> 2 \<le> length t \<and> continues (t ! 0) \<and> continues (t ! 1) \<and>
               (b = 0xE0 \<longrightarrow> 0xA0 \<le> b1) \<and> (b = 0xED \<longrightarrow> b1 \<le> 0x9F) then 3
             else if 0xF0 \<le> b \<and> b \<le> 0xF4 \<and> 3 \<le> length t \<and> continues (t ! 0) \<and> continues (t ! 1) \<and> continues (t ! 2) \<and>
               (b = 0xF0 \<longrightarrow> 0x90 \<le> b1) \<and> (b = 0xF4 \<longrightarrow> b1 \<le> 0x8F) then 4
             else 0)"

lemma rune_len_le: "rune_len s \<le> length s"
  by (cases s) (auto simp: rune_len_def Let_def)

function valid_utf8 :: "string \<Rightarrow> bool" where
  "valid_utf8 s = (if s = [] then True else if rune_len s = 0 then False else valid_utf8 (drop (rune_len s) s))"
  by pat_completeness auto
termination
  by (relation "measure length") auto

declare valid_utf8.simps [simp del]

section \<open>Strings\<close>

definition hexv :: "char \<Rightarrow> nat" where
  "hexv c = (if byte_code c < 58 then byte_code c - 48 else byte_code c - 87)"

text \<open>A character of ASCII that is written as itself.\<close>

definition safe_char :: "char \<Rightarrow> bool" where
  "safe_char c \<longleftrightarrow> 0x20 \<le> byte_code c \<and> c \<notin> {CHR 0x22, CHR 0x5C, CHR ''<'', CHR ''>'', CHR ''&''}"

definition short_escapes :: "(char \<times> char) list" where
  "short_escapes = [(CHR 0x5C, CHR 0x5C), (CHR 0x22, CHR 0x22), (CHR 0x08, CHR ''b''), (CHR 0x0C, CHR ''f''),
     (CHR 0x0A, CHR ''n''), (CHR 0x0D, CHR ''r''), (CHR 0x09, CHR ''t'')]"

definition esc_ascii :: "char \<Rightarrow> string" where
  "esc_ascii c =
     (if safe_char c then [c]
      else case map_of short_escapes c of
             Some d \<Rightarrow> [CHR 0x5C, d]
           | None \<Rightarrow> [CHR 0x5C, CHR ''u'', CHR ''0'', CHR ''0'', hex_digit (byte_code c div 16), hex_digit (byte_code c mod 16)])"

definition line_separator :: string where "line_separator = [CHR 0xE2, CHR 0x80, CHR 0xA8]"
definition paragraph_separator :: string where "paragraph_separator = [CHR 0xE2, CHR 0x80, CHR 0xA9]"

definition esc_rune :: "string \<Rightarrow> string" where
  "esc_rune r =
     (if length r = 1 then esc_ascii (hd r)
      else if r = line_separator then CHR 0x5C # ''u2028''
      else if r = paragraph_separator then CHR 0x5C # ''u2029''
      else r)"

function esc :: "string \<Rightarrow> string" where
  "esc s =
     (if s = [] then []
      else if rune_len s = 0 then (CHR 0x5C # ''ufffd'') @ esc (tl s)
      else esc_rune (take (rune_len s) s) @ esc (drop (rune_len s) s))"
  by pat_completeness auto
termination
  by (relation "measure length") auto

declare esc.simps [simp del]

section \<open>Values\<close>

datatype json = JNull | JInt int | JStr string | JArr "json list"

text \<open>A slice of strings: a nil one is \<open>null\<close>, and \<open>append\<close> of nothing to a nil slice leaves it nil.\<close>

definition json_strings :: "string list \<Rightarrow> json" where
  "json_strings xs = (if xs = [] then JNull else JArr (map JStr xs))"

fun Marshal :: "json \<Rightarrow> string" where
  "Marshal JNull = ''null''"
| "Marshal (JInt i) = Itoa i"
| "Marshal (JStr s) = CHR 0x22 # esc s @ [CHR 0x22]"
| "Marshal (JArr xs) = CHR ''['' # go_join '','' (map Marshal xs) @ '']''"

fun clean :: "json \<Rightarrow> bool" where
  "clean JNull = True"
| "clean (JInt _) = True"
| "clean (JStr s) = valid_utf8 s"
| "clean (JArr xs) = (\<forall>x\<in>set xs. clean x)"

section \<open>Reading the text back\<close>

text \<open>A reader of the text of a string, up to its closing quote: what the text stands for, and what follows it.\<close>

definition unshort :: "(char \<times> char) list" where
  "unshort = map (\<lambda>(c, d). (d, c)) short_escapes"

definition unescape4 :: "string \<Rightarrow> string" where
  "unescape4 h =
     (if h = ''2028'' then line_separator
      else if h = ''2029'' then paragraph_separator
      else [char_of (16 * hexv (h ! 2) + hexv (h ! 3))])"

function scan :: "string \<Rightarrow> string \<times> string" where
  "scan s =
     (if s = [] then ([], [])
      else if hd s = CHR 0x22 then ([], tl s)
      else if hd s \<noteq> CHR 0x5C then (case scan (tl s) of (u, t) \<Rightarrow> (hd s # u, t))
      else if length s < 2 then ([], [])
      else if s ! 1 = CHR ''u'' then (case scan (drop 6 s) of (u, t) \<Rightarrow> (unescape4 (take 4 (drop 2 s)) @ u, t))
      else (case scan (drop 2 s) of (u, t) \<Rightarrow> (case map_of unshort (s ! 1) of None \<Rightarrow> (u, t) | Some c \<Rightarrow> (c # u, t))))"
  by pat_completeness auto
termination
  by (relation "measure length") auto

declare scan.simps [simp del]

lemma byte_code_inj: "byte_code c = byte_code d \<longleftrightarrow> c = d"
  by simp

lemma byte_code_less: "byte_code c < 256"
  by (metis of_char_of of_char_mod_256 mod_less_divisor zero_less_numeral)

lemma hexv_hex_digit: "d < 16 \<Longrightarrow> hexv (hex_digit d) = d"
  by (auto simp: hexv_def hex_digit_def)

lemma scan_plain: "c \<noteq> CHR 0x22 \<Longrightarrow> c \<noteq> CHR 0x5C \<Longrightarrow> scan (c # s) = (c # fst (scan s), snd (scan s))"
  by (subst scan.simps) (simp add: split_beta)

lemma scan_plains: "\<forall>c\<in>set p. c \<noteq> CHR 0x22 \<and> c \<noteq> CHR 0x5C \<Longrightarrow> scan (p @ s) = (p @ fst (scan s), snd (scan s))"
  by (induction p) (simp_all add: scan_plain)

lemma scan_u: "length h = 4 \<Longrightarrow> scan (CHR 0x5C # CHR ''u'' # h @ s) = (unescape4 h @ fst (scan s), snd (scan s))"
  by (subst scan.simps) (simp add: split_beta)

lemma scan_short: "map_of unshort d = Some c \<Longrightarrow> d \<noteq> CHR ''u'' \<Longrightarrow> scan (CHR 0x5C # d # s) = (c # fst (scan s), snd (scan s))"
  by (subst scan.simps) (simp add: split_beta)

lemma short_back: "map_of short_escapes c = Some d \<Longrightarrow> map_of unshort d = Some c \<and> d \<noteq> CHR ''u''"
  by (auto simp: short_escapes_def unshort_def split: if_splits)

lemma scan_ascii: "byte_code c < 0x80 \<Longrightarrow> scan (esc_ascii c @ s) = (c # fst (scan s), snd (scan s))"
proof (cases "safe_char c")
  case True
  then show ?thesis using scan_plain [of c s] by (simp add: esc_ascii_def safe_char_def)
next
  case False
  assume c: "byte_code c < 0x80"
  show ?thesis
  proof (cases "map_of short_escapes c")
    case None
    let ?h = "[CHR ''0'', CHR ''0'', hex_digit (byte_code c div 16), hex_digit (byte_code c mod 16)]"
    have "byte_code c div 16 < 16" using c by simp
    then have "16 * hexv (?h ! 2) + hexv (?h ! 3) = byte_code c" using hexv_hex_digit by simp
    then have "unescape4 ?h = [c]" by (simp add: unescape4_def)
    then show ?thesis using None False scan_u [of ?h s] by (simp add: esc_ascii_def)
  next
    case (Some d)
    then show ?thesis using False scan_short [of d c s] short_back [OF Some] by (simp add: esc_ascii_def)
  qed
qed

lemma rune_multi:
  assumes "rune_len s \<noteq> 0" "rune_len s \<noteq> 1"
  shows "\<forall>c\<in>set (take (rune_len s) s). 0x80 \<le> byte_code c"
proof (cases s)
  case (Cons c t)
  define n where "n = rune_len s"
  have k: "0x80 \<le> byte_code d" if "continues d" for d using that by (simp add: continues_def)
  have "0x80 \<le> byte_code c \<and> (n = 2 \<and> continues (t ! 0) \<or> n = 3 \<and> continues (t ! 0) \<and> continues (t ! 1) \<or>
      n = 4 \<and> continues (t ! 0) \<and> continues (t ! 1) \<and> continues (t ! 2))"
    using assms unfolding n_def Cons rune_len_def list.case Let_def by (simp only: split: if_split_asm) simp_all
  then have "0x80 \<le> byte_code (s ! i)" if "i < n" for i
    using that k unfolding Cons by (auto simp: less_Suc_eq numeral_eq_Suc nth_Cons split: nat.split)
  then show ?thesis using rune_len_le [of s] unfolding n_def by (auto simp: in_set_conv_nth)
qed (use assms in \<open>simp add: rune_len_def\<close>)

lemma rune_single:
  assumes "rune_len s = 1"
  obtains c t where "s = c # t" "byte_code c < 0x80"
  using assms by (cases s) (auto simp: rune_len_def Let_def split: if_splits)

lemma scan_rune:
  assumes "rune_len s \<noteq> 0"
  shows "scan (esc_rune (take (rune_len s) s) @ u) = (take (rune_len s) s @ fst (scan u), snd (scan u))"
proof (cases "rune_len s = 1")
  case True
  then obtain c t where "s = c # t" "byte_code c < 0x80" by (rule rune_single)
  with True show ?thesis using scan_ascii [of c u] by (simp add: esc_rune_def)
next
  case False
  let ?r = "take (rune_len s) s"
  have l: "length ?r \<noteq> 1" using False rune_len_le [of s] by simp
  have big: "\<forall>c\<in>set ?r. c \<noteq> CHR 0x22 \<and> c \<noteq> CHR 0x5C" using rune_multi [OF assms False] by fastforce
  have sep: "unescape4 ''2028'' = line_separator" "unescape4 ''2029'' = paragraph_separator" by (simp_all add: unescape4_def)
  consider "?r = line_separator" | "?r = paragraph_separator" "?r \<noteq> line_separator" | "?r \<noteq> line_separator" "?r \<noteq> paragraph_separator" by blast
  then show ?thesis
  proof cases
    case 1
    then show ?thesis using l scan_u [of "''2028''" u] sep by (simp add: esc_rune_def)
  next
    case 2
    then show ?thesis using l scan_u [of "''2029''" u] sep by (simp add: esc_rune_def)
  next
    case 3
    then have "esc_rune ?r = ?r" using l by (simp add: esc_rune_def)
    then show ?thesis using scan_plains [OF big] by simp
  qed
qed

lemma scan_esc: "valid_utf8 s \<Longrightarrow> scan (esc s @ CHR 0x22 # t) = (s, t)"
proof (induction s rule: esc.induct)
  case (1 s)
  show ?case
  proof (cases "s = []")
    case True
    then show ?thesis by (subst esc.simps) (simp add: scan.simps)
  next
    case False
    with 1(3) have v: "rune_len s \<noteq> 0" "valid_utf8 (drop (rune_len s) s)"
      by (subst (asm) valid_utf8.simps, simp split: if_splits)+
    have "esc s = esc_rune (take (rune_len s) s) @ esc (drop (rune_len s) s)"
      using False v(1) by (subst esc.simps) simp
    then have "scan (esc s @ CHR 0x22 # t) = (take (rune_len s) s @ fst (scan (esc (drop (rune_len s) s) @ CHR 0x22 # t)),
        snd (scan (esc (drop (rune_len s) s) @ CHR 0x22 # t)))"
      using scan_rune [OF v(1), of "esc (drop (rune_len s) s) @ CHR 0x22 # t"] by simp
    then show ?thesis using 1(2) [OF False v] by simp
  qed
qed

text \<open>Where a value's text may end.\<close>

definition ends :: "string \<Rightarrow> bool" where
  "ends s \<longleftrightarrow> s = [] \<or> hd s = CHR '','' \<or> hd s = CHR '']''"

lemma Itoa_head: "hd (Itoa i) = CHR ''-'' \<or> is_digit (hd (Itoa i))"
  using nat_digits_digit [of "hd (nat_digits (nat i))" "nat i"] by (auto simp: Itoa_def)

lemma Itoa_tail: "c \<in> set (Itoa i) \<Longrightarrow> is_digit c \<or> c = CHR ''-''"
  by (auto simp: Itoa_def dest: nat_digits_digit split: if_splits)

lemma Itoa_nonempty [simp]: "Itoa i \<noteq> []"
  by (simp add: Itoa_def)

lemma Itoa_inj: "Itoa i = Itoa j \<longleftrightarrow> i = j"
proof
  assume "Itoa i = Itoa j"
  moreover have "hd (nat_digits n) \<noteq> CHR ''-''" for n
    using nat_digits_digit [of "hd (nat_digits n)" n] not_digit_sign by (metis hd_in_set nat_digits_nonempty)
  ultimately show "i = j"
    by (auto simp: Itoa_def nat_digits_inj split: if_splits) (metis list.sel(1))+
qed simp

lemma split_at_end:
  assumes "\<forall>c\<in>set a. c \<noteq> CHR '','' \<and> c \<noteq> CHR '']''" "\<forall>c\<in>set b. c \<noteq> CHR '','' \<and> c \<noteq> CHR '']''" "ends s" "ends t" "a @ s = b @ t"
  shows "a = b \<and> s = t"
proof -
  let ?P = "\<lambda>c. c \<noteq> CHR '','' \<and> c \<noteq> CHR '']''"
  have "takeWhile ?P (a @ s) = a" "takeWhile ?P (b @ t) = b"
    using assms(1-4) by (auto simp: takeWhile_append ends_def takeWhile_eq_Nil_iff)
  with assms(5) show ?thesis by (metis append_same_eq same_append_eq)
qed

lemma Itoa_ends: "c \<in> set (Itoa i) \<Longrightarrow> c \<noteq> CHR '','' \<and> c \<noteq> CHR '']''"
  using Itoa_tail [of c i] by (auto simp: is_digit_of)

text \<open>The rest of an array's text, from the end of an element.\<close>

fun rest_text :: "json list \<Rightarrow> string \<Rightarrow> string" where
  "rest_text [] s = CHR '']'' # s"
| "rest_text (x # xs) s = CHR '','' # Marshal x @ rest_text xs s"

lemma rest_text_ends: "ends (rest_text xs s)"
  by (cases xs) (simp_all add: ends_def)

lemma join_rest: "go_join '','' (map Marshal (x # xs)) @ CHR '']'' # s = Marshal x @ rest_text xs s"
  by (induction xs arbitrary: x) auto

lemma Marshal_nonempty [simp]: "Marshal x \<noteq> []"
  by (cases x) simp_all

lemma Marshal_head:
  "hd (Marshal x) = (case x of JNull \<Rightarrow> CHR ''n'' | JInt i \<Rightarrow> hd (Itoa i) | JStr _ \<Rightarrow> CHR 0x22 | JArr _ \<Rightarrow> CHR ''['')"
  by (cases x) simp_all

lemma Itoa_head_not: "hd (Itoa i) \<noteq> CHR ''n''" "hd (Itoa i) \<noteq> CHR 0x22" "hd (Itoa i) \<noteq> CHR ''[''" "hd (Itoa i) \<noteq> CHR '']''"
  using Itoa_head [of i] by (auto simp: is_digit_of)

lemma Marshal_kind:
  assumes "Marshal x @ s = Marshal y @ t"
  shows "case x of JNull \<Rightarrow> y = JNull | JInt _ \<Rightarrow> \<exists>j. y = JInt j | JStr _ \<Rightarrow> \<exists>v. y = JStr v | JArr _ \<Rightarrow> \<exists>ys. y = JArr ys"
proof -
  have "hd (Marshal x) = hd (Marshal y)" using assms by (metis Marshal_nonempty hd_append2)
  then show ?thesis unfolding Marshal_head using Itoa_head_not by (cases x; cases y) (force simp: eq_commute)+
qed

lemma Marshal_not_close: "hd (Marshal x) \<noteq> CHR '']''"
  using Itoa_head_not(4) by (cases x) simp_all

definition reads_once :: "json \<Rightarrow> bool" where
  "reads_once x \<longleftrightarrow> (\<forall>y s t. clean y \<longrightarrow> ends s \<longrightarrow> ends t \<longrightarrow> Marshal x @ s = Marshal y @ t \<longrightarrow> x = y \<and> s = t)"

lemma reads_onceD:
  "reads_once x \<Longrightarrow> clean y \<Longrightarrow> ends s \<Longrightarrow> ends t \<Longrightarrow> Marshal x @ s = Marshal y @ t \<Longrightarrow> x = y \<and> s = t"
  unfolding reads_once_def by blast

lemma rest_text_once:
  assumes "\<forall>x\<in>set xs. reads_once x" "\<forall>y\<in>set ys. clean y" "rest_text xs s = rest_text ys t"
  shows "xs = ys \<and> s = t"
  using assms
proof (induction xs arbitrary: ys)
  case Nil
  then show ?case by (cases ys) simp_all
next
  case (Cons x xs)
  then obtain y ys' where ys: "ys = y # ys'" by (cases ys) simp_all
  have "Marshal x @ rest_text xs s = Marshal y @ rest_text ys' t" using Cons.prems(3) ys by simp
  moreover have "reads_once x" "clean y" using Cons.prems(1,2) ys by simp_all
  ultimately have xy: "x = y \<and> rest_text xs s = rest_text ys' t"
    by (intro reads_onceD) (simp_all add: rest_text_ends)
  with Cons.IH [of ys'] Cons.prems(1,2) ys show ?case by simp
qed

lemma array_once:
  assumes "\<forall>x\<in>set xs. reads_once x" "\<forall>y\<in>set ys. clean y" "Marshal (JArr xs) @ s = Marshal (JArr ys) @ t"
  shows "xs = ys \<and> s = t"
proof -
  have j: "go_join '','' (map Marshal xs) @ CHR '']'' # s = go_join '','' (map Marshal ys) @ CHR '']'' # t" using assms(3) by simp
  have open_text: "CHR '']'' # a \<noteq> Marshal z @ b" for a b z using Marshal_not_close [of z] by (metis Marshal_nonempty hd_append2 list.sel(1))
  show ?thesis
  proof (cases xs)
    case Nil
    show ?thesis
    proof (cases ys)
      case (Cons z zs)
      then show ?thesis using j Nil open_text join_rest [of z zs t] by auto
    qed (use j Nil in simp)
  next
    case (Cons x xs')
    show ?thesis
    proof (cases ys)
      case Nil
      then show ?thesis using j Cons open_text join_rest [of x xs' s] by auto
    next
      case (Cons z zs)
      have "rest_text xs s = rest_text ys t"
        using j unfolding Cons \<open>xs = x # xs'\<close> join_rest by simp
      with assms(1,2) show ?thesis by (rule rest_text_once)
    qed
  qed
qed

lemma Marshal_once: "clean x \<Longrightarrow> reads_once x"
proof (induction x)
  case JNull
  show ?case unfolding reads_once_def using Marshal_kind [of JNull] by fastforce
next
  case (JInt i)
  show ?case unfolding reads_once_def
  proof (intro allI impI)
    fix y s t assume a: "clean y" "ends s" "ends t" "Marshal (JInt i) @ s = Marshal y @ t"
    then obtain j where j: "y = JInt j" using Marshal_kind [OF a(4)] by auto
    have "Itoa i @ s = Itoa j @ t" using a(4) j by simp
    then have "Itoa i = Itoa j \<and> s = t" using a(2,3) Itoa_ends by (intro split_at_end) blast+
    then show "JInt i = y \<and> s = t" using j by (simp only: Itoa_inj)
  qed
next
  case (JStr u)
  then have u: "valid_utf8 u" by simp
  show ?case unfolding reads_once_def
  proof (intro allI impI)
    fix y s t assume a: "clean y" "ends s" "ends t" "Marshal (JStr u) @ s = Marshal y @ t"
    then obtain v where v: "y = JStr v" using Marshal_kind [OF a(4)] by auto
    with a have e: "esc u @ CHR 0x22 # s = esc v @ CHR 0x22 # t" and w: "valid_utf8 v" by simp_all
    have "(u, s) = (v, t)" using arg_cong [OF e, of scan] unfolding scan_esc [OF u] scan_esc [OF w] .
    with v show "JStr u = y \<and> s = t" by simp
  qed
next
  case (JArr xs)
  then have xs: "\<forall>x\<in>set xs. reads_once x" by simp
  show ?case unfolding reads_once_def
  proof (intro allI impI)
    fix y s t assume a: "clean y" "ends s" "ends t" "Marshal (JArr xs) @ s = Marshal y @ t"
    then obtain ys where ys: "y = JArr ys" using Marshal_kind [OF a(4)] by auto
    with a array_once [OF xs, of ys s t] show "JArr xs = y \<and> s = t" by simp
  qed
qed

text \<open>Two values of valid strings with the same text are the same value.\<close>

lemma Marshal_inj:
  assumes "clean x" "clean y" "Marshal x = Marshal y"
  shows "x = y"
  using reads_onceD [OF Marshal_once [OF assms(1)] assms(2), of "[]" "[]"] assms(3) by (simp add: ends_def)

end
