(* ===== verification/Self_Guard.thy ===== *)
theory Self_Guard
  imports Netip Go_Json "HOL-Library.Multiset"
begin

text \<open>
  What of a router belongs to the dashboard itself, and the two guards that rest on it: the refusal of writes to its own
  account (\<^verbatim>\<open>internal/guard/selfguard.go\<close>) and the warning about edits to the interface it is reached on
  (\<^verbatim>\<open>internal/guard/selfpath.go\<close>). A row of a RouterOS reply is a map from property to value. The Unicode tables
  behind \<open>strings.ToLower\<close> are the argument \<open>uni\<close>.
\<close>

section \<open>Rows and verdicts\<close>

type_synonym Reply = "(string, string) gomap"

definition field :: "Reply \<Rightarrow> string \<Rightarrow> string" where
  "field r k = (case golookup r k of None \<Rightarrow> [] | Some v \<Rightarrow> v)"

record Verdict =
  Level :: string
  Code :: string
  Detail :: "(string \<times> json) list"
  Fingerprint :: string

definition silent :: Verdict where
  "silent = \<lparr>Level = ''none'', Code = [], Detail = [], Fingerprint = []\<rparr>"

definition Warned :: "Verdict \<Rightarrow> bool" where
  "Warned v \<longleftrightarrow> Level v = ''warn''"

definition Refused :: "Verdict \<Rightarrow> bool" where
  "Refused v \<longleftrightarrow> Level v = ''refuse''"

definition warn :: "string \<Rightarrow> (string \<times> json) list \<Rightarrow> string \<Rightarrow> Verdict" where
  "warn code detail fp = \<lparr>Level = ''warn'', Code = code, Detail = detail, Fingerprint = fp\<rparr>"

lemma Warned_simps [simp]: "Warned (warn c d f)" "\<not> Warned silent" "Fingerprint (warn c d f) = f"
  by (simp_all add: Warned_def warn_def silent_def)

section \<open>Whose accounts and groups are ours\<close>

definition selfKey :: "unicode \<Rightarrow> string \<Rightarrow> string" where
  "selfKey uni v = ToLower uni (TrimSpace v)"

record Self =
  Names :: "string list"
  Groups :: "string list"
  Resolved :: bool
  Source :: string

definition add_new :: "string list \<Rightarrow> string \<Rightarrow> string list" where
  "add_new acc k = (if k = [] \<or> k \<in> set acc then acc else acc @ [k])"

text \<open>The groups of the rows that carry one of the names.\<close>

definition own_groups :: "unicode \<Rightarrow> string list \<Rightarrow> Reply list \<Rightarrow> string list" where
  "own_groups uni names rows =
     foldl (\<lambda>acc r. if field r ''name'' \<noteq> [] \<and> selfKey uni (field r ''name'') \<in> set names \<and> field r ''group'' \<noteq> []
                    then add_new acc (selfKey uni (field r ''group'')) else acc) [] rows"

definition ResolveSelf :: "unicode \<Rightarrow> Reply list \<Rightarrow> Reply list \<Rightarrow> string list \<Rightarrow> Self" where
  "ResolveSelf uni userRows activeRows usernames =
     (let names = foldl (\<lambda>acc n. add_new acc (selfKey uni n)) [] usernames;
          active = own_groups uni names activeRows;
          groups = (if active = [] then own_groups uni names userRows else active)
      in \<lparr>Names = names, Groups = groups, Resolved = (groups \<noteq> []),
          Source = (if active \<noteq> [] then ''active'' else if groups \<noteq> [] then ''user'' else [])\<rparr>)"

record Refusal =
  OK :: bool
  r_Code :: string
  r_Detail :: string

definition selfOK :: Refusal where "selfOK = \<lparr>OK = True, r_Code = [], r_Detail = []\<rparr>"

definition refuse :: "string \<Rightarrow> string \<Rightarrow> Refusal" where
  "refuse code detail = \<lparr>OK = False, r_Code = code, r_Detail = detail\<rparr>"

definition IsSelfUser :: "unicode \<Rightarrow> Self \<Rightarrow> string \<Rightarrow> bool" where
  "IsSelfUser uni s name \<longleftrightarrow> selfKey uni name \<in> set (Names s)"

definition IsSelfGroup :: "unicode \<Rightarrow> Self \<Rightarrow> string \<Rightarrow> bool" where
  "IsSelfGroup uni s g \<longleftrightarrow> selfKey uni g \<in> set (Groups s)"

record UserAction =
  Verb :: string
  Target :: "Reply option"
  Values :: "(string, string) gomap"
  ValueSet :: "(string, bool) gomap option"

definition has :: "UserAction \<Rightarrow> string \<Rightarrow> bool" where
  "has a k =
     (case ValueSet a of
        Some m \<Rightarrow> golookup m k = Some True
      | None \<Rightarrow> golookup (Values a) k \<noteq> None)"

definition CheckUser :: "unicode \<Rightarrow> Self \<Rightarrow> UserAction \<Rightarrow> Refusal" where
  "CheckUser uni self a =
     (if \<not> Resolved self then refuse ''self-unresolved'' []
      else if Target a \<noteq> None \<and> IsSelfUser uni self (field (the (Target a)) ''name'')
      then refuse ''protected-account'' (field (the (Target a)) ''name'')
      else if has a ''name'' \<and> IsSelfUser uni self (field (Values a) ''name'')
      then refuse ''protected-name-value'' (field (Values a) ''name'')
      else if has a ''group'' \<and> IsSelfGroup uni self (field (Values a) ''group'')
      then refuse ''protected-group-value'' (field (Values a) ''group'')
      else if Verb a = ''remove'' \<and> Target a = None then refuse ''bad-request'' []
      else selfOK)"

definition CheckGroup :: "unicode \<Rightarrow> Self \<Rightarrow> UserAction \<Rightarrow> Refusal" where
  "CheckGroup uni self a =
     (if \<not> Resolved self then refuse ''self-unresolved'' []
      else if Target a \<noteq> None \<and> IsSelfGroup uni self (field (the (Target a)) ''name'')
      then refuse ''protected-group'' (field (the (Target a)) ''name'')
      else if has a ''name'' \<and> IsSelfGroup uni self (field (Values a) ''name'')
      then refuse ''protected-group-value'' (field (Values a) ''name'')
      else if Verb a = ''remove'' \<and> Target a = None then refuse ''bad-request'' []
      else selfOK)"

definition CheckSession :: "unicode \<Rightarrow> Self \<Rightarrow> Reply option \<Rightarrow> Refusal" where
  "CheckSession uni self target =
     (if \<not> Resolved self then refuse ''self-unresolved'' []
      else case target of
             None \<Rightarrow> refuse ''bad-request'' []
           | Some r \<Rightarrow> if IsSelfUser uni self (field r ''name'') then refuse ''protected-account'' (field r ''name'') else selfOK)"

section \<open>Where the router sees us\<close>

record ManagementPath =
  mp_Resolved :: bool
  Interfaces :: "string list"
  Address :: string
  Addresses :: "string list"

definition no_path :: ManagementPath where
  "no_path = \<lparr>mp_Resolved = False, Interfaces = [], Address = [], Addresses = []\<rparr>"

definition SelfAddresses :: "unicode \<Rightarrow> Reply list \<Rightarrow> string list \<Rightarrow> string list \<times> bool" where
  "SelfAddresses uni activeRows usernames =
     (let names = {k \<in> set (map (selfKey uni) usernames). k \<noteq> []};
          out = foldl (\<lambda>acc r.
            if field r ''name'' = [] \<or> field r ''address'' = [] then acc
            else if selfKey uni (field r ''name'') \<notin> names then acc
            else add_new acc (TrimSpace (field r ''address''))) [] activeRows
      in (out, out \<noteq> []))"

text \<open>The prefix of a row of \<open>/ip/address\<close> holds an address.\<close>

definition row_holds :: "Addr \<Rightarrow> Reply \<Rightarrow> bool" where
  "row_holds ip row =
     (if field row ''address'' = [] then False
      else case ParsePrefix (TrimSpace (field row ''address'')) of
             None \<Rightarrow> False
           | Some p \<Rightarrow> Contains (Masked p) ip)"

definition row_names :: "Reply \<Rightarrow> string list" where
  "row_names row = [TrimSpace (field row ''interface''), TrimSpace (field row ''actual-interface'')]"

definition path_row :: "string \<Rightarrow> Addr \<Rightarrow> string list \<times> string \<Rightarrow> Reply \<Rightarrow> string list \<times> string" where
  "path_row a ip st row =
     (case st of (ifaces, matched) \<Rightarrow>
        if row_holds ip row then (foldl add_new ifaces (row_names row), if matched = [] then a else matched) else st)"

definition path_addr :: "Reply list \<Rightarrow> string list \<times> string \<Rightarrow> string \<Rightarrow> string list \<times> string" where
  "path_addr addressRows st a =
     (case ParseAddr a of None \<Rightarrow> st | Some ip \<Rightarrow> foldl (path_row a ip) st addressRows)"

definition ResolveManagementInterfaces :: "unicode \<Rightarrow> Reply list \<Rightarrow> Reply list \<Rightarrow> string list \<Rightarrow> ManagementPath" where
  "ResolveManagementInterfaces uni activeRows addressRows usernames =
     (case SelfAddresses uni activeRows usernames of
        (addrs, resolved) \<Rightarrow>
          if \<not> resolved then no_path
          else case foldl (path_addr addressRows) ([], []) addrs of
                 (ifaces, matched) \<Rightarrow>
                   if ifaces = [] then \<lparr>mp_Resolved = False, Interfaces = [], Address = hd addrs, Addresses = addrs\<rparr>
                   else \<lparr>mp_Resolved = True, Interfaces = ifaces, Address = matched, Addresses = addrs\<rparr>)"

definition fingerprint :: "string \<Rightarrow> string list \<Rightarrow> ManagementPath \<Rightarrow> string" where
  "fingerprint action targets path =
     Marshal (JArr [JStr action, json_strings (sort targets), json_strings (sort (Interfaces path)), JStr (Address path)])"

definition CheckInterfaceEdit :: "unicode \<Rightarrow> ManagementPath \<Rightarrow> string list \<Rightarrow> string \<Rightarrow> Verdict" where
  "CheckInterfaceEdit uni path targets action =
     (if \<not> mp_Resolved path then silent
      else let want = filter (\<lambda>t. t \<noteq> []) (map TrimSpace targets)
           in if want = [] then silent
              else let mine = map (ToLower uni) (Interfaces path)
                   in case find (\<lambda>t. ToLower uni t \<in> set mine) want of
                        None \<Rightarrow> silent
                      | Some hit \<Rightarrow>
                          warn ''self-cutoff''
                            [(''interface'', JStr hit), (''address'', JStr (Address path)),
                             (''action'', JStr (if action = ''delete'' then ''delete'' else ''update''))]
                            (fingerprint action want path))"

section \<open>Our account stays ours\<close>

lemma set_add_new: "set (add_new acc k) = set acc \<union> (if k = [] then {} else {k})"
  by (auto simp: add_new_def)

lemma set_foldl_add_new: "set (foldl add_new acc ks) = set acc \<union> {k \<in> set ks. k \<noteq> []}"
  by (induction ks arbitrary: acc) (auto simp: set_add_new)

lemma set_foldl_add_if:
  "set (foldl (\<lambda>acc r. if P r then add_new acc (f r) else acc) acc rows) = set acc \<union> {k. k \<noteq> [] \<and> (\<exists>r\<in>set rows. P r \<and> k = f r)}"
  by (induction rows arbitrary: acc) (auto simp: set_add_new)

lemma own_groups_nonempty: "[] \<notin> set (own_groups uni names rows)"
  unfolding own_groups_def set_foldl_add_if by simp

lemma ResolveSelf_names: "set (Names (ResolveSelf uni us act ns)) = {k \<in> selfKey uni ` set ns. k \<noteq> []}"
proof -
  have "foldl (\<lambda>acc n. add_new acc (selfKey uni n)) [] ns = foldl add_new [] (map (selfKey uni) ns)" by (simp add: foldl_map)
  then show ?thesis by (simp add: ResolveSelf_def Let_def set_foldl_add_new)
qed

lemma ResolveSelf_nonempty: "[] \<notin> set (Names (ResolveSelf uni us act ns))" "[] \<notin> set (Groups (ResolveSelf uni us act ns))"
  using own_groups_nonempty by (simp_all add: ResolveSelf_names) (simp add: ResolveSelf_def Let_def)

lemma selfKey_Nil: "selfKey uni [] = []"
  by (simp add: selfKey_def ToLower_def is_ascii_def)

text \<open>
  What RouterOS documents a write to a table to do: it touches the row it is told to and no other, and a property of
  that row afterwards is what the write carried, or, where the write carried none, what the row had (nothing for a new
  row).
\<close>

definition row_before :: "Reply option \<Rightarrow> string \<Rightarrow> string" where
  "row_before t k = (case t of None \<Rightarrow> [] | Some r \<Rightarrow> field r k)"

definition writes_as_told :: "(UserAction \<Rightarrow> string \<Rightarrow> (string, Reply) gomap \<Rightarrow> (string, Reply) gomap) \<Rightarrow> bool" where
  "writes_as_told write \<longleftrightarrow>
     (\<forall>a i t j. j \<noteq> i \<longrightarrow> golookup (write a i t) j = golookup t j) \<and>
     (\<forall>a i t r k. golookup (write a i t) i = Some r \<longrightarrow>
        field r k = (if has a k then field (Values a) k else row_before (golookup t i) k))"

lemma CheckUser_OK:
  assumes "OK (CheckUser uni self a)"
  shows "Target a = Some r \<Longrightarrow> \<not> IsSelfUser uni self (field r ''name'')"
    "has a ''name'' \<Longrightarrow> \<not> IsSelfUser uni self (field (Values a) ''name'')"
    "has a ''group'' \<Longrightarrow> \<not> IsSelfGroup uni self (field (Values a) ''group'')"
  using assms by (auto simp: CheckUser_def refuse_def selfOK_def split: if_splits)

lemma CheckGroup_OK:
  assumes "OK (CheckGroup uni self a)"
  shows "Target a = Some r \<Longrightarrow> \<not> IsSelfGroup uni self (field r ''name'')"
    "has a ''name'' \<Longrightarrow> \<not> IsSelfGroup uni self (field (Values a) ''name'')"
  using assms by (auto simp: CheckGroup_def refuse_def selfOK_def split: if_splits)

text \<open>Writes that touch no row of a kind keep those rows, and writes that name nothing of a kind make none.\<close>

lemma untouched_rows:
  assumes "writes_as_told write" "\<And>r. golookup t i = Some r \<Longrightarrow> \<not> mine (field r k)"
    and "golookup t j = Some r" "mine (field r k)"
  shows "golookup (write a i t) j = Some r"
  using assms by (cases "j = i") (auto simp: writes_as_told_def)

lemma unmade_rows:
  assumes "writes_as_told write" "has a k \<Longrightarrow> \<not> mine (field (Values a) k)" "\<not> mine []"
    and "golookup (write a i t) j = Some r" "mine (field r k)"
  shows "\<exists>q. golookup t j = Some q \<and> mine (field q k)"
proof (cases "j = i")
  case True
  with assms(1,4) have "field r k = (if has a k then field (Values a) k else row_before (golookup t i) k)"
    unfolding writes_as_told_def by blast
  with assms(2,3,5) True show ?thesis by (auto simp: row_before_def split: if_splits option.splits)
next
  case False
  with assms show ?thesis by (auto simp: writes_as_told_def)
qed

text \<open>
  C32. A write to the router's users or groups that the guard lets through neither touches what is ours nor makes more
  of it: on a router that writes what it is told, with the target row read fresh, a permitted write to the users leaves
  every row with one of our names as it was, and a row that has one of our names or one of our groups afterwards had it
  before; a permitted write to the groups leaves every one of our groups as it was, its policies included, and a group
  that has the name of one of ours afterwards had it before. That covers removing, disabling, renaming, re-grouping and
  restricting our account, moving anybody into our group, and removing, renaming or stripping the group.
\<close>

theorem self_guards_protect:
  assumes "writes_as_told write" "self = ResolveSelf uni userRows activeRows usernames" "Target a = golookup t i"
  shows "(OK (CheckUser uni self a) \<longrightarrow>
      (\<forall>j r. golookup t j = Some r \<and> IsSelfUser uni self (field r ''name'') \<longrightarrow> golookup (write a i t) j = Some r) \<and>
      (\<forall>j r. golookup (write a i t) j = Some r \<longrightarrow>
         (IsSelfUser uni self (field r ''name'') \<longrightarrow> (\<exists>q. golookup t j = Some q \<and> IsSelfUser uni self (field q ''name''))) \<and>
         (IsSelfGroup uni self (field r ''group'') \<longrightarrow> (\<exists>q. golookup t j = Some q \<and> IsSelfGroup uni self (field q ''group''))))) \<and>
    (OK (CheckGroup uni self a) \<longrightarrow>
      (\<forall>j r. golookup t j = Some r \<and> IsSelfGroup uni self (field r ''name'') \<longrightarrow> golookup (write a i t) j = Some r) \<and>
      (\<forall>j r. golookup (write a i t) j = Some r \<and> IsSelfGroup uni self (field r ''name'') \<longrightarrow>
         (\<exists>q. golookup t j = Some q \<and> IsSelfGroup uni self (field q ''name''))))"
proof (intro conjI impI)
  note kept = untouched_rows [OF assms(1), of t i _ "''name''"] and made = unmade_rows [OF assms(1), of a]
  have nobody: "\<not> IsSelfUser uni self []" "\<not> IsSelfGroup uni self []"
    using ResolveSelf_nonempty assms(2) by (simp_all add: IsSelfUser_def IsSelfGroup_def selfKey_Nil)
  {
    assume "OK (CheckUser uni self a)"
    note ok = CheckUser_OK [OF this]
    show "\<forall>j r. golookup t j = Some r \<and> IsSelfUser uni self (field r ''name'') \<longrightarrow> golookup (write a i t) j = Some r"
      using kept [of "IsSelfUser uni self"] ok(1) assms(3) by simp
    show "\<forall>j r. golookup (write a i t) j = Some r \<longrightarrow>
       (IsSelfUser uni self (field r ''name'') \<longrightarrow> (\<exists>q. golookup t j = Some q \<and> IsSelfUser uni self (field q ''name''))) \<and>
       (IsSelfGroup uni self (field r ''group'') \<longrightarrow> (\<exists>q. golookup t j = Some q \<and> IsSelfGroup uni self (field q ''group'')))"
      using made [OF ok(2) nobody(1)] made [OF ok(3) nobody(2)] by blast
  next
    assume "OK (CheckGroup uni self a)"
    note ok = CheckGroup_OK [OF this]
    show "\<forall>j r. golookup t j = Some r \<and> IsSelfGroup uni self (field r ''name'') \<longrightarrow> golookup (write a i t) j = Some r"
      using kept [of "IsSelfGroup uni self"] ok(1) assms(3) by simp
    show "\<forall>j r. golookup (write a i t) j = Some r \<and> IsSelfGroup uni self (field r ''name'') \<longrightarrow>
       (\<exists>q. golookup t j = Some q \<and> IsSelfGroup uni self (field q ''name''))"
      using made [OF ok(2) nobody(2)] by blast
  }
qed

text \<open>A router that writes what it is told.\<close>

definition demo_row :: "UserAction \<Rightarrow> Reply option \<Rightarrow> Reply" where
  "demo_row a q = map (\<lambda>k. (k, if has a k then field (Values a) k else row_before q k))
     (gokeys (Values a) @ (case q of None \<Rightarrow> [] | Some r \<Rightarrow> gokeys r))"

definition demo_write :: "UserAction \<Rightarrow> string \<Rightarrow> (string, Reply) gomap \<Rightarrow> (string, Reply) gomap" where
  "demo_write a i t = (if Verb a = ''remove'' then godelete i t else goput i (demo_row a (golookup t i)) t)"

lemma field_map: "field (map (\<lambda>k. (k, f k)) ks) k = (if k \<in> set ks then f k else [])"
  by (induction ks) (auto simp: field_def)

lemma field_none: "k \<notin> set (gokeys r) \<Longrightarrow> field r k = []"
  unfolding field_def by (metis map_of_eq_None_iff option.case(1) list.set_map)

lemma field_demo_row: "field (demo_row a q) k = (if has a k then field (Values a) k else row_before q k)"
proof (cases "k \<in> set (gokeys (Values a) @ (case q of None \<Rightarrow> [] | Some r \<Rightarrow> gokeys r))")
  case True
  then show ?thesis unfolding demo_row_def field_map by (simp only: if_True)
next
  case False
  then have "field (Values a) k = []" "row_before q k = []"
    using field_none [of k] by (auto simp: row_before_def split: option.split)
  with False show ?thesis unfolding demo_row_def field_map by (simp only: if_False if_cancel)
qed

lemma demo_write_told: "writes_as_told demo_write"
  unfolding writes_as_told_def demo_write_def
  by (auto simp: gomap_simps field_demo_row simp del: map_of_eq_Some_iff split: if_splits)

theorem self_guards_protect_witness:
  "golookup (demo_write \<lparr>Verb = ''set'', Target = Some [(''name'', ''bob'')], Values = [(''group'', ''read'')], ValueSet = None\<rparr> ''*2''
     [(''*1'', [(''name'', ''md''), (''group'', ''api'')]), (''*2'', [(''name'', ''bob'')])]) ''*1'' = Some [(''name'', ''md''), (''group'', ''api'')] \<and>
   golookup (demo_write \<lparr>Verb = ''remove'', Target = Some [(''name'', ''read'')], Values = [], ValueSet = None\<rparr> ''*4''
     [(''*3'', [(''name'', ''API''), (''policy'', ''api,write'')]), (''*4'', [(''name'', ''read'')])]) ''*3'' =
     Some [(''name'', ''API''), (''policy'', ''api,write'')]"
proof
  let ?self = "ResolveSelf (\<lambda>s. s) [] [[(''name'', ''md''), (''group'', ''api'')]] [''MD '', ''md'']"
  note guards = self_guards_protect [OF demo_write_told refl, of _ _ _ "\<lambda>s. s" "[]" "[[(''name'', ''md''), (''group'', ''api'')]]" "[''MD '', ''md'']"]
  let ?a = "\<lparr>Verb = ''set'', Target = Some [(''name'', ''bob'')], Values = [(''group'', ''read'')], ValueSet = None\<rparr> :: UserAction"
  let ?t = "[(''*1'', [(''name'', ''md''), (''group'', ''api'')]), (''*2'', [(''name'', ''bob'')])] :: (string, Reply) gomap"
  have "OK (CheckUser (\<lambda>s. s) ?self ?a)" by code_simp
  moreover have "golookup ?t ''*1'' = Some [(''name'', ''md''), (''group'', ''api'')] \<and> IsSelfUser (\<lambda>s. s) ?self (field [(''name'', ''md''), (''group'', ''api'')] ''name'')"
    by code_simp
  ultimately show "golookup (demo_write ?a ''*2'' ?t) ''*1'' = Some [(''name'', ''md''), (''group'', ''api'')]"
    using guards [of ?a ?t "''*2''"] by simp
  let ?b = "\<lparr>Verb = ''remove'', Target = Some [(''name'', ''read'')], Values = [], ValueSet = None\<rparr> :: UserAction"
  let ?u = "[(''*3'', [(''name'', ''API''), (''policy'', ''api,write'')]), (''*4'', [(''name'', ''read'')])] :: (string, Reply) gomap"
  have "OK (CheckGroup (\<lambda>s. s) (ResolveSelf (\<lambda>s. s) [] [[(''name'', ''md''), (''group'', ''API'')]] [''MD '', ''md'']) ?b)" by code_simp
  moreover have "golookup ?u ''*3'' = Some [(''name'', ''API''), (''policy'', ''api,write'')] \<and>
      IsSelfGroup (\<lambda>s. s) (ResolveSelf (\<lambda>s. s) [] [[(''name'', ''md''), (''group'', ''API'')]] [''MD '', ''md'']) (field [(''name'', ''API''), (''policy'', ''api,write'')] ''name'')"
    by code_simp
  ultimately show "golookup (demo_write ?b ''*4'' ?u) ''*3'' = Some [(''name'', ''API''), (''policy'', ''api,write'')]"
    using self_guards_protect [OF demo_write_told refl, of ?b ?u "''*4''" "\<lambda>s. s" "[]" "[[(''name'', ''md''), (''group'', ''API'')]]" "[''MD '', ''md'']"]
    by simp
qed

text \<open>Without a group of ours to protect, every write is refused.\<close>

lemma unresolved_refuses:
  "\<not> Resolved self \<Longrightarrow> \<not> OK (CheckUser uni self a) \<and> \<not> OK (CheckGroup uni self a) \<and> \<not> OK (CheckSession uni self target)"
  by (simp add: CheckUser_def CheckGroup_def CheckSession_def refuse_def)

section \<open>Edits to the interface we are reached on\<close>

text \<open>The router sees one of our logins at \<open>a\<close>.\<close>

definition seen_at :: "unicode \<Rightarrow> Reply list \<Rightarrow> string list \<Rightarrow> string \<Rightarrow> bool" where
  "seen_at uni activeRows usernames a \<longleftrightarrow>
     a \<noteq> [] \<and> (\<exists>r\<in>set activeRows. field r ''name'' \<noteq> [] \<and> a = TrimSpace (field r ''address'') \<and>
       (\<exists>u\<in>set usernames. selfKey uni u \<noteq> [] \<and> selfKey uni (field r ''name'') = selfKey uni u))"

lemma SelfAddresses_seen: "set (fst (SelfAddresses uni activeRows usernames)) = {a. seen_at uni activeRows usernames a}"
proof -
  let ?P = "\<lambda>r. \<not> (field r ''name'' = [] \<or> field r ''address'' = []) \<and> selfKey uni (field r ''name'') \<in> {k \<in> set (map (selfKey uni) usernames). k \<noteq> []}"
  have "fst (SelfAddresses uni activeRows usernames) =
      foldl (\<lambda>acc r. if ?P r then add_new acc (TrimSpace (field r ''address'')) else acc) [] activeRows"
    unfolding SelfAddresses_def Let_def fst_conv by (intro arg_cong [where f = "\<lambda>f. foldl f [] activeRows"]) (auto simp: fun_eq_iff)
  then have e: "set (fst (SelfAddresses uni activeRows usernames)) = {k. k \<noteq> [] \<and> (\<exists>r\<in>set activeRows. ?P r \<and> k = TrimSpace (field r ''address''))}"
    by (simp only: set_foldl_add_if) simp
  have "TrimSpace (field r ''address'') \<noteq> [] \<Longrightarrow> field r ''address'' \<noteq> []" for r by auto
  then show ?thesis unfolding e seen_at_def by fastforce
qed

lemma SelfAddresses_resolved: "snd (SelfAddresses uni activeRows usernames) \<longleftrightarrow> (\<exists>a. seen_at uni activeRows usernames a)"
proof -
  have "snd (SelfAddresses uni activeRows usernames) \<longleftrightarrow> set (fst (SelfAddresses uni activeRows usernames)) \<noteq> {}"
    by (simp add: SelfAddresses_def Let_def)
  then show ?thesis unfolding SelfAddresses_seen by blast
qed

lemma path_row_fold:
  "set (fst (foldl (path_row a ip) st rows)) = set (fst st) \<union> {n. n \<noteq> [] \<and> (\<exists>row\<in>set rows. row_holds ip row \<and> n \<in> set (row_names row))}"
proof (induction rows arbitrary: st)
  case (Cons row rows)
  have "set (fst (path_row a ip st row)) = set (fst st) \<union> {n. n \<noteq> [] \<and> row_holds ip row \<and> n \<in> set (row_names row)}"
    by (cases st) (auto simp: path_row_def set_foldl_add_new simp del: foldl_Cons)
  with Cons show ?case by auto
qed simp

lemma path_addr_fold:
  "set (fst (foldl (path_addr rows) st as)) = set (fst st) \<union>
     {n. n \<noteq> [] \<and> (\<exists>a\<in>set as. \<exists>ip. ParseAddr a = Some ip \<and> (\<exists>row\<in>set rows. row_holds ip row \<and> n \<in> set (row_names row)))}"
proof (induction as arbitrary: st)
  case (Cons a as)
  have "set (fst (path_addr rows st a)) = set (fst st) \<union>
      {n. n \<noteq> [] \<and> (\<exists>ip. ParseAddr a = Some ip \<and> (\<exists>row\<in>set rows. row_holds ip row \<and> n \<in> set (row_names row)))}"
    by (cases "ParseAddr a") (auto simp: path_addr_def path_row_fold)
  with Cons show ?case by auto
qed simp

text \<open>The interfaces one of our addresses is behind.\<close>

definition reached_on :: "unicode \<Rightarrow> Reply list \<Rightarrow> Reply list \<Rightarrow> string list \<Rightarrow> string \<Rightarrow> bool" where
  "reached_on uni activeRows addressRows usernames n \<longleftrightarrow>
     n \<noteq> [] \<and> (\<exists>a ip. seen_at uni activeRows usernames a \<and> ParseAddr a = Some ip \<and>
       (\<exists>row\<in>set addressRows. row_holds ip row \<and> n \<in> set (row_names row)))"

lemma management_path_exact:
  fixes uni act rows us
  defines "p \<equiv> ResolveManagementInterfaces uni act rows us"
  shows "set (Interfaces p) = {n. reached_on uni act rows us n}" "mp_Resolved p \<longleftrightarrow> (\<exists>n. reached_on uni act rows us n)"
proof -
  obtain addrs res where sa: "SelfAddresses uni act us = (addrs, res)" by (cases "SelfAddresses uni act us")
  have addrs: "set addrs = {a. seen_at uni act us a}" "res \<longleftrightarrow> (\<exists>a. seen_at uni act us a)"
    using SelfAddresses_seen [of uni act us] SelfAddresses_resolved [of uni act us] sa by simp_all
  obtain ifaces m where fo: "foldl (path_addr rows) ([], []) addrs = (ifaces, m)" by (cases "foldl (path_addr rows) ([], []) addrs")
  have ifs: "set ifaces = {n. reached_on uni act rows us n}"
    using path_addr_fold [of rows "([], [])" addrs] fo addrs(1) by (auto simp: reached_on_def)
  have none: "ifaces = [] \<longleftrightarrow> (\<nexists>n. reached_on uni act rows us n)" using ifs by (metis Collect_empty_eq set_empty)
  have nobody: "\<not> res \<Longrightarrow> \<not> reached_on uni act rows us n" for n using addrs(2) by (auto simp: reached_on_def)
  have p: "p = (if \<not> res then no_path else if ifaces = [] then \<lparr>mp_Resolved = False, Interfaces = [], Address = hd addrs, Addresses = addrs\<rparr>
      else \<lparr>mp_Resolved = True, Interfaces = ifaces, Address = m, Addresses = addrs\<rparr>)"
    by (simp add: p_def ResolveManagementInterfaces_def sa fo)
  show "set (Interfaces p) = {n. reached_on uni act rows us n}" using p nobody none ifs by (auto simp: no_path_def)
  show "mp_Resolved p \<longleftrightarrow> (\<exists>n. reached_on uni act rows us n)" using p nobody none by (auto simp: no_path_def)
qed

lemma found: "xs \<noteq> [] \<and> find P xs \<noteq> None \<longleftrightarrow> (\<exists>x\<in>set xs. P x)"
proof -
  have "find P xs \<noteq> None \<longleftrightarrow> (\<exists>x\<in>set xs. P x)" unfolding find_None_iff by blast
  then show ?thesis by auto
qed

lemma CheckInterfaceEdit_warns:
  "Warned (CheckInterfaceEdit uni p targets action) \<longleftrightarrow>
    mp_Resolved p \<and> (\<exists>t\<in>set targets. TrimSpace t \<noteq> [] \<and> (\<exists>n\<in>set (Interfaces p). ToLower uni (TrimSpace t) = ToLower uni n))"
proof -
  let ?want = "filter (\<lambda>t. t \<noteq> []) (map TrimSpace targets)" and ?hit = "\<lambda>t. ToLower uni t \<in> set (map (ToLower uni) (Interfaces p))"
  have "Warned (CheckInterfaceEdit uni p targets action) \<longleftrightarrow> mp_Resolved p \<and> ?want \<noteq> [] \<and> find ?hit ?want \<noteq> None"
    by (simp add: CheckInterfaceEdit_def Let_def split: option.split)
  also have "\<dots> \<longleftrightarrow> mp_Resolved p \<and> (\<exists>t\<in>set ?want. ?hit t)"
    using found [of ?want ?hit] by blast
  also have "\<dots> \<longleftrightarrow> mp_Resolved p \<and> (\<exists>t\<in>set targets. TrimSpace t \<noteq> [] \<and> (\<exists>n\<in>set (Interfaces p). ToLower uni (TrimSpace t) = ToLower uni n))"
    unfolding set_filter set_map by blast
  finally show ?thesis .
qed

text \<open>
  An edit of an interface warns exactly when the dashboard is reached on it: one of the row's interface names is, up
  to case and surrounding space, the interface or the underlying port of a configured prefix that holds an address the
  router sees one of our logins at. Whatever cannot be read or parsed makes the guard silent.
\<close>

theorem interface_edit_exact:
  "Warned (CheckInterfaceEdit uni (ResolveManagementInterfaces uni activeRows addressRows usernames) targets action) \<longleftrightarrow>
    (\<exists>t\<in>set targets. TrimSpace t \<noteq> [] \<and>
      (\<exists>n. reached_on uni activeRows addressRows usernames n \<and> ToLower uni (TrimSpace t) = ToLower uni n))"
  unfolding CheckInterfaceEdit_warns management_path_exact by blast

text \<open>
  An acknowledgement is the fingerprint of the warning it answers, so it is good for that edit only: two warnings with
  one fingerprint are about the same action, the same names, the same interfaces and the same address.
\<close>

lemma json_strings_inj: "json_strings xs = json_strings ys \<longleftrightarrow> xs = ys"
proof -
  have "inj JStr" by (simp add: inj_def)
  then show ?thesis by (auto simp: json_strings_def inj_map_eq_map)
qed

lemma clean_strings: "clean (json_strings xs) \<longleftrightarrow> (\<forall>x\<in>set xs. valid_utf8 x)"
  by (simp add: json_strings_def)

lemma fingerprint_inj:
  assumes "fingerprint action ts p = fingerprint action' ts' p'"
    and "\<forall>s\<in>{action, Address p} \<union> set ts \<union> set (Interfaces p). valid_utf8 s"
    and "\<forall>s\<in>{action', Address p'} \<union> set ts' \<union> set (Interfaces p'). valid_utf8 s"
  shows "action = action' \<and> mset ts = mset ts' \<and> mset (Interfaces p) = mset (Interfaces p') \<and> Address p = Address p'"
proof -
  have "JArr [JStr action, json_strings (sort ts), json_strings (sort (Interfaces p)), JStr (Address p)] =
      JArr [JStr action', json_strings (sort ts'), json_strings (sort (Interfaces p')), JStr (Address p')]"
    using assms by (intro Marshal_inj) (simp_all add: clean_strings fingerprint_def)
  then have "action = action'" "sort ts = sort ts'" "sort (Interfaces p) = sort (Interfaces p')" "Address p = Address p'"
    by (simp_all add: json_strings_inj)
  then show ?thesis by (metis mset_sort)
qed

end
