(* ===== verification/Path_Guard.thy ===== *)
theory Path_Guard
  imports Self_Guard
begin

text \<open>
  The guards of what carries the router's answers to the dashboard: static routes, IP addresses, routing rules, IPsec
  policies and peers, DHCP clients and routing tables (\<^verbatim>\<open>routeguard.go\<close>, \<^verbatim>\<open>addressguard.go\<close>, \<^verbatim>\<open>ruleguard.go\<close>,
  \<^verbatim>\<open>ipsecguard.go\<close>, \<^verbatim>\<open>dhcpclientguard.go\<close> and \<^verbatim>\<open>tableguard.go\<close> of \<^verbatim>\<open>internal/guard\<close>). Each judges one
  write from the row before it and after it, and from where the router sees the dashboard's logins.
\<close>

section \<open>What the guards share\<close>

text \<open>The first address, in order, at which one of the sides is met, and that side.\<close>

fun covered :: "('s \<Rightarrow> Addr \<Rightarrow> bool) \<Rightarrow> 's list \<Rightarrow> string list \<Rightarrow> ('s \<times> Addr) option" where
  "covered covers sides [] = None"
| "covered covers sides (a # as) =
     (case ParseAddr a of
        None \<Rightarrow> covered covers sides as
      | Some ip \<Rightarrow>
          (case find (\<lambda>s. covers s (Unmap ip)) sides of
             Some s \<Rightarrow> Some (s, Unmap ip)
           | None \<Rightarrow> covered covers sides as))"

lemma covered_iff: "covered covers sides as \<noteq> None \<longleftrightarrow> (\<exists>a\<in>set as. \<exists>ip. ParseAddr a = Some ip \<and> (\<exists>s\<in>set sides. covers s (Unmap ip)))"
proof (induction as)
  case (Cons a as)
  show ?case
  proof (cases "ParseAddr a")
    case (Some ip)
    have f: "find (\<lambda>s. covers s (Unmap ip)) sides = None \<longleftrightarrow> (\<forall>s\<in>set sides. \<not> covers s (Unmap ip))" by (auto simp: find_None_iff)
    then show ?thesis using Cons Some by (cases "find (\<lambda>s. covers s (Unmap ip)) sides") auto
  qed (use Cons in simp)
qed simp

text \<open>Every guard of this kind ends the same way: it warns when it cannot tell, or when one of our addresses is met.\<close>

locale address_guard =
  fixes warns :: "string list \<times> bool \<Rightarrow> bool" and matters :: bool and meets :: "Addr \<Rightarrow> bool"
  assumes judged: "warns (addrs, resolved) \<longleftrightarrow> matters \<and> (\<not> resolved \<or> (\<exists>a\<in>set addrs. \<exists>ip. ParseAddr a = Some ip \<and> meets (Unmap ip)))"
begin

lemma exact:
  "warns (SelfAddresses uni active us) \<longleftrightarrow> matters \<and>
    ((\<nexists>a. seen_at uni active us a) \<or> (\<exists>a ip. seen_at uni active us a \<and> ParseAddr a = Some ip \<and> meets (Unmap ip)))"
proof -
  obtain addrs res where sa: "SelfAddresses uni active us = (addrs, res)" by (cases "SelfAddresses uni active us")
  have "set addrs = {a. seen_at uni active us a}" "res \<longleftrightarrow> (\<exists>a. seen_at uni active us a)"
    using SelfAddresses_seen [of uni active us] SelfAddresses_resolved [of uni active us] sa by simp_all
  then show ?thesis unfolding sa judged by blast
qed

end

definition actionWord :: "string \<Rightarrow> string" where
  "actionWord action = (if action = ''create'' \<or> action = ''delete'' then action else ''update'')"

definition word_or :: "string \<Rightarrow> string \<Rightarrow> string" where
  "word_or z d = (if TrimSpace d = [] then z else TrimSpace d)"

text \<open>A destination that is empty or does not parse covers everything.\<close>

definition dst_covers :: "string \<Rightarrow> Addr \<Rightarrow> bool" where
  "dst_covers dst ip =
     (let d = TrimSpace dst
      in if d = [] then True
         else case ParsePrefix d of
                None \<Rightarrow> (case ParseAddr d of Some a \<Rightarrow> Unmap a = ip | None \<Rightarrow> True)
              | Some p \<Rightarrow> Contains (Masked p) ip)"

definition Prefix_String :: "Prefix \<Rightarrow> string" where
  "Prefix_String p = Addr_String (p_addr p) @ ''/'' @ Itoa (int (p_bits p))"

section \<open>Routing rules\<close>

record RuleChange =
  ru_Present :: bool
  ru_Disabled :: bool
  ru_Dst :: string
  ru_Src :: string
  ru_Mark :: string
  ru_Interface :: string
  ru_Action :: string
  ru_Table :: string

definition rule_same :: "RuleChange \<Rightarrow> RuleChange \<Rightarrow> bool" where
  "rule_same r o' \<longleftrightarrow> ru_Present r = ru_Present o' \<and> ru_Disabled r = ru_Disabled o' \<and>
     (\<forall>f\<in>{ru_Dst, ru_Src, ru_Mark, ru_Interface, ru_Action, ru_Table}. TrimSpace (f r) = TrimSpace (f o'))"

definition rule_steers :: "RuleChange \<Rightarrow> bool" where
  "rule_steers r =
     (if \<not> ru_Present r \<or> ru_Disabled r \<or> TrimSpace (ru_Mark r) \<noteq> [] \<or> TrimSpace (ru_Interface r) \<noteq> [] then False
      else let act = TrimSpace (ru_Action r)
           in if act = ''drop'' \<or> act = ''unreachable'' then True
              else if act = ''lookup'' \<or> act = ''lookup-only-in-table'' \<or> act = [] then TrimSpace (ru_Table r) \<noteq> ''main''
              else True)"

definition rule_covers :: "RuleChange \<Rightarrow> Addr \<Rightarrow> bool" where
  "rule_covers r ip = dst_covers (ru_Dst r) ip"

definition ruleDetail :: "RuleChange \<Rightarrow> string \<Rightarrow> string \<Rightarrow> (string \<times> json) list" where
  "ruleDetail r act addr =
     [(''destination'', JStr (word_or ''any destination'' (ru_Dst r))), (''ruleAction'', JStr (word_or ''lookup'' (ru_Action r))),
      (''table'', JStr (TrimSpace (ru_Table r))), (''action'', JStr act)] @ (if addr \<noteq> [] then [(''address'', JStr addr)] else [])"

definition ruleFingerprint :: "string \<Rightarrow> string \<Rightarrow> RuleChange list \<Rightarrow> string list \<Rightarrow> string" where
  "ruleFingerprint cd action sides addrs =
     Marshal (JArr [JStr cd, JStr action,
       JArr (map (\<lambda>r. JStr (go_join ''|'' [ru_Dst r, ru_Src r, ru_Action r, ru_Table r])) sides), json_strings (sort addrs)])"

definition CheckRuleEdit :: "unicode \<Rightarrow> Reply list \<Rightarrow> string list \<Rightarrow> string \<Rightarrow> RuleChange \<Rightarrow> RuleChange \<Rightarrow> Verdict" where
  "CheckRuleEdit uni activeRows usernames action before after =
     (if rule_same before after then silent
      else let sides = filter rule_steers [before, after]; act = actionWord action
           in if sides = [] then silent
              else case SelfAddresses uni activeRows usernames of
                (addrs, resolved) \<Rightarrow>
                  if \<not> resolved then warn ''rule-cutoff-unknown'' (ruleDetail (last sides) act []) (ruleFingerprint ''rule-cutoff-unknown'' act sides [])
                  else case covered rule_covers sides addrs of
                         Some (s, ip) \<Rightarrow> warn ''rule-cutoff'' (ruleDetail s act (Addr_String ip)) (ruleFingerprint ''rule-cutoff'' act sides addrs)
                       | None \<Rightarrow> silent)"

section \<open>Static routes\<close>

record RouteChange =
  ro_Present :: bool
  ro_Dst :: string
  ro_Gateway :: string
  ro_Distance :: string
  ro_Table :: string
  ro_Disabled :: bool

definition forwarding :: "RouteChange \<Rightarrow> bool" where
  "forwarding r \<longleftrightarrow> ro_Present r \<and> \<not> ro_Disabled r"

definition sameForwarding :: "RouteChange \<Rightarrow> RouteChange \<Rightarrow> bool" where
  "sameForwarding r o' \<longleftrightarrow> ro_Present r = ro_Present o' \<and> ro_Disabled r = ro_Disabled o' \<and>
     (\<forall>f\<in>{ro_Dst, ro_Gateway, ro_Distance, ro_Table}. TrimSpace (f r) = TrimSpace (f o'))"

definition route_dsts :: "RouteChange \<Rightarrow> RouteChange \<Rightarrow> Prefix list" where
  "route_dsts before after =
     List.map_filter (\<lambda>r. map_option Masked (ParsePrefix (TrimSpace (ro_Dst r)))) (filter forwarding [before, after])"

definition within :: "Prefix list \<Rightarrow> Addr \<Rightarrow> bool" where
  "within prefixes ip = list_ex (\<lambda>p. Contains p ip) prefixes"

definition prefixList :: "Prefix list \<Rightarrow> string" where
  "prefixList ps = go_join '', '' (map Prefix_String ps)"

definition routeFingerprint :: "string \<Rightarrow> string \<Rightarrow> Prefix list \<Rightarrow> string list \<Rightarrow> string" where
  "routeFingerprint cd action dsts addrs =
     Marshal (JArr [JStr cd, JStr action, JArr (map JStr (sort (map Prefix_String dsts))), json_strings (sort addrs)])"

definition connected_subnets :: "Reply list \<Rightarrow> Prefix list" where
  "connected_subnets addressRows = List.map_filter (\<lambda>row. map_option Masked (ParsePrefix (TrimSpace (field row ''address'')))) addressRows"

definition CheckRouteEdit ::
  "unicode \<Rightarrow> Reply list \<Rightarrow> Reply list \<Rightarrow> string list \<Rightarrow> string \<Rightarrow> RouteChange \<Rightarrow> RouteChange \<Rightarrow> Verdict" where
  "CheckRouteEdit uni activeRows addressRows usernames action before after =
     (if sameForwarding before after \<or> \<not> forwarding before \<and> \<not> forwarding after then silent
      else let dsts = route_dsts before after; act = actionWord action; connected = connected_subnets addressRows
           in if dsts = [] then silent
              else case SelfAddresses uni activeRows usernames of
                (addrs, resolved) \<Rightarrow>
                  if \<not> resolved then warn ''route-cutoff-unknown'' [(''destination'', JStr (prefixList dsts)), (''action'', JStr act)]
                    (routeFingerprint ''route-cutoff-unknown'' act dsts [])
                  else case covered (\<lambda>d ip. \<not> within connected ip \<and> Contains d ip) dsts addrs of
                         Some (d, ip) \<Rightarrow> warn ''route-cutoff''
                           [(''address'', JStr (Addr_String ip)), (''destination'', JStr (Prefix_String d)), (''action'', JStr act)]
                           (routeFingerprint ''route-cutoff'' act dsts addrs)
                       | None \<Rightarrow> silent)"

section \<open>IP addresses\<close>

record AddressChange =
  ad_Present :: bool
  ad_Address :: string
  ad_Interface :: string
  ad_Disabled :: bool

definition live :: "AddressChange \<Rightarrow> bool" where
  "live a \<longleftrightarrow> ad_Present a \<and> \<not> ad_Disabled a"

definition sameEffect :: "AddressChange \<Rightarrow> AddressChange \<Rightarrow> bool" where
  "sameEffect a o' \<longleftrightarrow> ad_Present a = ad_Present o' \<and> ad_Disabled a = ad_Disabled o' \<and>
     TrimSpace (ad_Address a) = TrimSpace (ad_Address o') \<and> TrimSpace (ad_Interface a) = TrimSpace (ad_Interface o')"

definition addressFingerprint :: "string \<Rightarrow> string \<Rightarrow> string \<Rightarrow> string list \<Rightarrow> string" where
  "addressFingerprint cd action address addrs =
     Marshal (JArr [JStr cd, JStr action, JStr (TrimSpace address), json_strings (sort addrs)])"

definition CheckAddressEdit :: "unicode \<Rightarrow> Reply list \<Rightarrow> string list \<Rightarrow> string \<Rightarrow> AddressChange \<Rightarrow> AddressChange \<Rightarrow> Verdict" where
  "CheckAddressEdit uni activeRows usernames action before after =
     (if sameEffect before after \<or> \<not> live before then silent
      else case ParsePrefix (TrimSpace (ad_Address before)) of
             None \<Rightarrow> silent
           | Some prefix \<Rightarrow>
               let act = (if action = ''delete'' then ''delete'' else ''update'');
                   detail = [(''prefix'', JStr (ad_Address before)), (''interface'', JStr (ad_Interface before)), (''action'', JStr act)]
               in case SelfAddresses uni activeRows usernames of
                    (addrs, resolved) \<Rightarrow>
                      if \<not> resolved then warn ''address-cutoff-unknown'' detail (addressFingerprint ''address-cutoff-unknown'' act (ad_Address before) [])
                      else case covered Contains [Masked prefix] addrs of
                             Some (_, ip) \<Rightarrow> warn ''address-cutoff'' ((''address'', JStr (Addr_String ip)) # detail)
                               (addressFingerprint ''address-cutoff'' act (ad_Address before) addrs)
                           | None \<Rightarrow> silent)"

section \<open>IPsec policies and peers\<close>

record IPsecPolicy =
  ip_Present :: bool
  ip_Disabled :: bool
  ip_Template :: bool
  ip_Dst :: string
  ip_Protocol :: string
  ip_Action :: string
  ip_Peer :: string

definition IPsecPolicyOf :: "Reply \<Rightarrow> IPsecPolicy" where
  "IPsecPolicyOf r = \<lparr>ip_Present = True, ip_Disabled = (field r ''disabled'' = ''true''), ip_Template = (field r ''template'' = ''true''),
     ip_Dst = field r ''dst-address'', ip_Protocol = field r ''protocol'', ip_Action = field r ''action'', ip_Peer = field r ''peer''\<rparr>"

definition policy_steers :: "IPsecPolicy \<Rightarrow> bool" where
  "policy_steers p =
     (if \<not> ip_Present p \<or> ip_Disabled p \<or> ip_Template p then False
      else if TrimSpace (ip_Protocol p) \<notin> {[], ''all'', ''tcp''} then False
      else TrimSpace (ip_Action p) \<noteq> ''none'')"

definition policy_covers :: "IPsecPolicy \<Rightarrow> Addr \<Rightarrow> bool" where
  "policy_covers p ip = dst_covers (ip_Dst p) ip"

definition policy_same :: "IPsecPolicy \<Rightarrow> IPsecPolicy \<Rightarrow> bool" where
  "policy_same p o' \<longleftrightarrow> ip_Present p = ip_Present o' \<and> ip_Disabled p = ip_Disabled o' \<and> ip_Template p = ip_Template o' \<and>
     (\<forall>f\<in>{ip_Dst, ip_Protocol, ip_Action, ip_Peer}. TrimSpace (f p) = TrimSpace (f o'))"

definition coveredAddr :: "IPsecPolicy \<Rightarrow> string list \<Rightarrow> string option" where
  "coveredAddr p addrs = map_option (\<lambda>(_, ip). Addr_String ip) (covered policy_covers [p] addrs)"

fun first_covered :: "IPsecPolicy list \<Rightarrow> string list \<Rightarrow> (IPsecPolicy \<times> string) option" where
  "first_covered [] addrs = None"
| "first_covered (p # ps) addrs = (case coveredAddr p addrs of Some ip \<Rightarrow> Some (p, ip) | None \<Rightarrow> first_covered ps addrs)"

definition ipsecFingerprint :: "string \<Rightarrow> string \<Rightarrow> IPsecPolicy list \<Rightarrow> string list \<Rightarrow> string" where
  "ipsecFingerprint cd action ps addrs =
     Marshal (JArr [JStr cd, JStr action,
       JArr (map (\<lambda>p. JStr (go_join ''|'' [ip_Dst p, ip_Protocol p, ip_Action p, ip_Peer p])) ps), json_strings (sort addrs)])"

definition policy_detail :: "IPsecPolicy \<Rightarrow> string \<Rightarrow> (string \<times> json) list" where
  "policy_detail p act =
     [(''destination'', JStr (word_or ''any destination'' (ip_Dst p))), (''ipsecAction'', JStr (word_or ''encrypt'' (ip_Action p))),
      (''action'', JStr act)]"

definition CheckIPsecPolicyEdit :: "unicode \<Rightarrow> Reply list \<Rightarrow> string list \<Rightarrow> string \<Rightarrow> IPsecPolicy \<Rightarrow> IPsecPolicy \<Rightarrow> Verdict" where
  "CheckIPsecPolicyEdit uni activeRows usernames action before after =
     (if policy_same before after then silent
      else let sides = filter policy_steers [before, after]; act = actionWord action
           in if sides = [] then silent
              else case SelfAddresses uni activeRows usernames of
                (addrs, resolved) \<Rightarrow>
                  if \<not> resolved then warn ''ipsec-cutoff-unknown'' (policy_detail (last sides) act) (ipsecFingerprint ''ipsec-cutoff-unknown'' act sides [])
                  else case first_covered sides addrs of
                         Some (s, ip) \<Rightarrow> warn ''ipsec-cutoff'' ((''address'', JStr ip) # policy_detail s act) (ipsecFingerprint ''ipsec-cutoff'' act sides addrs)
                       | None \<Rightarrow> silent)"

definition policies_through :: "Reply list \<Rightarrow> string \<Rightarrow> IPsecPolicy list" where
  "policies_through policies peer =
     filter (\<lambda>p. policy_steers p \<and> TrimSpace (ip_Action p) \<noteq> ''discard'' \<and> TrimSpace (ip_Peer p) = TrimSpace peer) (map IPsecPolicyOf policies)"

definition CheckIPsecPeerEdit :: "unicode \<Rightarrow> Reply list \<Rightarrow> string list \<Rightarrow> Reply list \<Rightarrow> string \<Rightarrow> string \<Rightarrow> bool \<Rightarrow> Verdict" where
  "CheckIPsecPeerEdit uni activeRows usernames policies action peer changed =
     (if \<not> changed \<or> TrimSpace peer = [] then silent
      else let through = policies_through policies peer; act = actionWord action
           in if through = [] then silent
              else case SelfAddresses uni activeRows usernames of
                (addrs, resolved) \<Rightarrow>
                  if \<not> resolved then warn ''ipsec-peer-cutoff-unknown'' [(''peer'', JStr peer), (''action'', JStr act)]
                    (ipsecFingerprint ''ipsec-peer-cutoff-unknown'' act through [])
                  else case first_covered through addrs of
                         Some (p, ip) \<Rightarrow> warn ''ipsec-peer-cutoff''
                           [(''address'', JStr ip), (''peer'', JStr peer), (''destination'', JStr (word_or ''any destination'' (ip_Dst p))),
                            (''action'', JStr act)] (ipsecFingerprint ''ipsec-peer-cutoff'' act through addrs)
                       | None \<Rightarrow> silent)"

section \<open>DHCP clients\<close>

record DHCPClientChange =
  dc_Present :: bool
  dc_Disabled :: bool
  dc_Interface :: string
  dc_Address :: string

definition CheckDHCPClientEdit :: "string list \<Rightarrow> string \<Rightarrow> DHCPClientChange \<Rightarrow> DHCPClientChange \<Rightarrow> Verdict" where
  "CheckDHCPClientEdit dialled action before after =
     (if \<not> dc_Present before \<or> dc_Disabled before \<or> TrimSpace (dc_Address before) = [] then silent
      else if dc_Present after \<and> \<not> dc_Disabled after \<and> TrimSpace (dc_Interface after) = TrimSpace (dc_Interface before) then silent
      else let held = takeWhile (\<lambda>c. c \<noteq> CHR ''/'') (TrimSpace (dc_Address before)); act = actionWord action
           in case ParseAddr held of
                None \<Rightarrow> silent
              | Some h \<Rightarrow>
                  if list_ex (\<lambda>d. case ParseAddr (TrimSpace d) of None \<Rightarrow> False | Some a \<Rightarrow> Unmap a = Unmap h) dialled
                  then warn ''dhcp-client-cutoff''
                    [(''address'', JStr (Addr_String h)), (''interface'', JStr (dc_Interface before)), (''action'', JStr act)]
                    (Marshal (JArr [JStr ''dhcp-client-cutoff'', JStr act, JStr (dc_Interface before), JStr (Addr_String h)]))
                  else silent)"

section \<open>Routing tables\<close>

record TableState =
  ts_Present :: bool
  ts_Disabled :: bool
  ts_FIB :: bool

record TableRule =
  tr_ID :: string
  tr_Table :: string
  tr_Disabled :: bool

definition table_change :: "string \<Rightarrow> TableState \<Rightarrow> TableState \<Rightarrow> string option" where
  "table_change action before after =
     (if \<not> ts_Present before then None
      else if action = ''delete'' \<or> \<not> ts_Present after then Some ''remove''
      else if \<not> ts_Disabled before \<and> ts_Disabled after then Some ''disable''
      else if ts_FIB before \<and> \<not> ts_FIB after then Some ''fib''
      else None)"

definition CheckTableChange :: "string \<Rightarrow> string \<Rightarrow> string \<Rightarrow> TableState \<Rightarrow> TableState \<Rightarrow> TableRule list \<Rightarrow> Verdict" where
  "CheckTableChange action name id' before after rules =
     (case table_change action before after of
        None \<Rightarrow> silent
      | Some change \<Rightarrow>
          let using' = map tr_ID (filter (\<lambda>r. let t = TrimSpace (tr_Table r)
                in \<not> (tr_Disabled r \<or> t = []) \<and> (t = name \<or> id' \<noteq> [] \<and> t = id')) rules)
          in if using' = [] then silent
             else warn ''table-in-use'' [(''table'', JStr name), (''change'', JStr change), (''rules'', JInt (int (length using')))]
               (Marshal (JArr [JStr ''table-in-use'', JStr change, JStr name, JArr (map JStr (sort using'))])))"

section \<open>When they warn\<close>

lemma Warned_case [simp]:
  "Warned (if b then x else y) \<longleftrightarrow> (if b then Warned x else Warned y)"
  "Warned (case h of None \<Rightarrow> silent | Some (s, ip) \<Rightarrow> warn cd (f s ip) fp) \<longleftrightarrow> h \<noteq> None"
  by (auto split: option.split)

lemma first_covered_iff: "first_covered ps as \<noteq> None \<longleftrightarrow> (\<exists>p\<in>set ps. covered policy_covers [p] as \<noteq> None)"
  by (induction ps) (auto simp: coveredAddr_def split: option.split)

lemma nonempty: "xs \<noteq> [] \<longleftrightarrow> (\<exists>x. x \<in> set xs)"
  by (cases xs) auto

definition rule_verdict :: "string \<Rightarrow> RuleChange \<Rightarrow> RuleChange \<Rightarrow> string list \<times> bool \<Rightarrow> bool" where
  "rule_verdict action before after sa \<longleftrightarrow>
     \<not> rule_same before after \<and> filter rule_steers [before, after] \<noteq> [] \<and>
     (\<not> snd sa \<or> covered rule_covers (filter rule_steers [before, after]) (fst sa) \<noteq> None)"

interpretation rules: address_guard "rule_verdict action before after"
    "\<not> rule_same before after \<and> (\<exists>s\<in>{before, after}. rule_steers s)"
    "\<lambda>ip. \<exists>s\<in>{before, after}. rule_steers s \<and> rule_covers s ip" for action before after
proof
  fix addrs :: "string list" and resolved
  let ?sides = "filter rule_steers [before, after]"
  have sides: "set ?sides = {s \<in> {before, after}. rule_steers s}" by auto
  have ne: "?sides \<noteq> [] \<longleftrightarrow> (\<exists>s\<in>{before, after}. rule_steers s)" unfolding nonempty sides by blast
  have cov: "covered rule_covers ?sides addrs \<noteq> None \<longleftrightarrow>
      (\<exists>a\<in>set addrs. \<exists>ip. ParseAddr a = Some ip \<and> (\<exists>s\<in>{before, after}. rule_steers s \<and> rule_covers s (Unmap ip)))"
    unfolding covered_iff sides by blast
  show "rule_verdict action before after (addrs, resolved) \<longleftrightarrow>
      (\<not> rule_same before after \<and> (\<exists>s\<in>{before, after}. rule_steers s)) \<and>
      (\<not> resolved \<or> (\<exists>a\<in>set addrs. \<exists>ip. ParseAddr a = Some ip \<and> (\<exists>s\<in>{before, after}. rule_steers s \<and> rule_covers s (Unmap ip))))"
    unfolding rule_verdict_def fst_conv snd_conv cov ne by blast
qed

lemma CheckRuleEdit_verdict:
  "Warned (CheckRuleEdit uni active us action before after) \<longleftrightarrow> rule_verdict action before after (SelfAddresses uni active us)"
  by (cases "SelfAddresses uni active us") (simp add: CheckRuleEdit_def rule_verdict_def Let_def del: filter.simps)

definition route_verdict :: "Reply list \<Rightarrow> RouteChange \<Rightarrow> RouteChange \<Rightarrow> string list \<times> bool \<Rightarrow> bool" where
  "route_verdict addressRows before after sa \<longleftrightarrow>
     \<not> (sameForwarding before after \<or> \<not> forwarding before \<and> \<not> forwarding after) \<and> route_dsts before after \<noteq> [] \<and>
     (\<not> snd sa \<or> covered (\<lambda>d ip. \<not> within (connected_subnets addressRows) ip \<and> Contains d ip) (route_dsts before after) (fst sa) \<noteq> None)"

definition routes_to :: "RouteChange \<Rightarrow> Prefix \<Rightarrow> bool" where
  "routes_to r d \<longleftrightarrow> forwarding r \<and> (\<exists>p. ParsePrefix (TrimSpace (ro_Dst r)) = Some p \<and> d = Masked p)"

lemma set_map_filter: "set (List.map_filter f xs) = {y. \<exists>x\<in>set xs. f x = Some y}"
  by (induction xs) (auto simp: List.map_filter_simps split: option.splits)

lemma set_route_dsts: "set (route_dsts before after) = {d. \<exists>r\<in>{before, after}. routes_to r d}"
  by (auto simp: route_dsts_def routes_to_def set_map_filter)

lemma within_iff: "within (connected_subnets rows) ip \<longleftrightarrow>
    (\<exists>row\<in>set rows. \<exists>p. ParsePrefix (TrimSpace (field row ''address'')) = Some p \<and> Contains (Masked p) ip)"
  by (auto simp: within_def connected_subnets_def list_ex_iff set_map_filter)

interpretation routes: address_guard "route_verdict addressRows before after"
    "\<not> sameForwarding before after \<and> (\<exists>r\<in>{before, after}. \<exists>d. routes_to r d)"
    "\<lambda>ip. \<not> within (connected_subnets addressRows) ip \<and> (\<exists>r\<in>{before, after}. \<exists>d. routes_to r d \<and> Contains d ip)"
    for addressRows before after
proof
  fix addrs :: "string list" and resolved
  have ne: "route_dsts before after \<noteq> [] \<longleftrightarrow> (\<exists>r\<in>{before, after}. \<exists>d. routes_to r d)" unfolding nonempty set_route_dsts by blast
  have fw: "routes_to r d \<Longrightarrow> forwarding r" for r d by (simp add: routes_to_def)
  have cov: "covered (\<lambda>d ip. \<not> within (connected_subnets addressRows) ip \<and> Contains d ip) (route_dsts before after) addrs \<noteq> None \<longleftrightarrow>
      (\<exists>a\<in>set addrs. \<exists>ip. ParseAddr a = Some ip \<and> \<not> within (connected_subnets addressRows) (Unmap ip) \<and>
        (\<exists>r\<in>{before, after}. \<exists>d. routes_to r d \<and> Contains d (Unmap ip)))"
    unfolding covered_iff set_route_dsts by blast
  show "route_verdict addressRows before after (addrs, resolved) \<longleftrightarrow>
      (\<not> sameForwarding before after \<and> (\<exists>r\<in>{before, after}. \<exists>d. routes_to r d)) \<and>
      (\<not> resolved \<or> (\<exists>a\<in>set addrs. \<exists>ip. ParseAddr a = Some ip \<and> \<not> within (connected_subnets addressRows) (Unmap ip) \<and>
        (\<exists>r\<in>{before, after}. \<exists>d. routes_to r d \<and> Contains d (Unmap ip))))"
    unfolding route_verdict_def fst_conv snd_conv cov ne using fw by blast
qed

lemma CheckRouteEdit_verdict:
  "Warned (CheckRouteEdit uni active rows us action before after) \<longleftrightarrow> route_verdict rows before after (SelfAddresses uni active us)"
  by (cases "SelfAddresses uni active us") (simp add: CheckRouteEdit_def route_verdict_def Let_def)

definition address_verdict :: "AddressChange \<Rightarrow> AddressChange \<Rightarrow> string list \<times> bool \<Rightarrow> bool" where
  "address_verdict before after sa \<longleftrightarrow>
     \<not> (sameEffect before after \<or> \<not> live before) \<and>
     (case ParsePrefix (TrimSpace (ad_Address before)) of
        None \<Rightarrow> False
      | Some p \<Rightarrow> \<not> snd sa \<or> covered Contains [Masked p] (fst sa) \<noteq> None)"

interpretation addresses: address_guard "address_verdict before after"
    "\<not> sameEffect before after \<and> live before \<and> ParsePrefix (TrimSpace (ad_Address before)) \<noteq> None"
    "\<lambda>ip. \<exists>p. ParsePrefix (TrimSpace (ad_Address before)) = Some p \<and> Contains (Masked p) ip" for before after
proof
  fix addrs :: "string list" and resolved
  have cov: "covered Contains [Masked p] addrs \<noteq> None \<longleftrightarrow> (\<exists>a\<in>set addrs. \<exists>ip. ParseAddr a = Some ip \<and> Contains (Masked p) (Unmap ip))" for p
    unfolding covered_iff by simp
  show "address_verdict before after (addrs, resolved) \<longleftrightarrow>
      (\<not> sameEffect before after \<and> live before \<and> ParsePrefix (TrimSpace (ad_Address before)) \<noteq> None) \<and>
      (\<not> resolved \<or> (\<exists>a\<in>set addrs. \<exists>ip. ParseAddr a = Some ip \<and>
        (\<exists>p. ParsePrefix (TrimSpace (ad_Address before)) = Some p \<and> Contains (Masked p) (Unmap ip))))"
    unfolding address_verdict_def fst_conv snd_conv cov by (cases "ParsePrefix (TrimSpace (ad_Address before))") auto
qed

lemma CheckAddressEdit_verdict:
  "Warned (CheckAddressEdit uni active us action before after) \<longleftrightarrow> address_verdict before after (SelfAddresses uni active us)"
  by (cases "SelfAddresses uni active us") (simp add: CheckAddressEdit_def address_verdict_def Let_def split: option.split)

definition policy_verdict :: "IPsecPolicy list \<Rightarrow> bool \<Rightarrow> string list \<times> bool \<Rightarrow> bool" where
  "policy_verdict sides changed sa \<longleftrightarrow> changed \<and> sides \<noteq> [] \<and> (\<not> snd sa \<or> first_covered sides (fst sa) \<noteq> None)"

interpretation policies: address_guard "policy_verdict sides changed" "changed \<and> sides \<noteq> []"
    "\<lambda>ip. \<exists>s\<in>set sides. policy_covers s ip" for sides changed
proof
  fix addrs :: "string list" and resolved
  have cov: "first_covered sides addrs \<noteq> None \<longleftrightarrow> (\<exists>a\<in>set addrs. \<exists>ip. ParseAddr a = Some ip \<and> (\<exists>s\<in>set sides. policy_covers s (Unmap ip)))"
    unfolding first_covered_iff covered_iff by auto
  show "policy_verdict sides changed (addrs, resolved) \<longleftrightarrow> (changed \<and> sides \<noteq> []) \<and>
      (\<not> resolved \<or> (\<exists>a\<in>set addrs. \<exists>ip. ParseAddr a = Some ip \<and> (\<exists>s\<in>set sides. policy_covers s (Unmap ip))))"
    unfolding policy_verdict_def fst_conv snd_conv cov by blast
qed

lemma CheckIPsecPolicyEdit_verdict:
  "Warned (CheckIPsecPolicyEdit uni active us action before after) \<longleftrightarrow>
    policy_verdict (filter policy_steers [before, after]) (\<not> policy_same before after) (SelfAddresses uni active us)"
  by (cases "SelfAddresses uni active us") (simp add: CheckIPsecPolicyEdit_def policy_verdict_def Let_def del: filter.simps)

lemma CheckIPsecPeerEdit_verdict:
  "Warned (CheckIPsecPeerEdit uni active us policies action peer changed) \<longleftrightarrow>
    policy_verdict (policies_through policies peer) (changed \<and> TrimSpace peer \<noteq> []) (SelfAddresses uni active us)"
  by (cases "SelfAddresses uni active us") (simp add: CheckIPsecPeerEdit_def policy_verdict_def Let_def)

lemma steering_sides: "(\<exists>s\<in>set (filter policy_steers [before, after]). P s) \<longleftrightarrow> (\<exists>s\<in>{before, after}. policy_steers s \<and> P s)"
  by auto

lemma steering_sides_nonempty: "filter policy_steers [before, after] \<noteq> [] \<longleftrightarrow> (\<exists>s\<in>{before, after}. policy_steers s)"
  unfolding nonempty by auto

text \<open>The logins of ours that the router sees, as the guards of this theory use them.\<close>

definition meets_us :: "unicode \<Rightarrow> Reply list \<Rightarrow> string list \<Rightarrow> (Addr \<Rightarrow> bool) \<Rightarrow> bool" where
  "meets_us uni active us P \<longleftrightarrow>
     (\<nexists>a. seen_at uni active us a) \<or> (\<exists>a ip. seen_at uni active us a \<and> ParseAddr a = Some ip \<and> P (Unmap ip))"

text \<open>
  C33. The four guards of the way back warn exactly when they should: the write changes something, one of its sides is in
  force and could carry or divert the router's answers, and that side meets an address the router sees one of our logins
  at, or it sees none. For a route, an address on a directly connected subnet does not count; for an IP address, only
  the side before the change does.
\<close>

theorem path_guards_exact:
  "(Warned (CheckRuleEdit uni active us action rule rule') \<longleftrightarrow>
     \<not> rule_same rule rule' \<and> (\<exists>s\<in>{rule, rule'}. rule_steers s) \<and>
     meets_us uni active us (\<lambda>ip. \<exists>s\<in>{rule, rule'}. rule_steers s \<and> dst_covers (ru_Dst s) ip)) \<and>
   (Warned (CheckRouteEdit uni active rows us action route route') \<longleftrightarrow>
     \<not> sameForwarding route route' \<and> (\<exists>r\<in>{route, route'}. \<exists>d. routes_to r d) \<and>
     meets_us uni active us (\<lambda>ip. (\<exists>r\<in>{route, route'}. \<exists>d. routes_to r d \<and> Contains d ip) \<and>
       \<not> (\<exists>row\<in>set rows. \<exists>p. ParsePrefix (TrimSpace (field row ''address'')) = Some p \<and> Contains (Masked p) ip))) \<and>
   (Warned (CheckAddressEdit uni active us action addr addr') \<longleftrightarrow>
     \<not> sameEffect addr addr' \<and> live addr \<and> ParsePrefix (TrimSpace (ad_Address addr)) \<noteq> None \<and>
     meets_us uni active us (\<lambda>ip. \<exists>p. ParsePrefix (TrimSpace (ad_Address addr)) = Some p \<and> Contains (Masked p) ip)) \<and>
   (Warned (CheckIPsecPolicyEdit uni active us action pol pol') \<longleftrightarrow>
     \<not> policy_same pol pol' \<and> (\<exists>s\<in>{pol, pol'}. policy_steers s) \<and>
     meets_us uni active us (\<lambda>ip. \<exists>s\<in>{pol, pol'}. policy_steers s \<and> dst_covers (ip_Dst s) ip))"
  unfolding CheckRuleEdit_verdict rules.exact CheckRouteEdit_verdict routes.exact within_iff CheckAddressEdit_verdict addresses.exact
    CheckIPsecPolicyEdit_verdict policies.exact steering_sides steering_sides_nonempty meets_us_def rule_covers_def policy_covers_def
  by (intro conjI) blast+

text \<open>A change that moves nothing is silent for all of them.\<close>

lemma unchanged_silent:
  "CheckRuleEdit uni active us action r r = silent" "CheckRouteEdit uni active rows us action f f = silent"
  "CheckAddressEdit uni active us action a a = silent" "CheckIPsecPolicyEdit uni active us action p p = silent"
  by (simp_all add: CheckRuleEdit_def rule_same_def CheckRouteEdit_def sameForwarding_def CheckAddressEdit_def sameEffect_def
      CheckIPsecPolicyEdit_def policy_same_def)

text \<open>A DHCP client that loses an address we dial is warned about.\<close>

lemma dhcp_client_exact:
  "Warned (CheckDHCPClientEdit dialled action before after) \<longleftrightarrow>
    dc_Present before \<and> \<not> dc_Disabled before \<and>
    \<not> (dc_Present after \<and> \<not> dc_Disabled after \<and> TrimSpace (dc_Interface after) = TrimSpace (dc_Interface before)) \<and>
    (\<exists>h. ParseAddr (takeWhile (\<lambda>c. c \<noteq> CHR ''/'') (TrimSpace (dc_Address before))) = Some h \<and>
      (\<exists>d\<in>set dialled. \<exists>a. ParseAddr (TrimSpace d) = Some a \<and> Unmap a = Unmap h))"
proof -
  have "ParseAddr (takeWhile (\<lambda>c. c \<noteq> CHR ''/'') []) = None" by (simp add: ParseAddr_def)
  then show ?thesis by (auto simp: CheckDHCPClientEdit_def Let_def list_ex_iff split: option.splits)
qed

end
