(* ===== verification/Go_Float.thy ===== *)
theory Go_Float
  imports Go_Strings Complex_Main
begin

text \<open>
  Go's 64-bit floating point numbers as the rationals they are, and \<^verbatim>\<open>strconv.ParseFloat\<close>. A number is read exactly
  and then rounded to the nearest number the format has, ties to even; one that is too large is an error.
\<close>

datatype float64 = Fin rat | Infinite bool | NaN

section \<open>Rounding\<close>

function bit_length :: "int \<Rightarrow> int" where
  "bit_length n = (if n \<le> 0 then 0 else 1 + bit_length (n div 2))"
  by pat_completeness auto
termination
  by (relation "measure nat") auto

declare bit_length.simps [simp del]

text \<open>The exponent of the leading bit of a positive rational.\<close>

definition lead_exp :: "rat \<Rightarrow> int" where
  "lead_exp a =
     (case quotient_of a of (p, q) \<Rightarrow>
        let k = bit_length p - bit_length q
        in if a < 2 powi k then k - 1 else k)"

definition nearest_even :: "rat \<Rightarrow> int" where
  "nearest_even q =
     (let f = \<lfloor>q\<rfloor>; d = q - of_int f
      in if d < 1 / 2 then f else if 1 / 2 < d then f + 1 else if even f then f else f + 1)"

text \<open>A whole number of at most 53 bits is kept as it is.\<close>

definition round64 :: "rat \<Rightarrow> rat option" where
  "round64 x =
     (if x = of_int \<lfloor>x\<rfloor> \<and> \<bar>\<lfloor>x\<rfloor>\<bar> \<le> 2 ^ 53 then Some x
      else let unit = 2 powi (max (lead_exp \<bar>x\<bar>) (- 1022) - 52);
               r = of_int (nearest_even (\<bar>x\<bar> / unit)) * unit
           in if 2 ^ 1024 \<le> r then None else Some (if x < 0 then - r else r))"

lemma round64_int: "\<bar>i\<bar> \<le> 2 ^ 53 \<Longrightarrow> round64 (of_int i) = Some (of_int i)"
  by (simp add: round64_def)

section \<open>Reading\<close>

definition lower_ascii :: "string \<Rightarrow> string" where
  "lower_ascii s = map lower_char s"

definition special_float :: "string \<Rightarrow> float64 option" where
  "special_float s =
     (let neg = (s \<noteq> [] \<and> hd s = CHR ''-''); signed = (s \<noteq> [] \<and> (hd s = CHR ''-'' \<or> hd s = CHR ''+''));
          t = lower_ascii (if signed then tl s else s)
      in if t = ''inf'' \<or> t = ''infinity'' then Some (Infinite neg)
         else if t = ''nan'' \<and> \<not> signed then Some NaN
         else None)"

definition base_digit :: "nat \<Rightarrow> char \<Rightarrow> nat option" where
  "base_digit b c =
     (let n = of_char c :: nat
      in if 48 \<le> n \<and> n \<le> 57 then Some (n - 48)
         else if b = 16 \<and> 97 \<le> n \<and> n \<le> 102 then Some (n - 87)
         else if b = 16 \<and> 65 \<le> n \<and> n \<le> 70 then Some (n - 55)
         else None)"

text \<open>
  The digits of the mantissa: its value, how many of them stand after the point, whether there was any, and the rest of
  the text. An underscore is passed over here and judged by \<open>underscores_ok\<close>.
\<close>

fun mantissa :: "nat \<Rightarrow> string \<Rightarrow> nat \<Rightarrow> nat \<Rightarrow> bool \<Rightarrow> bool \<Rightarrow> nat \<times> nat \<times> bool \<times> string" where
  "mantissa b [] m k dot saw = (m, k, saw, [])"
| "mantissa b (c # s) m k dot saw =
     (if c = CHR ''_'' then mantissa b s m k dot saw
      else if c = CHR ''.'' \<and> \<not> dot then mantissa b s m k True saw
      else case base_digit b c of
             Some d \<Rightarrow> mantissa b s (b * m + d) (if dot then Suc k else k) dot True
           | None \<Rightarrow> (m, k, saw, c # s))"

fun exp_digits :: "string \<Rightarrow> nat \<Rightarrow> nat \<times> string" where
  "exp_digits [] e = (e, [])"
| "exp_digits (c # s) e =
     (if c = CHR ''_'' then exp_digits s e
      else if is_digit c then exp_digits s (if e < 10000 then 10 * e + digit_val c else e)
      else (e, c # s))"

text \<open>The exponent after its letter, with an optional sign and at least one digit first.\<close>

definition read_exp :: "string \<Rightarrow> (int \<times> string) option" where
  "read_exp s =
     (let neg = (s \<noteq> [] \<and> hd s = CHR ''-''); t = (if s \<noteq> [] \<and> (hd s = CHR ''-'' \<or> hd s = CHR ''+'') then tl s else s)
      in if t = [] \<or> \<not> is_digit (hd t) then None
         else case exp_digits t 0 of (e, rest) \<Rightarrow> Some (if neg then - int e else int e, rest))"

text \<open>Underscores stand between digits, or between a base prefix and a digit.\<close>

datatype last_seen = At_Start | Digit | Under | Other

fun underscores_loop :: "bool \<Rightarrow> string \<Rightarrow> last_seen \<Rightarrow> bool" where
  "underscores_loop hex [] l = (l \<noteq> Under)"
| "underscores_loop hex (c # s) l =
     (if is_digit c \<or> hex \<and> base_digit 16 c \<noteq> None then underscores_loop hex s Digit
      else if c = CHR ''_'' then l = Digit \<and> underscores_loop hex s Under
      else l \<noteq> Under \<and> underscores_loop hex s Other)"

definition underscores_ok :: "bool \<Rightarrow> string \<Rightarrow> bool" where
  "underscores_ok hex s = (if hex then underscores_loop True (drop 2 s) Digit else underscores_loop False s At_Start)"

definition ParseFloat :: "string \<Rightarrow> float64 option" where
  "ParseFloat s =
     (case special_float s of
        Some f \<Rightarrow> Some f
      | None \<Rightarrow>
          let neg = (s \<noteq> [] \<and> hd s = CHR ''-'');
              t = (if s \<noteq> [] \<and> (hd s = CHR ''-'' \<or> hd s = CHR ''+'') then tl s else s);
              hex = (2 < length t \<and> t ! 0 = CHR ''0'' \<and> lower_char (t ! 1) = CHR ''x'');
              b = (if hex then 16 else 10)
          in case mantissa b (if hex then drop 2 t else t) 0 0 False False of
               (m, k, saw, rest) \<Rightarrow>
                 if \<not> saw then None
                 else case (if rest \<noteq> [] \<and> lower_char (hd rest) = (if hex then CHR ''p'' else CHR ''e'')
                            then read_exp (tl rest) else if hex then None else Some (0, rest)) of
                        None \<Rightarrow> None
                      | Some (e, rest') \<Rightarrow>
                          if rest' \<noteq> [] \<or> (CHR ''_'' \<in> set t \<and> \<not> underscores_ok hex t) then None
                          else let x = (if hex then of_nat m * 2 powi (e - 4 * int k) else of_nat m * 10 powi (e - int k))
                               in case round64 (if neg then - x else x) of None \<Rightarrow> None | Some r \<Rightarrow> Some (Fin r))"

section \<open>Whole numbers\<close>

lemma base_digit_digit: "is_digit c \<Longrightarrow> base_digit b c = Some (digit_val c)"
  by (simp add: base_digit_def is_digit_of digit_val_def Let_def)

lemma digit_not: "is_digit c \<Longrightarrow> c \<noteq> CHR ''_'' \<and> c \<noteq> CHR ''.'' \<and> c \<noteq> CHR ''-'' \<and> c \<noteq> CHR ''+'' \<and> lower_char c = c"
  by (auto simp: is_digit_of lower_char_def less_eq_char_def)

lemma mantissa_digits:
  "list_all is_digit s \<Longrightarrow> mantissa b s m 0 False saw = (foldl (\<lambda>n c. b * n + digit_val c) m s, 0, saw \<or> s \<noteq> [], [])"
  by (induction s arbitrary: m saw) (simp_all add: base_digit_digit digit_not)

text \<open>A string of digits is read as the number it spells.\<close>

lemma ParseFloat_digits:
  assumes "list_all is_digit s" "s \<noteq> []" "digits_val s \<le> 2 ^ 53"
  shows "ParseFloat s = Some (Fin (of_nat (digits_val s)))"
proof -
  obtain c t where s: "s = c # t" "is_digit c" using assms(1,2) by (cases s) auto
  have us: "CHR ''_'' \<notin> set s" using assms(1) digit_not by (auto simp: list_all_iff)
  have low: "lower_ascii s = s" using assms(1) digit_not by (auto simp: lower_ascii_def list_all_iff intro!: map_idI)
  have "hd s \<noteq> CHR ''i'' \<and> hd s \<noteq> CHR ''n''" using s by (auto simp: is_digit_of)
  then have sp: "special_float s = None" using s digit_not [OF s(2)] low by (auto simp: special_float_def Let_def)
  have hex: "\<not> (2 < length s \<and> s ! 0 = CHR ''0'' \<and> lower_char (s ! 1) = CHR ''x'')"
  proof
    assume a: "2 < length s \<and> s ! 0 = CHR ''0'' \<and> lower_char (s ! 1) = CHR ''x''"
    then have "is_digit (s ! 1)" using assms(1) by (auto simp: list_all_length)
    with digit_not have "lower_char (s ! 1) = s ! 1" by blast
    with a \<open>is_digit (s ! 1)\<close> have "is_digit CHR ''x''" by simp
    then show False by (simp add: is_digit_of)
  qed
  have m: "mantissa 10 s 0 0 False False = (digits_val s, 0, True, [])"
    using mantissa_digits [OF assms(1), of 10 0 False] assms(2) by (simp add: digits_val_def)
  have "round64 (of_nat (digits_val s)) = Some (of_nat (digits_val s))"
    using round64_int [of "int (digits_val s)"] assms(3) by simp
  then show ?thesis using sp hex m us s digit_not [OF s(2)]
    by (simp only: ParseFloat_def Let_def option.case if_False HOL.simp_thms list.sel list.distinct prod.case power_int_0_right) simp
qed

section \<open>Arithmetic\<close>

text \<open>Differences and quotients; a zero has no sign here.\<close>

definition rounded :: "rat \<Rightarrow> float64" where
  "rounded q = (case round64 q of Some x \<Rightarrow> Fin x | None \<Rightarrow> Infinite (q < 0))"

fun fsub :: "float64 \<Rightarrow> float64 \<Rightarrow> float64" where
  "fsub (Fin a) (Fin b) = rounded (a - b)"
| "fsub (Fin a) (Infinite n) = Infinite (\<not> n)"
| "fsub (Infinite n) (Fin b) = Infinite n"
| "fsub (Infinite n) (Infinite m) = (if n = m then NaN else Infinite n)"
| "fsub NaN y = NaN"
| "fsub x NaN = NaN"

fun fdiv :: "float64 \<Rightarrow> float64 \<Rightarrow> float64" where
  "fdiv (Fin a) (Fin b) = (if b = 0 then (if a = 0 then NaN else Infinite (a < 0)) else rounded (a / b))"
| "fdiv (Fin a) (Infinite n) = Fin 0"
| "fdiv (Infinite n) (Fin b) = Infinite (n \<noteq> (b < 0))"
| "fdiv (Infinite n) (Infinite m) = NaN"
| "fdiv NaN y = NaN"
| "fdiv x NaN = NaN"

fun fneg :: "float64 \<Rightarrow> float64" where
  "fneg (Fin a) = Fin (- a)"
| "fneg (Infinite n) = Infinite (\<not> n)"
| "fneg NaN = NaN"

section \<open>Printing\<close>

text \<open>\<^verbatim>\<open>strconv.FormatFloat(x, 'g', -1, 64)\<close>: the fewest digits that read back as the number.\<close>

function int_digits :: "int \<Rightarrow> string" where
  "int_digits n = (if n < 10 then [digit_char (nat n)] else int_digits (n div 10) @ [digit_char (nat (n mod 10))])"
  by pat_completeness auto
termination
  by (relation "measure nat") auto

declare int_digits.simps [simp del]

definition lead10 :: "rat \<Rightarrow> int" where
  "lead10 x =
     (if 1 \<le> x then int (length (int_digits \<lfloor>x\<rfloor>)) - 1
      else if x = 1 / of_int \<lceil>1 / x\<rceil> \<and> \<lceil>1 / x\<rceil> = 1 then 0
      else - int (length (int_digits (\<lceil>1 / x\<rceil> - 1))))"

definition digit_try :: "rat \<Rightarrow> int \<Rightarrow> (int \<times> int) option" where
  "digit_try x n =
     (let e = lead10 x + 1 - n; unit = 10 powi e; m = \<lfloor>x / unit\<rfloor>;
          low = round64 (of_int m * unit) = Some x; high = round64 (of_int (m + 1) * unit) = Some x
      in if low \<and> (\<not> high \<or> x - of_int m * unit \<le> of_int (m + 1) * unit - x) then Some (m, e)
         else if high then Some (m + 1, e) else None)"

fun first_some :: "('a \<Rightarrow> 'b option) \<Rightarrow> 'a list \<Rightarrow> 'b option" where
  "first_some f [] = None"
| "first_some f (x # xs) = (case f x of Some y \<Rightarrow> Some y | None \<Rightarrow> first_some f xs)"

definition strip_zeros :: "string \<Rightarrow> string" where
  "strip_zeros s = rev (dropWhile (\<lambda>c. c = CHR ''0'') (rev s))"

definition shortest :: "rat \<Rightarrow> string \<times> int" where
  "shortest x =
     (case first_some (digit_try x) (map int [1..<18]) of
        Some (m, e) \<Rightarrow> (strip_zeros (int_digits m), int (length (int_digits m)) + e)
      | None \<Rightarrow> ([], 0))"

definition exponent_text :: "int \<Rightarrow> string" where
  "exponent_text e = ''e'' @ (if e < 0 then ''-'' else ''+'') @
     (let d = int_digits \<bar>e\<bar> in if length d < 2 then ''0'' @ d else d)"

definition FormatG_pos :: "rat \<Rightarrow> string" where
  "FormatG_pos x =
     (case shortest x of
        (ds, dp) \<Rightarrow>
          if dp - 1 < - 4 \<or> 6 \<le> dp - 1
          then take 1 ds @ (if tl ds = [] then [] else ''.'' @ tl ds) @ exponent_text (dp - 1)
          else if dp \<le> 0 then ''0.'' @ replicate (nat (- dp)) CHR ''0'' @ ds
          else let n = nat dp
               in take n ds @ replicate (n - length ds) CHR ''0'' @ (if n < length ds then ''.'' @ drop n ds else []))"

fun FormatG :: "float64 \<Rightarrow> string" where
  "FormatG NaN = ''NaN''"
| "FormatG (Infinite n) = (if n then ''-Inf'' else ''+Inf'')"
| "FormatG (Fin x) = (if x = 0 then ''0'' else if x < 0 then ''-'' @ FormatG_pos (- x) else FormatG_pos x)"

end
