(* ===== verification/Fw_Guard.thy ===== *)
theory Fw_Guard
  imports Self_Guard Go_Float
begin

text \<open>
  Whether a firewall rule could cut the dashboard off: \<^verbatim>\<open>internal/guard/fwguard.go\<close>, with its lenient reading of
  addresses, prefixes and ports.
\<close>

section \<open>Addresses and prefixes, read leniently\<close>

definition blockingActions :: "string list" where
  "blockingActions = [''drop'', ''reject'', ''tarpit'']"

definition toRouterChain :: "(string, string) gomap" where
  "toRouterChain = [(''/ip/firewall/filter'', ''input''), (''/ip/firewall/raw'', ''prerouting''),
     (''/ipv6/firewall/filter'', ''input''), (''/ipv6/firewall/raw'', ''prerouting'')]"

definition menuIsV6 :: "string \<Rightarrow> bool" where
  "menuIsV6 menu = has_prefix menu ''/ipv6/''"

definition addrIsV6 :: "Addr \<Rightarrow> bool" where
  "addrIsV6 a \<longleftrightarrow> \<not> Is4 a \<and> \<not> Is4In6 a"

text \<open>\<open>v4PartRe\<close> and \<open>parseIntAuto\<close>: hexadecimal, octal after a leading zero, or decimal.\<close>

definition based_val :: "nat \<Rightarrow> string \<Rightarrow> nat option" where
  "based_val b s =
     (let ds = map (base_digit b) s
      in if s = [] \<or> None \<in> set ds \<or> \<not> list_all (\<lambda>d. the d < b) ds then None
         else let n = foldl (\<lambda>n d. b * n + the d) 0 ds in if n < 2 ^ 64 then Some n else None)"

definition parseIntAuto :: "string \<Rightarrow> nat option" where
  "parseIntAuto s =
     (if 2 < length s \<and> s ! 0 = CHR ''0'' \<and> (s ! 1 = CHR ''x'' \<or> s ! 1 = CHR ''X'') then based_val 16 (drop 2 s)
      else if s = [] \<or> \<not> list_all is_digit s then None
      else if 1 < length s \<and> hd s = CHR ''0'' then based_val 8 (tl s)
      else based_val 10 s)"

text \<open>The last part of a compact address fills the octets that are left.\<close>

definition compact_v4 :: "nat list \<Rightarrow> nat option" where
  "compact_v4 vals =
     (let n = length vals
      in if n = 1 then (if vals ! 0 > 0xFFFFFFFF then None else Some (vals ! 0))
         else if n \<in> {2, 3, 4} then
           (let lt = n - 1
            in if 2 ^ (8 * (4 - lt)) \<le> vals ! lt \<or> list_ex (\<lambda>v. 255 < v) (butlast vals) then None
               else Some (vals ! lt + sum_list (map (\<lambda>i. vals ! i * 2 ^ (8 * (3 - i))) [0..<lt])))
         else None)"

definition parseAddrLenient :: "string \<Rightarrow> Addr option" where
  "parseAddrLenient s0 =
     (let s = TrimSpace s0
      in if s = [] then None
         else case ParseAddr s of
                Some a \<Rightarrow> Some a
              | None \<Rightarrow>
                  if CHR '':'' \<in> set s then None
                  else let vals = map parseIntAuto (go_split CHR ''.'' s)
                       in if None \<in> set vals then None
                          else map_option (\<lambda>n. V4 (of_nat n)) (compact_v4 (map the vals)))"

definition ctxHasFamily :: "string list \<Rightarrow> bool \<Rightarrow> bool \<times> bool" where
  "ctxHasFamily addrs v6 =
     (let parsed = List.map_filter (\<lambda>s. parseAddrLenient (TrimSpace s)) addrs
      in if list_ex (\<lambda>a. addrIsV6 a = v6) parsed then (True, True) else (False, parsed \<noteq> []))"

text \<open>A leading integer, whatever follows it; one that does not fit saturates.\<close>

definition leadingInt :: "string \<Rightarrow> int option" where
  "leadingInt s =
     (let signed = (s \<noteq> [] \<and> (hd s = CHR ''+'' \<or> hd s = CHR ''-''));
          ds = takeWhile is_digit (if signed then tl s else s)
      in if ds = [] then None
         else case Atoi (if signed then hd s # ds else ds) of
                Some n \<Rightarrow> Some n
              | None \<Rightarrow> Some (if hd s = CHR ''-'' then - (2 ^ 30) else 2 ^ 30))"

definition parseCIDRLenient :: "string \<Rightarrow> (Addr \<times> int) option" where
  "parseCIDRLenient c =
     (case Cut CHR ''/'' c of
        (left, right, hasSlash) \<Rightarrow>
          (case parseAddrLenient left of
             None \<Rightarrow> None
           | Some addr \<Rightarrow>
               if \<not> hasSlash then Some (addr, int (BitLen addr))
               else case leadingInt (TrimSpace right) of
                      None \<Rightarrow> Some (addr, int (BitLen addr))
                    | Some n \<Rightarrow> Some (addr, n)))"

definition cidr_matches :: "Addr \<Rightarrow> string \<Rightarrow> bool" where
  "cidr_matches addr c0 =
     (let c = TrimSpace c0
      in if c = [] then False
         else case parseCIDRLenient c of
                None \<Rightarrow> False
              | Some (base, bits) \<Rightarrow>
                  if BitLen base \<noteq> BitLen addr then False
                  else if bits \<le> 0 then True
                  else if bits > int (BitLen base) then False
                  else if bits = int (BitLen base) then base = addr
                  else Contains (Masked \<lparr>p_addr = base, p_bits = nat bits\<rparr>) addr)"

definition inCIDRs :: "string \<Rightarrow> string list \<Rightarrow> bool" where
  "inCIDRs ip cidrs =
     (case parseAddrLenient (TrimSpace ip) of None \<Rightarrow> False | Some addr \<Rightarrow> list_ex (cidr_matches addr) cidrs)"

definition InCIDRs :: "string \<Rightarrow> string list \<Rightarrow> bool" where
  "InCIDRs ip cidrs = inCIDRs ip cidrs"

section \<open>What a rule could match\<close>

definition addrLike :: "string \<Rightarrow> bool" where
  "addrLike s \<longleftrightarrow> s \<noteq> [] \<and> list_all (\<lambda>c. base_digit 16 c \<noteq> None \<or> c = CHR '':'' \<or> c = CHR ''.'' \<or> c = CHR ''/'') s"

definition AddressCovers :: "string \<Rightarrow> string list \<Rightarrow> bool \<times> bool" where
  "AddressCovers spec addresses =
     (let s = TrimSpace spec; addrs = filter (\<lambda>a. a \<noteq> []) addresses
      in if s = [] then (True, True)
         else if hd s = CHR ''!'' \<or> CHR ''-'' \<in> set s then (False, False)
         else if addrs = [] then (False, False)
         else if list_ex (\<lambda>a. inCIDRs a [s]) addrs then (True, True)
         else (False, addrLike s))"

definition jsNumber :: "string \<Rightarrow> float64 option" where
  "jsNumber s = (let t = TrimSpace s in if t = [] then Some (Fin 0) else ParseFloat t)"

text \<open>Comparisons with a whole number; every one with a NaN is false.\<close>

fun at_least :: "int \<Rightarrow> float64 \<Rightarrow> bool" where
  "at_least p (Fin x) = (x \<le> of_int p)"
| "at_least p (Infinite neg) = neg"
| "at_least p NaN = False"

fun at_most :: "int \<Rightarrow> float64 \<Rightarrow> bool" where
  "at_most p (Fin x) = (of_int p \<le> x)"
| "at_most p (Infinite neg) = (\<not> neg)"
| "at_most p NaN = False"

definition port_part :: "int \<Rightarrow> string \<Rightarrow> bool" where
  "port_part port part =
     (let p = TrimSpace part
      in if p = [] then False
         else case Cut CHR ''-'' p of
                (lo, hi, ok) \<Rightarrow>
                  if ok then (case (jsNumber lo, jsNumber hi) of (Some l, Some h) \<Rightarrow> at_least port l \<and> at_most port h | _ \<Rightarrow> False)
                  else jsNumber p = Some (Fin (of_int port)))"

definition PortCovers :: "string \<Rightarrow> int \<Rightarrow> bool" where
  "PortCovers spec port = (let s = TrimSpace spec in if s = [] then True else list_ex (port_part port) (go_split CHR '','' s))"

record FWContext =
  cx_Resolved :: bool
  cx_Addresses :: "string list"
  cx_Interfaces :: "string list"
  APIPort :: int

record FWRule =
  Chain :: string
  Action :: string
  SrcAddress :: string
  DstAddress :: string
  Protocol :: string
  DstPort :: string
  InInterface :: string
  Disabled :: bool
  Unmodelled :: "string list"

definition negated :: "string \<Rightarrow> string \<times> bool" where
  "negated spec = (let s = TrimSpace spec in if has_prefix s ''!'' then (TrimSpace (tl s), True) else (s, False))"

definition protocol_matches :: "unicode \<Rightarrow> string \<Rightarrow> bool" where
  "protocol_matches uni spec =
     (case negated spec of (p, no) \<Rightarrow>
        let proto = ToLower uni p in if no then proto \<noteq> ''tcp'' else proto = [] \<or> proto = ''tcp'')"

definition port_matches :: "string \<Rightarrow> int \<Rightarrow> bool" where
  "port_matches spec port =
     (case negated spec of (p, no) \<Rightarrow> if no then p = [] \<or> \<not> PortCovers p port else PortCovers p port)"

definition interface_matches :: "unicode \<Rightarrow> string \<Rightarrow> string list \<Rightarrow> bool" where
  "interface_matches uni spec ifaces =
     (case negated spec of (p, no) \<Rightarrow>
        let inIf = ToLower uni p; met = list_ex (\<lambda>i. ToLower uni i = inIf) ifaces
        in if no then \<not> met else inIf = [] \<or> met)"

definition MatchesUs :: "unicode \<Rightarrow> FWRule \<Rightarrow> FWContext \<Rightarrow> bool" where
  "MatchesUs uni rule ctx =
     (if AddressCovers (SrcAddress rule) (cx_Addresses ctx) = (False, True) then False
      else if \<not> protocol_matches uni (Protocol rule) then False
      else if \<not> port_matches (DstPort rule) (APIPort ctx) then False
      else interface_matches uni (InInterface rule) (cx_Interfaces ctx))"

section \<open>The verdict\<close>

definition firstOrNil :: "string list \<Rightarrow> json" where
  "firstOrNil s = (if s = [] then JNull else JStr (hd s))"

definition fwFingerprint :: "string \<Rightarrow> string \<Rightarrow> FWRule \<Rightarrow> FWContext \<Rightarrow> string" where
  "fwFingerprint what menu rule ctx =
     Marshal (JArr ([JStr what, JStr menu, JStr (Chain rule), JStr (Action rule), JStr (SrcAddress rule), JStr (DstAddress rule),
         JStr (Protocol rule), JStr (DstPort rule), JStr (InInterface rule), JArr (map JStr (sort (cx_Addresses ctx))), JInt (APIPort ctx)] @
       (if Unmodelled rule \<noteq> [] then [JArr (map JStr (Unmodelled rule))] else [])))"

definition empty_rule :: FWRule where
  "empty_rule = \<lparr>Chain = [], Action = [], SrcAddress = [], DstAddress = [], Protocol = [], DstPort = [], InInterface = [],
     Disabled = False, Unmodelled = []\<rparr>"

definition judged_rule :: "FWRule \<Rightarrow> FWRule option \<Rightarrow> string \<Rightarrow> FWRule" where
  "judged_rule values before what =
     (if what = ''delete'' \<or> what = ''disable'' then (case before of Some b \<Rightarrow> b | None \<Rightarrow> empty_rule) else values)"

definition lockout_detail :: "string \<Rightarrow> string \<Rightarrow> string \<Rightarrow> string \<Rightarrow> FWRule \<Rightarrow> FWContext \<Rightarrow> (string \<times> json) list" where
  "lockout_detail kind chain act what rule ctx =
     [(''kind'', JStr kind), (''chain'', JStr chain), (''action'', JStr act), (''what'', JStr what), (''port'', JInt (APIPort ctx)),
      (''address'', firstOrNil (cx_Addresses ctx)), (''interface'', firstOrNil (cx_Interfaces ctx)),
      (''unmodelled'', JArr (map JStr (Unmodelled rule)))]"

definition CheckRule :: "unicode \<Rightarrow> FWContext \<Rightarrow> string \<Rightarrow> FWRule \<Rightarrow> FWRule option \<Rightarrow> string \<Rightarrow> Verdict" where
  "CheckRule uni ctx menu values before what =
     (if \<not> cx_Resolved ctx then silent
      else case golookup toRouterChain menu of
             None \<Rightarrow> silent
           | Some chain \<Rightarrow>
               if ctxHasFamily (cx_Addresses ctx) (menuIsV6 menu) = (False, True) then silent
               else let removing = (what = ''delete'' \<or> what = ''disable'');
                        rule = judged_rule values before what;
                        act = ToLower uni (Action rule);
                        beforeDisabled = (case before of Some b \<Rightarrow> Disabled b | None \<Rightarrow> False)
                    in if ToLower uni (Chain rule) \<noteq> chain then silent
                       else if \<not> MatchesUs uni rule ctx then silent
                       else if \<not> removing \<and> act \<in> set blockingActions \<and> \<not> (Disabled rule \<and> what \<noteq> ''enable'')
                       then warn ''self-lockout'' (lockout_detail ''block'' chain act what rule ctx) (fwFingerprint what menu rule ctx)
                       else if (removing \<or> what = ''move'') \<and> act = ''accept'' \<and> \<not> beforeDisabled
                       then warn ''self-lockout'' (lockout_detail ''accept-removed'' chain act what rule ctx) (fwFingerprint what menu rule ctx)
                       else silent)"

section \<open>What a rule does to our packets\<close>

text \<open>
  The matching RouterOS documents, on the clauses the guard models. A source clause that is no address and no prefix (a
  negation, a range, a name) is whatever \<open>other\<close> says it is.
\<close>

definition plain_cidr :: "string \<Rightarrow> (Addr \<times> nat) option" where
  "plain_cidr s =
     (if \<not> list_all graphic s then None
      else case go_split CHR ''/'' s of
             [h] \<Rightarrow> (case ParseAddr h of Some a \<Rightarrow> if has_zone a then None else Some (a, BitLen a) | None \<Rightarrow> None)
           | [h, b] \<Rightarrow> (case ParseAddr h of Some a \<Rightarrow> if has_zone a then None else map_option (Pair a) (bits_of b (BitLen a)) | None \<Rightarrow> None)
           | _ \<Rightarrow> None)"

definition source_meets :: "(string \<Rightarrow> Addr \<Rightarrow> bool) \<Rightarrow> string \<Rightarrow> Addr \<Rightarrow> bool" where
  "source_meets other spec a =
     (let s = TrimSpace spec
      in s = [] \<or> (case plain_cidr s of Some (b, n) \<Rightarrow> Contains \<lparr>p_addr = b, p_bits = n\<rparr> a | None \<Rightarrow> \<not> addrLike s \<and> other s a))"

text \<open>A port or a range of ports, and a list of them.\<close>

definition port_number :: "string \<Rightarrow> bool" where
  "port_number s \<longleftrightarrow> s \<noteq> [] \<and> list_all is_digit s \<and> int (digits_val s) \<le> 65535"

definition port_item :: "string \<Rightarrow> (nat \<times> nat) option" where
  "port_item s =
     (case go_split CHR ''-'' s of
        [n] \<Rightarrow> if port_number n then Some (digits_val n, digits_val n) else None
      | [lo, hi] \<Rightarrow> if port_number lo \<and> port_number hi then Some (digits_val lo, digits_val hi) else None
      | _ \<Rightarrow> None)"

definition ports_ok :: "string \<Rightarrow> bool" where
  "ports_ok s \<longleftrightarrow> s = [] \<or> list_all (\<lambda>p. port_item p \<noteq> None) (go_split CHR '','' s)"

definition ports_meet :: "string \<Rightarrow> int \<Rightarrow> bool" where
  "ports_meet s port \<longleftrightarrow> s = [] \<or>
     list_ex (\<lambda>p. case port_item p of None \<Rightarrow> False | Some (lo, hi) \<Rightarrow> int lo \<le> port \<and> port \<le> int hi) (go_split CHR '','' s)"

definition rule_meets :: "(string \<Rightarrow> Addr \<Rightarrow> bool) \<Rightarrow> unicode \<Rightarrow> FWRule \<Rightarrow> Addr \<Rightarrow> string \<Rightarrow> int \<Rightarrow> bool" where
  "rule_meets other uni rule src iface port \<longleftrightarrow>
     source_meets other (SrcAddress rule) src \<and>
     (case negated (Protocol rule) of (p, no) \<Rightarrow> p = [] \<and> \<not> no \<or> (ToLower uni p = ''tcp'') = (\<not> no)) \<and>
     (case negated (DstPort rule) of (p, no) \<Rightarrow> p = [] \<or> ports_meet p port = (\<not> no)) \<and>
     (case negated (InInterface rule) of (p, no) \<Rightarrow> p = [] \<or> (iface = p) = (\<not> no))"

subsection \<open>Sources\<close>

lemma digit_is_graphic: "is_digit c \<Longrightarrow> graphic c"
  by (auto simp: is_digit_of graphic_def less_eq_char_def of_char_def)

lemma parseAddrLenient_plain: "list_all graphic s \<Longrightarrow> ParseAddr s = Some a \<Longrightarrow> parseAddrLenient s = Some a"
  by (cases "s = []") (auto simp: parseAddrLenient_def TrimSpace_all ParseAddr_def Let_def)

lemma Atoi_digits:
  assumes "s \<noteq> []" "list_all is_digit s" "int64_ok (int (digits_val s))"
  shows "Atoi s = Some (int (digits_val s))"
proof -
  have "hd s \<noteq> CHR ''-''" "hd s \<noteq> CHR ''+''" using assms(1,2) digit_not [of "hd s"] by (auto simp: list_all_iff)
  with assms show ?thesis by (simp add: Atoi_def Let_def)
qed

lemma leadingInt_digits:
  assumes "s \<noteq> []" "list_all is_digit s" "int64_ok (int (digits_val s))"
  shows "leadingInt s = Some (int (digits_val s))"
proof -
  have "hd s \<noteq> CHR ''-''" "hd s \<noteq> CHR ''+''" using assms(1,2) digit_not [of "hd s"] by (auto simp: list_all_iff)
  moreover have "takeWhile is_digit s = s" using assms(2) by (simp add: takeWhile_eq_all_conv list_all_iff)
  ultimately show ?thesis using assms(1) Atoi_digits [OF assms] unfolding leadingInt_def Let_def by (simp del: takeWhile_eq_all_conv)
qed

lemma bits_of_Some: "bits_of s hi = Some n \<Longrightarrow> s \<noteq> [] \<and> list_all is_digit s \<and> n = digits_val s \<and> n \<le> hi"
  by (auto simp: bits_of_def split: if_splits)

lemma go_split_single: "go_split c s = [h] \<Longrightarrow> h = s \<and> c \<notin> set s"
  using go_join_split [of c s] go_split_pieces [of h c s] by auto

lemma go_split_pair: "go_split c s = [h, b] \<Longrightarrow> s = h @ c # b \<and> c \<notin> set h \<and> c \<notin> set b"
  using go_join_split [of c s] go_split_pieces [of h c s] go_split_pieces [of b c s] by auto

lemma Cut_none: "c \<notin> set s \<Longrightarrow> Cut c s = (s, [], False)"
proof -
  assume c: "c \<notin> set s"
  then have "dropWhile (\<lambda>d. d \<noteq> c) s = []" "takeWhile (\<lambda>d. d \<noteq> c) s = s" by (auto simp: dropWhile_eq_Nil_conv takeWhile_eq_all_conv)
  with c show ?thesis by (simp add: Cut_def del: takeWhile_eq_all_conv dropWhile_eq_Nil_conv)
qed

lemma Cut_at: "c \<notin> set h \<Longrightarrow> Cut c (h @ c # b) = (h, b, True)"
  by (auto simp: Cut_def takeWhile_append dropWhile_append takeWhile_eq_all_conv)

lemma BitLen_le: "BitLen a \<le> 128" "int64_ok (int (BitLen a))"
  by (cases a; simp add: int64_ok_def)+

lemma parseCIDRLenient_plain:
  assumes "plain_cidr s = Some (a, n)"
  shows "parseCIDRLenient s = Some (a, int n) \<and> \<not> has_zone a \<and> n \<le> BitLen a \<and> list_all graphic s"
proof -
  have g: "list_all graphic s" using assms by (auto simp: plain_cidr_def split: if_splits)
  consider h where "go_split CHR ''/'' s = [h]" | h b where "go_split CHR ''/'' s = [h, b]"
    using assms g by (auto simp: plain_cidr_def split: list.splits)
  then show ?thesis
  proof cases
    case (1 h)
    then have h: "h = s" "CHR ''/'' \<notin> set s" using go_split_single by blast+
    have p: "ParseAddr s = Some a" "\<not> has_zone a" "n = BitLen a"
      using assms g 1 h(1) by (auto simp: plain_cidr_def split: option.splits if_splits)
    then show ?thesis using g h Cut_none [OF h(2)] parseAddrLenient_plain [OF g p(1)] by (simp add: parseCIDRLenient_def)
  next
    case (2 h b)
    note sp = go_split_pair [OF 2]
    have p: "ParseAddr h = Some a" "\<not> has_zone a" "bits_of b (BitLen a) = Some n"
      using assms g 2 by (auto simp: plain_cidr_def split: option.splits if_splits)
    note b = bits_of_Some [OF p(3)]
    have "list_all graphic h" using g sp by (metis list_all_append)
    then have a: "parseAddrLenient h = Some a" using p(1) by (rule parseAddrLenient_plain)
    have "TrimSpace b = b" using b digit_is_graphic by (auto intro!: TrimSpace_all simp: list_all_iff)
    moreover have "int64_ok (int (digits_val b))" using b BitLen_le(1) [of a] by (simp add: int64_ok_def)
    ultimately have "leadingInt (TrimSpace b) = Some (int n)" using b leadingInt_digits by simp
    then show ?thesis using a g b p(2) sp Cut_at [of "CHR ''/''" h b] by (simp add: parseCIDRLenient_def)
  qed
qed

lemma drop_push_drop: "drop_bit k (push_bit k (drop_bit k v)) = drop_bit k (v :: 'a::len word)"
  by (rule bit_word_eqI) (auto simp: bit_simps dest: bit_imp_le_length)

lemma Contains_Masked: "Contains (Masked p) a = Contains p a"
  by (cases a; cases "p_addr p") (simp_all add: Masked_def drop_push_drop)

lemma Contains_full: "Contains \<lparr>p_addr = b, p_bits = BitLen b\<rparr> a \<Longrightarrow> \<not> has_zone b \<Longrightarrow> b = a"
  by (cases a; cases b) simp_all

lemma Contains_BitLen: "Contains \<lparr>p_addr = b, p_bits = n\<rparr> a \<Longrightarrow> BitLen b = BitLen a"
  by (cases a; cases b) simp_all

lemma cidr_matches_plain:
  assumes "plain_cidr s = Some (b, n)" "Contains \<lparr>p_addr = b, p_bits = n\<rparr> a"
  shows "cidr_matches a s"
proof -
  note p = parseCIDRLenient_plain [OF assms(1)]
  have "s \<noteq> []" using assms(1) by (auto simp: plain_cidr_def ParseAddr_def)
  moreover have "n = BitLen b \<Longrightarrow> b = a" using Contains_full [of b a] assms(2) p by simp
  ultimately show ?thesis
    using p assms(2) Contains_BitLen [OF assms(2)] TrimSpace_all [of s] by (simp add: cidr_matches_def Let_def Contains_Masked)
qed

lemma AddressCovers_sound:
  assumes "source_meets other spec a" "x \<in> set addrs" "ParseAddr (TrimSpace x) = Some a"
  shows "AddressCovers spec addrs \<noteq> (False, True)"
proof (cases "plain_cidr (TrimSpace spec)")
  case None
  then show ?thesis using assms(1) by (auto simp: source_meets_def AddressCovers_def Let_def)
next
  case (Some bn)
  obtain b n where bn: "bn = (b, n)" by (cases bn)
  have x: "x \<noteq> []" using assms(3) by (auto simp: ParseAddr_def)
  show ?thesis
  proof (cases "TrimSpace spec = []")
    case False
    then have "Contains \<lparr>p_addr = b, p_bits = n\<rparr> a" using assms(1) Some bn by (simp add: source_meets_def)
    then have "cidr_matches a (TrimSpace spec)" using Some bn by (intro cidr_matches_plain) simp_all
    moreover have "TrimSpace x \<noteq> []" using assms(3) by (auto simp: ParseAddr_def)
    ultimately have "inCIDRs x [TrimSpace spec]" using assms(3) by (simp add: inCIDRs_def parseAddrLenient_def Let_def)
    then have "list_ex (\<lambda>a. inCIDRs a [TrimSpace spec]) (filter (\<lambda>a. a \<noteq> []) addrs)" using assms(2) x by (auto simp: list_ex_iff)
    then show ?thesis by (auto simp: AddressCovers_def Let_def)
  qed (simp add: AddressCovers_def)
qed

subsection \<open>Ports\<close>

lemma digits_graphic: "list_all is_digit s \<Longrightarrow> list_all graphic s"
  using digit_is_graphic by (auto simp: list_all_iff)

lemma TrimSpace_digits: "list_all is_digit s \<Longrightarrow> TrimSpace s = s"
  by (intro TrimSpace_all digits_graphic)

lemma jsNumber_port: "port_number s \<Longrightarrow> jsNumber s = Some (Fin (of_nat (digits_val s)))"
  using ParseFloat_digits [of s] by (simp add: port_number_def jsNumber_def Let_def TrimSpace_digits)

lemma digits_no_dash: "list_all is_digit s \<Longrightarrow> CHR ''-'' \<notin> set s"
  using digit_not by (auto simp: list_all_iff)

lemma dash_digits_graphic: "list_all is_digit a \<Longrightarrow> list_all is_digit b \<Longrightarrow> list_all graphic (a @ CHR ''-'' # b)"
  using digits_graphic by (simp add: graphic_def less_eq_char_def)

lemma port_compare:
  "at_least port (Fin (of_nat n)) \<longleftrightarrow> int n \<le> port" "at_most port (Fin (of_nat n)) \<longleftrightarrow> port \<le> int n"
  "Fin (of_nat n) = Fin (of_int port) \<longleftrightarrow> int n = port"
proof -
  have n: "(of_nat n :: rat) = of_int (int n)" by simp
  show "at_least port (Fin (of_nat n)) \<longleftrightarrow> int n \<le> port" "at_most port (Fin (of_nat n)) \<longleftrightarrow> port \<le> int n"
    "Fin (of_nat n) = Fin (of_int port) \<longleftrightarrow> int n = port"
    unfolding n at_least.simps at_most.simps float64.inject of_int_le_iff of_int_eq_iff by (rule refl)+
qed

lemma port_part_item:
  assumes "port_item s = Some (lo, hi)"
  shows "port_part port s \<longleftrightarrow> int lo \<le> port \<and> port \<le> int hi"
proof -
  consider n where "go_split CHR ''-'' s = [n]" | a b where "go_split CHR ''-'' s = [a, b]"
    using assms by (auto simp: port_item_def split: list.splits)
  then show ?thesis
  proof cases
    case (1 n)
    then have n: "n = s" using go_split_single by blast
    have p: "port_number s" "lo = digits_val s" "hi = digits_val s" using assms 1 n by (auto simp: port_item_def split: if_splits)
    then have "list_all is_digit s" "s \<noteq> []" by (simp_all add: port_number_def)
    then show ?thesis using p jsNumber_port [OF p(1)] Cut_none [OF digits_no_dash]
      by (auto simp: port_part_def Let_def TrimSpace_digits port_compare simp del: float64.inject at_least.simps at_most.simps)
  next
    case (2 a b)
    note sp = go_split_pair [OF 2]
    have p: "port_number a" "port_number b" "lo = digits_val a" "hi = digits_val b" using assms 2 by (auto simp: port_item_def split: if_splits)
    then have d: "list_all is_digit a" "list_all is_digit b" by (simp_all add: port_number_def)
    have "TrimSpace s = s" using sp dash_digits_graphic [OF d] by (metis TrimSpace_all)
    then show ?thesis using sp Cut_at [of "CHR ''-''" a b] p jsNumber_port [OF p(1)] jsNumber_port [OF p(2)]
      by (simp add: port_part_def Let_def port_compare del: at_least.simps at_most.simps)
  qed
qed

lemma PortCovers_exact:
  assumes "ports_ok s" "TrimSpace s = s"
  shows "PortCovers s port \<longleftrightarrow> ports_meet s port"
proof (cases "s = []")
  case False
  then have ok: "\<exists>lo hi. port_item p = Some (lo, hi)" if "p \<in> set (go_split CHR '','' s)" for p
    using assms(1) that by (auto simp: ports_ok_def list_all_iff)
  have "(\<exists>p\<in>set (go_split CHR '','' s). port_part port p) \<longleftrightarrow>
      (\<exists>p\<in>set (go_split CHR '','' s). case port_item p of None \<Rightarrow> False | Some (lo, hi) \<Rightarrow> int lo \<le> port \<and> port \<le> int hi)"
    using ok port_part_item by (intro bex_cong refl) fastforce
  then show ?thesis using False assms(2) by (simp add: PortCovers_def ports_meet_def Let_def list_ex_iff)
qed (simp add: PortCovers_def ports_meet_def)

lemma negated_trimmed: "TrimSpace (fst (negated s)) = fst (negated s)"
  by (simp add: negated_def Let_def)

text \<open>A negated in-interface clause names no interface of ours.\<close>

definition spares_none :: "unicode \<Rightarrow> FWContext \<Rightarrow> FWRule \<Rightarrow> bool" where
  "spares_none uni ctx rule \<longleftrightarrow>
     (case negated (InInterface rule) of (p, no) \<Rightarrow> no \<longrightarrow> (\<forall>i\<in>set (cx_Interfaces ctx). ToLower uni i \<noteq> ToLower uni p))"

lemma MatchesUs_sound:
  assumes "rule_meets other uni rule a iface (APIPort ctx)" "x \<in> set (cx_Addresses ctx)" "ParseAddr (TrimSpace x) = Some a"
    and "iface \<in> set (cx_Interfaces ctx)" "ports_ok (fst (negated (DstPort rule)))" "spares_none uni ctx rule"
  shows "MatchesUs uni rule ctx"
proof -
  obtain pr pn where pr: "negated (Protocol rule) = (pr, pn)" by (cases "negated (Protocol rule)")
  obtain po qn where po: "negated (DstPort rule) = (po, qn)" by (cases "negated (DstPort rule)")
  obtain ii ni where ii: "negated (InInterface rule) = (ii, ni)" by (cases "negated (InInterface rule)")
  have src: "AddressCovers (SrcAddress rule) (cx_Addresses ctx) \<noteq> (False, True)"
    using assms(1) unfolding rule_meets_def by (elim conjE) (rule AddressCovers_sound [OF _ assms(2,3)])
  have low: "ToLower uni [] = []" by (simp add: ToLower_def is_ascii_def)
  have "protocol_matches uni (Protocol rule)"
    using assms(1) low by (auto simp: rule_meets_def protocol_matches_def pr Let_def)
  moreover have "PortCovers po (APIPort ctx) \<longleftrightarrow> ports_meet po (APIPort ctx)"
    using PortCovers_exact [of po] assms(5) negated_trimmed [of "DstPort rule"] by (simp add: po)
  then have "port_matches (DstPort rule) (APIPort ctx)"
    using assms(1) by (auto simp: rule_meets_def port_matches_def po ports_meet_def)
  moreover have "interface_matches uni (InInterface rule) (cx_Interfaces ctx)"
    using assms(1,4,6) low by (auto simp: rule_meets_def interface_matches_def spares_none_def ii Let_def list_ex_iff)
  ultimately show ?thesis using src by (simp add: MatchesUs_def)
qed

lemma ctxHasFamily_sound:
  assumes "x \<in> set addrs" "ParseAddr (TrimSpace x) = Some a" "addrIsV6 a = v6"
  shows "ctxHasFamily addrs v6 = (True, True)"
proof -
  have "parseAddrLenient (TrimSpace x) = Some a"
    using assms(2) by (auto simp: parseAddrLenient_def Let_def ParseAddr_def)
  then have "a \<in> set (List.map_filter (\<lambda>s. parseAddrLenient (TrimSpace s)) addrs)"
    using assms(1) by (induction addrs) (auto simp: List.map_filter_simps split: option.splits)
  then show ?thesis using assms(3) by (auto simp: ctxHasFamily_def Let_def list_ex_iff)
qed

lemma two_warnings: "Warned (if a then warn c d f else if b then warn c' d' f' else silent) \<longleftrightarrow> a \<or> b"
  by (cases a; cases b) (simp_all only: if_True if_False Warned_simps simp_thms)

text \<open>
  C34. A change of the firewall that locks the dashboard out is not silent, where the guard can see us and within three
  bounds of its clause reading. The router's view of our session has been read (otherwise the guard is silent for every
  change), and it has the address, in the form the router reports it, and the interface on which a packet of ours to the API
  port arrives. Let the judged rule (the one there, for a removal; else the one to be) be in the chain that sees traffic
  to the router, in a menu of the address's family, and meet that packet. Then a blocking rule that is made, changed,
  switched on or moved is warned about, and so is the removal, the switching off or the move of an accepting one. The
  bounds: the port list is one RouterOS holds; a negated in-interface names no interface of ours at all; and a source
  prefix is compared with the address as reported, so an IPv4 address reported inside IPv6 meets no IPv4 prefix. What
  happens beyond the last two is shown below: such rules do lock us out without a warning.
\<close>

theorem lockout_warned:
  assumes "cx_Resolved ctx" "x \<in> set (cx_Addresses ctx)" "ParseAddr (TrimSpace x) = Some a" "addrIsV6 a = menuIsV6 menu"
    and "iface \<in> set (cx_Interfaces ctx)"
    and "rule = judged_rule values before what" "golookup toRouterChain menu = Some (ToLower uni (Chain rule))"
    and "rule_meets other uni rule a iface (APIPort ctx)"
    and "ports_ok (fst (negated (DstPort rule)))" "spares_none uni ctx rule"
    and "what \<notin> {''delete'', ''disable''} \<and> ToLower uni (Action rule) \<in> {''drop'', ''reject'', ''tarpit''} \<and> (Disabled rule \<longrightarrow> what = ''enable'') \<or>
      what \<in> {''delete'', ''disable'', ''move''} \<and> ToLower uni (Action rule) = ''accept'' \<and> (\<forall>b. before = Some b \<longrightarrow> \<not> Disabled b)"
  shows "Warned (CheckRule uni ctx menu values before what)"
proof -
  have m: "MatchesUs uni rule ctx" using MatchesUs_sound [OF assms(8) assms(2,3,5,9,10)] .
  have f: "ctxHasFamily (cx_Addresses ctx) (menuIsV6 menu) \<noteq> (False, True)" using ctxHasFamily_sound [OF assms(2-4)] by simp
  have here: "(case before of Some b \<Rightarrow> Disabled b | None \<Rightarrow> False) \<longleftrightarrow> \<not> (\<forall>b. before = Some b \<longrightarrow> \<not> Disabled b)"
    by (cases before) simp_all
  have "Warned (CheckRule uni ctx menu values before what) \<longleftrightarrow>
      \<not> (what = ''delete'' \<or> what = ''disable'') \<and> ToLower uni (Action rule) \<in> set blockingActions \<and> \<not> (Disabled rule \<and> what \<noteq> ''enable'') \<or>
      ((what = ''delete'' \<or> what = ''disable'') \<or> what = ''move'') \<and> ToLower uni (Action rule) = ''accept'' \<and>
        \<not> (case before of Some b \<Rightarrow> Disabled b | None \<Rightarrow> False)"
    unfolding CheckRule_def Let_def assms(6) [symmetric] assms(7) option.case
    using assms(1) f m by (simp only: not_True_eq_False simp_thms if_True if_False two_warnings)
  then show ?thesis using assms(11) unfolding here blockingActions_def by auto
qed

definition demo_ctx :: FWContext where
  "demo_ctx = \<lparr>cx_Resolved = True, cx_Addresses = [''10.0.0.5''], cx_Interfaces = [''bridge'', ''ether2''], APIPort = 88\<rparr>"

definition demo_drop :: FWRule where
  "demo_drop = empty_rule\<lparr>Chain := ''input'', Action := ''drop'', SrcAddress := ''10.0.0.0/24'', Protocol := ''!udp'', DstPort := ''22,80-90'',
     InInterface := ''!ether9''\<rparr>"

theorem lockout_warned_witness:
  "Warned (CheckRule (\<lambda>s. s) demo_ctx ''/ip/firewall/filter'' demo_drop None ''create'')"
proof (rule lockout_warned [where x = "''10.0.0.5''" and a = "V4 0x0A000005" and iface = "''bridge''" and rule = demo_drop and other = "\<lambda>_ _. False"])
  show "rule_meets (\<lambda>_ _. False) (\<lambda>s. s) demo_drop (V4 0x0A000005) ''bridge'' (APIPort demo_ctx)" by code_simp
  show "ParseAddr (TrimSpace ''10.0.0.5'') = Some (V4 0x0A000005)" by code_simp
  show "ports_ok (fst (negated (DstPort demo_drop)))" by code_simp
  show "spares_none (\<lambda>s. s) demo_ctx demo_drop" by code_simp
  show "golookup toRouterChain ''/ip/firewall/filter'' = Some (ToLower (\<lambda>s. s) (Chain demo_drop))" by code_simp
  show "addrIsV6 (V4 0x0A000005) = menuIsV6 ''/ip/firewall/filter''" by code_simp
  show "''create'' \<notin> {''delete'', ''disable''} \<and> ToLower (\<lambda>s. s) (Action demo_drop) \<in> {''drop'', ''reject'', ''tarpit''} \<and>
      (Disabled demo_drop \<longrightarrow> ''create'' = ''enable'') \<or>
    ''create'' \<in> {''delete'', ''disable'', ''move''} \<and> ToLower (\<lambda>s. s) (Action demo_drop) = ''accept'' \<and>
      (\<forall>b. None = Some b \<longrightarrow> \<not> Disabled b)"
    by (rule disjI1) code_simp
qed (simp_all add: demo_ctx_def judged_rule_def)

text \<open>
  Two packets the guard does not foresee, so that the change is silent though it locks us out. The interface list holds a bridge and the port under it, and a negated clause
  that names the port meets the packets of the bridge, but the guard takes it for a rule that spares us. And an address
  reported as an IPv4 one inside IPv6 counts as IPv4 for the family, yet no IPv4 prefix holds it.
\<close>

lemma negated_interface_missed:
  "rule_meets (\<lambda>_ _. False) (\<lambda>s. s) (empty_rule\<lparr>Chain := ''input'', Action := ''drop'', InInterface := ''!ether2''\<rparr>) (V4 0x0A000005) ''bridge'' 88 \<and>
   CheckRule (\<lambda>s. s) demo_ctx ''/ip/firewall/filter'' (empty_rule\<lparr>Chain := ''input'', Action := ''drop'', InInterface := ''!ether2''\<rparr>) None ''create'' = silent"
  by (rule conjI; code_simp)

lemma mapped_address_missed:
  "CheckRule (\<lambda>s. s) (demo_ctx\<lparr>cx_Addresses := [''::ffff:10.0.0.5'']\<rparr>) ''/ip/firewall/filter'' demo_drop None ''create'' = silent \<and>
   Unmap (the (ParseAddr ''::ffff:10.0.0.5'')) = V4 0x0A000005"
  by (rule conjI; code_simp)

end
