(* ===== verification/List_Guard.thy ===== *)
theory List_Guard
  imports Fw_Guard
begin

text \<open>
  The guards that rest on the firewall's: a change of who is in a list (\<^verbatim>\<open>internal/guard/listguard.go\<close>), of the
  router's own services and certificates (\<^verbatim>\<open>serviceguard.go\<close>), the lease of an uplink (\<^verbatim>\<open>wanguard.go\<close>), and a
  file about to be made on the router (\<^verbatim>\<open>fileguard.go\<close>).
\<close>

section \<open>List membership\<close>

record ListMember =
  lm_Present :: bool
  lm_List :: string
  lm_Value :: string
  lm_Disabled :: bool

record ListRule =
  lr_ID :: string
  lr_Match :: string
  lr_Rule :: FWRule

text \<open>\<open>netip.Addr.Compare\<close>: by length, then by value, then by zone.\<close>

fun addr_key :: "Addr \<Rightarrow> nat \<times> nat \<times> string" where
  "addr_key (V4 w) = (32, unat w, [])"
| "addr_key (V6 w z) = (128, unat w, z)"

definition addr_le :: "Addr \<Rightarrow> Addr \<Rightarrow> bool" where
  "addr_le a b =
     (case (addr_key a, addr_key b) of
        ((l, n, z), (l', n', z')) \<Rightarrow> l < l' \<or> l = l' \<and> (n < n' \<or> n = n' \<and> z \<le> z'))"

definition in_range :: "Addr \<Rightarrow> Addr \<Rightarrow> string \<Rightarrow> bool" where
  "in_range a b x =
     (case ParseAddr (TrimSpace x) of
        None \<Rightarrow> False
      | Some ip0 \<Rightarrow> let ip = Unmap ip0 in BitLen ip = BitLen a \<and> addr_le a ip \<and> addr_le ip b)"

definition listAddressCovers :: "string \<Rightarrow> string list \<Rightarrow> bool" where
  "listAddressCovers spec addresses =
     (let s = TrimSpace spec
      in if s = [] then False
         else case Cut CHR ''-'' s of
                (lo, hi, ok) \<Rightarrow>
                  if ok then (case (ParseAddr (TrimSpace lo), ParseAddr (TrimSpace hi)) of
                                (Some a, Some b) \<Rightarrow> list_ex (in_range a b) addresses
                              | _ \<Rightarrow> False)
                  else AddressCovers s addresses = (True, True))"

definition isUs :: "unicode \<Rightarrow> FWContext \<Rightarrow> string \<Rightarrow> ListMember \<Rightarrow> bool" where
  "isUs uni ctx kind m =
     (if \<not> lm_Present m \<or> lm_Disabled m then False
      else if kind = ''interface''
      then let v = ToLower uni (TrimSpace (lm_Value m))
           in v \<noteq> [] \<and> list_ex (\<lambda>i. ToLower uni (TrimSpace i) = v) (cx_Interfaces ctx)
      else listAddressCovers (lm_Value m) (cx_Addresses ctx))"

definition list_probe :: "string \<Rightarrow> FWRule \<Rightarrow> FWRule" where
  "list_probe kind r = (if kind = ''interface'' then r\<lparr>InInterface := []\<rparr> else r\<lparr>SrcAddress := []\<rparr>)"

definition listFingerprint :: "string \<Rightarrow> string \<Rightarrow> string \<Rightarrow> string \<Rightarrow> string \<Rightarrow> string list \<Rightarrow> string list \<Rightarrow> string" where
  "listFingerprint kind action lst value rule addrs ifaces =
     Marshal (JArr [JStr ''list-cutoff'', JStr kind, JStr action, JStr lst, JStr (TrimSpace value), JStr rule,
       json_strings (sort addrs), json_strings (sort ifaces)])"

text \<open>The clause's list and whether it is negated, and what the rule does with a packet it matches.\<close>

definition match_list :: "ListRule \<Rightarrow> string \<times> bool" where
  "match_list r = (let s = TrimSpace (lr_Match r) in if has_prefix s ''!'' then (TrimSpace (tl s), True) else (s, False))"

definition list_act :: "unicode \<Rightarrow> ListRule \<Rightarrow> string" where
  "list_act uni r = ToLower uni (TrimSpace (Action (lr_Rule r)))"

definition list_rule_applies :: "unicode \<Rightarrow> FWContext \<Rightarrow> string \<Rightarrow> ListRule \<Rightarrow> bool" where
  "list_rule_applies uni ctx kind r \<longleftrightarrow>
     \<not> (Disabled (lr_Rule r) \<or> \<not> EqualFold (TrimSpace (Chain (lr_Rule r))) ''input'') \<and>
     MatchesUs uni (list_probe kind (lr_Rule r)) ctx"

text \<open>The list, value and move a rule turns on, if it does.\<close>

definition list_effect :: "unicode \<Rightarrow> string \<Rightarrow> string \<Rightarrow> ListMember \<Rightarrow> ListMember \<Rightarrow> ListRule \<Rightarrow> (string \<times> string \<times> string) option" where
  "list_effect uni leaves joins before after r =
     (case match_list r of (name, no) \<Rightarrow>
        let act = list_act uni r; accepts = (act = ''accept''); blocks = (act = ''drop'' \<or> act = ''reject'' \<or> act = ''tarpit'')
        in if name = [] \<or> \<not> accepts \<and> \<not> blocks then None
           else if name = leaves \<and> (\<not> no \<and> accepts \<or> no \<and> blocks) then Some (leaves, lm_Value before, ''leaves'')
           else if name = joins \<and> (\<not> no \<and> blocks \<or> no \<and> accepts) then Some (joins, lm_Value after, ''joins'')
           else None)"

fun list_loop :: "unicode \<Rightarrow> FWContext \<Rightarrow> string \<Rightarrow> string \<Rightarrow> string \<Rightarrow> string \<Rightarrow> ListMember \<Rightarrow> ListMember \<Rightarrow> ListRule list \<Rightarrow> Verdict" where
  "list_loop uni ctx kind action leaves joins before after [] = silent"
| "list_loop uni ctx kind action leaves joins before after (r # rs) =
     (if \<not> list_rule_applies uni ctx kind r then list_loop uni ctx kind action leaves joins before after rs
      else case list_effect uni leaves joins before after r of
             None \<Rightarrow> list_loop uni ctx kind action leaves joins before after rs
           | Some (lst, value, move) \<Rightarrow>
               warn ''list-cutoff''
                 [(''kind'', JStr kind), (''list'', JStr lst), (''value'', JStr value), (''action'', JStr action), (''move'', JStr move),
                  (''effect'', JStr (if list_act uni r = ''accept'' then ''loses-accept'' else ''starts-drop'')), (''rule'', JStr (lr_ID r)),
                  (''ruleMatch'', JStr (lr_Match r)), (''ruleAction'', JStr (list_act uni r))]
                 (listFingerprint kind action lst value (lr_ID r) (cx_Addresses ctx) (cx_Interfaces ctx)))"

definition CheckListMember ::
  "unicode \<Rightarrow> FWContext \<Rightarrow> string \<Rightarrow> ListRule list \<Rightarrow> string \<Rightarrow> ListMember \<Rightarrow> ListMember \<Rightarrow> Verdict" where
  "CheckListMember uni ctx kind rules action before after =
     (if \<not> cx_Resolved ctx then silent
      else let beforeUs = isUs uni ctx kind before; afterUs = isUs uni ctx kind after;
               sameList = (TrimSpace (lm_List after) = TrimSpace (lm_List before));
               leaves = (if beforeUs \<and> \<not> (afterUs \<and> sameList) then TrimSpace (lm_List before) else []);
               joins = (if afterUs \<and> \<not> (beforeUs \<and> sameList) then TrimSpace (lm_List after) else [])
           in if leaves = [] \<and> joins = [] then silent
              else list_loop uni ctx kind action leaves joins before after rules)"

record ListDef =
  ld_Present :: bool
  ld_Name :: string
  ld_Include :: string
  ld_Exclude :: string

definition list_change :: "ListDef \<Rightarrow> ListDef \<Rightarrow> string option" where
  "list_change before after =
     (if \<not> ld_Present after then Some ''delete''
      else if TrimSpace (ld_Name after) \<noteq> TrimSpace (ld_Name before) then Some ''rename''
      else if TrimSpace (ld_Include after) \<noteq> TrimSpace (ld_Include before) \<or> TrimSpace (ld_Exclude after) \<noteq> TrimSpace (ld_Exclude before)
      then Some ''redefine'' else None)"

definition names_list :: "unicode \<Rightarrow> string \<Rightarrow> ListRule \<Rightarrow> bool" where
  "names_list uni name r \<longleftrightarrow> fst (match_list r) = name \<and> list_act uni r \<in> {''accept'', ''drop'', ''reject'', ''tarpit''}"

definition CheckListDefinition :: "unicode \<Rightarrow> FWContext \<Rightarrow> ListRule list \<Rightarrow> string \<Rightarrow> ListDef \<Rightarrow> ListDef \<Rightarrow> Verdict" where
  "CheckListDefinition uni ctx rules action before after =
     (if \<not> cx_Resolved ctx \<or> \<not> ld_Present before then silent
      else case list_change before after of
             None \<Rightarrow> silent
           | Some change \<Rightarrow>
               let name = TrimSpace (ld_Name before)
               in case find (\<lambda>r. list_rule_applies uni ctx ''interface'' r \<and> names_list uni name r) rules of
                    None \<Rightarrow> silent
                  | Some r \<Rightarrow>
                      warn ''list-redefine''
                        [(''list'', JStr name), (''change'', JStr change), (''action'', JStr action), (''rule'', JStr (lr_ID r)),
                         (''ruleMatch'', JStr (lr_Match r)), (''ruleAction'', JStr (list_act uni r))]
                        (listFingerprint ''definition'' action name change (lr_ID r) (cx_Addresses ctx) (cx_Interfaces ctx)))"

section \<open>Which changes warn\<close>

text \<open>
  What the row says of our being in a list, before and after, and what that makes of a rule: whether its list clause
  matches us, and so whether the change takes an accept away or starts a drop.
\<close>

definition member_of :: "unicode \<Rightarrow> FWContext \<Rightarrow> string \<Rightarrow> ListMember \<Rightarrow> string \<Rightarrow> bool" where
  "member_of uni ctx kind m l \<longleftrightarrow> isUs uni ctx kind m \<and> TrimSpace (lm_List m) = l"

definition clause_matches :: "unicode \<Rightarrow> FWContext \<Rightarrow> string \<Rightarrow> ListMember \<Rightarrow> ListRule \<Rightarrow> bool" where
  "clause_matches uni ctx kind m r \<longleftrightarrow> member_of uni ctx kind m (fst (match_list r)) \<noteq> snd (match_list r)"

definition cuts_off :: "unicode \<Rightarrow> FWContext \<Rightarrow> string \<Rightarrow> ListMember \<Rightarrow> ListMember \<Rightarrow> ListRule \<Rightarrow> bool" where
  "cuts_off uni ctx kind before after r \<longleftrightarrow>
     list_act uni r = ''accept'' \<and> clause_matches uni ctx kind before r \<and> \<not> clause_matches uni ctx kind after r \<or>
     list_act uni r \<in> {''drop'', ''reject'', ''tarpit''} \<and> \<not> clause_matches uni ctx kind before r \<and> clause_matches uni ctx kind after r"

lemma list_loop_warns:
  "Warned (list_loop uni ctx kind action leaves joins before after rs) \<longleftrightarrow>
    (\<exists>r\<in>set rs. list_rule_applies uni ctx kind r \<and> list_effect uni leaves joins before after r \<noteq> None)"
  by (induction rs) (auto split: option.splits)

lemma guarded: "Warned (if \<not> a then silent else if b then silent else v) \<longleftrightarrow> a \<and> \<not> b \<and> Warned v"
  by simp

lemma list_effect_iff:
  fixes uni ctx kind before after
  defines "leaves \<equiv> if isUs uni ctx kind before \<and> \<not> (isUs uni ctx kind after \<and> TrimSpace (lm_List after) = TrimSpace (lm_List before))
      then TrimSpace (lm_List before) else []"
    and "joins \<equiv> if isUs uni ctx kind after \<and> \<not> (isUs uni ctx kind before \<and> TrimSpace (lm_List after) = TrimSpace (lm_List before))
      then TrimSpace (lm_List after) else []"
  shows "list_effect uni leaves joins before after r \<noteq> None \<longleftrightarrow> fst (match_list r) \<noteq> [] \<and> cuts_off uni ctx kind before after r"
proof -
  obtain name no where m: "match_list r = (name, no)" by (cases "match_list r")
  have l: "name = leaves \<longleftrightarrow> member_of uni ctx kind before name \<and> \<not> member_of uni ctx kind after name" if "name \<noteq> []"
    using that by (auto simp: leaves_def member_of_def)
  have j: "name = joins \<longleftrightarrow> member_of uni ctx kind after name \<and> \<not> member_of uni ctx kind before name" if "name \<noteq> []"
    using that by (auto simp: joins_def member_of_def)
  have act: "list_act uni r = ''accept'' \<Longrightarrow> list_act uni r \<notin> {''drop'', ''reject'', ''tarpit''}" by simp
  show ?thesis
  proof (cases "name = []")
    case True
    then show ?thesis by (simp add: list_effect_def m Let_def)
  next
    case False
    have "list_effect uni leaves joins before after r \<noteq> None \<longleftrightarrow>
        name = leaves \<and> (\<not> no \<and> list_act uni r = ''accept'' \<or> no \<and> list_act uni r \<in> {''drop'', ''reject'', ''tarpit''}) \<or>
        name = joins \<and> (\<not> no \<and> list_act uni r \<in> {''drop'', ''reject'', ''tarpit''} \<or> no \<and> list_act uni r = ''accept'')"
      using False by (simp add: list_effect_def m Let_def)
    then show ?thesis unfolding l [OF False] j [OF False] cuts_off_def clause_matches_def m using False act by auto
  qed
qed

text \<open>
  C35. A change of a list's members warns exactly when it could cut us off: some enabled rule of the input chain, whose
  other clauses meet our traffic, accepted us before the change and does not after it, or blocks us after it and did
  not before, as the row's own say on our membership makes its list clause match.
\<close>

theorem list_change_exact:
  "Warned (CheckListMember uni ctx kind rules action before after) \<longleftrightarrow>
    cx_Resolved ctx \<and>
    (\<exists>r\<in>set rules. list_rule_applies uni ctx kind r \<and> fst (match_list r) \<noteq> [] \<and> cuts_off uni ctx kind before after r)"
proof -
  let ?leaves = "if isUs uni ctx kind before \<and> \<not> (isUs uni ctx kind after \<and> TrimSpace (lm_List after) = TrimSpace (lm_List before))
      then TrimSpace (lm_List before) else []"
  let ?joins = "if isUs uni ctx kind after \<and> \<not> (isUs uni ctx kind before \<and> TrimSpace (lm_List after) = TrimSpace (lm_List before))
      then TrimSpace (lm_List after) else []"
  have none: "list_effect uni [] [] before after r = None" for r
    by (auto simp: list_effect_def Let_def split: prod.split)
  have idle: "(cx_Resolved ctx \<and> \<not> (l = [] \<and> j = []) \<and> Warned (list_loop uni ctx kind action l j before after rules)) =
      (cx_Resolved ctx \<and> Warned (list_loop uni ctx kind action l j before after rules))" for l j
    unfolding list_loop_warns by (cases "l = [] \<and> j = []") (simp add: none, blast)
  have "Warned (CheckListMember uni ctx kind rules action before after) \<longleftrightarrow>
      cx_Resolved ctx \<and> \<not> (?leaves = [] \<and> ?joins = []) \<and> Warned (list_loop uni ctx kind action ?leaves ?joins before after rules)"
    unfolding CheckListMember_def Let_def by (rule guarded)
  also have "\<dots> \<longleftrightarrow> cx_Resolved ctx \<and> Warned (list_loop uni ctx kind action ?leaves ?joins before after rules)"
    by (rule idle)
  finally show ?thesis unfolding list_loop_warns list_effect_iff .
qed

text \<open>A change of a list's definition asks only whether a rule that could decide about us names the list.\<close>

lemma list_definition_exact:
  "Warned (CheckListDefinition uni ctx rules action before after) \<longleftrightarrow>
    cx_Resolved ctx \<and> ld_Present before \<and> list_change before after \<noteq> None \<and>
    (\<exists>r\<in>set rules. list_rule_applies uni ctx ''interface'' r \<and> names_list uni (TrimSpace (ld_Name before)) r)"
proof -
  have "find P rules \<noteq> None \<longleftrightarrow> (\<exists>r\<in>set rules. P r)" for P unfolding find_None_iff by blast
  note f = this [of "\<lambda>r. list_rule_applies uni ctx ''interface'' r \<and> names_list uni (TrimSpace (ld_Name before)) r"]
  show ?thesis unfolding f [symmetric] by (auto simp: CheckListDefinition_def Let_def split: option.split)
qed

section \<open>The router's services\<close>

record ServiceRow =
  sv_Name :: string
  sv_Port :: string
  sv_Address :: string
  sv_VRF :: string
  sv_Disabled :: bool

definition refuse_service :: "string \<Rightarrow> string \<Rightarrow> string \<Rightarrow> Verdict" where
  "refuse_service ours cd value = \<lparr>Level = ''refuse'', Code = cd, Detail = [(''service'', JStr ours), (''value'', JStr value)], Fingerprint = []\<rparr>"

definition serviceAdmits :: "string \<Rightarrow> string \<Rightarrow> bool" where
  "serviceAdmits lst address = list_ex (\<lambda>entry. AddressCovers (TrimSpace entry) [address] = (True, True)) (go_split CHR '','' lst)"

text \<open>The \<open>ours\<close> of a session is \<open>api\<close> or \<open>api-ssl\<close>, which is what makes \<open>EqualFold\<close> exact.\<close>

definition CheckServiceEdit :: "string \<Rightarrow> string list \<Rightarrow> bool \<Rightarrow> ServiceRow \<Rightarrow> ServiceRow \<Rightarrow> Verdict" where
  "CheckServiceEdit ours self resolved before after =
     (if \<not> EqualFold (TrimSpace (sv_Name before)) ours then silent
      else if sv_Disabled after \<and> \<not> sv_Disabled before then refuse_service ours ''service-disable'' ours
      else if TrimSpace (sv_Port after) \<noteq> TrimSpace (sv_Port before) then refuse_service ours ''service-port'' (TrimSpace (sv_Port after))
      else if TrimSpace (sv_VRF after) \<noteq> TrimSpace (sv_VRF before) then refuse_service ours ''service-vrf'' (TrimSpace (sv_VRF after))
      else let addr = TrimSpace (sv_Address after)
           in if addr \<noteq> TrimSpace (sv_Address before) \<and> addr \<noteq> []
              then (if \<not> resolved \<or> self = [] then refuse_service ours ''service-address-unknown'' addr
                    else if list_ex (\<lambda>a. \<not> serviceAdmits addr a) self then refuse_service ours ''service-address'' addr
                    else silent)
              else silent)"

definition CheckCertificateRemove :: "bool \<Rightarrow> string \<Rightarrow> string \<Rightarrow> Verdict" where
  "CheckCertificateRemove tls apiSSLCert name =
     (let used = TrimSpace apiSSLCert
      in if \<not> tls \<or> used = [] \<or> EqualFold used ''none'' then silent
         else if TrimSpace name \<noteq> used then silent
         else refuse_service ''api-ssl'' ''certificate-in-use'' used)"

text \<open>The service as a client from \<open>a\<close> finds it: listening on a port and a table, and open to the address.\<close>

definition reachable :: "ServiceRow \<Rightarrow> string \<Rightarrow> string \<Rightarrow> string \<Rightarrow> bool" where
  "reachable s port vrf a \<longleftrightarrow> \<not> sv_Disabled s \<and> TrimSpace (sv_Port s) = port \<and> TrimSpace (sv_VRF s) = vrf \<and>
     (TrimSpace (sv_Address s) = [] \<or> serviceAdmits (TrimSpace (sv_Address s)) a)"

lemma service_refused [simp]: "\<not> Refused silent" "Refused (refuse_service o' c v)"
  by (simp_all add: Refused_def silent_def refuse_service_def)

lemma service_passed:
  assumes "\<not> Refused (CheckServiceEdit ours self resolved before after)" "EqualFold (TrimSpace (sv_Name before)) ours"
  shows "sv_Disabled after \<longrightarrow> sv_Disabled before" "TrimSpace (sv_Port after) = TrimSpace (sv_Port before)"
    "TrimSpace (sv_VRF after) = TrimSpace (sv_VRF before)"
    "TrimSpace (sv_Address after) = TrimSpace (sv_Address before) \<or> TrimSpace (sv_Address after) = [] \<or>
      (\<forall>a\<in>set self. serviceAdmits (TrimSpace (sv_Address after)) a) \<and> resolved"
  using assms unfolding CheckServiceEdit_def Let_def
  by (auto split: if_splits simp: list_ex_iff)

text \<open>
  C36. An edit of the service we come in by that the guard lets through leaves the service reachable from wherever we
  reached it: same port, same table, not disabled, and every address of ours that it admitted is still admitted. Nothing
  of this is promised for a service that is not ours.
\<close>

theorem service_stays_reachable:
  assumes "\<not> Refused (CheckServiceEdit ours self resolved before after)" "EqualFold (TrimSpace (sv_Name before)) ours"
    and "a \<in> set self" "reachable before port vrf a"
  shows "reachable after port vrf a"
  using service_passed [OF assms(1,2)] assms(3,4) unfolding reachable_def by metis

theorem service_stays_reachable_witness:
  "reachable \<lparr>sv_Name = ''api-ssl'', sv_Port = ''8729'', sv_Address = ''10.0.0.0/8'', sv_VRF = ''main'', sv_Disabled = False\<rparr> ''8729'' ''main'' ''10.0.0.5''"
proof (rule service_stays_reachable [where ours = "''api-ssl''" and self = "[''10.0.0.5'']" and resolved = True and
      before = "\<lparr>sv_Name = ''API-SSL'', sv_Port = ''8729'', sv_Address = [], sv_VRF = ''main'', sv_Disabled = False\<rparr>"])
  show "\<not> Refused (CheckServiceEdit ''api-ssl'' [''10.0.0.5''] True
      \<lparr>sv_Name = ''API-SSL'', sv_Port = ''8729'', sv_Address = [], sv_VRF = ''main'', sv_Disabled = False\<rparr>
      \<lparr>sv_Name = ''api-ssl'', sv_Port = ''8729'', sv_Address = ''10.0.0.0/8'', sv_VRF = ''main'', sv_Disabled = False\<rparr>)"
    by code_simp
qed code_simp+

section \<open>The lease of an uplink\<close>

record WanPath =
  wp_Resolved :: bool
  wp_Local :: bool
  wp_Address :: string

definition no_wan_path :: WanPath where
  "no_wan_path = \<lparr>wp_Resolved = False, wp_Local = False, wp_Address = []\<rparr>"

definition ResolveWanPath :: "string list \<Rightarrow> string list \<Rightarrow> WanPath" where
  "ResolveWanPath selfAddresses connectedCidrs =
     (let cidrs = filter (\<lambda>c. c \<noteq> []) connectedCidrs
      in if selfAddresses = [] \<or> cidrs = [] then no_wan_path
         else case find (\<lambda>a. \<not> InCIDRs a cidrs) selfAddresses of
                Some a \<Rightarrow> \<lparr>wp_Resolved = True, wp_Local = False, wp_Address = a\<rparr>
              | None \<Rightarrow> \<lparr>wp_Resolved = True, wp_Local = True, wp_Address = hd selfAddresses\<rparr>)"

definition wanFingerprint :: "string \<Rightarrow> string \<Rightarrow> string \<Rightarrow> string" where
  "wanFingerprint targetWan address activeDefaultWan = Marshal (JArr [JStr targetWan, JStr address, JStr activeDefaultWan])"

definition CheckLeaseAction :: "WanPath option \<Rightarrow> string \<Rightarrow> string \<Rightarrow> Verdict" where
  "CheckLeaseAction path targetWan activeDefaultWan =
     (case path of
        None \<Rightarrow> silent
      | Some p \<Rightarrow>
          if \<not> wp_Resolved p then silent
          else if wp_Local p then silent
          else if activeDefaultWan \<noteq> [] \<and> targetWan \<noteq> activeDefaultWan then silent
          else warn ''self-cutoff''
            [(''address'', JStr (wp_Address p)), (''wan'', JStr targetWan), (''certain'', JInt (if activeDefaultWan \<noteq> [] then 1 else 0))]
            (wanFingerprint targetWan (wp_Address p) activeDefaultWan))"

definition ActiveDefaultWan :: "Reply list \<Rightarrow> Reply list \<Rightarrow> string" where
  "ActiveDefaultWan routes clients =
     (case filter (\<lambda>r. field r ''dst-address'' = ''0.0.0.0/0'' \<and> field r ''active'' = ''true'') routes of
        [r] \<Rightarrow>
          let gw = field r ''gateway''
          in if gw = [] then []
             else case find (\<lambda>c. field c ''interface'' = gw) clients of
                    Some c \<Rightarrow> field c ''interface''
                  | None \<Rightarrow> (case find (\<lambda>c. field c ''gateway'' = gw) clients of Some c \<Rightarrow> field c ''interface'' | None \<Rightarrow> gw)
      | _ \<Rightarrow> [])"

lemma lease_exact:
  "Warned (CheckLeaseAction (Some (ResolveWanPath self cidrs)) wan active) \<longleftrightarrow>
    (\<exists>c\<in>set cidrs. c \<noteq> []) \<and> (\<exists>a\<in>set self. \<not> inCIDRs a (filter (\<lambda>c. c \<noteq> []) cidrs)) \<and> (active = [] \<or> wan = active)"
proof -
  have "find P self \<noteq> None \<longleftrightarrow> (\<exists>r\<in>set self. P r)" for P unfolding find_None_iff by blast
  note f = this [of "\<lambda>a. \<not> InCIDRs a (filter (\<lambda>c. c \<noteq> []) cidrs)"]
  have e: "filter (\<lambda>c. c \<noteq> []) cidrs = [] \<longleftrightarrow> \<not> (\<exists>c\<in>set cidrs. c \<noteq> [])" by (auto simp: filter_empty_conv)
  show ?thesis unfolding InCIDRs_def [symmetric] f [symmetric]
    by (auto simp: CheckLeaseAction_def ResolveWanPath_def no_wan_path_def Let_def e split: option.split)
qed

section \<open>Files\<close>

definition refuse_file :: "string \<Rightarrow> string \<Rightarrow> Verdict" where
  "refuse_file cd name = \<lparr>Level = ''refuse'', Code = cd, Detail = [(''value'', JStr name)], Fingerprint = []\<rparr>"

definition CheckFileName :: "unicode \<Rightarrow> string \<Rightarrow> string \<Rightarrow> Verdict" where
  "CheckFileName uni action name =
     (if action \<noteq> ''create'' then silent
      else let low = ToLower uni (TrimSpace name)
           in if contains_text low ''.auto.'' then refuse_file ''file-runs'' name
              else if has_suffix low ''.npk'' then refuse_file ''file-installs'' name
              else if has_prefix low ''/'' then refuse_file ''file-path'' name
              else if ''..'' \<in> set (go_split CHR ''/'' low) then refuse_file ''file-path'' name
              else silent)"

end
