(* ===== verification/Alert_Held.thy ===== *)
theory Alert_Held
  imports Go_Float
begin

text \<open>
  The run of a reading past its floor, \<open>sustained\<close> of \<^verbatim>\<open>internal/alert/eval.go\<close>: an episode opens when a reading has
  stayed at or above the floor for the hold time, grows when the level it held rises, and closes when the reading has
  stayed below the floor for the same time. Times are milliseconds of the evaluation clock.
\<close>

section \<open>Comparisons of floating point numbers\<close>

text \<open>Every comparison with a NaN is false.\<close>

fun fle :: "float64 \<Rightarrow> float64 \<Rightarrow> bool" where
  "fle (Fin a) (Fin b) = (a \<le> b)"
| "fle (Fin a) (Infinite neg) = (\<not> neg)"
| "fle (Infinite neg) (Fin b) = neg"
| "fle (Infinite n) (Infinite m) = (n \<or> \<not> m)"
| "fle NaN y = False"
| "fle x NaN = False"

fun flt :: "float64 \<Rightarrow> float64 \<Rightarrow> bool" where
  "flt (Fin a) (Fin b) = (a < b)"
| "flt (Fin a) (Infinite neg) = (\<not> neg)"
| "flt (Infinite neg) (Fin b) = neg"
| "flt (Infinite n) (Infinite m) = (n \<and> \<not> m)"
| "flt NaN y = False"
| "flt x NaN = False"

section \<open>The run\<close>

type_synonym timedValue = "millis \<times> float64"

datatype runVerdict = quiet | breach | escalate | recovered

record sustained =
  runStart :: millis
  samples :: "timedValue list"
  fired :: bool
  level :: float64
  belowSince :: millis
  lastV :: float64
  seen :: bool

definition zero_sustained :: sustained where
  "zero_sustained = \<lparr>runStart = 0, samples = [], fired = False, level = Fin 0, belowSince = 0, lastV = Fin 0, seen = False\<rparr>"

text \<open>Where the readings that can still set the level begin.\<close>

definition cut_at :: "millis \<Rightarrow> timedValue list \<Rightarrow> nat" where
  "cut_at since xs = foldl (\<lambda>cut i. if fst (xs ! i) \<le> since then i else cut) 0 [1..<length xs]"

definition lowest :: "timedValue list \<Rightarrow> float64" where
  "lowest xs = foldl (\<lambda>l x. if flt (snd x) l then snd x else l) (snd (hd xs)) (tl xs)"

definition past_floor :: "millis \<Rightarrow> float64 \<Rightarrow> millis \<Rightarrow> sustained \<Rightarrow> (runVerdict \<times> float64) \<times> sustained" where
  "past_floor t v hold s =
     (let s1 = s\<lparr>lastV := v, seen := True, belowSince := 0\<rparr>;
          s2 = (if runStart s1 = 0 then s1\<lparr>runStart := t, samples := []\<rparr> else s1);
          all_samples = samples s2 @ [(t, v)];
          kept = drop (cut_at (t - hold) all_samples) all_samples;
          s3 = s2\<lparr>samples := kept\<rparr>
      in if t - runStart s3 < hold then ((quiet, Fin 0), s3)
         else let l = lowest kept
              in if \<not> fired s3 then ((breach, l), s3\<lparr>fired := True, level := l\<rparr>)
                 else if flt (level s3) l then ((escalate, l), s3\<lparr>level := l\<rparr>)
                 else ((quiet, Fin 0), s3))"

definition under_floor :: "millis \<Rightarrow> float64 \<Rightarrow> millis \<Rightarrow> sustained \<Rightarrow> (runVerdict \<times> float64) \<times> sustained" where
  "under_floor t v hold s =
     (let s1 = s\<lparr>lastV := v, seen := True, runStart := 0, samples := []\<rparr>
      in if \<not> fired s1 then ((quiet, Fin 0), s1)
         else let s2 = (if belowSince s1 = 0 then s1\<lparr>belowSince := t\<rparr> else s1)
              in if t - belowSince s2 < hold then ((quiet, Fin 0), s2)
                 else ((recovered, Fin 0), zero_sustained\<lparr>lastV := v, seen := True\<rparr>))"

definition observe :: "millis \<Rightarrow> float64 \<Rightarrow> float64 \<Rightarrow> int \<Rightarrow> sustained \<Rightarrow> (runVerdict \<times> float64) \<times> sustained" where
  "observe t v flr holdMs s =
     (let hold = (if holdMs < 0 then 0 else holdMs)
      in if fle flr v then past_floor t v hold s else under_floor t v hold s)"

definition tick :: "millis \<Rightarrow> float64 \<Rightarrow> int \<Rightarrow> sustained \<Rightarrow> (runVerdict \<times> float64) \<times> sustained" where
  "tick t flr holdMs s = (if \<not> seen s then ((quiet, Fin 0), s) else observe t (lastV s) flr holdMs s)"

definition interrupt :: "sustained \<Rightarrow> sustained" where
  "interrupt s = (if \<not> fired s then zero_sustained else s)"

section \<open>What an episode is\<close>

text \<open>
  A reading is in force until the next one. The readings in force from a time on are those taken after it and the last
  one taken no later, and without such a one the time is not covered.
\<close>

fun in_force :: "millis \<Rightarrow> timedValue list \<Rightarrow> timedValue list" where
  "in_force since [] = []"
| "in_force since (x # xs) = (if xs \<noteq> [] \<and> fst (hd xs) \<le> since then in_force since xs else x # xs)"

definition covered_from :: "millis \<Rightarrow> timedValue list \<Rightarrow> bool" where
  "covered_from since h \<longleftrightarrow> in_force since h \<noteq> [] \<and> fst (hd (in_force since h)) \<le> since"

definition held_above :: "float64 \<Rightarrow> millis \<Rightarrow> timedValue list \<Rightarrow> bool" where
  "held_above flr since h \<longleftrightarrow> covered_from since h \<and> list_all (\<lambda>x. fle flr (snd x)) (in_force since h)"

definition held_below :: "float64 \<Rightarrow> millis \<Rightarrow> timedValue list \<Rightarrow> bool" where
  "held_below flr since h \<longleftrightarrow> covered_from since h \<and> list_all (\<lambda>x. \<not> fle flr (snd x)) (in_force since h)"

text \<open>An episode is open at a level or it is not; every reading so far is kept.\<close>

record episode =
  readings :: "timedValue list"
  opened :: "float64 option"

definition episode_step :: "float64 \<Rightarrow> int \<Rightarrow> episode \<Rightarrow> timedValue \<Rightarrow> (runVerdict \<times> float64) \<times> episode" where
  "episode_step flr hold e x =
     (let h = readings e @ [x]; since = fst x - hold; e1 = e\<lparr>readings := h\<rparr>
      in if held_above flr since h
         then let l = lowest (in_force since h)
              in (case opened e of
                    None \<Rightarrow> ((breach, l), e1\<lparr>opened := Some l\<rparr>)
                  | Some l0 \<Rightarrow> if flt l0 l then ((escalate, l), e1\<lparr>opened := Some l\<rparr>) else ((quiet, Fin 0), e1))
         else if opened e \<noteq> None \<and> held_below flr since h then ((recovered, Fin 0), e1\<lparr>opened := None\<rparr>)
         else ((quiet, Fin 0), e1))"


section \<open>The run keeps what decides the episode\<close>

definition streak :: "(timedValue \<Rightarrow> bool) \<Rightarrow> timedValue list \<Rightarrow> timedValue list" where
  "streak Q h = rev (takeWhile Q (rev h))"

lemma streak_simps [simp]: "streak Q [] = []" "streak Q (h @ [x]) = (if Q x then streak Q h @ [x] else [])"
  by (simp_all add: streak_def)

lemma streak_all: "list_all Q (streak Q h)"
  by (induction h rule: rev_induct) auto

lemma streak_split: "h = take (length h - length (streak Q h)) h @ streak Q h"
proof (induction h rule: rev_induct)
  case (snoc x h)
  have l: "length (streak Q h) \<le> length h" unfolding streak_def by (simp add: length_takeWhile_le [of Q "rev h", simplified])
  then have "Suc (length h) - Suc (length (streak Q h)) \<le> length h" by simp
  with snoc l show ?case by simp
qed simp

lemma streak_greatest: "h = p @ q \<Longrightarrow> list_all Q q \<Longrightarrow> \<exists>d. streak Q h = d @ q"
proof (induction q arbitrary: h rule: rev_induct)
  case (snoc x q)
  then obtain d where "streak Q (p @ q) = d @ q" by auto
  moreover have "streak Q h = streak Q (p @ q) @ [x]" using snoc.prems streak_simps(2) [of Q "p @ q" x] by simp
  ultimately show ?case by simp
qed simp

lemma streak_obtain: obtains p where "h = p @ streak Q h"
  using streak_split by blast

abbreviation in_time :: "timedValue list \<Rightarrow> bool" where
  "in_time h \<equiv> sorted (map fst h)"

lemma in_force_suffix: "\<exists>p. h = p @ in_force since h"
proof (induction since h rule: in_force.induct)
  case (2 since x xs)
  show ?case
  proof (cases "xs \<noteq> [] \<and> fst (hd xs) \<le> since")
    case True
    then obtain p where "xs = p @ in_force since xs" using 2 by blast
    then have "x # xs = (x # p) @ in_force since xs" by simp
    with True show ?thesis by (metis in_force.simps(2))
  qed auto
qed simp

lemma in_force_nonempty [simp]: "in_force since h = [] \<longleftrightarrow> h = []"
  by (induction since h rule: in_force.induct) auto

lemma in_force_starts: "in_force since h = h \<or> fst (hd (in_force since h)) \<le> since"
proof (induction since h rule: in_force.induct)
  case (2 since x xs)
  then show ?case by (cases "xs \<noteq> [] \<and> fst (hd xs) \<le> since") auto
qed simp

lemma in_force_late: "in_time (p @ q) \<Longrightarrow> q \<noteq> [] \<Longrightarrow> fst (hd q) \<le> since \<Longrightarrow> in_force since (p @ q) = in_force since q"
proof (induction p)
  case (Cons x p)
  have "fst (hd (p @ q)) \<le> since"
  proof (cases p)
    case Nil
    with Cons.prems show ?thesis by simp
  next
    case yp: (Cons y p')
    moreover have "fst y \<le> fst (hd q)" using Cons.prems yp by (cases q) auto
    ultimately show ?thesis using Cons.prems(3) by simp
  qed
  with Cons show ?case by (cases "p @ q") auto
qed simp

lemma in_force_snoc: "in_time (xs @ [x]) \<Longrightarrow> xs \<noteq> [] \<Longrightarrow>
    in_force since (xs @ [x]) = (if fst x \<le> since then [x] else in_force since xs @ [x])"
proof (induction xs)
  case (Cons y ys)
  show ?case
  proof (cases ys)
    case Nil
    then show ?thesis by simp
  next
    case (Cons z zs)
    moreover have "fst x \<le> since \<Longrightarrow> fst z \<le> since" using Cons.prems Cons by (simp add: sorted_append)
    ultimately show ?thesis using Cons.IH Cons.prems by auto
  qed
qed simp

lemma cut_at_snoc: "xs \<noteq> [] \<Longrightarrow> cut_at since (xs @ [x]) = (if fst x \<le> since then length xs else cut_at since xs)"
proof -
  assume "xs \<noteq> []"
  then have "[1..<length (xs @ [x])] = [1..<length xs] @ [length xs]" by (cases xs) auto
  moreover have "foldl (\<lambda>cut i. if fst ((xs @ [x]) ! i) \<le> since then i else cut) c [1..<length xs] =
      foldl (\<lambda>cut i. if fst (xs ! i) \<le> since then i else cut) c [1..<length xs]" for c
    by (rule foldl_cong) (auto simp: nth_append)
  ultimately show ?thesis unfolding cut_at_def by simp
qed

lemma cut_at_le: "cut_at since xs \<le> length xs"
proof (induction xs rule: rev_induct)
  case (snoc x xs)
  then show ?case by (cases "xs = []") (auto simp: cut_at_snoc, simp add: cut_at_def)
qed (simp add: cut_at_def)

lemma cut_in_force: "in_time xs \<Longrightarrow> drop (cut_at since xs) xs = in_force since xs"
proof (induction xs rule: rev_induct)
  case (snoc x xs)
  show ?case
  proof (cases "xs = []")
    case True
    then show ?thesis by (simp add: cut_at_def)
  next
    case False
    then show ?thesis using snoc cut_at_le [of since xs] by (simp add: cut_at_snoc in_force_snoc sorted_append)
  qed
qed (simp add: cut_at_def)

text \<open>The floor has been held since a time exactly when the streak began no later.\<close>

lemma held_streak:
  assumes "in_time h"
  shows "covered_from since h \<and> list_all Q (in_force since h) \<longleftrightarrow> streak Q h \<noteq> [] \<and> fst (hd (streak Q h)) \<le> since"
proof
  assume c: "covered_from since h \<and> list_all Q (in_force since h)"
  obtain p where "h = p @ in_force since h" using in_force_suffix by blast
  then obtain d where d: "streak Q h = d @ in_force since h" using streak_greatest c by blast
  have "in_time (streak Q h)" using assms streak_split [of h Q] by (metis map_append sorted_append)
  then show "streak Q h \<noteq> [] \<and> fst (hd (streak Q h)) \<le> since"
    using c d unfolding covered_from_def by (cases d; cases "in_force since h") auto
next
  assume s: "streak Q h \<noteq> [] \<and> fst (hd (streak Q h)) \<le> since"
  have f: "in_force since h = in_force since (streak Q h)"
    using in_force_late streak_split [of h Q] assms s by metis
  obtain p where "streak Q h = p @ in_force since (streak Q h)" using in_force_suffix by blast
  then have "list_all Q (in_force since h)" using streak_all [of Q h] f by (metis list_all_append)
  moreover have "covered_from since h"
    using in_force_starts [of since "streak Q h"] s f by (auto simp: covered_from_def)
  ultimately show "covered_from since h \<and> list_all Q (in_force since h)" by simp
qed


text \<open>
  What the run remembers of the readings: where the streak above the floor began, the part of it that can still set the
  level, and, in an open episode, where the streak below the floor began.
\<close>

abbreviation above :: "float64 \<Rightarrow> timedValue \<Rightarrow> bool" where
  "above flr x \<equiv> fle flr (snd x)"

definition remembers :: "millis \<Rightarrow> timedValue list \<Rightarrow> timedValue list \<Rightarrow> millis \<Rightarrow> bool" where
  "remembers since r kept start \<longleftrightarrow>
     (if r = [] then kept = [] \<and> start = 0
      else start = fst (hd r) \<and> kept \<noteq> [] \<and> (\<exists>d. r = d @ kept \<and> (d \<noteq> [] \<longrightarrow> fst (hd kept) \<le> since)))"

definition tracks :: "float64 \<Rightarrow> int \<Rightarrow> episode \<Rightarrow> sustained \<Rightarrow> bool" where
  "tracks flr hold e s \<longleftrightarrow>
     in_time (readings e) \<and> (\<forall>x\<in>set (readings e). 0 < fst x) \<and>
     opened e = (if fired s then Some (level s) else None) \<and>
     remembers (fst (last (readings e)) - hold) (streak (above flr) (readings e)) (samples s) (runStart s) \<and>
     belowSince s = (let b = streak (\<lambda>x. \<not> above flr x) (readings e) in if fired s \<and> b \<noteq> [] then fst (hd b) else 0)"

lemma streak_times:
  assumes "in_time (h @ [x])" "\<forall>y\<in>set h. 0 < fst y" "0 < fst x"
  shows "in_time (streak Q h @ [x])" "\<forall>y\<in>set (streak Q h @ [x]). 0 < fst y"
proof -
  obtain p where p: "h = p @ streak Q h" by (rule streak_obtain)
  have "in_time (p @ streak Q h @ [x])" using assms(1) by (subst (asm) p) simp
  then show "in_time (streak Q h @ [x])" by (simp add: sorted_append)
  have "set (streak Q h) \<subseteq> set h" by (subst (2) p) simp
  then show "\<forall>y\<in>set (streak Q h @ [x]). 0 < fst y" using assms by auto
qed

lemma remembers_next:
  assumes "remembers since r kept start" "in_time (r @ [x])" "\<forall>y\<in>set (r @ [x]). 0 < fst y" "since \<le> since'"
  defines "all \<equiv> (if start = 0 then [] else kept) @ [x]"
  shows "remembers since' (r @ [x]) (in_force since' all) (if start = 0 then fst x else start)"
    and "in_time all"
    and "fst (hd (r @ [x])) \<le> since' \<Longrightarrow> in_force since' all = in_force since' (r @ [x])"
proof -
  obtain d where d: "r @ [x] = d @ all" "d \<noteq> [] \<longrightarrow> fst (hd all) \<le> since'" "all \<noteq> []" "(if start = 0 then fst x else start) = fst (hd (r @ [x]))"
  proof (cases "r = []")
    case True
    then show ?thesis using assms that [of "[]"] by (simp add: remembers_def)
  next
    case False
    then obtain d where k: "start = fst (hd r)" "kept \<noteq> []" "r = d @ kept" "d \<noteq> [] \<longrightarrow> fst (hd kept) \<le> since"
      using assms(1) by (auto simp: remembers_def)
    have "0 < fst (hd r)" using False assms(3) by simp
    then have "start \<noteq> 0" using k(1) by simp
    then have "all = kept @ [x]" by (simp add: all_def)
    moreover have "fst (hd (kept @ [x])) \<le> since'" if "d \<noteq> []" using k(2,4) that assms(4) by simp
    moreover have "start = fst (hd (r @ [x]))" using k(1) False by simp
    ultimately show ?thesis using that [of d] k(3) \<open>start \<noteq> 0\<close> by simp
  qed
  obtain p where p: "all = p @ in_force since' all" using in_force_suffix by blast
  have "(d @ p) \<noteq> [] \<longrightarrow> fst (hd (in_force since' all)) \<le> since'"
    using d(2) p in_force_starts [of since' all] by (cases "p = []") auto
  moreover have "r @ [x] = (d @ p) @ in_force since' all" using d(1) p by simp
  ultimately show "remembers since' (r @ [x]) (in_force since' all) (if start = 0 then fst x else start)"
    unfolding remembers_def d(4) using d(3) by (metis Nil_is_append_conv in_force_nonempty list.distinct(1))
  show "in_time all" using assms(2) d(1) by (simp add: sorted_append)
  assume "fst (hd (r @ [x])) \<le> since'"
  then have "d = [] \<or> fst (hd all) \<le> since'" using d by auto
  then show "in_force since' all = in_force since' (r @ [x])"
    using in_force_late [of d all since'] d assms(2) by auto
qed

lemma past_floor_eq:
  "past_floor t v hold s =
     (let all = (if runStart s = 0 then [] else samples s) @ [(t, v)]; start = (if runStart s = 0 then t else runStart s);
          kept = drop (cut_at (t - hold) all) all;
          s3 = s\<lparr>runStart := start, samples := kept, belowSince := 0, lastV := v, seen := True\<rparr>
      in if t - start < hold then ((quiet, Fin 0), s3)
         else if \<not> fired s then ((breach, lowest kept), s3\<lparr>fired := True, level := lowest kept\<rparr>)
         else if flt (level s) (lowest kept) then ((escalate, lowest kept), s3\<lparr>level := lowest kept\<rparr>)
         else ((quiet, Fin 0), s3))"
  by (cases "runStart s = 0") (simp_all add: past_floor_def Let_def)

lemma observe_episode:
  assumes "tracks flr hold e s" "0 \<le> hold" "in_time (readings e @ [x])" "0 < fst x"
  shows "fst (observe (fst x) (snd x) flr hold s) = fst (episode_step flr hold e x) \<and>
    tracks flr hold (snd (episode_step flr hold e x)) (snd (observe (fst x) (snd x) flr hold s))"
proof -
  let ?h = "readings e @ [x]" and ?lim = "fst x - hold"
  note t = assms(1) [unfolded tracks_def]
  have late: "fst (last (readings e)) - hold \<le> ?lim" if "readings e \<noteq> []"
    using that assms(3) by (auto simp: sorted_append)
  show ?thesis
  proof (cases "above flr x")
    case True
    let ?r = "streak (above flr) (readings e)"
    have r: "streak (above flr) ?h = ?r @ [x]" "streak (\<lambda>x. \<not> above flr x) ?h = []" using True by simp_all
    define all where "all = (if runStart s = 0 then [] else samples s) @ [x]"
    define start where "start = (if runStart s = 0 then fst x else runStart s)"
    have times: "in_time (?r @ [x])" "\<forall>y\<in>set (?r @ [x]). 0 < fst y" using streak_times assms(3,4) t by blast+
    obtain l where l: "remembers l ?r (samples s) (runStart s)" "l \<le> ?lim"
      using t late that by (cases "readings e = []") (auto simp: remembers_def)
    note n = remembers_next [OF l(1) times l(2), folded all_def start_def]
    have start: "start = fst (hd (?r @ [x]))" using n(1) by (simp add: remembers_def)
    have held: "held_above flr ?lim ?h \<longleftrightarrow> \<not> fst x - start < hold"
      using held_streak [OF assms(3), of ?lim "above flr"] r(1) unfolding held_above_def start by auto
    have kept: "drop (cut_at ?lim all) all = in_force ?lim all" by (rule cut_in_force [OF n(2)])
    have lowest: "lowest (in_force ?lim all) = lowest (in_force ?lim ?h)" if "held_above flr ?lim ?h"
    proof -
      have b: "fst (hd (?r @ [x])) \<le> ?lim" using that held start by simp
      obtain q where q: "?h = q @ streak (above flr) ?h" by (rule streak_obtain)
      have e: "?h = q @ ?r @ [x]" using q [unfolded r(1)] .
      have "in_time (q @ ?r @ [x])" using assms(3) by (metis e)
      then have "in_force ?lim ?h = in_force ?lim (?r @ [x])"
        using in_force_late [of q "?r @ [x]" ?lim] b e by (metis snoc_eq_iff_butlast)
      then show ?thesis using n(3) [OF b] by simp
    qed
    have o: "observe (fst x) (snd x) flr hold s = past_floor (fst x) (snd x) hold s" using True assms(2) by (simp add: observe_def)
    let ?s3 = "s\<lparr>runStart := start, samples := in_force ?lim all, belowSince := 0, lastV := snd x, seen := True\<rparr>"
    have p: "past_floor (fst x) (snd x) hold s =
        (if \<not> held_above flr ?lim ?h then ((quiet, Fin 0), ?s3)
         else if \<not> fired s then ((breach, lowest (in_force ?lim ?h)), ?s3\<lparr>fired := True, level := lowest (in_force ?lim ?h)\<rparr>)
         else if flt (level s) (lowest (in_force ?lim ?h)) then ((escalate, lowest (in_force ?lim ?h)), ?s3\<lparr>level := lowest (in_force ?lim ?h)\<rparr>)
         else ((quiet, Fin 0), ?s3))"
      unfolding past_floor_eq Let_def prod.collapse all_def [symmetric] start_def [symmetric] kept using held lowest by simp
    have "in_time ?h" "\<forall>y\<in>set ?h. 0 < fst y" using assms(3,4) t by auto
    moreover have "\<not> held_below flr ?lim ?h"
      using held_streak [OF assms(3), of ?lim "\<lambda>x. \<not> above flr x"] r(2) by (simp add: held_below_def)
    ultimately show ?thesis using t n(1) r
      by (cases "held_above flr ?lim ?h"; cases "fired s") (auto simp: o p episode_step_def Let_def tracks_def)
  next
    case False
    let ?b = "streak (\<lambda>x. \<not> above flr x) (readings e)" and ?below = "if belowSince s = 0 then fst x else belowSince s"
    have r: "streak (above flr) ?h = []" "streak (\<lambda>x. \<not> above flr x) ?h = ?b @ [x]" using False by simp_all
    have nope: "\<not> held_above flr ?lim ?h" using held_streak [OF assms(3), of ?lim "above flr"] r(1) by (simp add: held_above_def)
    have times: "\<forall>y\<in>set (?b @ [x]). 0 < fst y" using streak_times assms(3,4) t by blast
    have below: "?below = fst (hd (?b @ [x]))" if "fired s" using t that times by (cases ?b) (auto simp: Let_def)
    have held: "held_below flr ?lim ?h \<longleftrightarrow> \<not> fst x - ?below < hold" if "fired s"
      using held_streak [OF assms(3), of ?lim "\<lambda>x. \<not> above flr x"] r(2) below [OF that] unfolding held_below_def by auto
    have o: "observe (fst x) (snd x) flr hold s = under_floor (fst x) (snd x) hold s" using False assms(2) by (simp add: observe_def)
    have base: "in_time ?h" "\<forall>y\<in>set ?h. 0 < fst y" using assms(3,4) t by auto
    show ?thesis
    proof (cases "fired s")
      case True
      then show ?thesis using t base below held nope r
        by (auto simp: o under_floor_def Let_def episode_step_def tracks_def remembers_def zero_sustained_def)
    next
      case False
      then show ?thesis using t base nope r
        by (auto simp: o under_floor_def Let_def episode_step_def tracks_def remembers_def)
    qed
  qed
qed

text \<open>
  C39. Fed with readings in the order of their times, the run says exactly what the readings themselves say: an episode
  opens, at the lowest reading of the hold time, when the readings in force for the whole of it were at the floor or
  above; it is reported again only when that level has risen; and it closes when the readings in force for the whole
  of the hold time were below the floor. What the run forgets of the readings never matters.
\<close>

theorem held_exact:
  assumes "in_time obs" "\<forall>x\<in>set obs. 0 < fst x" "0 \<le> hold"
  shows "fst (run (\<lambda>s (t, v). observe t v flr hold s) zero_sustained obs) =
    fst (run (episode_step flr hold) \<lparr>readings = [], opened = None\<rparr> obs)"
proof -
  let ?step = "\<lambda>s (t, v). observe t v flr hold s"
  have "fst (run ?step zero_sustained h) = fst (run (episode_step flr hold) \<lparr>readings = [], opened = None\<rparr> h) \<and>
      readings (snd (run (episode_step flr hold) \<lparr>readings = [], opened = None\<rparr> h)) = h \<and>
      tracks flr hold (snd (run (episode_step flr hold) \<lparr>readings = [], opened = None\<rparr> h)) (snd (run ?step zero_sustained h))"
    if "in_time h" "\<forall>x\<in>set h. 0 < fst x" for h
    using that
  proof (induction h rule: rev_induct)
    case Nil
    show ?case by (simp add: tracks_def remembers_def zero_sustained_def)
  next
    case (snoc x h)
    let ?e = "snd (run (episode_step flr hold) \<lparr>readings = [], opened = None\<rparr> h)" and ?s = "snd (run ?step zero_sustained h)"
    have ih: "fst (run ?step zero_sustained h) = fst (run (episode_step flr hold) \<lparr>readings = [], opened = None\<rparr> h)"
      "readings ?e = h" "tracks flr hold ?e ?s" using snoc by (auto simp: sorted_append)
    have "fst (observe (fst x) (snd x) flr hold ?s) = fst (episode_step flr hold ?e x) \<and>
      tracks flr hold (snd (episode_step flr hold ?e x)) (snd (observe (fst x) (snd x) flr hold ?s))"
      using observe_episode [OF ih(3) assms(3), of x] ih(2) snoc.prems by simp
    moreover have "readings (snd (episode_step flr hold ?e x)) = h @ [x]"
      using ih(2) by (simp add: episode_step_def Let_def split: option.split)
    ultimately show ?case using ih(1) by (simp add: case_prod_unfold)
  qed
  then show ?thesis using assms(1,2) by blast
qed

theorem held_exact_witness:
  "fst (run (\<lambda>s (t, v). observe t v (Fin 70) 30 s) zero_sustained [(10, Fin 72), (20, Fin 95), (40, Fin 95), (50, Fin 80), (60, Fin 69), (95, Fin 60)]) =
    [(quiet, Fin 0), (quiet, Fin 0), (breach, Fin 72), (escalate, Fin 80), (quiet, Fin 0), (recovered, Fin 0)]"
proof -
  have "fst (run (episode_step (Fin 70) 30) \<lparr>readings = [], opened = None\<rparr> [(10, Fin 72), (20, Fin 95), (40, Fin 95), (50, Fin 80), (60, Fin 69), (95, Fin 60)]) =
    [(quiet, Fin 0), (quiet, Fin 0), (breach, Fin 72), (escalate, Fin 80), (quiet, Fin 0), (recovered, Fin 0)]"
    by code_simp
  then show ?thesis using held_exact [of "[(10, Fin 72), (20, Fin 95), (40, Fin 95), (50, Fin 80), (60, Fin 69), (95, Fin 60)]" 30 "Fin 70"] by simp
qed

end
