(* ===== verification/Alert_Rules.thy ===== *)
theory Alert_Rules
  imports Alert_Held Go_Json
begin

text \<open>
  The alert evaluator: the catalogue of alerts (\<^verbatim>\<open>internal/alert/types.go\<close>), how they read (\<^verbatim>\<open>format.go\<close>) and the rules
  that decide when one opens and when it is over (\<^verbatim>\<open>eval.go\<close>, \<^verbatim>\<open>routerstatus.go\<close>, \<^verbatim>\<open>features.go\<close>). The alert history a
  rule consults is Go's interface \<open>Store\<close>: a record of operations over a state of its own.
\<close>

section \<open>The catalogue\<close>

record Type =
  Key :: string
  Down :: string
  Up_Text :: string
  Label :: string
  Desc :: string
  Backup :: bool

definition entry :: "string \<Rightarrow> string \<Rightarrow> string \<Rightarrow> string \<Rightarrow> string \<Rightarrow> Type" where
  "entry k d u l t = \<lparr>Key = k, Down = d, Up_Text = u, Label = l, Desc = t, Backup = False\<rparr>"

definition types :: "Type list" where
  "types =
     [entry ''interface_down'' ''Interface Down'' ''Interface Up'' ''Interface up/down''
        ''A monitored interface lost or regained its link'',
      entry ''ping_loss'' ''Ping Loss'' ''Ping Restored'' ''Ping loss''
        (''Packet loss to the router'' @ [CHR 0x27] @ ''s ping target crossed the threshold''),
      entry ''high_cpu'' ''High CPU'' ''CPU Normal'' ''High CPU''
        ''CPU load crossed the threshold'',
      entry ''vpn_disconnected'' ''VPN Disconnected'' ''VPN Connected'' ''VPN peer''
        ''A VPN peer disconnected or reconnected'',
      entry ''host_down'' ''Host Down'' ''Host Up'' ''NetWatch host''
        ''A NetWatch host stopped or started responding'',
      entry ''router_offline'' ''Router Offline'' ''Router Online'' ''Router reachability''
        ''MikroDash lost or regained its connection to the router'',
      entry ''routeros_update'' ''RouterOS Update'' ''RouterOS Updated'' ''RouterOS update''
        ''A RouterOS upgrade became available, or was applied'',
      entry ''bgp_peer_down'' ''BGP Peer Down'' ''BGP Peer Up'' ''BGP peer''
        ''A BGP session went down or came back up'',
      entry ''bgp_prefix_change'' ''BGP Prefix Change'' ''BGP Prefixes Settled'' ''BGP prefix change''
        (''A BGP peer'' @ [CHR 0x27] @ ''s advertised prefix count moved sharply''),
      entry ''bgp_session_flapping'' ''BGP Session Flapping'' ''BGP Session Stable'' ''BGP session flapping''
        ''A BGP session went up and down repeatedly'',
      entry ''bgp_hold_timer_warning'' ''BGP Hold Timer Warning'' ''BGP Hold Timer OK'' ''BGP hold timer''
        (''A BGP session'' @ [CHR 0x27] @ ''s hold timer ran close to expiry''),
      entry ''device_absent'' ''Device Absent'' ''Device Back'' ''Watched device''
        ''A watched device left the network for longer than its grace time, or came back'',
      entry ''domain_routing_down'' ''Domain Routing Down'' ''Domain Routing Restored'' ''Domain routing''
        ''The route the domain-routed address list is marked for went down, or came back'',
      \<lparr>Key = ''backup_drift'', Down = [], Up_Text = [], Label = ''Backup drift'', Desc = ''A scheduled backup found the configuration changed since the last one'', Backup = True\<rparr>,
      \<lparr>Key = ''backup_fail'', Down = [], Up_Text = [], Label = ''Backup failed'', Desc = ''A scheduled backup did not complete'', Backup = True\<rparr>]"

definition TypeByKey :: "string \<Rightarrow> Type option" where
  "TypeByKey k = find (\<lambda>t. Key t = k) types"

definition DefaultEvents :: "string list" where
  "DefaultEvents = map Key types"

section \<open>How an alert reads\<close>

text \<open>The stored form of a display name: lower case, one underscore for the blanks between two words.\<close>

fun stored_loop :: "bool \<Rightarrow> string \<Rightarrow> string \<Rightarrow> string" where
  "stored_loop space out [] = out"
| "stored_loop space out (c # cs) =
     (if c = CHR '' '' \<or> c = CHR 0x09 \<or> c = CHR 0x0A then stored_loop True out cs
      else stored_loop False ((if space \<and> out \<noteq> [] then out @ ''_'' else out) @ [lower_char c]) cs)"

definition StoredType :: "string \<Rightarrow> string" where
  "StoredType display = stored_loop False [] display"

definition is_blank :: "char \<Rightarrow> bool" where
  "is_blank c \<longleftrightarrow> c = CHR '' '' \<or> c = CHR 0x09 \<or> c = CHR 0x0A"

definition version_trim :: "string \<Rightarrow> string" where
  "version_trim s =
     (let sp = (\<lambda>c. is_blank c \<or> c = CHR 0x0D) in rev (dropWhile sp (rev (dropWhile sp s))))"

text \<open>From the first opening bracket to the last closing one, with the blanks before it.\<close>

definition cleanVersion :: "string \<Rightarrow> string" where
  "cleanVersion v =
     (let pre = takeWhile (\<lambda>c. c \<noteq> CHR ''('') v;
          after = rev (takeWhile (\<lambda>c. c \<noteq> CHR '')'') (rev v));
          closeAt = length v - length after - 1;
          cut = (CHR ''('' \<in> set v \<and> CHR '')'' \<in> set v \<and> length pre < closeAt);
          w = version_trim (if cut then rev (dropWhile is_blank (rev pre)) @ after else v)
      in if w = [] then ''unknown'' else w)"

abbreviation trimNum :: "float64 \<Rightarrow> string" where
  "trimNum x \<equiv> FormatG x"

text \<open>From a million up a count is written with an exponent.\<close>

lemma trimNum_million: "trimNum (Fin 1000000) = ''1e+06''" "trimNum (Fin 999999) = ''999999''"
  by code_simp+

definition rawTarget :: "string option \<Rightarrow> string" where
  "rawTarget t = (case t of None \<Rightarrow> ''undefined'' | Some s \<Rightarrow> s)"

definition heldFor :: "float64 \<Rightarrow> int \<Rightarrow> string" where
  "heldFor lvl holdMs =
     (if holdMs \<le> 0 then [] else '' (at or above '' @ trimNum lvl @ ''% for '' @ Itoa (holdMs div 1000) @ '' s)'')"

text \<open>
  A case-insensitive match of a pattern of lower-case letters at the start of a name. Go folds letters by Unicode, so the
  long s (bytes \<open>C5 BF\<close>) is also an \<open>s\<close>; no other letter of the patterns has a second form.
\<close>

fun folds_prefix :: "string \<Rightarrow> string \<Rightarrow> bool" where
  "folds_prefix [] s = True"
| "folds_prefix (p # ps) [] = False"
| "folds_prefix (p # ps) (c # s) =
     (if lower_char c = p then folds_prefix ps s
      else p = CHR ''s'' \<and> c = CHR 0xC5 \<and> s \<noteq> [] \<and> hd s = CHR 0xBF \<and> folds_prefix ps (tl s))"

text \<open>The name ends with a dot and digits.\<close>

definition vlan_suffix :: "string \<Rightarrow> bool" where
  "vlan_suffix name =
     (let ds = takeWhile is_digit (rev name); rest = dropWhile is_digit (rev name)
      in ds \<noteq> [] \<and> rest \<noteq> [] \<and> hd rest = CHR ''.'')"

definition IfaceType :: "unicode \<Rightarrow> string \<Rightarrow> string \<Rightarrow> string" where
  "IfaceType uni name typ =
     (let t = ToLower uni typ
      in if t = ''ether'' then ''ether''
         else if t = ''wlan'' \<or> t = ''wifi'' then ''wlan''
         else if t = ''bridge'' then ''bridge''
         else if t = ''vlan'' then ''vlan''
         else if t \<noteq> [] \<and> t \<noteq> ''unknown'' then ''other''
         else if folds_prefix ''ether'' name then ''ether''
         else if folds_prefix ''wlan'' name \<or> folds_prefix ''wireless'' name \<or> folds_prefix ''wifi'' name then ''wlan''
         else if folds_prefix ''bridge'' name then ''bridge''
         else if folds_prefix ''vlan'' name \<or> vlan_suffix name then ''vlan''
         else ''other'')"

definition IfaceTypeKey :: "string \<Rightarrow> string" where
  "IfaceTypeKey t =
     (if t = ''ether'' then ''notifIfaceEther'' else if t = ''wlan'' then ''notifIfaceWlan''
      else if t = ''bridge'' then ''notifIfaceBridge'' else if t = ''vlan'' then ''notifIfaceVlan'' else ''notifIfaceOther'')"

definition alertLabels :: "(string, string) gomap" where
  "alertLabels = [(''routeros_update'', ''Update Available''), (''routeros_updated'', ''Up To Date''), (''connectivity'', ''Router Connectivity'')]"

definition labelAcronyms :: "(string, string) gomap" where
  "labelAcronyms = [(''bgp'', ''BGP''), (''vpn'', ''VPN''), (''cpu'', ''CPU''), (''ok'', ''OK''), (''os'', ''OS'')]"

text \<open>\<open>strings.ToUpper\<close> of one byte; a byte that is not ASCII is no rune and becomes the replacement character.\<close>

definition upper_byte :: "char \<Rightarrow> string" where
  "upper_byte c =
     (let b = byte_code c
      in if 0x80 \<le> b then [CHR 0xEF, CHR 0xBF, CHR 0xBD] else if 97 \<le> b \<and> b \<le> 122 then [char_of (b - 32)] else [c])"

definition label_word :: "string \<Rightarrow> string" where
  "label_word w = (case golookup labelAcronyms w of Some a \<Rightarrow> a | None \<Rightarrow> upper_byte (hd w) @ tl w)"

definition LabelFor :: "unicode \<Rightarrow> string \<Rightarrow> string" where
  "LabelFor uni alertType =
     (if alertType = [] then ''Alert''
      else let k = ToLower uni alertType
           in case golookup alertLabels k of
                Some l \<Rightarrow> l
              | None \<Rightarrow> go_join '' '' (map label_word (filter (\<lambda>w. w \<noteq> []) (go_split CHR ''_'' k))))"


section \<open>What is fired, and the history it is fired into\<close>

record Router =
  ID :: string
  AlertsEnabled :: bool
  HoldMs :: int

record Fired =
  Up :: bool
  AlertType :: string
  ResolveType :: string
  Subject :: string
  fd_Detail :: string
  Value :: float64
  fd_IfaceType :: string
  Supersede :: bool
  Silent :: bool
  Escalation :: bool

text \<open>An alert, and a recovery that closes the alerts of a stored type.\<close>

definition raise :: "string \<Rightarrow> string \<Rightarrow> string \<Rightarrow> Fired" where
  "raise t subject text =
     \<lparr>Up = False, AlertType = t, ResolveType = [], Subject = subject, fd_Detail = text, Value = Fin 0, fd_IfaceType = [],
      Supersede = False, Silent = False, Escalation = False\<rparr>"

definition recover :: "string \<Rightarrow> string \<Rightarrow> string \<Rightarrow> string \<Rightarrow> Fired" where
  "recover t key subject text = (raise t subject text)\<lparr>Up := True, ResolveType := key\<rparr>"

record 's Store =
  HasOpen :: "'s \<Rightarrow> string \<Rightarrow> string \<Rightarrow> string \<Rightarrow> bool"
  Resolve :: "'s \<Rightarrow> string \<Rightarrow> string \<Rightarrow> string \<Rightarrow> int list \<times> 's"
  Record :: "'s \<Rightarrow> string \<Rightarrow> string \<Rightarrow> string \<Rightarrow> string \<Rightarrow> int \<times> 's"

definition emit :: "'s Store \<Rightarrow> Router \<Rightarrow> Fired \<Rightarrow> 's \<Rightarrow> Fired list \<times> 's" where
  "emit ops r f st =
     (let stored = StoredType (AlertType f)
      in if Up f
         then let resolve = (if ResolveType f = [] then stored else ResolveType f)
              in (case Resolve ops st (ID r) resolve (Subject f) of (ids, st1) \<Rightarrow> (if ids = [] then [] else [f], st1))
         else if HasOpen ops st (ID r) stored (Subject f)
         then (if \<not> Supersede f then ([], st)
               else case Resolve ops st (ID r) stored (Subject f) of
                      (stale, st1) \<Rightarrow>
                        let st2 = snd (Record ops st1 (ID r) stored (Subject f) (fd_Detail f))
                        in if stale \<noteq> [] then ([(recover (AlertType f) stored (Subject f) (fd_Detail f))\<lparr>Silent := True\<rparr>, f], st2)
                           else ([f], st2))
         else ([f], snd (Record ops st (ID r) stored (Subject f) (fd_Detail f))))"

section \<open>The evaluator\<close>

record ifState =
  Running :: bool
  ifs_Disabled :: bool

record pingRun =
  the_run :: sustained
  pr_subject :: string
  target :: "string option"

record 's Evaluator =
  store :: 's
  cpu :: sustained
  pings :: "(string, pingRun) gomap"
  prevNetwatchState :: "(string, string) gomap"
  prevNetwatchSince :: "(string, string) gomap"
  prevIfState :: "(string, ifState) gomap"
  prevVPNState :: "(string, string) gomap"
  prevUpdateVersion :: string
  prevBGPState :: "(string, bool) gomap"
  prevBGPPfx :: "(string, float64) gomap"
  prevBGPPfxAlert :: "(string, bool) gomap"
  prevBGPFlap :: "(string, bool) gomap"
  prevBGPHold :: "(string, bool) gomap"

definition NewEvaluator :: "'s \<Rightarrow> 's Evaluator" where
  "NewEvaluator st =
     \<lparr>store = st, cpu = zero_sustained, pings = [], prevNetwatchState = [], prevNetwatchSince = [], prevIfState = [],
      prevVPNState = [], prevUpdateVersion = [], prevBGPState = [], prevBGPPfx = [], prevBGPPfxAlert = [], prevBGPFlap = [],
      prevBGPHold = []\<rparr>"

definition stateMax :: nat where
  "stateMax = 500"

definition capMap :: "(string, 'v) gomap \<Rightarrow> string list \<Rightarrow> (string, 'v) gomap" where
  "capMap m live = (if length m \<le> stateMax then m else filter (\<lambda>(k, v). k \<in> set live) m)"

text \<open>A rule fires some alerts and leaves the evaluator changed; rules run one after another.\<close>

type_synonym 's rule = "'s Evaluator \<Rightarrow> Fired list \<times> 's Evaluator"

definition fire :: "'s Store \<Rightarrow> Router \<Rightarrow> Fired \<Rightarrow> 's rule" where
  "fire ops r f ev = (case emit ops r f (store ev) of (out, st) \<Rightarrow> (out, ev\<lparr>store := st\<rparr>))"

definition no_alert :: "'s rule" where
  "no_alert ev = ([], ev)"

definition and_then :: "'s rule \<Rightarrow> 's rule \<Rightarrow> 's rule" where
  "and_then p q ev = (case p ev of (out1, ev1) \<Rightarrow> case q ev1 of (out2, ev2) \<Rightarrow> (out1 @ out2, ev2))"

fun each :: "('x \<Rightarrow> 's rule) \<Rightarrow> 'x list \<Rightarrow> 's rule" where
  "each f [] ev = ([], ev)"
| "each f (x # xs) ev = and_then (f x) (each f xs) ev"

definition change :: "('s Evaluator \<Rightarrow> 's Evaluator) \<Rightarrow> 's rule" where
  "change g ev = ([], g ev)"

definition watched :: "Router \<Rightarrow> bool" where
  "watched r \<longleftrightarrow> ID r \<noteq> [] \<and> AlertsEnabled r"

section \<open>Ping and CPU\<close>

definition FloorCPU :: float64 where "FloorCPU = Fin 70"
definition FloorPingLoss :: float64 where "FloorPingLoss = Fin 30"

definition pingFired :: "'s Store \<Rightarrow> Router \<Rightarrow> pingRun \<Rightarrow> runVerdict \<Rightarrow> float64 \<Rightarrow> float64 \<Rightarrow> 's rule" where
  "pingFired ops r pr v lvl loss ev =
     (let f = (raise ''Ping Loss'' (pr_subject pr)
                (''Ping loss to '' @ rawTarget (target pr) @ '' is '' @ trimNum loss @ ''%'' @ heldFor lvl (HoldMs r)))\<lparr>Value := lvl\<rparr>
      in case v of
           breach \<Rightarrow> fire ops r f ev
         | escalate \<Rightarrow> ([f\<lparr>Escalation := True\<rparr>], ev)
         | recovered \<Rightarrow> fire ops r (recover ''Ping Restored'' ''ping_loss'' (pr_subject pr) (''Ping to '' @ rawTarget (target pr) @ '' restored'')) ev
         | quiet \<Rightarrow> ([], ev))"

definition zero_pingRun :: pingRun where
  "zero_pingRun = \<lparr>the_run = zero_sustained, pr_subject = [], target = None\<rparr>"

definition PingUpdate :: "'s Store \<Rightarrow> Router \<Rightarrow> millis \<Rightarrow> string option \<Rightarrow> float64 option \<Rightarrow> 's rule" where
  "PingUpdate ops r t tgt loss ev =
     (case loss of
        None \<Rightarrow> ([], ev)
      | Some l \<Rightarrow>
          if \<not> watched r then ([], ev)
          else let named = (case tgt of Some s \<Rightarrow> s \<noteq> [] | None \<Rightarrow> False);
                   k = (if named then the tgt else ''host'');
                   pr = (case golookup (pings ev) k of Some p \<Rightarrow> p | None \<Rightarrow> zero_pingRun)\<lparr>pr_subject := (if named then the tgt else []), target := tgt\<rparr>;
                   kept = filter (\<lambda>(j, other). j = k \<or> fired (the_run other)) (goput k pr (pings ev))
               in case observe t l FloorPingLoss (HoldMs r) (the_run pr) of
                    ((v, lvl), run') \<Rightarrow>
                      pingFired ops r pr v lvl l (ev\<lparr>pings := goput k (pr\<lparr>the_run := run'\<rparr>) kept\<rparr>))"

definition cpuFired :: "'s Store \<Rightarrow> Router \<Rightarrow> runVerdict \<Rightarrow> float64 \<Rightarrow> float64 \<Rightarrow> 's rule" where
  "cpuFired ops r v lvl load ev =
     (let f = (raise ''High CPU'' [] (''CPU at '' @ trimNum load @ ''%'' @ heldFor lvl (HoldMs r)))\<lparr>Value := lvl\<rparr>
      in case v of
           breach \<Rightarrow> fire ops r f ev
         | escalate \<Rightarrow> ([f\<lparr>Escalation := True\<rparr>], ev)
         | recovered \<Rightarrow> fire ops r (recover ''CPU Normal'' ''high_cpu'' [] (''CPU back to '' @ trimNum load @ ''% (below threshold)'')) ev
         | quiet \<Rightarrow> ([], ev))"

definition cpuRule :: "'s Store \<Rightarrow> Router \<Rightarrow> millis \<Rightarrow> float64 option \<Rightarrow> 's rule" where
  "cpuRule ops r t load ev =
     (case load of
        None \<Rightarrow> ([], ev)
      | Some l \<Rightarrow>
          (case observe t l FloorCPU (HoldMs r) (cpu ev) of ((v, lvl), run') \<Rightarrow> cpuFired ops r v lvl l (ev\<lparr>cpu := run'\<rparr>)))"

definition tick_ping :: "'s Store \<Rightarrow> Router \<Rightarrow> millis \<Rightarrow> string \<Rightarrow> 's rule" where
  "tick_ping ops r t k ev =
     (case golookup (pings ev) k of
        None \<Rightarrow> ([], ev)
      | Some pr \<Rightarrow>
          (case tick t FloorPingLoss (HoldMs r) (the_run pr) of
             ((v, lvl), run') \<Rightarrow>
               pingFired ops r pr v lvl (lastV run') (ev\<lparr>pings := goput k (pr\<lparr>the_run := run'\<rparr>) (pings ev)\<rparr>)))"

definition tick_cpu :: "'s Store \<Rightarrow> Router \<Rightarrow> millis \<Rightarrow> 's rule" where
  "tick_cpu ops r t ev =
     (if \<not> seen (cpu ev) then ([], ev)
      else case tick t FloorCPU (HoldMs r) (cpu ev) of
             ((v, lvl), run') \<Rightarrow> cpuFired ops r v lvl (lastV run') (ev\<lparr>cpu := run'\<rparr>))"

text \<open>The evaluator's own \<open>Tick\<close>; the runs of the targets are judged in the order of the map.\<close>

definition Tick :: "'s Store \<Rightarrow> Router \<Rightarrow> millis \<Rightarrow> bool \<Rightarrow> 's rule" where
  "Tick ops r t up ev =
     (if \<not> watched r then ([], ev)
      else if \<not> up
      then ([], ev\<lparr>cpu := interrupt (cpu ev),
                  pings := filter (\<lambda>(k, pr). fired (the_run pr) \<or> seen (the_run pr))
                             (map (\<lambda>(k, pr). (k, pr\<lparr>the_run := interrupt (the_run pr)\<rparr>)) (pings ev))\<rparr>)
      else and_then (tick_cpu ops r t) (each (tick_ping ops r t) (gokeys (pings ev))) ev)"

section \<open>Tunnels, interfaces and hosts\<close>

record VPNTunnel =
  vt_Name :: string
  vt_State :: string

definition vpn_row :: "'s Store \<Rightarrow> Router \<Rightarrow> VPNTunnel \<Rightarrow> 's rule" where
  "vpn_row ops r t ev =
     (let prev = golookup (prevVPNState ev) (vt_Name t);
          wasConn = (prev = Some ''active''); isConn = (vt_State t = ''active'')
      in and_then
           (if prev \<noteq> None \<and> wasConn \<noteq> isConn
            then (if \<not> isConn
                  then fire ops r (raise ''VPN Disconnected'' (vt_Name t) (''VPN peer '' @ vt_Name t @ '' disconnected''))
                  else fire ops r (recover ''VPN Connected'' ''vpn_disconnected'' (vt_Name t) (''VPN peer '' @ vt_Name t @ '' connected'')))
            else no_alert)
           (change (\<lambda>e. e\<lparr>prevVPNState := goput (vt_Name t) (vt_State t) (prevVPNState e)\<rparr>)) ev)"

definition VPNUpdate :: "'s Store \<Rightarrow> Router \<Rightarrow> VPNTunnel list \<Rightarrow> 's rule" where
  "VPNUpdate ops r tunnels ev =
     (if \<not> watched r then ([], ev)
      else and_then (each (vpn_row ops r) tunnels)
             (change (\<lambda>e. e\<lparr>prevVPNState := capMap (prevVPNState e) (map vt_Name tunnels)\<rparr>)) ev)"

record Interface =
  if_Name :: string
  if_Type :: string
  if_Comment :: string
  if_Running :: bool
  if_Disabled :: bool

definition if_row :: "unicode \<Rightarrow> 's Store \<Rightarrow> Router \<Rightarrow> Interface \<Rightarrow> 's rule" where
  "if_row uni ops r i ev =
     (let prev = golookup (prevIfState ev) (if_Name i);
          adminToggled = (if_Disabled i \<or> (case prev of Some p \<Rightarrow> ifs_Disabled p | None \<Rightarrow> False));
          moved = (case prev of Some p \<Rightarrow> Running p \<noteq> if_Running i | None \<Rightarrow> False);
          kind = IfaceType uni (if_Name i) (if_Type i)
      in and_then
           (if moved \<and> \<not> adminToggled
            then (if \<not> if_Running i
                  then fire ops r ((raise ''Interface Down'' (if_Name i) (if_Name i @ '' went down''))\<lparr>fd_IfaceType := kind\<rparr>)
                  else fire ops r ((recover ''Interface Up'' ''interface_down'' (if_Name i) (if_Name i @ '' came up''))\<lparr>fd_IfaceType := kind\<rparr>))
            else no_alert)
           (change (\<lambda>e. e\<lparr>prevIfState := goput (if_Name i) \<lparr>Running = if_Running i, ifs_Disabled = if_Disabled i\<rparr> (prevIfState e)\<rparr>)) ev)"

definition IfstatusUpdate :: "unicode \<Rightarrow> 's Store \<Rightarrow> Router \<Rightarrow> Interface list \<Rightarrow> 's rule" where
  "IfstatusUpdate uni ops r ifaces ev =
     (if \<not> watched r then ([], ev)
      else and_then (each (if_row uni ops r) ifaces)
             (change (\<lambda>e. e\<lparr>prevIfState := capMap (prevIfState e) (map if_Name ifaces)\<rparr>)) ev)"

record NetwatchHost =
  nh_ID :: string
  nh_Host :: string
  nh_Name :: string
  nh_Status :: string
  nh_Since :: string

definition host_name :: "NetwatchHost \<Rightarrow> string" where
  "host_name h = (if nh_Name h = [] then nh_Host h else nh_Name h)"

definition host_desc :: "NetwatchHost \<Rightarrow> string" where
  "host_desc h = (if host_name h \<noteq> nh_Host h then host_name h @ '' ('' @ nh_Host h @ '')'' else nh_Host h)"

definition host_row :: "'s Store \<Rightarrow> Router \<Rightarrow> NetwatchHost \<Rightarrow> 's rule" where
  "host_row ops r h ev =
     (if nh_Status h = ''unknown'' then ([], ev)
      else let prev = golookup (prevNetwatchState ev) (nh_ID h); prevSince = golookup (prevNetwatchSince ev) (nh_ID h);
               wasDown = (prev = Some ''down''); isDown = (nh_Status h = ''down'');
               missedOutage = (prev \<noteq> None \<and> \<not> isDown \<and> \<not> wasDown \<and> nh_Since h \<noteq> [] \<and>
                 (case prevSince of Some s \<Rightarrow> s \<noteq> [] \<and> nh_Since h \<noteq> s | None \<Rightarrow> False));
               name = host_name h; desc = host_desc h
           in and_then
                (if missedOutage
                 then and_then
                        (fire ops r (raise ''Host Down'' name (''NetWatch host '' @ desc @ '' was unreachable'')))
                        (fire ops r (recover ''Host Up'' ''host_down'' name
                           (''NetWatch host '' @ desc @ '' is reachable again (the router saw it return at '' @ nh_Since h @ '')'')))
                 else if prev \<noteq> None \<and> wasDown \<noteq> isDown
                 then (if isDown then fire ops r (raise ''Host Down'' name (''NetWatch host '' @ desc @ '' is unreachable''))
                       else fire ops r (recover ''Host Up'' ''host_down'' name (''NetWatch host '' @ desc @ '' is reachable'')))
                 else no_alert)
                (change (\<lambda>e. e\<lparr>prevNetwatchSince := goput (nh_ID h) (nh_Since h) (prevNetwatchSince e),
                               prevNetwatchState := goput (nh_ID h) (nh_Status h) (prevNetwatchState e)\<rparr>)) ev)"

definition NetwatchUpdate :: "'s Store \<Rightarrow> Router \<Rightarrow> NetwatchHost list \<Rightarrow> 's rule" where
  "NetwatchUpdate ops r hosts ev =
     (if \<not> watched r then ([], ev)
      else and_then (each (host_row ops r) hosts)
             (change (\<lambda>e. e\<lparr>prevNetwatchState := capMap (prevNetwatchState e) (map nh_ID hosts),
                            prevNetwatchSince := capMap (prevNetwatchSince e) (map nh_ID hosts)\<rparr>)) ev)"

section \<open>RouterOS updates, the router itself and the optional features\<close>

definition updateRule :: "'s Store \<Rightarrow> Router \<Rightarrow> bool \<Rightarrow> string \<Rightarrow> string \<Rightarrow> 's rule" where
  "updateRule ops r available latest running ev =
     (if available \<and> latest \<noteq> []
      then (if prevUpdateVersion ev = latest then ([], ev)
            else fire ops r
                   ((raise ''RouterOS Update'' [] (''RouterOS '' @ latest @ '' is available (running '' @ cleanVersion running @ '')''))
                      \<lparr>Supersede := prevUpdateVersion ev \<noteq> []\<rparr>)
                   (ev\<lparr>prevUpdateVersion := latest\<rparr>))
      else if \<not> available \<and> prevUpdateVersion ev \<noteq> []
      then fire ops r (recover ''RouterOS Updated'' ''routeros_update'' [] (''RouterOS is up to date ('' @ cleanVersion running @ '')''))
             (ev\<lparr>prevUpdateVersion := []\<rparr>)
      else ([], ev))"

definition SystemUpdate :: "'s Store \<Rightarrow> Router \<Rightarrow> millis \<Rightarrow> float64 option \<Rightarrow> bool \<Rightarrow> string \<Rightarrow> string \<Rightarrow> 's rule" where
  "SystemUpdate ops r t load available latest running ev =
     (if \<not> watched r then ([], ev)
      else and_then (cpuRule ops r t load) (updateRule ops r available latest running) ev)"

definition SystemCPUOnly :: "'s Store \<Rightarrow> Router \<Rightarrow> millis \<Rightarrow> float64 option \<Rightarrow> 's rule" where
  "SystemCPUOnly ops r t load ev = (if \<not> watched r then ([], ev) else cpuRule ops r t load ev)"

definition RouterStatus :: "'s Store \<Rightarrow> Router \<Rightarrow> bool \<Rightarrow> 's rule" where
  "RouterStatus ops r up ev =
     (if \<not> watched r then ([], ev)
      else if up then fire ops r (recover ''Router Online'' ''router_offline'' [] ''The router is reachable again'') ev
      else fire ops r (raise ''Router Offline'' [] ''The router is not responding'') ev)"

definition DeviceAbsent :: "'s Store \<Rightarrow> Router \<Rightarrow> string \<Rightarrow> string \<Rightarrow> bool \<Rightarrow> 's rule" where
  "DeviceAbsent ops r subject label present ev =
     (if \<not> watched r \<or> subject = [] then ([], ev)
      else let name = (if label = [] then subject else label)
           in if present then fire ops r (recover ''Device Back'' ''device_absent'' subject (name @ '' is on the network again'')) ev
              else fire ops r (raise ''Device Absent'' subject (name @ '' is gone from Wi-Fi and ARP'')) ev)"

definition DomainRouting :: "'s Store \<Rightarrow> Router \<Rightarrow> bool \<Rightarrow> string \<Rightarrow> 's rule" where
  "DomainRouting ops r fine why ev =
     (if \<not> watched r then ([], ev)
      else if fine then fire ops r (recover ''Domain Routing Restored'' ''domain_routing_down'' [] ''Domain-routed traffic has its route again'') ev
      else fire ops r (raise ''Domain Routing Down'' [] why) ev)"

section \<open>BGP\<close>

record BGPPeer =
  bp_Key :: string
  bp_Name :: string
  RemoteAddr :: string
  Description :: string
  bp_State :: string
  Prefixes :: "float64 option"
  Flapping :: bool
  HoldTime :: "float64 option"
  Keepalive :: "float64 option"

text \<open>The fraction \<open>0.2\<close>, as the nearest number the format has.\<close>

definition bgpPfxThresh :: float64 where
  "bgpPfxThresh = Fin (3602879701896397 / 18014398509481984)"

definition peer_name :: "BGPPeer \<Rightarrow> string" where
  "peer_name p = (if bp_Name p \<noteq> [] then bp_Name p else if RemoteAddr p \<noteq> [] then RemoteAddr p else bp_Key p)"

definition peer_where :: "BGPPeer \<Rightarrow> string" where
  "peer_where p = (if RemoteAddr p \<noteq> [] then peer_name p @ '' ('' @ RemoteAddr p @ '')'' else peer_name p)"

definition established :: "BGPPeer \<Rightarrow> bool" where
  "established p \<longleftrightarrow> bp_State p = ''established''"

definition bgp_state :: "'s Store \<Rightarrow> Router \<Rightarrow> BGPPeer \<Rightarrow> 's rule" where
  "bgp_state ops r p ev =
     and_then
       (case golookup (prevBGPState ev) (bp_Key p) of
          None \<Rightarrow> no_alert
        | Some prev \<Rightarrow>
            if prev = established p then no_alert
            else if \<not> established p
            then fire ops r (raise ''BGP Peer Down'' (peer_name p)
                   (''BGP peer '' @ peer_where p @ '' left established ('' @ (if bp_State p = [] then ''unknown'' else bp_State p) @ '')''))
            else fire ops r (recover ''BGP Peer Up'' ''bgp_peer_down'' (peer_name p) (''BGP peer '' @ peer_where p @ '' is established'')))
       (change (\<lambda>e. e\<lparr>prevBGPState := goput (bp_Key p) (established p) (prevBGPState e)\<rparr>)) ev"

definition remembered :: "(string, bool) gomap \<Rightarrow> string \<Rightarrow> bool" where
  "remembered m k = (golookup m k = Some True)"

definition pfx_delta :: "float64 \<Rightarrow> float64 \<Rightarrow> float64" where
  "pfx_delta old now = (let d = fsub now old in if flt d (Fin 0) then fneg d else d)"

definition pfx_swung :: "float64 \<Rightarrow> float64 \<Rightarrow> bool" where
  "pfx_swung old now = fle bgpPfxThresh (fdiv (pfx_delta old now) old)"

text \<open>The arrow of the text is three bytes of UTF-8.\<close>

definition pfx_text :: "BGPPeer \<Rightarrow> float64 \<Rightarrow> float64 \<Rightarrow> string" where
  "pfx_text p old now =
     peer_name p @ '': '' @ (if flt old now then ''+'' else ''-'') @ trimNum (pfx_delta old now) @ '' prefixes ('' @
     trimNum old @ '' '' @ [CHR 0xE2, CHR 0x86, CHR 0x92] @ '' '' @ trimNum now @ '')''"

definition bgp_prefixes :: "'s Store \<Rightarrow> Router \<Rightarrow> BGPPeer \<Rightarrow> 's rule" where
  "bgp_prefixes ops r p ev =
     (if \<not> established p then ([], ev)
      else case Prefixes p of
             None \<Rightarrow> ([], ev)
           | Some now \<Rightarrow>
               and_then
                 (case golookup (prevBGPPfx ev) (bp_Key p) of
                    None \<Rightarrow> no_alert
                  | Some old \<Rightarrow>
                      if \<not> flt (Fin 0) old then no_alert
                      else if pfx_swung old now \<and> \<not> remembered (prevBGPPfxAlert ev) (bp_Key p)
                      then and_then (fire ops r (raise ''BGP Prefix Change'' (peer_name p) (pfx_text p old now)))
                             (change (\<lambda>e. e\<lparr>prevBGPPfxAlert := goput (bp_Key p) True (prevBGPPfxAlert e)\<rparr>))
                      else if \<not> pfx_swung old now \<and> remembered (prevBGPPfxAlert ev) (bp_Key p)
                      then and_then (fire ops r (recover ''BGP Prefixes Settled'' ''bgp_prefix_change'' (peer_name p)
                                (peer_name p @ '': prefix count steady at '' @ trimNum now)))
                             (change (\<lambda>e. e\<lparr>prevBGPPfxAlert := goput (bp_Key p) False (prevBGPPfxAlert e)\<rparr>))
                      else no_alert)
                 (change (\<lambda>e. e\<lparr>prevBGPPfx := goput (bp_Key p) now (prevBGPPfx e)\<rparr>)) ev)"

definition bgp_flap :: "'s Store \<Rightarrow> Router \<Rightarrow> BGPPeer \<Rightarrow> 's rule" where
  "bgp_flap ops r p ev =
     (if Flapping p = remembered (prevBGPFlap ev) (bp_Key p) then ([], ev)
      else and_then
             (if Flapping p
              then fire ops r (raise ''BGP Session Flapping'' (peer_name p) (''BGP session '' @ peer_where p @ '' is flapping''))
              else if golookup (prevBGPFlap ev) (bp_Key p) \<noteq> None
              then fire ops r (recover ''BGP Session Stable'' ''bgp_session_flapping'' (peer_name p) (''BGP session '' @ peer_where p @ '' has stopped flapping''))
              else no_alert)
             (change (\<lambda>e. e\<lparr>prevBGPFlap := goput (bp_Key p) (Flapping p) (prevBGPFlap e)\<rparr>)) ev)"

definition bad_hold :: "BGPPeer \<Rightarrow> bool" where
  "bad_hold p \<longleftrightarrow> established p \<and>
     (case HoldTime p of Some h \<Rightarrow> flt (Fin 0) h \<and> flt h (Fin 9) | None \<Rightarrow> False) \<and> Keepalive p = Some (Fin 0)"

definition bgp_hold :: "'s Store \<Rightarrow> Router \<Rightarrow> BGPPeer \<Rightarrow> 's rule" where
  "bgp_hold ops r p ev =
     (if bad_hold p = remembered (prevBGPHold ev) (bp_Key p) then ([], ev)
      else and_then
             (if bad_hold p
              then fire ops r (raise ''BGP Hold Timer Warning'' (peer_name p)
                     (peer_name p @ '': hold-time='' @ trimNum (the (HoldTime p)) @ ''s, keepalive=0''))
              else if golookup (prevBGPHold ev) (bp_Key p) \<noteq> None
              then fire ops r (recover ''BGP Hold Timer OK'' ''bgp_hold_timer_warning'' (peer_name p) (peer_name p @ '': hold timer no longer misconfigured''))
              else no_alert)
             (change (\<lambda>e. e\<lparr>prevBGPHold := goput (bp_Key p) (bad_hold p) (prevBGPHold e)\<rparr>)) ev)"

definition bgp_row :: "'s Store \<Rightarrow> Router \<Rightarrow> BGPPeer \<Rightarrow> 's rule" where
  "bgp_row ops r p ev =
     (if bp_Key p = [] then ([], ev)
      else and_then (bgp_state ops r p) (and_then (bgp_prefixes ops r p) (and_then (bgp_flap ops r p) (bgp_hold ops r p))) ev)"

definition RoutingUpdate :: "'s Store \<Rightarrow> Router \<Rightarrow> BGPPeer list \<Rightarrow> 's rule" where
  "RoutingUpdate ops r peers ev =
     (if \<not> watched r then ([], ev)
      else let live = filter (\<lambda>k. k \<noteq> []) (map bp_Key peers)
           in and_then (each (bgp_row ops r) peers)
                (change (\<lambda>e. e\<lparr>prevBGPState := capMap (prevBGPState e) live, prevBGPPfx := capMap (prevBGPPfx e) live,
                               prevBGPFlap := capMap (prevBGPFlap e) live, prevBGPHold := capMap (prevBGPHold e) live,
                               prevBGPPfxAlert := capMap (prevBGPPfxAlert e) live\<rparr>)) ev)"

section \<open>Every alert is one of the catalogue\<close>

definition of_type :: "Type \<Rightarrow> Fired \<Rightarrow> bool" where
  "of_type ty f \<longleftrightarrow> \<not> Backup ty \<and> StoredType (Down ty) = Key ty \<and>
     (if Up f then ResolveType f = Key ty \<and> AlertType f = (if Silent f then Down ty else Up_Text ty)
      else AlertType f = Down ty \<and> \<not> Silent f)"

definition listed :: "Fired \<Rightarrow> bool" where
  "listed f = list_ex (\<lambda>ty. of_type ty f) types"

definition down_listed :: "string \<Rightarrow> bool" where
  "down_listed t = list_ex (\<lambda>ty. \<not> Backup ty \<and> Down ty = t) types"

definition up_listed :: "string \<Rightarrow> string \<Rightarrow> bool" where
  "up_listed k t = list_ex (\<lambda>ty. \<not> Backup ty \<and> Key ty = k \<and> Up_Text ty = t) types"

lemma catalogue_keys: "list_all (\<lambda>ty. Backup ty \<or> StoredType (Down ty) = Key ty) types"
  by code_simp

lemma listed_simps [simp]:
  "listed (raise t s d) \<longleftrightarrow> down_listed t"
  "listed (recover t k s d) \<longleftrightarrow> up_listed k t"
  "listed (f\<lparr>Value := v\<rparr>) = listed f" "listed (f\<lparr>fd_IfaceType := i\<rparr>) = listed f"
  "listed (f\<lparr>Supersede := b\<rparr>) = listed f" "listed (f\<lparr>Escalation := b\<rparr>) = listed f"
  using catalogue_keys
  by (auto simp: listed_def down_listed_def up_listed_def of_type_def raise_def recover_def list_ex_iff list_all_iff)

lemma downs [simp]:
  "down_listed ''Ping Loss''" "down_listed ''High CPU''" "down_listed ''VPN Disconnected''" "down_listed ''Interface Down''"
  "down_listed ''Host Down''" "down_listed ''RouterOS Update''" "down_listed ''Router Offline''" "down_listed ''Device Absent''"
  "down_listed ''Domain Routing Down''" "down_listed ''BGP Peer Down''" "down_listed ''BGP Prefix Change''"
  "down_listed ''BGP Session Flapping''" "down_listed ''BGP Hold Timer Warning''"
  by code_simp+

lemma ups [simp]:
  "up_listed ''ping_loss'' ''Ping Restored''" "up_listed ''high_cpu'' ''CPU Normal''" "up_listed ''vpn_disconnected'' ''VPN Connected''"
  "up_listed ''interface_down'' ''Interface Up''" "up_listed ''host_down'' ''Host Up''" "up_listed ''routeros_update'' ''RouterOS Updated''"
  "up_listed ''router_offline'' ''Router Online''" "up_listed ''device_absent'' ''Device Back''"
  "up_listed ''domain_routing_down'' ''Domain Routing Restored''" "up_listed ''bgp_peer_down'' ''BGP Peer Up''"
  "up_listed ''bgp_prefix_change'' ''BGP Prefixes Settled''" "up_listed ''bgp_session_flapping'' ''BGP Session Stable''"
  "up_listed ''bgp_hold_timer_warning'' ''BGP Hold Timer OK''"
  by code_simp+

section \<open>What a rule does to the history\<close>

text \<open>
  A rule touches the history only through \<open>emit\<close>, with alerts of the catalogue; what it fires beside that are
  escalations. Every rule of the evaluator is such a trace, so what holds of every trace holds of every rule.
\<close>

inductive acts :: "'s Store \<Rightarrow> Router \<Rightarrow> 's \<Rightarrow> Fired list \<Rightarrow> 's \<Rightarrow> bool" for ops r where
  acts_nothing: "acts ops r st [] st"
| acts_emit: "listed f \<Longrightarrow> \<not> Silent f \<Longrightarrow> \<not> Escalation f \<Longrightarrow> emit ops r f st = (out, st1) \<Longrightarrow> acts ops r st1 outs st2 \<Longrightarrow>
    acts ops r st (out @ outs) st2"
| acts_escalate: "listed f \<Longrightarrow> \<not> Silent f \<Longrightarrow> \<not> Up f \<Longrightarrow> Escalation f \<Longrightarrow> acts ops r st outs st2 \<Longrightarrow> acts ops r st (f # outs) st2"

definition does :: "'s Store \<Rightarrow> Router \<Rightarrow> 's Evaluator \<Rightarrow> Fired list \<times> 's Evaluator \<Rightarrow> bool" where
  "does ops r ev res \<longleftrightarrow> acts ops r (store ev) (fst res) (store (snd res))"

lemma acts_append: "acts ops r st outs st1 \<Longrightarrow> acts ops r st1 outs' st2 \<Longrightarrow> acts ops r st (outs @ outs') st2"
proof (induction rule: acts.induct)
  case (acts_emit f st out st1 outs st3)
  then show ?case using acts.acts_emit [of f ops r st out st1 "outs @ outs'" st2] by simp
next
  case (acts_escalate f st outs st3)
  then show ?case using acts.acts_escalate [of f ops r st "outs @ outs'" st2] by simp
qed simp

named_theorems rule_intros "what a rule does"

lemma does_nothing [rule_intros]: "does ops r ev ([], ev)" "does ops r ev (no_alert ev)"
  "store (g ev) = store ev \<Longrightarrow> does ops r ev (change g ev)" "store ev1 = store ev \<Longrightarrow> does ops r ev ([], ev1)"
  by (simp_all add: does_def no_alert_def change_def acts_nothing)

lemma does_fire [rule_intros]:
  "listed f \<Longrightarrow> \<not> Silent f \<Longrightarrow> \<not> Escalation f \<Longrightarrow> store ev1 = store ev \<Longrightarrow> does ops r ev (fire ops r f ev1)"
  using acts_emit [of f ops r "store ev" "fst (emit ops r f (store ev))" "snd (emit ops r f (store ev))" "[]"] acts_nothing [of ops r]
  by (simp add: does_def fire_def case_prod_unfold)

lemma does_escalate [rule_intros]:
  "listed f \<Longrightarrow> \<not> Silent f \<Longrightarrow> \<not> Up f \<Longrightarrow> Escalation f \<Longrightarrow> store ev1 = store ev \<Longrightarrow> does ops r ev ([f], ev1)"
  using acts_escalate [OF _ _ _ _ acts_nothing] by (simp add: does_def)

lemma does_then [rule_intros]:
  "does ops r ev (p ev) \<Longrightarrow> (\<And>e. does ops r e (q e)) \<Longrightarrow> does ops r ev (and_then p q ev)"
  unfolding does_def and_then_def case_prod_unfold by (simp add: acts_append)

lemma does_each [rule_intros]: "(\<And>x e. does ops r e (f x e)) \<Longrightarrow> does ops r ev (each f xs ev)"
proof (induction xs arbitrary: ev)
  case (Cons x xs)
  have "does ops r e (each f xs e)" for e using Cons by blast
  then show ?case using Cons.prems by (simp add: does_then)
qed (simp add: does_def acts_nothing)

lemma raised [simp]:
  "\<not> Silent (raise t s d)" "\<not> Escalation (raise t s d)" "\<not> Up (raise t s d)"
  "\<not> Silent (recover t k s d)" "\<not> Escalation (recover t k s d)" "Up (recover t k s d)"
  by (simp_all add: raise_def recover_def)

lemma does_ping [rule_intros]: "store ev1 = store ev \<Longrightarrow> does ops r ev (pingFired ops r pr v l loss ev1)"
  by (cases v) (auto simp: pingFired_def Let_def intro!: rule_intros)

lemma does_cpu [rule_intros]: "store ev1 = store ev \<Longrightarrow> does ops r ev (cpuFired ops r v l loss ev1)"
  by (cases v) (auto simp: cpuFired_def Let_def intro!: rule_intros)

lemma does_readings [rule_intros]:
  "does ops r ev (PingUpdate ops r t tgt loss ev)" "does ops r ev (cpuRule ops r t load ev)" "does ops r ev (Tick ops r t up ev)"
proof -
  show "does ops r ev (PingUpdate ops r t tgt loss ev)"
    unfolding PingUpdate_def Let_def by (auto intro!: rule_intros split: option.split prod.split)
  show "does ops r ev (cpuRule ops r t load ev)"
    unfolding cpuRule_def by (auto intro!: rule_intros split: option.split prod.split)
  have "does ops r e (tick_cpu ops r t e)" for e
    unfolding tick_cpu_def by (auto intro!: rule_intros split: prod.split)
  moreover have "does ops r e (tick_ping ops r t k e)" for k e
    unfolding tick_ping_def by (auto intro!: rule_intros split: option.split prod.split)
  ultimately show "does ops r ev (Tick ops r t up ev)"
    unfolding Tick_def by (auto intro!: rule_intros)
qed

lemma does_rows [rule_intros]:
  "does ops r ev (vpn_row ops r t ev)" "does ops r ev (if_row uni ops r i ev)" "does ops r ev (host_row ops r h ev)"
  unfolding vpn_row_def if_row_def host_row_def Let_def by (auto intro!: rule_intros)

lemma does_bgp [rule_intros]: "does ops r ev (bgp_row ops r p ev)"
proof -
  have "does ops r e (bgp_state ops r p e)" for e
    unfolding bgp_state_def by (auto intro!: rule_intros split: option.split)
  moreover have "does ops r e (bgp_prefixes ops r p e)" for e
    unfolding bgp_prefixes_def by (auto intro!: rule_intros split: option.split)
  moreover have "does ops r e (bgp_flap ops r p e)" for e
    unfolding bgp_flap_def by (auto intro!: rule_intros)
  moreover have "does ops r e (bgp_hold ops r p e)" for e
    unfolding bgp_hold_def by (auto intro!: rule_intros)
  ultimately show ?thesis unfolding bgp_row_def by (auto intro!: rule_intros)
qed

lemma does_update [rule_intros]: "does ops r ev (updateRule ops r av lat rn ev)"
  unfolding updateRule_def by (auto intro!: rule_intros)

lemma does_updates [rule_intros]:
  "does ops r ev (VPNUpdate ops r ts ev)" "does ops r ev (IfstatusUpdate uni ops r is ev)" "does ops r ev (NetwatchUpdate ops r hs ev)"
  "does ops r ev (RoutingUpdate ops r ps ev)" "does ops r ev (SystemUpdate ops r t load av lat rn ev)"
  "does ops r ev (SystemCPUOnly ops r t load ev)" "does ops r ev (RouterStatus ops r up ev)"
  "does ops r ev (DeviceAbsent ops r subject label present ev)" "does ops r ev (DomainRouting ops r fine why ev)"
  unfolding VPNUpdate_def IfstatusUpdate_def NetwatchUpdate_def RoutingUpdate_def SystemUpdate_def SystemCPUOnly_def
    RouterStatus_def DeviceAbsent_def DomainRouting_def Let_def
  by (auto intro!: rule_intros)


lemma emit_listed:
  assumes "listed f" "\<not> Silent f" shows "list_all listed (fst (emit ops r f st))"
proof -
  obtain ty where ty: "ty \<in> set types" "of_type ty f" using assms(1) by (auto simp: listed_def list_ex_iff)
  then have "of_type ty ((recover (AlertType f) (StoredType (AlertType f)) (Subject f) (fd_Detail f))\<lparr>Silent := True\<rparr>)" if "\<not> Up f"
    using that by (auto simp: of_type_def recover_def raise_def)
  then have "listed ((recover (AlertType f) (StoredType (AlertType f)) (Subject f) (fd_Detail f))\<lparr>Silent := True\<rparr>)" if "\<not> Up f"
    using that ty(1) by (auto simp: listed_def list_ex_iff)
  then show ?thesis using assms(1) by (simp add: emit_def Let_def split: prod.split)
qed

lemma acts_listed: "acts ops r st out st1 \<Longrightarrow> list_all listed out"
proof (induction rule: acts.induct)
  case (acts_emit f st out st1 outs st2)
  then show ?case using emit_listed [of f ops r st] by simp
qed simp_all

section \<open>Edges, not levels\<close>

text \<open>
  The rules over the rows of a table (tunnels, interfaces, hosts) judge a row by the row it was when last seen. The
  sightings are kept here as whole rows, newest reading first: a row that tells something replaces what was known under
  its key, and only when more than \<open>stateMax\<close> rows are known are the ones that left the table forgotten.
\<close>

fun sightings :: "('x \<Rightarrow> string) \<Rightarrow> ('x \<Rightarrow> bool) \<Rightarrow> 'x list list \<Rightarrow> string \<rightharpoonup> 'x" where
  "sightings key tells [] = Map.empty"
| "sightings key tells (xs # past) =
     (let m = sightings key tells past ++ map_of (map (\<lambda>x. (key x, x)) (filter tells xs))
      in if card (dom m) \<le> stateMax then m else m |` (key ` set xs))"

text \<open>What a change from \<open>was\<close> to \<open>is\<close> asks for: nothing at a first sighting, nothing when there is none.\<close>

definition edge :: "bool option \<Rightarrow> bool \<Rightarrow> Fired \<Rightarrow> Fired \<Rightarrow> Fired list" where
  "edge was is down up = (case was of None \<Rightarrow> [] | Some b \<Rightarrow> if b = is then [] else if is then [up] else [down])"

definition vpn_edges :: "VPNTunnel option \<Rightarrow> VPNTunnel \<Rightarrow> Fired list" where
  "vpn_edges was t =
     edge (map_option (\<lambda>p. vt_State p = ''active'') was) (vt_State t = ''active'')
       (raise ''VPN Disconnected'' (vt_Name t) (''VPN peer '' @ vt_Name t @ '' disconnected''))
       (recover ''VPN Connected'' ''vpn_disconnected'' (vt_Name t) (''VPN peer '' @ vt_Name t @ '' connected''))"

text \<open>An interface somebody switched off, now or when last seen, tells nothing.\<close>

definition if_edges :: "unicode \<Rightarrow> Interface option \<Rightarrow> Interface \<Rightarrow> Fired list" where
  "if_edges uni was i =
     (if if_Disabled i \<or> (\<exists>p. was = Some p \<and> if_Disabled p) then []
      else map (\<lambda>f. f\<lparr>fd_IfaceType := IfaceType uni (if_Name i) (if_Type i)\<rparr>)
        (edge (map_option if_Running was) (if_Running i)
          (raise ''Interface Down'' (if_Name i) (if_Name i @ '' went down''))
          (recover ''Interface Up'' ''interface_down'' (if_Name i) (if_Name i @ '' came up''))))"

text \<open>A host up at both sightings, but since another time than before, was down in between: both are told.\<close>

definition host_edges :: "NetwatchHost option \<Rightarrow> NetwatchHost \<Rightarrow> Fired list" where
  "host_edges was h =
     (if nh_Status h = ''unknown'' then []
      else if nh_Status h \<noteq> ''down'' \<and> nh_Since h \<noteq> [] \<and>
          (\<exists>p. was = Some p \<and> nh_Status p \<noteq> ''down'' \<and> nh_Since p \<noteq> [] \<and> nh_Since p \<noteq> nh_Since h)
      then [raise ''Host Down'' (host_name h) (''NetWatch host '' @ host_desc h @ '' was unreachable''),
            recover ''Host Up'' ''host_down'' (host_name h)
              (''NetWatch host '' @ host_desc h @ '' is reachable again (the router saw it return at '' @ nh_Since h @ '')'')]
      else edge (map_option (\<lambda>p. nh_Status p \<noteq> ''down'') was) (nh_Status h \<noteq> ''down'')
             (raise ''Host Down'' (host_name h) (''NetWatch host '' @ host_desc h @ '' is unreachable''))
             (recover ''Host Up'' ''host_down'' (host_name h) (''NetWatch host '' @ host_desc h @ '' is reachable'')))"

text \<open>Alerts handed to a history one after another, and an evaluator that was fed tables before.\<close>

fun fires :: "'s Store \<Rightarrow> Router \<Rightarrow> Fired list \<Rightarrow> 's \<Rightarrow> Fired list \<times> 's" where
  "fires ops r [] st = ([], st)"
| "fires ops r (f # fs) st =
     (case emit ops r f st of (out1, st1) \<Rightarrow> case fires ops r fs st1 of (out2, st2) \<Rightarrow> (out1 @ out2, st2))"

fun polled :: "(millis \<Rightarrow> 'x list \<Rightarrow> 's rule) \<Rightarrow> (millis \<times> 'x list) list \<Rightarrow> 's Evaluator \<Rightarrow> 's Evaluator" where
  "polled upd [] ev = ev"
| "polled upd ((t, xs) # polls) ev = polled upd polls (snd (upd t xs ev))"

lemma fires_append:
  "fst (fires ops r (fs @ gs) st) = fst (fires ops r fs st) @ fst (fires ops r gs (snd (fires ops r fs st)))"
  "snd (fires ops r (fs @ gs) st) = snd (fires ops r gs (snd (fires ops r fs st)))"
  by (induction fs arbitrary: st) (simp_all add: case_prod_unfold)

lemma and_then_parts [simp]:
  "fst (and_then p q ev) = fst (p ev) @ fst (q (snd (p ev)))" "snd (and_then p q ev) = snd (q (snd (p ev)))"
  by (simp_all add: and_then_def split: prod.split)

lemma rule_parts [simp]:
  "fst (no_alert ev) = []" "snd (no_alert ev) = ev" "fst (change g ev) = []" "snd (change g ev) = g ev"
  by (simp_all add: no_alert_def change_def)

lemma fire_parts [simp]:
  "fst (fire ops r f ev) = fst (emit ops r f (store ev))" "snd (fire ops r f ev) = ev\<lparr>store := snd (emit ops r f (store ev))\<rparr>"
  by (simp_all add: fire_def split: prod.split)

text \<open>
  A rule over rows: \<open>knows ev m\<close> says that the evaluator recalls the sightings \<open>m\<close>, as far as the rule reads them. A row
  fires what its edges ask for and is then the one remembered, and forgetting keeps to the bound.
\<close>

locale edge_rule =
  fixes row :: "'s Store \<Rightarrow> Router \<Rightarrow> 'x \<Rightarrow> 's rule" and key :: "'x \<Rightarrow> string" and tells :: "'x \<Rightarrow> bool"
    and edges :: "'x option \<Rightarrow> 'x \<Rightarrow> Fired list" and knows :: "'s Evaluator \<Rightarrow> (string \<rightharpoonup> 'x) \<Rightarrow> bool"
    and trims :: "string list \<Rightarrow> 's Evaluator \<Rightarrow> 's Evaluator"
  assumes row_fires: "knows ev m \<Longrightarrow> fst (row ops r x ev) = fst (fires ops r (edges (m (key x)) x) (store ev))"
    and row_store: "knows ev m \<Longrightarrow> store (snd (row ops r x ev)) = snd (fires ops r (edges (m (key x)) x) (store ev))"
    and row_knows: "knows ev m \<Longrightarrow> knows (snd (row ops r x ev)) (if tells x then m(key x \<mapsto> x) else m)"
    and trims_knows: "knows ev m \<Longrightarrow> knows (trims live ev) (if card (dom m) \<le> stateMax then m else m |` set live)"
    and trims_store: "store (trims live ev) = store ev"
    and new_knows: "knows (NewEvaluator st) Map.empty"
begin

definition update :: "'s Store \<Rightarrow> Router \<Rightarrow> 'x list \<Rightarrow> 's rule" where
  "update ops r xs = and_then (each (row ops r) xs) (change (trims (map key xs)))"

lemma each_exact:
  assumes "knows ev m" "distinct (map key xs)"
  shows "fst (each (row ops r) xs ev) = fst (fires ops r (concat (map (\<lambda>x. edges (m (key x)) x) xs)) (store ev)) \<and>
    knows (snd (each (row ops r) xs ev)) (m ++ map_of (map (\<lambda>x. (key x, x)) (filter tells xs)))"
  using assms
proof (induction xs arbitrary: ev m)
  case (Cons x xs)
  let ?m = "if tells x then m(key x \<mapsto> x) else m" and ?ev = "snd (row ops r x ev)"
  have fresh: "key x \<notin> key ` set xs" "distinct (map key xs)" using Cons.prems(2) by simp_all
  then have same: "map (\<lambda>y. edges (?m (key y)) y) xs = map (\<lambda>y. edges (m (key y)) y) xs"
  proof (intro map_cong refl)
    fix y assume "y \<in> set xs"
    then have "key y \<noteq> key x" using fresh(1) by (metis image_eqI)
    then show "edges (?m (key y)) y = edges (m (key y)) y" by simp
  qed
  have "map_of (map (\<lambda>x. (key x, x)) (filter tells xs)) (key x) = None" using fresh(1) by (auto simp: map_of_eq_None_iff)
  then have "?m ++ map_of (map (\<lambda>x. (key x, x)) (filter tells xs)) = m ++ map_of (map (\<lambda>x. (key x, x)) (filter tells (x # xs)))"
    by (auto simp: map_add_def fun_eq_iff split: option.split)
  then show ?case
    using Cons.IH [OF row_knows [OF Cons.prems(1), of ops r x] fresh(2)] row_fires [OF Cons.prems(1), of ops r x] row_store [OF Cons.prems(1), of ops r x]
    unfolding same by (simp add: fires_append)
qed simp

lemma update_exact:
  assumes "knows ev m" "distinct (map key xs)"
  shows "fst (update ops r xs ev) = fst (fires ops r (concat (map (\<lambda>x. edges (m (key x)) x) xs)) (store ev))"
  using each_exact [OF assms, of ops r] by (simp add: update_def)

lemma polled_knows:
  assumes "knows ev (sightings key tells past)" "\<forall>p\<in>set polls. distinct (map key (snd p))"
  shows "knows (polled (\<lambda>t xs. update (ops t) r xs) polls ev) (sightings key tells (rev (map snd polls) @ past))"
  using assms
proof (induction polls arbitrary: ev past)
  case (Cons p polls)
  obtain t xs where p: "p = (t, xs)" by (cases p)
  have k: "knows (snd (each (row (ops t) r) xs ev)) (sightings key tells past ++ map_of (map (\<lambda>x. (key x, x)) (filter tells xs)))"
    using each_exact [OF Cons.prems(1)] Cons.prems(2) p by simp
  have "knows (snd (update (ops t) r xs ev)) (sightings key tells (xs # past))"
    using trims_knows [OF k, of "map key xs"] by (simp only: update_def and_then_parts rule_parts sightings.simps Let_def set_map)
  from Cons.IH [OF this] Cons.prems(2) p show ?case by simp
qed simp

lemma table_exact:
  assumes "\<forall>p\<in>set polls. distinct (map key (snd p))" "distinct (map key xs)"
  shows "fst (update ops' r xs (polled (\<lambda>t xs. update (ops t) r xs) polls (NewEvaluator st))) =
    fst (fires ops' r (concat (map (\<lambda>x. edges (sightings key tells (rev (map snd polls)) (key x)) x) xs))
      (store (polled (\<lambda>t xs. update (ops t) r xs) polls (NewEvaluator st))))"
proof -
  have "knows (NewEvaluator st) (sightings key tells [])" using new_knows by simp
  from update_exact [OF polled_knows [OF this assms(1), of ops r] assms(2)] show ?thesis by simp
qed

end

text \<open>One map of the evaluator that recalls a part of every row.\<close>

definition recalls :: "('x \<Rightarrow> 'v) \<Rightarrow> (string, 'v) gomap \<Rightarrow> (string \<rightharpoonup> 'x) \<Rightarrow> bool" where
  "recalls part mem m \<longleftrightarrow> gomap_ok mem \<and> (\<forall>k. golookup mem k = map_option part (m k))"

lemma recalls_put: "recalls part mem m \<Longrightarrow> v = part x \<Longrightarrow> recalls part (goput k v mem) (m(k \<mapsto> x))"
  by (auto simp: recalls_def golookup_put)

lemma recalls_cap:
  assumes "recalls part mem m"
  shows "recalls part (capMap mem live) (if card (dom m) \<le> stateMax then m else m |` set live)"
proof -
  have ok: "gomap_ok mem" and look: "\<And>k. golookup mem k = map_option part (m k)" using assms by (simp_all add: recalls_def)
  have "dom m = dom (golookup mem)" using look by (auto simp: dom_def)
  then have "dom m = set (gokeys mem)" by (simp add: dom_map_of_conv_image_fst)
  then have n: "card (dom m) = length mem" using ok by (metis distinct_card length_map)
  have ok1: "gomap_ok (filter (\<lambda>(k, v). k \<in> set live) mem)" using ok by (simp add: distinct_map_filter)
  have "golookup (filter (\<lambda>(k, v). k \<in> set live) mem) k = (if k \<in> set live then golookup mem k else None)" for k
    by (induction mem) auto
  with n ok ok1 look show ?thesis by (auto simp: recalls_def capMap_def restrict_map_def)
qed

lemma recalls_empty: "recalls part [] Map.empty"
  by (simp add: recalls_def)

lemmas recalls_simps = recalls_put recalls_cap recalls_empty

definition vpn_knows :: "'s Evaluator \<Rightarrow> (string \<rightharpoonup> VPNTunnel) \<Rightarrow> bool" where
  "vpn_knows ev m = recalls vt_State (prevVPNState ev) m"

definition if_knows :: "'s Evaluator \<Rightarrow> (string \<rightharpoonup> Interface) \<Rightarrow> bool" where
  "if_knows ev m = recalls (\<lambda>i. \<lparr>Running = if_Running i, ifs_Disabled = if_Disabled i\<rparr>) (prevIfState ev) m"

definition host_knows :: "'s Evaluator \<Rightarrow> (string \<rightharpoonup> NetwatchHost) \<Rightarrow> bool" where
  "host_knows ev m \<longleftrightarrow> recalls nh_Status (prevNetwatchState ev) m \<and> recalls nh_Since (prevNetwatchSince ev) m"

lemma knows_lookup:
  "vpn_knows ev mv \<Longrightarrow> golookup (prevVPNState ev) k = map_option vt_State (mv k)"
  "if_knows ev mi \<Longrightarrow> golookup (prevIfState ev) k = map_option (\<lambda>i. \<lparr>Running = if_Running i, ifs_Disabled = if_Disabled i\<rparr>) (mi k)"
  "host_knows ev mh \<Longrightarrow> golookup (prevNetwatchState ev) k = map_option nh_Status (mh k)"
  "host_knows ev mh \<Longrightarrow> golookup (prevNetwatchSince ev) k = map_option nh_Since (mh k)"
  by (simp_all add: vpn_knows_def if_knows_def host_knows_def recalls_def)

interpretation vpn_rows: edge_rule vpn_row vt_Name "\<lambda>_. True" vpn_edges vpn_knows
  "\<lambda>live e. e\<lparr>prevVPNState := capMap (prevVPNState e) live\<rparr>"
proof (unfold_locales, goal_cases)
  case (1 ev m ops r x)
  then show ?case
    by (cases "m (vt_Name x)") (auto simp: vpn_row_def vpn_edges_def edge_def Let_def knows_lookup simp del: map_of_eq_Some_iff split: prod.split)
next
  case (2 ev m ops r x)
  then show ?case
    by (cases "m (vt_Name x)") (auto simp: vpn_row_def vpn_edges_def edge_def Let_def knows_lookup simp del: map_of_eq_Some_iff split: prod.split)
qed (auto simp: vpn_row_def vpn_knows_def NewEvaluator_def Let_def recalls_simps simp del: map_of_eq_Some_iff fun_upd_apply)

interpretation if_rows: edge_rule "if_row uni" if_Name "\<lambda>_. True" "if_edges uni" if_knows
  "\<lambda>live e. e\<lparr>prevIfState := capMap (prevIfState e) live\<rparr>"
proof (unfold_locales, goal_cases)
  case (1 ev m ops r x)
  then show ?case
    by (cases "m (if_Name x)") (auto simp: if_row_def if_edges_def edge_def Let_def knows_lookup simp del: map_of_eq_Some_iff split: prod.split)
next
  case (2 ev m ops r x)
  then show ?case
    by (cases "m (if_Name x)") (auto simp: if_row_def if_edges_def edge_def Let_def knows_lookup simp del: map_of_eq_Some_iff split: prod.split)
qed (auto simp: if_row_def if_knows_def NewEvaluator_def Let_def recalls_simps simp del: map_of_eq_Some_iff fun_upd_apply)

interpretation host_rows: edge_rule host_row nh_ID "\<lambda>h. nh_Status h \<noteq> ''unknown''" host_edges host_knows
  "\<lambda>live e. e\<lparr>prevNetwatchState := capMap (prevNetwatchState e) live, prevNetwatchSince := capMap (prevNetwatchSince e) live\<rparr>"
proof (unfold_locales, goal_cases)
  case (1 ev m ops r x)
  then show ?case
    by (cases "m (nh_ID x)") (auto simp: host_row_def host_edges_def edge_def Let_def knows_lookup simp del: map_of_eq_Some_iff split: prod.split)
next
  case (2 ev m ops r x)
  then show ?case
    by (cases "m (nh_ID x)") (auto simp: host_row_def host_edges_def edge_def Let_def knows_lookup simp del: map_of_eq_Some_iff split: prod.split)
qed (auto simp: host_row_def host_knows_def NewEvaluator_def Let_def recalls_simps simp del: map_of_eq_Some_iff fun_upd_apply)

lemma updates_of_rows:
  assumes "watched r"
  shows "VPNUpdate ops r = vpn_rows.update ops r" "IfstatusUpdate uni ops r = if_rows.update uni ops r"
    "NetwatchUpdate ops r = host_rows.update ops r"
  using assms by (simp_all add: fun_eq_iff VPNUpdate_def IfstatusUpdate_def NetwatchUpdate_def
      vpn_rows.update_def if_rows.update_def host_rows.update_def)

end
