(* ===== verification/Alert_Wire.thy ===== *)
theory Alert_Wire
  imports Alert_Rules
begin

text \<open>
  The two memories an evaluator's alerts can have, the table \<open>alert_events\<close> (\<^verbatim>\<open>internal/db/alertwrite.go\<close>) and the one
  in memory (\<^verbatim>\<open>internal/alertwire/memstore.go\<close>), and the wire that gives every router its evaluator and its store and
  feeds it the collectors' payloads (\<^verbatim>\<open>internal/alertwire/wire.go\<close>).
\<close>

section \<open>The alert history in the database\<close>

record AlertRow =
  ar_ID :: int
  RouterID :: string
  ar_AlertType :: string
  ar_Subject :: "string option"
  ar_Detail :: "string option"
  FiredAt :: millis
  ResolvedAt :: "millis option"

definition nullIfEmpty :: "string \<Rightarrow> string option" where
  "nullIfEmpty s = (if s = [] then None else Some s)"

definition open_row :: "string \<Rightarrow> string \<Rightarrow> string \<Rightarrow> AlertRow \<Rightarrow> bool" where
  "open_row r t subject a \<longleftrightarrow>
     RouterID a = r \<and> ar_AlertType a = t \<and> ar_Subject a = nullIfEmpty subject \<and> ResolvedAt a = None"

definition HasOpenAlert :: "AlertRow list \<Rightarrow> string \<Rightarrow> string \<Rightarrow> string \<Rightarrow> bool" where
  "HasOpenAlert rows r t subject = list_ex (open_row r t subject) rows"

text \<open>A primary key of SQLite is one more than the largest there.\<close>

definition next_id :: "AlertRow list \<Rightarrow> int" where
  "next_id rows = foldl (\<lambda>m a. max m (ar_ID a)) 0 rows + 1"

definition InsertAlertEvent :: "millis \<Rightarrow> AlertRow list \<Rightarrow> string \<Rightarrow> string \<Rightarrow> string \<Rightarrow> string \<Rightarrow> int \<times> AlertRow list" where
  "InsertAlertEvent now rows r t subject text =
     (next_id rows, rows @ [\<lparr>ar_ID = next_id rows, RouterID = r, ar_AlertType = t, ar_Subject = nullIfEmpty subject,
        ar_Detail = nullIfEmpty text, FiredAt = now, ResolvedAt = None\<rparr>])"

definition ResolveAlertEvent :: "millis \<Rightarrow> AlertRow list \<Rightarrow> string \<Rightarrow> string \<Rightarrow> string \<Rightarrow> int list \<times> AlertRow list" where
  "ResolveAlertEvent now rows r t subject =
     (map ar_ID (filter (open_row r t subject) rows),
      map (\<lambda>a. if open_row r t subject a then a\<lparr>ResolvedAt := Some now\<rparr> else a) rows)"

section \<open>The alert history in memory\<close>

record memStore =
  open_ids :: "(string \<times> string \<times> string, int) gomap"
  next_mem :: int

text \<open>The key joins its three fields with a byte that none of them has; here it is the fields.\<close>

definition newMemStore :: memStore where
  "newMemStore = \<lparr>open_ids = [], next_mem = 0\<rparr>"

definition mem_HasOpen :: "memStore \<Rightarrow> string \<Rightarrow> string \<Rightarrow> string \<Rightarrow> bool" where
  "mem_HasOpen m r t subject = (golookup (open_ids m) (r, t, subject) \<noteq> None)"

definition mem_Resolve :: "memStore \<Rightarrow> string \<Rightarrow> string \<Rightarrow> string \<Rightarrow> int list \<times> memStore" where
  "mem_Resolve m r t subject =
     (case golookup (open_ids m) (r, t, subject) of
        None \<Rightarrow> ([], m)
      | Some i \<Rightarrow> ([i], m\<lparr>open_ids := godelete (r, t, subject) (open_ids m)\<rparr>))"

definition mem_Record :: "memStore \<Rightarrow> string \<Rightarrow> string \<Rightarrow> string \<Rightarrow> string \<Rightarrow> int \<times> memStore" where
  "mem_Record m r t subject text =
     (next_mem m - 1, m\<lparr>next_mem := next_mem m - 1, open_ids := goput (r, t, subject) (next_mem m - 1) (open_ids m)\<rparr>)"

section \<open>One interface for both\<close>

datatype history = In_Db "AlertRow list" | In_Memory memStore

definition store_ops :: "millis \<Rightarrow> history Store" where
  "store_ops now =
     \<lparr>HasOpen = (\<lambda>h r t s. case h of In_Db rows \<Rightarrow> HasOpenAlert rows r t s | In_Memory m \<Rightarrow> mem_HasOpen m r t s),
      Resolve = (\<lambda>h r t s. case h of In_Db rows \<Rightarrow> map_prod id In_Db (ResolveAlertEvent now rows r t s)
                                 | In_Memory m \<Rightarrow> map_prod id In_Memory (mem_Resolve m r t s)),
      Record = (\<lambda>h r t s d. case h of In_Db rows \<Rightarrow> map_prod id In_Db (InsertAlertEvent now rows r t s d)
                                  | In_Memory m \<Rightarrow> map_prod id In_Memory (mem_Record m r t s d))\<rparr>"

section \<open>The wire\<close>

text \<open>
  What is fed to the rules: the collectors' payloads as the adapters hand them on, the verdicts that have no payload,
  and the clock. A reading of the system that carries no verdict about updates is \<open>UpdateUnknown\<close>.
\<close>

datatype payload =
    System float64 bool bool string string
  | Ping string "float64 option"
  | IfStatus "Interface list"
  | VPN "VPNTunnel list"
  | Netwatch "(NetwatchHost \<times> bool) list"
  | Routing "BGPPeer list"
  | Connectivity bool
  | Device string string bool
  | Domain bool string

text \<open>A host that is disabled is not probed, and reads as unknown.\<close>

definition hosts :: "(NetwatchHost \<times> bool) list \<Rightarrow> NetwatchHost list" where
  "hosts hs = map (\<lambda>(h, disabled). if disabled then h\<lparr>nh_Status := ''unknown''\<rparr> else h) hs"

definition feed_rules :: "unicode \<Rightarrow> Router \<Rightarrow> millis \<Rightarrow> payload \<Rightarrow> history rule" where
  "feed_rules uni r t p =
     (let ops = store_ops t
      in case p of
           System l unk av lat rn \<Rightarrow> if unk then SystemCPUOnly ops r t (Some l) else SystemUpdate ops r t (Some l) av lat rn
         | Ping tgt loss \<Rightarrow> PingUpdate ops r t (Some tgt) loss
         | IfStatus is \<Rightarrow> IfstatusUpdate uni ops r is
         | VPN ts \<Rightarrow> VPNUpdate ops r ts
         | Netwatch hs \<Rightarrow> NetwatchUpdate ops r (hosts hs)
         | Routing ps \<Rightarrow> RoutingUpdate ops r ps
         | Connectivity up \<Rightarrow> RouterStatus ops r up
         | Device subject label present \<Rightarrow> DeviceAbsent ops r subject label present
         | Domain fine why \<Rightarrow> DomainRouting ops r fine why)"

text \<open>
  A router's evaluator with the store it was built with: the store of the database is a reference to the one table, the
  one in memory is its own.
\<close>

record Wire =
  hist :: "AlertRow list"
  evals :: "(string, bool \<times> history Evaluator) gomap"
  persist :: "(string, bool) gomap"

definition New_Wire :: "AlertRow list \<Rightarrow> Wire" where
  "New_Wire rows = \<lparr>hist = rows, evals = [], persist = []\<rparr>"

definition persists :: "Wire \<Rightarrow> string \<Rightarrow> bool" where
  "persists w r = (case golookup (persist w) r of None \<Rightarrow> True | Some on \<Rightarrow> on)"

definition fresh_evaluator :: "Wire \<Rightarrow> string \<Rightarrow> bool \<times> history Evaluator" where
  "fresh_evaluator w r = (persists w r, NewEvaluator (if persists w r then In_Db [] else In_Memory newMemStore))"

text \<open>The evaluator of a router, reading the table as it is now if that is its store.\<close>

definition forRouter :: "Wire \<Rightarrow> string \<Rightarrow> bool \<times> history Evaluator" where
  "forRouter w r =
     (case (case golookup (evals w) r of Some e \<Rightarrow> e | None \<Rightarrow> fresh_evaluator w r) of
        (db, ev) \<Rightarrow> (db, if db then ev\<lparr>store := In_Db (hist w)\<rparr> else ev))"

definition put_back :: "Wire \<Rightarrow> string \<Rightarrow> bool \<Rightarrow> history Evaluator \<Rightarrow> Wire" where
  "put_back w r db ev =
     w\<lparr>evals := goput r (db, ev) (evals w),
       hist := (case store ev of In_Db rows \<Rightarrow> rows | In_Memory m \<Rightarrow> hist w)\<rparr>"

definition with_rules :: "Wire \<Rightarrow> string \<Rightarrow> history rule \<Rightarrow> Fired list \<times> Wire" where
  "with_rules w r rl =
     (case forRouter w r of (db, ev) \<Rightarrow> case rl ev of (out, ev1) \<Rightarrow> (out, put_back w r db ev1))"

definition Evaluate :: "unicode \<Rightarrow> millis \<Rightarrow> Router \<Rightarrow> payload \<Rightarrow> Wire \<Rightarrow> Fired list \<times> Wire" where
  "Evaluate uni t r p w = (if ID r = [] then ([], w) else with_rules w (ID r) (feed_rules uni r t p))"

definition Wire_Tick :: "millis \<Rightarrow> Router \<Rightarrow> bool \<Rightarrow> Wire \<Rightarrow> Fired list \<times> Wire" where
  "Wire_Tick t r up w =
     (if ID r = [] \<or> golookup (evals w) (ID r) = None then ([], w) else with_rules w (ID r) (Tick (store_ops t) r t up))"

definition Withdraw :: "millis \<Rightarrow> string \<Rightarrow> string \<Rightarrow> string \<Rightarrow> Wire \<Rightarrow> Wire" where
  "Withdraw t r typ subject w =
     (if r = [] then w
      else snd (with_rules w r (\<lambda>ev.
             if HasOpen (store_ops t) (store ev) r typ subject
             then ([], ev\<lparr>store := snd (Resolve (store_ops t) (store ev) r typ subject)\<rparr>) else ([], ev))))"

definition Drop :: "string \<Rightarrow> Wire \<Rightarrow> Wire" where
  "Drop r w = w\<lparr>evals := godelete r (evals w)\<rparr>"

definition SetPersisting :: "string \<Rightarrow> bool \<Rightarrow> Wire \<Rightarrow> Wire" where
  "SetPersisting r on w =
     (if r = [] \<or> golookup (persist w) r = Some on then w
      else w\<lparr>persist := goput r on (persist w), evals := godelete r (evals w)\<rparr>)"


datatype wire_call = Feed millis Router payload | Clock millis Router bool | Withdrawn millis string string string
  | Dropped string | Persisting string bool

definition wire_step :: "unicode \<Rightarrow> Wire \<Rightarrow> wire_call \<Rightarrow> Fired list \<times> Wire" where
  "wire_step uni w c =
     (case c of
        Feed t r p \<Rightarrow> Evaluate uni t r p w
      | Clock t r up \<Rightarrow> Wire_Tick t r up w
      | Withdrawn t r typ subject \<Rightarrow> ([], Withdraw t r typ subject w)
      | Dropped r \<Rightarrow> ([], Drop r w)
      | Persisting r on \<Rightarrow> ([], SetPersisting r on w))"

section \<open>What a history promises\<close>

text \<open>
  A history keeps, for every router, the set of alerts that are open, each named by its stored type and its subject.
\<close>

type_synonym alert_key = "string \<times> string"

text \<open>The event of the catalogue an alert belongs to: a recovery carries the key of what it closes.\<close>

definition eventKeyFor :: "Fired \<Rightarrow> string" where
  "eventKeyFor f = (if Up f \<and> ResolveType f \<noteq> [] then ResolveType f else StoredType (AlertType f))"

definition fired_key :: "Fired \<Rightarrow> alert_key" where
  "fired_key f = (eventKeyFor f, Subject f)"

text \<open>An alert that opens was not open, and a recovery closes one that was; an escalation does neither.\<close>

fun play :: "alert_key set \<Rightarrow> Fired list \<Rightarrow> alert_key set option" where
  "play live [] = Some live"
| "play live (f # fs) =
     (if Escalation f then play live fs
      else if Up f then (if fired_key f \<in> live then play (live - {fired_key f}) fs else None)
      else (if fired_key f \<notin> live then play (insert (fired_key f) live) fs else None))"

lemma play_append: "play live (fs @ gs) = Option.bind (play live fs) (\<lambda>o'. play o' gs)"
  by (induction fs arbitrary: live) auto

locale alert_store =
  fixes ops :: "'s Store" and open_in :: "'s \<Rightarrow> string \<Rightarrow> alert_key set" and ok :: "'s \<Rightarrow> bool"
  assumes has_open: "ok st \<Longrightarrow> HasOpen ops st r t s \<longleftrightarrow> (t, s) \<in> open_in st r"
    and resolve_ok: "ok st \<Longrightarrow> ok (snd (Resolve ops st r t s))"
    and resolve_ids: "ok st \<Longrightarrow> fst (Resolve ops st r t s) = [] \<longleftrightarrow> (t, s) \<notin> open_in st r"
    and resolve_open: "ok st \<Longrightarrow> open_in (snd (Resolve ops st r t s)) r' = open_in st r' - (if r' = r then {(t, s)} else {})"
    and record_ok: "ok st \<Longrightarrow> ok (snd (Record ops st r t s d))"
    and record_open: "ok st \<Longrightarrow> open_in (snd (Record ops st r t s d)) r' = open_in st r' \<union> (if r' = r then {(t, s)} else {})"
begin

lemma emit_plays:
  assumes "ok st" "\<not> Escalation f" "emit ops r f st = (out, st1)"
  shows "ok st1 \<and> play (open_in st (ID r)) out = Some (open_in st1 (ID r)) \<and> (\<forall>r'. r' \<noteq> ID r \<longrightarrow> open_in st1 r' = open_in st r')"
proof -
  show ?thesis
    using assms
    by (auto simp: emit_def Let_def fired_key_def eventKeyFor_def recover_def raise_def has_open resolve_ok resolve_ids resolve_open record_ok record_open
        case_prod_unfold split: if_splits)
qed

lemma acts_plays:
  "acts ops r st out st1 \<Longrightarrow> ok st \<Longrightarrow>
    ok st1 \<and> play (open_in st (ID r)) out = Some (open_in st1 (ID r)) \<and> (\<forall>r'. r' \<noteq> ID r \<longrightarrow> open_in st1 r' = open_in st r')"
proof (induction rule: acts.induct)
  case (acts_emit f st out st1 outs st2)
  then show ?case using emit_plays [of st f r out st1] by (simp add: play_append)
qed simp_all

lemma rule_plays:
  assumes "does ops r ev res" "ok (store ev)"
  shows "ok (store (snd res))" "play (open_in (store ev) (ID r)) (fst res) = Some (open_in (store (snd res)) (ID r))"
    "r' \<noteq> ID r \<Longrightarrow> open_in (store (snd res)) r' = open_in (store ev) r'"
  using acts_plays [OF assms(1) [unfolded does_def] assms(2)] by blast+

end

text \<open>The table and the memory keep the promise.\<close>

fun is_db :: "history \<Rightarrow> bool" where
  "is_db (In_Db rows) = True"
| "is_db (In_Memory m) = False"

fun open_in :: "history \<Rightarrow> string \<Rightarrow> alert_key set" where
  "open_in (In_Db rows) r = {(t, s). HasOpenAlert rows r t s}"
| "open_in (In_Memory m) r = {(t, s). mem_HasOpen m r t s}"

lemma nullIfEmpty_inj [simp]: "nullIfEmpty s = nullIfEmpty s' \<longleftrightarrow> s = s'"
  by (auto simp: nullIfEmpty_def)

lemma open_row_unique: "open_row r t s a \<Longrightarrow> open_row r' t' s' a \<longleftrightarrow> r' = r \<and> t' = t \<and> s' = s"
  by (auto simp: open_row_def)

lemma db_resolve_open: "HasOpenAlert (snd (ResolveAlertEvent now rows r t s)) r' t' s' \<longleftrightarrow> HasOpenAlert rows r' t' s' \<and> (r', t', s') \<noteq> (r, t, s)"
proof -
  have e: "open_row r' t' s' (if open_row r t s a then a\<lparr>ResolvedAt := Some now\<rparr> else a) \<longleftrightarrow> open_row r' t' s' a \<and> (r', t', s') \<noteq> (r, t, s)" for a
  proof (cases "open_row r t s a")
    case True
    then show ?thesis using open_row_unique [OF True, of r' t' s'] by (simp add: open_row_def)
  next
    case False
    then show ?thesis by auto
  qed
  show ?thesis unfolding HasOpenAlert_def ResolveAlertEvent_def snd_conv by (induction rows) (use e in auto)
qed

lemma db_resolve_ids: "fst (ResolveAlertEvent now rows r t s) = [] \<longleftrightarrow> \<not> HasOpenAlert rows r t s"
  by (simp add: ResolveAlertEvent_def HasOpenAlert_def list_ex_iff filter_empty_conv)

lemma db_insert_open: "HasOpenAlert (snd (InsertAlertEvent now rows r t s d)) r' t' s' \<longleftrightarrow> HasOpenAlert rows r' t' s' \<or> (r', t', s') = (r, t, s)"
  by (auto simp: HasOpenAlert_def InsertAlertEvent_def open_row_def)

lemma mem_resolve_open: "mem_HasOpen (snd (mem_Resolve m r t s)) r' t' s' \<longleftrightarrow> mem_HasOpen m r' t' s' \<and> (r', t', s') \<noteq> (r, t, s)"
  unfolding mem_HasOpen_def mem_Resolve_def by (cases "golookup (open_ids m) (r, t, s)") (auto simp: golookup_delete)

lemma mem_resolve_ids: "fst (mem_Resolve m r t s) = [] \<longleftrightarrow> \<not> mem_HasOpen m r t s"
  unfolding mem_HasOpen_def mem_Resolve_def by (cases "golookup (open_ids m) (r, t, s)") auto

lemma mem_record_open: "mem_HasOpen (snd (mem_Record m r t s d)) r' t' s' \<longleftrightarrow> mem_HasOpen m r' t' s' \<or> (r', t', s') = (r, t, s)"
  unfolding mem_HasOpen_def mem_Record_def by (auto simp: golookup_put)

lemmas history_simps = db_resolve_open db_resolve_ids db_insert_open mem_resolve_open mem_resolve_ids mem_record_open

interpretation histories: alert_store "store_ops now" open_in "\<lambda>h. is_db h = b"
proof
  fix st r t s r' d assume "is_db st = b"
  then show "HasOpen (store_ops now) st r t s \<longleftrightarrow> (t, s) \<in> open_in st r"
    and "is_db (snd (Resolve (store_ops now) st r t s)) = b"
    and "fst (Resolve (store_ops now) st r t s) = [] \<longleftrightarrow> (t, s) \<notin> open_in st r"
    and "open_in (snd (Resolve (store_ops now) st r t s)) r' = open_in st r' - (if r' = r then {(t, s)} else {})"
    and "is_db (snd (Record (store_ops now) st r t s d)) = b"
    and "open_in (snd (Record (store_ops now) st r t s d)) r' = open_in st r' \<union> (if r' = r then {(t, s)} else {})"
    by (cases st; auto simp: store_ops_def history_simps)+
qed

section \<open>Every router's alerts open and close in turn\<close>

definition open_now :: "Wire \<Rightarrow> string \<Rightarrow> alert_key set" where
  "open_now w r = open_in (store (snd (forRouter w r))) r"

definition wire_ok :: "Wire \<Rightarrow> bool" where
  "wire_ok w \<longleftrightarrow> (\<forall>r db ev. golookup (evals w) r = Some (db, ev) \<longrightarrow> is_db (store ev) = db)"

lemma is_db_iff: "is_db h \<longleftrightarrow> (\<exists>rows. h = In_Db rows)"
  by (cases h) auto

lemma forRouter_store: "wire_ok w \<Longrightarrow> is_db (store (snd (forRouter w r))) = fst (forRouter w r)"
  "fst (forRouter w r) \<Longrightarrow> store (snd (forRouter w r)) = In_Db (hist w)"
  by (cases "golookup (evals w) r"; auto simp: forRouter_def wire_ok_def fresh_evaluator_def NewEvaluator_def split: prod.splits if_splits)+

lemma forRouter_put_back:
  assumes "is_db (store ev) = db"
  shows "store (snd (forRouter (put_back w r db ev) r)) = store ev"
  using assms by (cases "store ev") (auto simp: forRouter_def put_back_def golookup_put)

lemma open_now_other:
  assumes "wire_ok w" "r' \<noteq> r" "open_in (In_Db (hist w1)) r' = open_in (In_Db (hist w)) r'"
    "golookup (evals w1) r' = golookup (evals w) r'" "golookup (persist w1) r' = golookup (persist w) r'"
  shows "open_now w1 r' = open_now w r'"
  using assms by (auto simp: open_now_def forRouter_def fresh_evaluator_def persists_def NewEvaluator_def split: option.split prod.split)

text \<open>A rule that keeps to its router's alerts leaves every other router's open.\<close>

lemma with_rules_keeps:
  assumes "wire_ok w" "\<And>ev. is_db (store (snd (rl ev))) = is_db (store ev)"
    and "\<And>ev r'. r' \<noteq> r \<Longrightarrow> open_in (store (snd (rl ev))) r' = open_in (store ev) r'"
  shows "wire_ok (snd (with_rules w r rl))"
    "open_now (snd (with_rules w r rl)) r = open_in (store (snd (rl (snd (forRouter w r))))) r"
    "r' \<noteq> r \<Longrightarrow> open_now (snd (with_rules w r rl)) r' = open_now w r'"
proof -
  obtain db ev where fr: "forRouter w r = (db, ev)" by (cases "forRouter w r")
  have db: "is_db (store ev) = db" "db \<Longrightarrow> store ev = In_Db (hist w)" using forRouter_store [of w r] assms(1) fr by simp_all
  then have db1: "is_db (store (snd (rl ev))) = db" using assms(2) by simp
  let ?w1 = "put_back w r db (snd (rl ev))"
  have wr: "snd (with_rules w r rl) = ?w1" by (simp add: with_rules_def fr split: prod.split)
  show "wire_ok (snd (with_rules w r rl))"
    unfolding wr using assms(1) db1 by (auto simp: wire_ok_def put_back_def golookup_put)
  show "open_now (snd (with_rules w r rl)) r = open_in (store (snd (rl (snd (forRouter w r))))) r"
    unfolding wr using forRouter_put_back [OF db1, of w r] by (simp add: open_now_def fr)
  assume r': "r' \<noteq> r"
  have "open_in (In_Db (hist ?w1)) r' = open_in (In_Db (hist w)) r'"
  proof (cases "store (snd (rl ev))")
    case (In_Db rows)
    then have "db" using db1 by simp
    then show ?thesis using assms(3) [OF r', of ev] db(2) In_Db by (simp add: put_back_def)
  qed (simp add: put_back_def)
  then show "open_now (snd (with_rules w r rl)) r' = open_now w r'"
    unfolding wr using open_now_other [OF assms(1) r', of ?w1] r' by (simp add: put_back_def golookup_put)
qed

lemma with_rules_plays:
  assumes "wire_ok w" "\<And>ev. does (store_ops t) r ev (rl ev)"
  shows "wire_ok (snd (with_rules w (ID r) rl))"
    "play (open_now w (ID r)) (fst (with_rules w (ID r) rl)) = Some (open_now (snd (with_rules w (ID r) rl)) (ID r))"
    "r' \<noteq> ID r \<Longrightarrow> open_now (snd (with_rules w (ID r) rl)) r' = open_now w r'"
proof -
  note rp = histories.rule_plays [OF assms(2) refl]
  note wk = with_rules_keeps [OF assms(1) rp(1) rp(3)]
  show "wire_ok (snd (with_rules w (ID r) rl))" by (rule wk(1))
  show "r' \<noteq> ID r \<Longrightarrow> open_now (snd (with_rules w (ID r) rl)) r' = open_now w r'" by (rule wk(3))
  have "fst (with_rules w (ID r) rl) = fst (rl (snd (forRouter w (ID r))))"
    by (simp add: with_rules_def split: prod.split)
  then show "play (open_now w (ID r)) (fst (with_rules w (ID r) rl)) = Some (open_now (snd (with_rules w (ID r) rl)) (ID r))"
    using rp(2) [of "snd (forRouter w (ID r))"] wk(2) by (simp add: open_now_def)
qed

lemma does_feed: "does (store_ops t) r ev (feed_rules uni r t p ev)"
  unfolding feed_rules_def Let_def by (auto intro!: rule_intros split: payload.split)

lemma Withdraw_keeps:
  assumes "wire_ok w" "r \<noteq> []"
  shows "wire_ok (Withdraw t r typ s w)" "open_now (Withdraw t r typ s w) r = open_now w r - {(typ, s)}"
    "r' \<noteq> r \<Longrightarrow> open_now (Withdraw t r typ s w) r' = open_now w r'"
proof -
  let ?rl = "\<lambda>ev :: history Evaluator. if HasOpen (store_ops t) (store ev) r typ s
    then ([] :: Fired list, ev\<lparr>store := snd (Resolve (store_ops t) (store ev) r typ s)\<rparr>) else ([], ev)"
  have w: "Withdraw t r typ s w = snd (with_rules w r ?rl)" using assms(2) by (simp add: Withdraw_def)
  note laws = histories.resolve_ok [OF refl] histories.resolve_open [OF refl] histories.has_open [OF refl]
  have a: "\<And>ev. is_db (store (snd (?rl ev))) = is_db (store ev)" by (simp add: laws)
  have b: "\<And>ev r'. r' \<noteq> r \<Longrightarrow> open_in (store (snd (?rl ev))) r' = open_in (store ev) r'" by (simp add: laws)
  note k = with_rules_keeps [where rl = ?rl and r = r, OF assms(1) a b]
  show "wire_ok (Withdraw t r typ s w)" "r' \<noteq> r \<Longrightarrow> open_now (Withdraw t r typ s w) r' = open_now w r'"
    unfolding w using k by simp_all
  have "open_now (Withdraw t r typ s w) r = open_in (store (snd (?rl (snd (forRouter w r))))) r" unfolding w by (rule k(2))
  also have "\<dots> = open_now w r - {(typ, s)}" by (simp add: laws open_now_def)
  finally show "open_now (Withdraw t r typ s w) r = open_now w r - {(typ, s)}" .
qed

lemma wire_step_ok: "wire_ok w \<Longrightarrow> wire_ok (snd (wire_step uni w c))"
proof (cases c)
  case (Feed t r p)
  assume "wire_ok w"
  then show ?thesis using Feed by (simp add: wire_step_def Evaluate_def with_rules_plays(1) [OF _ does_feed])
next
  case (Clock t r up)
  assume "wire_ok w"
  then show ?thesis using Clock by (simp add: wire_step_def Wire_Tick_def with_rules_plays(1) [OF _ does_readings(3)])
next
  case (Withdrawn t r k s)
  assume "wire_ok w"
  then show ?thesis using Withdraw_keeps(1) [of w r t k s] Withdrawn by (cases "r = []") (simp_all add: wire_step_def Withdraw_def)
qed (auto simp: wire_step_def Drop_def SetPersisting_def wire_ok_def golookup_delete split: if_splits)

interpretation wires: step_machine "wire_step uni" wire_ok
  by unfold_locales (rule wire_step_ok)

text \<open>
  C37. Whatever has been fed to the wire, in whatever order and for whatever routers, every alert it fires opens an alert
  of the router that was not open and every recovery closes one that was, in both memories, and nothing fired for one
  router changes what is open for another. So between two alerts of one type and subject there is always a recovery.
\<close>

theorem alerts_alternate:
  assumes "w = snd (run (wire_step uni) (New_Wire rows) calls)"
  shows "play (open_now w (ID r)) (fst (Evaluate uni t r p w)) = Some (open_now (snd (Evaluate uni t r p w)) (ID r)) \<and>
    play (open_now w (ID r)) (fst (Wire_Tick t r up w)) = Some (open_now (snd (Wire_Tick t r up w)) (ID r)) \<and>
    (\<forall>r'. r' \<noteq> ID r \<longrightarrow> open_now (snd (Evaluate uni t r p w)) r' = open_now w r' \<and> open_now (snd (Wire_Tick t r up w)) r' = open_now w r')"
proof -
  have ok: "wire_ok w" unfolding assms by (rule wires.run_inv) (simp add: wire_ok_def New_Wire_def)
  show ?thesis
    by (simp add: Evaluate_def Wire_Tick_def with_rules_plays [OF ok does_feed] with_rules_plays [OF ok does_readings(3)])
qed

text \<open>Concrete readings.\<close>

definition demo_router :: Router where
  "demo_router = \<lparr>ID = ''r1'', AlertsEnabled = True, HoldMs = 0\<rparr>"

definition demo_if :: "bool \<Rightarrow> Interface" where
  "demo_if up = \<lparr>if_Name = ''ether1'', if_Type = ''ether'', if_Comment = [], if_Running = up, if_Disabled = False\<rparr>"

definition demo_host :: "string \<Rightarrow> NetwatchHost" where
  "demo_host status = \<lparr>nh_ID = ''*1'', nh_Host = ''h'', nh_Name = [], nh_Status = status, nh_Since = []\<rparr>"




section \<open>The catalogue is what the rules can fire\<close>

lemma catalogue_named: "list_all (\<lambda>ty. Key ty \<noteq> []) types"
  by code_simp

lemma listed_key:
  assumes "listed f" shows "fst (fired_key f) \<in> Key ` {ty \<in> set types. \<not> Backup ty}"
proof -
  obtain ty where ty: "ty \<in> set types" "of_type ty f" using assms by (auto simp: listed_def list_ex_iff)
  then have "Key ty \<noteq> []" using catalogue_named by (auto simp: list_all_iff)
  with ty(2) have "fst (fired_key f) = Key ty" "\<not> Backup ty" by (auto simp: of_type_def fired_key_def eventKeyFor_def split: if_splits)
  with ty(1) show ?thesis by blast
qed

lemma with_rules_fires: "(\<And>ev. does ops rt ev (rl ev)) \<Longrightarrow> list_all listed (fst (with_rules w r rl))"
proof -
  assume d: "\<And>ev. does ops rt ev (rl ev)"
  have "list_all listed (fst (rl (snd (forRouter w r))))" by (rule acts_listed [OF d [unfolded does_def]])
  then show ?thesis by (simp add: with_rules_def case_prod_unfold)
qed

lemma wire_step_listed: "list_all listed (fst (wire_step uni w c))"
  by (cases c) (simp_all add: wire_step_def Evaluate_def Wire_Tick_def with_rules_fires [OF does_feed] with_rules_fires [OF does_readings(3)])

lemma run_listed: "f \<in> set (concat (fst (run (wire_step uni) w calls))) \<Longrightarrow> listed f"
proof (induction calls arbitrary: w)
  case (Cons c calls)
  then show ?case using wire_step_listed [of uni w c] by (auto simp: list_all_iff)
qed simp

text \<open>Readings that raise each alert there is.\<close>

definition demo_peer :: "string \<Rightarrow> float64 option \<Rightarrow> bool \<Rightarrow> int \<Rightarrow> BGPPeer" where
  "demo_peer state pfx flap hold =
     \<lparr>bp_Key = ''p'', bp_Name = ''peer'', RemoteAddr = [], Description = [], bp_State = state, Prefixes = pfx,
      Flapping = flap, HoldTime = Some (Fin (of_int hold)), Keepalive = Some (Fin 0)\<rparr>"

definition raised_by :: "unicode \<Rightarrow> payload list \<Rightarrow> string list" where
  "raised_by uni ps = map (fst \<circ> fired_key) (concat (fst (run (wire_step uni) (New_Wire []) (map (Feed 1 demo_router) ps))))"

lemma demo_raises:
  "''interface_down'' \<in> set (raised_by uni [IfStatus [demo_if True], IfStatus [demo_if False]])"
  "''ping_loss'' \<in> set (raised_by uni [Ping ''gw'' (Some (Fin 100))])"
  "''high_cpu'' \<in> set (raised_by uni [System (Fin 90) True False [] []])"
  "''vpn_disconnected'' \<in> set (raised_by uni [VPN [\<lparr>vt_Name = ''a'', vt_State = ''active''\<rparr>], VPN [\<lparr>vt_Name = ''a'', vt_State = ''stale''\<rparr>]])"
  "''host_down'' \<in> set (raised_by uni [Netwatch [(demo_host ''up'', False)], Netwatch [(demo_host ''down'', False)]])"
  "''router_offline'' \<in> set (raised_by uni [Connectivity False])"
  "''routeros_update'' \<in> set (raised_by uni [System (Fin 0) False True ''7.20'' ''7.19''])"
  "''bgp_peer_down'' \<in> set (raised_by uni [Routing [demo_peer ''established'' None False 30], Routing [demo_peer ''idle'' None False 30]])"
  "''bgp_prefix_change'' \<in> set (raised_by uni [Routing [demo_peer ''established'' (Some (Fin 1)) False 30], Routing [demo_peer ''established'' (Some (Fin 2)) False 30]])"
  "''bgp_session_flapping'' \<in> set (raised_by uni [Routing [demo_peer ''established'' None True 30]])"
  "''bgp_hold_timer_warning'' \<in> set (raised_by uni [Routing [demo_peer ''established'' None False 3]])"
  "''device_absent'' \<in> set (raised_by uni [Device ''mac'' [] False])"
  "''domain_routing_down'' \<in> set (raised_by uni [Domain False ''down''])"
  by code_simp+

text \<open>
  The catalogue a channel subscribes from is exactly what the rules raise: whatever is fed to the wire, an alert or a
  recovery belongs to an event of the catalogue that is not a backup's, by its stored key, and for each of those events
  there are readings that raise it.
\<close>

theorem catalogue_exact:
  "{k. \<exists>calls. k \<in> fst ` fired_key ` set (concat (fst (run (wire_step uni) (New_Wire []) calls)))} = Key ` {ty \<in> set types. \<not> Backup ty}"
proof
  show "{k. \<exists>calls. k \<in> fst ` fired_key ` set (concat (fst (run (wire_step uni) (New_Wire []) calls)))} \<subseteq> Key ` {ty \<in> set types. \<not> Backup ty}"
    using run_listed listed_key by blast
  have k: "map Key (filter (\<lambda>ty. \<not> Backup ty) types) =
      [''interface_down'', ''ping_loss'', ''high_cpu'', ''vpn_disconnected'', ''host_down'', ''router_offline'', ''routeros_update'',
       ''bgp_peer_down'', ''bgp_prefix_change'', ''bgp_session_flapping'', ''bgp_hold_timer_warning'', ''device_absent'', ''domain_routing_down'']"
    by code_simp
  have "Key ` {ty \<in> set types. \<not> Backup ty} = set (map Key (filter (\<lambda>ty. \<not> Backup ty) types))" by simp
  moreover have "list_all (\<lambda>k. \<exists>ps. k \<in> set (raised_by uni ps)) (map Key (filter (\<lambda>ty. \<not> Backup ty) types))"
    unfolding k list.pred_inject by (intro conjI) ((rule exI, rule demo_raises)+, simp)
  moreover have "set (raised_by uni ps) \<subseteq> fst ` fired_key ` set (concat (fst (run (wire_step uni) (New_Wire []) (map (Feed 1 demo_router) ps))))" for ps
    by (auto simp: raised_by_def)
  ultimately show "Key ` {ty \<in> set types. \<not> Backup ty} \<subseteq> {k. \<exists>calls. k \<in> fst ` fired_key ` set (concat (fst (run (wire_step uni) (New_Wire []) calls)))}"
    unfolding list_all_iff by (metis (mono_tags, lifting) mem_Collect_eq subset_eq)
qed

theorem alerts_alternate_witness:
  "play (open_now (New_Wire []) ''r1'') (fst (Evaluate (\<lambda>s. s) 1 demo_router (Connectivity False) (New_Wire []))) =
     Some (open_now (snd (Evaluate (\<lambda>s. s) 1 demo_router (Connectivity False) (New_Wire []))) ''r1'') \<and>
   fst (Evaluate (\<lambda>s. s) 1 demo_router (Connectivity False) (New_Wire [])) = [raise ''Router Offline'' [] ''The router is not responding'']"
proof
  show "play (open_now (New_Wire []) ''r1'') (fst (Evaluate (\<lambda>s. s) 1 demo_router (Connectivity False) (New_Wire []))) =
     Some (open_now (snd (Evaluate (\<lambda>s. s) 1 demo_router (Connectivity False) (New_Wire []))) ''r1'')"
    using alerts_alternate [where w = "New_Wire []" and calls = "[]" and uni = "\<lambda>s. s" and r = demo_router and t = 1 and p = "Connectivity False"]
    by (simp add: demo_router_def)
  show "fst (Evaluate (\<lambda>s. s) 1 demo_router (Connectivity False) (New_Wire [])) = [raise ''Router Offline'' [] ''The router is not responding'']"
    by code_simp
qed

end
