(* ===== verification/Alert_Sends.thy ===== *)
theory Alert_Sends
  imports Alert_Wire
begin

text \<open>
  Who is told about an alert, and what: the message (\<^verbatim>\<open>internal/alert/format.go\<close>, \<open>Build\<close>), the cooldowns of the
  dispatcher (\<^verbatim>\<open>internal/alertdispatch/dispatch.go\<close>), what a notification channel wants (\<^verbatim>\<open>internal/notify/channel.go\<close>)
  and the order in which the server decides the sends of what was fired (\<^verbatim>\<open>internal/server/alert_send.go\<close>,
  \<^verbatim>\<open>notify_channels.go\<close>, \<^verbatim>\<open>internal/db/alertsent.go\<close>).
\<close>

section \<open>What a message says\<close>

datatype any_setting = S_Nil | S_Bool bool | S_String string | S_Float float64 | S_Int int | S_Other

type_synonym Settings = "(string, any_setting) gomap"

fun jsString :: "any_setting \<Rightarrow> string" where
  "jsString S_Nil = ''null''"
| "jsString (S_String x) = x"
| "jsString (S_Bool x) = (if x then ''true'' else ''false'')"
| "jsString (S_Float x) = FormatG x"
| "jsString (S_Int x) = Itoa x"
| "jsString S_Other = []"

definition control :: "char \<Rightarrow> bool" where
  "control c \<longleftrightarrow> byte_code c \<le> 0x1F \<or> byte_code c = 0x7F"

text \<open>\<open>strings.Map\<close> over the runes; a byte that is no rune becomes the replacement character.\<close>

function drop_controls :: "string \<Rightarrow> string" where
  "drop_controls s =
     (if s = [] then []
      else if rune_len s = 0 then [CHR 0xEF, CHR 0xBF, CHR 0xBD] @ drop_controls (tl s)
      else if control (hd s) then drop_controls (tl s)
      else take (rune_len s) s @ drop_controls (drop (rune_len s) s))"
  by pat_completeness auto
termination
  by (relation "measure length") auto

declare drop_controls.simps [simp del]

definition word_char :: "char \<Rightarrow> bool" where
  "word_char c \<longleftrightarrow> (let b = byte_code c in 48 \<le> b \<and> b \<le> 57 \<or> 65 \<le> b \<and> b \<le> 90 \<or> b = 95 \<or> 97 \<le> b \<and> b \<le> 122)"

text \<open>The placeholder a text starts with: its name and what follows it.\<close>

definition placeholder :: "string \<Rightarrow> (string \<times> string) option" where
  "placeholder s =
     (if has_prefix s ''{{''
      then let k = takeWhile word_char (drop 2 s); rest = dropWhile word_char (drop 2 s)
           in if k \<noteq> [] \<and> has_prefix rest ''}}'' then Some (k, drop 2 rest) else None
      else None)"

definition var_text :: "(string, any_setting) gomap \<Rightarrow> string \<Rightarrow> string" where
  "var_text vars k = (case golookup vars k of None \<Rightarrow> [] | Some v \<Rightarrow> take 200 (drop_controls (jsString v)))"

lemma placeholder_rest: "placeholder s = Some (k, rest) \<Longrightarrow> length rest < length s"
proof -
  assume "placeholder s = Some (k, rest)"
  then have r: "rest = drop 2 (dropWhile word_char (drop 2 s))" "has_prefix s ''{{''"
    by (auto simp: placeholder_def Let_def split: if_splits)
  have "length (dropWhile word_char (drop 2 s)) \<le> length (drop 2 s)" by (rule length_dropWhile_le)
  moreover have "2 \<le> length s" using r(2) by (auto simp: has_prefix_iff)
  ultimately show ?thesis using r(1) by simp
qed

function Render :: "string \<Rightarrow> (string, any_setting) gomap \<Rightarrow> string" where
  "Render tpl vars =
     (case placeholder tpl of
        Some (k, rest) \<Rightarrow> var_text vars k @ Render rest vars
      | None \<Rightarrow> (case tpl of [] \<Rightarrow> [] | c # cs \<Rightarrow> c # Render cs vars))"
  by pat_completeness auto
termination
  by (relation "measure (length \<circ> fst)") (auto simp: placeholder_rest)

declare Render.simps [simp del]

record Message =
  Title :: string
  Body :: string

definition setting_text :: "Settings \<Rightarrow> string \<Rightarrow> string" where
  "setting_text s k = (case golookup s k of Some (S_String v) \<Rightarrow> v | _ \<Rightarrow> [])"

definition check_mark :: string where
  "check_mark = [CHR 0xE2, CHR 0x9C, CHR 0x85]"

definition warning_sign :: string where
  "warning_sign = [CHR 0xE2, CHR 0x9A, CHR 0xA0, CHR 0xEF, CHR 0xB8, CHR 0x8F]"

definition Build :: "unicode \<Rightarrow> Settings \<Rightarrow> string \<Rightarrow> string \<Rightarrow> Fired \<Rightarrow> Message" where
  "Build uni s routerName timestamp f =
     (let vars = [(''routerName'', S_String routerName), (''timestamp'', S_String timestamp), (''detail'', S_String (fd_Detail f)),
                  (''subject'', S_String (Subject f)), (''alertType'', S_String (LabelFor uni (AlertType f)))];
          title = (if setting_text s ''notifTitle'' = [] then ''MikroDash Alert'' else setting_text s ''notifTitle'');
          up = (if Up f then setting_text s ''notifBodyUp'' else []);
          body = (if up = [] then setting_text s ''notifBody'' else up);
          tpl = (if body = [] then (if Up f then check_mark else warning_sign) @ '' {{alertType}} on {{routerName}}: {{detail}}'' else body)
      in \<lparr>Title = Render title vars, Body = Render tpl vars\<rparr>)"

section \<open>Cooldowns\<close>

definition truthy :: "any_setting \<Rightarrow> bool" where
  "truthy v = (case v of S_Nil \<Rightarrow> False | S_Bool b \<Rightarrow> b | S_String s \<Rightarrow> s \<noteq> [] | S_Float x \<Rightarrow> x \<noteq> Fin 0 | S_Int i \<Rightarrow> i \<noteq> 0 | S_Other \<Rightarrow> True)"

definition setting_on :: "Settings \<Rightarrow> string \<Rightarrow> bool" where
  "setting_on s k = (case golookup s k of None \<Rightarrow> False | Some v \<Rightarrow> truthy v)"

definition Channels :: "Settings \<Rightarrow> string list" where
  "Channels s =
     (if list_all (setting_on s) [''telegramEnabled'', ''telegramBotToken'', ''telegramChatId''] then [''telegram''] else []) @
     (if list_all (setting_on s) [''pushbulletEnabled'', ''pushbulletApiKey''] then [''pushbullet''] else []) @
     (if list_all (setting_on s) [''smtpEnabled'', ''smtpHost'', ''smtpFrom'', ''smtpTo''] then [''smtp''] else []) @
     (if list_all (setting_on s) [''ntfyEnabled'', ''ntfyUrl''] then [''ntfy''] else [])"

definition HasConfigured :: "Settings \<Rightarrow> bool" where
  "HasConfigured s \<longleftrightarrow> Channels s \<noteq> []"

record Recipient =
  rc_ID :: string
  rc_Settings :: Settings
  CooldownSec :: int
  URLs :: "string list"
  Personal :: bool

record Dispatcher =
  cooldowns :: "(string, millis) gomap"
  ds_Settings :: Settings

definition cooldownMax :: nat where
  "cooldownMax = 1000"

text \<open>\<open>int64(x)\<close>, and what amd64 makes of a number it cannot hold.\<close>

definition to_int64 :: "float64 \<Rightarrow> int" where
  "to_int64 x =
     (case x of
        Fin q \<Rightarrow> let i = (if q < 0 then \<lceil>q\<rceil> else \<lfloor>q\<rfloor>) in if - (2 ^ 63) \<le> i \<and> i < 2 ^ 63 then i else - (2 ^ 63)
      | _ \<Rightarrow> - (2 ^ 63))"

definition thousandfold :: "float64 \<Rightarrow> float64" where
  "thousandfold x = (case x of Fin q \<Rightarrow> rounded (q * 1000) | y \<Rightarrow> y)"

definition cooldown_ms :: "Settings \<Rightarrow> Recipient \<Rightarrow> int" where
  "cooldown_ms s r =
     (let secs = (case golookup s ''notifCooldownSec'' of Some (S_Float v) \<Rightarrow> if v \<noteq> Fin 0 then v else Fin 60 | _ \<Rightarrow> Fin 60)
      in to_int64 (thousandfold (if 0 < CooldownSec r then Fin (of_int (CooldownSec r)) else secs)))"

definition configured :: "Recipient \<Rightarrow> bool" where
  "configured r \<longleftrightarrow> URLs r \<noteq> [] \<or> HasConfigured (rc_Settings r)"

definition cooldown_slot :: "Recipient \<Rightarrow> string \<Rightarrow> string" where
  "cooldown_slot r subjectKey = rc_ID r @ ''|'' @ subjectKey"

definition allow :: "Dispatcher \<Rightarrow> millis \<Rightarrow> Recipient option \<Rightarrow> string \<Rightarrow> (bool \<times> string) \<times> Dispatcher" where
  "allow d now rcp subjectKey =
     (case rcp of
        None \<Rightarrow> ((False, ''no recipient''), d)
      | Some r \<Rightarrow>
          if \<not> configured r then ((False, ''no channel is configured''), d)
          else let k = cooldown_slot r subjectKey; sent = (case golookup (cooldowns d) k of None \<Rightarrow> 0 | Some t \<Rightarrow> t)
               in if now - sent < cooldown_ms (ds_Settings d) r then ((False, ''within the cooldown''), d)
                  else ((True, []), d\<lparr>cooldowns := goput k now (if cooldownMax < length (cooldowns d) then [] else cooldowns d)\<rparr>))"

text \<open>\<open>Claim\<close>; a dispatcher that is switched off leaves no trace.\<close>

definition Claim :: "bool \<Rightarrow> Dispatcher \<Rightarrow> millis \<Rightarrow> Recipient \<Rightarrow> string \<Rightarrow> bool \<times> Dispatcher" where
  "Claim on d now r subjectKey =
     (if \<not> on then (False, d) else case allow d now (Some r) subjectKey of ((ok, why), d1) \<Rightarrow> (ok, d1))"

definition Recipients :: "Settings \<Rightarrow> string \<Rightarrow> (string \<Rightarrow> Recipient list result) option \<Rightarrow> Recipient list" where
  "Recipients s routerID perUser =
     (let out = [\<lparr>rc_ID = ''_install'', rc_Settings = s, CooldownSec = 0, URLs = [], Personal = False\<rparr>]
      in case perUser of
           None \<Rightarrow> out
         | Some f \<Rightarrow>
             if routerID = [] \<or> golookup s ''userNotifyEnabled'' \<noteq> Some (S_Bool True) then out
             else case f routerID of Inl err \<Rightarrow> out | Inr extra \<Rightarrow> out @ extra)"

section \<open>What a channel wants\<close>

record Tuning =
  tu_CPU :: float64
  tu_PingLoss :: float64
  tu_CooldownSec :: int

definition DefaultTuning :: Tuning where
  "DefaultTuning = \<lparr>tu_CPU = Fin 90, tu_PingLoss = Fin 100, tu_CooldownSec = 60\<rparr>"

text \<open>What the defaults make of the three numbers of the stored text.\<close>

definition decodeTuning :: "Tuning \<Rightarrow> Tuning" where
  "decodeTuning t =
     \<lparr>tu_CPU = (if fle (tu_CPU t) (Fin 0) then tu_CPU DefaultTuning else tu_CPU t),
      tu_PingLoss = (if fle (tu_PingLoss t) (Fin 0) then tu_PingLoss DefaultTuning else tu_PingLoss t),
      tu_CooldownSec = (if tu_CooldownSec t \<le> 0 then tu_CooldownSec DefaultTuning else tu_CooldownSec t)\<rparr>"

record channelConfig =
  cc_URLs :: "string list"
  Host :: string
  Port :: int
  Secure :: bool
  User :: string
  Pass :: string
  From :: string
  To :: string
  Cc :: string
  Bcc :: string

record ChannelSpec =
  cs_ID :: string
  cs_Kind :: string
  Enabled :: bool
  cs_URLs :: "string list"
  cs_Settings :: Settings
  Events :: "string list"
  IfaceTypes :: "string list"
  cs_Tuning :: Tuning
  Routers :: "string list"

text \<open>The columns of a channel are JSON; what \<^verbatim>\<open>encoding/json\<close> makes of them is the argument.\<close>

definition DecodeChannel ::
  "string \<Rightarrow> string \<Rightarrow> bool \<Rightarrow> channelConfig \<Rightarrow> string list \<Rightarrow> string list \<Rightarrow> string list \<Rightarrow> Tuning \<Rightarrow> ChannelSpec" where
  "DecodeChannel i kind enabled cfg events routers ifaceTypes tuning =
     \<lparr>cs_ID = i, cs_Kind = kind, Enabled = enabled, cs_URLs = (if kind = ''webhook'' then cc_URLs cfg else []),
      cs_Settings = (if kind = ''smtp'' then
        [(''smtpEnabled'', S_Bool True), (''smtpHost'', S_String (Host cfg)),
         (''smtpPort'', S_String (Itoa (if Port cfg = 0 then 587 else Port cfg))), (''smtpSecure'', S_Bool (Secure cfg)),
         (''smtpUser'', S_String (User cfg)), (''smtpPass'', S_String (Pass cfg)), (''smtpFrom'', S_String (From cfg)),
         (''smtpTo'', S_String (To cfg)), (''smtpCc'', S_String (Cc cfg)), (''smtpBcc'', S_String (Bcc cfg))] else []),
      Events = events, IfaceTypes = ifaceTypes, cs_Tuning = decodeTuning tuning, Routers = routers\<rparr>"

definition coversRouter :: "ChannelSpec \<Rightarrow> string \<Rightarrow> bool" where
  "coversRouter c r \<longleftrightarrow> Routers c = [] \<or> r \<in> set (Routers c)"

definition Wants :: "ChannelSpec \<Rightarrow> string \<Rightarrow> string \<Rightarrow> bool" where
  "Wants c event r \<longleftrightarrow> Enabled c \<and> coversRouter c r \<and> event \<in> set (Events c)"

definition WantsIface :: "ChannelSpec \<Rightarrow> string \<Rightarrow> bool" where
  "WantsIface c t \<longleftrightarrow> t = [] \<or> IfaceTypes c = [] \<or> t \<in> set (IfaceTypes c)"

definition WantsValue :: "ChannelSpec \<Rightarrow> string \<Rightarrow> float64 \<Rightarrow> bool \<Rightarrow> bool" where
  "WantsValue c event v up =
     (if up then True
      else if event = ''high_cpu'' then fle (tu_CPU (cs_Tuning c)) v
      else if event = ''ping_loss'' then fle (tu_PingLoss (cs_Tuning c)) v
      else True)"

definition Deliverable :: "ChannelSpec \<Rightarrow> bool" where
  "Deliverable c =
     (if cs_Kind c = ''webhook'' then list_ex (\<lambda>u. TrimSpace u \<noteq> []) (cs_URLs c)
      else if cs_Kind c = ''smtp''
      then TrimSpace (setting_text (cs_Settings c) ''smtpHost'') \<noteq> [] \<and>
        list_ex (\<lambda>k. TrimSpace (setting_text (cs_Settings c) k) \<noteq> []) [''smtpTo'', ''smtpCc'', ''smtpBcc'']
      else False)"

section \<open>Who is sent what\<close>

text \<open>
  A stored channel has an owner; a user's channel is told only about routers its owner may read, which \<open>may_read\<close> says
  at the time of the send.
\<close>

definition channelRecipients ::
  "(string \<times> ChannelSpec) list \<Rightarrow> (string \<Rightarrow> string \<Rightarrow> bool) \<Rightarrow> string \<Rightarrow> string \<Rightarrow> string \<Rightarrow> float64 \<Rightarrow> bool \<Rightarrow> Recipient list" where
  "channelRecipients rows may_read routerID event ifaceType v up =
     map (\<lambda>(owner, c). \<lparr>rc_ID = ''chan:'' @ cs_ID c, rc_Settings = cs_Settings c, CooldownSec = tu_CooldownSec (cs_Tuning c),
                       URLs = cs_URLs c, Personal = (owner \<noteq> ''_install'')\<rparr>)
       (filter (\<lambda>(owner, c). Wants c event routerID \<and> WantsIface c ifaceType \<and> WantsValue c event v up \<and>
                  (owner = ''_install'' \<or> may_read owner routerID) \<and> Deliverable c) rows)"

text \<open>The table \<open>alert_sent\<close>: router, event, subject and the channel that was sent its breach.\<close>

type_synonym sent_row = "string \<times> string \<times> string \<times> string"

definition MarkAlertSent :: "string \<Rightarrow> string \<Rightarrow> string \<Rightarrow> string \<Rightarrow> sent_row list \<Rightarrow> sent_row list" where
  "MarkAlertSent r event subject c sent = List.insert (r, event, subject, c) sent"

definition AlertSentChannels :: "string \<Rightarrow> string \<Rightarrow> string \<Rightarrow> sent_row list \<Rightarrow> string list" where
  "AlertSentChannels r event subject sent = map (\<lambda>(_, _, _, c). c) (filter (\<lambda>(r', e, s, c). r' = r \<and> e = event \<and> s = subject) sent)"

definition ClearAlertSent :: "string \<Rightarrow> string \<Rightarrow> string \<Rightarrow> sent_row list \<Rightarrow> sent_row list" where
  "ClearAlertSent r event subject sent = filter (\<lambda>(r', e, s, c). \<not> (r' = r \<and> e = event \<and> s = subject)) sent"

text \<open>What a dispatch finds: the clock, the channels, the grants, the recipients of old, and whether the table can be read.\<close>

record world =
  clock :: millis
  channels :: "(string \<times> ChannelSpec) list"
  may_read :: "string \<Rightarrow> string \<Rightarrow> bool"
  legacy :: "Recipient list"
  readable :: bool

definition channelsFor :: "world \<Rightarrow> string \<Rightarrow> Fired \<Rightarrow> sent_row list \<Rightarrow> Recipient list \<times> sent_row list" where
  "channelsFor w r f sent =
     (let event = eventKeyFor f;
          chans = channelRecipients (channels w) (may_read w) r event (fd_IfaceType f) (Value f) (Up f);
          told = AlertSentChannels r event (Subject f) sent
      in if Escalation f then (if readable w then filter (\<lambda>c. rc_ID c \<notin> set told) chans else [], sent)
         else if \<not> Up f then (chans, ClearAlertSent r event (Subject f) sent)
         else (if readable w then filter (\<lambda>c. rc_ID c \<in> set told) chans else [], ClearAlertSent r event (Subject f) sent))"

definition cooldownKey :: "Fired \<Rightarrow> string" where
  "cooldownKey f = eventKeyFor f @ '':'' @ Subject f @ '':'' @ (if Up f then ''up'' else ''down'')"

record dispatch_state =
  dispatcher :: Dispatcher
  sent_table :: "sent_row list"

text \<open>One recipient after another claims its cooldown; a channel that is sent an alert is recorded.\<close>

fun claim_all :: "millis \<Rightarrow> string \<Rightarrow> Recipient list \<Rightarrow> Dispatcher \<Rightarrow> Recipient list \<times> Dispatcher" where
  "claim_all now k [] d = ([], d)"
| "claim_all now k (r # rs) d =
     (case Claim True d now r k of
        (ok, d1) \<Rightarrow> case claim_all now k rs d1 of (out, d2) \<Rightarrow> (if ok then r # out else out, d2))"

definition dispatch_one :: "world \<Rightarrow> string \<Rightarrow> Fired \<Rightarrow> dispatch_state \<Rightarrow> (Recipient list \<times> Recipient list) \<times> dispatch_state" where
  "dispatch_one w r f s =
     (if Silent f then (([], []), s)
      else let k = cooldownKey f
           in case (if Escalation f then ([], dispatcher s) else claim_all (clock w) k (legacy w) (dispatcher s)) of
                (out1, d1) \<Rightarrow>
                  case channelsFor w r f (sent_table s) of
                    (chans, sent1) \<Rightarrow>
                      case claim_all (clock w) k chans d1 of
                        (out2, d2) \<Rightarrow>
                          ((out1, out2),
                           \<lparr>dispatcher = d2,
                            sent_table = (if Up f then sent1
                              else foldl (\<lambda>t c. MarkAlertSent r (eventKeyFor f) (Subject f) (rc_ID c) t) sent1 out2)\<rparr>))"

fun dispatch_list :: "world \<Rightarrow> string \<Rightarrow> Fired list \<Rightarrow> dispatch_state \<Rightarrow> (Recipient \<times> Fired) list \<times> dispatch_state" where
  "dispatch_list w r [] s = ([], s)"
| "dispatch_list w r (f # fs) s =
     (case dispatch_one w r f s of
        ((out1, out2), s1) \<Rightarrow> case dispatch_list w r fs s1 of
          (out, s2) \<Rightarrow> (map (\<lambda>c. (c, f)) (out1 @ out2) @ out, s2))"

text \<open>
  The sends of what was fired, in its order; nothing is decided while dispatching is off. The recipients of old are used
  only while the install has no channel at all, and without them there is nobody to decide about.
\<close>

definition dispatchFired :: "bool \<Rightarrow> world \<Rightarrow> string \<Rightarrow> Fired list \<Rightarrow> dispatch_state \<Rightarrow> (Recipient \<times> Fired) list \<times> dispatch_state" where
  "dispatchFired on w r fs s =
     (if \<not> on \<or> fs = [] \<or> channels w = [] \<and> legacy w = [] then ([], s)
      else dispatch_list (if channels w = [] then w else w\<lparr>legacy := []\<rparr>) r fs s)"

section \<open>A recovery goes where its breach went\<close>

type_synonym heard = "string \<times> string \<times> string \<Rightarrow> string set"

text \<open>Who has heard of an episode, by what was sent.\<close>

definition hear :: "heard \<Rightarrow> world \<times> string \<times> Fired \<Rightarrow> Recipient list \<Rightarrow> heard" where
  "hear h e sent =
     (case e of (w, r, f) \<Rightarrow>
        let k = (r, eventKeyFor f, Subject f)
        in if Silent f then h
           else if Escalation f then (if Up f then h else h(k := h k \<union> rc_ID ` set sent))
           else if Up f then h(k := {}) else h(k := rc_ID ` set sent))"

fun tells_fairly :: "heard \<Rightarrow> (world \<times> string \<times> Fired) list \<Rightarrow> (Recipient list \<times> Recipient list) list \<Rightarrow> bool" where
  "tells_fairly h ((w, r, f) # es) ((direct, sent) # outs) \<longleftrightarrow>
     (let told = h (r, eventKeyFor f, Subject f)
      in (Silent f \<longrightarrow> direct = [] \<and> sent = []) \<and>
         (Escalation f \<longrightarrow> direct = [] \<and> rc_ID ` set sent \<inter> told = {}) \<and>
         (Up f \<and> \<not> Escalation f \<longrightarrow> rc_ID ` set sent \<subseteq> told)) \<and>
     tells_fairly (hear h (w, r, f) sent) es outs"
| "tells_fairly h [] [] \<longleftrightarrow> True"
| "tells_fairly h _ _ \<longleftrightarrow> False"

lemma claim_all_subset: "set (fst (claim_all now k rs d)) \<subseteq> set rs"
proof (induction rs arbitrary: d)
  case (Cons r rs)
  have "set (fst (claim_all now k (r # rs) d)) \<subseteq> insert r (set (fst (claim_all now k rs (snd (Claim True d now r k)))))"
    by (auto split: prod.split)
  with Cons show ?case by fastforce
qed simp

lemma told_mark:
  "set (AlertSentChannels r e s (foldl (\<lambda>t c. MarkAlertSent r' e' s' (rc_ID c) t) sent cs)) =
    set (AlertSentChannels r e s sent) \<union> (if (r', e', s') = (r, e, s) then rc_ID ` set cs else {})"
  by (induction cs arbitrary: sent) (auto simp: MarkAlertSent_def AlertSentChannels_def image_iff split: prod.splits)

lemma told_clear:
  "set (AlertSentChannels r e s (ClearAlertSent r' e' s' sent)) = (if (r', e', s') = (r, e, s) then {} else set (AlertSentChannels r e s sent))"
  by (auto simp: ClearAlertSent_def AlertSentChannels_def image_iff)

definition agrees_with :: "heard \<Rightarrow> dispatch_state \<Rightarrow> bool" where
  "agrees_with h s \<longleftrightarrow> (\<forall>r e x. h (r, e, x) = set (AlertSentChannels r e x (sent_table s)))"

lemma dispatch_one_parts:
  assumes "dispatch_one w r f s = ((direct, sent), s1)" "\<not> Silent f"
  shows "set sent \<subseteq> set (fst (channelsFor w r f (sent_table s)))" "Escalation f \<Longrightarrow> direct = []"
    "sent_table s1 = (if Up f then snd (channelsFor w r f (sent_table s))
       else foldl (\<lambda>t c. MarkAlertSent r (eventKeyFor f) (Subject f) (rc_ID c) t) (snd (channelsFor w r f (sent_table s))) sent)"
proof -
  obtain chans sent1 where cf: "channelsFor w r f (sent_table s) = (chans, sent1)" by (cases "channelsFor w r f (sent_table s)")
  obtain d1 d2 where d: "direct = fst (if Escalation f then ([], dispatcher s) else claim_all (clock w) (cooldownKey f) (legacy w) (dispatcher s))"
      "claim_all (clock w) (cooldownKey f) chans d1 = (sent, d2)"
      "sent_table s1 = (if Up f then sent1 else foldl (\<lambda>t c. MarkAlertSent r (eventKeyFor f) (Subject f) (rc_ID c) t) sent1 sent)"
    using assms cf by (auto simp: dispatch_one_def Let_def split: prod.splits)
  show "set sent \<subseteq> set (fst (channelsFor w r f (sent_table s)))"
    using claim_all_subset [of "clock w" "cooldownKey f" chans d1] unfolding d(2) cf by simp
  show "direct = []" if "Escalation f" using that d(1) by simp
  show "sent_table s1 = (if Up f then snd (channelsFor w r f (sent_table s))
       else foldl (\<lambda>t c. MarkAlertSent r (eventKeyFor f) (Subject f) (rc_ID c) t) (snd (channelsFor w r f (sent_table s))) sent)"
    using d(3) cf by simp
qed

lemma channelsFor_parts:
  "Escalation f \<Longrightarrow> snd (channelsFor w r f sent) = sent"
  "\<not> Escalation f \<Longrightarrow> snd (channelsFor w r f sent) = ClearAlertSent r (eventKeyFor f) (Subject f) sent"
  "Escalation f \<Longrightarrow> c \<in> set (fst (channelsFor w r f sent)) \<Longrightarrow> rc_ID c \<notin> set (AlertSentChannels r (eventKeyFor f) (Subject f) sent)"
  "\<not> Escalation f \<Longrightarrow> Up f \<Longrightarrow> c \<in> set (fst (channelsFor w r f sent)) \<Longrightarrow> rc_ID c \<in> set (AlertSentChannels r (eventKeyFor f) (Subject f) sent)"
  by (auto simp: channelsFor_def Let_def split: if_splits)

lemma dispatch_one_fair:
  assumes "agrees_with h s" "dispatch_one w r f s = ((direct, sent), s1)"
  shows "agrees_with (hear h (w, r, f) sent) s1"
    "Silent f \<longrightarrow> direct = [] \<and> sent = []" "Escalation f \<longrightarrow> direct = [] \<and> rc_ID ` set sent \<inter> h (r, eventKeyFor f, Subject f) = {}"
    "Up f \<and> \<not> Escalation f \<longrightarrow> rc_ID ` set sent \<subseteq> h (r, eventKeyFor f, Subject f)"
proof -
  have told: "h (r, eventKeyFor f, Subject f) = set (AlertSentChannels r (eventKeyFor f) (Subject f) (sent_table s))"
    using assms(1) by (simp add: agrees_with_def)
  show quiet: "Silent f \<longrightarrow> direct = [] \<and> sent = []" using assms(2) by (auto simp: dispatch_one_def)
  note p = dispatch_one_parts [OF assms(2)]
  show "Escalation f \<longrightarrow> direct = [] \<and> rc_ID ` set sent \<inter> h (r, eventKeyFor f, Subject f) = {}"
    using p(1,2) channelsFor_parts(3) quiet unfolding told by (cases "Silent f") (auto 4 3)
  show "Up f \<and> \<not> Escalation f \<longrightarrow> rc_ID ` set sent \<subseteq> h (r, eventKeyFor f, Subject f)"
    using p(1) channelsFor_parts(4) quiet unfolding told by (cases "Silent f") (auto 4 3)
  show "agrees_with (hear h (w, r, f) sent) s1"
  proof (cases "Silent f")
    case True
    then have "s1 = s" using assms(2) by (simp add: dispatch_one_def)
    then show ?thesis using assms(1) True by (simp add: hear_def Let_def)
  next
    case False
    then show ?thesis
      using assms(1) p(3) channelsFor_parts(1,2) [of f w r "sent_table s"]
      by (cases "Escalation f"; cases "Up f") (auto simp: agrees_with_def hear_def Let_def told_mark told_clear)
  qed
qed

text \<open>
  C38. Whatever is fired, in whatever order, and however channels, thresholds, grants and clocks change in between: a
  recovery is sent only to channels that were sent the breach of its episode, or its escalation; an escalation only to
  channels that have not heard of the episode, and to no recipient of old; and what is only shown is sent to nobody.
  Being sent is judged by what went out and not by the table, which may at any time be unreadable.
\<close>

theorem recovery_follows_breach:
  "tells_fairly (\<lambda>_. {}) es (fst (run (\<lambda>s (w, r, f). dispatch_one w r f s) \<lparr>dispatcher = d, sent_table = []\<rparr> es))"
proof -
  have "agrees_with h s \<Longrightarrow> tells_fairly h es (fst (run (\<lambda>s (w, r, f). dispatch_one w r f s) s es))" for h s
  proof (induction es arbitrary: h s)
    case (Cons e es)
    obtain w r f where e: "e = (w, r, f)" by (cases e)
    obtain direct sent s1 where o: "dispatch_one w r f s = ((direct, sent), s1)" by (metis surj_pair)
    note fair = dispatch_one_fair [OF Cons.prems o]
    show ?case using fair(2-4) Cons.IH [OF fair(1)] by (simp add: e o)
  qed simp
  then show ?thesis by (simp add: agrees_with_def AlertSentChannels_def)
qed

text \<open>A mail channel with only a blind copy has somewhere to send, and is refused as not configured.\<close>

lemma bcc_channel_never_sent:
  "let c = DecodeChannel ''1'' ''smtp'' True \<lparr>cc_URLs = [], Host = ''mx'', Port = 25, Secure = False, User = [], Pass = [], From = ''a@b'',
       To = [], Cc = [], Bcc = ''list@b''\<rparr> [''router_offline''] [] [] \<lparr>tu_CPU = Fin 0, tu_PingLoss = Fin 0, tu_CooldownSec = 0\<rparr>
   in Wants c ''router_offline'' ''r1'' \<and> Deliverable c \<and>
      list_all (\<lambda>r. \<not> configured r) (channelRecipients [(''_install'', c)] (\<lambda>_ _. False) ''r1'' ''router_offline'' [] (Fin 0) False) \<and>
      channelRecipients [(''_install'', c)] (\<lambda>_ _. False) ''r1'' ''router_offline'' [] (Fin 0) False \<noteq> []"
  by code_simp

section \<open>Cooldowns\<close>

text \<open>The sends that were allowed, newest first; nothing is ever forgotten.\<close>

definition spec_allow :: "Settings \<Rightarrow> (string \<times> millis) list \<Rightarrow> millis \<times> Recipient \<times> string \<Rightarrow> bool \<times> (string \<times> millis) list" where
  "spec_allow s sent c =
     (case c of (t, r, k) \<Rightarrow>
        if configured r \<and> (\<forall>t0. map_of sent (cooldown_slot r k) = Some t0 \<longrightarrow> cooldown_ms s r \<le> t - t0)
        then (True, (cooldown_slot r k, t) # sent) else (False, sent))"

definition allow_step :: "Dispatcher \<Rightarrow> millis \<times> Recipient \<times> string \<Rightarrow> bool \<times> Dispatcher" where
  "allow_step d c = (case c of (t, r, k) \<Rightarrow> Claim True d t r k)"

abbreviation slots :: "(millis \<times> Recipient \<times> string) list \<Rightarrow> string set" where
  "slots calls \<equiv> (\<lambda>(t, r, k). cooldown_slot r k) ` set calls"

lemma claim_spec:
  assumes "\<forall>x. golookup (cooldowns d) x = map_of sent x" "length (cooldowns d) \<le> cooldownMax" "cooldown_ms (ds_Settings d) r \<le> t"
  shows "fst (allow_step d (t, r, k)) = fst (spec_allow (ds_Settings d) sent (t, r, k)) \<and>
    (\<forall>x. golookup (cooldowns (snd (allow_step d (t, r, k)))) x = map_of (snd (spec_allow (ds_Settings d) sent (t, r, k))) x) \<and>
    ds_Settings (snd (allow_step d (t, r, k))) = ds_Settings d"
  using assms
  by (cases "map_of sent (cooldown_slot r k)") (auto simp: allow_step_def Claim_def allow_def spec_allow_def Let_def golookup_put not_less)

lemma claim_keys:
  assumes "distinct (gokeys (cooldowns d))" "set (gokeys (cooldowns d)) \<subseteq> S" "cooldown_slot r k \<in> S"
  shows "distinct (gokeys (cooldowns (snd (allow_step d (t, r, k)))))" "set (gokeys (cooldowns (snd (allow_step d (t, r, k))))) \<subseteq> S"
  using assms by (auto simp: allow_step_def Claim_def allow_def Let_def set_goput distinct_update dom_update split: if_splits)

text \<open>
  As long as no more recipients and subjects come by than the map holds, the cooldown forgets nothing that matters:
  a recipient is allowed a subject exactly when it can be reached at all and the last time it was allowed that subject
  is its cooldown ago or it never was, and an attempt that is refused changes nothing.
\<close>

theorem cooldown_exact:
  assumes "card (slots calls) \<le> cooldownMax" "\<forall>(t, r, k)\<in>set calls. cooldown_ms s r \<le> t"
  shows "fst (run allow_step \<lparr>cooldowns = [], ds_Settings = s\<rparr> calls) = fst (run (spec_allow s) [] calls)"
proof -
  have "fst (run allow_step d cs) = fst (run (spec_allow s) sent cs)"
    if "\<forall>x. golookup (cooldowns d) x = map_of sent x" "ds_Settings d = s" "distinct (gokeys (cooldowns d))"
      "set (gokeys (cooldowns d)) \<subseteq> slots calls" "set cs \<subseteq> set calls" for d sent cs
    using that
  proof (induction cs arbitrary: d sent)
    case (Cons c cs)
    obtain t r k where c: "c = (t, r, k)" by (cases c)
    have "length (cooldowns d) = card (set (gokeys (cooldowns d)))" by (metis Cons.prems(3) distinct_card length_map)
    also have "\<dots> \<le> card (slots calls)" by (rule card_mono) (use Cons.prems(4) in auto)
    finally have len: "length (cooldowns d) \<le> cooldownMax" using assms(1) by simp
    have late: "cooldown_ms (ds_Settings d) r \<le> t" using assms(2) Cons.prems(2,5) c by auto
    have mem: "cooldown_slot r k \<in> slots calls" using Cons.prems(5) c by force
    note cl = claim_spec [OF Cons.prems(1) len late, of k] and ck = claim_keys [OF Cons.prems(3,4) mem, of t]
    have "fst (run allow_step (snd (allow_step d c)) cs) = fst (run (spec_allow s) (snd (spec_allow s sent c)) cs)"
      using cl ck Cons.prems(2,5) unfolding c by (intro Cons.IH) auto
    then show ?case using cl Cons.prems(2) c by simp
  qed simp
  then show ?thesis by simp
qed

theorem cooldown_exact_witness:
  "fst (run allow_step \<lparr>cooldowns = [], ds_Settings = []\<rparr>
     [(100000, \<lparr>rc_ID = ''chan:1'', rc_Settings = [], CooldownSec = 30, URLs = [''u''], Personal = False\<rparr>, ''k''),
      (120000, \<lparr>rc_ID = ''chan:1'', rc_Settings = [], CooldownSec = 30, URLs = [''u''], Personal = False\<rparr>, ''k''),
      (130000, \<lparr>rc_ID = ''chan:1'', rc_Settings = [], CooldownSec = 30, URLs = [''u''], Personal = False\<rparr>, ''k'')]) = [True, False, True]"
proof -
  let ?r = "\<lparr>rc_ID = ''chan:1'', rc_Settings = [], CooldownSec = 30, URLs = [''u''], Personal = False\<rparr> :: Recipient"
  let ?calls = "[(100000, ?r, ''k''), (120000, ?r, ''k''), (130000, ?r, ''k'')]"
  have "fst (run (spec_allow []) [] ?calls) = [True, False, True]"
    by (simp add: run.simps spec_allow_def configured_def cooldown_ms_def thousandfold_def rounded_def round64_def to_int64_def Let_def)
  moreover have "card (slots ?calls) \<le> cooldownMax" by (simp add: cooldownMax_def)
  moreover have "\<forall>(t, r, k)\<in>set ?calls. cooldown_ms [] r \<le> t"
    by (simp add: cooldown_ms_def thousandfold_def rounded_def round64_def to_int64_def Let_def)
  ultimately show ?thesis using cooldown_exact [of ?calls "[]"] by simp
qed

section \<open>Nothing of an alert can break a message apart\<close>

abbreviation printable :: "string \<Rightarrow> bool" where
  "printable s \<equiv> \<forall>c\<in>set s. \<not> control c"

lemma drop_controls_printable: "printable (drop_controls s)"
proof (induction s rule: drop_controls.induct)
  case (1 s)
  show ?case
  proof (cases "s = []")
    case True
    then show ?thesis by (simp add: drop_controls.simps [of "[]"])
  next
    case ne: False
    consider "rune_len s = 0" | "rune_len s \<noteq> 0" "control (hd s)" | "rune_len s \<noteq> 0" "\<not> control (hd s)" by blast
    then show ?thesis
    proof cases
      case 1
      have "printable [CHR 0xEF, CHR 0xBF, CHR 0xBD]" by (simp add: control_def)
      then show ?thesis using "1.IH"(1) [OF ne 1] ne 1 by (simp add: drop_controls.simps [of s] ball_Un)
    next
      case 2
      then show ?thesis using "1.IH"(2) [OF ne 2] ne by (simp add: drop_controls.simps [of s])
    next
      case 3
      have "printable (take (rune_len s) s)"
      proof (cases "rune_len s = 1")
        case True
        then show ?thesis using 3 ne by (cases s) auto
      next
        case multi: False
        have "\<not> control c" if "c \<in> set (take (rune_len s) s)" for c
          using rune_multi [of s] that 3 multi by (fastforce simp: control_def)
        then show ?thesis by blast
      qed
      then show ?thesis using "1.IH"(3) [OF ne 3] ne 3 by (simp add: drop_controls.simps [of s] ball_Un)
    qed
  qed
qed

lemma var_text_printable: "printable (var_text vars k)"
  using drop_controls_printable by (auto simp: var_text_def split: option.split dest: in_set_takeD)

lemma placeholder_suffix: "placeholder s = Some (k, rest) \<Longrightarrow> set rest \<subseteq> set s"
  by (auto simp: placeholder_def Let_def split: if_splits dest!: in_set_dropD set_dropWhileD in_set_dropD)

lemma Render_printable: "printable tpl \<Longrightarrow> printable (Render tpl vars)"
proof (induction tpl vars rule: Render.induct)
  case (1 tpl vars)
  show ?case
  proof (cases "placeholder tpl")
    case None
    then show ?thesis using "1.IH"(1) [OF None] "1.prems" by (cases tpl) (simp_all add: Render.simps [of "[]"] Render.simps [of "x # xs" for x xs])
  next
    case (Some x)
    obtain k rest where x: "placeholder tpl = Some (k, rest)" using Some by (cases x) auto
    then have "printable rest" using placeholder_suffix [OF x] "1.prems" by blast
    then have "printable (Render rest vars)" using "1.IH"(2) [OF x refl] by blast
    then show ?thesis using x var_text_printable [of vars k] by (subst Render.simps) auto
  qed
qed

text \<open>
  No router name, subject or detail, whatever bytes a router or a person put there, adds a line break or another
  control character to a message: when the three templates of the settings have none, the title and the body of every
  alert have none.
\<close>

theorem message_unbroken:
  assumes "printable (setting_text s ''notifTitle'')" "printable (setting_text s ''notifBody'')" "printable (setting_text s ''notifBodyUp'')"
  shows "printable (Title (Build uni s routerName timestamp f)) \<and> printable (Body (Build uni s routerName timestamp f))"
proof -
  have p: "printable (''MikroDash Alert'')" "printable ('' {{alertType}} on {{routerName}}: {{detail}}'')" "printable check_mark" "printable warning_sign"
    by (simp_all add: control_def check_mark_def warning_sign_def)
  show ?thesis unfolding Build_def Let_def Message.simps
    by (intro conjI Render_printable) (use assms p in \<open>auto simp: Let_def\<close>)
qed

theorem message_unbroken_witness:
  "list_all (\<lambda>c. \<not> control c) (Title (Build (\<lambda>s. s) [(''notifTitle'', S_String ''{{subject}} on {{routerName}}'')] [CHR 0x0D, CHR 0x0A, CHR ''x''] []
     (raise ''Host Down'' [CHR 0x0A, CHR ''y''] [])))"
  using message_unbroken [of "[(''notifTitle'', S_String ''{{subject}} on {{routerName}}'')]" "\<lambda>s. s" "[CHR 0x0D, CHR 0x0A, CHR ''x'']" "[]"
      "raise ''Host Down'' [CHR 0x0A, CHR ''y''] []"]
  by (simp add: setting_text_def list_all_iff control_def)

end
