(* ===== verification/Tpl_Text.thy ===== *)
theory Tpl_Text
  imports Go_Json
begin

text \<open>
  The values of a configuration template (\<^verbatim>\<open>internal/cfgtpl\<close>): the structure a template is read into
  (\<^verbatim>\<open>ast.go\<close>), the one way a value becomes router text (\<^verbatim>\<open>quote.go\<close>), and how a value is read
  (\<^verbatim>\<open>parse.go\<close>, from \<open>parseValue\<close> down). The words of messages are shortened.
\<close>

section \<open>Outcomes\<close>

text \<open>A function returns an error or a value; a slice expression past the end of a string panics.\<close>

datatype ('e, 'a) outcome = Panics | Fails 'e | Gives 'a

primrec and_then :: "('e, 'a) outcome \<Rightarrow> ('a \<Rightarrow> ('e, 'b) outcome) \<Rightarrow> ('e, 'b) outcome" where
  "and_then Panics f = Panics"
| "and_then (Fails e) f = Fails e"
| "and_then (Gives x) f = f x"

lemma and_then_Gives: "and_then r f = Gives y \<longleftrightarrow> (\<exists>x. r = Gives x \<and> f x = Gives y)"
  by (cases r) auto

lemma and_then_Panics: "and_then r f = Panics \<longleftrightarrow> r = Panics \<or> (\<exists>x. r = Gives x \<and> f x = Panics)"
  by (cases r) auto

lemma map_outcome_Gives [simp]: "map_outcome f g r = Gives y \<longleftrightarrow> (\<exists>x. r = Gives x \<and> y = g x)"
  by (cases r) auto

lemma map_outcome_Panics [simp]: "map_outcome f g r = Panics \<longleftrightarrow> r = Panics"
  by (cases r) auto

text \<open>An error is a text, or a format and what it formats.\<close>

datatype message = Text string | Fmt string "message list"

section \<open>The structure of a template\<close>

record Part =
  Lit :: string
  Var :: string

record Value =
  Parts :: "Part list"
  Quoted :: bool

record Arg =
  arg_Name :: string
  arg_Value :: Value

record Line =
  Num :: nat
  Menu :: "string list"
  ln_Verb :: string
  HasFind :: bool
  Find :: "Arg list"
  Pos :: "Value list"
  Args :: "Arg list"

record Template =
  Lines :: "Line list"

definition lit :: "string \<Rightarrow> Part" where "lit s = \<lparr>Lit = s, Var = []\<rparr>"
definition var :: "string \<Rightarrow> Part" where "var v = \<lparr>Lit = [], Var = v\<rparr>"

lemma part_simps [simp]: "Lit (lit s) = s" "Var (lit s) = []" "Lit (var v) = []" "Var (var v) = v" "lit s = lit t \<longleftrightarrow> s = t"
    "var v = var w \<longleftrightarrow> v = w"
  by (simp_all add: lit_def var_def)

text \<open>The placeholder a value is, and the text of a value without placeholders.\<close>

definition Value_Var :: "Value \<Rightarrow> string option" where
  "Value_Var v = (case Parts v of [p] \<Rightarrow> if Var p \<noteq> [] then Some (Var p) else None | _ \<Rightarrow> None)"

definition Literal :: "Value \<Rightarrow> string option" where
  "Literal v = (if list_ex (\<lambda>p. Var p \<noteq> []) (Parts v) then None else Some (concat (map Lit (Parts v))))"

definition Path :: "Line \<Rightarrow> string" where
  "Path l = CHR ''/'' # go_join ''/'' (Menu l)"

definition Line_Arg :: "Line \<Rightarrow> string \<Rightarrow> Value option" where
  "Line_Arg l n = map_option arg_Value (find (\<lambda>a. arg_Name a = n) (Args l))"

definition add_new :: "string list \<Rightarrow> string \<Rightarrow> string list" where
  "add_new out x = (if x \<in> set out then out else out @ [x])"

definition line_values :: "Line \<Rightarrow> Value list" where
  "line_values l = map arg_Value (Find l) @ Pos l @ map arg_Value (Args l)"

definition Vars :: "Template \<Rightarrow> string list" where
  "Vars t = foldl add_new [] (filter (\<lambda>v. v \<noteq> []) (map Var (concat (map Parts (concat (map line_values (Lines t)))))))"

definition Menus :: "Template \<Rightarrow> string list" where
  "Menus t = sort (foldl add_new [] (map Path (Lines t)))"

section \<open>Writing a value\<close>

definition hex_upper :: "nat \<Rightarrow> char" where
  "hex_upper d = char_of (if d < 10 then 48 + d else 55 + d)"

definition esc_byte :: "char \<Rightarrow> string" where
  "esc_byte c =
     (if c \<in> {CHR 0x5C, CHR 0x22, CHR ''$''} then [CHR 0x5C, c]
      else if byte_code c < 0x20 \<or> 0x7F \<le> byte_code c \<or> c \<in> {CHR ''?'', CHR ''['', CHR '']'', CHR ''{'', CHR ''}''}
      then [CHR 0x5C, hex_upper (byte_code c div 16), hex_upper (byte_code c mod 16)]
      else [c])"

definition escapeInner :: "string \<Rightarrow> string" where
  "escapeInner s = concat (map esc_byte s)"

definition QuoteROS :: "string \<Rightarrow> string" where
  "QuoteROS s = CHR 0x22 # escapeInner s @ [CHR 0x22]"

definition lower_or_digit :: "char \<Rightarrow> bool" where
  "lower_or_digit c \<longleftrightarrow> is_digit c \<or> 97 \<le> byte_code c \<and> byte_code c \<le> 122"

definition alnum :: "char \<Rightarrow> bool" where
  "alnum c \<longleftrightarrow> lower_or_digit c \<or> 65 \<le> byte_code c \<and> byte_code c \<le> 90"

definition bare_char :: "char \<Rightarrow> bool" where
  "bare_char c \<longleftrightarrow> alnum c \<or> c \<in> set ''._,:/@+*!%-''"

definition bareSafe :: "string \<Rightarrow> bool" where
  "bareSafe s \<longleftrightarrow> s \<noteq> [] \<and> list_all bare_char s"

definition emitLiteral :: "string \<Rightarrow> string" where
  "emitLiteral s = (if bareSafe s then s else QuoteROS s)"

section \<open>Reading a value\<close>

definition lower :: "char \<Rightarrow> bool" where
  "lower c \<longleftrightarrow> 97 \<le> byte_code c \<and> byte_code c \<le> 122"

text \<open>A name that starts with a lower-case letter and goes on with \<open>ok\<close> characters.\<close>

definition named :: "(char \<Rightarrow> bool) \<Rightarrow> string \<Rightarrow> bool" where
  "named ok s \<longleftrightarrow> (case s of [] \<Rightarrow> False | c # t \<Rightarrow> lower c \<and> list_all ok t)"

definition varName :: "string \<Rightarrow> bool" where
  "varName s \<longleftrightarrow> named (\<lambda>c. lower_or_digit c \<or> c = CHR ''_'') s \<and> length s \<le> 32"

definition argName :: "string \<Rightarrow> bool" where
  "argName s \<longleftrightarrow> named (\<lambda>c. lower_or_digit c \<or> c = CHR ''.'' \<or> c = CHR ''-'') s"

definition menuWord :: "string \<Rightarrow> bool" where
  "menuWord s \<longleftrightarrow> (case s of [] \<Rightarrow> False | c # t \<Rightarrow> lower_or_digit c \<and> list_all (\<lambda>c. lower_or_digit c \<or> c = CHR ''-'') t)"

definition wholeVar :: "string \<Rightarrow> string option" where
  "wholeVar s =
     (let v = take (length s - 4) (drop 2 s)
      in if s = ''{{'' @ v @ ''}}'' \<and> varName v then Some v else None)"

definition isHexUpper :: "char \<Rightarrow> bool" where
  "isHexUpper c \<longleftrightarrow> is_digit c \<or> 65 \<le> byte_code c \<and> byte_code c \<le> 70"

definition hexVal :: "char \<Rightarrow> nat" where
  "hexVal c = (if byte_code c \<le> 57 then byte_code c - 48 else byte_code c - 65 + 10)"

definition simpleEscapes :: "(char, char) gomap" where
  "simpleEscapes =
     [(CHR 0x22, CHR 0x22), (CHR 0x5C, CHR 0x5C), (CHR ''$'', CHR ''$''), (CHR ''n'', CHR 0x0A), (CHR ''r'', CHR 0x0D),
      (CHR ''t'', CHR 0x09), (CHR ''_'', CHR '' ''), (CHR ''a'', CHR 0x07), (CHR ''b'', CHR 0x08), (CHR ''f'', CHR 0x0C),
      (CHR ''v'', CHR 0x0B)]"

text \<open>The index of the quote that closes the one a text starts with.\<close>

fun closing_from :: "nat \<Rightarrow> string \<Rightarrow> nat option" where
  "closing_from i [] = None"
| "closing_from i (c # s) =
     (if c = CHR 0x5C then (case s of [] \<Rightarrow> None | d # t \<Rightarrow> closing_from (i + 2) t)
      else if c = CHR 0x22 then Some i else closing_from (i + 1) s)"

definition closingQuote :: "string \<Rightarrow> nat option" where
  "closingQuote s = closing_from 1 (tl s)"

text \<open>The text before the first pair of closing braces, and after it.\<close>

fun before_close :: "string \<Rightarrow> (string \<times> string) option" where
  "before_close (c # d # s) =
     (if c = CHR ''}'' \<and> d = CHR ''}'' then Some ([], s) else map_option (apfst (Cons c)) (before_close (d # s)))"
| "before_close _ = None"

lemma before_close_shorter: "before_close s = Some (a, b) \<Longrightarrow> length b < length s"
  by (induction s arbitrary: a rule: before_close.induct) (fastforce split: if_splits)+

definition flush_lit :: "string \<Rightarrow> Part list \<Rightarrow> Part list" where
  "flush_lit l parts = (if l = [] then parts else parts @ [lit l])"

function quoted_loop :: "string \<Rightarrow> string \<Rightarrow> Part list \<Rightarrow> (message, Part list) outcome" where
  "quoted_loop s l parts =
     (case s of
        [] \<Rightarrow> Gives (flush_lit l parts)
      | c # s1 \<Rightarrow>
          if c = CHR 0x5C
          then (case s1 of
                  [] \<Rightarrow> Fails (Text ''a backslash ends the value'')
                | d # s2 \<Rightarrow>
                    (case golookup simpleEscapes d of
                       Some e \<Rightarrow> quoted_loop s2 (l @ [e]) parts
                     | None \<Rightarrow>
                         if s2 \<noteq> [] \<and> isHexUpper d \<and> isHexUpper (hd s2)
                         then quoted_loop (tl s2) (l @ [char_of (16 * hexVal d + hexVal (hd s2))]) parts
                         else Fails (Fmt [CHR 0x5C, CHR ''%'', CHR ''c''] [Text [d], Text '' is not a RouterOS escape''])))
          else if c = CHR ''$'' then Fails (Text ''inside quotes a dollar sign expands a variable or runs a command'')
          else if has_prefix s ''{{''
          then (case before_close (drop 2 s) of
                  None \<Rightarrow> Fails (Text ''a {{ is not closed'')
                | Some (name, s2) \<Rightarrow>
                    if varName name then quoted_loop s2 [] (flush_lit l parts @ [var name])
                    else Fails (Fmt ''%q is not a variable name (lower case, digits and _, starting with a letter)'' [Text name]))
          else if byte_code c < 0x20 \<or> c = CHR 0x7F then Fails (Text ''a control character inside a value'')
          else quoted_loop s1 (l @ [c]) parts)"
  by pat_completeness auto
termination
  by (relation "measure (\<lambda>(s, _). length s)") (auto dest: before_close_shorter)

declare quoted_loop.simps [simp del]

text \<open>The code point of the rune a text starts with.\<close>

definition rune_at :: "string \<Rightarrow> nat" where
  "rune_at s =
     (let b = \<lambda>i. byte_code (s ! i)
      in if rune_len s = 1 then b 0
         else if rune_len s = 2 then 64 * (b 0 - 0xC0) + (b 1 - 0x80)
         else if rune_len s = 3 then 4096 * (b 0 - 0xE0) + 64 * (b 1 - 0x80) + (b 2 - 0x80)
         else if rune_len s = 4 then 262144 * (b 0 - 0xF0) + 4096 * (b 1 - 0x80) + 64 * (b 2 - 0x80) + (b 3 - 0x80)
         else 0xFFFD)"

definition hidden_rune :: "nat \<Rightarrow> bool" where
  "hidden_rune r \<longleftrightarrow> 0x80 \<le> r \<and> r \<le> 0x9F \<or> 0x200B \<le> r \<and> r \<le> 0x200F \<or> 0x202A \<le> r \<and> r \<le> 0x202E \<or>
     0x2060 \<le> r \<and> r \<le> 0x2064 \<or> 0x2066 \<le> r \<and> r \<le> 0x2069 \<or> r = 0x2028 \<or> r = 0x2029 \<or> r = 0xFEFF"

function visibleText :: "string \<Rightarrow> nat option" where
  "visibleText s =
     (if s = [] then None else if hidden_rune (rune_at s) then Some (rune_at s)
      else visibleText (drop (max 1 (rune_len s)) s))"
  by pat_completeness auto
termination
  by (relation "measure length") auto

declare visibleText.simps [simp del]

definition hidden_text :: "Part list \<Rightarrow> nat option" where
  "hidden_text parts = (case List.map_filter (\<lambda>p. visibleText (Lit p)) parts of [] \<Rightarrow> None | r # _ \<Rightarrow> Some r)"

definition parseQuoted :: "string \<Rightarrow> (message, Part list) outcome" where
  "parseQuoted s =
     and_then (quoted_loop s [] []) (\<lambda>parts.
       case hidden_text parts of
         Some r \<Rightarrow> Fails (Fmt ''an invisible or direction-changing character (U+%04X) is not allowed'' [Text (nat_digits r)])
       | None \<Rightarrow> Gives parts)"

definition parseValue :: "string \<Rightarrow> (message, Value) outcome" where
  "parseValue raw =
     (if has_prefix raw [CHR 0x22]
      then if closingQuote raw \<noteq> Some (length raw - 1) then Fails (Text ''text follows a closing quote'')
           else map_outcome id (\<lambda>parts. \<lparr>Parts = parts, Quoted = True\<rparr>) (parseQuoted (butlast (tl raw)))
      else if raw = [] then Fails (Text ''an unquoted value is empty'')
      else case wholeVar raw of
             Some v \<Rightarrow> Gives \<lparr>Parts = [var v], Quoted = False\<rparr>
           | None \<Rightarrow>
               if CHR ''{'' \<in> set raw \<or> CHR ''}'' \<in> set raw
               then Fails (Text ''a placeholder must be the whole unquoted value, or sit inside quotes'')
               else if CHR 0x22 \<in> set raw then Fails (Text ''a quote in the middle of a value'')
               else Gives \<lparr>Parts = [lit raw], Quoted = False\<rparr>)"

section \<open>Escaped text\<close>

text \<open>The inside of a literal: no quote of its own ends it, and no backslash reaches past its end.\<close>

fun inner :: "string \<Rightarrow> bool" where
  "inner [] \<longleftrightarrow> True"
| "inner (c # s) \<longleftrightarrow>
     (if c = CHR 0x5C then (case s of [] \<Rightarrow> False | d # t \<Rightarrow> inner t) else c \<noteq> CHR 0x22 \<and> inner s)"

text \<open>Printable ASCII but the brackets, which is all that a written literal holds.\<close>

definition written :: "char \<Rightarrow> bool" where
  "written c \<longleftrightarrow> 0x20 \<le> byte_code c \<and> byte_code c \<le> 0x7E \<and> c \<noteq> CHR ''['' \<and> c \<noteq> CHR '']''"

lemma inner_simps [simp]:
  "inner (CHR 0x5C # d # t) \<longleftrightarrow> inner t" "c \<noteq> CHR 0x5C \<Longrightarrow> inner (c # s) \<longleftrightarrow> c \<noteq> CHR 0x22 \<and> inner s"
  by simp_all

lemma closing_simps [simp]:
  "closing_from i (CHR 0x5C # d # t) = closing_from (i + 2) t"
  "c \<noteq> CHR 0x5C \<Longrightarrow> closing_from i (c # s) = (if c = CHR 0x22 then Some i else closing_from (i + 1) s)"
  by simp_all

declare inner.simps(2) [simp del] closing_from.simps(2) [simp del]

text \<open>Induction over the inside of a literal: a byte of its own, or a backslash and what it escapes.\<close>

lemma inner_induct [consumes 1, case_names Nil esc byte]:
  assumes "inner s" "P []" "\<And>d t. inner t \<Longrightarrow> P t \<Longrightarrow> P (CHR 0x5C # d # t)"
    "\<And>c t. c \<noteq> CHR 0x5C \<Longrightarrow> c \<noteq> CHR 0x22 \<Longrightarrow> inner t \<Longrightarrow> P t \<Longrightarrow> P (c # t)"
  shows "P s"
  using assms(1)
proof (induction s rule: inner.induct)
  case (2 c s)
  show ?case
  proof (cases "c = CHR 0x5C")
    case True
    then obtain d t where s: "s = d # t" using 2(3) by (cases s) (simp_all add: inner.simps(2))
    have "inner t" using 2(3) unfolding True s by simp
    then show ?thesis using assms(3) 2(1) [OF True s] unfolding True s by blast
  next
    case False
    then show ?thesis using assms(4) 2 by simp
  qed
qed (rule assms(2))

lemma inner_append: "inner a \<Longrightarrow> inner (a @ b) \<longleftrightarrow> inner b"
  by (induction a rule: inner_induct) simp_all

lemma closing_inner: "inner a \<Longrightarrow> closing_from i (a @ s) = closing_from (i + length a) s"
  by (induction a arbitrary: i rule: inner_induct) simp_all

lemma closingQuote_inner: "inner b \<Longrightarrow> closingQuote (CHR 0x22 # b @ [CHR 0x22]) = Some (Suc (length b))"
  using closing_inner [of b 1 "[CHR 0x22]"] by (simp add: closingQuote_def)

lemma byte_code_of: "n < 256 \<Longrightarrow> byte_code (char_of n) = n"
  by simp

lemma hex_upper_code: "d < 16 \<Longrightarrow> byte_code (hex_upper d) = (if d < 10 then 48 + d else 55 + d)"
  unfolding hex_upper_def by (subst byte_code_of) auto

lemma hex_upper_facts:
  assumes "d < 16"
  shows "isHexUpper (hex_upper d)" "hexVal (hex_upper d) = d" "golookup simpleEscapes (hex_upper d) = None" "written (hex_upper d)"
    "hex_upper d \<noteq> CHR 0x5C" "hex_upper d \<noteq> CHR 0x22"
proof -
  note code = hex_upper_code [OF assms]
  have d: "d < 10 \<or> 10 \<le> d \<and> d < 16" using assms by auto
  show "isHexUpper (hex_upper d)" "hexVal (hex_upper d) = d" using d by (auto simp: isHexUpper_def is_digit_of code hexVal_def)
  have ne: "hex_upper d \<noteq> c" if "byte_code c < 48 \<or> 57 < byte_code c \<and> byte_code c < 65 \<or> 70 < byte_code c" for c
    using that d code by auto
  show "golookup simpleEscapes (hex_upper d) = None" by (simp add: simpleEscapes_def ne)
  show "hex_upper d \<noteq> CHR 0x5C" "hex_upper d \<noteq> CHR 0x22" by (simp_all add: ne)
  show "written (hex_upper d)" using d ne [of "CHR ''[''"] ne [of "CHR '']''"] by (auto simp: written_def code)
qed

lemma byte_halves: "byte_code c div 16 < 16" "byte_code c mod 16 < 16" "char_of (16 * (byte_code c div 16) + byte_code c mod 16) = c"
  using byte_code_less [of c] by (simp_all add: less_mult_imp_div_less)

text \<open>An escaped byte is one of three: a backslash and itself, a backslash and two digits, or itself.\<close>

lemma esc_byte_cases:
  obtains (short) "esc_byte c = [CHR 0x5C, c]" "c \<in> {CHR 0x5C, CHR 0x22, CHR ''$''}"
  | (hex) "esc_byte c = [CHR 0x5C, hex_upper (byte_code c div 16), hex_upper (byte_code c mod 16)]"
  | (plain) "esc_byte c = [c]" "0x20 \<le> byte_code c" "byte_code c < 0x7F" "c \<notin> {CHR 0x5C, CHR 0x22, CHR ''$'', CHR ''['', CHR '']'', CHR ''{'', CHR ''}''}"
proof (cases "c \<in> {CHR 0x5C, CHR 0x22, CHR ''$''}")
  case True
  then show ?thesis by (intro short) (simp_all only: esc_byte_def if_True)
next
  case False
  then show ?thesis using hex plain unfolding esc_byte_def by (cases "byte_code c < 0x20 \<or> 0x7F \<le> byte_code c \<or> c \<in> {CHR ''?'', CHR ''['', CHR '']'', CHR ''{'', CHR ''}''}") simp_all
qed

lemma simple_self: "c \<in> {CHR 0x5C, CHR 0x22, CHR ''$''} \<Longrightarrow> golookup simpleEscapes c = Some c"
  by (auto simp: simpleEscapes_def)

lemma quoted_byte: "quoted_loop (esc_byte c @ s) l parts = quoted_loop s (l @ [c]) parts"
proof (cases c rule: esc_byte_cases)
  case short
  then show ?thesis using simple_self [OF short(2)] by (simp add: quoted_loop.simps [of "CHR 0x5C # c # s"])
next
  case hex
  define h1 h2 where h: "h1 = hex_upper (byte_code c div 16)" "h2 = hex_upper (byte_code c mod 16)"
  note f = hex_upper_facts [OF byte_halves(1)] hex_upper_facts [OF byte_halves(2)]
  have "char_of (16 * hexVal h1 + hexVal h2) = c" unfolding h f(2) f(8) by (rule byte_halves(3))
  moreover have "quoted_loop (CHR 0x5C # h1 # h2 # s) l parts = quoted_loop s (l @ [char_of (16 * hexVal h1 + hexVal h2)]) parts"
    using f(1,3,7) [of c] unfolding h [symmetric] by (subst quoted_loop.simps) simp
  ultimately show ?thesis by (simp add: hex h)
next
  case plain
  have "c \<noteq> CHR ''{''" using plain(4) by simp
  moreover have "c \<noteq> CHR 0x7F" using plain(3) by auto
  moreover have "c \<noteq> CHR 0x5C" "c \<noteq> CHR ''$''" "\<not> byte_code c < 0x20" using plain(2,4) by simp_all
  ultimately show ?thesis unfolding plain(1) by (simp add: quoted_loop.simps [of "c # s"])
qed

lemma quoted_escaped: "quoted_loop (escapeInner t @ s) l parts = quoted_loop s (l @ t) parts"
  by (induction t arbitrary: l) (simp_all add: escapeInner_def quoted_byte)

lemma inner_byte: "inner (esc_byte c)"
proof (cases c rule: esc_byte_cases)
  case hex
  then show ?thesis using hex_upper_facts(5,6) [OF byte_halves(2)] by simp
next
  case plain
  then show ?thesis by simp
qed simp

lemma written_byte: "list_all written (esc_byte c)"
proof (cases c rule: esc_byte_cases)
  case short
  then show ?thesis by (auto simp: written_def)
next
  case hex
  then show ?thesis using hex_upper_facts(4) [OF byte_halves(1)] hex_upper_facts(4) [OF byte_halves(2)] by (simp add: written_def)
next
  case plain
  then show ?thesis by (simp add: written_def)
qed

lemma inner_escaped: "inner (escapeInner t)" "list_all written (escapeInner t)"
  by (induction t) (simp_all add: escapeInner_def inner_byte written_byte inner_append)

lemma escaped_closing: "CHR ''}'' \<notin> set (escapeInner t)" "CHR ''{'' \<notin> set (escapeInner t)"
proof -
  have "x \<notin> set (esc_byte c)" if "x = CHR ''}'' \<or> x = CHR ''{''" for x c
  proof (cases c rule: esc_byte_cases)
    case hex
    have ne: "hex_upper d \<noteq> x" if "d < 16" for d using hex_upper_code [OF that] \<open>x = CHR ''}'' \<or> x = CHR ''{''\<close> that by (auto split: if_splits)
    have "x \<noteq> CHR 0x5C" using that by auto
    then show ?thesis using ne [OF byte_halves(1), of c] ne [OF byte_halves(2), of c] unfolding hex by (simp add: eq_commute)
  qed (use that in auto)
  then show "CHR ''}'' \<notin> set (escapeInner t)" "CHR ''{'' \<notin> set (escapeInner t)" by (auto simp: escapeInner_def)
qed

section \<open>A value reads back\<close>

text \<open>What reading a value leaves: literals that are not empty and do not touch, and names of variables.\<close>

definition wf_part :: "Part \<Rightarrow> bool" where
  "wf_part p \<longleftrightarrow> (if Var p = [] then Lit p \<noteq> [] \<and> visibleText (Lit p) = None else Lit p = [] \<and> varName (Var p))"

fun wf_parts :: "Part list \<Rightarrow> bool" where
  "wf_parts [] \<longleftrightarrow> True"
| "wf_parts (p # ps) \<longleftrightarrow> wf_part p \<and> (Var p = [] \<longrightarrow> ps = [] \<or> Var (hd ps) \<noteq> []) \<and> wf_parts ps"

definition emit_part :: "Part \<Rightarrow> string" where
  "emit_part p = (if Var p \<noteq> [] then ''{{'' @ Var p @ ''}}'' else escapeInner (Lit p))"

lemma named_chars: "named ok s \<Longrightarrow> (\<And>c. lower c \<Longrightarrow> ok c) \<Longrightarrow> list_all ok s"
  by (cases s) (auto simp: named_def)

lemma varName_chars: "varName v \<Longrightarrow> c \<in> set v \<Longrightarrow> lower_or_digit c \<or> c = CHR ''_''"
  using named_chars [of "\<lambda>c. lower_or_digit c \<or> c = CHR ''_''" v]
  by (auto simp: varName_def lower_def lower_or_digit_def list_all_iff)

lemma name_refused:
  "list_all (\<lambda>c. \<not> lower_or_digit c) [CHR ''}'', CHR ''{'', CHR 0x5C, CHR 0x22, CHR ''['', CHR '']'', CHR ''='', CHR '' '', CHR ''_'', CHR ''/'']"
  by code_simp

lemma lower_or_digit_not: "lower_or_digit c \<Longrightarrow> c \<notin> {CHR ''}'', CHR ''{'', CHR 0x5C, CHR 0x22, CHR ''['', CHR '']'', CHR ''='', CHR '' '', CHR ''_'', CHR ''/''}"
  using name_refused by auto

lemma varName_not: "varName v \<Longrightarrow> c \<in> {CHR ''}'', CHR ''{'', CHR 0x5C, CHR 0x22, CHR ''['', CHR '']'', CHR ''='', CHR '' ''} \<Longrightarrow> c \<notin> set v"
  using varName_chars [of v c] lower_or_digit_not [of c] by auto

lemma varName_nonempty [simp]: "varName v \<Longrightarrow> v \<noteq> []"
  by (auto simp: varName_def named_def)

lemma before_close_name: "CHR ''}'' \<notin> set v \<Longrightarrow> before_close (v @ ''}}'' @ s) = Some (v, s)"
proof (induction v)
  case (Cons c v)
  then show ?case by (cases v) auto
qed simp

lemma quoted_var: "varName v \<Longrightarrow> quoted_loop (''{{'' @ v @ ''}}'' @ s) l parts = quoted_loop s [] (flush_lit l parts @ [var v])"
  using before_close_name [of v s] varName_not [of v "CHR ''}''"]
  by (simp add: quoted_loop.simps [of "CHR ''{'' # t" for t])

lemma part_cases: "wf_part p \<Longrightarrow> p = (if Var p = [] then lit (Lit p) else var (Var p))"
  by (cases p) (simp add: wf_part_def lit_def var_def split: if_splits)

lemma quoted_parts:
  "wf_parts ps \<Longrightarrow> l \<noteq> [] \<longrightarrow> ps = [] \<or> Var (hd ps) \<noteq> [] \<Longrightarrow>
    quoted_loop (concat (map emit_part ps)) l acc = Gives (flush_lit l acc @ ps)"
proof (induction ps arbitrary: l acc)
  case Nil
  then show ?case by (simp add: quoted_loop.simps)
next
  case (Cons p ps)
  have p: "wf_part p" "wf_parts ps" using Cons.prems(1) by simp_all
  show ?case
  proof (cases "Var p = []")
    case True
    then have l: "l = []" using Cons.prems(2) by auto
    have "quoted_loop (concat (map emit_part ps)) (Lit p) acc = Gives (flush_lit (Lit p) acc @ ps)"
      using Cons.prems(1) True by (intro Cons.IH p(2)) auto
    moreover have "emit_part p = escapeInner (Lit p)" "Lit p \<noteq> []" "lit (Lit p) = p"
      using True part_cases [OF p(1)] p(1) by (simp_all add: emit_part_def wf_part_def)
    ultimately show ?thesis using l by (simp add: quoted_escaped flush_lit_def)
  next
    case False
    have "quoted_loop (concat (map emit_part ps)) [] (flush_lit l acc @ [var (Var p)]) = Gives ((flush_lit l acc @ [var (Var p)]) @ ps)"
      using Cons.IH [OF p(2), of "[]"] by (simp add: flush_lit_def)
    moreover have "emit_part p = ''{{'' @ Var p @ ''}}''" "varName (Var p)" "var (Var p) = p"
      using False part_cases [OF p(1)] p(1) by (simp_all add: emit_part_def wf_part_def)
    ultimately show ?thesis using quoted_var [of "Var p" "concat (map emit_part ps)" l acc] by simp
  qed
qed

lemma hidden_none: "hidden_text ps = None \<longleftrightarrow> (\<forall>p\<in>set ps. visibleText (Lit p) = None)"
proof -
  have "List.map_filter (\<lambda>p. visibleText (Lit p)) ps = [] \<longleftrightarrow> (\<forall>p\<in>set ps. visibleText (Lit p) = None)"
    by (induction ps) (auto simp: List.map_filter_simps split: option.splits)
  then show ?thesis by (auto simp: hidden_text_def split: list.splits)
qed

lemma visible_Nil [simp]: "visibleText [] = None"
  by (simp add: visibleText.simps)

lemma wf_parts_visible: "wf_parts ps \<Longrightarrow> hidden_text ps = None"
  unfolding hidden_none by (induction ps) (auto simp: wf_part_def split: if_splits)

lemma inner_plain: "CHR 0x5C \<notin> set s \<Longrightarrow> CHR 0x22 \<notin> set s \<Longrightarrow> inner s"
  by (induction s) auto

lemma inner_parts: "wf_parts ps \<Longrightarrow> inner (concat (map emit_part ps))"
proof (induction ps)
  case (Cons p ps)
  have "inner (emit_part p)"
  proof (cases "Var p = []")
    case True
    then show ?thesis by (simp add: emit_part_def inner_escaped)
  next
    case False
    then have "varName (Var p)" using Cons.prems by (simp add: wf_part_def)
    then have "CHR 0x5C \<notin> set (Var p)" "CHR 0x22 \<notin> set (Var p)" by (simp_all add: varName_not)
    then show ?thesis using False by (intro inner_plain) (simp_all add: emit_part_def)
  qed
  with Cons show ?case by (simp add: inner_append)
qed simp

lemma parseValue_quoted: "wf_parts ps \<Longrightarrow> parseValue (CHR 0x22 # concat (map emit_part ps) @ [CHR 0x22]) = Gives \<lparr>Parts = ps, Quoted = True\<rparr>"
  using quoted_parts [of ps "[]" "[]"] closingQuote_inner [OF inner_parts, of ps] wf_parts_visible [of ps]
  by (simp add: parseValue_def parseQuoted_def flush_lit_def)

lemma bare_refused: "list_all (\<lambda>c. \<not> bare_char c) [CHR ''{'', CHR ''}'', CHR 0x22, CHR 0x5C, CHR ''['', CHR '']'', CHR ''='', CHR '' '']"
  by code_simp

lemma bare_not: "bare_char c \<Longrightarrow> c \<notin> {CHR ''{'', CHR ''}'', CHR 0x22, CHR 0x5C, CHR ''['', CHR '']'', CHR ''='', CHR '' ''}"
  using bare_refused by auto

lemma parseValue_bare: "bareSafe s \<Longrightarrow> parseValue s = Gives \<lparr>Parts = [lit s], Quoted = False\<rparr>"
proof -
  assume s: "bareSafe s"
  then have c: "c \<in> set s \<Longrightarrow> bare_char c" for c by (auto simp: bareSafe_def list_all_iff)
  have n: "CHR ''{'' \<notin> set s" "CHR ''}'' \<notin> set s" "CHR 0x22 \<notin> set s" using c bare_not by auto
  then have "s \<noteq> ''{{'' @ x @ ''}}''" "\<not> has_prefix s [CHR 0x22]" for x by (auto simp: has_prefix_iff)
  then have "\<not> has_prefix s [CHR 0x22]" "wholeVar s = None" by (simp_all add: wholeVar_def Let_def)
  then show ?thesis using s n by (simp add: parseValue_def bareSafe_def)
qed

lemma wholeVar_braces: "varName v \<Longrightarrow> wholeVar (''{{'' @ v @ ''}}'') = Some v"
  by (simp add: wholeVar_def)

lemma parseValue_var: "varName v \<Longrightarrow> parseValue (''{{'' @ v @ ''}}'') = Gives \<lparr>Parts = [var v], Quoted = False\<rparr>"
  using wholeVar_braces [of v] by (simp add: parseValue_def)

end
