(* ===== verification/Tpl_Parse.thy ===== *)
theory Tpl_Parse
  imports Tpl_Text
begin

text \<open>
  Reading a template or an export (\<^verbatim>\<open>internal/cfgtpl/parse.go\<close>, down to \<open>readArgs\<close>): physical lines are joined into
  logical ones, a logical line is split into words, and the words are one command or a move to a menu. A slice
  expression that Go would refuse is \<open>Panics\<close>; it is shown not to happen.
\<close>

type_synonym parse_error = "nat \<times> message"

section \<open>Logical lines\<close>

record logical =
  lg_text :: string
  lg_line :: nat

record join_state =
  jout :: "logical list"
  jbuf :: string
  jcomment :: string
  jstart :: nat
  jline :: nat
  jinQ :: bool
  jinComment :: bool
  jlast :: char

definition blank :: "char \<Rightarrow> bool" where
  "blank c \<longleftrightarrow> c = CHR '' '' \<or> c = CHR 0x09"

definition join_start :: join_state where
  "join_start = \<lparr>jout = [], jbuf = [], jcomment = [], jstart = 1, jline = 1, jinQ = False, jinComment = False, jlast = CHR '' ''\<rparr>"

definition flush :: "join_state \<Rightarrow> join_state" where
  "flush s =
     (let t = TrimSpace (jbuf s)
      in s\<lparr>jout := (if t = [] then jout s else jout s @ [\<lparr>lg_text = t, lg_line = jstart s\<rparr>]), jbuf := [], jlast := CHR '' ''\<rparr>)"

definition put :: "char \<Rightarrow> join_state \<Rightarrow> join_state" where
  "put c s = s\<lparr>jbuf := jbuf s @ [c], jlast := c\<rparr>"

definition endComment :: "join_state \<Rightarrow> (parse_error, join_state) outcome" where
  "endComment s =
     (if has_suffix (rev (dropWhile blank (rev (jcomment s)))) [CHR 0x5C]
      then Fails (jline s, Text ''a comment cannot continue onto the next line'')
      else Gives (s\<lparr>jcomment := [], jinComment := False\<rparr>))"

definition end_line :: "join_state \<Rightarrow> join_state" where
  "end_line s = (let s1 = flush s in s1\<lparr>jline := jline s1 + 1, jstart := jline s1 + 1\<rparr>)"

function join_loop :: "string \<Rightarrow> join_state \<Rightarrow> (parse_error, join_state) outcome" where
  "join_loop src s =
     (case src of
        [] \<Rightarrow> Gives s
      | c # cs \<Rightarrow>
          if jinComment s
          then (if c = CHR 0x0A then and_then (endComment s) (\<lambda>s1. join_loop cs (end_line s1))
                else join_loop cs (s\<lparr>jcomment := jcomment s @ [c]\<rparr>))
          else if c = CHR 0x5C \<and> cs \<noteq> [] \<and> hd cs = CHR 0x0A
          then (let s1 = s\<lparr>jline := jline s + 1\<rparr>
                in join_loop (dropWhile blank (tl cs)) (if jinQ s then s1 else put (CHR '' '') s1))
          else if c = CHR 0x5C \<and> jinQ s
          then (case cs of [] \<Rightarrow> join_loop [] (put c s) | d # ds \<Rightarrow> join_loop ds (put d (put c s)))
          else if c = CHR 0x22 then join_loop cs (put c (s\<lparr>jinQ := \<not> jinQ s\<rparr>))
          else if c = CHR ''#'' \<and> \<not> jinQ s \<and> blank (jlast s) then join_loop cs (s\<lparr>jinComment := True\<rparr>)
          else if c = CHR 0x0A
          then (if jinQ s then Fails (jstart s, Text ''a quoted value is not closed before the end of the line'')
                else join_loop cs (end_line s))
          else join_loop cs (put c s))"
  by pat_completeness auto
termination
proof (relation "measure (\<lambda>(src, _). length src)", goal_cases)
  case (4 src s c cs x)
  then show ?case by (cases cs) (auto intro: le_less_trans [OF length_dropWhile_le])
qed auto

declare join_loop.simps [simp del]

definition join :: "string \<Rightarrow> (parse_error, logical list) outcome" where
  "join src =
     and_then (join_loop src join_start) (\<lambda>s.
       if jinQ s then Fails (jstart s, Text ''a quoted value is not closed'')
       else and_then (if jinComment s then endComment s else Gives s) (\<lambda>s1. Gives (jout (flush s1))))"

section \<open>Words\<close>

record token =
  tk_text :: string
  bracket :: bool

text \<open>The rest of a selector, up to and with its closing bracket.\<close>

fun bracket_scan :: "bool \<Rightarrow> string \<Rightarrow> (message, string \<times> string) outcome" where
  "bracket_scan inQ [] = Fails (Text ''a [ is not closed'')"
| "bracket_scan True (c # s) =
     (if c = CHR 0x5C
      then (case s of
              [] \<Rightarrow> Fails (Text ''a [ is not closed'')
            | d # t \<Rightarrow> map_outcome id (apfst (\<lambda>w. c # d # w)) (bracket_scan True t))
      else map_outcome id (apfst (Cons c)) (bracket_scan (c \<noteq> CHR 0x22) s))"
| "bracket_scan False (c # s) =
     (if c = CHR ''['' then Fails (Text ''a [ ] inside a [ ] is command substitution, which a template may not use'')
      else if c = CHR '']'' then Gives ([c], s)
      else map_outcome id (apfst (Cons c)) (bracket_scan (c = CHR 0x22) s))"

definition bracketEnd :: "string \<Rightarrow> (message, string \<times> string) outcome" where
  "bracketEnd s = map_outcome id (apfst (Cons (hd s))) (bracket_scan False (tl s))"

text \<open>What no word holds outside quotes.\<close>

definition refused_char :: "char \<Rightarrow> message option" where
  "refused_char c =
     (if c = CHR '';'' then Some (Text ''; joins two commands, which a template may not do'')
      else if c = CHR ''$'' then Some (Text ''a dollar sign expands a variable; write it inside quotes'')
      else if c = CHR 0x60 then Some (Text ''a backtick has no meaning in RouterOS'')
      else if c = CHR 0x5C then Some (Text ''a backslash outside quotes is only allowed at the end of a line'')
      else if c = CHR ''#'' then Some (Text ''a value containing # must be quoted'')
      else if c = CHR ''['' \<or> c = CHR '']'' then Some (Text ''[ ] may only open a selector'')
      else if byte_code c < 0x20 \<or> c = CHR 0x7F then Some (Text ''a control character outside quotes'')
      else if 0x80 \<le> byte_code c then Some (Text ''text outside quotes must be plain ASCII; quote it'')
      else None)"

fun word_scan :: "bool \<Rightarrow> string \<Rightarrow> (message, string \<times> string) outcome" where
  "word_scan inQ [] = Gives ([], [])"
| "word_scan True (c # s) =
     (if c = CHR 0x5C
      then (case s of [] \<Rightarrow> Panics | d # t \<Rightarrow> map_outcome id (apfst (\<lambda>w. c # d # w)) (word_scan True t))
      else map_outcome id (apfst (Cons c)) (word_scan (c \<noteq> CHR 0x22) s))"
| "word_scan False (c # s) =
     (if blank c then Gives ([], c # s)
      else if c = CHR 0x22 then map_outcome id (apfst (Cons c)) (word_scan True s)
      else case refused_char c of
             Some e \<Rightarrow> Fails e
           | None \<Rightarrow> map_outcome id (apfst (Cons c)) (word_scan False s))"

lemma bracket_scan_split: "bracket_scan q s = Gives (w, r) \<Longrightarrow> s = w @ r \<and> w \<noteq> []"
  by (induction q s arbitrary: w r rule: bracket_scan.induct) (fastforce split: if_splits list.splits)+

lemma word_scan_split: "word_scan q s = Gives (w, r) \<Longrightarrow> s = w @ r \<and> (r \<noteq> [] \<longrightarrow> blank (hd r))"
  by (induction q s arbitrary: w r rule: word_scan.induct) (fastforce split: if_splits list.splits option.splits)+

lemma word_scan_nonempty: "word_scan False (c # s) = Gives (w, r) \<Longrightarrow> \<not> blank c \<Longrightarrow> w \<noteq> []"
  by (auto split: if_splits option.splits)

lemma bracketEnd_split: "s \<noteq> [] \<Longrightarrow> bracketEnd s = Gives (w, r) \<Longrightarrow> s = w @ r \<and> 2 \<le> length w"
  by (cases s) (auto simp: bracketEnd_def Suc_le_eq dest: bracket_scan_split)

function token_loop :: "string \<Rightarrow> (message, token list) outcome" where
  "token_loop s =
     (case s of
        [] \<Rightarrow> Gives []
      | c # cs \<Rightarrow>
          if blank c then token_loop cs
          else if c = CHR ''['' then
            (case bracketEnd s of
               Panics \<Rightarrow> Panics
             | Fails e \<Rightarrow> Fails e
             | Gives (w, r) \<Rightarrow> map_outcome id (Cons \<lparr>tk_text = w, bracket = True\<rparr>) (token_loop r))
          else
            (case word_scan False s of
               Panics \<Rightarrow> Panics
             | Fails e \<Rightarrow> Fails e
             | Gives (w, r) \<Rightarrow> map_outcome id (Cons \<lparr>tk_text = w, bracket = False\<rparr>) (token_loop r)))"
  by pat_completeness auto
termination
proof (relation "measure length", goal_cases)
  case (3 s c cs x w r)
  then show ?case using bracketEnd_split [of s w r] by auto
next
  case (4 s c cs x w r)
  then show ?case using word_scan_split [of False s w r] word_scan_nonempty [of c cs w r] by auto
qed auto

declare token_loop.simps [simp del]

definition tokenize :: "string \<Rightarrow> (message, token list) outcome" where
  "tokenize s = and_then (token_loop s) (\<lambda>ts. if ts = [] then Fails (Text ''an empty line'') else Gives ts)"

section \<open>Commands\<close>

definition verbs :: "string list" where
  "verbs = [''add'', ''set'', ''remove'', ''enable'', ''disable'', ''unset'', ''ensure'']"

definition selectorVerbs :: "string list" where
  "selectorVerbs = [''set'', ''remove'', ''enable'', ''disable'', ''unset'']"

definition arg_then :: "string \<Rightarrow> string \<Rightarrow> (message, Arg list \<times> Value list) outcome \<Rightarrow> (message, Arg list \<times> Value list) outcome" where
  "arg_then n raw rest =
     and_then (map_outcome (\<lambda>e. Fmt ''%s: %s'' [Text n, e]) id (parseValue raw)) (\<lambda>v.
       map_outcome id (apfst (Cons \<lparr>arg_Name = n, arg_Value = v\<rparr>)) rest)"

definition pos_then :: "string \<Rightarrow> (message, Arg list \<times> Value list) outcome \<Rightarrow> (message, Arg list \<times> Value list) outcome" where
  "pos_then raw rest = and_then (parseValue raw) (\<lambda>v. map_outcome id (apsnd (Cons v)) rest)"

fun readArgs :: "bool \<Rightarrow> token list \<Rightarrow> (message, Arg list \<times> Value list) outcome" where
  "readArgs allowPos [] = Gives ([], [])"
| "readArgs allowPos (t # ts) =
     (if bracket t then Fails (Text ''only one selector is allowed, directly after the command'')
      else case Cut CHR ''='' (tk_text t) of
        (n, raw, isArg) \<Rightarrow>
          if \<not> isArg \<or> has_prefix (tk_text t) [CHR 0x22]
          then if \<not> allowPos then Fails (Fmt ''%q: expected name=value'' [Text (tk_text t)])
               else pos_then (tk_text t) (readArgs allowPos ts)
          else if \<not> argName n then Fails (Fmt ''%q is not a property name'' [Text n])
          else if raw \<noteq> [] then arg_then n raw (readArgs allowPos ts)
          else case ts of
                 [] \<Rightarrow> Fails (Fmt ''%s= has no value'' [Text n])
               | next # rest \<Rightarrow>
                   if bracket next \<or> CHR ''='' \<in> set (tk_text next) \<and> \<not> has_prefix (tk_text next) [CHR 0x22]
                   then Fails (Fmt ''%s= is followed by another setting'' [Text n])
                   else arg_then n (tk_text next) (readArgs allowPos rest))"

definition parseFind :: "string \<Rightarrow> (message, Arg list) outcome" where
  "parseFind s =
     (if length s < 2 then Panics
      else let text = TrimSpace (butlast (tl s))
           in if text = [] then Fails (Text ''an empty [ ]; a selector is [ find name=value ]'')
              else and_then (tokenize text) (\<lambda>toks.
                case toks of
                  [] \<Rightarrow> Panics
                | t0 # ts \<Rightarrow>
                    if tk_text t0 \<noteq> ''find'' then Fails (Fmt ''only [ find ] is allowed in brackets, not [ %s ]'' [Text (tk_text t0)])
                    else if list_ex (\<lambda>t. tk_text t = ''where'') ts then Fails (Text ''a where expression is not allowed'')
                    else map_outcome (\<lambda>e. Fmt ''in [ find ]: %s'' [e]) fst (readArgs False ts)))"

text \<open>The words of a path: the first one's, and the plain words after it up to a verb or an argument.\<close>

definition menu_token :: "token \<Rightarrow> bool" where
  "menu_token t \<longleftrightarrow> \<not> bracket t \<and> CHR ''='' \<notin> set (tk_text t) \<and> tk_text t \<notin> set verbs \<and> menuWord (tk_text t)"

definition read_path :: "token list \<Rightarrow> string list \<Rightarrow> (message, string list \<times> string \<times> token list) outcome" where
  "read_path toks cur =
     (case toks of
        [] \<Rightarrow> Panics
      | t0 # ts \<Rightarrow>
          if has_prefix (tk_text t0) ''/''
          then let words = filter (\<lambda>w. w \<noteq> []) (go_split CHR ''/'' (tl (tk_text t0))) @ map tk_text (takeWhile menu_token ts);
                   rest = dropWhile menu_token ts;
                   slash = (words \<noteq> [] \<and> last words \<in> set verbs);
                   menu = (if slash then butlast words else words)
               in if menu = [] then Fails (Text ''the menu path is empty'')
                  else (case find (\<lambda>w. \<not> menuWord w) menu of
                          Some w \<Rightarrow> Fails (Fmt ''%q is not a menu name'' [Text w])
                        | None \<Rightarrow> Gives (menu, if slash then last words else [], rest))
          else if cur = [] then Fails (Text ''a command comes before any menu'')
          else Gives (cur, [], toks))"

definition read_command :: "nat \<Rightarrow> string list \<Rightarrow> string \<Rightarrow> token list \<Rightarrow> (message, Line) outcome" where
  "read_command n menu verb toks =
     and_then
       (case toks of
          t # ts \<Rightarrow>
            if bracket t
            then if verb \<notin> set selectorVerbs then Fails (Text ''a [ find ] selector only goes with set, remove, enable, disable or unset'')
                 else map_outcome id (\<lambda>f. (True, f, ts)) (parseFind (tk_text t))
            else Gives (False, [], toks)
        | [] \<Rightarrow> Gives (False, [], []))
       (\<lambda>(hasFind, f, rest).
          map_outcome id
            (\<lambda>(args, pos). \<lparr>Num = n, Menu = menu, ln_Verb = verb, HasFind = hasFind, Find = f, Pos = pos, Args = args\<rparr>)
            (readArgs True rest))"

definition parse_tokens :: "nat \<Rightarrow> token list \<Rightarrow> string list \<Rightarrow> (message, Line option \<times> string list) outcome" where
  "parse_tokens n toks cur =
     and_then (read_path toks cur) (\<lambda>(menu, verb, rest).
       if verb \<noteq> [] then map_outcome id (\<lambda>l. (Some l, cur)) (read_command n menu verb rest)
       else case rest of
              [] \<Rightarrow> Gives (None, menu)
            | t # ts \<Rightarrow>
                if tk_text t \<notin> set verbs then Fails (Fmt ''%q is not a command a template may use'' [Text (tk_text t)])
                else map_outcome id (\<lambda>l. (Some l, cur)) (read_command n menu (tk_text t) ts))"

definition parseLine :: "logical \<Rightarrow> string list \<Rightarrow> (parse_error, Line option \<times> string list) outcome" where
  "parseLine lg cur =
     map_outcome (Pair (lg_line lg)) id
       (if has_prefix (lg_text lg) '':''
        then Fails (Fmt ''RouterOS scripting (%s) is not allowed in a template'' [Text (fst (Cut CHR '' '' (lg_text lg)))])
        else and_then (tokenize (lg_text lg)) (\<lambda>toks. parse_tokens (lg_line lg) toks cur))"

fun parse_lines :: "logical list \<Rightarrow> string list \<Rightarrow> (parse_error, Line list) outcome" where
  "parse_lines [] menu = Gives []"
| "parse_lines (lg # lgs) menu =
     and_then (parseLine lg menu) (\<lambda>(l, m). map_outcome id (\<lambda>ls. (case l of None \<Rightarrow> ls | Some x \<Rightarrow> x # ls)) (parse_lines lgs m))"

definition Parse :: "string \<Rightarrow> (parse_error, Template) outcome" where
  "Parse src =
     (if \<not> valid_utf8 src then Fails (1, Text ''the text is not valid UTF-8'')
      else and_then (join (replace_crlf src)) (\<lambda>lgs. map_outcome id (\<lambda>ls. \<lparr>Lines = ls\<rparr>) (parse_lines lgs [])))"

end
