(* ===== verification/Tpl_Safe.thy ===== *)
theory Tpl_Safe
  imports Tpl_Parse
begin

text \<open>
  Reading a template never panics: the slice expressions of \<^verbatim>\<open>internal/cfgtpl/parse.go\<close> that could run past the end
  of a text are reached only where they do not. Joining lines, cutting words and the quotes in them keep one state,
  \<open>qstate\<close>: whether a text ends inside quotes, or after a backslash there.
\<close>

section \<open>Reading never panics\<close>

text \<open>Whether a text ends inside quotes, when it starts inside or outside; \<open>None\<close> when a backslash reaches past its end.\<close>

fun qstate :: "bool \<Rightarrow> string \<Rightarrow> bool option" where
  "qstate q [] = Some q"
| "qstate q (c # s) =
     (if q \<and> c = CHR 0x5C then (case s of [] \<Rightarrow> None | d # t \<Rightarrow> qstate True t)
      else qstate (if c = CHR 0x22 then \<not> q else q) s)"

lemma qstate_simps [simp]:
  "qstate True [CHR 0x5C] = None" "qstate True (CHR 0x5C # d # t) = qstate True t"
  "c \<noteq> CHR 0x5C \<Longrightarrow> qstate True (c # s) = qstate (c \<noteq> CHR 0x22) s" "qstate False (c # s) = qstate (c = CHR 0x22) s"
  by simp_all

declare qstate.simps(2) [simp del]

lemma qstate_induct [case_names Nil stray esc in_quote outside]:
  assumes "\<And>q. P q []" "P True [CHR 0x5C]" "\<And>d t. P True t \<Longrightarrow> P True (CHR 0x5C # d # t)"
    "\<And>c s. c \<noteq> CHR 0x5C \<Longrightarrow> P (c \<noteq> CHR 0x22) s \<Longrightarrow> P True (c # s)" "\<And>c s. P (c = CHR 0x22) s \<Longrightarrow> P False (c # s)"
  shows "P q s"
proof (induction q s rule: qstate.induct)
  case (2 q c s)
  show ?case
  proof (cases "q \<and> c = CHR 0x5C")
    case True
    then show ?thesis using 2(1) assms(2,3) by (cases s) auto
  next
    case False
    then show ?thesis using 2(2) assms(4,5) [of c s] by (cases q; cases "c = CHR 0x22") auto
  qed
qed (rule assms(1))

lemma qstate_append: "qstate q a = Some p \<Longrightarrow> qstate q (a @ b) = qstate p b"
  by (induction q a rule: qstate_induct) auto

lemma qstate_quoteless: "CHR 0x22 \<notin> set w \<Longrightarrow> qstate False w = Some False" "CHR 0x22 \<notin> set w \<Longrightarrow> qstate True w \<noteq> Some False"
proof -
  show "qstate False w = Some False" if "CHR 0x22 \<notin> set w" using that by (induction w) auto
  have "q \<longrightarrow> CHR 0x22 \<notin> set w \<longrightarrow> qstate q w \<noteq> Some False" for q
  proof (induction q w rule: qstate_induct)
    case (in_quote c s)
    then show ?case by (cases "c = CHR 0x22") simp_all
  qed simp_all
  from this [of True] show "qstate True w \<noteq> Some False" if "CHR 0x22 \<notin> set w" using that by simp
qed

lemma qstate_cut_end: "qstate q (a @ w) = Some False \<Longrightarrow> CHR 0x22 \<notin> set w \<Longrightarrow> qstate q a = Some False"
proof (induction q a rule: qstate_induct)
  case (Nil q)
  then show ?case using qstate_quoteless(2) [of w] by (cases q) auto
next
  case stray
  then show ?case using qstate_quoteless(2) [of "tl w"] by (cases w) auto
qed auto

text \<open>What is trimmed off the ends of a text holds no quote.\<close>

lemma trim_left_split: "\<exists>p. s = p @ trim_left es s \<and> set p \<subseteq> \<Union> (set ` set es)"
proof (induction es s rule: trim_left.induct)
  case (1 es s)
  have lead: "set (take (lead_len es s) s) \<subseteq> \<Union> (set ` set es)"
    by (induction es) (auto simp: has_prefix_iff)
  show ?case
  proof (cases "lead_len es s = 0")
    case True
    then show ?thesis by (intro exI [of _ "[]"]) (simp add: trim_left.simps)
  next
    case False
    with 1 obtain p where p: "drop (lead_len es s) s = p @ trim_left es s" "set p \<subseteq> \<Union> (set ` set es)"
      by (metis trim_left.simps)
    then show ?thesis using lead by (intro exI [of _ "take (lead_len es s) s @ p"]) (metis append.assoc append_take_drop_id set_append sup.bounded_iff)
  qed
qed

lemma TrimSpace_split: "\<exists>p q. s = p @ TrimSpace s @ q \<and> CHR 0x22 \<notin> set p \<and> CHR 0x22 \<notin> set q"
proof -
  define u where "u = trim_left space_encodings s"
  obtain p where p: "s = p @ u" "set p \<subseteq> \<Union> (set ` set space_encodings)" using trim_left_split unfolding u_def by blast
  obtain q where q: "rev u = q @ trim_left (map rev space_encodings) (rev u)" "set q \<subseteq> \<Union> (set ` set (map rev space_encodings))"
    using trim_left_split by blast
  have "u = TrimSpace s @ rev q" using q(1) unfolding TrimSpace_def u_def [symmetric] by (metis rev_append rev_rev_ident)
  moreover have "CHR 0x22 \<notin> \<Union> (set ` set space_encodings)" by (simp add: space_encodings_def)
  ultimately show ?thesis using p q(2) by (intro exI [of _ p] exI [of _ "rev q"]) auto
qed

lemma qstate_trim: "qstate False s = Some False \<Longrightarrow> qstate False (TrimSpace s) = Some False"
proof -
  assume s: "qstate False s = Some False"
  obtain p q where pq: "s = p @ TrimSpace s @ q" "CHR 0x22 \<notin> set p" "CHR 0x22 \<notin> set q" using TrimSpace_split by blast
  have "qstate False s = qstate False (TrimSpace s @ q)"
    using qstate_append [OF qstate_quoteless(1) [OF pq(2)], of "TrimSpace s @ q"] pq(1) by simp
  then show ?thesis using s qstate_cut_end pq(3) by metis
qed

text \<open>Joining keeps the quotes of a logical line whole.\<close>

definition join_ok :: "join_state \<Rightarrow> bool" where
  "join_ok s \<longleftrightarrow> (\<forall>lg\<in>set (jout s). qstate False (lg_text lg) = Some False) \<and> (jinComment s \<longrightarrow> \<not> jinQ s)"

definition buf_ok :: "join_state \<Rightarrow> bool" where
  "buf_ok s \<longleftrightarrow> qstate False (jbuf s) = Some (jinQ s)"

lemma flush_ok: "join_ok s \<Longrightarrow> buf_ok s \<Longrightarrow> \<not> jinQ s \<Longrightarrow> join_ok (flush s) \<and> buf_ok (flush s)"
  using qstate_trim [of "jbuf s"] by (auto simp: join_ok_def buf_ok_def flush_def Let_def)

lemma end_line_ok: "join_ok s \<Longrightarrow> buf_ok s \<Longrightarrow> \<not> jinQ s \<Longrightarrow> join_ok (end_line s) \<and> buf_ok (end_line s)"
  using flush_ok [of s] by (auto simp: end_line_def Let_def join_ok_def buf_ok_def)

lemma endComment_ok: "endComment s \<noteq> Panics" "endComment s = Gives s1 \<Longrightarrow> s1 = s\<lparr>jcomment := [], jinComment := False\<rparr>"
  by (auto simp: endComment_def split: if_splits)

lemma join_loop_ok:
  "join_ok s \<Longrightarrow> buf_ok s \<Longrightarrow>
    join_loop src s \<noteq> Panics \<and> (\<forall>s1. join_loop src s = Gives s1 \<longrightarrow> join_ok s1 \<and> (jinQ s1 \<or> buf_ok s1))"
proof (induction src s rule: join_loop.induct)
  case (1 src s)
  show ?case
  proof (cases src)
    case Nil
    then show ?thesis using "1.prems" by (simp add: join_loop.simps)
  next
    case src: (Cons c cs)
    note step = join_loop.simps [of src s, unfolded src list.case]
    have ok: "join_ok (put d s')" if "join_ok s'" for d s' using that by (simp add: join_ok_def put_def)
    consider (comment) "jinComment s"
      | (wrap) "\<not> jinComment s" "c = CHR 0x5C \<and> cs \<noteq> [] \<and> hd cs = CHR 0x0A"
      | (esc) "\<not> jinComment s" "\<not> (c = CHR 0x5C \<and> cs \<noteq> [] \<and> hd cs = CHR 0x0A)" "c = CHR 0x5C \<and> jinQ s"
      | (quote) "\<not> jinComment s" "\<not> (c = CHR 0x5C \<and> cs \<noteq> [] \<and> hd cs = CHR 0x0A)" "c = CHR 0x22"
      | (hash) "\<not> jinComment s" "\<not> (c = CHR 0x5C \<and> cs \<noteq> [] \<and> hd cs = CHR 0x0A)" "c = CHR ''#'' \<and> \<not> jinQ s \<and> blank (jlast s)"
      | (newline) "\<not> jinComment s" "c = CHR 0x0A"
      | (other) "\<not> jinComment s" "\<not> (c = CHR 0x5C \<and> cs \<noteq> [] \<and> hd cs = CHR 0x0A)" "\<not> (c = CHR 0x5C \<and> jinQ s)" "c \<noteq> CHR 0x22"
          "\<not> (c = CHR ''#'' \<and> \<not> jinQ s \<and> blank (jlast s))" "c \<noteq> CHR 0x0A"
      by blast
    then show ?thesis
    proof cases
      case comment
      then have q: "\<not> jinQ s" using "1.prems"(1) by (simp add: join_ok_def)
      show ?thesis
      proof (cases "c = CHR 0x0A")
        case True
        show ?thesis
        proof (cases "endComment s")
          case (Gives s1)
          then have s1: "s1 = s\<lparr>jcomment := [], jinComment := False\<rparr>" by (rule endComment_ok(2))
          have "join_ok s1" "buf_ok s1" "\<not> jinQ s1" using "1.prems" q unfolding s1 by (simp_all add: join_ok_def buf_ok_def)
          then have "join_ok (end_line s1) \<and> buf_ok (end_line s1)" by (rule end_line_ok)
          then show ?thesis using "1.IH"(1) [OF src comment True, of s1] src step comment True Gives by simp
        qed (use endComment_ok(1) [of s] src step comment True in simp_all)
      next
        case False
        have "join_ok (s\<lparr>jcomment := jcomment s @ [c]\<rparr>)" "buf_ok (s\<lparr>jcomment := jcomment s @ [c]\<rparr>)"
          using "1.prems" by (simp_all add: join_ok_def buf_ok_def)
        then show ?thesis using "1.IH"(2) [OF src comment False] src step comment False by simp
      qed
    next
      case wrap
      define s1 where "s1 = s\<lparr>jline := jline s + 1\<rparr>"
      define s2 where "s2 = (if jinQ s then s1 else put (CHR '' '') s1)"
      have "join_ok s2" "buf_ok s2"
        using "1.prems" qstate_append [of False "jbuf s" "jinQ s"] by (auto simp: s2_def s1_def join_ok_def buf_ok_def put_def)
      moreover have "join_loop src s = join_loop (dropWhile blank (tl cs)) s2" using src step wrap by (simp add: s1_def s2_def Let_def)
      ultimately show ?thesis using "1.IH"(3) [OF src wrap s1_def, folded s2_def] by simp
    next
      case esc
      show ?thesis
      proof (cases cs)
        case Nil
        then show ?thesis using esc src step "1.prems"(1) by (simp add: join_loop.simps join_ok_def put_def)
      next
        case cs: (Cons d ds)
        have "buf_ok (put d (put c s))"
          using "1.prems"(2) esc qstate_append [of False "jbuf s" True "[c, d]"] by (simp add: buf_ok_def put_def)
        then show ?thesis using "1.IH"(5) [OF src esc cs] ok [OF ok [OF "1.prems"(1)]] src step esc cs by simp
      qed
    next
      case quote
      have "buf_ok (put c (s\<lparr>jinQ := \<not> jinQ s\<rparr>))" "join_ok (put c (s\<lparr>jinQ := \<not> jinQ s\<rparr>))"
        using "1.prems" quote qstate_append [of False "jbuf s" "jinQ s" "[c]"]
        by (cases "jinQ s"; simp add: buf_ok_def join_ok_def put_def)+
      then show ?thesis using "1.IH"(6) [OF src] src step quote by simp
    next
      case hash
      have "join_ok (s\<lparr>jinComment := True\<rparr>)" "buf_ok (s\<lparr>jinComment := True\<rparr>)" using "1.prems" hash by (simp_all add: join_ok_def buf_ok_def)
      then show ?thesis using "1.IH"(7) [OF src hash(1,2)] src step hash by simp
    next
      case newline
      then show ?thesis using "1.IH"(8) [OF src newline(1)] src step "1.prems" end_line_ok [of s] by (cases "jinQ s") simp_all
    next
      case other
      have "buf_ok (put c s)"
        using "1.prems"(2) other qstate_append [of False "jbuf s" "jinQ s" "[c]"] by (cases "jinQ s") (simp_all add: buf_ok_def put_def)
      then show ?thesis using "1.IH"(9) [OF src other(1-5)] ok [OF "1.prems"(1)] src step other by simp
    qed
  qed
qed


lemma join_balanced: "join src \<noteq> Panics" "join src = Gives lgs \<Longrightarrow> lg \<in> set lgs \<Longrightarrow> qstate False (lg_text lg) = Some False"
proof -
  have start: "join_ok join_start" "buf_ok join_start" by (simp_all add: join_start_def join_ok_def buf_ok_def)
  note l = join_loop_ok [OF start, of src]
  have end_ok: "join_ok (flush s1)" if "join_loop src join_start = Gives s" "\<not> jinQ s" "(if jinComment s then endComment s else Gives s) = Gives s1" for s s1
  proof -
    have "join_ok s" "buf_ok s" using l that(1,2) by blast+
    then have "join_ok s1" "buf_ok s1" "\<not> jinQ s1"
      using that(2,3) endComment_ok(2) [of s s1] by (auto simp: join_ok_def buf_ok_def split: if_splits)
    then show ?thesis using flush_ok by blast
  qed
  show "join src \<noteq> Panics" using l by (auto simp: join_def and_then_Panics endComment_ok(1))
  assume "join src = Gives lgs" "lg \<in> set lgs"
  then obtain s s1 where "join_loop src join_start = Gives s" "\<not> jinQ s" "(if jinComment s then endComment s else Gives s) = Gives s1" "lgs = jout (flush s1)"
    by (auto simp: join_def and_then_Gives split: if_splits)
  with end_ok [of s s1] \<open>lg \<in> set lgs\<close> show "qstate False (lg_text lg) = Some False" by (simp add: join_ok_def)
qed

text \<open>A text whose quotes are whole is split into words that are whole.\<close>

lemma word_scan_whole: "qstate q s \<noteq> None \<Longrightarrow> word_scan q s \<noteq> Panics \<and> (\<forall>w r. word_scan q s = Gives (w, r) \<longrightarrow> qstate False r \<noteq> None)"
  by (induction q s rule: qstate_induct) (auto split: option.splits)

lemma bracket_scan_no_panic: "bracket_scan q s \<noteq> Panics"
  by (induction q s rule: bracket_scan.induct) (auto split: list.splits)

lemma bracket_scan_whole:
  "qstate q s \<noteq> None \<Longrightarrow> bracket_scan q s = Gives (w, r) \<Longrightarrow> qstate False r \<noteq> None \<and> qstate q (butlast w) = Some False"
proof (induction q s arbitrary: w rule: qstate_induct)
  case (esc d t)
  then obtain w1 where w1: "bracket_scan True t = Gives (w1, r)" "w = CHR 0x5C # d # w1" by auto
  with esc bracket_scan_split [OF w1(1)] show ?case by simp
next
  case (in_quote c s)
  then obtain w1 where w1: "bracket_scan (c \<noteq> CHR 0x22) s = Gives (w1, r)" "w = c # w1" by auto
  with in_quote bracket_scan_split [OF w1(1)] show ?case by simp
next
  case (outside c s)
  show ?case
  proof (cases "c = CHR '']''")
    case True
    then have "w = [c]" "r = s" using outside.prems(2) by auto
    then show ?thesis using outside.prems(1) True by simp
  next
    case False
    then obtain w1 where w1: "bracket_scan (c = CHR 0x22) s = Gives (w1, r)" "w = c # w1"
      using outside.prems(2) by (auto split: if_splits)
    with outside bracket_scan_split [OF w1(1)] show ?thesis by simp
  qed
qed simp_all

lemma token_loop_whole:
  "qstate False s \<noteq> None \<Longrightarrow> token_loop s \<noteq> Panics \<and>
    (\<forall>ts. token_loop s = Gives ts \<longrightarrow> (\<forall>t\<in>set ts. bracket t \<longrightarrow> 2 \<le> length (tk_text t) \<and> qstate False (butlast (tl (tk_text t))) = Some False))"
proof (induction s rule: token_loop.induct)
  case (1 s)
  show ?case
  proof (cases s)
    case Nil
    then show ?thesis by (simp add: token_loop.simps)
  next
    case s: (Cons c cs)
    note step = token_loop.simps [of s, unfolded s list.case]
    consider (skip) "blank c" | (find) "\<not> blank c" "c = CHR ''[''" | (word) "\<not> blank c" "c \<noteq> CHR ''[''" by blast
    then show ?thesis
    proof cases
      case skip
      then have "qstate False cs \<noteq> None" using "1.prems" s by (auto simp: blank_def)
      then show ?thesis using "1.IH"(1) [OF s skip] s step skip by simp
    next
      case find
      have cs: "qstate False cs \<noteq> None" using "1.prems" s find by simp
      show ?thesis
      proof (cases "bracket_scan False cs")
        case (Gives x)
        obtain w r where x: "x = (w, r)" by (cases x)
        note wh = bracket_scan_whole [OF cs Gives [unfolded x]]
        have b: "bracketEnd s = Gives (CHR ''['' # w, r)" using Gives x s find by (simp add: bracketEnd_def)
        have "w \<noteq> []" using bracket_scan_split Gives x by blast
        then show ?thesis
          using "1.IH"(2) [OF s find b refl] wh s step find b by (auto simp: Suc_le_eq)
      next
        case (Fails e)
        then show ?thesis using s step find by (simp add: bracketEnd_def)
      qed (use bracket_scan_no_panic in blast)
    next
      case word
      note wh = word_scan_whole [OF "1.prems"]
      show ?thesis
      proof (cases "word_scan False s")
        case (Gives x)
        obtain w r where x: "x = (w, r)" by (cases x)
        have g: "word_scan False s = Gives (w, r)" using Gives x by simp
        then have "qstate False r \<noteq> None" using wh by blast
        then show ?thesis using "1.IH"(3) [OF s word g refl] s step word g by auto
      qed (use wh s step word in auto)
    qed
  qed
qed

lemma tokenize_whole:
  assumes "qstate False s = Some False"
  shows "tokenize s \<noteq> Panics" "tokenize s = Gives ts \<Longrightarrow> ts \<noteq> [] \<and>
    (\<forall>t\<in>set ts. bracket t \<longrightarrow> 2 \<le> length (tk_text t) \<and> qstate False (butlast (tl (tk_text t))) = Some False)"
  using token_loop_whole [of s] assms by (auto simp: tokenize_def and_then_Panics and_then_Gives split: if_splits)

lemma quoted_no_panic: "quoted_loop s l parts \<noteq> Panics"
proof (induction s l parts rule: quoted_loop.induct)
  case (1 s l parts)
  show ?case by (subst quoted_loop.simps) (auto split: list.splits option.splits simp: 1)
qed

lemma parseValue_no_panic: "parseValue raw \<noteq> Panics"
  using quoted_no_panic by (auto simp: parseValue_def parseQuoted_def and_then_Panics split: option.splits)

lemma then_no_panic: "rest \<noteq> Panics \<Longrightarrow> arg_then n raw rest \<noteq> Panics" "rest \<noteq> Panics \<Longrightarrow> pos_then raw rest \<noteq> Panics"
  by (simp_all add: arg_then_def pos_then_def and_then_Panics parseValue_no_panic)

lemma readArgs_no_panic: "readArgs allowPos ts \<noteq> Panics"
proof (induction ts arbitrary: allowPos rule: length_induct)
  case (1 ts)
  show ?case
  proof (cases ts)
    case (Cons t us)
    obtain n raw isArg where cut: "Cut CHR ''='' (tk_text t) = (n, raw, isArg)" by (metis prod_cases3)
    have us: "readArgs allowPos us \<noteq> Panics" "us \<noteq> [] \<Longrightarrow> readArgs allowPos (tl us) \<noteq> Panics" using 1 Cons by auto
    have "readArgs allowPos (t # us) \<noteq> Panics"
      unfolding readArgs.simps(2) [of allowPos t us] cut using us then_no_panic by (auto split: list.split simp del: readArgs.simps)
    then show ?thesis by (simp add: Cons del: readArgs.simps)
  qed simp
qed

lemma parseFind_no_panic: "2 \<le> length s \<Longrightarrow> qstate False (butlast (tl s)) = Some False \<Longrightarrow> parseFind s \<noteq> Panics"
  using tokenize_whole [OF qstate_trim, of "butlast (tl s)"]
  by (auto simp: parseFind_def Let_def and_then_Panics readArgs_no_panic split: list.splits)

lemma parse_tokens_no_panic:
  assumes "ts \<noteq> []" "\<forall>t\<in>set ts. bracket t \<longrightarrow> 2 \<le> length (tk_text t) \<and> qstate False (butlast (tl (tk_text t))) = Some False"
  shows "parse_tokens n ts cur \<noteq> Panics"
proof -
  have c: "read_command n menu verb us \<noteq> Panics" if "set us \<subseteq> set ts" for menu verb us
    using that assms(2) readArgs_no_panic
    by (auto simp: read_command_def and_then_Panics parseFind_no_panic split: list.splits if_splits)
  have p: "read_path ts cur \<noteq> Panics" using assms(1) by (auto simp: read_path_def Let_def split: list.splits option.splits)
  have r: "set us \<subseteq> set ts" if "read_path ts cur = Gives (menu, verb, us)" for menu verb us
    using that by (auto simp: read_path_def Let_def dest: set_dropWhileD split: list.splits option.splits if_splits)
  show ?thesis
  proof (cases "read_path ts cur")
    case (Gives x)
    obtain menu verb us where x: "x = (menu, verb, us)" by (cases x)
    note us = r [OF Gives [unfolded x]]
    show ?thesis
    proof (cases us)
      case Nil
      then show ?thesis using c [of us menu verb] Gives x us by (simp add: parse_tokens_def)
    next
      case (Cons t vs)
      then show ?thesis using c [of us menu verb] c [of vs menu "tk_text t"] us by (simp add: parse_tokens_def Gives x)
    qed
  qed (use p in \<open>simp_all add: parse_tokens_def\<close>)
qed

lemma parseLine_no_panic: "qstate False (lg_text lg) = Some False \<Longrightarrow> parseLine lg cur \<noteq> Panics"
  using tokenize_whole [of "lg_text lg"] parse_tokens_no_panic
  by (auto simp: parseLine_def and_then_Panics)

lemma parse_lines_no_panic: "\<forall>lg\<in>set lgs. qstate False (lg_text lg) = Some False \<Longrightarrow> parse_lines lgs cur \<noteq> Panics"
  by (induction lgs arbitrary: cur) (auto simp: and_then_Panics parseLine_no_panic split: prod.splits)

text \<open>
  C7. Whatever the text of a template is, reading it gives a template or an error: no index and no slice of the lexer
  reaches past the end of what it reads, although a backslash inside quotes skips two bytes at a time, because joining
  hands on only lines whose quotes are closed and trimming keeps them so.
\<close>

theorem parse_never_panics: "Parse src \<noteq> Panics"
  using join_balanced parse_lines_no_panic by (auto simp: Parse_def and_then_Panics)

end
