(* ===== verification/Tpl_Write.thy ===== *)
theory Tpl_Write
  imports Tpl_Safe
begin

text \<open>
  Writing a template (\<^verbatim>\<open>internal/cfgtpl/format.go\<close>): back as a template, or as the text a router is sent, with every
  placeholder filled.
\<close>

definition MaxPart :: nat where "MaxPart = 60000"

section \<open>One writer\<close>

text \<open>The substitution is \<open>None\<close> to keep the placeholders.\<close>

type_synonym subst = "(string \<Rightarrow> (message, string) outcome) option"

fun fill_parts :: "(string \<Rightarrow> (message, string) outcome) \<Rightarrow> Part list \<Rightarrow> (message, string) outcome" where
  "fill_parts f [] = Gives []"
| "fill_parts f (p # ps) =
     (if Var p = [] then map_outcome id (append (Lit p)) (fill_parts f ps)
      else and_then (f (Var p)) (\<lambda>s. map_outcome id (append s) (fill_parts f ps)))"

definition emit :: "subst \<Rightarrow> Value \<Rightarrow> (message, string) outcome" where
  "emit sub v =
     (case sub of
        None \<Rightarrow>
          (case Value_Var v of
             Some name \<Rightarrow> Gives (''{{'' @ name @ ''}}'')
           | None \<Rightarrow>
               (case Literal v of
                  Some l \<Rightarrow> Gives (emitLiteral l)
                | None \<Rightarrow> Gives (CHR 0x22 # concat (map emit_part (Parts v)) @ [CHR 0x22])))
      | Some f \<Rightarrow> map_outcome id emitLiteral (fill_parts f (Parts v)))"

fun emit_all :: "subst \<Rightarrow> Value list \<Rightarrow> (message, string list) outcome" where
  "emit_all sub [] = Gives []"
| "emit_all sub (v # vs) = and_then (emit sub v) (\<lambda>s. map_outcome id (Cons s) (emit_all sub vs))"

definition arg_texts :: "Arg list \<Rightarrow> string list \<Rightarrow> string list" where
  "arg_texts as ss = map2 (\<lambda>a s. arg_Name a @ ''='' @ s) as ss"

definition find_text :: "string list \<Rightarrow> string" where
  "find_text fs = ''[ find'' @ concat (map (Cons CHR '' '') fs) @ '' ]''"

definition write_line :: "subst \<Rightarrow> Line \<Rightarrow> (message, string) outcome" where
  "write_line sub l =
     and_then (if HasFind l then emit_all sub (map arg_Value (Find l)) else Gives []) (\<lambda>fs.
     and_then (emit_all sub (Pos l)) (\<lambda>ps.
     and_then (emit_all sub (map arg_Value (Args l))) (\<lambda>as.
       Gives (ln_Verb l @ concat (map (Cons CHR '' '')
         ((if HasFind l then [find_text (arg_texts (Find l) fs)] else []) @ ps @ arg_texts (Args l) as))))))"

definition header_text :: "string list \<Rightarrow> string" where
  "header_text menu = CHR ''/'' # go_join '' '' menu"

fun write_loop :: "subst \<Rightarrow> string \<Rightarrow> Line list \<Rightarrow> (parse_error, string list) outcome" where
  "write_loop sub cur [] = Gives []"
| "write_loop sub cur (l # ls) =
     and_then (map_outcome (Pair (Num l)) id (write_line sub l)) (\<lambda>s.
       map_outcome id (append ((if header_text (Menu l) = cur then [] else [header_text (Menu l)]) @ [s]))
         (write_loop sub (header_text (Menu l)) ls))"

definition unlines :: "string list \<Rightarrow> string" where
  "unlines ws = concat (map (\<lambda>w. w @ [CHR 0x0A]) ws)"

text \<open>The writer of the source is one pass over the lines; here it is the list of the physical lines it ends.\<close>

definition write_text :: "subst \<Rightarrow> Template \<Rightarrow> (parse_error, string) outcome" where
  "write_text sub t = map_outcome id unlines (write_loop sub [] (Lines t))"

definition Format :: "Template \<Rightarrow> string" where
  "Format t = (case write_text None t of Gives s \<Rightarrow> s | _ \<Rightarrow> [])"

definition given :: "(string, string) gomap \<Rightarrow> string \<Rightarrow> (message, string) outcome" where
  "given vals name = (case golookup vals name of Some v \<Rightarrow> Gives v | None \<Rightarrow> Fails (Fmt ''no value was given for {{%s}}'' [Text name]))"

definition Render :: "Template \<Rightarrow> (string, string) gomap \<Rightarrow> (parse_error, string) outcome" where
  "Render t vals =
     (case find (\<lambda>l. ln_Verb l = ''ensure'') (Lines t) of
        Some l \<Rightarrow> Fails (Num l, Text ''an ensure line must be resolved against the router before it is sent'')
      | None \<Rightarrow> write_text (Some (given vals)) t)"

section \<open>The template with its values\<close>

definition fill_value :: "(string, string) gomap \<Rightarrow> Value \<Rightarrow> (message, Value) outcome" where
  "fill_value vals v =
     (if Literal v \<noteq> None then Gives v
      else map_outcome id (\<lambda>s. \<lparr>Parts = [lit s], Quoted = True\<rparr>) (fill_parts (given vals) (Parts v)))"

fun fill_values :: "(string, string) gomap \<Rightarrow> Value list \<Rightarrow> (message, Value list) outcome" where
  "fill_values vals [] = Gives []"
| "fill_values vals (v # vs) = and_then (fill_value vals v) (\<lambda>x. map_outcome id (Cons x) (fill_values vals vs))"

definition fill_args :: "(string, string) gomap \<Rightarrow> Arg list \<Rightarrow> (message, Arg list) outcome" where
  "fill_args vals as =
     map_outcome id (map2 (\<lambda>a v. \<lparr>arg_Name = arg_Name a, arg_Value = v\<rparr>) as) (fill_values vals (map arg_Value as))"

definition fill_line :: "(string, string) gomap \<Rightarrow> Line \<Rightarrow> (parse_error, Line) outcome" where
  "fill_line vals l =
     map_outcome (Pair (Num l)) id
       (and_then (fill_args vals (Args l)) (\<lambda>as.
        and_then (fill_args vals (Find l)) (\<lambda>fs.
        map_outcome id (\<lambda>ps. l\<lparr>Args := as, Find := fs, Pos := ps\<rparr>) (fill_values vals (Pos l)))))"

fun fill_lines :: "(string, string) gomap \<Rightarrow> Line list \<Rightarrow> (parse_error, Line list) outcome" where
  "fill_lines vals [] = Gives []"
| "fill_lines vals (l # ls) = and_then (fill_line vals l) (\<lambda>x. map_outcome id (Cons x) (fill_lines vals ls))"

definition Fill :: "Template \<Rightarrow> (string, string) gomap \<Rightarrow> (parse_error, Template) outcome" where
  "Fill t vals = map_outcome id (\<lambda>ls. \<lparr>Lines = ls\<rparr>) (fill_lines vals (Lines t))"

section \<open>One command per line, and pieces\<close>

fun RenderCommands_loop :: "(string, string) gomap \<Rightarrow> Line list \<Rightarrow> (parse_error, string list) outcome" where
  "RenderCommands_loop vals [] = Gives []"
| "RenderCommands_loop vals (l # ls) =
     and_then (Render \<lparr>Lines = [l]\<rparr> vals) (\<lambda>s.
       case Cut CHR 0x0A (if has_suffix s [CHR 0x0A] then butlast s else s) of
         (hdr, cmd, _) \<Rightarrow> map_outcome id (Cons (hdr @ '' '' @ cmd)) (RenderCommands_loop vals ls))"

definition RenderCommands :: "Template \<Rightarrow> (string, string) gomap \<Rightarrow> (parse_error, string list) outcome" where
  "RenderCommands t vals = RenderCommands_loop vals (Lines t)"

record split_state =
  sp_parts :: "string list"
  sp_b :: string
  sp_hdr :: string

definition is_header :: "string \<Rightarrow> bool" where
  "is_header line \<longleftrightarrow> has_prefix line ''/'' \<and> CHR ''='' \<notin> set line"

definition split_line :: "nat \<Rightarrow> nat \<Rightarrow> string \<Rightarrow> split_state \<Rightarrow> message + split_state" where
  "split_line limit n line s =
     (if line = [] then Inr s
      else let size = length line + 1
           in if limit < length (sp_hdr s) + 1 + size
              then Inl (Fmt ''line %d is %d bytes: longer than one file may be (%d)'' (map (\<lambda>k. Text (Itoa (int k))) [n + 1, size, limit]))
              else let s1 = (if limit < length (sp_b s) + size
                             then s\<lparr>sp_parts := sp_parts s @ [sp_b s],
                                    sp_b := (if \<not> is_header line \<and> sp_hdr s \<noteq> [] then sp_hdr s @ [CHR 0x0A] else [])\<rparr>
                             else s)
                   in Inr (s1\<lparr>sp_hdr := (if is_header line then line else sp_hdr s1), sp_b := sp_b s1 @ line @ [CHR 0x0A]\<rparr>))"

fun split_loop :: "nat \<Rightarrow> nat \<Rightarrow> string list \<Rightarrow> split_state \<Rightarrow> message + split_state" where
  "split_loop limit n [] s = Inr s"
| "split_loop limit n (line # ls) s = (case split_line limit n line s of Inl e \<Rightarrow> Inl e | Inr s1 \<Rightarrow> split_loop limit (n + 1) ls s1)"

definition SplitParts :: "string \<Rightarrow> nat \<Rightarrow> message + string list" where
  "SplitParts rendered limit =
     (case split_loop limit 0 (go_split CHR 0x0A (rev (dropWhile (\<lambda>c. c = CHR 0x0A) (rev rendered)))) \<lparr>sp_parts = [], sp_b = [], sp_hdr = []\<rparr> of
        Inl e \<Rightarrow> Inl e
      | Inr s \<Rightarrow> Inr (sp_parts s @ (if sp_b s = [] then [] else [sp_b s])))"

end
