(* ===== verification/Tpl_Split.thy ===== *)
theory Tpl_Split
  imports Tpl_Write
begin

text \<open>
  Cutting rendered text into pieces (\<open>SplitParts\<close>): what the commands of a text are, and that the pieces hold them.
\<close>

text \<open>The commands of a text, each with the menu header in force where it stands.\<close>

fun under :: "string \<Rightarrow> string list \<Rightarrow> (string \<times> string) list" where
  "under h [] = []"
| "under h (l # ls) = (if is_header l then under l ls else (h, l) # under h ls)"

fun last_header :: "string \<Rightarrow> string list \<Rightarrow> string" where
  "last_header h [] = h"
| "last_header h (l # ls) = last_header (if is_header l then l else h) ls"

definition text_lines :: "string \<Rightarrow> string list" where
  "text_lines s = filter (\<lambda>l. l \<noteq> []) (go_split CHR 0x0A s)"

definition commands :: "string \<Rightarrow> (string \<times> string) list" where
  "commands s = under [] (text_lines s)"

lemma under_append: "under h (a @ b) = under h a @ under (last_header h a) b"
  by (induction a arbitrary: h) auto

lemma last_header_append: "last_header h (a @ b) = last_header (last_header h a) b"
  by (induction a arbitrary: h) auto

lemma unlines_simps [simp]: "unlines [] = []" "unlines (w # ws) = w @ CHR 0x0A # unlines ws" "unlines (a @ b) = unlines a @ unlines b"
  by (simp_all add: unlines_def)

definition whole :: "string list \<Rightarrow> bool" where
  "whole ls \<longleftrightarrow> (\<forall>l\<in>set ls. l \<noteq> [] \<and> CHR 0x0A \<notin> set l)"

lemma go_split_unlines: "whole ls \<Longrightarrow> go_split CHR 0x0A (unlines ls) = ls @ [[]]"
proof -
  assume "whole ls"
  have "unlines ls = go_join [CHR 0x0A] (ls @ [[]])" by (induction ls rule: induct_list012) simp_all
  then show ?thesis using \<open>whole ls\<close> go_split_join [of "ls @ [[]]" "CHR 0x0A"] by (auto simp: whole_def)
qed

lemma text_lines_unlines: "whole ls \<Longrightarrow> text_lines (unlines ls) = ls"
  by (simp add: text_lines_def go_split_unlines) (simp add: whole_def filter_id_conv)


text \<open>What has been cut so far, of the lines \<open>D\<close>.\<close>

definition split_inv :: "nat \<Rightarrow> string list \<Rightarrow> split_state \<Rightarrow> bool" where
  "split_inv limit D s \<longleftrightarrow>
     (\<exists>PS L. sp_parts s = map unlines PS \<and> sp_b s = unlines L \<and> list_all whole PS \<and> whole L \<and>
       concat (map (under []) PS) @ under [] L = under [] D \<and>
       last_header [] L = sp_hdr s \<and> last_header [] D = sp_hdr s \<and>
       (sp_hdr s = [] \<or> is_header (sp_hdr s) \<and> CHR 0x0A \<notin> set (sp_hdr s)) \<and>
       (\<forall>p\<in>set PS. length (unlines p) \<le> limit) \<and> length (unlines L) \<le> limit)"

lemma split_step:
  assumes "split_inv limit D s" "split_line limit n line s = Inr s'" "line \<noteq> []" "CHR 0x0A \<notin> set line"
  shows "split_inv limit (D @ [line]) s'"
proof -
  obtain PS L where inv: "sp_parts s = map unlines PS" "sp_b s = unlines L" "list_all whole PS" "whole L"
      "concat (map (under []) PS) @ under [] L = under [] D" "last_header [] L = sp_hdr s" "last_header [] D = sp_hdr s"
      "sp_hdr s = [] \<or> is_header (sp_hdr s) \<and> CHR 0x0A \<notin> set (sp_hdr s)"
      "\<forall>p\<in>set PS. length (unlines p) \<le> limit" "length (unlines L) \<le> limit"
    using assms(1) unfolding split_inv_def by blast
  define cut where "cut = (limit < length (sp_b s) + (length line + 1))"
  define K where "K = (if cut then (if \<not> is_header line \<and> sp_hdr s \<noteq> [] then [sp_hdr s] else []) else L)"
  define QS where "QS = (if cut then PS @ [L] else PS)"
  have fit: "length (sp_hdr s) + 1 + (length line + 1) \<le> limit" using assms(2,3) by (auto simp: split_line_def Let_def split: if_splits)
  have s': "sp_parts s' = map unlines QS" "sp_b s' = unlines (K @ [line])" "sp_hdr s' = (if is_header line then line else sp_hdr s)"
    using assms(2,3) inv(1,2) by (auto simp: split_line_def Let_def cut_def K_def QS_def split: if_splits)
  have "concat (map (under []) QS) @ under [] (K @ [line]) = under [] (D @ [line])"
    using inv(5-8) by (auto simp: QS_def K_def under_append)
  moreover have "last_header [] (K @ [line]) = sp_hdr s'" "last_header [] (D @ [line]) = sp_hdr s'"
    using inv(6-8) s'(3) by (auto simp: K_def last_header_append)
  moreover have "list_all whole QS" "whole (K @ [line])" using inv(3,4,8) assms(3,4) by (auto simp: QS_def K_def whole_def)
  moreover have "sp_hdr s' = [] \<or> is_header (sp_hdr s') \<and> CHR 0x0A \<notin> set (sp_hdr s')" using s'(3) inv(8) assms(4) by auto
  moreover have "\<forall>p\<in>set QS. length (unlines p) \<le> limit" using inv(9,10) by (auto simp: QS_def)
  moreover have "length (unlines (K @ [line])) \<le> limit" using fit inv(2) by (auto simp: K_def cut_def)
  ultimately show ?thesis unfolding split_inv_def using s'(1,2) by blast
qed

lemma split_loop_inv:
  "split_loop limit n ls s = Inr s' \<Longrightarrow> split_inv limit D s \<Longrightarrow> \<forall>l\<in>set ls. CHR 0x0A \<notin> set l \<Longrightarrow>
    split_inv limit (D @ filter (\<lambda>l. l \<noteq> []) ls) s'"
proof (induction ls arbitrary: n s D)
  case (Cons l ls)
  obtain s1 where s1: "split_line limit n l s = Inr s1" "split_loop limit (n + 1) ls s1 = Inr s'"
    using Cons.prems(1) by (auto split: sum.splits)
  show ?case
  proof (cases "l = []")
    case True
    then have "s1 = s" using s1(1) by (simp add: split_line_def)
    then show ?thesis using Cons.IH [OF s1(2)] Cons.prems(2,3) True by simp
  next
    case False
    then show ?thesis using Cons.IH [OF s1(2) split_step [OF Cons.prems(2) s1(1) False]] Cons.prems(3) by simp
  qed
qed simp

lemma go_split_trailing: "filter (\<lambda>l. l \<noteq> []) (go_split c (s @ replicate k c)) = filter (\<lambda>l. l \<noteq> []) (go_split c s)"
proof -
  have end_: "filter (\<lambda>l. l \<noteq> []) (go_split c (replicate k c)) = []" by (induction k) simp_all
  show ?thesis
  proof (induction s)
    case Nil
    then show ?case using end_ by simp
  next
    case (Cons x s)
    obtain w ws where w: "go_split c s = w # ws" by (cases "go_split c s") auto
    obtain v vs where v: "go_split c (s @ replicate k c) = v # vs" by (cases "go_split c (s @ replicate k c)") auto
    have "v = w"
    proof -
      have hd: "hd (go_split c (t @ replicate k c)) = hd (go_split c t)" for t
        by (induction t) (cases k, auto split: list.splits)
      show ?thesis using hd [of s] w v by simp
    qed
    then show ?case using Cons w v by (auto split: if_splits)
  qed
qed

lemma trimmed_lines: "text_lines (rev (dropWhile (\<lambda>c. c = CHR 0x0A) (rev s))) = text_lines s"
proof -
  have "\<forall>x\<in>set (takeWhile (\<lambda>c. c = CHR 0x0A) (rev s)). x = CHR 0x0A" by (auto dest: set_takeWhileD)
  then have "takeWhile (\<lambda>c. c = CHR 0x0A) (rev s) = replicate (length (takeWhile (\<lambda>c. c = CHR 0x0A) (rev s))) CHR 0x0A"
    by (metis replicate_length_same)
  then have "rev s = replicate (length (takeWhile (\<lambda>c. c = CHR 0x0A) (rev s))) CHR 0x0A @ dropWhile (\<lambda>c. c = CHR 0x0A) (rev s)"
    by (metis takeWhile_dropWhile_id)
  then have "s = rev (dropWhile (\<lambda>c. c = CHR 0x0A) (rev s)) @ replicate (length (takeWhile (\<lambda>c. c = CHR 0x0A) (rev s))) CHR 0x0A"
    by (metis rev_append rev_replicate rev_rev_ident)
  then show ?thesis unfolding text_lines_def using go_split_trailing by metis
qed

text \<open>
  C8. Cutting rendered text into pieces loses nothing: when it succeeds, every piece fits in one file, and the pieces,
  each read from its own start, hold the same commands under the same menu headers in the same order as the whole text.
\<close>
theorem split_exact:
  assumes "SplitParts rendered limit = Inr pieces"
  shows "(\<forall>p\<in>set pieces. length p \<le> limit) \<and> concat (map commands pieces) = commands rendered"
proof -
  define t where "t = rev (dropWhile (\<lambda>c. c = CHR 0x0A) (rev rendered))"
  obtain s where s: "split_loop limit 0 (go_split CHR 0x0A t) \<lparr>sp_parts = [], sp_b = [], sp_hdr = []\<rparr> = Inr s"
    "pieces = sp_parts s @ (if sp_b s = [] then [] else [sp_b s])"
    using assms by (auto simp: SplitParts_def t_def split: sum.splits)
  have "split_inv limit [] \<lparr>sp_parts = [], sp_b = [], sp_hdr = []\<rparr>"
    unfolding split_inv_def by (intro exI [of _ "[]"]) (simp add: whole_def)
  then have "split_inv limit (text_lines t) s" using split_loop_inv [OF s(1), of "[]"] go_split_pieces by (auto simp: text_lines_def)
  then obtain PS L where inv: "sp_parts s = map unlines PS" "sp_b s = unlines L" "list_all whole PS" "whole L"
      "concat (map (under []) PS) @ under [] L = under [] (text_lines t)"
      "\<forall>p\<in>set PS. length (unlines p) \<le> limit" "length (unlines L) \<le> limit"
    unfolding split_inv_def by blast
  have "map commands (map unlines PS) = map (under []) PS"
    using inv(3) text_lines_unlines by (simp add: commands_def list_all_iff)
  moreover have "commands (unlines L) = under [] L" using inv(4) by (simp add: commands_def text_lines_unlines)
  moreover have "unlines L = [] \<Longrightarrow> L = []" by (cases L) simp_all
  ultimately have "concat (map commands pieces) = under [] (text_lines t)" using s(2) inv(1,2,5) by (auto simp del: map_map)
  then show ?thesis using inv(1,2,6,7) s(2) trimmed_lines [of rendered] by (auto simp: commands_def t_def)
qed

definition split_example :: string where
  "split_example = unlines [''/ip firewall filter'', ''add a=1'', ''add a=2'', ''/ip pool'', ''add b=1'']"

definition split_pieces :: "string list" where
  "split_pieces =
     [unlines [''/ip firewall filter'', ''add a=1''], unlines [''/ip firewall filter'', ''add a=2''], unlines [''/ip pool'', ''add b=1'']]"

theorem split_exact_witness:
  "list_all (\<lambda>p. length p \<le> 30) split_pieces \<and> concat (map commands split_pieces) = commands split_example"
proof -
  have "SplitParts split_example 30 = Inr split_pieces" by code_simp
  then show ?thesis using split_exact [of split_example 30 split_pieces] by (simp add: list_all_iff)
qed

end
