(* ===== verification/Import_Reply.thy ===== *)
theory Import_Reply
  imports Tpl_Split "HOL-Library.Monad_Syntax"
begin

text \<open>
  What a router says about an import, and what Config Management names on it: \<^verbatim>\<open>internal/cfgtpl/importout.go\<close>,
  \<^verbatim>\<open>file.go\<close> and \<^verbatim>\<open>target.go\<close>, and the durations of \<^verbatim>\<open>internal/routeros/duration.go\<close>. The regular expressions of the
  source are anchored at one end, so each is read from that end.
\<close>

section \<open>Matching\<close>

text \<open>The \<open>\s\<close> of a Go regular expression.\<close>

definition re_space :: "char \<Rightarrow> bool" where
  "re_space c \<longleftrightarrow> c \<in> {CHR '' '', CHR 0x09, CHR 0x0A, CHR 0x0C, CHR 0x0D}"

definition trim_end :: "string \<Rightarrow> string" where
  "trim_end s = rev (dropWhile re_space (rev s))"

definition strip_end :: "string \<Rightarrow> string \<Rightarrow> string option" where
  "strip_end p s = (if has_suffix s p then Some (take (length s - length p) s) else None)"

text \<open>The digits a text ends with, when there are some, and what comes before them.\<close>

definition digits_end :: "string \<Rightarrow> (string \<times> string) option" where
  "digits_end s =
     (let ds = rev (takeWhile is_digit (rev s))
      in if ds = [] then None else Some (take (length s - length ds) s, ds))"

text \<open>\<open>strconv.Atoi\<close> on a run of digits, its error ignored: a number that does not fit is the largest one.\<close>

definition atoi_digits :: "string \<Rightarrow> nat" where
  "atoi_digits ds = min (digits_val ds) (2 ^ 63 - 1)"

text \<open>What is before the match, and what its groups hold.\<close>

definition syntaxLoc :: "string \<Rightarrow> (string \<times> nat \<times> nat) option" where
  "syntaxLoc s =
     do { a \<leftarrow> strip_end '')'' (trim_end s);
          (b, col) \<leftarrow> digits_end a;
          c \<leftarrow> strip_end '' column '' b;
          (d, ln) \<leftarrow> digits_end c;
          pre \<leftarrow> strip_end ''(line '' d;
          Some (pre, atoi_digits ln, atoi_digits col) }"

definition one_pair :: "string \<Rightarrow> bool" where
  "one_pair s \<longleftrightarrow> filter (\<lambda>c. c = CHR ''('' \<or> c = CHR '')'') s \<in> {[], ''()''}"

definition runtimeLoc :: "string \<Rightarrow> (string \<times> string \<times> nat) option" where
  "runtimeLoc s =
     do { a \<leftarrow> strip_end '')'' (trim_end s);
          (b, ln) \<leftarrow> digits_end a;
          c \<leftarrow> strip_end ''; line '' b;
          i \<leftarrow> find (\<lambda>i. c ! i = CHR ''('' \<and> one_pair (drop (i + 1) c)) [0..<length c];
          Some (take i c, drop (i + 1) c, atoi_digits ln) }"

definition error_count_at :: "string \<Rightarrow> nat option" where
  "error_count_at s =
     (if has_prefix s ''found ''
      then let ds = takeWhile is_digit (drop 6 s)
           in if ds \<noteq> [] \<and> has_prefix (dropWhile is_digit (drop 6 s)) '' error(s) in import file'' then Some (atoi_digits ds) else None
      else None)"

definition errCount :: "string \<Rightarrow> nat option" where
  "errCount s = (case List.map_filter (\<lambda>i. error_count_at (drop i s)) [0..<length s] of [] \<Rightarrow> None | n # _ \<Rightarrow> Some n)"

section \<open>The reply to an import\<close>

datatype Kind = Ok_kind | Syntax | Runtime | Missing_file | Timeout | Unknown

datatype Applied = All | None_applied | Partial | Unknown_applied

record ImportOutcome =
  Kind :: Kind
  im_Applied :: Applied
  im_Line :: nat
  Column :: nat
  Command :: string
  Errors :: nat
  im_Message :: string

definition outcome_of :: "Kind \<Rightarrow> Applied \<Rightarrow> string \<Rightarrow> ImportOutcome" where
  "outcome_of k a m = \<lparr>Kind = k, im_Applied = a, im_Line = 0, Column = 0, Command = [], Errors = 0, im_Message = m\<rparr>"

definition script_error :: string where "script_error = ''Script Error:''"

definition trap_outcome :: "bool \<Rightarrow> string \<Rightarrow> ImportOutcome" where
  "trap_outcome dryRun trap =
     (let msg = TrimSpace (if has_prefix trap script_error then drop (length script_error) trap else trap)
      in if contains_text trap ''Cannot open import file'' then outcome_of Missing_file None_applied msg
         else case errCount trap of
           Some n \<Rightarrow> (outcome_of Syntax None_applied msg)\<lparr>Errors := n\<rparr>
         | None \<Rightarrow>
           (case syntaxLoc trap of
              Some (_, ln, col) \<Rightarrow>
                (outcome_of Syntax None_applied (TrimSpace (case syntaxLoc msg of Some (pre, _) \<Rightarrow> pre | None \<Rightarrow> msg)))\<lparr>im_Line := ln, Column := col\<rparr>
            | None \<Rightarrow>
              (case runtimeLoc trap of
                 Some (_, cmd, ln) \<Rightarrow>
                   (outcome_of Runtime (if ln \<le> 1 then None_applied else Partial)
                      (TrimSpace (case runtimeLoc msg of Some (pre, _) \<Rightarrow> pre | None \<Rightarrow> msg)))\<lparr>im_Line := ln, Command := TrimSpace cmd\<rparr>
               | None \<Rightarrow>
                   if has_prefix trap script_error \<and> \<not> dryRun then outcome_of Runtime Unknown_applied msg
                   else outcome_of Unknown Unknown_applied msg)))"

definition ParseImport :: "bool \<Rightarrow> (string, string) gomap \<Rightarrow> string \<Rightarrow> string \<Rightarrow> ImportOutcome" where
  "ParseImport dryRun reply trap errText =
     (if errText \<noteq> []
      then if contains_text errText ''timed out'' \<or> contains_text errText ''deadline exceeded''
           then outcome_of Timeout Unknown_applied errText else outcome_of Unknown Unknown_applied errText
      else if trap = []
      then if golookup reply ''ret'' \<noteq> Some ''true''
           then outcome_of Unknown Unknown_applied ''the import answered without the success marker this app knows''
           else outcome_of Ok_kind (if dryRun then None_applied else All) []
      else trap_outcome dryRun trap)"

definition resetFailure :: string where
  "resetFailure = ''error while running run-after-reset script:''"

text \<open>The text after the first place a text holds another.\<close>

definition after :: "string \<Rightarrow> string \<Rightarrow> string option" where
  "after s p = map_option (\<lambda>i. drop (i + length p) s) (find (\<lambda>i. has_prefix (drop i s) p) [0..<Suc (length s)])"

definition ParseResetLog :: "string list \<Rightarrow> ImportOutcome option" where
  "ParseResetLog messages =
     (case List.map_filter (\<lambda>m. after m resetFailure) messages of
        [] \<Rightarrow> None
      | rest # _ \<Rightarrow> Some (ParseImport False [] (''Script Error: '' @ TrimSpace rest) []))"

section \<open>Names on the router\<close>

definition FilePrefix :: string where "FilePrefix = ''mikrodash-cfg-''"

definition hex_lower :: "char \<Rightarrow> bool" where
  "hex_lower c \<longleftrightarrow> is_digit c \<or> 97 \<le> byte_code c \<and> byte_code c \<le> 102"

text \<open>A name of ours starts with the prefix and sixteen digits; what follows them.\<close>

definition our_rest :: "string \<Rightarrow> string option" where
  "our_rest s =
     (let t = drop (length FilePrefix) s
      in if has_prefix s FilePrefix \<and> 16 \<le> length t \<and> list_all hex_lower (take 16 t) then Some (drop 16 t) else None)"

definition IsOurFile :: "string \<Rightarrow> bool" where
  "IsOurFile s \<longleftrightarrow> our_rest s \<in> {Some ''.rsc'', Some ''-report.txt'', Some ''.backup''}"

definition IsOurScheduler :: "string \<Rightarrow> bool" where
  "IsOurScheduler s \<longleftrightarrow> our_rest s = Some []"

definition EncodeToString :: "char list \<Rightarrow> string" where
  "EncodeToString bs = concat (map (\<lambda>b. [hex_digit (byte_code b div 16), hex_digit (byte_code b mod 16)]) bs)"

definition ReportName :: "string \<Rightarrow> string \<times> string" where
  "ReportName file =
     (let base = (if 4 < length file \<and> has_suffix file ''.rsc'' then take (length file - 4) file else file)
      in (base @ ''-report'', base @ ''-report.txt''))"

section \<open>Which router\<close>

record Device =
  Board :: string
  OSVersion :: string

definition KindFullExport :: string where "KindFullExport = ''full-export''"
definition KindFullBinary :: string where "KindFullBinary = ''full-binary''"

datatype TargetCode = TargetNotFull | TargetUnknown | TargetModelMismatch | TargetVersionMismatch

record TargetDecision =
  tg_OK :: bool
  tg_Code :: "TargetCode option"
  Was :: string
  Now_is :: string
  Overridable :: bool

definition majorMinor :: "string \<Rightarrow> string" where
  "majorMinor v =
     (let s = TrimSpace v; a = takeWhile is_digit s; t = dropWhile is_digit s; b = takeWhile is_digit (tl t)
      in if a \<noteq> [] \<and> has_prefix t ''.'' \<and> b \<noteq> [] then a @ ''.'' @ b else [])"

definition CheckTarget :: "string \<Rightarrow> Device \<Rightarrow> Device \<Rightarrow> string \<Rightarrow> TargetDecision" where
  "CheckTarget kind src now override =
     (let no = \<lambda>c w n ov. \<lparr>tg_OK = False, tg_Code = Some c, Was = w, Now_is = n, Overridable = ov\<rparr>;
          yes = \<lparr>tg_OK = True, tg_Code = None, Was = [], Now_is = [], Overridable = False\<rparr>;
          s = majorMinor (OSVersion src); m = majorMinor (OSVersion now)
      in if kind \<noteq> KindFullExport \<and> kind \<noteq> KindFullBinary then no TargetNotFull kind [] False
         else if Board src = [] \<or> Board now = [] \<or> s = [] \<or> m = [] then no TargetUnknown [] [] False
         else if Board src = Board now \<and> s = m then yes
         else let d = (if Board src \<noteq> Board now then no TargetModelMismatch (Board src) (Board now) else no TargetVersionMismatch s m)
              in if kind = KindFullBinary then d False else if TrimSpace override = Board now then yes else d True)"

section \<open>Durations\<close>

text \<open>Sums and products of 64-bit integers wrap; \<open>unit_sum\<close> is the sum before it wraps.\<close>

definition hms :: "string \<Rightarrow> (string \<times> string \<times> string) option" where
  "hms s = (case go_split CHR '':'' s of
      [h, m, x] \<Rightarrow> if list_all (\<lambda>w. w \<noteq> [] \<and> list_all is_digit w) [h, m, x] then Some (h, m, x) else None | _ \<Rightarrow> None)"

definition unit_len :: "string \<Rightarrow> (nat \<times> nat) option" where
  "unit_len s =
     (if has_prefix s ''ms'' then Some (2, 0)
      else case s of [] \<Rightarrow> None
        | c # _ \<Rightarrow> map_option (Pair 1) (golookup [(CHR ''w'', 604800), (CHR ''d'', 86400), (CHR ''h'', 3600), (CHR ''m'', 60), (CHR ''s'', 1)] c))"

text \<open>Every number followed by a unit, from the left.\<close>

function unit_sum :: "string \<Rightarrow> nat" where
  "unit_sum s =
     (if s = [] then 0
      else let ds = takeWhile is_digit s; r = dropWhile is_digit s
           in if ds = [] then unit_sum (tl s)
              else case unit_len r of None \<Rightarrow> unit_sum r | Some (n, scale) \<Rightarrow> atoi_digits ds * scale + unit_sum (drop n r))"
  by pat_completeness auto
termination
proof (relation "measure length", goal_cases)
  case (3 s ds r)
  then show ?case by (cases s) (auto simp: takeWhile_eq_Nil_iff less_Suc_eq_le length_dropWhile_le split: if_splits)
next
  case (4 s ds r p n scale)
  then have "length r < length s" by (cases s) (auto simp: less_Suc_eq_le length_dropWhile_le split: if_splits)
  then show ?case by simp
qed auto

declare unit_sum.simps [simp del]

definition wrap64 :: "int \<Rightarrow> int" where
  "wrap64 n = (n + 2 ^ 63) mod 2 ^ 64 - 2 ^ 63"

definition DurationSeconds :: "string \<Rightarrow> int" where
  "DurationSeconds s =
     (case hms s of
        Some (h, m, x) \<Rightarrow> wrap64 (int (atoi_digits h) * 3600 + int (atoi_digits m) * 60 + int (atoi_digits x))
      | None \<Rightarrow> if s \<noteq> [] \<and> list_all is_digit s then int (atoi_digits s) else wrap64 (int (unit_sum s)))"

end
