(* ===== verification/Tpl_Words.thy ===== *)
theory Tpl_Words
  imports Tpl_Write
begin

text \<open>
  What the writer writes, word by word: every value is one word that the reader takes as one and reads as the same
  parts (\<open>spells\<close>), whatever bytes it holds, and so are arguments and selectors.
\<close>

section \<open>Words that are written\<close>

fun word_ok :: "bool \<Rightarrow> string \<Rightarrow> bool" where
  "word_ok q [] \<longleftrightarrow> \<not> q"
| "word_ok q (c # s) \<longleftrightarrow> written c \<and>
     (if q \<and> c = CHR 0x5C then (case s of [] \<Rightarrow> False | d # t \<Rightarrow> written d \<and> word_ok True t)
      else if q then word_ok (c \<noteq> CHR 0x22) s
      else c \<noteq> CHR '' '' \<and> (c = CHR 0x22 \<or> refused_char c = None) \<and> word_ok (c = CHR 0x22) s)"

lemma word_ok_simps [simp]:
  "\<not> word_ok True [CHR 0x5C]" "word_ok True (CHR 0x5C # d # t) \<longleftrightarrow> written d \<and> word_ok True t"
  "c \<noteq> CHR 0x5C \<Longrightarrow> word_ok True (c # s) \<longleftrightarrow> written c \<and> word_ok (c \<noteq> CHR 0x22) s"
  "word_ok False (c # s) \<longleftrightarrow> written c \<and> c \<noteq> CHR '' '' \<and> (c = CHR 0x22 \<or> refused_char c = None) \<and> word_ok (c = CHR 0x22) s"
  by (simp_all add: written_def)

declare word_ok.simps(2) [simp del]

lemma word_ok_induct [consumes 1, case_names Nil esc in_quote outside]:
  assumes "word_ok q s" "P False []" "\<And>d t. written d \<Longrightarrow> word_ok True t \<Longrightarrow> P True t \<Longrightarrow> P True (CHR 0x5C # d # t)"
    "\<And>c s. c \<noteq> CHR 0x5C \<Longrightarrow> written c \<Longrightarrow> word_ok (c \<noteq> CHR 0x22) s \<Longrightarrow> P (c \<noteq> CHR 0x22) s \<Longrightarrow> P True (c # s)"
    "\<And>c s. written c \<Longrightarrow> c \<noteq> CHR '' '' \<Longrightarrow> c = CHR 0x22 \<or> refused_char c = None \<Longrightarrow> word_ok (c = CHR 0x22) s \<Longrightarrow> P (c = CHR 0x22) s \<Longrightarrow> P False (c # s)"
  shows "P q s"
  using assms(1)
proof (induction q s rule: qstate_induct)
  case (Nil q)
  then show ?case using assms(2) by simp
next
  case (esc d t)
  then show ?case using assms(3) by simp
next
  case (in_quote c s)
  then show ?case using assms(4) by simp
next
  case (outside c s)
  then show ?case using assms(5) by simp
qed simp

lemma word_ok_append: "word_ok q a \<Longrightarrow> word_ok q (a @ b) \<longleftrightarrow> word_ok False b"
  by (induction q a rule: word_ok_induct) simp_all

lemma word_ok_written: "word_ok q s \<Longrightarrow> c \<in> set s \<Longrightarrow> written c"
  by (induction q s rule: word_ok_induct) (auto simp: written_def)

lemma word_ok_qstate: "word_ok q s \<Longrightarrow> qstate q s = Some False"
  by (induction q s rule: word_ok_induct) simp_all

lemma word_ok_inner: "inner b \<Longrightarrow> list_all written b \<Longrightarrow> word_ok True (b @ CHR 0x22 # s) \<longleftrightarrow> word_ok False s"
  by (induction b rule: inner_induct) (simp_all add: written_def)

lemma not_blank: "written c \<Longrightarrow> c \<noteq> CHR '' '' \<Longrightarrow> \<not> blank c"
  by (auto simp: written_def blank_def)

lemma word_scan_ok:
  "word_ok q s \<Longrightarrow> r = [] \<or> blank (hd r) \<Longrightarrow> word_scan q (s @ r) = Gives (s, r)"
proof (induction q s rule: word_ok_induct)
  case Nil
  then show ?case by (cases r) simp_all
next
  case (outside c s)
  then show ?case using not_blank [of c] by (cases "c = CHR 0x22") simp_all
qed simp_all

definition name_char :: "char \<Rightarrow> bool" where
  "name_char c \<longleftrightarrow> bare_char c \<or> c \<in> {CHR ''{'', CHR ''}'', CHR ''='', CHR ''_''}"

lemma alnum_not: "alnum c \<Longrightarrow> c \<notin> {CHR '';'', CHR ''$'', CHR 0x60, CHR 0x5C, CHR ''#'', CHR ''['', CHR '']'', CHR 0x7F, CHR '' '', CHR 0x22}"
  by (auto simp: alnum_def lower_or_digit_def is_digit_of)

lemma alnum_range: "alnum c \<Longrightarrow> 0x20 \<le> byte_code c \<and> byte_code c < 0x7F"
  by (auto simp: alnum_def lower_or_digit_def is_digit_of)

lemma plain_word_ok: "name_char c \<Longrightarrow> written c \<and> c \<noteq> CHR '' '' \<and> refused_char c = None \<and> c \<noteq> CHR 0x22"
proof (cases "alnum c")
  case True
  then show ?thesis using alnum_not [OF True] alnum_range [OF True] by (simp add: written_def refused_char_def)
next
  case False
  moreover assume "name_char c"
  ultimately have "c \<in> set ''._,:/@+*!%-{}=''" by (auto simp: name_char_def bare_char_def)
  moreover have "list_all (\<lambda>c. written c \<and> c \<noteq> CHR '' '' \<and> refused_char c = None \<and> c \<noteq> CHR 0x22) ''._,:/@+*!%-{}=''"
    by (simp add: written_def refused_char_def)
  ultimately show ?thesis unfolding list_all_iff by blast
qed

lemma word_ok_plain:
  "\<forall>c\<in>set p. name_char c \<Longrightarrow> word_ok False (p @ s) \<longleftrightarrow> word_ok False s"
  by (induction p) (simp_all add: plain_word_ok)

definition word :: "string \<Rightarrow> token" where
  "word w = \<lparr>tk_text = w, bracket = False\<rparr>"

lemma word_simps [simp]: "tk_text (word w) = w" "\<not> bracket (word w)"
  by (simp_all add: word_def)

lemma token_loop_Nil [simp]: "token_loop [] = Gives []"
  by (simp add: token_loop.simps)

lemma token_loop_space [simp]: "token_loop (CHR '' '' # s) = token_loop s"
  by (simp add: token_loop.simps [of "CHR '' '' # s"] blank_def)

lemma token_loop_word:
  assumes "word_ok False w" "w \<noteq> []" "r = [] \<or> blank (hd r)"
  shows "token_loop (w @ r) = map_outcome id (Cons (word w)) (token_loop r)"
proof -
  obtain c s where w: "w = c # s" using assms(2) by (cases w) auto
  have c: "written c" "c \<noteq> CHR '' ''" using assms(1) w by auto
  then have "\<not> blank c" "c \<noteq> CHR ''[''" using not_blank by (auto simp: written_def)
  then show ?thesis
    using word_scan_ok [OF assms(1,3)] unfolding w by (simp add: token_loop.simps [of "c # s @ r"] word_def)
qed

definition spaced :: "string list \<Rightarrow> string" where
  "spaced ws = concat (map (Cons CHR '' '') ws)"

lemma spaced_simps [simp]: "spaced [] = []" "spaced (w # ws) = CHR '' '' # w @ spaced ws"
  by (simp_all add: spaced_def)

lemma spaced_append [simp]: "spaced (a @ b) = spaced a @ spaced b"
  by (simp add: spaced_def)

lemma spaced_start: "spaced ws = [] \<or> blank (hd (spaced ws))"
  by (cases ws) (simp_all add: blank_def)

lemma token_loop_spaced: "\<forall>w\<in>set ws. word_ok False w \<and> w \<noteq> [] \<Longrightarrow> token_loop (spaced ws) = Gives (map word ws)"
proof (induction ws)
  case (Cons w ws)
  then show ?case using token_loop_word [of w "spaced ws"] spaced_start [of ws] by simp
qed simp

lemma tokenize_words:
  assumes "word_ok False w" "w \<noteq> []" "\<forall>v\<in>set ws. word_ok False v \<and> v \<noteq> []"
  shows "tokenize (w @ spaced ws) = Gives (map word (w # ws))"
  using token_loop_word [OF assms(1,2), of "spaced ws"] spaced_start [of ws] token_loop_spaced [OF assms(3)] by (simp add: tokenize_def)

text \<open>A selector is one word.\<close>

lemma bracket_scan_ok:
  "qstate q s = Some False \<Longrightarrow> CHR ''['' \<notin> set s \<Longrightarrow> CHR '']'' \<notin> set s \<Longrightarrow> bracket_scan q (s @ CHR '']'' # r) = Gives (s @ [CHR '']''], r)"
proof (induction q s rule: qstate_induct)
  case (Nil q)
  then show ?case by simp
next
  case (in_quote c s)
  then show ?case by simp
next
  case (outside c s)
  then have "c \<noteq> CHR ''[''" "c \<noteq> CHR '']''" by auto
  with outside show ?case by simp
qed simp_all

lemma spaced_qstate: "\<forall>w\<in>set ws. word_ok False w \<Longrightarrow> qstate False (spaced ws) = Some False"
  by (induction ws) (simp_all add: qstate_append [OF word_ok_qstate])

lemma written_brackets: "word_ok False w \<Longrightarrow> CHR ''['' \<notin> set w \<and> CHR '']'' \<notin> set w"
  using word_ok_written [of False w] by (auto simp: written_def)

lemma spaced_brackets: "\<forall>w\<in>set ws. word_ok False w \<Longrightarrow> CHR ''['' \<notin> set (spaced ws) \<and> CHR '']'' \<notin> set (spaced ws)"
  using written_brackets by (induction ws) auto

lemma find_text_eq: "find_text fs = ''['' @ spaced (''find'' # fs) @ '' ]''"
  by (simp add: find_text_def spaced_def)

lemma find_word: "word_ok False ''find''"
  by code_simp

lemma token_loop_find:
  assumes "\<forall>f\<in>set fs. word_ok False f"
  shows "token_loop (find_text fs @ r) = map_outcome id (Cons \<lparr>tk_text = find_text fs, bracket = True\<rparr>) (token_loop r)"
proof -
  have "qstate False (spaced (''find'' # fs) @ '' '') = Some False"
    using qstate_append [OF spaced_qstate, of "''find'' # fs" "'' ''"] assms find_word by (simp del: spaced_simps)
  moreover have "CHR ''['' \<notin> set (spaced (''find'' # fs) @ '' '')" "CHR '']'' \<notin> set (spaced (''find'' # fs) @ '' '')"
    using spaced_brackets [of "''find'' # fs"] assms find_word by simp_all
  ultimately have "bracket_scan False ((spaced (''find'' # fs) @ '' '') @ CHR '']'' # r) = Gives ((spaced (''find'' # fs) @ '' '') @ [CHR '']''], r)"
    by (rule bracket_scan_ok)
  then have "bracketEnd (find_text fs @ r) = Gives (find_text fs, r)"
    by (simp add: bracketEnd_def find_text_eq)
  moreover obtain s where s: "find_text fs @ r = CHR ''['' # s" by (simp add: find_text_eq)
  ultimately show ?thesis using token_loop.simps [of "CHR ''['' # s"] by (simp add: blank_def)
qed

section \<open>Values that are written\<close>

text \<open>A text that is one word, is not taken for an argument, and reads as these parts.\<close>

definition spells :: "string \<Rightarrow> Part list \<Rightarrow> bool" where
  "spells e ps \<longleftrightarrow> word_ok False e \<and> e \<noteq> [] \<and> (hd e = CHR 0x22 \<or> CHR ''='' \<notin> set e) \<and> (\<exists>q. parseValue e = Gives \<lparr>Parts = ps, Quoted = q\<rparr>)"

lemma varName_name: "varName v \<Longrightarrow> c \<in> set v \<Longrightarrow> name_char c"
  using varName_chars [of v c] by (auto simp: name_char_def bare_char_def alnum_def)

lemma emit_part_written: "wf_part p \<Longrightarrow> list_all written (emit_part p)"
  using plain_word_ok varName_name [of "Var p"] inner_escaped(2) [of "Lit p"]
  by (auto simp: emit_part_def wf_part_def list_all_iff written_def)

lemma parts_written: "wf_parts ps \<Longrightarrow> list_all written (concat (map emit_part ps))"
  by (induction ps) (simp_all add: emit_part_written)

lemma spells_quoted: "wf_parts ps \<Longrightarrow> spells (CHR 0x22 # concat (map emit_part ps) @ [CHR 0x22]) ps"
  using word_ok_inner [OF inner_parts parts_written, of ps "[]"] parseValue_quoted [of ps]
  by (auto simp: spells_def written_def)

lemma spells_bare: "bareSafe s \<Longrightarrow> spells s [lit s]"
proof -
  assume s: "bareSafe s"
  then have c: "c \<in> set s \<Longrightarrow> bare_char c" for c by (auto simp: bareSafe_def list_all_iff)
  then have "CHR ''='' \<notin> set s" using bare_not by blast
  moreover have "word_ok False s" using word_ok_plain [of s "[]"] c by (simp add: name_char_def)
  ultimately show ?thesis using s parseValue_bare [OF s] by (auto simp: spells_def bareSafe_def)
qed

lemma spells_var: "varName v \<Longrightarrow> spells (''{{'' @ v @ ''}}'') [var v]"
proof -
  assume v: "varName v"
  have "\<forall>c\<in>set (''{{'' @ v @ ''}}''). name_char c" using varName_name [OF v] by (auto simp: name_char_def)
  then have "word_ok False (''{{'' @ v @ ''}}'')" using word_ok_plain [of "''{{'' @ v @ ''}}''" "[]"] by simp
  moreover have "CHR ''='' \<notin> set v" using varName_not [OF v] by simp
  ultimately show ?thesis using parseValue_var [OF v] unfolding spells_def by auto
qed

lemma wf_literal: "visibleText s = None \<Longrightarrow> wf_parts (flush_lit s [])"
  by (simp add: flush_lit_def wf_part_def)

lemma spells_literal: "visibleText s = None \<Longrightarrow> spells (emitLiteral s) (flush_lit s [])"
proof (cases "bareSafe s")
  case True
  then show ?thesis using spells_bare by (simp add: emitLiteral_def flush_lit_def bareSafe_def)
next
  case False
  assume "visibleText s = None"
  moreover have "concat (map emit_part (flush_lit s [])) = escapeInner s" by (simp add: flush_lit_def emit_part_def escapeInner_def)
  ultimately show ?thesis using spells_quoted [OF wf_literal, of s] False by (simp add: emitLiteral_def QuoteROS_def)
qed

lemma Literal_parts: "wf_parts ps \<Longrightarrow> \<forall>p\<in>set ps. Var p = [] \<Longrightarrow> ps = flush_lit (concat (map Lit ps)) [] \<and> visibleText (concat (map Lit ps)) = None"
proof (cases ps)
  case (Cons p qs)
  assume ps: "wf_parts ps" "\<forall>p\<in>set ps. Var p = []"
  then have "qs = []" using Cons by (cases qs) auto
  then show ?thesis using ps Cons part_cases [of p] by (simp add: wf_part_def flush_lit_def)
qed (simp add: flush_lit_def)

lemma emit_kept: "wf_parts (Parts v) \<Longrightarrow> \<exists>e. emit None v = Gives e \<and> spells e (Parts v)"
proof (cases "Value_Var v")
  case (Some n)
  assume wf: "wf_parts (Parts v)"
  have p: "Parts v = [p] \<Longrightarrow> p = var n \<and> varName n" for p
    using Some wf part_cases [of p] by (auto simp: Value_Var_def wf_part_def split: if_splits)
  then have "Parts v = [var n]" "varName n" using Some by (auto simp: Value_Var_def split: list.splits if_splits)
  then show ?thesis using spells_var Some by (simp add: emit_def)
next
  case None
  assume wf: "wf_parts (Parts v)"
  show ?thesis
  proof (cases "Literal v")
    case (Some l)
    then have l: "\<forall>p\<in>set (Parts v). Var p = []" "l = concat (map Lit (Parts v))" by (auto simp: Literal_def list_ex_iff split: if_splits)
    have "spells (emitLiteral l) (flush_lit l [])" using Literal_parts [OF wf l(1)] l(2) by (intro spells_literal) simp
    then show ?thesis using Literal_parts [OF wf l(1)] None Some l(2) by (simp add: emit_def)
  next
    case no: None
    then show ?thesis using None spells_quoted [OF wf] by (simp add: emit_def)
  qed
qed

section \<open>Arguments that are written\<close>

text \<open>What is compared of a line: its words and the parts of its values, by \<open>f\<close>.\<close>

definition image_value :: "(Value \<Rightarrow> Part list) \<Rightarrow> Value \<Rightarrow> Value" where
  "image_value f v = \<lparr>Parts = f v, Quoted = False\<rparr>"

definition image_arg :: "(Value \<Rightarrow> Part list) \<Rightarrow> Arg \<Rightarrow> Arg" where
  "image_arg f a = \<lparr>arg_Name = arg_Name a, arg_Value = image_value f (arg_Value a)\<rparr>"

definition image_line :: "(Value \<Rightarrow> Part list) \<Rightarrow> Line \<Rightarrow> Line" where
  "image_line f l = l\<lparr>Num := 0, Find := map (image_arg f) (Find l), Pos := map (image_value f) (Pos l), Args := map (image_arg f) (Args l)\<rparr>"

lemma image_mk:
  "image_value Parts \<lparr>Parts = f v, Quoted = q\<rparr> = image_value f v"
  "image_arg Parts \<lparr>arg_Name = arg_Name a, arg_Value = \<lparr>Parts = f (arg_Value a), Quoted = q\<rparr>\<rparr> = image_arg f a"
  by (simp_all add: image_value_def image_arg_def)

lemma argName_chars: "argName n \<Longrightarrow> c \<in> set n \<Longrightarrow> name_char c \<and> c \<noteq> CHR ''='' \<and> c \<noteq> CHR 0x22"
proof -
  assume n: "argName n" "c \<in> set n"
  have "lower_or_digit c \<or> c = CHR ''.'' \<or> c = CHR ''-''"
    using named_chars [of "\<lambda>c. lower_or_digit c \<or> c = CHR ''.'' \<or> c = CHR ''-''" n] n
    by (auto simp: argName_def lower_def lower_or_digit_def list_all_iff)
  then show ?thesis using lower_or_digit_not [of c] by (auto simp: name_char_def bare_char_def alnum_def)
qed

lemma Cut_append: "c \<notin> set n \<Longrightarrow> Cut c (n @ c # e) = (n, e, True)"
  unfolding Cut_def by (induction n) auto

lemma arg_word:
  assumes "argName n" "spells e ps"
  shows "word_ok False (n @ ''='' @ e)" "Cut CHR ''='' (n @ ''='' @ e) = (n, e, True)" "\<not> has_prefix (n @ ''='' @ e) [CHR 0x22]"
    "CHR ''='' \<in> set (n @ ''='' @ e)"
proof -
  have n: "\<forall>c\<in>set n. name_char c \<and> c \<noteq> CHR ''='' \<and> c \<noteq> CHR 0x22" using argName_chars assms(1) by blast
  have "name_char CHR ''=''" by (simp add: name_char_def)
  then show "word_ok False (n @ ''='' @ e)"
    using word_ok_plain [of "n @ ''=''" e] n assms(2) by (auto simp: spells_def)
  have ne: "CHR ''='' \<notin> set n" using n by blast
  then show "Cut CHR ''='' (n @ ''='' @ e) = (n, e, True)" by (simp add: Cut_append)
  show "\<not> has_prefix (n @ ''='' @ e) [CHR 0x22]" using n by (cases n) auto
qed simp

lemma readArgs_word:
  assumes "argName n" "spells e ps"
  shows "readArgs b (word (n @ ''='' @ e) # ts) = arg_then n e (readArgs b ts)"
proof -
  have "e \<noteq> []" using assms(2) by (simp add: spells_def)
  then show ?thesis
    using arg_word [OF assms] assms(1) unfolding readArgs.simps(2) by simp
qed

lemma arg_then_reads:
  assumes "spells e ps" "rest = Gives (as, vs)"
  shows "\<exists>q. arg_then n e rest = Gives (\<lparr>arg_Name = n, arg_Value = \<lparr>Parts = ps, Quoted = q\<rparr>\<rparr> # as, vs)"
  using assms by (auto simp: spells_def arg_then_def)

definition wf_arg :: "Arg \<Rightarrow> bool" where
  "wf_arg a \<longleftrightarrow> argName (arg_Name a) \<and> wf_parts (Parts (arg_Value a))"

lemma arg_texts_words:
  "list_all2 spells es (map f (map arg_Value as)) \<Longrightarrow> \<forall>a\<in>set as. argName (arg_Name a) \<Longrightarrow>
    \<forall>w\<in>set (arg_texts as es). word_ok False w \<and> w \<noteq> [] \<and> CHR ''='' \<in> set w"
proof (induction as arbitrary: es)
  case (Cons a as)
  then obtain e es1 where "es = e # es1" "spells e (f (arg_Value a))" "list_all2 spells es1 (map f (map arg_Value as))"
    by (auto simp: list_all2_Cons2)
  then show ?case using Cons arg_word [of "arg_Name a" e "f (arg_Value a)"] by (auto simp: arg_texts_def)
qed (simp add: arg_texts_def)

lemma readArgs_args:
  "list_all2 spells es (map f (map arg_Value as)) \<Longrightarrow> \<forall>a\<in>set as. argName (arg_Name a) \<Longrightarrow>
    \<exists>as'. readArgs b (map word (arg_texts as es)) = Gives (as', []) \<and> map (image_arg Parts) as' = map (image_arg f) as"
proof (induction as arbitrary: es)
  case (Cons a as)
  then obtain e es1 where e: "es = e # es1" "spells e (f (arg_Value a))" "list_all2 spells es1 (map f (map arg_Value as))"
    by (auto simp: list_all2_Cons2)
  obtain as' where as': "readArgs b (map word (arg_texts as es1)) = Gives (as', [])" "map (image_arg Parts) as' = map (image_arg f) as"
    using Cons.IH [OF e(3)] Cons.prems(2) by auto
  obtain q where "arg_then (arg_Name a) e (readArgs b (map word (arg_texts as es1))) =
      Gives (\<lparr>arg_Name = arg_Name a, arg_Value = \<lparr>Parts = f (arg_Value a), Quoted = q\<rparr>\<rparr> # as', [])"
    using arg_then_reads [OF e(2) as'(1)] by blast
  then show ?case
    using readArgs_word [OF _ e(2), of "arg_Name a" b] Cons.prems(2) e(1) as'(2)
    by (simp add: arg_texts_def image_mk del: readArgs.simps)
qed (simp add: arg_texts_def)

lemma readArgs_pos:
  "list_all2 spells es (map f vs) \<Longrightarrow> readArgs True ts = Gives (as, ps) \<Longrightarrow>
    \<exists>vs'. readArgs True (map word es @ ts) = Gives (as, vs' @ ps) \<and> map (image_value Parts) vs' = map (image_value f) vs"
proof (induction vs arbitrary: es)
  case (Cons v vs)
  then obtain e es1 where e: "es = e # es1" "spells e (f v)" "list_all2 spells es1 (map f vs)" by (auto simp: list_all2_Cons2)
  obtain vs' where vs': "readArgs True (map word es1 @ ts) = Gives (as, vs' @ ps)" "map (image_value Parts) vs' = map (image_value f) vs"
    using Cons.IH [OF e(3) Cons.prems(2)] by blast
  obtain q where q: "parseValue e = Gives \<lparr>Parts = f v, Quoted = q\<rparr>" using e(2) by (auto simp: spells_def)
  have pos: "CHR ''='' \<notin> set e \<or> has_prefix e [CHR 0x22]" using e(2) by (cases e) (auto simp: spells_def)
  have "readArgs True (word e # map word es1 @ ts) = pos_then e (readArgs True (map word es1 @ ts))"
    using pos unfolding readArgs.simps(2) [of True "word e"] by (auto simp: Cut_def simp del: readArgs.simps)
  also have "\<dots> = Gives (as, (\<lparr>Parts = f v, Quoted = q\<rparr> # vs') @ ps)" using vs'(1) q by (simp add: pos_then_def)
  finally show ?case using vs'(2) e(1) image_mk(1) [of f v q] by (metis append_Cons list.simps(9))
qed simp

section \<open>Commands that are written\<close>

lemma trim_left_space: "trim_left space_encodings (CHR '' '' # s) = trim_left space_encodings s"
    "trim_left (map rev space_encodings) (CHR '' '' # s) = trim_left (map rev space_encodings) s"
  by (subst trim_left.simps, simp add: space_encodings_def)+

lemma TrimSpace_padded:
  assumes "x \<noteq> []" "graphic (hd x)" "graphic (last x)"
  shows "TrimSpace (CHR '' '' # x @ '' '') = x"
proof -
  obtain c y where x: "x = c # y" using assms(1) by (cases x) auto
  have l: "trim_left space_encodings (x @ '' '') = x @ '' ''"
    using lead_len_graphic [of c "y @ '' ''"] assms(2) x by (simp add: trim_left.simps [of _ "c # y @ '' ''"])
  obtain d z where z: "rev x = d # z" "d = last x" using assms(1) by (cases "rev x") (auto simp: last_rev hd_rev [symmetric])
  have r: "trim_left (map rev space_encodings) (rev x) = rev x"
    using lead_len_graphic_rev [of d z] assms(3) unfolding z by (simp add: trim_left_id)
  show ?thesis by (simp add: TrimSpace_def trim_left_space l r)
qed

lemma word_ok_ends: "word_ok q w \<Longrightarrow> w \<noteq> [] \<Longrightarrow> graphic (last w)"
proof (induction q w rule: word_ok_induct)
  case (esc d t)
  then show ?case by (cases t) auto
next
  case (in_quote c s)
  then show ?case by (cases "c = CHR 0x22"; cases s) (auto simp: graphic_def)
next
  case (outside c s)
  have "byte_code c \<noteq> byte_code CHR '' ''" using outside.hyps(2) unfolding byte_code_inj .
  then have "graphic c" using outside.hyps(1) by (auto simp: graphic_def written_def less_eq_char_def)
  then show ?case using outside by (cases s) auto
qed simp

end
