(* ===== verification/Tpl_Lines.thy ===== *)
theory Tpl_Lines
  imports Tpl_Words
begin

text \<open>
  A written command, a written menu header and a written text: each passes through joining and splitting and is read
  as what was written. \<open>image_line\<close> is what is compared: a line's words and the parts of its values.
\<close>

definition wf_line :: "Line \<Rightarrow> bool" where
  "wf_line l \<longleftrightarrow> Menu l \<noteq> [] \<and> list_all menuWord (Menu l) \<and> ln_Verb l \<in> set verbs \<and> (HasFind l \<longrightarrow> ln_Verb l \<in> set selectorVerbs) \<and>
     (\<not> HasFind l \<longrightarrow> Find l = []) \<and> list_all wf_arg (Find l) \<and> list_all wf_arg (Args l) \<and> list_all (\<lambda>v. wf_parts (Parts v)) (Pos l)"

lemma emit_all_spells:
  "\<forall>v\<in>set vs. \<exists>e. emit sub v = Gives e \<and> spells e (f v) \<Longrightarrow> \<exists>es. emit_all sub vs = Gives es \<and> list_all2 spells es (map f vs)"
  by (induction vs) auto

lemma verb_word: "v \<in> set verbs \<Longrightarrow> word_ok False v \<and> v \<noteq> [] \<and> \<not> has_prefix v ''/'' \<and> \<not> has_prefix v '':''"
proof -
  have "list_all (\<lambda>v. word_ok False v \<and> v \<noteq> [] \<and> \<not> has_prefix v ''/'' \<and> \<not> has_prefix v '':'') verbs" by code_simp
  then show "v \<in> set verbs \<Longrightarrow> ?thesis" unfolding list_all_iff by blast
qed

lemma parseFind_written:
  assumes "list_all2 spells es (map f (map arg_Value as))" "\<forall>a\<in>set as. argName (arg_Name a)"
  shows "\<exists>as'. parseFind (find_text (arg_texts as es)) = Gives as' \<and> map (image_arg Parts) as' = map (image_arg f) as"
proof -
  define fs where "fs = arg_texts as es"
  have fs: "\<forall>w\<in>set fs. word_ok False w \<and> w \<noteq> [] \<and> CHR ''='' \<in> set w" unfolding fs_def by (rule arg_texts_words [OF assms])
  then have ok: "\<forall>w\<in>set fs. word_ok False w \<and> w \<noteq> []" by blast
  have last: "graphic (last (''find'' @ spaced fs))"
  proof (cases "fs = []")
    case True
    then show ?thesis by (simp add: graphic_def)
  next
    case False
    then obtain gs w where g: "fs = gs @ [w]" by (meson rev_exhaust)
    then have "word_ok False w" "w \<noteq> []" using ok by simp_all
    then show ?thesis using word_ok_ends g by simp
  qed
  have trim: "TrimSpace (butlast (tl (find_text fs))) = ''find'' @ spaced fs"
    using TrimSpace_padded [of "''find'' @ spaced fs"] last by (simp add: find_text_eq graphic_def butlast_append)
  have toks: "tokenize (''find'' @ spaced fs) = Gives (map word (''find'' # fs))"
    using tokenize_words [of "''find''" fs] find_word ok by blast
  have "''where'' \<notin> set fs" using fs by auto
  then have no_where: "\<not> list_ex (\<lambda>t. tk_text t = ''where'') (map word fs)" by (auto simp: list_ex_iff)
  obtain as' where "readArgs False (map word fs) = Gives (as', [])" "map (image_arg Parts) as' = map (image_arg f) as"
    using readArgs_args [OF assms, of False] unfolding fs_def by blast
  moreover have "2 \<le> length (find_text fs)" by (simp add: find_text_eq)
  ultimately show ?thesis using trim toks no_where unfolding fs_def [symmetric] by (simp add: parseFind_def Let_def)
qed

lemma menuWord_chars: "menuWord w \<Longrightarrow> w \<noteq> [] \<and> (\<forall>c\<in>set w. lower_or_digit c \<or> c = CHR ''-'')"
  by (cases w) (simp_all add: menuWord_def list_all_iff)

lemma menuWord_word:
  assumes "menuWord w"
  shows "w \<noteq> []" "word_ok False w" "CHR ''='' \<notin> set w" "CHR ''/'' \<notin> set w" "CHR '' '' \<notin> set w"
proof -
  have c: "lower_or_digit x \<or> x = CHR ''-''" if "x \<in> set w" for x using menuWord_chars [OF assms] that by blast
  show "w \<noteq> []" using menuWord_chars [OF assms] by blast
  have "name_char x" if "x \<in> set w" for x using c [OF that] by (elim disjE) (simp_all add: name_char_def bare_char_def alnum_def)
  then show "word_ok False w" using word_ok_plain [of w "[]"] by simp
  show "CHR ''='' \<notin> set w" using c [of "CHR ''=''"] by (auto simp: lower_or_digit_def is_digit_of)
  show "CHR ''/'' \<notin> set w" using c [of "CHR ''/''"] by (auto simp: lower_or_digit_def is_digit_of)
  show "CHR '' '' \<notin> set w" using c [of "CHR '' ''"] by (auto simp: lower_or_digit_def is_digit_of)
qed

lemma join_spaced: "go_join '' '' (w # ws) = w @ spaced ws"
  by (induction ws arbitrary: w) simp_all

lemma header_inj:
  assumes "header_text a = header_text b" "a \<noteq> []" "b \<noteq> []" "list_all menuWord a" "list_all menuWord b"
  shows "a = b"
proof -
  have "\<forall>w\<in>set a. CHR '' '' \<notin> set w" "\<forall>w\<in>set b. CHR '' '' \<notin> set w" using assms(4,5) menuWord_word(5) unfolding list_all_iff by blast+
  then have "go_split CHR '' '' (go_join '' '' a) = a" "go_split CHR '' '' (go_join '' '' b) = b" using assms(2,3) by (simp_all add: go_split_join)
  moreover have "go_join '' '' a = go_join '' '' b" using assms(1) by (simp add: header_text_def)
  ultimately show ?thesis by metis
qed

lemma go_split_whole: "c \<notin> set w \<Longrightarrow> go_split c w = [w]"
  using go_split_join [of "[w]" c] by simp

lemma parse_header:
  assumes "m \<noteq> []" "list_all menuWord m" "\<forall>w\<in>set m. w \<notin> set verbs"
  shows "parseLine \<lparr>lg_text = header_text m, lg_line = n\<rparr> cur = Gives (None, m)"
proof -
  obtain w ws where m: "m = w # ws" using assms(1) by (cases m) auto
  have ok: "\<forall>v\<in>set m. v \<noteq> [] \<and> word_ok False v \<and> CHR ''='' \<notin> set v \<and> CHR ''/'' \<notin> set v" using assms(2) menuWord_word unfolding list_all_iff by blast
  have "word_ok False (CHR ''/'' # w)" using ok m word_ok_plain [of "''/''" w] by (simp add: name_char_def bare_char_def)
  then have toks: "tokenize (header_text m) = Gives (word (CHR ''/'' # w) # map word ws)"
    using tokenize_words [of "CHR ''/'' # w" ws] ok m by (simp add: header_text_def join_spaced)
  have "menu_token (word v)" if "v \<in> set ws" for v
    using that assms(2,3) ok m by (auto simp: menu_token_def list_all_iff)
  then have "takeWhile menu_token (map word ws) = map word ws" "dropWhile menu_token (map word ws) = []" by auto
  moreover have "go_split CHR ''/'' w = [w]" using ok m go_split_whole by simp
  moreover have "last (w # ws) \<notin> set verbs" using assms(3) m by (metis last_in_set list.distinct(1))
  moreover have "find (\<lambda>v. \<not> menuWord v) (w # ws) = None" using assms(2) m unfolding find_None_iff by (auto simp: list_all_iff)
  moreover have "map tk_text (map word ws) = ws" by (simp add: comp_def)
  ultimately have "read_path (word (CHR ''/'' # w) # map word ws) cur = Gives (m, [], [])"
    using ok m by (simp add: read_path_def Let_def del: takeWhile_eq_all_conv dropWhile_eq_Nil_conv last.simps find.simps map_map)
  moreover have "\<not> has_prefix (header_text m) '':''" by (simp add: header_text_def)
  ultimately show ?thesis using toks by (simp add: parseLine_def parse_tokens_def)
qed

section \<open>Lines that are written\<close>

text \<open>A text that joining passes through.\<close>

definition flows :: "string \<Rightarrow> bool" where
  "flows w \<longleftrightarrow> (\<forall>s r. \<not> jinQ s \<longrightarrow> \<not> jinComment s \<longrightarrow>
     join_loop (w @ r) s = join_loop r (s\<lparr>jbuf := jbuf s @ w, jlast := (if w = [] then jlast s else last w)\<rparr>))"

lemma flows_append: "flows a \<Longrightarrow> flows b \<Longrightarrow> flows (a @ b)"
  by (cases "a = []"; cases "b = []") (simp_all add: flows_def)

lemma same_quotes: "jinQ s = q \<Longrightarrow> s\<lparr>jinQ := q\<rparr> = s" for s :: join_state
  by (cases s) simp

lemma flows_char: "c \<notin> {CHR 0x5C, CHR 0x22, CHR ''#'', CHR 0x0A} \<Longrightarrow> flows [c]"
  by (auto simp: flows_def put_def join_loop.simps [of "c # r" for r])

lemma join_word:
  "word_ok q w \<Longrightarrow> jinQ s = q \<Longrightarrow> \<not> jinComment s \<Longrightarrow>
    join_loop (w @ r) s = join_loop r (s\<lparr>jbuf := jbuf s @ w, jlast := (if w = [] then jlast s else last w), jinQ := False\<rparr>)"
proof (induction q w arbitrary: s rule: word_ok_induct)
  case Nil
  then show ?case by (cases s) simp
next
  case (esc d t)
  have "d \<noteq> CHR 0x0A" using esc.hyps(1) by (auto simp: written_def)
  then have "join_loop ((CHR 0x5C # d # t) @ r) s = join_loop (t @ r) (put d (put CHR 0x5C s))"
    using esc.prems by (simp add: join_loop.simps [of "CHR 0x5C # d # t @ r"])
  also have "\<dots> = join_loop r (s\<lparr>jbuf := jbuf s @ CHR 0x5C # d # t, jlast := (if t = [] then d else last t), jinQ := False\<rparr>)"
    using esc.IH [of "put d (put CHR 0x5C s)"] esc.prems by (simp add: put_def)
  finally show ?case by simp
next
  case (in_quote c w)
  have c: "c \<noteq> CHR 0x0A" using in_quote.hyps(2) by (auto simp: written_def)
  have "join_loop ((c # w) @ r) s = join_loop (w @ r) (put c (s\<lparr>jinQ := (c \<noteq> CHR 0x22)\<rparr>))"
  proof (cases "c = CHR 0x22")
    case False
    then show ?thesis using in_quote.prems in_quote.hyps(1) c
      by (simp add: join_loop.simps [of "c # w @ r"] same_quotes [OF in_quote.prems(1)])
  qed (use in_quote.prems in \<open>simp add: join_loop.simps [of "_ # w @ r"]\<close>)
  also have "\<dots> = join_loop r (s\<lparr>jbuf := jbuf s @ c # w, jlast := (if w = [] then c else last w), jinQ := False\<rparr>)"
    using in_quote.IH [of "put c (s\<lparr>jinQ := (c \<noteq> CHR 0x22)\<rparr>)"] in_quote.prems by (simp add: put_def)
  finally show ?case by simp
next
  case (outside c w)
  have c: "c \<noteq> CHR 0x0A" "c \<noteq> CHR 0x5C" "c \<noteq> CHR ''#''" using outside.hyps(1,3) by (auto simp: written_def refused_char_def)
  have "join_loop ((c # w) @ r) s = join_loop (w @ r) (put c (s\<lparr>jinQ := (c = CHR 0x22)\<rparr>))"
  proof (cases "c = CHR 0x22")
    case False
    then show ?thesis using outside.prems c by (simp add: join_loop.simps [of "c # w @ r"] same_quotes [OF outside.prems(1)])
  qed (use outside.prems in \<open>simp add: join_loop.simps [of "_ # w @ r"]\<close>)
  also have "\<dots> = join_loop r (s\<lparr>jbuf := jbuf s @ c # w, jlast := (if w = [] then c else last w), jinQ := False\<rparr>)"
    using outside.IH [of "put c (s\<lparr>jinQ := (c = CHR 0x22)\<rparr>)"] outside.prems by (simp add: put_def)
  finally show ?case by simp
qed

lemma flows_word: "word_ok False w \<Longrightarrow> flows w"
  unfolding flows_def
proof (intro allI impI)
  fix s :: join_state and r
  assume w: "word_ok False w" and s: "\<not> jinQ s" "\<not> jinComment s"
  have e: "s\<lparr>jbuf := jbuf s @ w, jlast := (if w = [] then jlast s else last w), jinQ := False\<rparr> =
      s\<lparr>jbuf := jbuf s @ w, jlast := (if w = [] then jlast s else last w)\<rparr>"
    using s by (cases s) simp
  show "join_loop (w @ r) s = join_loop r (s\<lparr>jbuf := jbuf s @ w, jlast := (if w = [] then jlast s else last w)\<rparr>)"
    by (rule trans [OF join_word [OF w] arg_cong [where f = "join_loop r", OF e]]) (use s in simp_all)
qed

lemma flows_spaced: "\<forall>w\<in>set ws. flows w \<Longrightarrow> flows (spaced ws)"
proof (induction ws)
  case (Cons w ws)
  then have "flows ((CHR '' '' # []) @ (w @ spaced ws))" by (intro flows_append flows_char) simp_all
  then show ?case by simp
qed (simp add: flows_def)

definition line_ok :: "string \<Rightarrow> bool" where
  "line_ok w \<longleftrightarrow> flows w \<and> w \<noteq> [] \<and> graphic (hd w) \<and> graphic (last w) \<and> list_all (\<lambda>c. 0x20 \<le> byte_code c \<and> byte_code c \<le> 0x7E) w"

text \<open>The words of a line: each passes through joining and neither starts nor ends with a space.\<close>

definition item_ok :: "string \<Rightarrow> bool" where
  "item_ok x \<longleftrightarrow> flows x \<and> x \<noteq> [] \<and> graphic (hd x) \<and> graphic (last x) \<and> list_all (\<lambda>c. 0x20 \<le> byte_code c \<and> byte_code c \<le> 0x7E) x"

lemma word_item: "word_ok False w \<Longrightarrow> w \<noteq> [] \<Longrightarrow> item_ok w"
proof -
  assume w: "word_ok False w" "w \<noteq> []"
  obtain c s where cs: "w = c # s" using w(2) by (cases w) auto
  have "byte_code c \<noteq> byte_code CHR '' ''" using w(1) unfolding byte_code_inj cs by simp
  then have "graphic c" using w(1) unfolding cs by (auto simp: graphic_def written_def less_eq_char_def)
  moreover have "list_all (\<lambda>c. 0x20 \<le> byte_code c \<and> byte_code c \<le> 0x7E) w"
    using word_ok_written [OF w(1)] by (auto simp: list_all_iff written_def)
  ultimately show ?thesis using flows_word [OF w(1)] word_ok_ends [OF w] w(2) cs by (simp add: item_ok_def)
qed

lemma spaced_range: "\<forall>x\<in>set xs. item_ok x \<Longrightarrow> list_all (\<lambda>c. 0x20 \<le> byte_code c \<and> byte_code c \<le> 0x7E) (spaced xs)"
  by (induction xs) (simp_all add: item_ok_def)

lemma line_ok_items:
  assumes "item_ok v" "\<forall>x\<in>set xs. item_ok x"
  shows "line_ok (v @ spaced xs)"
proof -
  have "graphic (last (v @ spaced xs))"
  proof (cases "xs = []")
    case False
    then obtain ys x where g: "xs = ys @ [x]" by (meson rev_exhaust)
    then have "x \<noteq> []" "graphic (last x)" using assms(2) by (simp_all add: item_ok_def)
    then show ?thesis using g by simp
  qed (use assms(1) in \<open>simp add: item_ok_def\<close>)
  moreover have "flows (v @ spaced xs)" using assms by (intro flows_append flows_spaced) (auto simp: item_ok_def)
  ultimately show ?thesis using assms spaced_range [of xs] by (simp add: line_ok_def item_ok_def)
qed

lemma find_item: "\<forall>f\<in>set fs. word_ok False f \<and> f \<noteq> [] \<Longrightarrow> item_ok (find_text fs)"
proof -
  assume fs: "\<forall>f\<in>set fs. word_ok False f \<and> f \<noteq> []"
  then have items: "\<forall>x\<in>set (''find'' # fs). item_ok x" using word_item find_word by auto
  have "flows ([CHR ''[''] @ spaced (''find'' # fs) @ [CHR '' ''] @ [CHR '']''])"
    using items by (intro flows_append flows_char flows_spaced) (auto simp: item_ok_def)
  then show ?thesis using spaced_range [OF items] by (simp add: item_ok_def find_text_eq graphic_def)
qed

lemma parse_command:
  assumes "wf_line l" "\<forall>v\<in>set (line_values l). \<exists>e. emit sub v = Gives e \<and> spells e (f v)"
  shows "\<exists>w. write_line sub l = Gives w \<and> line_ok w \<and>
    (\<exists>l'. parseLine \<lparr>lg_text = w, lg_line = n\<rparr> (Menu l) = Gives (Some l', Menu l) \<and> image_line Parts l' = image_line f l)"
proof -
  have vals: "\<forall>v\<in>set (map arg_Value (Find l)). \<exists>e. emit sub v = Gives e \<and> spells e (f v)"
      "\<forall>v\<in>set (Pos l). \<exists>e. emit sub v = Gives e \<and> spells e (f v)" "\<forall>v\<in>set (map arg_Value (Args l)). \<exists>e. emit sub v = Gives e \<and> spells e (f v)"
    using assms(2) by (simp_all add: line_values_def)
  obtain fs where fs: "emit_all sub (map arg_Value (Find l)) = Gives fs" "list_all2 spells fs (map f (map arg_Value (Find l)))"
    using emit_all_spells [OF vals(1)] by blast
  obtain ps where ps: "emit_all sub (Pos l) = Gives ps" "list_all2 spells ps (map f (Pos l))" using emit_all_spells [OF vals(2)] by blast
  obtain as where as: "emit_all sub (map arg_Value (Args l)) = Gives as" "list_all2 spells as (map f (map arg_Value (Args l)))"
    using emit_all_spells [OF vals(3)] by blast
  have wf: "Menu l \<noteq> []" "ln_Verb l \<in> set verbs" "HasFind l \<Longrightarrow> ln_Verb l \<in> set selectorVerbs" "\<not> HasFind l \<Longrightarrow> Find l = []"
      "\<forall>a\<in>set (Find l). argName (arg_Name a)" "\<forall>a\<in>set (Args l). argName (arg_Name a)"
    using assms(1) by (auto simp: wf_line_def list_all_iff wf_arg_def)
  note verb = verb_word [OF wf(2)]
  define aw where "aw = arg_texts (Args l) as"
  have aw: "\<forall>w\<in>set aw. word_ok False w \<and> w \<noteq> []" using arg_texts_words [OF as(2) wf(6)] unfolding aw_def by blast
  have pw: "\<forall>w\<in>set ps. word_ok False w \<and> w \<noteq> []" using ps(2) by (auto simp: list_all2_conv_all_nth spells_def in_set_conv_nth)
  have tail: "\<forall>w\<in>set (ps @ aw). word_ok False w \<and> w \<noteq> []" using pw aw by auto
  obtain args' where args': "readArgs True (map word aw) = Gives (args', [])" "map (image_arg Parts) args' = map (image_arg f) (Args l)"
    using readArgs_args [OF as(2) wf(6), of True] unfolding aw_def by blast
  obtain pos' where pos': "readArgs True (map word (ps @ aw)) = Gives (args', pos')" "map (image_value Parts) pos' = map (image_value f) (Pos l)"
    using readArgs_pos [OF ps(2) args'(1)] by auto
  define sel where "sel = (if HasFind l then [find_text (arg_texts (Find l) fs)] else [])"
  define w where "w = ln_Verb l @ spaced (sel @ ps @ aw)"
  have wr: "write_line sub l = Gives w"
    using fs(1) ps(1) as(1) wf(4) by (auto simp: write_line_def w_def sel_def aw_def spaced_def)
  obtain find' where find': "if HasFind l then parseFind (find_text (arg_texts (Find l) fs)) = Gives find' else find' = []"
      "map (image_arg Parts) find' = map (image_arg f) (Find l)"
    using parseFind_written [OF fs(2) wf(5)] wf(4) by (cases "HasFind l") auto
  define l' where "l' = \<lparr>Num = n, Menu = Menu l, ln_Verb = ln_Verb l, HasFind = HasFind l, Find = find', Pos = pos', Args = args'\<rparr>"
  define toks where "toks = (if HasFind l then [\<lparr>tk_text = find_text (arg_texts (Find l) fs), bracket = True\<rparr>] else []) @ map word (ps @ aw)"
  have "token_loop (spaced (sel @ ps @ aw)) = Gives toks"
  proof (cases "HasFind l")
    case True
    have "\<forall>x\<in>set (arg_texts (Find l) fs). word_ok False x" using arg_texts_words [OF fs(2) wf(5)] by blast
    then show ?thesis using token_loop_find [of "arg_texts (Find l) fs" "spaced (ps @ aw)"] token_loop_spaced [OF tail] True
      by (simp add: sel_def toks_def)
  next
    case False
    then show ?thesis using token_loop_spaced [OF tail] by (simp add: sel_def toks_def)
  qed
  then have "tokenize w = Gives (word (ln_Verb l) # toks)"
    using token_loop_word [of "ln_Verb l" "spaced (sel @ ps @ aw)"] verb spaced_start [of "sel @ ps @ aw"] by (simp add: tokenize_def w_def del: spaced_append)
  moreover have "read_command n (Menu l) (ln_Verb l) toks = Gives l'"
  proof (cases "HasFind l")
    case True
    then show ?thesis using find'(1) wf(3) pos'(1) by (simp add: read_command_def toks_def l'_def)
  next
    case False
    have "toks = map word (ps @ aw)" using False by (simp add: toks_def)
    then show ?thesis using False find'(1) pos'(1) by (cases "ps @ aw") (simp_all add: read_command_def l'_def del: readArgs.simps)
  qed
  moreover have "\<not> has_prefix w '':''" using verb by (cases "ln_Verb l") (auto simp: w_def)
  ultimately have "parseLine \<lparr>lg_text = w, lg_line = n\<rparr> (Menu l) = Gives (Some l', Menu l)"
    using verb wf(1,2) by (simp add: parseLine_def parse_tokens_def read_path_def)
  moreover have "line_ok w"
  proof -
    have "item_ok x" if "x \<in> set (sel @ ps @ aw)" for x
      using that tail word_item find_item [of "arg_texts (Find l) fs"] arg_texts_words [OF fs(2) wf(5)] by (auto simp: sel_def split: if_splits)
    then show ?thesis unfolding w_def using verb by (intro line_ok_items word_item) auto
  qed
  moreover have "image_line Parts l' = image_line f l" using find'(2) pos'(2) args'(2) by (simp add: image_line_def l'_def)
  ultimately show ?thesis using wr by blast
qed

lemma join_lines:
  "\<forall>w\<in>set ws. line_ok w \<Longrightarrow> jbuf s = [] \<Longrightarrow> \<not> jinQ s \<Longrightarrow> \<not> jinComment s \<Longrightarrow>
    \<exists>s'. join_loop (unlines ws) s = Gives s' \<and> map lg_text (jout s') = map lg_text (jout s) @ ws \<and> jbuf s' = [] \<and> \<not> jinQ s' \<and> \<not> jinComment s'"
proof (induction ws arbitrary: s)
  case Nil
  then show ?case by (simp add: unlines_def join_loop.simps [of "[]"])
next
  case (Cons w ws)
  have w: "flows w" "TrimSpace w = w" "w \<noteq> []" using Cons.prems(1) TrimSpace_graphic [of w] by (simp_all add: line_ok_def)
  define s1 where "s1 = s\<lparr>jbuf := w, jlast := last w\<rparr>"
  have "join_loop (unlines (w # ws)) s = join_loop (CHR 0x0A # unlines ws) s1"
    using w(1,3) Cons.prems(2-4) by (simp add: unlines_def flows_def s1_def)
  also have "\<dots> = join_loop (unlines ws) (end_line s1)"
    using Cons.prems(3,4) by (simp add: join_loop.simps [of "CHR 0x0A # _"] s1_def)
  finally have step: "join_loop (unlines (w # ws)) s = join_loop (unlines ws) (end_line s1)" .
  have "map lg_text (jout (end_line s1)) = map lg_text (jout s) @ [w]" "jbuf (end_line s1) = []" "\<not> jinQ (end_line s1)" "\<not> jinComment (end_line s1)"
    using w(2,3) Cons.prems(3,4) by (simp_all add: end_line_def flush_def Let_def s1_def)
  then show ?case using Cons.IH [of "end_line s1"] Cons.prems(1) unfolding step by auto
qed

lemma valid_ascii: "\<forall>c\<in>set s. byte_code c < 0x80 \<Longrightarrow> valid_utf8 s"
proof (induction s)
  case (Cons c s)
  then have "rune_len (c # s) = 1" by (simp add: rune_len_def Let_def)
  then show ?case using Cons by (simp add: valid_utf8.simps [of "c # s"])
qed (simp add: valid_utf8.simps)

lemma no_crlf: "CHR 0x0D \<notin> set s \<Longrightarrow> replace_crlf s = s"
  by (induction s rule: replace_crlf.induct) auto

lemma Parse_unlines:
  assumes "\<forall>w\<in>set ws. line_ok w" "\<And>lgs. map lg_text lgs = ws \<Longrightarrow> \<exists>ls. parse_lines lgs [] = Gives ls \<and> P ls"
  shows "\<exists>t. Parse (unlines ws) = Gives t \<and> P (Lines t)"
proof -
  have c: "\<forall>c\<in>set (unlines ws). c = CHR 0x0A \<or> 0x20 \<le> byte_code c \<and> byte_code c \<le> 0x7E"
    using assms(1) by (auto simp: unlines_def line_ok_def list_all_iff)
  then have "valid_utf8 (unlines ws)" by (intro valid_ascii) fastforce
  moreover have "CHR 0x0D \<notin> set (unlines ws)" using c by fastforce
  moreover obtain s where "join_loop (unlines ws) join_start = Gives s" "map lg_text (jout s) = ws" "jbuf s = []" "\<not> jinQ s" "\<not> jinComment s"
    using join_lines [OF assms(1), of join_start] by (auto simp: join_start_def)
  moreover from this have "join (unlines ws) = Gives (jout s)" by (simp add: join_def flush_def Let_def)
  ultimately show ?thesis using assms(2) [of "jout s"] by (auto simp: Parse_def no_crlf)
qed

end
