(* ===== verification/Tpl_Shape.thy ===== *)
theory Tpl_Shape
  imports Tpl_Lines
begin

text \<open>
  What reading leaves: every line that is read has a menu of menu words, a known verb, property names, and values whose
  literals are not empty, do not touch and hold no invisible character (\<open>wf_line\<close>, up to the menus).
\<close>

section \<open>What reading leaves\<close>

definition shape_part :: "Part \<Rightarrow> bool" where
  "shape_part p \<longleftrightarrow> (if Var p = [] then Lit p \<noteq> [] else Lit p = [] \<and> varName (Var p))"

definition shaped :: "Part list \<Rightarrow> bool" where
  "shaped ps \<longleftrightarrow> list_all shape_part ps \<and> successively (\<lambda>p q. Var p \<noteq> [] \<or> Var q \<noteq> []) ps"

lemma shaped_snoc: "shaped (ps @ [p]) \<longleftrightarrow> shaped ps \<and> shape_part p \<and> (ps = [] \<or> Var (last ps) \<noteq> [] \<or> Var p \<noteq> [])"
  by (auto simp: shaped_def successively_append_iff)

lemma shaped_flush: "shaped parts \<Longrightarrow> l \<noteq> [] \<longrightarrow> parts = [] \<or> Var (last parts) \<noteq> [] \<Longrightarrow> shaped (flush_lit l parts)"
  by (auto simp: flush_lit_def shaped_snoc shape_part_def)

lemma quoted_shaped:
  "quoted_loop s l parts = Gives ps \<Longrightarrow> shaped parts \<Longrightarrow> parts = [] \<or> Var (last parts) \<noteq> [] \<Longrightarrow> shaped ps"
proof (induction s l parts rule: quoted_loop.induct)
  case (1 s l parts)
  show ?case
  proof (cases s)
    case Nil
    then show ?thesis using "1.prems" shaped_flush by (auto simp: quoted_loop.simps)
  next
    case s: (Cons c s1)
    note run = "1.prems"(1) [unfolded s, unfolded quoted_loop.simps [of "c # s1"] list.case]
    show ?thesis
    proof (cases "c = CHR 0x5C")
      case esc: True
      obtain d s2 where s1: "s1 = d # s2" using "1.prems"(1) unfolding s esc by (cases s1) (simp_all add: quoted_loop.simps [of "[CHR 0x5C]"])
      show ?thesis
      proof (cases "golookup simpleEscapes d")
        case (Some e)
        then show ?thesis using "1.IH"(2) [OF s esc s1 Some] run esc s1 "1.prems"(2,3) by simp
      next
        case None
        then have hex: "s2 \<noteq> [] \<and> isHexUpper d \<and> isHexUpper (hd s2)" using run esc s1 by (auto split: if_splits)
        then show ?thesis using "1.IH"(1) [OF s esc s1 None hex] run esc s1 None "1.prems"(2,3) by simp
      qed
    next
      case plain: False
      have dollar: "c \<noteq> CHR ''$''" using run plain by auto
      show ?thesis
      proof (cases "has_prefix s ''{{''")
        case True
        then obtain name s2 where b: "before_close (drop 2 s) = Some (name, s2)" "varName name"
            "quoted_loop s2 [] (flush_lit l parts @ [var name]) = Gives ps"
          using run plain dollar s by (auto split: option.splits if_splits)
        have "shaped (flush_lit l parts @ [var name])"
          using shaped_flush [OF "1.prems"(2)] "1.prems"(3) b(2) by (simp add: shaped_snoc shape_part_def)
        then show ?thesis using "1.IH"(3) [OF s plain dollar True b(1) refl b(2)] b(2,3) by simp
      next
        case False
        then have "\<not> (byte_code c < 0x20 \<or> c = CHR 0x7F)" using run plain dollar s by (auto split: if_splits)
        then show ?thesis using "1.IH"(4) [OF s plain dollar False] run [unfolded s [symmetric]] plain dollar False "1.prems"(2,3) by simp
      qed
    qed
  qed
qed

lemma shaped_wf: "shaped ps \<Longrightarrow> \<forall>p\<in>set ps. visibleText (Lit p) = None \<Longrightarrow> wf_parts ps"
  by (induction ps) (auto simp: shaped_def shape_part_def wf_part_def successively_Cons)

lemma visible_ascii: "\<forall>c\<in>set s. byte_code c < 0x80 \<Longrightarrow> visibleText s = None"
proof (induction s)
  case (Cons c s)
  then have "rune_len (c # s) = 1" by (simp add: rune_len_def Let_def)
  then show ?case using Cons by (simp add: visibleText.simps [of "c # s"] rune_at_def hidden_rune_def Let_def)
qed simp

lemma parseValue_wf:
  assumes "parseValue raw = Gives v" "CHR 0x22 \<notin> set raw \<Longrightarrow> \<forall>c\<in>set raw. byte_code c < 0x80"
  shows "wf_parts (Parts v)"
proof (cases "has_prefix raw [CHR 0x22]")
  case True
  then obtain parts where p: "parseQuoted (butlast (tl raw)) = Gives parts" "Parts v = parts" using assms(1) by (auto simp: parseValue_def split: if_splits)
  then have q: "quoted_loop (butlast (tl raw)) [] [] = Gives parts" "hidden_text parts = None"
    by (auto simp: parseQuoted_def and_then_Gives split: option.splits)
  have "shaped parts" by (rule quoted_shaped [OF q(1)]) (simp_all add: shaped_def)
  then show ?thesis using q(2) p(2) unfolding hidden_none by (simp add: shaped_wf)
next
  case False
  show ?thesis
  proof (cases "wholeVar raw")
    case (Some x)
    then have "varName x" "Parts v = [var x]" using assms(1) False by (auto simp: parseValue_def wholeVar_def Let_def split: if_splits)
    then show ?thesis by (simp add: wf_part_def)
  next
    case None
    then have "raw \<noteq> []" "CHR 0x22 \<notin> set raw" "Parts v = [lit raw]" using assms(1) False by (auto simp: parseValue_def split: if_splits)
    then show ?thesis using assms(2) visible_ascii by (simp add: wf_part_def)
  qed
qed

text \<open>A word without quotes is plain.\<close>

definition tok_ok :: "token \<Rightarrow> bool" where
  "tok_ok t \<longleftrightarrow> bracket t \<or> CHR 0x22 \<in> set (tk_text t) \<or> (\<forall>c\<in>set (tk_text t). byte_code c < 0x80)"

lemma refused_plain: "refused_char c = None \<Longrightarrow> byte_code c < 0x80"
  by (auto simp: refused_char_def split: if_splits)

lemma word_scan_plain: "word_scan q s = Gives (w, r) \<Longrightarrow> \<not> q \<Longrightarrow> CHR 0x22 \<notin> set w \<Longrightarrow> c \<in> set w \<Longrightarrow> byte_code c < 0x80"
proof (induction q s arbitrary: w rule: qstate_induct)
  case (outside x s)
  show ?case
  proof (cases "blank x \<or> x = CHR 0x22")
    case True
    then show ?thesis using outside.prems by (auto split: if_splits)
  next
    case False
    then obtain w1 where w1: "refused_char x = None" "word_scan False s = Gives (w1, r)" "w = x # w1"
      using outside.prems(1) by (auto split: option.splits)
    then show ?thesis using outside.IH [of w1] outside.prems(3,4) False refused_plain by auto
  qed
qed auto

lemma token_loop_tok_ok: "token_loop s = Gives ts \<Longrightarrow> t \<in> set ts \<Longrightarrow> tok_ok t"
proof (induction s arbitrary: ts rule: token_loop.induct)
  case (1 s)
  show ?case
  proof (cases s)
    case Nil
    then show ?thesis using "1.prems" by (simp add: token_loop.simps)
  next
    case s: (Cons c cs)
    note step = "1.prems"(1) [unfolded s, unfolded token_loop.simps [of "c # cs"] list.case]
    show ?thesis
    proof (cases "blank c")
      case True
      then have "token_loop s = token_loop cs" unfolding s by (simp add: token_loop.simps [of "c # cs"])
      then show ?thesis using "1.IH"(1) [OF s True _ "1.prems"(2)] "1.prems"(1) by simp
    next
      case nb: False
      show ?thesis
      proof (cases "c = CHR ''[''")
        case True
        then obtain w r us where b: "bracketEnd s = Gives (w, r)" "token_loop r = Gives us" "ts = \<lparr>tk_text = w, bracket = True\<rparr> # us"
          using step nb s by (auto split: outcome.splits)
        then show ?thesis using "1.IH"(2) [OF s nb True b(1) refl b(2)] "1.prems"(2) by (auto simp: tok_ok_def)
      next
        case False
        then obtain w r us where b: "word_scan False s = Gives (w, r)" "token_loop r = Gives us" "ts = \<lparr>tk_text = w, bracket = False\<rparr> # us"
          using step nb s by (auto split: outcome.splits)
        have "tok_ok \<lparr>tk_text = w, bracket = False\<rparr>" using word_scan_plain [OF b(1)] by (auto simp: tok_ok_def)
        then show ?thesis using "1.IH"(3) [OF s nb False b(1) refl b(2)] "1.prems"(2) b(3) by auto
      qed
    qed
  qed
qed

lemma tokenize_tok_ok: "tokenize s = Gives ts \<Longrightarrow> \<forall>t\<in>set ts. tok_ok t"
  using token_loop_tok_ok by (auto simp: tokenize_def and_then_Gives split: if_splits)


lemma Cut_split: "Cut c s = (a, b, True) \<Longrightarrow> s = a @ c # b \<and> c \<notin> set a"
proof -
  assume cut: "Cut c s = (a, b, True)"
  then have c: "c \<in> set s" "a = takeWhile (\<lambda>x. x \<noteq> c) s" "b = tl (dropWhile (\<lambda>x. x \<noteq> c) s)"
    by (auto simp: Cut_def split: if_splits)
  have "dropWhile (\<lambda>x. x \<noteq> c) s = c # b" using c by (induction s arbitrary: a) auto
  then show ?thesis using c(2) takeWhile_dropWhile_id [of "\<lambda>x. x \<noteq> c" s] set_takeWhileD [of c "\<lambda>x. x \<noteq> c" s] by metis
qed

lemma tok_value: "tok_ok t \<Longrightarrow> \<not> bracket t \<Longrightarrow> parseValue (tk_text t) = Gives v \<Longrightarrow> wf_parts (Parts v)"
  using parseValue_wf [of "tk_text t" v] by (auto simp: tok_ok_def)

lemma tok_arg: "tok_ok t \<Longrightarrow> \<not> bracket t \<Longrightarrow> Cut CHR ''='' (tk_text t) = (n, raw, True) \<Longrightarrow> argName n \<Longrightarrow> parseValue raw = Gives v \<Longrightarrow> wf_parts (Parts v)"
proof -
  assume a: "tok_ok t" "\<not> bracket t" "Cut CHR ''='' (tk_text t) = (n, raw, True)" "argName n" "parseValue raw = Gives v"
  have s: "tk_text t = n @ CHR ''='' # raw" using Cut_split [OF a(3)] by blast
  have "CHR 0x22 \<notin> set n" using argName_chars [OF a(4)] by blast
  then show ?thesis using a(1,2) s by (intro parseValue_wf [OF a(5)]) (auto simp: tok_ok_def)
qed

lemma readArgs_wf:
  "readArgs b ts = Gives (as, vs) \<Longrightarrow> \<forall>t\<in>set ts. tok_ok t \<Longrightarrow> list_all wf_arg as \<and> list_all (\<lambda>v. wf_parts (Parts v)) vs"
proof (induction b ts arbitrary: as vs rule: readArgs.induct)
  case (2 allowPos t ts)
  obtain n raw isArg where cut: "Cut CHR ''='' (tk_text t) = (n, raw, isArg)" by (cases "Cut CHR ''='' (tk_text t)") auto
  have t: "tok_ok t" "\<not> bracket t" using "2.prems" by (auto split: if_splits)
  have ok: "\<forall>t\<in>set ts. tok_ok t" using "2.prems"(2) by simp
  show ?case
  proof (cases "\<not> isArg \<or> has_prefix (tk_text t) [CHR 0x22]")
    case True
    then obtain v us where v: "allowPos" "parseValue (tk_text t) = Gives v" "readArgs allowPos ts = Gives (as, us)" "vs = v # us"
      using "2.prems"(1) t cut by (auto simp: pos_then_def and_then_Gives split: if_splits)
    then show ?thesis using "2.IH"(1) [OF t(2) cut [symmetric] refl True] ok tok_value [OF t v(2)] by simp
  next
    case arg: False
    then have n: "argName n" "isArg" using "2.prems"(1) t cut by (auto split: if_splits)
    show ?thesis
    proof (cases "raw = []")
      case False
      have "readArgs allowPos (t # ts) = arg_then n raw (readArgs allowPos ts)" using arg t(2) cut n(1) False unfolding readArgs.simps by simp
      then obtain v us where v: "parseValue raw = Gives v" "readArgs allowPos ts = Gives (us, vs)" "as = \<lparr>arg_Name = n, arg_Value = v\<rparr> # us"
        using "2.prems"(1) by (auto simp: arg_then_def and_then_Gives)
      have "wf_parts (Parts v)" using tok_arg [OF t _ n(1) v(1)] cut n(2) by simp
      then show ?thesis using "2.IH"(2) [OF t(2) cut [symmetric] refl arg] v n False ok by (simp add: wf_arg_def)
    next
      case True
      then obtain nx rest where ts: "ts = nx # rest" using "2.prems"(1) arg t(2) cut n(1) by (cases ts) auto
      have nb: "\<not> (bracket nx \<or> CHR ''='' \<in> set (tk_text nx) \<and> \<not> has_prefix (tk_text nx) [CHR 0x22])"
        using "2.prems"(1) arg t(2) cut n(1) True ts by (auto split: if_splits)
      then have "readArgs allowPos (t # ts) = arg_then n (tk_text nx) (readArgs allowPos rest)"
        using arg t(2) cut n(1) True ts unfolding readArgs.simps(2) [of _ t] by auto
      then obtain v us where v: "parseValue (tk_text nx) = Gives v" "readArgs allowPos rest = Gives (us, vs)" "as = \<lparr>arg_Name = n, arg_Value = v\<rparr> # us"
        using "2.prems"(1) by (auto simp: arg_then_def and_then_Gives)
      have "wf_parts (Parts v)" using tok_value [OF _ _ v(1)] nb ok ts by simp
      then show ?thesis using "2.IH"(3) [OF t(2) cut [symmetric] refl arg _ _ ts nb] v n True ok ts by (simp add: wf_arg_def)
    qed
  qed
qed simp

lemma parseFind_wf: "parseFind s = Gives f \<Longrightarrow> list_all wf_arg f"
proof -
  assume f: "parseFind s = Gives f"
  then obtain toks where toks: "tokenize (TrimSpace (butlast (tl s))) = Gives toks"
    "(case toks of [] \<Rightarrow> Panics
       | t0 # ts \<Rightarrow>
           if tk_text t0 \<noteq> ''find'' then Fails (Fmt ''only [ find ] is allowed in brackets, not [ %s ]'' [Text (tk_text t0)])
           else if list_ex (\<lambda>t. tk_text t = ''where'') ts then Fails (Text ''a where expression is not allowed'')
           else map_outcome (\<lambda>e. Fmt ''in [ find ]: %s'' [e]) fst (readArgs False ts)) = Gives f"
    by (auto simp: parseFind_def Let_def and_then_Gives split: if_splits)
  then obtain t0 ts where ts: "toks = t0 # ts" by (cases toks) auto
  then obtain vs where "readArgs False ts = Gives (f, vs)" using toks(2) by (auto split: if_splits)
  then show ?thesis using readArgs_wf tokenize_tok_ok [OF toks(1)] ts by auto
qed

lemma read_command_wf:
  assumes "read_command n menu verb toks = Gives l" "\<forall>t\<in>set toks. tok_ok t" "menu \<noteq> []" "list_all menuWord menu" "verb \<in> set verbs"
  shows "wf_line l"
proof -
  obtain hf f rest where sel: "(case toks of
          t # ts \<Rightarrow>
            if bracket t
            then if verb \<notin> set selectorVerbs then Fails (Text ''a [ find ] selector only goes with set, remove, enable, disable or unset'')
                 else map_outcome id (\<lambda>f. (True, f, ts)) (parseFind (tk_text t))
            else Gives (False, [], toks)
        | [] \<Rightarrow> Gives (False, [], [])) = Gives (hf, f, rest)"
    and args: "map_outcome id
            (\<lambda>(args, pos). \<lparr>Num = n, Menu = menu, ln_Verb = verb, HasFind = hf, Find = f, Pos = pos, Args = args\<rparr>)
            (readArgs True rest) = Gives l"
    using assms(1) by (auto simp: read_command_def and_then_Gives)
  have "list_all wf_arg f \<and> (hf \<longrightarrow> verb \<in> set selectorVerbs) \<and> (\<not> hf \<longrightarrow> f = []) \<and> set rest \<subseteq> set toks"
    using sel parseFind_wf by (auto split: list.splits if_splits)
  moreover obtain as ps where "readArgs True rest = Gives (as, ps)" "l = \<lparr>Num = n, Menu = menu, ln_Verb = verb, HasFind = hf, Find = f, Pos = ps, Args = as\<rparr>"
    using args by auto
  ultimately show ?thesis using readArgs_wf [of True rest as ps] assms(2-5) by (auto simp: wf_line_def)
qed

end
