(* ===== verification/Tpl_Round.thy ===== *)
theory Tpl_Round
  imports Tpl_Shape
begin

text \<open>
  The round trips of configuration templates: what is formatted reads as the same template, and what is rendered with
  values reads as the filled template. \<open>plain_menu\<close> says that no word of a menu is a command of its own; the lemma
  \<open>verb_in_path\<close> shows a template that parses without it, and what is sent for it.
\<close>

lemma takeWhile_all: "x \<in> set (takeWhile P xs) \<Longrightarrow> P x"
  by (induction xs) (auto split: if_splits)

lemma set_dropWhile: "set (dropWhile P xs) \<subseteq> set xs"
  by (induction xs) auto

lemma read_path_wf:
  assumes "read_path toks cur = Gives (menu, verb, rest)" "cur = [] \<or> list_all menuWord cur"
  shows "menu \<noteq> [] \<and> list_all menuWord menu \<and> (verb = [] \<or> verb \<in> set verbs) \<and> set rest \<subseteq> set toks"
proof (cases toks)
  case Nil
  then show ?thesis using assms(1) by (simp add: read_path_def)
next
  case toks: (Cons t0 ts)
  show ?thesis
  proof (cases "has_prefix (tk_text t0) ''/''")
    case True
    define words where "words = filter (\<lambda>w. w \<noteq> []) (go_split CHR ''/'' (tl (tk_text t0))) @ map tk_text (takeWhile menu_token ts)"
    have "(let slash = (words \<noteq> [] \<and> last words \<in> set verbs); m = (if slash then butlast words else words)
        in if m = [] then Fails (Text ''the menu path is empty'')
           else (case find (\<lambda>w. \<not> menuWord w) m of
                   Some w \<Rightarrow> Fails (Fmt ''%q is not a menu name'' [Text w])
                 | None \<Rightarrow> Gives (m, if slash then last words else [], dropWhile menu_token ts))) = Gives (menu, verb, rest)"
      using assms(1) unfolding toks read_path_def words_def Let_def list.case by (simp only: True if_True)
    then have r: "menu \<noteq> []" "find (\<lambda>w. \<not> menuWord w) menu = None" "verb = [] \<or> verb \<in> set verbs" "rest = dropWhile menu_token ts"
      by (auto simp: Let_def split: if_splits option.splits)
    have "list_all menuWord menu" using r(2) unfolding find_None_iff list_all_iff by blast
    then show ?thesis using r set_dropWhile [of menu_token ts] toks by auto
  next
    case False
    then show ?thesis using assms toks by (auto simp: read_path_def split: if_splits)
  qed
qed

lemma parse_tokens_wf:
  assumes "parse_tokens n toks cur = Gives (lo, m)" "\<forall>t\<in>set toks. tok_ok t" "cur = [] \<or> list_all menuWord cur"
  shows "(m = [] \<or> list_all menuWord m) \<and> (case lo of None \<Rightarrow> True | Some l \<Rightarrow> wf_line l)"
proof -
  obtain menu verb rest where p: "read_path toks cur = Gives (menu, verb, rest)" and
    run: "(if verb \<noteq> [] then map_outcome id (\<lambda>l. (Some l, cur)) (read_command n menu verb rest)
       else case rest of
              [] \<Rightarrow> Gives (None, menu)
            | t # ts \<Rightarrow>
                if tk_text t \<notin> set verbs then Fails (Fmt ''%q is not a command a template may use'' [Text (tk_text t)])
                else map_outcome id (\<lambda>l. (Some l, cur)) (read_command n menu (tk_text t) ts)) = Gives (lo, m)"
    using assms(1) by (auto simp: parse_tokens_def and_then_Gives)
  note path = read_path_wf [OF p assms(3)]
  have ok: "\<forall>t\<in>set rest. tok_ok t" using path assms(2) by blast
  show ?thesis
  proof (cases "verb = []")
    case False
    then obtain l where "read_command n menu verb rest = Gives l" "lo = Some l" "m = cur" using run by auto
    then show ?thesis using read_command_wf ok path False assms(3) by auto
  next
    case verb: True
    show ?thesis
    proof (cases rest)
      case Nil
      then show ?thesis using run verb path by auto
    next
      case (Cons t ts)
      then obtain l where "tk_text t \<in> set verbs" "read_command n menu (tk_text t) ts = Gives l" "lo = Some l" "m = cur"
        using run verb by (auto split: if_splits)
      then show ?thesis using read_command_wf ok path Cons assms(3) by auto
    qed
  qed
qed

lemma parse_lines_wf: "parse_lines lgs m = Gives ls \<Longrightarrow> m = [] \<or> list_all menuWord m \<Longrightarrow> list_all wf_line ls"
proof (induction lgs arbitrary: m ls)
  case (Cons lg lgs)
  obtain lo m1 us where r: "parseLine lg m = Gives (lo, m1)" "parse_lines lgs m1 = Gives us" "ls = (case lo of None \<Rightarrow> us | Some x \<Rightarrow> x # us)"
    using Cons.prems(1) by (auto simp: and_then_Gives)
  obtain toks where "tokenize (lg_text lg) = Gives toks" "parse_tokens (lg_line lg) toks m = Gives (lo, m1)"
    using r(1) by (auto simp: parseLine_def and_then_Gives split: if_splits)
  then have "(m1 = [] \<or> list_all menuWord m1) \<and> (case lo of None \<Rightarrow> True | Some l \<Rightarrow> wf_line l)"
    using parse_tokens_wf tokenize_tok_ok Cons.prems(2) by blast
  then show ?case using Cons.IH [OF r(2)] r(3) by (cases lo) auto
qed simp

lemma Parse_wf: "Parse src = Gives t \<Longrightarrow> list_all wf_line (Lines t)"
  by (auto simp: Parse_def and_then_Gives split: if_splits dest: parse_lines_wf)

section \<open>What is written reads\<close>

definition plain_menu :: "Line \<Rightarrow> bool" where
  "plain_menu l \<longleftrightarrow> (\<forall>w\<in>set (Menu l). w \<notin> set verbs)"

lemma header_ok: "m \<noteq> [] \<Longrightarrow> list_all menuWord m \<Longrightarrow> line_ok (header_text m)"
proof -
  assume m: "m \<noteq> []" "list_all menuWord m"
  then obtain w ws where w: "m = w # ws" by (cases m) auto
  have ok: "\<forall>v\<in>set m. v \<noteq> [] \<and> word_ok False v" using m(2) menuWord_word unfolding list_all_iff by blast
  have "word_ok False (CHR ''/'' # w)" using ok w word_ok_plain [of "''/''" w] by (simp add: name_char_def bare_char_def)
  then have "line_ok ((CHR ''/'' # w) @ spaced ws)" using ok w word_item by (intro line_ok_items word_item) auto
  then show ?thesis by (simp add: header_text_def w join_spaced)
qed

lemma parse_lines_step:
  "parseLine lg m = Gives (lo, m1) \<Longrightarrow> parse_lines lgs m1 = Gives ls \<Longrightarrow> parse_lines (lg # lgs) m = Gives (case lo of None \<Rightarrow> ls | Some x \<Rightarrow> x # ls)"
  by simp

lemma write_reads:
  assumes "\<forall>l\<in>set ls. wf_line l \<and> plain_menu l \<and> (\<forall>v\<in>set (line_values l). \<exists>e. emit sub v = Gives e \<and> spells e (f v))"
    "cur = [] \<and> m = [] \<or> cur = header_text m \<and> m \<noteq> [] \<and> list_all menuWord m"
  shows "\<exists>ws. write_loop sub cur ls = Gives ws \<and> (\<forall>w\<in>set ws. line_ok w) \<and>
    (\<forall>lgs. map lg_text lgs = ws \<longrightarrow> (\<exists>us. parse_lines lgs m = Gives us \<and> map (image_line Parts) us = map (image_line f) ls))"
  using assms
proof (induction ls arbitrary: cur m)
  case (Cons l ls)
  have l: "wf_line l" "Menu l \<noteq> []" "list_all menuWord (Menu l)" "\<forall>w\<in>set (Menu l). w \<notin> set verbs"
    "\<forall>v\<in>set (line_values l). \<exists>e. emit sub v = Gives e \<and> spells e (f v)"
    using Cons.prems(1) by (auto simp: wf_line_def plain_menu_def)
  obtain w where w: "write_line sub l = Gives w" "line_ok w" using parse_command [OF l(1,5)] by blast
  obtain ws where ws: "write_loop sub (header_text (Menu l)) ls = Gives ws" "\<forall>w\<in>set ws. line_ok w"
    "\<And>lgs. map lg_text lgs = ws \<Longrightarrow> \<exists>us. parse_lines lgs (Menu l) = Gives us \<and> map (image_line Parts) us = map (image_line f) ls"
    using Cons.IH [of "header_text (Menu l)" "Menu l"] Cons.prems(1) l(2,3) by auto
  define hs where "hs = (if header_text (Menu l) = cur then [] else [header_text (Menu l)])"
  have read: "\<exists>us. parse_lines lgs m = Gives us \<and> map (image_line Parts) us = map (image_line f) (l # ls)"
    if lgs: "map lg_text lgs = hs @ w # ws" for lgs
  proof -
    have cmd: "\<exists>us. parse_lines kgs (Menu l) = Gives us \<and> map (image_line Parts) us = map (image_line f) (l # ls)"
      if kgs: "map lg_text kgs = w # ws" for kgs
    proof -
      obtain k ks where k: "kgs = k # ks" "lg_text k = w" "map lg_text ks = ws" using kgs by auto
      obtain us where us: "parse_lines ks (Menu l) = Gives us" "map (image_line Parts) us = map (image_line f) ls" using ws(3) [OF k(3)] by blast
      obtain l' where l': "parseLine \<lparr>lg_text = w, lg_line = lg_line k\<rparr> (Menu l) = Gives (Some l', Menu l)" "image_line Parts l' = image_line f l"
        using parse_command [OF l(1,5), of "lg_line k"] w(1) by auto
      have "k = \<lparr>lg_text = w, lg_line = lg_line k\<rparr>" using k(2) by (cases k) simp
      then show ?thesis using l' us k(1) parse_lines_step [of k "Menu l" "Some l'" "Menu l" ks us] by auto
    qed
    show ?thesis
    proof (cases "header_text (Menu l) = cur")
      case True
      have "cur \<noteq> []" unfolding True [symmetric] by (simp add: header_text_def)
      then have "m = Menu l" using Cons.prems(2) True header_inj [of "Menu l" m] l(2,3) by auto
      then show ?thesis using cmd [of lgs] lgs True by (simp add: hs_def)
    next
      case False
      then obtain k ks where k: "lgs = k # ks" "lg_text k = header_text (Menu l)" "map lg_text ks = w # ws" using lgs by (auto simp: hs_def)
      have "k = \<lparr>lg_text = header_text (Menu l), lg_line = lg_line k\<rparr>" using k(2) by (cases k) simp
      then have "parseLine k m = Gives (None, Menu l)" using parse_header [OF l(2-4)] by metis
      then show ?thesis using cmd [OF k(3)] k(1) parse_lines_step [of k m None "Menu l" ks] by auto
    qed
  qed
  have "write_loop sub cur (l # ls) = Gives (hs @ w # ws)" using w(1) ws(1) by (simp add: hs_def)
  moreover have "\<forall>x\<in>set (hs @ w # ws). line_ok x" using header_ok [OF l(2,3)] w(2) ws(2) by (auto simp: hs_def)
  ultimately show ?case using read by blast
qed simp

text \<open>What a template says, when its values say \<open>f\<close>.\<close>

definition says :: "(Value \<Rightarrow> Part list) \<Rightarrow> Template \<Rightarrow> Line list" where
  "says f t = map (image_line f) (Lines t)"

lemma write_text_reads:
  assumes "Parse src = Gives t" "list_all plain_menu (Lines t)" "\<forall>l\<in>set (Lines t). \<forall>v\<in>set (line_values l). \<exists>e. emit sub v = Gives e \<and> spells e (f v)"
  shows "\<exists>out t'. write_text sub t = Gives out \<and> Parse out = Gives t' \<and> says Parts t' = says f t"
proof -
  have "\<forall>l\<in>set (Lines t). wf_line l \<and> plain_menu l \<and> (\<forall>v\<in>set (line_values l). \<exists>e. emit sub v = Gives e \<and> spells e (f v))"
    using Parse_wf [OF assms(1)] assms(2,3) by (auto simp: list_all_iff)
  then obtain ws where ws: "write_loop sub [] (Lines t) = Gives ws" "\<forall>w\<in>set ws. line_ok w"
    "\<And>lgs. map lg_text lgs = ws \<Longrightarrow> \<exists>us. parse_lines lgs [] = Gives us \<and> map (image_line Parts) us = map (image_line f) (Lines t)"
    using write_reads [of "Lines t" sub f "[]" "[]"] by blast
  show ?thesis using Parse_unlines [OF ws(2,3)] ws(1) by (auto simp: write_text_def says_def)
qed

lemma wf_line_values: "wf_line l \<Longrightarrow> v \<in> set (line_values l) \<Longrightarrow> wf_parts (Parts v)"
  by (auto simp: wf_line_def line_values_def list_all_iff wf_arg_def)

text \<open>
  C6. A template that is written back reads as itself: for any text that parses, the formatted template parses, and
  says the same commands - the same menus, verbs, selectors, property names and values, placeholders included - in the
  same order. (No word of a menu may be a command of its own: the lemma \<open>verb_in_path\<close>, below, is a template where one is.)
\<close>
theorem format_reads_back:
  assumes "Parse src = Gives t" "list_all plain_menu (Lines t)"
  shows "\<exists>t'. Parse (Format t) = Gives t' \<and> says Parts t' = says Parts t"
proof -
  have "\<forall>l\<in>set (Lines t). \<forall>v\<in>set (line_values l). \<exists>e. emit None v = Gives e \<and> spells e (Parts v)"
    using Parse_wf [OF assms(1)] emit_kept wf_line_values unfolding list_all_iff by blast
  then obtain out t' where "write_text None t = Gives out" "Parse out = Gives t'" "says Parts t' = says Parts t"
    using write_text_reads [OF assms] by blast
  then show ?thesis by (simp add: Format_def)
qed

section \<open>Values filled in\<close>

lemma fill_emit: "fill_value vals v = Gives x \<Longrightarrow> emit (Some (given vals)) v = Gives (emitLiteral (the (Literal x)))"
proof -
  assume x: "fill_value vals v = Gives x"
  have plain: "fill_parts f ps = Gives (concat (map Lit ps))" if "\<forall>p\<in>set ps. Var p = []" for f ps
    using that by (induction ps) auto
  show ?thesis
  proof (cases "Literal v")
    case (Some s)
    then have "\<forall>p\<in>set (Parts v). Var p = []" "s = concat (map Lit (Parts v))" by (auto simp: Literal_def list_ex_iff split: if_splits)
    then show ?thesis using x Some plain by (simp add: fill_value_def emit_def)
  next
    case None
    then obtain s where "fill_parts (given vals) (Parts v) = Gives s" "x = \<lparr>Parts = [lit s], Quoted = True\<rparr>" using x by (auto simp: fill_value_def)
    then show ?thesis by (simp add: emit_def Literal_def)
  qed
qed

definition literal_parts :: "Value \<Rightarrow> Part list" where
  "literal_parts v = flush_lit (the (Literal v)) []"

definition filled :: "(string, string) gomap \<Rightarrow> Value \<Rightarrow> Value" where
  "filled vals v = (case fill_value vals v of Gives x \<Rightarrow> x | _ \<Rightarrow> v)"

lemma fill_values_filled: "fill_values vals vs = Gives xs \<Longrightarrow> xs = map (filled vals) vs \<and> (\<forall>v\<in>set vs. fill_value vals v = Gives (filled vals v))"
  by (induction vs arbitrary: xs) (auto simp: and_then_Gives filled_def)

lemma fill_args_filled:
  "fill_args vals as = Gives xs \<Longrightarrow> xs = map (\<lambda>a. a\<lparr>arg_Value := filled vals (arg_Value a)\<rparr>) as \<and>
    (\<forall>a\<in>set as. fill_value vals (arg_Value a) = Gives (filled vals (arg_Value a)))"
proof -
  assume "fill_args vals as = Gives xs"
  then obtain vs where vs: "fill_values vals (map arg_Value as) = Gives vs" "xs = map2 (\<lambda>a v. \<lparr>arg_Name = arg_Name a, arg_Value = v\<rparr>) as vs"
    by (auto simp: fill_args_def)
  have "map2 (\<lambda>a v. \<lparr>arg_Name = arg_Name a, arg_Value = v\<rparr>) as (map (filled vals) (map arg_Value as)) = map (\<lambda>a. a\<lparr>arg_Value := filled vals (arg_Value a)\<rparr>) as"
    by (induction as) simp_all
  then show ?thesis using fill_values_filled [OF vs(1)] vs(2) by auto
qed

lemma fill_line_filled:
  assumes "fill_line vals l = Gives x"
  shows "\<forall>v\<in>set (line_values l). fill_value vals v = Gives (filled vals v)" "line_values x = map (filled vals) (line_values l)"
    "image_line f x = image_line (\<lambda>v. f (filled vals v)) l"
proof -
  obtain as fs ps where r: "fill_args vals (Args l) = Gives as" "fill_args vals (Find l) = Gives fs" "fill_values vals (Pos l) = Gives ps"
    "x = l\<lparr>Args := as, Find := fs, Pos := ps\<rparr>"
    using assms by (auto simp: fill_line_def and_then_Gives)
  note f = fill_args_filled [OF r(1)] fill_args_filled [OF r(2)] fill_values_filled [OF r(3)]
  show "\<forall>v\<in>set (line_values l). fill_value vals v = Gives (filled vals v)" using f by (auto simp: line_values_def)
  show "line_values x = map (filled vals) (line_values l)" using f r(4) by (simp add: line_values_def comp_def)
  show "image_line f x = image_line (\<lambda>v. f (filled vals v)) l"
    using f r(4) by (simp add: image_line_def image_arg_def image_value_def comp_def)
qed

lemma fill_lines_all2: "fill_lines vals ls = Gives us \<Longrightarrow> list_all2 (\<lambda>l u. fill_line vals l = Gives u) ls us"
  by (induction ls arbitrary: us) (auto simp: and_then_Gives)

lemma filled_in: "list_all2 P ls us \<Longrightarrow> l \<in> set ls \<Longrightarrow> \<exists>x\<in>set us. P l x"
  by (induction rule: list_all2_induct) auto

text \<open>
  C5. What is sent is what was previewed: when every placeholder of a template has a value and no text of the filled
  template holds an invisible character, rendering succeeds, and the rendered text reads as exactly the filled template -
  the same commands in the same order, every value one literal with the text the preview shows. A value cannot end its
  quotes, start a second command or change a word: no operator input reaches the router as syntax.
\<close>
theorem render_exact:
  assumes "Parse src = Gives t" "list_all plain_menu (Lines t)" "Fill t vals = Gives u"
    "list_all (\<lambda>l. ln_Verb l \<noteq> ''ensure'') (Lines t)"
    "\<forall>l\<in>set (Lines u). \<forall>v\<in>set (line_values l). visibleText (the (Literal v)) = None"
  shows "\<exists>out t'. Render t vals = Gives out \<and> Parse out = Gives t' \<and> says Parts t' = says literal_parts u"
proof -
  have fills: "list_all2 (\<lambda>l x. fill_line vals l = Gives x) (Lines t) (Lines u)"
    using assms(3) by (auto simp: Fill_def dest: fill_lines_all2)
  have vals: "\<exists>e. emit (Some (given vals)) v = Gives e \<and> spells e (literal_parts (filled vals v))"
    if lv: "l \<in> set (Lines t)" "v \<in> set (line_values l)" for l v
  proof -
    obtain x where x: "x \<in> set (Lines u)" "fill_line vals l = Gives x" using filled_in [OF fills lv(1)] by blast
    then have "fill_value vals v = Gives (filled vals v)" "filled vals v \<in> set (line_values x)"
      using fill_line_filled(1,2) [OF x(2)] lv(2) by auto
    moreover from this have "visibleText (the (Literal (filled vals v))) = None" using assms(5) x(1) by blast
    ultimately show ?thesis using fill_emit spells_literal by (simp add: literal_parts_def)
  qed
  then obtain out t' where out: "write_text (Some (given vals)) t = Gives out" "Parse out = Gives t'" "says Parts t' = says (\<lambda>v. literal_parts (filled vals v)) t"
    using write_text_reads [OF assms(1,2), of "Some (given vals)" "\<lambda>v. literal_parts (filled vals v)"] by blast
  have "map (image_line literal_parts) us = map (image_line (\<lambda>v. literal_parts (filled vals v))) ls"
    if "list_all2 (\<lambda>l x. fill_line vals l = Gives x) ls us" for ls us
    using that by (induction rule: list_all2_induct) (auto simp: fill_line_filled(3))
  then have "says (\<lambda>v. literal_parts (filled vals v)) t = says literal_parts u" using fills by (simp add: says_def)
  moreover have "find (\<lambda>l. ln_Verb l = ''ensure'') (Lines t) = None" using assms(4) unfolding find_None_iff list_all_iff by blast
  ultimately show ?thesis using out by (simp add: Render_def)
qed

lemma visible_code [code]:
  "visibleText s =
     (if list_all (\<lambda>c. byte_code c < 0x80) s then None else if hidden_rune (rune_at s) then Some (rune_at s)
      else visibleText (drop (max 1 (rune_len s)) s))"
proof (cases "list_all (\<lambda>c. byte_code c < 0x80) s")
  case True
  then show ?thesis using visible_ascii [of s] by (simp add: list_all_iff)
next
  case False
  then have "s \<noteq> []" by auto
  then show ?thesis using False by (simp add: visibleText.simps [of s])
qed

section \<open>Examples\<close>

text \<open>
  A verb in a slash path that is followed by a menu word is kept as a word of the menu. The template then holds one
  \<open>add\<close>; what is sent starts with a line that a router runs as \<open>remove 0\<close>.
\<close>

definition demo_source :: string where
  "demo_source = ''/ip/firewall/filter/remove 0'' @ [CHR 0x0A] @ ''add comment={{who}}'' @ [CHR 0x0A]"

lemma verb_in_path:
  "(case Parse demo_source of Gives t \<Rightarrow> map (\<lambda>l. (Menu l, ln_Verb l)) (Lines t) = [([''ip'', ''firewall'', ''filter'', ''remove'', ''0''], ''add'')] \<and>
     Render t [(''who'', ''me'')] = Gives (''/ip firewall filter remove 0'' @ [CHR 0x0A] @ ''add comment=me'' @ [CHR 0x0A]) | _ \<Rightarrow> False)"
  by code_simp

definition example_source :: string where
  "example_source = ''/ip firewall filter'' @ [CHR 0x0A] @ ''set [ find comment=x ] disabled=no comment='' @ [CHR 0x22] @ ''a {{who}}'' @ [CHR 0x22, CHR 0x0A]"

definition example_values :: "(string, string) gomap" where
  "example_values = [(''who'', [CHR 0x22] @ ''; /system reset $x'')]"




definition example_template :: Template where
  "example_template = (case Parse example_source of Gives t \<Rightarrow> t | _ \<Rightarrow> \<lparr>Lines = []\<rparr>)"

definition example_filled :: Template where
  "example_filled = (case Fill example_template example_values of Gives t \<Rightarrow> t | _ \<Rightarrow> \<lparr>Lines = []\<rparr>)"

lemma example_parses: "Parse example_source = Gives example_template" "list_all plain_menu (Lines example_template)"
    "list_all (\<lambda>l. ln_Verb l \<noteq> ''ensure'') (Lines example_template)"
proof -
  have "case Parse example_source of
      Gives t \<Rightarrow> list_all plain_menu (Lines t) \<and> list_all (\<lambda>l. ln_Verb l \<noteq> ''ensure'') (Lines t) | _ \<Rightarrow> False"
    by code_simp
  then show "Parse example_source = Gives example_template" "list_all plain_menu (Lines example_template)"
      "list_all (\<lambda>l. ln_Verb l \<noteq> ''ensure'') (Lines example_template)"
    by (auto simp: example_template_def split: outcome.splits)
qed

lemma example_fills: "Fill example_template example_values = Gives example_filled"
    "\<forall>l\<in>set (Lines example_filled). \<forall>v\<in>set (line_values l). visibleText (the (Literal v)) = None"
proof -
  have "case Fill example_template example_values of
      Gives u \<Rightarrow> list_all (\<lambda>l. list_all (\<lambda>v. visibleText (the (Literal v)) = None) (line_values l)) (Lines u) | _ \<Rightarrow> False"
    by code_simp
  then show "Fill example_template example_values = Gives example_filled"
      "\<forall>l\<in>set (Lines example_filled). \<forall>v\<in>set (line_values l). visibleText (the (Literal v)) = None"
    by (auto simp: example_filled_def list_all_iff split: outcome.splits)
qed

theorem format_reads_back_witness:
  "length (Lines example_template) = 1 \<and>
   (\<exists>t'. Parse (Format example_template) = Gives t' \<and> says Parts t' = says Parts example_template)"
proof -
  have "length (Lines example_template) = 1" by code_simp
  then show ?thesis using format_reads_back [OF example_parses(1,2)] by blast
qed

theorem render_exact_witness:
  "length (Lines example_template) = 1 \<and>
   (\<exists>out t'. Render example_template example_values = Gives out \<and> Parse out = Gives t' \<and> says Parts t' = says literal_parts example_filled)"
proof -
  have "length (Lines example_template) = 1" by code_simp
  then show ?thesis using render_exact [OF example_parses(1,2) example_fills(1) example_parses(3) example_fills(2)] by blast
qed

end
