(* ===== verification/Tpl_Ensure.thy ===== *)
theory Tpl_Ensure
  imports Tpl_Round
begin

text \<open>
  The \<open>ensure\<close> lines of a template (\<^verbatim>\<open>internal/cfgtpl/ensure.go\<close>): each becomes an \<open>add\<close> or nothing, judged against a
  router's rows as the lines before it leave them. A row is a Go map; reading a key that is not there gives the empty
  text.
\<close>

section \<open>Resolving\<close>

type_synonym row = "(string, string) gomap"

type_synonym line_error = "nat option \<times> message"

definition EnsureMenus :: "Template \<Rightarrow> string list" where
  "EnsureMenus t = foldl add_new [] (map Path (filter (\<lambda>l. ln_Verb l = ''ensure'') (Lines t)))"

record EnsureResult =
  er_Line :: nat
  Added :: bool

definition normalise :: "string \<Rightarrow> string" where
  "normalise v = (if v = ''yes'' then ''true'' else if v = ''no'' then ''false'' else v)"

definition cell :: "row \<Rightarrow> string \<Rightarrow> string" where
  "cell r k = (case golookup r k of Some v \<Rightarrow> v | None \<Rightarrow> [])"

definition holds :: "row \<Rightarrow> row \<Rightarrow> bool" where
  "holds r want \<longleftrightarrow> list_all (\<lambda>(k, v). cell r k = v) want"

fun concrete :: "(string, string) gomap \<Rightarrow> Arg list \<Rightarrow> row \<Rightarrow> (message, row) outcome" where
  "concrete vals [] m = Gives m"
| "concrete vals (a # as) m =
     and_then (fill_parts (given vals) (Parts (arg_Value a))) (\<lambda>s. concrete vals as (goput (arg_Name a) (normalise s) m))"

definition overwrite :: "row \<Rightarrow> row \<Rightarrow> row" where
  "overwrite args r = foldl (\<lambda>r (k, v). goput k v r) r args"

text \<open>What the lines but \<open>ensure\<close> do to the rows of their menu.\<close>

definition replay :: "string \<Rightarrow> row \<Rightarrow> row \<Rightarrow> row list \<Rightarrow> row list" where
  "replay verb args f rows =
     (if verb = ''add'' then rows @ [args]
      else if verb = ''remove'' then filter (\<lambda>r. \<not> holds r f) rows
      else if verb = ''set'' \<or> verb = ''enable'' \<or> verb = ''disable''
      then let new = (if verb = ''set'' then args else [(''disabled'', normalise (if verb = ''enable'' then ''no'' else ''yes''))])
           in map (\<lambda>r. if holds r f then overwrite new r else r) rows
      else rows)"

record ensure_state =
  es_rows :: "(string, row list) gomap"
  es_out :: "Line list"
  es_results :: "EnsureResult list"

definition rows_of :: "ensure_state \<Rightarrow> string \<Rightarrow> row list" where
  "rows_of s m = (case golookup (es_rows s) m of Some rs \<Rightarrow> rs | None \<Rightarrow> [])"

definition ensure_line :: "(string, string) gomap \<Rightarrow> string list \<Rightarrow> Line \<Rightarrow> ensure_state \<Rightarrow> (line_error, ensure_state) outcome" where
  "ensure_line vals needs l s =
     (let menu = Path l; err = map_outcome (Pair (Some (Num l))) id
      in if menu \<notin> set needs then Gives (s\<lparr>es_out := es_out s @ [l]\<rparr>)
         else if Pos l \<noteq> [] \<or> ln_Verb l = ''unset''
         then Fails (Some (Num l), Fmt ''%s %s: MikroDash cannot tell which row this changes'' [Text menu, Text (ln_Verb l)])
         else and_then (err (concrete vals (Args l) [])) (\<lambda>args.
              and_then (err (concrete vals (Find l) [])) (\<lambda>f.
                if ln_Verb l = ''ensure''
                then let present = list_ex (\<lambda>r. holds r args) (rows_of s menu);
                         s1 = s\<lparr>es_results := es_results s @ [\<lparr>er_Line = Num l, Added = \<not> present\<rparr>]\<rparr>
                     in Gives (if present then s1
                               else s1\<lparr>es_rows := goput menu (rows_of s menu @ [args]) (es_rows s),
                                       es_out := es_out s @ [l\<lparr>ln_Verb := ''add''\<rparr>]\<rparr>)
                else Gives (s\<lparr>es_rows := goput menu (replay (ln_Verb l) args f (rows_of s menu)) (es_rows s),
                              es_out := es_out s @ [l]\<rparr>))))"

fun ensure_loop :: "(string, string) gomap \<Rightarrow> string list \<Rightarrow> Line list \<Rightarrow> ensure_state \<Rightarrow> (line_error, ensure_state) outcome" where
  "ensure_loop vals needs [] s = Gives s"
| "ensure_loop vals needs (l # ls) s = and_then (ensure_line vals needs l s) (ensure_loop vals needs ls)"

definition live_rows :: "(string, row list) gomap \<Rightarrow> string \<Rightarrow> row list" where
  "live_rows live m = (case golookup live m of Some rs \<Rightarrow> map (map (\<lambda>(k, v). (k, normalise v))) rs | None \<Rightarrow> [])"

definition ResolveEnsure ::
  "Template \<Rightarrow> (string, string) gomap \<Rightarrow> (string, row list) gomap \<Rightarrow> (line_error, Template \<times> EnsureResult list) outcome" where
  "ResolveEnsure t vals live =
     (let needs = EnsureMenus t
      in case find (\<lambda>m. golookup live m = None) needs of
           Some m \<Rightarrow> Fails (None, Fmt ''%s: its rows were not read'' [Text m])
         | None \<Rightarrow>
             map_outcome id (\<lambda>s. (\<lparr>Lines = es_out s\<rparr>, es_results s))
               (ensure_loop vals needs (Lines t) \<lparr>es_rows = map (\<lambda>m. (m, live_rows live m)) needs, es_out = [], es_results = []\<rparr>))"

section \<open>What the lines mean\<close>

text \<open>
  The rows of one menu as tables from properties to texts, and what a router does to them for one line. \<open>ensure\<close> means:
  add the row unless one with every written value is there.
\<close>

definition meets :: "(string \<Rightarrow> string) \<Rightarrow> row \<Rightarrow> bool" where
  "meets r want \<longleftrightarrow> (\<forall>k v. golookup want k = Some v \<longrightarrow> r k = v)"

definition updated :: "row \<Rightarrow> (string \<Rightarrow> string) \<Rightarrow> string \<Rightarrow> string" where
  "updated args r = (\<lambda>k. case golookup args k of Some v \<Rightarrow> v | None \<Rightarrow> r k)"

definition written_cells :: "(string, string) gomap \<Rightarrow> Arg list \<Rightarrow> row" where
  "written_cells vals as = (case concrete vals as [] of Gives m \<Rightarrow> m | _ \<Rightarrow> [])"

definition line_effect :: "(string, string) gomap \<Rightarrow> Line \<Rightarrow> (string \<Rightarrow> string) list \<Rightarrow> (string \<Rightarrow> string) list" where
  "line_effect vals l rows =
     (let args = written_cells vals (Args l); f = written_cells vals (Find l)
      in if ln_Verb l = ''ensure'' then (if \<exists>r\<in>set rows. meets r args then rows else rows @ [cell args])
         else if ln_Verb l = ''add'' then rows @ [cell args]
         else if ln_Verb l = ''remove'' then filter (\<lambda>r. \<not> meets r f) rows
         else if ln_Verb l = ''set'' then map (\<lambda>r. if meets r f then updated args r else r) rows
         else if ln_Verb l = ''enable'' then map (\<lambda>r. if meets r f then r(''disabled'' := ''false'') else r) rows
         else if ln_Verb l = ''disable'' then map (\<lambda>r. if meets r f then r(''disabled'' := ''true'') else r) rows
         else rows)"

definition menu_effect :: "(string, string) gomap \<Rightarrow> string \<Rightarrow> Line list \<Rightarrow> (string \<Rightarrow> string) list \<Rightarrow> (string \<Rightarrow> string) list" where
  "menu_effect vals m ls rows = fold (line_effect vals) (filter (\<lambda>l. Path l = m) ls) rows"

section \<open>Resolving is exact\<close>

lemma concrete_ok: "concrete vals as m = Gives m' \<Longrightarrow> gomap_ok m \<Longrightarrow> gomap_ok m'"
  by (induction vals as m rule: concrete.induct) (auto simp: and_then_Gives)

lemma holds_meets: "gomap_ok want \<Longrightarrow> holds r want \<longleftrightarrow> meets (cell r) want"
  by (auto simp: holds_def meets_def list_all_iff dest: map_of_SomeD)

lemma cell_overwrite: "gomap_ok args \<Longrightarrow> cell (overwrite args r) = updated args (cell r)"
proof (induction args arbitrary: r)
  case (Cons p args)
  obtain k v where p: "p = (k, v)" by (cases p)
  have k: "golookup args k = None" using Cons.prems p by (simp add: map_of_eq_None_iff)
  have "cell (goput k v r) = (cell r)(k := v)" by (auto simp: cell_def golookup_put)
  then show ?case using Cons.IH [of "goput k v r"] Cons.prems k by (auto simp: overwrite_def p updated_def split: option.splits)
qed (simp add: overwrite_def updated_def)

lemma replay_effect:
  assumes "concrete vals (Args l) [] = Gives args" "concrete vals (Find l) [] = Gives f" "ln_Verb l \<noteq> ''ensure''"
  shows "map cell (replay (ln_Verb l) args f rows) = line_effect vals l (map cell rows)"
proof -
  have ok: "gomap_ok args" "gomap_ok f" using concrete_ok assms(1,2) by fastforce+
  have w: "written_cells vals (Args l) = args" "written_cells vals (Find l) = f" using assms(1,2) by (simp_all add: written_cells_def)
  have d: "cell (overwrite [(''disabled'', v)] r) = (cell r)(''disabled'' := v)" for v r
    by (auto simp: overwrite_def cell_def golookup_put)
  show ?thesis using assms(3)
    by (auto simp: replay_def line_effect_def Let_def w holds_meets [OF ok(2)] cell_overwrite [OF ok(1)] d normalise_def filter_map comp_def)
qed

definition unresolved :: "string list \<Rightarrow> Line \<Rightarrow> bool" where
  "unresolved needs l \<longleftrightarrow> ln_Verb l = ''ensure'' \<and> Path l \<in> set needs"

text \<open>What one line adds to the output, and what it does to the rows of a menu.\<close>

lemma ensure_line_effect:
  assumes "ensure_line vals needs l s = Gives s'" "m \<in> set needs"
  obtains os where "es_out s' = es_out s @ os"
    "fold (line_effect vals) (filter (\<lambda>l. Path l = m) os) (map cell (rows_of s m)) = map cell (rows_of s' m)"
    "fold (line_effect vals) (filter (\<lambda>l. Path l = m) [l]) (map cell (rows_of s m)) = map cell (rows_of s' m)"
    "\<forall>x\<in>set os. \<not> unresolved needs x" "filter (\<lambda>l. Path l \<notin> set needs) os = filter (\<lambda>l. Path l \<notin> set needs) [l]"
proof (cases "Path l \<in> set needs")
  case False
  then have "s' = s\<lparr>es_out := es_out s @ [l]\<rparr>" using assms(1) by (simp add: ensure_line_def Let_def)
  then show ?thesis using False assms(2) by (intro that [of "[l]"]) (auto simp: rows_of_def unresolved_def)
next
  case True
  then obtain args f where c: "concrete vals (Args l) [] = Gives args" "concrete vals (Find l) [] = Gives f"
    using assms(1) by (auto simp: ensure_line_def Let_def and_then_Gives split: if_splits)
  note run = assms(1) [unfolded ensure_line_def Let_def]
  have rows: "rows_of (s\<lparr>es_rows := goput (Path l) rs (es_rows s), es_out := out\<rparr>) m = (if m = Path l then rs else rows_of s m)" for rs out
    by (simp add: rows_of_def golookup_put)
  show ?thesis
  proof (cases "ln_Verb l = ''ensure''")
    case ens: True
    have ok: "gomap_ok args" using concrete_ok c(1) by fastforce
    have w: "written_cells vals (Args l) = args" using c(1) by (simp add: written_cells_def)
    have ex: "list_ex (\<lambda>r. holds r args) (rows_of s (Path l)) \<longleftrightarrow> (\<exists>r\<in>set (map cell (rows_of s (Path l))). meets r args)"
      by (simp add: list_ex_iff holds_meets [OF ok])
    show ?thesis
    proof (cases "list_ex (\<lambda>r. holds r args) (rows_of s (Path l))")
      case present: True
      then have "s' = s\<lparr>es_results := es_results s @ [\<lparr>er_Line = Num l, Added = False\<rparr>]\<rparr>"
        using run True c ens by (simp split: if_splits)
      then show ?thesis using present ex True ens by (intro that [of "[]"]) (auto simp: rows_of_def line_effect_def Let_def w)
    next
      case absent: False
      then have s': "s' = s\<lparr>es_results := es_results s @ [\<lparr>er_Line = Num l, Added = True\<rparr>],
          es_rows := goput (Path l) (rows_of s (Path l) @ [args]) (es_rows s), es_out := es_out s @ [l\<lparr>ln_Verb := ''add''\<rparr>]\<rparr>"
        using run True c ens by (simp split: if_splits)
      have "Path (l\<lparr>ln_Verb := ''add''\<rparr>) = Path l" by (simp add: Path_def)
      then show ?thesis using absent ex True ens s'
        by (intro that [of "[l\<lparr>ln_Verb := ''add''\<rparr>]"]) (auto simp: rows_of_def golookup_put line_effect_def Let_def w unresolved_def)
    qed
  next
    case other: False
    then have s': "s' = s\<lparr>es_rows := goput (Path l) (replay (ln_Verb l) args f (rows_of s (Path l))) (es_rows s), es_out := es_out s @ [l]\<rparr>"
      using run True c by (simp split: if_splits)
    then show ?thesis using True other replay_effect [OF c other] by (intro that [of "[l]"]) (auto simp: rows_of_def golookup_put unresolved_def)
  qed
qed

lemma ensure_loop_effect:
  assumes "ensure_loop vals needs ls s = Gives s'" "m \<in> set needs"
  shows "\<exists>os. es_out s' = es_out s @ os \<and> menu_effect vals m os (map cell (rows_of s m)) = map cell (rows_of s' m) \<and>
    menu_effect vals m ls (map cell (rows_of s m)) = map cell (rows_of s' m) \<and>
    (\<forall>x\<in>set os. \<not> unresolved needs x) \<and> filter (\<lambda>l. Path l \<notin> set needs) os = filter (\<lambda>l. Path l \<notin> set needs) ls"
  using assms(1)
proof (induction ls arbitrary: s)
  case (Cons l ls)
  obtain s1 where s1: "ensure_line vals needs l s = Gives s1" "ensure_loop vals needs ls s1 = Gives s'"
    using Cons.prems by (auto simp: and_then_Gives)
  obtain os1 where a: "es_out s1 = es_out s @ os1"
    "fold (line_effect vals) (filter (\<lambda>l. Path l = m) os1) (map cell (rows_of s m)) = map cell (rows_of s1 m)"
    "fold (line_effect vals) (filter (\<lambda>l. Path l = m) [l]) (map cell (rows_of s m)) = map cell (rows_of s1 m)"
    "\<forall>x\<in>set os1. \<not> unresolved needs x" "filter (\<lambda>l. Path l \<notin> set needs) os1 = filter (\<lambda>l. Path l \<notin> set needs) [l]"
    using ensure_line_effect [OF s1(1) assms(2)] .
  obtain os2 where b: "es_out s' = es_out s1 @ os2" "menu_effect vals m os2 (map cell (rows_of s1 m)) = map cell (rows_of s' m)"
    "menu_effect vals m ls (map cell (rows_of s1 m)) = map cell (rows_of s' m)"
    "\<forall>x\<in>set os2. \<not> unresolved needs x" "filter (\<lambda>l. Path l \<notin> set needs) os2 = filter (\<lambda>l. Path l \<notin> set needs) ls"
    using Cons.IH [OF s1(2)] by blast
  show ?case
    by (intro exI [of _ "os1 @ os2"]) (use a b in \<open>auto simp: menu_effect_def fold_append split: if_splits\<close>)
qed (simp add: menu_effect_def)

lemma foldl_add_new: "set (foldl add_new out xs) = set out \<union> set xs"
  by (induction xs arbitrary: out) (auto simp: add_new_def)

text \<open>
  C10. Resolving against a router's rows does what the \<open>ensure\<close> lines mean: what is left holds no \<open>ensure\<close>, keeps every line
  of the other menus in order, and in every menu that had one, running the resolved lines from the rows that were read
  leaves the same rows as the original lines under the meaning of \<open>ensure\<close> - a row is added exactly when no row then
  present has every value the line writes, the lines before it included.
\<close>
theorem ensure_exact:
  assumes "ResolveEnsure t vals live = Gives (u, results)"
  shows "(\<forall>l. l \<in> set (Lines u) \<longrightarrow> ln_Verb l \<noteq> ''ensure'') \<and>
    filter (\<lambda>l. Path l \<notin> set (EnsureMenus t)) (Lines u) = filter (\<lambda>l. Path l \<notin> set (EnsureMenus t)) (Lines t) \<and>
    (\<forall>m. m \<in> set (EnsureMenus t) \<longrightarrow>
      menu_effect vals m (Lines u) (map cell (live_rows live m)) = menu_effect vals m (Lines t) (map cell (live_rows live m)))"
proof -
  define needs where "needs = EnsureMenus t"
  define s0 where "s0 = \<lparr>es_rows = map (\<lambda>m. (m, live_rows live m)) needs, es_out = [], es_results = []\<rparr>"
  obtain s where s: "ensure_loop vals needs (Lines t) s0 = Gives s" "Lines u = es_out s"
    using assms by (auto simp: ResolveEnsure_def Let_def needs_def s0_def split: option.splits)
  have start: "rows_of s0 m = live_rows live m" if "m \<in> set needs" for m
  proof -
    have "golookup (map (\<lambda>m. (m, live_rows live m)) ns) m = Some (live_rows live m)" if "m \<in> set ns" for ns
      using that by (induction ns) auto
    then show ?thesis using that by (simp add: rows_of_def s0_def)
  qed
  have menus: "set needs = {Path l | l. l \<in> set (Lines t) \<and> ln_Verb l = ''ensure''}"
    unfolding needs_def EnsureMenus_def foldl_add_new by auto
  show ?thesis
  proof (cases "needs = []")
    case True
    have "ensure_loop vals [] ls z = Gives (z\<lparr>es_out := es_out z @ ls\<rparr>)" for ls and z :: ensure_state
      by (induction ls arbitrary: z) (simp_all add: ensure_line_def)
    then have "Lines u = Lines t" using s True by (auto simp: s0_def)
    then show ?thesis using True menus needs_def by auto
  next
    case False
    have eff: "(\<forall>x\<in>set (Lines u). \<not> unresolved needs x) \<and>
        filter (\<lambda>l. Path l \<notin> set needs) (Lines u) = filter (\<lambda>l. Path l \<notin> set needs) (Lines t) \<and>
        menu_effect vals m (Lines u) (map cell (live_rows live m)) = menu_effect vals m (Lines t) (map cell (live_rows live m))"
      if "m \<in> set needs" for m
      using ensure_loop_effect [OF s(1) that] s(2) start [OF that] by (auto simp: s0_def)
    then have kept: "filter (\<lambda>l. Path l \<notin> set needs) (Lines u) = filter (\<lambda>l. Path l \<notin> set needs) (Lines t)"
      and none: "\<forall>x\<in>set (Lines u). \<not> unresolved needs x" using False by (metis list.set_intros(1) list.exhaust)+
    have "ln_Verb l \<noteq> ''ensure''" if "l \<in> set (Lines u)" for l
    proof (cases "Path l \<in> set needs")
      case True
      then show ?thesis using none that by (auto simp: unresolved_def)
    next
      case False
      then have "l \<in> set (filter (\<lambda>l. Path l \<notin> set needs) (Lines t))" using that kept [symmetric] by simp
      then show ?thesis using False menus by auto
    qed
    then show ?thesis using eff kept unfolding needs_def by blast
  qed
qed


definition ensure_example :: Template where
  "ensure_example =
     (case Parse (unlines [''/ip pool'', ''remove [ find comment=a ]'', ''ensure name=x comment=a'', ''ensure name={{n}}'', ''/ip dns'', ''set servers=1'']) of
        Gives t \<Rightarrow> t | _ \<Rightarrow> \<lparr>Lines = []\<rparr>)"

definition ensure_live :: "(string, row list) gomap" where
  "ensure_live = [(''/ip/pool'', [[(''name'', ''x''), (''comment'', ''a'')], [(''name'', ''y''), (''ranges'', ''r'')]])]"

definition ensure_result :: Template where
  "ensure_result = (case ResolveEnsure ensure_example [(''n'', ''y'')] ensure_live of Gives r \<Rightarrow> fst r | _ \<Rightarrow> \<lparr>Lines = []\<rparr>)"

theorem ensure_exact_witness:
  "map ln_Verb (Lines ensure_result) = [''remove'', ''add'', ''set''] \<and> ''/ip/pool'' \<in> set (EnsureMenus ensure_example) \<and>
   menu_effect [(''n'', ''y'')] ''/ip/pool'' (Lines ensure_result) (map cell (live_rows ensure_live ''/ip/pool'')) =
     menu_effect [(''n'', ''y'')] ''/ip/pool'' (Lines ensure_example) (map cell (live_rows ensure_live ''/ip/pool''))"
proof -
  have "case ResolveEnsure ensure_example [(''n'', ''y'')] ensure_live of Gives r \<Rightarrow> True | _ \<Rightarrow> False" by code_simp
  then obtain res where r: "ResolveEnsure ensure_example [(''n'', ''y'')] ensure_live = Gives (ensure_result, res)"
    by (auto simp: ensure_result_def split: outcome.splits)
  moreover have v: "map ln_Verb (Lines ensure_result) = [''remove'', ''add'', ''set'']" by code_simp
  moreover have m: "''/ip/pool'' \<in> set (EnsureMenus ensure_example)" by code_simp
  ultimately show ?thesis using ensure_exact [OF r] by blast
qed

end
