(* ===== verification/Tpl_Live.thy ===== *)
theory Tpl_Live
  imports Tpl_Round Fw_Guard
begin

text \<open>
  What a template could do to the way in (\<^verbatim>\<open>internal/cfgtpl/analyze.go\<close>, \<open>AnalyzeLive\<close>): the findings against one
  router's management path. The words of messages are shortened; nothing reads them. The main result is
  that an unknown value is read as the dangerous one.
\<close>

section \<open>Findings\<close>

datatype Level = Refuse | Ack | Warn

record Finding =
  Level :: Level
  Code :: string
  fd_Line :: nat
  Message :: string

definition rank :: "Level \<Rightarrow> nat" where
  "rank l = (case l of Warn \<Rightarrow> 1 | Ack \<Rightarrow> 2 | Refuse \<Rightarrow> 3)"

definition worse_of :: "Level option \<Rightarrow> Finding \<Rightarrow> Level option" where
  "worse_of w f = (case w of None \<Rightarrow> Some (Level f) | Some l \<Rightarrow> if rank l < rank (Level f) then Some (Level f) else Some l)"

definition Worst :: "Finding list \<Rightarrow> Level option" where
  "Worst fs = foldl worse_of None fs"

definition found :: "Line \<Rightarrow> Level \<Rightarrow> string \<Rightarrow> string \<Rightarrow> Finding" where
  "found l lev code msg = \<lparr>Level = lev, Code = code, fd_Line = Num l, Message = msg\<rparr>"

record LiveContext =
  FW :: FWContext
  APIService :: string

definition firewallInput :: "(string, string) gomap" where
  "firewallInput =
     [(''/ip/firewall/filter'', ''input''), (''/ip/firewall/raw'', ''prerouting''),
      (''/ipv6/firewall/filter'', ''input''), (''/ipv6/firewall/raw'', ''prerouting'')]"

definition recoveryServices :: "string list" where
  "recoveryServices = [''winbox'', ''ssh'', ''www-ssl'']"

section \<open>Reading a line\<close>

text \<open>The literal value of a setting, empty when it is absent or unknown.\<close>

definition arg :: "Line \<Rightarrow> string \<Rightarrow> string" where
  "arg l n = (case Line_Arg l n of None \<Rightarrow> [] | Some v \<Rightarrow> (case Literal v of Some s \<Rightarrow> s | None \<Rightarrow> []))"

definition may :: "Line \<Rightarrow> string \<Rightarrow> string \<Rightarrow> bool" where
  "may l n want = (case Line_Arg l n of None \<Rightarrow> False | Some v \<Rightarrow> (case Literal v of Some s \<Rightarrow> s = want | None \<Rightarrow> True))"

definition findName :: "Line \<Rightarrow> string option" where
  "findName l = (case find (\<lambda>a. arg_Name a = ''name'') (Find l) of None \<Rightarrow> None | Some a \<Rightarrow> Literal (arg_Value a))"

definition has :: "Line \<Rightarrow> string \<Rightarrow> bool" where
  "has l n \<longleftrightarrow> Line_Arg l n \<noteq> None"

definition firstNonEmpty :: "string \<Rightarrow> string \<Rightarrow> string" where
  "firstNonEmpty a b = (if a \<noteq> [] then a else b)"

definition movesPort :: "Line \<Rightarrow> int \<Rightarrow> bool" where
  "movesPort l current =
     (case Line_Arg l ''port'' of
        None \<Rightarrow> False
      | Some v \<Rightarrow> (case Literal v of None \<Rightarrow> True | Some s \<Rightarrow> s \<noteq> Itoa current \<or> current = 0))"

section \<open>The findings of a line\<close>

definition dropped_rule :: "Line \<Rightarrow> string \<Rightarrow> FWRule" where
  "dropped_rule l chain =
     \<lparr>Chain = chain, Action = firstNonEmpty (arg l ''action'') ''drop'', SrcAddress = arg l ''src-address'',
      DstAddress = arg l ''dst-address'', Protocol = arg l ''protocol'', DstPort = arg l ''dst-port'',
      InInterface = arg l ''in-interface'', Disabled = (arg l ''disabled'' = ''yes''), Unmodelled = []\<rparr>"

definition only_invalid :: "Line \<Rightarrow> bool" where
  "only_invalid l = (case Line_Arg l ''connection-state'' of None \<Rightarrow> False | Some v \<Rightarrow> Literal v = Some ''invalid'')"

definition firewall_findings :: "unicode \<Rightarrow> LiveContext \<Rightarrow> Line \<Rightarrow> Finding list" where
  "firewall_findings uni ctx l =
     (case golookup firewallInput (Path l) of
        None \<Rightarrow> []
      | Some chain \<Rightarrow>
          if ln_Verb l = ''add'' \<and> may l ''chain'' chain \<and> (may l ''action'' ''drop'' \<or> may l ''action'' ''reject'' \<or> may l ''action'' ''tarpit'')
          then let rule = dropped_rule l chain
               in if Disabled rule \<or> only_invalid l then []
                  else if cx_Addresses (FW ctx) = [] then [found l Ack ''lockout-unknown'' ''address not known'']
                  else if \<not> cx_Resolved (FW ctx) \<and> InInterface rule \<noteq> [] then [found l Ack ''lockout-unknown'' ''arrives over a route'']
                  else if MatchesUs uni rule (FW ctx) then [found l Ack ''lockout-firewall'' ''can match our own connection'']
                  else []
          else [])"

definition service_findings :: "LiveContext \<Rightarrow> Line \<Rightarrow> Finding list" where
  "service_findings ctx l =
     (if Path l = ''/ip/service'' \<and> (ln_Verb l = ''set'' \<or> ln_Verb l = ''disable'')
      then let disabling = (ln_Verb l = ''disable'' \<or> may l ''disabled'' ''yes'');
               ours = (case findName l of None \<Rightarrow> True | Some n \<Rightarrow> n = APIService ctx)
           in if ours \<and> disabling then [found l Refuse ''own-service'' ''this disables the service we use'']
              else if ours \<and> movesPort l (APIPort (FW ctx)) then [found l Refuse ''own-service'' ''this moves the service we use'']
              else if ours \<and> has l ''address'' then [found l Ack ''own-service-address'' ''this restricts where it may be reached from'']
              else if (case findName l of None \<Rightarrow> False | Some n \<Rightarrow> n \<in> set recoveryServices) \<and> disabling
              then [found l Ack ''recovery-path'' ''one fewer way back in'']
              else []
      else [])"

definition bridge_findings :: "Line \<Rightarrow> Finding list" where
  "bridge_findings l =
     (if Path l = ''/interface/bridge'' \<and> ln_Verb l = ''set'' \<and> may l ''vlan-filtering'' ''yes''
      then [found l Ack ''vlan-filtering'' ''turning on VLAN filtering''] else []) @
     (if Path l = ''/interface/bridge/port'' \<and> (ln_Verb l = ''set'' \<or> ln_Verb l = ''add'') \<and> has l ''pvid''
      then [found l Ack ''lockout-port-vlan'' ''this moves a port into another VLAN''] else [])"

definition path_findings :: "LiveContext \<Rightarrow> Line \<Rightarrow> Finding list" where
  "path_findings ctx l =
     (if has_prefix (Path l) ''/interface'' \<and> (ln_Verb l = ''disable'' \<or> ln_Verb l = ''set'' \<and> may l ''disabled'' ''yes'') \<and>
         (case findName l of None \<Rightarrow> True | Some n \<Rightarrow> n \<in> set (cx_Interfaces (FW ctx)) \<or> \<not> cx_Resolved (FW ctx))
      then [found l Ack ''lockout-interface'' ''this disables an interface we may arrive on''] else []) @
     (if Path l = ''/ip/address'' \<and> (ln_Verb l = ''remove'' \<or> ln_Verb l = ''disable'')
      then [found l Ack ''lockout-address'' ''this can remove the address we arrive on''] else []) @
     (if (Path l = ''/ip/route'' \<or> Path l = ''/routing/rule'') \<and> (ln_Verb l = ''remove'' \<or> ln_Verb l = ''disable'' \<or> ln_Verb l = ''add'')
      then [found l Ack ''lockout-route'' ''a routing change''] else [])"

definition line_findings :: "unicode \<Rightarrow> LiveContext \<Rightarrow> Line \<Rightarrow> Finding list" where
  "line_findings uni ctx l = firewall_findings uni ctx l @ service_findings ctx l @ bridge_findings l @ path_findings ctx l"

text \<open>Insertion sort by line keeps the order within a line, as the stable sort of the source does.\<close>

definition AnalyzeLive :: "unicode \<Rightarrow> Template \<Rightarrow> LiveContext \<Rightarrow> Finding list" where
  "AnalyzeLive uni t ctx = sort_key fd_Line (concat (map (line_findings uni ctx) (Lines t)))"

section \<open>An unknown value is read as the dangerous one\<close>

lemma matches_nothing [simp]: "AddressCovers [] as = (True, True)" "protocol_matches uni []" "port_matches [] p" "interface_matches uni [] is"
  by (simp_all add: AddressCovers_def protocol_matches_def port_matches_def interface_matches_def negated_def PortCovers_def ToLower_def is_ascii_def)

lemma MatchesUs_blanked:
  assumes "MatchesUs uni r ctx" "SrcAddress q \<in> {[], SrcAddress r}" "Protocol q \<in> {[], Protocol r}" "DstPort q \<in> {[], DstPort r}" "InInterface q \<in> {[], InInterface r}"
  shows "MatchesUs uni q ctx"
  using assms by (auto simp: MatchesUs_def split: if_splits)

lemma filled_literal: "fill_value vals v = Gives x \<Longrightarrow> Literal x \<noteq> None \<and> (Literal v = Some s \<longrightarrow> Literal x = Some s)"
  by (auto simp: fill_value_def Literal_def split: if_splits)

lemma find_map: "find P (map f xs) = map_option f (find (P \<circ> f) xs)"
  by (induction xs) auto

text \<open>A line and the same line filled.\<close>

lemma fill_line_fields: "fill_line vals l = Gives x \<Longrightarrow> Num x = Num l \<and> Menu x = Menu l \<and> ln_Verb x = ln_Verb l"
  by (auto simp: fill_line_def and_then_Gives)

lemma fill_line_args:
  assumes "fill_line vals l = Gives x"
  shows "Args x = map (\<lambda>a. a\<lparr>arg_Value := filled vals (arg_Value a)\<rparr>) (Args l)" "Find x = map (\<lambda>a. a\<lparr>arg_Value := filled vals (arg_Value a)\<rparr>) (Find l)"
  using assms fill_args_filled by (auto simp: fill_line_def and_then_Gives)

lemma fill_literal:
  assumes "fill_line vals l = Gives x" "v \<in> set (line_values l)"
  shows "Literal (filled vals v) \<noteq> None" "Literal v = Some s \<Longrightarrow> Literal (filled vals v) = Some s"
  using fill_line_filled(1) [OF assms(1)] assms(2) filled_literal by blast+

lemma Line_Arg_filled: "fill_line vals l = Gives x \<Longrightarrow> Line_Arg x n = map_option (filled vals) (Line_Arg l n)"
  by (simp add: Line_Arg_def fill_line_args find_map comp_def option.map_comp)

lemma Line_Arg_value: "Line_Arg l n = Some v \<Longrightarrow> v \<in> set (line_values l)"
proof -
  assume "Line_Arg l n = Some v"
  then obtain a where "find (\<lambda>a. arg_Name a = n) (Args l) = Some a" "v = arg_Value a" by (auto simp: Line_Arg_def)
  then have "a \<in> set (Args l)" by (auto simp: find_Some_iff)
  then show ?thesis using \<open>v = arg_Value a\<close> by (simp add: line_values_def)
qed

lemma arg_cases:
  assumes "fill_line vals l = Gives x"
  obtains "Line_Arg l n = None" "Line_Arg x n = None"
  | v s where "Line_Arg l n = Some v" "Line_Arg x n = Some (filled vals v)" "Literal (filled vals v) = Some s" "Literal v = None \<or> Literal v = Some s"
proof (cases "Line_Arg l n")
  case None
  then show ?thesis using that(1) Line_Arg_filled [OF assms, of n] by simp
next
  case (Some v)
  note lit = fill_literal [OF assms Line_Arg_value [OF Some]]
  obtain s where "Literal (filled vals v) = Some s" using lit(1) by blast
  then show ?thesis using that(2) Some Line_Arg_filled [OF assms, of n] lit(2) by (cases "Literal v") simp_all
qed

lemma may_filled: "fill_line vals l = Gives x \<Longrightarrow> may x n w \<Longrightarrow> may l n w"
  by (erule arg_cases [where n = n]) (auto simp: may_def)

lemma has_filled: "fill_line vals l = Gives x \<Longrightarrow> has x n \<longleftrightarrow> has l n"
  by (simp add: has_def Line_Arg_filled)

lemma movesPort_filled: "fill_line vals l = Gives x \<Longrightarrow> movesPort x p \<Longrightarrow> movesPort l p"
  by (erule arg_cases [where n = "''port''"]) (auto simp: movesPort_def)

lemma arg_filled: "fill_line vals l = Gives x \<Longrightarrow> arg l n \<in> {[], arg x n}"
  by (erule arg_cases [where n = n]) (auto simp: arg_def)

lemma only_invalid_filled: "fill_line vals l = Gives x \<Longrightarrow> only_invalid l \<Longrightarrow> only_invalid x"
  by (erule arg_cases [where n = "''connection-state''"]) (auto simp: only_invalid_def)

lemma findName_filled: "fill_line vals l = Gives x \<Longrightarrow> findName l = None \<or> findName l = findName x"
proof (cases "find (\<lambda>a. arg_Name a = ''name'') (Find l)")
  case None
  then show ?thesis by (simp add: findName_def)
next
  case (Some a)
  assume fills: "fill_line vals l = Gives x"
  have "arg_Value a \<in> set (line_values l)" using Some by (auto simp: find_Some_iff line_values_def)
  moreover have "findName x = Literal (filled vals (arg_Value a))" using Some by (simp add: findName_def fill_line_args [OF fills] find_map comp_def)
  ultimately show ?thesis using fill_literal(2) [OF fills] Some by (cases "Literal (arg_Value a)") (simp_all add: findName_def)
qed

text \<open>A finding that another one covers: on the same line, and at least as serious.\<close>

definition lockCodes :: "string list" where
  "lockCodes =
     [''lockout-firewall'', ''lockout-unknown'', ''own-service-address'', ''vlan-filtering'', ''lockout-interface'', ''lockout-address'',
      ''lockout-route'', ''lockout-port-vlan'']"

definition covers :: "Finding \<Rightarrow> Finding \<Rightarrow> bool" where
  "covers g f \<longleftrightarrow> fd_Line g = fd_Line f \<and> rank (Level f) \<le> rank (Level g) \<and> (Code f \<in> set lockCodes \<longrightarrow> Code g \<in> set lockCodes \<or> Level g = Refuse)"

definition covered :: "Finding list \<Rightarrow> Finding list \<Rightarrow> bool" where
  "covered gs fs \<longleftrightarrow> (\<forall>f\<in>set fs. \<exists>g\<in>set gs. covers g f)"

lemma covered_append: "covered a b \<Longrightarrow> covered c d \<Longrightarrow> covered (a @ c) (b @ d)"
  unfolding covered_def by fastforce

lemma covered_Nil [simp]: "covered gs []"
  by (simp add: covered_def)

lemma covered_if: "(P \<Longrightarrow> Q) \<Longrightarrow> covers g f \<Longrightarrow> covered (if Q then [g] else []) (if P then [f] else [])"
  by (auto simp: covered_def)

lemma covers_same: "Num x = Num l \<Longrightarrow> covers (found l v c m) (found x v c m)"
  by (simp add: covers_def found_def)

lemma firewall_covered:
  assumes fills: "fill_line vals l = Gives x" and ctx: "cx_Resolved (FW ctx) \<or> cx_Addresses (FW ctx) = []"
  shows "covered (firewall_findings uni ctx l) (firewall_findings uni ctx x)"
proof (cases "firewall_findings uni ctx x = []")
  case False
  note same = fill_line_fields [OF fills]
  have path: "Path x = Path l" using same by (simp add: Path_def)
  obtain chain where c: "golookup firewallInput (Path x) = Some chain" "ln_Verb x = ''add''" "may x ''chain'' chain"
    "may x ''action'' ''drop'' \<or> may x ''action'' ''reject'' \<or> may x ''action'' ''tarpit''"
    using False by (auto simp: firewall_findings_def split: option.splits if_splits)
  have d: "\<not> Disabled (dropped_rule x chain)" "\<not> only_invalid x"
    using False c by (auto simp: firewall_findings_def Let_def)
  have l: "golookup firewallInput (Path l) = Some chain" "ln_Verb l = ''add''" "may l ''chain'' chain"
    "may l ''action'' ''drop'' \<or> may l ''action'' ''reject'' \<or> may l ''action'' ''tarpit''"
    using c path same may_filled [OF fills] by auto
  have "arg x ''disabled'' \<noteq> ''yes''" using d(1) by (simp add: dropped_rule_def)
  then have "arg l ''disabled'' \<noteq> ''yes''" using arg_filled [OF fills, of "''disabled''"] by auto
  then have dl: "\<not> Disabled (dropped_rule l chain)" "\<not> only_invalid l"
    using d(2) only_invalid_filled [OF fills] by (auto simp: dropped_rule_def)
  have m: "MatchesUs uni (dropped_rule x chain) (FW ctx) \<Longrightarrow> MatchesUs uni (dropped_rule l chain) (FW ctx)"
    by (erule MatchesUs_blanked) (simp_all only: dropped_rule_def FWRule.simps arg_filled [OF fills])
  show ?thesis using c d l dl m ctx same
    by (auto simp: firewall_findings_def Let_def covered_def covers_def found_def lockCodes_def)
qed simp

lemma service_covered:
  assumes fills: "fill_line vals l = Gives x"
  shows "covered (service_findings ctx l) (service_findings ctx x)"
proof -
  note same = fill_line_fields [OF fills]
  have path: "Path x = Path l" using same by (simp add: Path_def)
  have m: "may x ''disabled'' ''yes'' \<Longrightarrow> may l ''disabled'' ''yes''" "movesPort x p \<Longrightarrow> movesPort l p" "has x ''address'' \<longleftrightarrow> has l ''address''" for p
    using may_filled movesPort_filled has_filled fills by blast+
  show ?thesis
  proof (cases "findName l")
    case None
    then show ?thesis using m same path
      by (auto simp: service_findings_def Let_def covered_def covers_def found_def lockCodes_def rank_def split: option.splits if_splits)
  next
    case (Some n)
    then have "findName x = Some n" using findName_filled [OF fills] by simp
    then show ?thesis using Some m same path
      by (auto simp: service_findings_def Let_def covered_def covers_def found_def lockCodes_def rank_def)
  qed
qed

lemma other_covered:
  assumes fills: "fill_line vals l = Gives x"
  shows "covered (bridge_findings l) (bridge_findings x)" "covered (path_findings ctx l) (path_findings ctx x)"
proof -
  note same = fill_line_fields [OF fills]
  have path: "Path x = Path l" using same by (simp add: Path_def)
  have m: "may x n w \<Longrightarrow> may l n w" "has x n \<longleftrightarrow> has l n" for n w using may_filled has_filled fills by blast+
  have same_line: "covers (found l v c msg) (found x v c msg)" for v c msg using same covers_same by simp
  show "covered (bridge_findings l) (bridge_findings x)"
    unfolding bridge_findings_def using m same path by (intro covered_append covered_if same_line) auto
  have nm: "(case findName x of None \<Rightarrow> True | Some n \<Rightarrow> P n) \<Longrightarrow> (case findName l of None \<Rightarrow> True | Some n \<Rightarrow> P n)" for P
    using findName_filled [OF fills] by (auto split: option.splits)
  show "covered (path_findings ctx l) (path_findings ctx x)"
    unfolding path_findings_def using m same path nm by (intro covered_append covered_if same_line) auto
qed

text \<open>
  C9. Filling a template in never makes it look more dangerous than it looked with its placeholders: every finding on the
  filled template is covered by a finding on the unfilled one - on the same line, at least as serious, and one that arms
  the dead-man if the other does - against any router whose interfaces are known, or of which nothing is known. So an
  unknown name, address or switch is read in the direction that flags.
\<close>
theorem unknown_is_flagged:
  assumes "Fill t vals = Gives u" "cx_Resolved (FW ctx) \<or> cx_Addresses (FW ctx) = []" "f \<in> set (AnalyzeLive uni u ctx)"
  shows "\<exists>g\<in>set (AnalyzeLive uni t ctx). covers g f"
proof -
  obtain us where us: "fill_lines vals (Lines t) = Gives us" "Lines u = us" using assms(1) by (auto simp: Fill_def)
  have step: "covered (line_findings uni ctx l) (line_findings uni ctx x)" if "fill_line vals l = Gives x" for l x
    unfolding line_findings_def using firewall_covered [OF that assms(2)] service_covered [OF that] other_covered [OF that] by (intro covered_append)
  have "list_all2 (\<lambda>l x. fill_line vals l = Gives x) ls xs \<Longrightarrow>
      covered (concat (map (line_findings uni ctx) ls)) (concat (map (line_findings uni ctx) xs))" for ls xs
    by (induction rule: list_all2_induct) (simp_all add: covered_append step)
  then have "covered (AnalyzeLive uni t ctx) (AnalyzeLive uni u ctx)"
    using fill_lines_all2 [OF us(1)] us(2) by (simp add: AnalyzeLive_def covered_def)
  then show ?thesis using assms(3) by (simp add: covered_def)
qed

definition parsed :: "string list \<Rightarrow> Template" where
  "parsed ls = (case Parse (unlines ls) of Gives t \<Rightarrow> t | _ \<Rightarrow> \<lparr>Lines = []\<rparr>)"

definition live_example :: Template where
  "live_example = parsed [''/ip service'', ''set [ find name={{svc}} ] disabled=yes'']"

definition live_router :: LiveContext where
  "live_router = \<lparr>FW = \<lparr>cx_Resolved = True, cx_Addresses = [''10.0.0.9''], cx_Interfaces = [''ether1''], APIPort = 87\<rparr>, APIService = ''api''\<rparr>"

theorem unknown_is_flagged_witness:
  "AnalyzeLive id (case Fill live_example [(''svc'', ''api'')] of Gives u \<Rightarrow> u | _ \<Rightarrow> live_example) live_router =
      [\<lparr>Level = Refuse, Code = ''own-service'', fd_Line = 2, Message = ''this disables the service we use''\<rparr>] \<and>
   (\<exists>g\<in>set (AnalyzeLive id live_example live_router).
      covers g \<lparr>Level = Refuse, Code = ''own-service'', fd_Line = 2, Message = ''this disables the service we use''\<rparr>)"
proof -
  define u where "u = (case Fill live_example [(''svc'', ''api'')] of Gives u \<Rightarrow> u | _ \<Rightarrow> live_example)"
  have "case Fill live_example [(''svc'', ''api'')] of Gives u \<Rightarrow> True | _ \<Rightarrow> False" by code_simp
  then have u: "Fill live_example [(''svc'', ''api'')] = Gives u" by (simp add: u_def split: outcome.splits)
  have f: "AnalyzeLive id (case Fill live_example [(''svc'', ''api'')] of Gives u \<Rightarrow> u | _ \<Rightarrow> live_example) live_router =
      [\<lparr>Level = Refuse, Code = ''own-service'', fd_Line = 2, Message = ''this disables the service we use''\<rparr>]"
    by code_simp
  have "cx_Resolved (FW live_router) \<or> cx_Addresses (FW live_router) = []" by (simp add: live_router_def)
  from unknown_is_flagged [OF u this, of _ id] f show ?thesis by (simp add: u_def)
qed

text \<open>
  With the addresses known and the interfaces not, an unknown interface is not read as the dangerous one: the same line is
  flagged once \<open>wan\<close> is filled in.
\<close>

definition routed_router :: LiveContext where
  "routed_router = \<lparr>FW = \<lparr>cx_Resolved = False, cx_Addresses = [''10.0.0.9''], cx_Interfaces = [], APIPort = 87\<rparr>, APIService = ''api''\<rparr>"

lemma unknown_interface_passes:
  "AnalyzeLive id (parsed [''/ip firewall filter'', ''add chain=input action=drop protocol=udp in-interface={{wan}}'']) routed_router = [] \<and>
   map Code (AnalyzeLive id (parsed [''/ip firewall filter'', ''add chain=input action=drop protocol=udp in-interface=ether1'']) routed_router) =
     [''lockout-unknown'']"
  by code_simp

text \<open>Only rules that are added are judged: an edit that turns the accepting rule into a drop has no finding.\<close>

lemma edited_rule_passes:
  "AnalyzeLive id (parsed [''/ip firewall filter'', ''set [ find chain=input ] action=drop'', ''enable [ find action=drop ]'']) live_router = [] \<and>
   map Code (AnalyzeLive id (parsed [''/ip firewall filter'', ''add chain=input action=drop'']) live_router) = [''lockout-firewall'']"
  by code_simp

end
