(* ===== verification/Tpl_Analyze.thy ===== *)
theory Tpl_Analyze
  imports Tpl_Live
begin

text \<open>
  What a template does, before any router is looked at (\<^verbatim>\<open>internal/cfgtpl/analyze.go\<close>, \<open>Analyze\<close>). The registry of
  resource pages (\<^verbatim>\<open>internal/resource\<close>) is an argument: for each menu, its fields, and which of them are code or
  secrets.
\<close>

record Field =
  ROS :: string
  is_Code :: bool
  is_Secret :: bool

type_synonym registry = "(string, Field list) gomap"

definition Additions :: string where "Additions = ''additions''"
definition Full :: string where "Full = ''full''"
definition Shipped :: string where "Shipped = ''shipped''"

text \<open>A menu that is dangerous to configure: its path, why, and whether a whole export or a shipped template may carry it.\<close>

definition refusedMenus :: "(string \<times> string \<times> bool \<times> bool) list" where
  "refusedMenus =
     [(''/system/script'', ''a script is code'', True, True),
      (''/system/scheduler'', ''a scheduler entry runs code on a timer'', True, True),
      (''/certificate'', ''certificates carry private keys'', True, False),
      (''/file'', ''files are not configuration'', False, False),
      (''/disk'', ''disks and swap files are storage'', True, False),
      (''/container'', ''a container runs an image'', True, False),
      (''/tool/netwatch'', ''netwatch entries run scripts'', True, False),
      (''/user/ssh-keys'', ''SSH keys are credentials'', False, False),
      (''/user/group'', ''user groups decide who may do what'', True, False),
      (''/user/aaa'', ''RADIUS login decides whether anyone can sign in'', True, False)]"

definition userMenu :: string where "userMenu = ''/user''"

definition extraMenus :: "string list" where
  "extraMenus =
     [''/ip/dns'', ''/ip/dns/static'', ''/ip/settings'', ''/ipv6/settings'', ''/ipv6/firewall/address-list'', ''/system/identity'',
      ''/system/ntp/server'', ''/queue/type'', ''/ip/upnp'', ''/ip/proxy'', ''/ip/socks'', ''/ip/cloud'', ''/ip/ssh'',
      ''/ip/neighbor/discovery-settings'', ''/tool/mac-server'', ''/tool/mac-server/mac-winbox'', ''/tool/mac-server/ping'',
      ''/tool/bandwidth-server'', ''/tool/romon'', ''/user/settings'', ''/interface/bridge/vlan'']"

definition KnownMenu :: "registry \<Rightarrow> string \<Rightarrow> bool" where
  "KnownMenu reg menu \<longleftrightarrow> golookup reg menu \<noteq> None \<or> menu \<in> set extraMenus"

definition in_menu :: "string \<Rightarrow> string \<Rightarrow> bool" where
  "in_menu menu p \<longleftrightarrow> menu = p \<or> has_prefix menu (p @ ''/'')"

definition RefusedMenu :: "string \<Rightarrow> bool" where
  "RefusedMenu menu \<longleftrightarrow> menu = userMenu \<or> list_ex (\<lambda>(p, _). in_menu menu p) refusedMenus"

definition CaptureMenus :: "registry \<Rightarrow> string list" where
  "CaptureMenus reg = sort (filter (\<lambda>m. \<not> RefusedMenu m) (gokeys reg) @ filter (\<lambda>m. \<not> RefusedMenu m) extraMenus)"

definition fieldByROS :: "Field list \<Rightarrow> string \<Rightarrow> Field option" where
  "fieldByROS fs n = find (\<lambda>f. ROS f = n) fs"

definition checkField :: "Line \<Rightarrow> Field list \<Rightarrow> string \<Rightarrow> bool \<Rightarrow> Arg \<Rightarrow> Finding list" where
  "checkField l fs profile shipped a =
     (case fieldByROS fs (arg_Name a) of
        None \<Rightarrow> []
      | Some f \<Rightarrow>
          (if is_Code f then [found l (if profile = Full \<or> shipped then Ack else Refuse) ''code-field'' ''this field is code''] else []) @
          (if is_Secret f \<and> Value_Var (arg_Value a) = None then [found l Warn ''literal-secret'' ''a credential written into the template''] else []))"

definition checkFields :: "Line \<Rightarrow> Field list option \<Rightarrow> string \<Rightarrow> bool \<Rightarrow> Finding list" where
  "checkFields l res profile shipped =
     (case res of None \<Rightarrow> [] | Some fs \<Rightarrow> concat (map (checkField l fs profile shipped) (Args l)))"

definition menu_findings :: "Line \<Rightarrow> string \<Rightarrow> bool \<Rightarrow> Finding list" where
  "menu_findings l profile shipped =
     (case find (\<lambda>(p, _). in_menu (Path l) p) refusedMenus of
        None \<Rightarrow> []
      | Some (_, why, fullAck, shippedAck) \<Rightarrow>
          [found l (if profile = Full \<and> fullAck \<or> shipped \<and> shippedAck then Ack else Refuse) ''menu'' why]) @
     (if Path l = userMenu then [found l (if profile = Full then Ack else Refuse) ''users'' ''accounts''] else [])"

definition selector_findings :: "Line \<Rightarrow> string \<Rightarrow> Finding list" where
  "selector_findings l profile =
     (if Pos l \<noteq> [] \<and> profile = Additions then [found l Refuse ''positional'' ''a row number''] else []) @
     (if ln_Verb l \<in> {''remove'', ''enable'', ''disable'', ''unset''} \<and> \<not> HasFind l \<and> Pos l = []
      then [found l Refuse ''no-selector'' ''names no row''] else []) @
     (if HasFind l \<and> Find l = [] then [found l Ack ''every-row'' ''changes every row''] else [])"

definition analyze_line :: "registry \<Rightarrow> string \<Rightarrow> bool \<Rightarrow> Line \<Rightarrow> Finding list" where
  "analyze_line reg profile shipped l =
     (let menus = menu_findings l profile shipped
      in menus @ checkFields l (golookup reg (Path l)) profile shipped @
         (if menus \<noteq> [] then []
          else if profile = Additions \<and> \<not> KnownMenu reg (Path l) then [found l Refuse ''unknown-menu'' ''not a known menu'']
          else selector_findings l profile))"

definition Analyze :: "registry \<Rightarrow> Template \<Rightarrow> string \<Rightarrow> Finding list" where
  "Analyze reg t profile =
     (let shipped = (profile = Shipped); p = (if shipped then Additions else profile)
      in concat (map (analyze_line reg p shipped) (Lines t)))"

end
