(* ===== verification/Deploy_Env.thy ===== *)
theory Deploy_Env
  imports Import_Reply Tpl_Ensure Tpl_Analyze Diff
begin

text \<open>
  A router that is being deployed to, and the helpers a deploy works it with: the environment of
  \<^verbatim>\<open>internal/cfgdeploy/deploy.go\<close> and the file helpers of \<^verbatim>\<open>internal/backups\<close> it borrows. The router, the clock and the
  source of random bytes are functions on a world the model knows nothing of; every call is kept in a trace, in order.
  Times and durations are in nanoseconds. A loop that waits for a time may not end; that is \<open>None\<close>.
\<close>

section \<open>The environment\<close>

record Cmd =
  cmd_Path :: string
  cmd_Args :: "string list"
  cmd_Timeout :: int

datatype do_error = Trap string string | Failed string

definition err_text :: "do_error \<Rightarrow> string" where
  "err_text e = (case e of
      Trap msg cat \<Rightarrow> ''routeros: '' @ msg @ (if cat = [] then [] else '' (category '' @ cat @ '')'')
    | Failed s \<Rightarrow> s)"

text \<open>The rows of a reply, and the words of its \<open>!done\<close>.\<close>

record answer =
  an_rows :: "row list"
  an_done :: row

record Identity =
  id_Board :: string
  id_Serial :: string
  id_OSVersion :: string
  Uptime :: int

record 'w Env =
  Do :: "Cmd \<Rightarrow> 'w \<Rightarrow> (do_error + answer) \<times> 'w"
  Fresh :: "'w \<Rightarrow> (string + Identity) \<times> 'w"
  TakeBackup :: "'w \<Rightarrow> (string + int) \<times> 'w"
  Now :: "'w \<Rightarrow> int \<times> 'w"
  Sleep :: "int \<Rightarrow> 'w \<Rightarrow> 'w"
  Rand :: "nat \<Rightarrow> 'w \<Rightarrow> (string + char list) \<times> 'w"

datatype event =
    Sent Cmd "do_error + answer"
  | Tried "string + Identity"
  | Saved "string + int"
  | Told string

record 'w machine =
  world :: 'w
  trace :: "event list"

definition send :: "'w Env \<Rightarrow> Cmd \<Rightarrow> 'w machine \<Rightarrow> (do_error + answer) \<times> 'w machine" where
  "send env c m = (case Do env c (world m) of (a, w) \<Rightarrow> (a, \<lparr>world = w, trace = trace m @ [Sent c a]\<rparr>))"

definition log_in :: "'w Env \<Rightarrow> 'w machine \<Rightarrow> (string + Identity) \<times> 'w machine" where
  "log_in env m = (case Fresh env (world m) of (a, w) \<Rightarrow> (a, \<lparr>world = w, trace = trace m @ [Tried a]\<rparr>))"

definition take_backup :: "'w Env \<Rightarrow> 'w machine \<Rightarrow> (string + int) \<times> 'w machine" where
  "take_backup env m = (case TakeBackup env (world m) of (a, w) \<Rightarrow> (a, \<lparr>world = w, trace = trace m @ [Saved a]\<rparr>))"

definition now :: "'w Env \<Rightarrow> 'w machine \<Rightarrow> int \<times> 'w machine" where
  "now env m = (case Now env (world m) of (t, w) \<Rightarrow> (t, m\<lparr>world := w\<rparr>))"

definition pause :: "'w Env \<Rightarrow> int \<Rightarrow> 'w machine \<Rightarrow> 'w machine" where
  "pause env d m = m\<lparr>world := Sleep env d (world m)\<rparr>"

definition random_bytes :: "'w Env \<Rightarrow> nat \<Rightarrow> 'w machine \<Rightarrow> (string + char list) \<times> 'w machine" where
  "random_bytes env n m = (case Rand env n (world m) of (b, w) \<Rightarrow> (b, m\<lparr>world := w\<rparr>))"

definition step :: "string \<Rightarrow> 'w machine \<Rightarrow> 'w machine" where
  "step s m = m\<lparr>trace := trace m @ [Told s]\<rparr>"

definition second :: int where "second = 10 ^ 9"
definition minute :: int where "minute = 60 * second"

section \<open>Files on the router\<close>

type_synonym 'w writer = "string \<Rightarrow> string list \<Rightarrow> 'w machine \<Rightarrow> (do_error + row list) \<times> 'w machine"

definition writer :: "'w Env \<Rightarrow> int \<Rightarrow> 'w writer" where
  "writer env timeout path args m =
     (case send env \<lparr>cmd_Path = path, cmd_Args = args, cmd_Timeout = timeout\<rparr> m of
        (a, m) \<Rightarrow> (map_sum id an_rows a, m))"

definition atoiOr :: "string \<Rightarrow> int \<Rightarrow> int" where
  "atoiOr s fallback = (case Atoi (TrimSpace s) of Some n \<Rightarrow> n | None \<Rightarrow> fallback)"

fun remove_files :: "'w writer \<Rightarrow> (string \<Rightarrow> bool) \<Rightarrow> row list \<Rightarrow> 'w machine \<Rightarrow> nat \<times> 'w machine" where
  "remove_files w own [] m = (0, m)"
| "remove_files w own (r # rs) m =
     (if \<not> own (cell r ''name'') then remove_files w own rs m
      else case w ''/file/remove'' [''=numbers='' @ cell r ''name''] m of
             (a, m) \<Rightarrow> (case remove_files w own rs m of (n, m) \<Rightarrow> (case a of Inl _ \<Rightarrow> n | Inr _ \<Rightarrow> n + 1, m)))"

definition Sweep :: "'w writer \<Rightarrow> (string \<Rightarrow> bool) \<Rightarrow> 'w machine \<Rightarrow> nat \<times> 'w machine" where
  "Sweep w own m =
     (case w ''/file/print'' [''=.proplist=name''] m of (Inl _, m) \<Rightarrow> (0, m) | (Inr rows, m) \<Rightarrow> remove_files w own rows m)"

definition size_in :: "string \<Rightarrow> row list \<Rightarrow> int" where
  "size_in name rows = (case find (\<lambda>r. cell r ''name'' = name) rows of None \<Rightarrow> -1 | Some r \<Rightarrow> atoiOr (cell r ''size'') (-1))"

partial_function (option) settle_loop ::
  "'w Env \<Rightarrow> 'w writer \<Rightarrow> string \<Rightarrow> int \<Rightarrow> int \<Rightarrow> nat \<Rightarrow> 'w machine \<Rightarrow> ((string + int) \<times> 'w machine) option" where
  "settle_loop env w name deadline prev repeats m =
     (case now env m of (t, m) \<Rightarrow>
        if \<not> t < deadline then Some (Inl (''timed out waiting for '' @ name), m)
        else case w ''/file/print'' [''=.proplist=name,size''] m of (a, m) \<Rightarrow>
          (case a of
             Inl e \<Rightarrow> Some (Inl (err_text e), m)
           | Inr rows \<Rightarrow>
               (let size = size_in name rows; same = (0 < size \<and> size = prev); n = (if same then repeats + 1 else 0)
                in if same \<and> 2 \<le> n then Some (Inr size, m)
                   else settle_loop env w name deadline size n (pause env (300 * 10 ^ 6) m))))"

declare settle_loop.simps [code]

definition Settled :: "'w Env \<Rightarrow> 'w writer \<Rightarrow> string \<Rightarrow> int \<Rightarrow> 'w machine \<Rightarrow> ((string + int) \<times> 'w machine) option" where
  "Settled env w name timeout m = (case now env m of (t, m) \<Rightarrow> settle_loop env w name (t + timeout) (-1) 0 m)"

definition chunkSize :: int where "chunkSize = 32768"

definition read_chunk :: "'w writer \<Rightarrow> string \<Rightarrow> int \<Rightarrow> 'w machine \<Rightarrow> (do_error + string option) \<times> 'w machine" where
  "read_chunk w name off m =
     (case w ''/file/read'' [''=file='' @ name, ''=offset='' @ Itoa off, ''=chunk-size='' @ Itoa chunkSize] m of (a, m) \<Rightarrow>
        (map_sum id (\<lambda>rows. case rows of [] \<Rightarrow> None | r # _ \<Rightarrow> golookup r ''data'') a, m))"

text \<open>Every chunk that is taken moves the offset, so the loop ends.\<close>

function read_loop :: "'w writer \<Rightarrow> string \<Rightarrow> int \<Rightarrow> int \<Rightarrow> string \<Rightarrow> 'w machine \<Rightarrow> (string + string) \<times> 'w machine" where
  "read_loop w name len off got m =
     (if off < len
      then case read_chunk w name off m of (a, m1) \<Rightarrow>
        (case a of
           Inl e \<Rightarrow> (Inl (err_text e), m1)
         | Inr d \<Rightarrow>
             (let data = (case d of None \<Rightarrow> [] | Some x \<Rightarrow> x)
              in if data = [] then (if int (length got) = len then Inr got else Inl (''read of '' @ name @ '' is short''), m1)
                 else read_loop w name len (off + int (length data)) (got @ data) m1))
      else (if int (length got) = len then Inr got else Inl (''read of '' @ name @ '' is short''), m))"
  by pat_completeness auto
termination
  by (relation "measure (\<lambda>(w, name, len, off, got, m). nat (len - off))") auto

declare read_loop.simps [simp del]

definition ReadRouterFile :: "'w writer \<Rightarrow> string \<Rightarrow> int \<Rightarrow> 'w machine \<Rightarrow> (string + string) \<times> 'w machine" where
  "ReadRouterFile w name len m = read_loop w name len 0 [] m"

definition settleTimeout :: int where "settleTimeout = 60 * second"

definition ExportText :: "'w Env \<Rightarrow> 'w writer \<Rightarrow> string \<Rightarrow> string \<Rightarrow> 'w machine \<Rightarrow> ((string + string) \<times> 'w machine) option" where
  "ExportText env w path base m =
     (case w path [''=file='' @ base] m of (a, m) \<Rightarrow>
        (case a of
           Inl e \<Rightarrow> Some (Inl (err_text e), m)
         | Inr _ \<Rightarrow>
             do { (s, m) \<leftarrow> Settled env w (base @ ''.rsc'') settleTimeout m;
                  (case s of
                     Inl e \<Rightarrow> Some (Inl e, m)
                   | Inr k \<Rightarrow> Some (ReadRouterFile w (base @ ''.rsc'') k m)) }))"

section \<open>The helpers of a deploy\<close>

definition NewBaseName :: "'w Env \<Rightarrow> 'w machine \<Rightarrow> (string + string) \<times> 'w machine" where
  "NewBaseName env m = (case random_bytes env 8 m of (b, m) \<Rightarrow> (map_sum id (\<lambda>bs. FilePrefix @ EncodeToString bs) b, m))"

definition NewFileName :: "'w Env \<Rightarrow> 'w machine \<Rightarrow> (string + string) \<times> 'w machine" where
  "NewFileName env m = (case NewBaseName env m of (b, m) \<Rightarrow> (map_sum id (\<lambda>n. n @ ''.rsc'') b, m))"

fun remove_schedulers :: "'w Env \<Rightarrow> row list \<Rightarrow> 'w machine \<Rightarrow> 'w machine" where
  "remove_schedulers env [] m = m"
| "remove_schedulers env (r # rs) m =
     remove_schedulers env rs
       (if IsOurScheduler (cell r ''name'')
        then snd (send env \<lparr>cmd_Path = ''/system/scheduler/remove'', cmd_Args = [''=.id='' @ cell r ''.id''], cmd_Timeout = 15 * second\<rparr> m)
        else m)"

definition sweep :: "'w Env \<Rightarrow> 'w machine \<Rightarrow> 'w machine" where
  "sweep env m =
     (case Sweep (writer env (15 * second)) IsOurFile m of (_, m) \<Rightarrow>
      case send env \<lparr>cmd_Path = ''/system/scheduler/print'', cmd_Args = [''=.proplist=.id,name''], cmd_Timeout = 15 * second\<rparr> m of (a, m) \<Rightarrow>
        (case a of Inl _ \<Rightarrow> m | Inr r \<Rightarrow> remove_schedulers env (an_rows r) m))"

definition ShortVersion :: "string \<Rightarrow> string" where
  "ShortVersion v = takeWhile (\<lambda>c. c \<noteq> CHR '' '') v"

definition ReadIdentity :: "'w Env \<Rightarrow> 'w machine \<Rightarrow> (string + Identity) \<times> 'w machine" where
  "ReadIdentity env m =
     (case send env \<lparr>cmd_Path = ''/system/resource/print'', cmd_Args = [''=.proplist=board-name,platform,version,uptime''], cmd_Timeout = 15 * second\<rparr> m of (a, m) \<Rightarrow>
        (case a of
           Inl e \<Rightarrow> (Inl (err_text e), m)
         | Inr res \<Rightarrow>
             (case an_rows res of
                [] \<Rightarrow> (Inl ''the router reported no resources'', m)
              | r # _ \<Rightarrow>
                  (case send env \<lparr>cmd_Path = ''/system/routerboard/print'', cmd_Args = [''=.proplist=serial-number''], cmd_Timeout = 15 * second\<rparr> m of (b, m) \<Rightarrow>
                     (Inr \<lparr>id_Board = (if cell r ''board-name'' = [] then cell r ''platform'' else cell r ''board-name''),
                           id_Serial = (case b of Inl _ \<Rightarrow> [] | Inr rb \<Rightarrow> (case an_rows rb of [] \<Rightarrow> [] | q # _ \<Rightarrow> cell q ''serial-number'')),
                           id_OSVersion = ShortVersion (cell r ''version''),
                           Uptime = wrap64 (DurationSeconds (cell r ''uptime'') * second)\<rparr>, m)))))"

definition sameRouter :: "Identity \<Rightarrow> Identity \<Rightarrow> bool" where
  "sameRouter a b \<longleftrightarrow> id_Board a = id_Board b \<and> id_Serial a = id_Serial b \<and> id_OSVersion a = id_OSVersion b"

definition upload :: "'w Env \<Rightarrow> string \<Rightarrow> string \<Rightarrow> 'w machine \<Rightarrow> string option \<times> 'w machine" where
  "upload env name body m =
     (if MaxPart < length body then (Some ''over what a single file may hold'', m)
      else case send env \<lparr>cmd_Path = ''/file/add'', cmd_Args = [''=name='' @ name, ''=type=file''], cmd_Timeout = 15 * second\<rparr> m of (a, m) \<Rightarrow>
        (case a of
           Inl e \<Rightarrow> (Some (err_text e), m)
         | Inr _ \<Rightarrow>
             (case send env \<lparr>cmd_Path = ''/file/print'', cmd_Args = [''?name='' @ name, ''=.proplist=.id''], cmd_Timeout = 15 * second\<rparr> m of (b, m) \<Rightarrow>
                (case b of
                   Inl e \<Rightarrow> (Some (err_text e), m)
                 | Inr res \<Rightarrow>
                     (case an_rows res of
                        [] \<Rightarrow> (Some ''the file did not appear after it was added'', m)
                      | r # _ \<Rightarrow>
                          (case send env \<lparr>cmd_Path = ''/file/set'', cmd_Args = [''=.id='' @ cell r ''.id'', ''=contents='' @ body], cmd_Timeout = 30 * second\<rparr> m of (c, m) \<Rightarrow>
                             ((case c of Inl e \<Rightarrow> Some (err_text e) | Inr _ \<Rightarrow> None), m)))))))"

definition import_cmd :: "string \<Rightarrow> bool \<Rightarrow> int \<Rightarrow> Cmd" where
  "import_cmd file dryRun timeout =
     \<lparr>cmd_Path = ''/import'',
      cmd_Args = (if dryRun then [''=file-name='' @ file, ''=verbose=yes'', ''=dry-run=''] else [''=file-name='' @ file, ''=verbose=no'']),
      cmd_Timeout = timeout\<rparr>"

definition import_reply :: "bool \<Rightarrow> do_error + answer \<Rightarrow> ImportOutcome" where
  "import_reply dryRun a =
     (case a of
        Inr r \<Rightarrow> ParseImport dryRun (an_done r) [] []
      | Inl (Trap msg _) \<Rightarrow> ParseImport dryRun [] msg []
      | Inl e \<Rightarrow> ParseImport dryRun [] [] (err_text e))"

definition runImport :: "'w Env \<Rightarrow> string \<Rightarrow> bool \<Rightarrow> int \<Rightarrow> 'w machine \<Rightarrow> ImportOutcome \<times> 'w machine" where
  "runImport env file dryRun timeout m = (case send env (import_cmd file dryRun timeout) m of (a, m) \<Rightarrow> (import_reply dryRun a, m))"

definition captureReport :: "'w Env \<Rightarrow> string \<Rightarrow> 'w machine \<Rightarrow> (string \<times> 'w machine) option" where
  "captureReport env file m =
     (case ReportName file of (write_to, read_from) \<Rightarrow>
      case send env \<lparr>cmd_Path = ''/execute'',
          cmd_Args = [''=script=/import file-name='' @ file @ '' verbose=yes dry-run'', ''=file='' @ write_to], cmd_Timeout = 20 * second\<rparr> m of (a, m) \<Rightarrow>
        (case a of
           Inl _ \<Rightarrow> Some ([], m)
         | Inr _ \<Rightarrow>
             do { (s, m) \<leftarrow> Settled env (writer env (15 * second)) read_from (15 * second) m;
                  (case s of
                     Inl _ \<Rightarrow> Some ([], m)
                   | Inr k \<Rightarrow>
                       (case ReadRouterFile (writer env (15 * second)) read_from k m of (b, m) \<Rightarrow>
                          Some ((case b of Inl _ \<Rightarrow> [] | Inr s \<Rightarrow> replace_crlf s), m))) }))"

fun read_menus :: "'w Env \<Rightarrow> string list \<Rightarrow> 'w machine \<Rightarrow> (string + (string, row list) gomap) \<times> 'w machine" where
  "read_menus env [] m = (Inr [], m)"
| "read_menus env (x # xs) m =
     (case send env \<lparr>cmd_Path = x @ ''/print'', cmd_Args = [], cmd_Timeout = 20 * second\<rparr> m of (a, m) \<Rightarrow>
        (case a of
           Inl e \<Rightarrow> (Inl (''reading '' @ x @ '': '' @ err_text e), m)
         | Inr r \<Rightarrow> (case read_menus env xs m of (b, m) \<Rightarrow> (map_sum id (Cons (x, an_rows r)) b, m))))"

definition outermost :: "string list \<Rightarrow> string list" where
  "outermost menus = filter (\<lambda>m. \<not> list_ex (\<lambda>p. has_prefix m (p @ ''/'')) menus) menus"

fun export_loop :: "'w Env \<Rightarrow> string list \<Rightarrow> 'w machine \<Rightarrow> ((string + string) \<times> 'w machine) option" where
  "export_loop env [] m = Some (Inr [], m)"
| "export_loop env (x # xs) m =
     (case NewBaseName env m of (b, m) \<Rightarrow>
        (case b of
           Inl e \<Rightarrow> Some (Inl e, m)
         | Inr base \<Rightarrow>
             do { (t, m) \<leftarrow> ExportText env (writer env (30 * second)) (x @ ''/export'') base m;
                  (case t of
                     Inl e \<Rightarrow> Some (Inl (''exporting '' @ x @ '': '' @ e), m)
                   | Inr text \<Rightarrow>
                       do { (r, m) \<leftarrow> export_loop env xs m;
                            Some (map_sum id (append (unlines (filter (\<lambda>l. \<not> has_prefix l ''#'') (NormalizeLines text)))) r, m) }) }))"

definition exportMenus :: "'w Env \<Rightarrow> string list \<Rightarrow> 'w machine \<Rightarrow> ((string + string) \<times> 'w machine) option" where
  "exportMenus env menus m = export_loop env (outermost menus) m"

definition Snapshot :: "'w Env \<Rightarrow> Template \<Rightarrow> 'w machine \<Rightarrow> ((string + string) \<times> 'w machine) option" where
  "Snapshot env t m = exportMenus env (Menus t) m"

end
