(* ===== verification/Deploy_Run.thy ===== *)
theory Deploy_Run
  imports Deploy_Env
begin

text \<open>
  An additions run (\<^verbatim>\<open>internal/cfgdeploy/additions.go\<close>): a template is prepared against a router, judged, backed up,
  uploaded, dry-run, imported, and the router is proved to let us back in, or reverts itself. Messages are shortened.
\<close>

section \<open>A plan\<close>

text \<open>What the program is given besides the router: the registry of pages, case folding, and SHA-256 in hexadecimal.\<close>

record toolkit =
  menuIndex :: registry
  folding :: unicode
  sha256 :: "string \<Rightarrow> string"

record Plan =
  pl_Template :: Template
  Values :: "(string, string) gomap"
  Live :: LiveContext
  pl_Shipped :: bool

record Prepared =
  Rendered :: string
  Hash :: string
  Findings :: "Finding list"
  Ensure :: "EnsureResult list"
  pr_Menus :: "string list"

definition findingsFor :: "toolkit \<Rightarrow> Template \<Rightarrow> Template \<Rightarrow> string \<Rightarrow> LiveContext \<Rightarrow> Finding list" where
  "findingsFor kit source sent_t profile live =
     sort_key fd_Line
       (filter (\<lambda>f. Code f \<noteq> ''literal-secret'') (Analyze (menuIndex kit) sent_t profile) @
        filter (\<lambda>f. Code f = ''literal-secret'') (Analyze (menuIndex kit) source profile) @
        AnalyzeLive (folding kit) sent_t live)"

text \<open>What preparing does once the rows have been read.\<close>

definition prepare_with :: "toolkit \<Rightarrow> Plan \<Rightarrow> (string, row list) gomap \<Rightarrow> Prepared option" where
  "prepare_with kit p live =
     (case ResolveEnsure (pl_Template p) (Values p) live of
        Gives (resolved, ensured) \<Rightarrow>
          (case (Render resolved (Values p), Fill resolved (Values p)) of
             (Gives rendered, Gives sent_t) \<Rightarrow>
               Some \<lparr>Rendered = rendered, Hash = sha256 kit rendered,
                     Findings = findingsFor kit resolved sent_t (if pl_Shipped p then Shipped else Additions) (Live p),
                     Ensure = ensured, pr_Menus = Menus resolved\<rparr>
           | _ \<Rightarrow> None)
      | _ \<Rightarrow> None)"

definition Prepare :: "toolkit \<Rightarrow> 'w Env \<Rightarrow> Plan \<Rightarrow> 'w machine \<Rightarrow> Prepared option \<times> 'w machine" where
  "Prepare kit env p m =
     (case read_menus env (EnsureMenus (pl_Template p)) m of (a, m) \<Rightarrow>
        ((case a of Inl _ \<Rightarrow> None | Inr live \<Rightarrow> prepare_with kit p live), m))"

definition FindingKey :: "Finding \<Rightarrow> string" where
  "FindingKey f = Code f @ ''@'' @ Itoa (int (fd_Line f))"

definition LockClass :: "Finding list \<Rightarrow> bool" where
  "LockClass fs \<longleftrightarrow> list_ex (\<lambda>f. Code f \<in> set lockCodes) fs"

record Run =
  rn_Plan :: Plan
  Expect :: Identity
  Approved :: string
  Acked :: "string list"

text \<open>\<open>None\<close> lets it pass.\<close>

fun judge_findings :: "Run \<Rightarrow> Finding list \<Rightarrow> bool \<Rightarrow> string option" where
  "judge_findings a [] missing = (if missing then Some ''needs-ack'' else None)"
| "judge_findings a (f # fs) missing =
     (case Level f of
        Refuse \<Rightarrow> Some ''refused''
      | Ack \<Rightarrow> judge_findings a fs (missing \<or> FindingKey f \<notin> set (Acked a))
      | Warn \<Rightarrow> judge_findings a fs missing)"

definition judge_plan :: "Prepared \<Rightarrow> Run \<Rightarrow> string option" where
  "judge_plan p a = (if Hash p \<noteq> Approved a then Some ''changed-since-preview'' else judge_findings a (Findings p) False)"

definition level_text :: "Level \<Rightarrow> string" where
  "level_text l = (case l of Refuse \<Rightarrow> ''refuse'' | Ack \<Rightarrow> ''ack'' | Warn \<Rightarrow> ''warn'')"

definition keys_of :: "Finding list \<Rightarrow> string" where
  "keys_of fs = go_join '','' (sort (map (\<lambda>f. FindingKey f @ ''/'' @ level_text (Level f)) fs))"

section \<open>The dead man's switch\<close>

record deadMan =
  dm_name :: string
  armedAt :: int
  settled :: bool

definition DeadManAfter :: int where "DeadManAfter = 5 * minute"
definition reconnectWindow :: int where "reconnectWindow = 60 * second"
definition firewallSettle :: int where "firewallSettle = 5 * second"
definition importTimeout :: int where "importTimeout = 10 * minute"
definition comeBackWindow :: int where "comeBackWindow = DeadManAfter + 6 * minute"

definition save_cmd :: "string \<Rightarrow> string \<Rightarrow> Cmd" where
  "save_cmd name pw = \<lparr>cmd_Path = ''/system/backup/save'',
     cmd_Args = [''=name='' @ name, ''=password='' @ pw, ''=encryption=aes-sha256''], cmd_Timeout = 60 * second\<rparr>"

definition arm_cmd :: "string \<Rightarrow> string \<Rightarrow> Cmd" where
  "arm_cmd name pw = \<lparr>cmd_Path = ''/system/scheduler/add'',
     cmd_Args = [''=name='' @ name, ''=interval='' @ Itoa (DeadManAfter div second) @ ''s'',
       ''=on-event=/system backup load name='' @ name @ ''.backup password='' @ pw], cmd_Timeout = 15 * second\<rparr>"

definition arm :: "'w Env \<Rightarrow> 'w machine \<Rightarrow> (deadMan option \<times> 'w machine) option" where
  "arm env m =
     (case NewBaseName env m of (b, m) \<Rightarrow> (case b of Inl _ \<Rightarrow> Some (None, m) | Inr name \<Rightarrow>
      case random_bytes env 18 m of (q, m) \<Rightarrow> (case q of Inl _ \<Rightarrow> Some (None, m) | Inr bs \<Rightarrow>
      case send env (save_cmd name (EncodeToString bs)) m of (a, m) \<Rightarrow> (case a of Inl _ \<Rightarrow> Some (None, m) | Inr _ \<Rightarrow>
        do { (s, m) \<leftarrow> Settled env (writer env (15 * second)) (name @ ''.backup'') (60 * second) m;
             (case s of Inl _ \<Rightarrow> Some (None, m) | Inr _ \<Rightarrow>
              case send env (arm_cmd name (EncodeToString bs)) m of (d, m) \<Rightarrow> (case d of Inl _ \<Rightarrow> Some (None, m) | Inr _ \<Rightarrow>
              case now env m of (t, m) \<Rightarrow> Some (Some \<lparr>dm_name = name, armedAt = t, settled = False\<rparr>, m))) }))))"

definition disarm :: "'w Env \<Rightarrow> deadMan \<Rightarrow> 'w machine \<Rightarrow> bool \<times> 'w machine" where
  "disarm env d m =
     (case send env \<lparr>cmd_Path = ''/system/scheduler/print'', cmd_Args = [''?name='' @ dm_name d, ''=.proplist=.id,run-count''],
          cmd_Timeout = 15 * second\<rparr> m of (a, m) \<Rightarrow>
        (case a of
           Inl _ \<Rightarrow> (False, m)
         | Inr res \<Rightarrow>
             (case an_rows res of
                [] \<Rightarrow> (False, m)
              | r # _ \<Rightarrow>
                  if cell r ''run-count'' \<noteq> [] \<and> cell r ''run-count'' \<noteq> ''0'' then (False, m)
                  else (case send env \<lparr>cmd_Path = ''/system/scheduler/remove'', cmd_Args = [''=.id='' @ cell r ''.id''],
                            cmd_Timeout = 15 * second\<rparr> m of (b, m) \<Rightarrow> ((case b of Inl _ \<Rightarrow> False | Inr _ \<Rightarrow> True), m)))))"

section \<open>Back in\<close>

partial_function (option) login_loop :: "'w Env \<Rightarrow> Identity \<Rightarrow> int \<Rightarrow> 'w machine \<Rightarrow> (bool \<times> 'w machine) option" where
  "login_loop env expect deadline m =
     (case log_in env m of (a, m) \<Rightarrow>
        if (case a of Inl _ \<Rightarrow> False | Inr ident \<Rightarrow> sameRouter ident expect) then Some (True, m)
        else (case now env m of (t, m) \<Rightarrow>
          if \<not> t < deadline then Some (False, m) else login_loop env expect deadline (pause env (3 * second) m)))"

declare login_loop.simps [code]

definition freshLogin :: "'w Env \<Rightarrow> Identity \<Rightarrow> int \<Rightarrow> 'w machine \<Rightarrow> (bool \<times> 'w machine) option" where
  "freshLogin env expect window m = (case now env m of (t, m) \<Rightarrow> login_loop env expect (t + window) m)"

datatype State = Applied_state | Failed_state | Failed_partial | Unknown_state | Preflight_failed

record Outcome =
  ou_State :: State
  ou_Code :: string
  ou_Applied :: Applied
  BackupID :: int
  ou_Findings :: "Finding list"
  ou_Hash :: string
  Part :: nat
  Import :: "ImportOutcome option"
  DryRun :: string
  ReconnectMS :: int
  Reverted :: bool
  Baseline :: string

definition no_outcome :: Outcome where
  "no_outcome = \<lparr>ou_State = Preflight_failed, ou_Code = [], ou_Applied = None_applied, BackupID = 0, ou_Findings = [], ou_Hash = [],
     Part = 0, Import = None, DryRun = [], ReconnectMS = 0, Reverted = False, Baseline = []\<rparr>"

text \<open>Whether the router came back after it rebooted when the switch was due; whether it answered at all.\<close>

partial_function (option) revert_loop :: "'w Env \<Rightarrow> int \<Rightarrow> int \<Rightarrow> bool \<Rightarrow> 'w machine \<Rightarrow> ((bool \<times> bool) \<times> 'w machine) option" where
  "revert_loop env deadline due answered m =
     (case now env m of (t, m) \<Rightarrow>
        if \<not> t < deadline then Some ((False, answered), m)
        else (case log_in env (pause env (5 * second) m) of (a, m) \<Rightarrow>
          (case a of
             Inl _ \<Rightarrow> revert_loop env deadline due answered m
           | Inr ident \<Rightarrow>
               (case now env m of (u, m) \<Rightarrow>
                  if u - Uptime ident < due - 15 * second then revert_loop env deadline due True m
                  else Some ((True, True), m)))))"

declare revert_loop.simps [code]

definition lockedOut :: "'w Env \<Rightarrow> deadMan option \<Rightarrow> Outcome \<Rightarrow> 'w machine \<Rightarrow> ((Outcome \<times> deadMan option) \<times> 'w machine) option" where
  "lockedOut env dm out m =
     (case dm of
        None \<Rightarrow>
          Some ((out\<lparr>ou_State := Unknown_state, ou_Code := ''locked-out'',
                     ou_Applied := (if ou_Applied out = All then Unknown_applied else ou_Applied out)\<rparr>, None), m)
      | Some d \<Rightarrow>
          do { ((back, answered), m) \<leftarrow>
                 revert_loop env (armedAt d + comeBackWindow) (armedAt d + DeadManAfter) False (step ''reverting'' m);
               Some (if back
                     then (out\<lparr>ou_State := Failed_state, ou_Code := ''reverted'', ou_Applied := None_applied, Reverted := True\<rparr>,
                           Some (d\<lparr>settled := True\<rparr>))
                     else (out\<lparr>ou_State := Unknown_state, ou_Applied := Unknown_applied,
                               ou_Code := (if answered then ''not-reverted'' else ''locked-out'')\<rparr>, Some d), m) })"

section \<open>The run\<close>

text \<open>Files are named and uploaded one by one; the first that fails stops the run.\<close>

fun upload_all :: "'w Env \<Rightarrow> string list \<Rightarrow> 'w machine \<Rightarrow> string list option \<times> 'w machine" where
  "upload_all env [] m = (Some [], m)"
| "upload_all env (body # bs) m =
     (case NewFileName env m of (f, m) \<Rightarrow> (case f of Inl _ \<Rightarrow> (None, m) | Inr name \<Rightarrow>
      case upload env name body (step ''upload'' m) of (e, m) \<Rightarrow> (case e of Some _ \<Rightarrow> (None, m) | None \<Rightarrow>
      case upload_all env bs m of (r, m) \<Rightarrow> (map_option (Cons name) r, m))))"

fun dry_run_all :: "'w Env \<Rightarrow> nat \<Rightarrow> string list \<Rightarrow> 'w machine \<Rightarrow> ((nat \<times> string \<times> ImportOutcome) option) \<times> 'w machine" where
  "dry_run_all env i [] m = (None, m)"
| "dry_run_all env i (f # fs) m =
     (case runImport env f True (60 * second) (step ''dry-run'' m) of (oc, m) \<Rightarrow>
        if Kind oc = Ok_kind then dry_run_all env (i + 1) fs m else (Some (i + 1, f, oc), m))"

text \<open>Importing stops at the first part that is not a success.\<close>

fun import_all :: "'w Env \<Rightarrow> nat \<Rightarrow> string list \<Rightarrow> Outcome \<Rightarrow> 'w machine \<Rightarrow> Outcome \<times> 'w machine" where
  "import_all env i [] out m = (out, m)"
| "import_all env i (f # fs) out m =
     (case runImport env f False importTimeout (step ''import'' m) of (oc, m) \<Rightarrow>
        if Kind oc = Ok_kind then import_all env (i + 1) fs out m
        else (let o1 = out\<lparr>Import := Some oc, Part := i + 1, ou_Code := ''import''\<rparr>
              in (if im_Applied oc = None_applied \<and> i = 0 then o1\<lparr>ou_State := Failed_state, ou_Applied := None_applied\<rparr>
                  else if im_Applied oc = Unknown_applied then o1\<lparr>ou_State := Unknown_state, ou_Applied := Unknown_applied\<rparr>
                  else o1\<lparr>ou_State := Failed_partial, ou_Applied := Partial\<rparr>, m)))"

text \<open>Everything before the router is changed: an outcome that ends the run, or what is to be imported.\<close>

definition preflight ::
  "toolkit \<Rightarrow> 'w Env \<Rightarrow> Run \<Rightarrow> 'w machine \<Rightarrow> ((Outcome + (Prepared \<times> string list \<times> Outcome)) \<times> 'w machine) option" where
  "preflight kit env a m =
     (case ReadIdentity env (sweep env (step ''sweep'' m)) of (i, m) \<Rightarrow> (case i of
        Inl _ \<Rightarrow> Some (Inl (no_outcome\<lparr>ou_Code := ''unreachable''\<rparr>), m)
      | Inr ident \<Rightarrow>
      if \<not> sameRouter ident (Expect a) then Some (Inl (no_outcome\<lparr>ou_Code := ''identity-changed''\<rparr>), m)
      else case Prepare kit env (rn_Plan a) m of (p, m) \<Rightarrow> (case p of
        None \<Rightarrow> Some (Inl (no_outcome\<lparr>ou_Code := ''prepare''\<rparr>), m)
      | Some prep \<Rightarrow>
      let out = no_outcome\<lparr>ou_Findings := Findings prep, ou_Hash := Hash prep\<rparr>
      in case judge_plan prep a of
        Some code \<Rightarrow> Some (Inl (out\<lparr>ou_Code := code\<rparr>), m)
      | None \<Rightarrow>
      case take_backup env (step ''backup'' m) of (b, m) \<Rightarrow> (case b of
        Inl _ \<Rightarrow> Some (Inl (out\<lparr>ou_Code := ''no-restore-point''\<rparr>), m)
      | Inr bid \<Rightarrow>
      let out = out\<lparr>BackupID := bid\<rparr>
      in case SplitParts (Rendered prep) MaxPart of
        Inl _ \<Rightarrow> Some (Inl (out\<lparr>ou_Code := ''too-large''\<rparr>), m)
      | Inr parts \<Rightarrow>
      case upload_all env parts m of (u, m) \<Rightarrow> (case u of
        None \<Rightarrow> Some (Inl (out\<lparr>ou_Code := ''upload''\<rparr>), m)
      | Some files \<Rightarrow>
      case dry_run_all env 0 files m of (d, m) \<Rightarrow> (case d of
        Some (i, f, oc) \<Rightarrow>
          do { (report, m) \<leftarrow> captureReport env f m;
               Some (Inl (out\<lparr>ou_Code := ''dry-run'', Part := i, Import := Some oc, DryRun := report\<rparr>), m) }
      | None \<Rightarrow>
      case Prepare kit env (rn_Plan a) (step ''recheck'' m) of (q, m) \<Rightarrow>
        if (case q of None \<Rightarrow> True | Some again \<Rightarrow> Hash again \<noteq> Hash prep \<or> keys_of (Findings again) \<noteq> keys_of (Findings prep))
        then Some (Inl (out\<lparr>ou_Code := ''changed-during-deploy''\<rparr>), m)
        else Some (Inr (prep, files, out), m)))))))"

definition finish_run :: "'w Env \<Rightarrow> Run \<Rightarrow> deadMan option \<Rightarrow> Outcome \<Rightarrow> 'w machine \<Rightarrow> ((Outcome \<times> deadMan option) \<times> 'w machine) option" where
  "finish_run env a dm out m =
     (if ou_State out = Applied_state
      then do { (r, m) \<leftarrow> Snapshot env (pl_Template (rn_Plan a)) (step ''baseline'' m);
                Some ((out\<lparr>Baseline := (case r of Inl _ \<Rightarrow> [] | Inr t \<Rightarrow> t), ou_Code := []\<rparr>, dm), m) }
      else Some ((out, dm), m))"

definition milliseconds :: "int \<Rightarrow> int" where
  "milliseconds d = (if d < 0 then - ((- d) div 10 ^ 6) else d div 10 ^ 6)"

text \<open>From the first import on, with the dead man's switch armed or not needed.\<close>

definition change_router ::
  "'w Env \<Rightarrow> Run \<Rightarrow> string list \<Rightarrow> deadMan option \<Rightarrow> Outcome \<Rightarrow> 'w machine \<Rightarrow> ((Outcome \<times> deadMan option) \<times> 'w machine) option" where
  "change_router env a files dm out m =
     (case import_all env 0 files (out\<lparr>ou_State := Applied_state, ou_Applied := All\<rparr>) m of (out, m) \<Rightarrow>
      case now env (step ''reconnect'' m) of (t0, m) \<Rightarrow>
        do { (ok, m) \<leftarrow> freshLogin env (Expect a) reconnectWindow (pause env firewallSettle m);
             (if \<not> ok then lockedOut env dm out m
              else case now env m of (t1, m) \<Rightarrow>
                (let out = out\<lparr>ReconnectMS := milliseconds (t1 - t0)\<rparr>
                 in case dm of
                      None \<Rightarrow> finish_run env a None out m
                    | Some d \<Rightarrow>
                        (case disarm env d (step ''disarm'' m) of (off, m) \<Rightarrow>
                           if off then finish_run env a (Some (d\<lparr>settled := True\<rparr>)) out m else lockedOut env dm out m))) })"

text \<open>The deferred call: the last sweep runs unless the switch is armed and not settled.\<close>

definition leave :: "'w Env \<Rightarrow> Outcome \<Rightarrow> deadMan option \<Rightarrow> 'w machine \<Rightarrow> Outcome \<times> 'w machine" where
  "leave env out dm m = (out, if (case dm of None \<Rightarrow> True | Some d \<Rightarrow> settled d) then sweep env m else m)"

definition RunAdditions :: "toolkit \<Rightarrow> 'w Env \<Rightarrow> Run \<Rightarrow> 'w machine \<Rightarrow> (Outcome \<times> 'w machine) option" where
  "RunAdditions kit env a m =
     do { (r, m) \<leftarrow> preflight kit env a m;
          (case r of
             Inl out \<Rightarrow> Some (leave env out None m)
           | Inr (prep, files, out) \<Rightarrow>
               if LockClass (Findings prep)
               then do { (dm, m) \<leftarrow> arm env (step ''arm'' m);
                         (case dm of
                            None \<Rightarrow> Some (leave env (out\<lparr>ou_Code := ''dead-man''\<rparr>) None m)
                          | Some d \<Rightarrow>
                              do { ((out, dm), m) \<leftarrow> change_router env a files (Some d) out m; Some (leave env out dm m) }) }
               else do { ((out, dm), m) \<leftarrow> change_router env a files None out m; Some (leave env out dm m) }) }"

end
