(* ===== verification/Deploy_Sends.thy ===== *)
theory Deploy_Sends
  imports Deploy_Run
begin

text \<open>
  What each part of a deploy can send. A command is known by its path, and an import by whether it is a dry run: \<open>sends K\<close>
  says that between two states the trace has only grown, and by commands of the kinds in \<open>K\<close>.
\<close>

section \<open>Kinds of commands\<close>

definition dry_run :: "Cmd \<Rightarrow> bool" where
  "dry_run c \<longleftrightarrow> ''=dry-run='' \<in> set (cmd_Args c)"

definition real_import :: "Cmd \<Rightarrow> bool" where
  "real_import c \<longleftrightarrow> cmd_Path c = ''/import'' \<and> \<not> dry_run c"

definition kind_of :: "Cmd \<Rightarrow> string" where
  "kind_of c = (if cmd_Path c = ''/import'' \<and> dry_run c then ''dry'' else cmd_Path c)"

definition of_kind :: "(string \<Rightarrow> bool) \<Rightarrow> event \<Rightarrow> bool" where
  "of_kind K e \<longleftrightarrow> (case e of Sent c r \<Rightarrow> K (kind_of c) | _ \<Rightarrow> True)"

definition sends :: "(string \<Rightarrow> bool) \<Rightarrow> 'w machine \<Rightarrow> 'w machine \<Rightarrow> bool" where
  "sends K m m' \<longleftrightarrow> (\<exists>es. trace m' = trace m @ es \<and> list_all (of_kind K) es)"

lemma sends_refl [simp, intro]: "sends K m m"
  by (simp add: sends_def)

lemma sends_trans [trans]: "sends K m m1 \<Longrightarrow> sends K m1 m2 \<Longrightarrow> sends K m m2"
  unfolding sends_def by fastforce

lemma sends_mono: "sends K m m' \<Longrightarrow> (\<And>k. K k \<Longrightarrow> L k) \<Longrightarrow> sends L m m'"
  unfolding sends_def of_kind_def list_all_iff by (force split: event.splits)

lemma send_trace: "send env c m = (a, m') \<Longrightarrow> trace m' = trace m @ [Sent c a]"
  by (auto simp: send_def split: prod.splits)

lemma sends_send: "send env c m = (a, m') \<Longrightarrow> K (kind_of c) \<Longrightarrow> sends K m m'"
  using send_trace [of env c m a m'] by (auto simp: sends_def of_kind_def)

lemma log_in_trace: "log_in env m = (a, m') \<Longrightarrow> trace m' = trace m @ [Tried a]"
  by (auto simp: log_in_def split: prod.splits)

lemma sends_log_in: "log_in env m = (a, m') \<Longrightarrow> sends K m m'"
  using log_in_trace [of env m a m'] by (auto simp: sends_def of_kind_def)

lemma take_backup_trace: "take_backup env m = (a, m') \<Longrightarrow> trace m' = trace m @ [Saved a]"
  by (auto simp: take_backup_def split: prod.splits)

lemma sends_take_backup: "take_backup env m = (a, m') \<Longrightarrow> sends K m m'"
  using take_backup_trace [of env m a m'] by (auto simp: sends_def of_kind_def)

lemma quiet_trace [simp]: "trace (pause env d m) = trace m" "trace (step s m) = trace m @ [Told s]"
    "now env m = (t, m') \<Longrightarrow> trace m' = trace m" "random_bytes env n m = (b, m') \<Longrightarrow> trace m' = trace m"
  by (auto simp: pause_def step_def now_def random_bytes_def split: prod.splits)

lemma sends_quiet [simp, intro]: "sends K m (pause env d m)" "sends K m (step s m)"
    "now env m = (t, m') \<Longrightarrow> sends K m m'" "random_bytes env n m = (b, m') \<Longrightarrow> sends K m m'"
  by (simp_all add: sends_def of_kind_def)

lemma sends_step_iff [simp]: "sends K (pause env d m) m' \<longleftrightarrow> sends K m m'"
  by (simp add: sends_def)

lemma sends_from_step: "sends K (step s m) m' \<Longrightarrow> sends K m m'"
  using sends_trans sends_quiet(2) by blast

lemma sends_writer: "writer env t path args m = (a, m') \<Longrightarrow> path \<noteq> ''/import'' \<Longrightarrow> K path \<Longrightarrow> sends K m m'"
proof -
  assume w: "writer env t path args m = (a, m')" "path \<noteq> ''/import''" "K path"
  then obtain b where "send env \<lparr>cmd_Path = path, cmd_Args = args, cmd_Timeout = t\<rparr> m = (b, m')"
    by (auto simp: writer_def split: prod.splits)
  from sends_send [OF this, of K] show ?thesis using w(2,3) by (simp add: kind_of_def)
qed

section \<open>The helpers\<close>

lemma sends_remove_files: "remove_files (writer env t) own rs m = (n, m') \<Longrightarrow> K ''/file/remove'' \<Longrightarrow> sends K m m'"
proof (induction rs arbitrary: m n)
  case (Cons r rs)
  show ?case
  proof (cases "own (cell r ''name'')")
    case True
    then obtain a m1 k where w: "writer env t ''/file/remove'' [''=numbers='' @ cell r ''name''] m = (a, m1)" and r: "remove_files (writer env t) own rs m1 = (k, m')"
      using Cons.prems by (auto split: prod.splits)
    have "sends K m m1" using sends_writer [OF w] Cons.prems(2) by simp
    also have "sends K m1 m'" using Cons.IH [OF r Cons.prems(2)] .
    finally show ?thesis .
  qed (use Cons in auto)
qed simp

lemma sends_sweep_files: "Sweep (writer env t) own m = (n, m') \<Longrightarrow> K ''/file/print'' \<Longrightarrow> K ''/file/remove'' \<Longrightarrow> sends K m m'"
proof -
  assume s: "Sweep (writer env t) own m = (n, m')" "K ''/file/print''" "K ''/file/remove''"
  obtain a m1 where w: "writer env t ''/file/print'' [''=.proplist=name''] m = (a, m1)" by (cases "writer env t ''/file/print'' [''=.proplist=name''] m")
  have "sends K m m1" using sends_writer [OF w] s(2) by simp
  also have "sends K m1 m'" using s(1,3) w sends_remove_files by (cases a) (auto simp: Sweep_def)
  finally show ?thesis .
qed

lemma sends_remove_schedulers: "K ''/system/scheduler/remove'' \<Longrightarrow> sends K m (remove_schedulers env rs m)"
proof (induction rs arbitrary: m)
  case (Cons r rs)
  define c where "c = \<lparr>cmd_Path = ''/system/scheduler/remove'', cmd_Args = [''=.id='' @ cell r ''.id''], cmd_Timeout = 15 * second\<rparr>"
  obtain a m1 where s: "send env c m = (a, m1)" by (cases "send env c m")
  have "sends K m m1" using sends_send [OF s, of K] Cons.prems by (simp add: kind_of_def c_def)
  then have "sends K m (remove_schedulers env rs m1)" using Cons.IH [OF Cons.prems] sends_trans by blast
  then show ?case using Cons s by (simp add: c_def)
qed simp

text \<open>The kinds the sweep sends, and those that only read.\<close>

definition sweeping :: "string \<Rightarrow> bool" where
  "sweeping k \<longleftrightarrow> k \<in> {''/file/print'', ''/file/remove'', ''/system/scheduler/print'', ''/system/scheduler/remove''}"

definition reading :: "string \<Rightarrow> bool" where
  "reading k \<longleftrightarrow> has_suffix k ''/print'' \<or> k = ''/file/read''"

lemma sends_sweep: "sends sweeping m (sweep env m)"
proof -
  define c where "c = \<lparr>cmd_Path = ''/system/scheduler/print'', cmd_Args = [''=.proplist=.id,name''], cmd_Timeout = 15 * second\<rparr>"
  obtain n m1 where w: "Sweep (writer env (15 * second)) IsOurFile m = (n, m1)" by (cases "Sweep (writer env (15 * second)) IsOurFile m")
  obtain a m2 where s: "send env c m1 = (a, m2)" by (cases "send env c m1")
  have "sends sweeping m m1" using sends_sweep_files [OF w, of sweeping] by (simp add: sweeping_def)
  also have "sends sweeping m1 m2" using sends_send [OF s, of sweeping] by (simp add: kind_of_def c_def sweeping_def)
  also have "sends sweeping m2 (sweep env m)"
    using w s sends_remove_schedulers [of sweeping] by (cases a) (auto simp: sweep_def c_def sweeping_def)
  finally show ?thesis .
qed

definition plain_writer :: "'w writer \<Rightarrow> bool" where
  "plain_writer w \<longleftrightarrow> (\<exists>env t. w = writer env t)"

lemma plain_writerD: "plain_writer w \<Longrightarrow> w path args m = (a, m') \<Longrightarrow> path \<noteq> ''/import'' \<Longrightarrow> K path \<Longrightarrow> sends K m m'"
  using sends_writer by (auto simp: plain_writer_def)

lemma plain_writer [simp]: "plain_writer (writer env t)"
  by (auto simp: plain_writer_def)

lemma sends_settle_loop:
  assumes "settle_loop env w name deadline prev n m = Some y" "plain_writer w" "K ''/file/print''"
  shows "sends K m (snd y)"
  using assms(1,2)
proof (induction rule: settle_loop.raw_induct [rotated 1, consumes 1, case_names 1])
  case (1 loop env w name deadline prev n m y)
  obtain u m1 where u: "now env m = (u, m1)" by (cases "now env m")
  obtain a m2 where a: "w ''/file/print'' [''=.proplist=name,size''] m1 = (a, m2)" by (cases "w ''/file/print'' [''=.proplist=name,size''] m1")
  have "sends K m m1" by (rule sends_quiet(3) [OF u])
  also have "sends K m1 m2" by (rule plain_writerD [OF 1(3) a]) (use assms(3) in simp_all)
  finally have s: "sends K m m2" .
  show ?case
  proof (cases "u < deadline")
    case False
    then show ?thesis using 1(2) u by (auto simp: sends_quiet)
  next
    case True
    show ?thesis
    proof (cases a)
      case (Inl e)
      then show ?thesis using 1(2) u a True s by auto
    next
      case (Inr rows)
      show ?thesis
      proof (cases "0 < size_in name rows \<and> size_in name rows = prev \<and> 2 \<le> n + 1")
        case True': True
        then show ?thesis using 1(2) u a True Inr s by (auto simp: Let_def)
      next
        case False
        then have "loop env w name deadline (size_in name rows) (if 0 < size_in name rows \<and> size_in name rows = prev then n + 1 else 0)
            (pause env (300 * 10 ^ 6) m2) = Some y"
          using 1(2) u a True Inr by (auto simp: Let_def split: if_splits)
        from 1(1) [OF this 1(3)] show ?thesis using s sends_trans by auto
      qed
    qed
  qed
qed

lemma sends_Settled: "Settled env w name timeout m = Some (r, m') \<Longrightarrow> plain_writer w \<Longrightarrow> K ''/file/print'' \<Longrightarrow> sends K m m'"
proof -
  assume s: "Settled env w name timeout m = Some (r, m')" "plain_writer w" "K ''/file/print''"
  obtain u m1 where u: "now env m = (u, m1)" by (cases "now env m")
  have "sends K m m1" by (rule sends_quiet(3) [OF u])
  also have "sends K m1 m'" using sends_settle_loop [of env w name "u + timeout" "-1" 0 m1 "(r, m')" K] s u by (simp add: Settled_def)
  finally show ?thesis .
qed

lemma sends_read_loop: "read_loop w name len off got m = (r, m') \<Longrightarrow> plain_writer w \<Longrightarrow> K ''/file/read'' \<Longrightarrow> sends K m m'"
proof (induction w name len off got m rule: read_loop.induct)
  case (1 w name len off got m)
  show ?case
  proof (cases "off < len")
    case False
    then show ?thesis using "1.prems"(1) by (simp add: read_loop.simps [of w name len off got m])
  next
    case True
    obtain b m1 where b: "w ''/file/read'' [''=file='' @ name, ''=offset='' @ Itoa off, ''=chunk-size='' @ Itoa chunkSize] m = (b, m1)"
      by (cases "w ''/file/read'' [''=file='' @ name, ''=offset='' @ Itoa off, ''=chunk-size='' @ Itoa chunkSize] m")
    then obtain a where a: "read_chunk w name off m = (a, m1)" by (simp add: read_chunk_def)
    have s: "sends K m m1" by (rule plain_writerD [OF "1.prems"(2) b]) (use "1.prems"(3) in simp_all)
    note run = "1.prems"(1) [unfolded read_loop.simps [of w name len off got m]]
    show ?thesis
    proof (cases a)
      case (Inl e)
      then show ?thesis using run True a s by simp
    next
      case (Inr d)
      define data where "data = (case d of None \<Rightarrow> [] | Some x \<Rightarrow> x)"
      show ?thesis
      proof (cases "data = []")
        case nil: True
        then show ?thesis using run True a Inr s by (simp add: data_def)
      next
        case False
        then have "read_loop w name len (off + int (length data)) (got @ data) m1 = (r, m')" using run True a Inr unfolding data_def by (simp add: Let_def)
        from "1.IH" [OF True a [symmetric] Inr data_def False this "1.prems"(2,3)] show ?thesis using s sends_trans by blast
      qed
    qed
  qed
qed


definition may_send :: "string list \<Rightarrow> string \<Rightarrow> bool" where
  "may_send ks k \<longleftrightarrow> reading k \<or> k \<in> set ks"

lemma reading_simps [simp]: "reading ''/file/print''" "reading ''/file/read''" "reading (x @ ''/print'')" "\<not> reading ''/import''" "\<not> reading ''/system/scheduler/add''"
    "\<not> reading ''/system/scheduler/remove''" "\<not> reading ''/file/remove''"
  by (auto simp: reading_def has_suffix_def)

lemma may_send_simps [simp]: "reading k \<Longrightarrow> may_send ks k" "k \<in> set ks \<Longrightarrow> may_send ks k"
  by (simp_all add: may_send_def)

lemma reading_not_import: "reading p \<Longrightarrow> p \<noteq> ''/import''"
  by auto

lemma sends_plain:
  assumes "send env \<lparr>cmd_Path = p, cmd_Args = as, cmd_Timeout = t\<rparr> m = (a, m')" "p \<noteq> ''/import''" "K p"
  shows "sends K m m'"
  using sends_send [OF assms(1), of K] assms(2,3) by (simp add: kind_of_def)

lemma sends_ReadRouterFile: "ReadRouterFile w name len m = (r, m') \<Longrightarrow> plain_writer w \<Longrightarrow> sends reading m m'"
  using sends_read_loop [of w name len 0 "[]" m r m' reading] by (simp add: ReadRouterFile_def)

lemma sends_ReadRouterFile_may: "ReadRouterFile w name len m = (r, m') \<Longrightarrow> plain_writer w \<Longrightarrow> sends (may_send ks) m m'"
  using sends_read_loop [of w name len 0 "[]" m r m' "may_send ks"] by (simp add: ReadRouterFile_def)

lemma sends_ExportText:
  assumes "ExportText env w path base m = Some (r, m')" "plain_writer w" "path \<noteq> ''/import''"
  shows "sends (may_send [path]) m m'"
proof -
  obtain a m1 where a: "w path [''=file='' @ base] m = (a, m1)" by (cases "w path [''=file='' @ base] m")
  have s: "sends (may_send [path]) m m1" by (rule plain_writerD [OF assms(2) a assms(3)]) simp
  show ?thesis
  proof (cases a)
    case (Inl e)
    then show ?thesis using assms(1) a s by (simp add: ExportText_def)
  next
    case (Inr u)
    then obtain z m2 where z: "Settled env w (base @ ''.rsc'') settleTimeout m1 = Some (z, m2)"
      "(case z of Inl e \<Rightarrow> Some (Inl e, m2) | Inr k \<Rightarrow> Some (ReadRouterFile w (base @ ''.rsc'') k m2)) = Some (r, m')"
      using assms(1) a by (auto simp: ExportText_def Option.bind_eq_Some_conv)
    have s2: "sends (may_send [path]) m1 m2" by (rule sends_Settled [OF z(1) assms(2)]) simp
    have "sends (may_send [path]) m2 m'"
      using z(2) sends_ReadRouterFile_may [OF _ assms(2)] by (cases z) auto
    with s s2 show ?thesis using sends_trans by blast
  qed
qed

lemma sends_captureReport: "captureReport env f m = Some (r, m') \<Longrightarrow> sends (may_send [''/execute'']) m m'"
proof -
  assume c: "captureReport env f m = Some (r, m')"
  obtain to_name from_name where n: "ReportName f = (to_name, from_name)" by (cases "ReportName f")
  define cmd where "cmd = \<lparr>cmd_Path = ''/execute'', cmd_Args = [''=script=/import file-name='' @ f @ '' verbose=yes dry-run'', ''=file='' @ to_name], cmd_Timeout = 20 * second\<rparr>"
  obtain a m1 where a: "send env cmd m = (a, m1)" by (cases "send env cmd m")
  have s: "sends (may_send [''/execute'']) m m1" by (rule sends_plain [OF a [unfolded cmd_def]]) simp_all
  show ?thesis
  proof (cases a)
    case (Inl e)
    then show ?thesis using c n a s by (simp add: captureReport_def cmd_def)
  next
    case (Inr u)
    then obtain z m2 where z: "Settled env (writer env (15 * second)) from_name (15 * second) m1 = Some (z, m2)"
      "(case z of Inl _ \<Rightarrow> Some ([], m2) | Inr k \<Rightarrow> (case ReadRouterFile (writer env (15 * second)) from_name k m2 of (b, m) \<Rightarrow>
          Some ((case b of Inl _ \<Rightarrow> [] | Inr s \<Rightarrow> replace_crlf s), m))) = Some (r, m')"
      using c n a by (auto simp: captureReport_def cmd_def Option.bind_eq_Some_conv)
    have s2: "sends (may_send [''/execute'']) m1 m2" by (rule sends_Settled [OF z(1)]) simp_all
    have "sends (may_send [''/execute'']) m2 m'"
      using z(2) sends_ReadRouterFile_may [OF _ plain_writer] by (cases z) (auto split: prod.splits)
    with s s2 show ?thesis using sends_trans by blast
  qed
qed

lemma sends_read_menus: "read_menus env xs m = (r, m') \<Longrightarrow> sends reading m m'"
proof (induction xs arbitrary: m m' r)
  case (Cons x xs)
  define cmd where "cmd = \<lparr>cmd_Path = x @ ''/print'', cmd_Args = [], cmd_Timeout = 20 * second\<rparr>"
  obtain a m1 where a: "send env cmd m = (a, m1)" by (cases "send env cmd m")
  have s: "sends reading m m1" by (rule sends_plain [OF a [unfolded cmd_def]]) (use reading_not_import in simp_all)
  show ?case
  proof (cases a)
    case (Inl e)
    then show ?thesis using Cons.prems a s by (simp add: cmd_def)
  next
    case (Inr u)
    obtain b m2 where b: "read_menus env xs m1 = (b, m2)" by (cases "read_menus env xs m1")
    then show ?thesis using Cons.prems a Inr s Cons.IH [OF b] sends_trans by (auto simp: cmd_def)
  qed
qed simp

lemma sends_Prepare: "Prepare kit env p m = (r, m') \<Longrightarrow> sends reading m m'"
  using sends_read_menus by (fastforce simp: Prepare_def split: prod.splits)

lemma sends_export_loop: "export_loop env xs m = Some (r, m') \<Longrightarrow> sends (\<lambda>k. reading k \<or> has_suffix k ''/export'') m m'"
proof (induction xs arbitrary: m m' r)
  case (Cons x xs)
  define K where "K = (\<lambda>k. reading k \<or> has_suffix k ''/export'')"
  obtain b m1 where b: "NewBaseName env m = (b, m1)" by (cases "NewBaseName env m")
  have s: "sends K m m1" using b by (auto simp: NewBaseName_def split: prod.splits)
  show ?case
  proof (cases b)
    case (Inl e)
    then show ?thesis using Cons.prems b s by (simp add: K_def)
  next
    case (Inr base)
    then obtain t m2 where t: "ExportText env (writer env (30 * second)) (x @ ''/export'') base m1 = Some (t, m2)"
      "(case t of Inl e \<Rightarrow> Some (Inl (''exporting '' @ x @ '': '' @ e), m2)
        | Inr text \<Rightarrow> do { (r, m) \<leftarrow> export_loop env xs m2;
            Some (map_sum id (append (unlines (filter (\<lambda>l. \<not> has_prefix l ''#'') (NormalizeLines text)))) r, m) }) = Some (r, m')"
      using Cons.prems b by (auto simp: Option.bind_eq_Some_conv)
    have ne: "x @ ''/export'' \<noteq> ''/import''" by (auto simp: append_eq_append_conv2 dest: arg_cong [where f = rev])
    have "sends K m1 m2" by (rule sends_mono [OF sends_ExportText [OF t(1) plain_writer ne]]) (auto simp: K_def may_send_def has_suffix_def)
    moreover have "sends K m2 m'" using t(2) Cons.IH by (cases t) (auto simp: Option.bind_eq_Some_conv K_def)
    ultimately show ?thesis using s sends_trans unfolding K_def by blast
  qed
qed simp

lemma sends_Snapshot: "Snapshot env t m = Some (r, m') \<Longrightarrow> sends (\<lambda>k. reading k \<or> has_suffix k ''/export'') m m'"
  using sends_export_loop by (auto simp: Snapshot_def exportMenus_def)

lemma sends_ReadIdentity: "ReadIdentity env m = (r, m') \<Longrightarrow> sends reading m m'"
proof -
  assume r: "ReadIdentity env m = (r, m')"
  define c where "c = \<lparr>cmd_Path = ''/system/resource/print'', cmd_Args = [''=.proplist=board-name,platform,version,uptime''], cmd_Timeout = 15 * second\<rparr>"
  define d where "d = \<lparr>cmd_Path = ''/system/routerboard/print'', cmd_Args = [''=.proplist=serial-number''], cmd_Timeout = 15 * second\<rparr>"
  obtain a m1 where a: "send env c m = (a, m1)" by (cases "send env c m")
  obtain b m2 where b: "send env d m1 = (b, m2)" by (cases "send env d m1")
  have p: "reading ''/system/resource/print''" "reading ''/system/routerboard/print''" by (simp_all add: reading_def has_suffix_def)
  have "sends reading m m1" by (rule sends_plain [OF a [unfolded c_def]]) (use p in simp_all)
  moreover have "sends reading m1 m2" by (rule sends_plain [OF b [unfolded d_def]]) (use p in simp_all)
  ultimately show ?thesis using r a b unfolding ReadIdentity_def c_def [symmetric] d_def [symmetric]
    by (auto split: sum.splits list.splits intro: sends_trans)
qed

end
