(* ===== verification/Deploy_Safe.thy ===== *)
theory Deploy_Safe
  imports Deploy_Sends
begin

text \<open>
  What has happened before a router is changed (\<^verbatim>\<open>preflight\<close>): the rows were read, the plan judged, a backup stored, every
  part uploaded and dry-run, and the plan made once more. Each lemma gives the events a step adds to the trace.
\<close>

section \<open>Uploads and dry runs\<close>

definition grew :: "'w machine \<Rightarrow> event list \<Rightarrow> 'w machine \<Rightarrow> bool" where
  "grew m es m' \<longleftrightarrow> trace m' = trace m @ es"

definition all_kind :: "(string \<Rightarrow> bool) \<Rightarrow> event list \<Rightarrow> bool" where
  "all_kind K es \<longleftrightarrow> list_all (of_kind K) es"

lemma all_kind_simps [simp]: "all_kind K []" "all_kind K (e # es) \<longleftrightarrow> of_kind K e \<and> all_kind K es" "all_kind K (a @ b) \<longleftrightarrow> all_kind K a \<and> all_kind K b"
  by (simp_all add: all_kind_def)

lemma all_kind_mono: "all_kind K es \<Longrightarrow> (\<And>k. K k \<Longrightarrow> L k) \<Longrightarrow> all_kind L es"
  unfolding all_kind_def of_kind_def list_all_iff by (force split: event.splits)

lemma sendsE: "sends K m m' \<Longrightarrow> (\<And>es. grew m es m' \<Longrightarrow> all_kind K es \<Longrightarrow> thesis) \<Longrightarrow> thesis"
  by (auto simp: sends_def grew_def all_kind_def)

lemma grew_trans: "grew m a m1 \<Longrightarrow> grew m1 b m2 \<Longrightarrow> grew m (a @ b) m2"
  by (simp add: grew_def)

lemma grew_refl [simp]: "grew m [] m"
  by (simp add: grew_def)

lemma grew_send: "send env c m = (a, m') \<Longrightarrow> grew m [Sent c a] m'"
  by (simp add: grew_def send_trace)

lemma grew_step [simp]: "grew m [Told s] (step s m)"
  by (simp add: grew_def)

lemma of_kind_simps [simp]: "of_kind K (Told s)" "of_kind K (Tried i)" "of_kind K (Saved b)" "of_kind K (Sent c r) \<longleftrightarrow> K (kind_of c)"
  by (simp_all add: of_kind_def)

lemma kind_plain [simp]: "p \<noteq> ''/import'' \<Longrightarrow> kind_of \<lparr>cmd_Path = p, cmd_Args = as, cmd_Timeout = t\<rparr> = p"
  by (simp add: kind_of_def)

definition add_file :: "string \<Rightarrow> Cmd" where
  "add_file name = \<lparr>cmd_Path = ''/file/add'', cmd_Args = [''=name='' @ name, ''=type=file''], cmd_Timeout = 15 * second\<rparr>"

definition find_file :: "string \<Rightarrow> Cmd" where
  "find_file name = \<lparr>cmd_Path = ''/file/print'', cmd_Args = [''?name='' @ name, ''=.proplist=.id''], cmd_Timeout = 15 * second\<rparr>"

definition fill_file :: "string \<Rightarrow> string \<Rightarrow> Cmd" where
  "fill_file i body = \<lparr>cmd_Path = ''/file/set'', cmd_Args = [''=.id='' @ i, ''=contents='' @ body], cmd_Timeout = 30 * second\<rparr>"

text \<open>A file was made, found, and given its contents, and none of it was refused.\<close>

definition uploaded :: "event list \<Rightarrow> string \<Rightarrow> string \<Rightarrow> bool" where
  "uploaded es name body \<longleftrightarrow> length body \<le> MaxPart \<and>
     (\<exists>a res r rs b. Sent (add_file name) (Inr a) \<in> set es \<and> Sent (find_file name) (Inr res) \<in> set es \<and> an_rows res = r # rs \<and>
        Sent (fill_file (cell r ''.id'') body) (Inr b) \<in> set es)"

definition dry_ok :: "event list \<Rightarrow> string \<Rightarrow> bool" where
  "dry_ok es name \<longleftrightarrow> (\<exists>a. Sent (import_cmd name True (60 * second)) a \<in> set es \<and> Kind (import_reply True a) = Ok_kind)"

lemma uploaded_mono: "uploaded es n b \<Longrightarrow> set es \<subseteq> set fs \<Longrightarrow> uploaded fs n b"
  unfolding uploaded_def by blast

lemma dry_ok_mono: "dry_ok es n \<Longrightarrow> set es \<subseteq> set fs \<Longrightarrow> dry_ok fs n"
  unfolding dry_ok_def by blast

definition uploading :: "string \<Rightarrow> bool" where
  "uploading = may_send [''/file/add'', ''/file/set'']"

lemma uploading_simps [simp]: "uploading ''/file/add''" "uploading ''/file/set''" "uploading ''/file/print''" "\<not> uploading ''/import''"
  by (simp_all add: uploading_def may_send_def)

lemma upload_grew:
  assumes "upload env name body m = (e, m')"
  shows "\<exists>es. grew m es m' \<and> all_kind uploading es \<and> (e = None \<longrightarrow> uploaded es name body)"
proof (cases "MaxPart < length body")
  case True
  then have "m' = m" "e \<noteq> None" using assms by (auto simp: upload_def)
  then show ?thesis by (intro exI [of _ "[]"]) auto
next
  case fits: False
  note run = assms [unfolded upload_def, folded add_file_def find_file_def fill_file_def]
  obtain a m1 where a: "send env (add_file name) m = (a, m1)" by (cases "send env (add_file name) m")
  show ?thesis
  proof (cases a)
    case (Inl x)
    then have "m' = m1" "e \<noteq> None" using run fits a by auto
    then show ?thesis using grew_send [OF a] by (intro exI [of _ "[Sent (add_file name) a]"]) (auto simp: add_file_def)
  next
    case ra: (Inr r1)
    obtain b m2 where b: "send env (find_file name) m1 = (b, m2)" by (cases "send env (find_file name) m1")
    have g: "grew m [Sent (add_file name) a, Sent (find_file name) b] m2" using grew_trans [OF grew_send [OF a] grew_send [OF b]] by simp
    show ?thesis
    proof (cases "\<exists>res r rs. b = Inr res \<and> an_rows res = r # rs")
      case False
      then have "m' = m2" "e \<noteq> None" using run fits a ra b by (auto split: sum.splits list.splits)
      then show ?thesis using g by (intro exI [of _ "[Sent (add_file name) a, Sent (find_file name) b]"]) (auto simp: add_file_def find_file_def)
    next
      case True
      then obtain res r rs where rb: "b = Inr res" "an_rows res = r # rs" by blast
      obtain c m3 where c: "send env (fill_file (cell r ''.id'') body) m2 = (c, m3)" by (cases "send env (fill_file (cell r ''.id'') body) m2")
      define es where "es = [Sent (add_file name) a, Sent (find_file name) b, Sent (fill_file (cell r ''.id'') body) c]"
      have g3: "grew m es m3" using grew_trans [OF g grew_send [OF c]] by (simp add: es_def)
      have e: "e = (case c of Inl e \<Rightarrow> Some (err_text e) | Inr _ \<Rightarrow> None)" "m' = m3" using run fits a ra b rb c by auto
      have "e = None \<longrightarrow> uploaded es name body"
        using e fits ra rb unfolding uploaded_def es_def by (cases c) auto
      moreover have "all_kind uploading es" by (simp add: es_def add_file_def find_file_def fill_file_def)
      ultimately show ?thesis using g3 e(2) by blast
    qed
  qed
qed

lemma upload_all_grew:
  "upload_all env bodies m = (r, m') \<Longrightarrow> \<exists>es. grew m es m' \<and> all_kind uploading es \<and> (\<forall>files. r = Some files \<longrightarrow> list_all2 (uploaded es) files bodies)"
proof (induction bodies arbitrary: m m' r)
  case Nil
  then have "m' = m" "r = Some []" by auto
  then show ?case by (intro exI [of _ "[]"]) simp
next
  case (Cons body bs)
  obtain f m1 where f: "NewFileName env m = (f, m1)" by (cases "NewFileName env m")
  have g1: "grew m [] m1" using f by (auto simp: NewFileName_def NewBaseName_def grew_def split: prod.splits)
  show ?case
  proof (cases f)
    case (Inl x)
    then have "m' = m1" "r = None" using Cons.prems f by auto
    then show ?thesis using g1 by (intro exI [of _ "[]"]) auto
  next
    case (Inr name)
    obtain e m2 where e: "upload env name body (step ''upload'' m1) = (e, m2)" by (cases "upload env name body (step ''upload'' m1)")
    obtain es where es: "grew (step ''upload'' m1) es m2" "all_kind uploading es" "e = None \<longrightarrow> uploaded es name body" using upload_grew [OF e] by blast
    have g2: "grew m (Told ''upload'' # es) m2" using grew_trans [OF grew_trans [OF g1 grew_step] es(1)] by simp
    show ?thesis
    proof (cases e)
      case (Some x)
      then have "m' = m2" "r = None" using Cons.prems f Inr e by auto
      then show ?thesis using g2 es(2) by (intro exI [of _ "Told ''upload'' # es"]) auto
    next
      case None
      obtain q m3 where q: "upload_all env bs m2 = (q, m3)" by (cases "upload_all env bs m2")
      obtain fs where fs: "grew m2 fs m3" "all_kind uploading fs" "\<forall>files. q = Some files \<longrightarrow> list_all2 (uploaded fs) files bs" using Cons.IH [OF q] by blast
      have r: "r = map_option (Cons name) q" "m' = m3" using Cons.prems f Inr e None q by auto
      define all where "all = Told ''upload'' # es @ fs"
      have up: "uploaded all name body" using es(3) None uploaded_mono [of es name body all] by (auto simp: all_def)
      have "list_all2 (uploaded all) files (body # bs)" if "r = Some files" for files
      proof -
        obtain gs where gs: "q = Some gs" "files = name # gs" using \<open>r = Some files\<close> r(1) by auto
        have "list_all2 (uploaded fs) gs bs" using fs(3) gs(1) by simp
        then have "list_all2 (uploaded all) gs bs" by (rule list_all2_mono) (auto elim: uploaded_mono simp: all_def)
        then show ?thesis using gs(2) up by simp
      qed
      then show ?thesis using grew_trans [OF g2 fs(1)] es(2) fs(2) r(2) by (intro exI [of _ all]) (simp add: all_def)
    qed
  qed
qed

lemma dry_run_cmd [simp]: "dry_run (import_cmd f b t) \<longleftrightarrow> b" "cmd_Path (import_cmd f b t) = ''/import''"
  by (simp_all add: dry_run_def import_cmd_def)

lemma kind_import [simp]: "kind_of (import_cmd f True t) = ''dry''" "kind_of (import_cmd f False t) = ''/import''"
  by (simp_all add: kind_of_def)

lemma runImport_grew: "runImport env f b t m = (oc, m') \<Longrightarrow> \<exists>a. grew m [Sent (import_cmd f b t) a] m' \<and> oc = import_reply b a"
  by (auto simp: runImport_def split: prod.splits intro: grew_send)

lemma dry_run_all_grew:
  "dry_run_all env i files m = (r, m') \<Longrightarrow> \<exists>es. grew m es m' \<and> all_kind (\<lambda>k. k = ''dry'') es \<and> (r = None \<longrightarrow> list_all (dry_ok es) files)"
proof (induction files arbitrary: i m m' r)
  case Nil
  then have "m' = m" by simp
  then show ?case by (intro exI [of _ "[]"]) simp
next
  case (Cons f fs)
  obtain oc m1 where oc: "runImport env f True (60 * second) (step ''dry-run'' m) = (oc, m1)" by (cases "runImport env f True (60 * second) (step ''dry-run'' m)")
  obtain a where a: "grew (step ''dry-run'' m) [Sent (import_cmd f True (60 * second)) a] m1" "oc = import_reply True a" using runImport_grew [OF oc] by blast
  define one where "one = [Told ''dry-run'', Sent (import_cmd f True (60 * second)) a]"
  have g: "grew m one m1" "all_kind (\<lambda>k. k = ''dry'') one" using grew_trans [OF grew_step a(1)] by (simp_all add: one_def)
  show ?case
  proof (cases "Kind oc = Ok_kind")
    case False
    then have "m' = m1" "r \<noteq> None" using Cons.prems oc by auto
    then show ?thesis using g by blast
  next
    case True
    then have "dry_run_all env (i + 1) fs m1 = (r, m')" using Cons.prems oc by simp
    then obtain es where es: "grew m1 es m'" "all_kind (\<lambda>k. k = ''dry'') es" "r = None \<longrightarrow> list_all (dry_ok es) fs"
      using Cons.IH by blast
    have "dry_ok (one @ es) f" using True a(2) by (auto simp: dry_ok_def one_def)
    moreover have "r = None \<longrightarrow> list_all (dry_ok (one @ es)) fs" using es(3) dry_ok_mono [of es _ "one @ es"] unfolding list_all_iff by auto
    ultimately show ?thesis using grew_trans [OF g(1) es(1)] g(2) es(2) by (intro exI [of _ "one @ es"]) auto
  qed
qed


section \<open>Before the router is changed\<close>

definition calm :: "string \<Rightarrow> bool" where
  "calm k \<longleftrightarrow> k \<noteq> ''/import'' \<and> k \<noteq> ''/system/scheduler/add''"

lemma calm_simps [simp]: "uploading k \<Longrightarrow> calm k" "reading k \<Longrightarrow> calm k" "sweeping k \<Longrightarrow> calm k" "calm ''dry''" "\<not> calm ''/import''" "\<not> calm ''/system/scheduler/add''"
  by (auto simp: calm_def sweeping_def uploading_def may_send_def)

lemma calm_may: "may_send ks k \<Longrightarrow> ''/import'' \<notin> set ks \<Longrightarrow> ''/system/scheduler/add'' \<notin> set ks \<Longrightarrow> calm k"
  by (auto simp: calm_def may_send_def)

lemma calm_export: "reading k \<or> has_suffix k ''/export'' \<Longrightarrow> calm k"
  by (auto simp: calm_def has_suffix_def)

lemma sends_grew: "sends K m m' \<Longrightarrow> (\<And>k. K k \<Longrightarrow> L k) \<Longrightarrow> \<exists>es. grew m es m' \<and> all_kind L es"
  using all_kind_mono by (blast elim: sendsE)

text \<open>The rows a plan was resolved against were read from the router.\<close>

definition read_cmd :: "string \<Rightarrow> Cmd" where
  "read_cmd x = \<lparr>cmd_Path = x @ ''/print'', cmd_Args = [], cmd_Timeout = 20 * second\<rparr>"

definition was_read :: "event list \<Rightarrow> string \<times> row list \<Rightarrow> bool" where
  "was_read es p \<longleftrightarrow> (\<exists>r. Sent (read_cmd (fst p)) (Inr r) \<in> set es \<and> an_rows r = snd p)"

definition prepared :: "toolkit \<Rightarrow> Plan \<Rightarrow> event list \<Rightarrow> Prepared \<Rightarrow> bool" where
  "prepared kit p es prep \<longleftrightarrow>
     (\<exists>live. prepare_with kit p live = Some prep \<and> map fst live = EnsureMenus (pl_Template p) \<and> list_all (was_read es) live)"

lemma was_read_mono: "was_read es p \<Longrightarrow> set es \<subseteq> set fs \<Longrightarrow> was_read fs p"
  unfolding was_read_def by blast

lemma prepared_mono: "prepared kit p es prep \<Longrightarrow> set es \<subseteq> set fs \<Longrightarrow> prepared kit p fs prep"
  unfolding prepared_def list_all_iff by (blast intro: was_read_mono)

lemma read_menus_grew:
  "read_menus env xs m = (a, m') \<Longrightarrow>
    \<exists>es. grew m es m' \<and> all_kind reading es \<and> (\<forall>live. a = Inr live \<longrightarrow> map fst live = xs \<and> list_all (was_read es) live)"
proof (induction xs arbitrary: m m' a)
  case Nil
  then have "m' = m" "a = Inr []" by auto
  then show ?case by (intro exI [of _ "[]"]) simp
next
  case (Cons x xs)
  obtain b m1 where b: "send env (read_cmd x) m = (b, m1)" by (cases "send env (read_cmd x) m")
  have k: "reading (kind_of (read_cmd x))" using reading_not_import [of "x @ ''/print''"] by (simp add: read_cmd_def)
  have g1: "grew m [Sent (read_cmd x) b] m1" "all_kind reading [Sent (read_cmd x) b]" using grew_send [OF b] k by simp_all
  note run = Cons.prems [unfolded read_menus.simps, folded read_cmd_def, unfolded b prod.case]
  show ?case
  proof (cases b)
    case (Inl e)
    then have "m' = m1" "\<forall>live. a \<noteq> Inr live" using run by auto
    then show ?thesis using g1 by blast
  next
    case (Inr r)
    obtain c m2 where c: "read_menus env xs m1 = (c, m2)" by (cases "read_menus env xs m1")
    obtain es where es: "grew m1 es m2" "all_kind reading es" "\<forall>live. c = Inr live \<longrightarrow> map fst live = xs \<and> list_all (was_read es) live"
      using Cons.IH [OF c] by blast
    have m: "m' = m2" "a = map_sum id (Cons (x, an_rows r)) c" using run Inr c by auto
    define all where "all = Sent (read_cmd x) b # es"
    have "map fst live = x # xs \<and> list_all (was_read all) live" if l: "a = Inr live" for live
    proof -
      obtain rest where rest: "c = Inr rest" "live = (x, an_rows r) # rest" using l m(2) by (cases c) auto
      have "list_all (was_read all) rest" using es(3) rest(1) was_read_mono [of es _ all] by (auto simp: all_def list_all_iff)
      moreover have "was_read all (x, an_rows r)" using Inr by (auto simp: was_read_def all_def)
      ultimately show ?thesis using es(3) rest by simp
    qed
    moreover have "grew m all m'" using grew_trans [OF g1(1) es(1)] m(1) by (simp add: all_def)
    moreover have "all_kind reading all" using g1(2) es(2) by (simp add: all_def)
    ultimately show ?thesis by blast
  qed
qed

lemma Prepare_grew: "Prepare kit env p m = (q, m') \<Longrightarrow> \<exists>es. grew m es m' \<and> all_kind reading es \<and> (\<forall>prep. q = Some prep \<longrightarrow> prepared kit p es prep)"
proof -
  assume q: "Prepare kit env p m = (q, m')"
  obtain a m1 where a: "read_menus env (EnsureMenus (pl_Template p)) m = (a, m1)" by (cases "read_menus env (EnsureMenus (pl_Template p)) m")
  obtain es where es: "grew m es m1" "all_kind reading es"
    "\<forall>live. a = Inr live \<longrightarrow> map fst live = EnsureMenus (pl_Template p) \<and> list_all (was_read es) live"
    using read_menus_grew [OF a] by blast
  have "m' = m1" "q = (case a of Inl _ \<Rightarrow> None | Inr live \<Rightarrow> prepare_with kit p live)" using q a by (simp_all add: Prepare_def)
  then show ?thesis using es by (intro exI [of _ es]) (auto simp: prepared_def split: sum.splits)
qed

text \<open>
  The plan is the one that was approved, it is backed up, its parts are on the router and have passed a dry run, and
  made again from rows read again it is still the same.
\<close>

definition checked :: "toolkit \<Rightarrow> Run \<Rightarrow> event list \<Rightarrow> Prepared \<Rightarrow> string list \<Rightarrow> bool" where
  "checked kit a es prep files \<longleftrightarrow>
     prepared kit (rn_Plan a) es prep \<and> judge_plan prep a = None \<and> (\<exists>bid. Saved (Inr bid) \<in> set es) \<and>
     (\<exists>parts. SplitParts (Rendered prep) MaxPart = Inr parts \<and> list_all2 (uploaded es) files parts) \<and> list_all (dry_ok es) files \<and>
     (\<exists>pre again post. es = pre @ [Told ''recheck''] @ post \<and> list_all (dry_ok pre) files \<and> prepared kit (rn_Plan a) post again \<and>
        Hash again = Hash prep \<and> keys_of (Findings again) = keys_of (Findings prep))"

lemma preflight_checked:
  assumes "preflight kit env a m = Some (r, m')"
  shows "\<exists>es. grew m es m' \<and> all_kind calm es \<and>
    (case r of Inl out \<Rightarrow> ou_State out = Preflight_failed | Inr (prep, files, out) \<Rightarrow> ou_Code out = [] \<and> ou_State out = Preflight_failed \<and> checked kit a es prep files)"
proof -
  define fin where "fin = (\<lambda>es. grew m es m' \<and> all_kind calm es \<and>
    (case r of Inl out \<Rightarrow> ou_State out = Preflight_failed | Inr (prep, files, out) \<Rightarrow> ou_Code out = [] \<and> ou_State out = Preflight_failed \<and> checked kit a es prep files))"
  have early: "\<exists>es. fin es" if "r = Inl out" "ou_State out = Preflight_failed" "grew m es m'" "all_kind calm es" for out es
    using that by (auto simp: fin_def)
  obtain i m1 where i: "ReadIdentity env (sweep env (step ''sweep'' m)) = (i, m1)" by (cases "ReadIdentity env (sweep env (step ''sweep'' m))")
  have "sends calm m (sweep env (step ''sweep'' m))" by (rule sends_from_step, rule sends_mono [OF sends_sweep]) simp
  also have "sends calm (sweep env (step ''sweep'' m)) m1" using sends_mono [OF sends_ReadIdentity [OF i]] by simp
  finally obtain e1 where e1: "grew m e1 m1" "all_kind calm e1" by (rule sendsE)
  note run = assms [unfolded preflight_def i prod.case]
  have "\<exists>es. fin es"
  proof (cases "\<exists>ident. i = Inr ident \<and> sameRouter ident (Expect a)")
    case False
    then obtain out where "r = Inl out" "ou_State out = Preflight_failed" "m' = m1"
      using run by (auto simp: no_outcome_def split: sum.splits)
    then show ?thesis using early e1 by blast
  next
    case True
    then obtain ident where ident: "i = Inr ident" "sameRouter ident (Expect a)" by blast
    obtain p m2 where p: "Prepare kit env (rn_Plan a) m1 = (p, m2)" by (cases "Prepare kit env (rn_Plan a) m1")
    obtain e2 where e2: "grew m1 e2 m2" "all_kind reading e2" "\<forall>prep. p = Some prep \<longrightarrow> prepared kit (rn_Plan a) e2 prep" using Prepare_grew [OF p] by blast
    have g2: "grew m (e1 @ e2) m2" "all_kind calm (e1 @ e2)" using grew_trans [OF e1(1) e2(1)] e1(2) all_kind_mono [OF e2(2), of calm] by simp_all
    show ?thesis
    proof (cases "\<exists>prep. p = Some prep \<and> judge_plan prep a = None")
      case False
      then obtain out where "r = Inl out" "ou_State out = Preflight_failed" "m' = m2"
        using run ident p by (auto simp: no_outcome_def Let_def split: option.splits)
      then show ?thesis using early g2 by blast
    next
      case True
      then obtain prep where prep: "p = Some prep" "judge_plan prep a = None" by blast
      obtain b m3 where b: "take_backup env (step ''backup'' m2) = (b, m3)" by (cases "take_backup env (step ''backup'' m2)")
      define e3 where "e3 = e1 @ e2 @ [Told ''backup'', Saved b]"
      have g3: "grew m e3 m3" "all_kind calm e3"
        using g2 take_backup_trace [OF b] by (simp_all add: e3_def grew_def)
      show ?thesis
      proof (cases "\<exists>bid parts. b = Inr bid \<and> SplitParts (Rendered prep) MaxPart = Inr parts")
        case False
        then obtain out where "r = Inl out" "ou_State out = Preflight_failed" "m' = m3"
          using run ident p prep b by (auto simp: no_outcome_def Let_def split: sum.splits)
        then show ?thesis using early g3 by blast
      next
        case True
        then obtain bid parts where bid: "b = Inr bid" "SplitParts (Rendered prep) MaxPart = Inr parts" by blast
        obtain u m4 where u: "upload_all env parts m3 = (u, m4)" by (cases "upload_all env parts m3")
        obtain e4 where e4: "grew m3 e4 m4" "all_kind uploading e4" "\<forall>files. u = Some files \<longrightarrow> list_all2 (uploaded e4) files parts"
          using upload_all_grew [OF u] by blast
        have g4: "grew m (e3 @ e4) m4" "all_kind calm (e3 @ e4)" using grew_trans [OF g3(1) e4(1)] g3(2) all_kind_mono [OF e4(2), of calm] by simp_all
        show ?thesis
        proof (cases u)
          case None
          then obtain out where "r = Inl out" "ou_State out = Preflight_failed" "m' = m4"
            using run ident p prep b bid u by (auto simp: no_outcome_def Let_def)
          then show ?thesis using early g4 by blast
        next
          case files: (Some files)
          obtain d m5 where d: "dry_run_all env 0 files m4 = (d, m5)" by (cases "dry_run_all env 0 files m4")
          obtain e5 where e5: "grew m4 e5 m5" "all_kind (\<lambda>k. k = ''dry'') e5" "d = None \<longrightarrow> list_all (dry_ok e5) files"
            using dry_run_all_grew [OF d] by blast
          have g5: "grew m ((e3 @ e4) @ e5) m5" "all_kind calm ((e3 @ e4) @ e5)" using grew_trans [OF g4(1) e5(1)] g4(2) all_kind_mono [OF e5(2), of calm] by simp_all
          show ?thesis
          proof (cases d)
            case (Some x)
            obtain j f oc where x: "x = (j, f, oc)" by (cases x)
            have "do { (report, m) \<leftarrow> captureReport env f m5;
                Some (Inl (no_outcome\<lparr>ou_Findings := Findings prep, ou_Hash := Hash prep, BackupID := bid, ou_Code := ''dry-run'', Part := j,
                  Import := Some oc, DryRun := report\<rparr>), m) } = Some (r, m')"
              using run ident p prep b bid u files d Some x by (simp add: Let_def no_outcome_def)
            then obtain report where c: "captureReport env f m5 = Some (report, m')"
              "r = Inl (no_outcome\<lparr>ou_Findings := Findings prep, ou_Hash := Hash prep, BackupID := bid, ou_Code := ''dry-run'', Part := j,
                  Import := Some oc, DryRun := report\<rparr>)"
              by (auto simp: Option.bind_eq_Some_conv)
            obtain e6 where e6: "grew m5 e6 m'" "all_kind calm e6" using sends_grew [OF sends_captureReport [OF c(1)], of calm] calm_may by auto
            show ?thesis by (rule early [OF c(2), where es = "((e3 @ e4) @ e5) @ e6"]) (use grew_trans [OF g5(1) e6(1)] g5(2) e6(2) in \<open>simp_all add: no_outcome_def\<close>)
          next
            case None
            obtain q m6 where q: "Prepare kit env (rn_Plan a) (step ''recheck'' m5) = (q, m6)" by (cases "Prepare kit env (rn_Plan a) (step ''recheck'' m5)")
            obtain e6 where e6: "grew (step ''recheck'' m5) e6 m6" "all_kind reading e6" "\<forall>again. q = Some again \<longrightarrow> prepared kit (rn_Plan a) e6 again"
              using Prepare_grew [OF q] by blast
            define es where "es = ((e3 @ e4) @ e5) @ Told ''recheck'' # e6"
            have g6: "grew m es m6" "all_kind calm es"
              using grew_trans [OF g5(1) grew_trans [OF grew_step e6(1)]] g5(2) all_kind_mono [OF e6(2), of calm] by (simp_all add: es_def)
            show ?thesis
            proof (cases "case q of None \<Rightarrow> True | Some again \<Rightarrow> Hash again \<noteq> Hash prep \<or> keys_of (Findings again) \<noteq> keys_of (Findings prep)")
              case True
              then obtain out where "r = Inl out" "ou_State out = Preflight_failed" "m' = m6"
                using run ident p prep b bid u files d None q by (auto simp: no_outcome_def Let_def)
              then show ?thesis using early g6 by blast
            next
              case False
              then have r: "r = Inr (prep, files, no_outcome\<lparr>ou_Findings := Findings prep, ou_Hash := Hash prep, BackupID := bid\<rparr>)" "m' = m6"
                using run ident p prep b bid u files d None q by (auto simp: no_outcome_def Let_def)
              have "list_all2 (uploaded es) files parts"
                by (rule list_all2_mono [OF e4(3) [rule_format, OF files]]) (auto elim: uploaded_mono simp: es_def)
              moreover have "list_all (dry_ok es) files" using e5(3) None dry_ok_mono [of e5 _ es] unfolding list_all_iff es_def by auto
              moreover have "list_all (dry_ok ((e3 @ e4) @ e5)) files" using e5(3) None dry_ok_mono [of e5 _ "(e3 @ e4) @ e5"] unfolding list_all_iff by auto
              moreover have "prepared kit (rn_Plan a) es prep" using e2(3) prep(1) prepared_mono [of kit "rn_Plan a" e2 prep es] by (auto simp: es_def e3_def)
              moreover obtain again where "prepared kit (rn_Plan a) e6 again" "Hash again = Hash prep" "keys_of (Findings again) = keys_of (Findings prep)"
                using False e6(3) by (auto split: option.splits)
              moreover have "Saved (Inr bid) \<in> set es" using bid by (simp add: es_def e3_def)
              ultimately have "checked kit a es prep files" unfolding checked_def es_def using prep(2) bid(2) by (metis append_Cons append_Nil)
              then show ?thesis using r g6 by (auto simp: fin_def no_outcome_def)
            qed
          qed
        qed
      qed
    qed
  qed
  then show ?thesis by (simp add: fin_def)
qed

end
