(* ===== verification/Deploy_Order.thy ===== *)
theory Deploy_Order
  imports Deploy_Safe
begin

text \<open>
  The events of arming the switch, of the imports, which stop at the first that is not a success, and of the two loops
  that wait to be let back in.
\<close>

section \<open>The switch\<close>

definition silent :: "event list \<Rightarrow> bool" where
  "silent es \<longleftrightarrow> all_kind (\<lambda>k. False) es"

lemma silent_simps [simp]: "silent []" "silent (a @ b) \<longleftrightarrow> silent a \<and> silent b" "silent (Told s # es) \<longleftrightarrow> silent es" "silent (Tried i # es) \<longleftrightarrow> silent es"
  by (auto simp: silent_def)

lemma silent_kind: "silent es \<Longrightarrow> all_kind K es"
  unfolding silent_def by (erule all_kind_mono) simp

definition arming :: "string \<Rightarrow> bool" where
  "arming = may_send [''/system/backup/save'', ''/system/scheduler/add'']"

definition saving :: "string \<Rightarrow> bool" where
  "saving = may_send [''/system/backup/save'']"

lemma saving_arming: "saving k \<Longrightarrow> arming k"
  by (auto simp: saving_def arming_def may_send_def)

lemma all_saving_arming: "all_kind saving es \<Longrightarrow> all_kind arming es"
  by (erule all_kind_mono) (rule saving_arming)

lemma kind_cmds [simp]: "kind_of (save_cmd name pw) = ''/system/backup/save''" "kind_of (arm_cmd name pw) = ''/system/scheduler/add''"
  by (simp_all add: save_cmd_def arm_cmd_def)

lemma grew_quiet: "now env m = (t, m') \<Longrightarrow> grew m [] m'" "random_bytes env n m = (b, m') \<Longrightarrow> grew m [] m'"
  by (simp_all add: grew_def)

lemma arming_simps [simp]: "arming ''/system/backup/save''" "arming ''/system/scheduler/add''" "arming ''/file/print''" "saving ''/system/backup/save''" "saving ''/file/print''"
  by (simp_all add: arming_def saving_def)

text \<open>When the switch is armed, the last command sent is the one that arms it, and it was taken.\<close>

lemma arm_grew:
  assumes "arm env m = Some (dm, m')"
  shows "\<exists>es. grew m es m' \<and> all_kind arming es \<and>
    (\<forall>d. dm = Some d \<longrightarrow> \<not> settled d \<and> (\<exists>pre pw r. es = pre @ [Sent (arm_cmd (dm_name d) pw) (Inr r)] \<and> all_kind saving pre))"
proof -
  define fin where "fin = (\<lambda>es. grew m es m' \<and> all_kind arming es \<and>
    (\<forall>d. dm = Some d \<longrightarrow> \<not> settled d \<and> (\<exists>pre pw r. es = pre @ [Sent (arm_cmd (dm_name d) pw) (Inr r)] \<and> all_kind saving pre)))"
  have early: "\<exists>es. fin es" if "dm = None" "grew m es m'" "all_kind arming es" for es using that by (auto simp: fin_def)
  note run = assms [unfolded arm_def]
  obtain b m1 where b: "NewBaseName env m = (b, m1)" by (cases "NewBaseName env m")
  have g1: "grew m [] m1" using b by (auto simp: NewBaseName_def grew_def split: prod.splits)
  have "\<exists>es. fin es"
  proof (cases b)
    case (Inl e)
    then show ?thesis using run b g1 by (intro early [of "[]"]) auto
  next
    case name: (Inr name)
    obtain q m2 where q: "random_bytes env 18 m1 = (q, m2)" by (cases "random_bytes env 18 m1")
    have g2: "grew m [] m2" using grew_trans [OF g1 grew_quiet(2) [OF q]] by simp
    show ?thesis
    proof (cases q)
      case (Inl e)
      then show ?thesis using run b name q g2 by (intro early [of "[]"]) auto
    next
      case bs: (Inr bs)
      define pw where "pw = EncodeToString bs"
      obtain a m3 where a: "send env (save_cmd name pw) m2 = (a, m3)" by (cases "send env (save_cmd name pw) m2")
      have g3: "grew m [Sent (save_cmd name pw) a] m3" "all_kind saving [Sent (save_cmd name pw) a]"
        using grew_trans [OF g2 grew_send [OF a]] by simp_all
      show ?thesis
      proof (cases a)
        case (Inl e)
        then show ?thesis using run b name q bs a g3 by (intro early [of "[Sent (save_cmd name pw) a]"] all_saving_arming [OF g3(2)]) (auto simp: pw_def)
      next
        case (Inr r)
        then obtain z m4 where z: "Settled env (writer env (15 * second)) (name @ ''.backup'') (60 * second) m3 = Some (z, m4)"
          and rest: "(case z of Inl _ \<Rightarrow> Some (None, m4) | Inr _ \<Rightarrow>
              case send env (arm_cmd name pw) m4 of (d, m) \<Rightarrow> (case d of Inl _ \<Rightarrow> Some (None, m) | Inr _ \<Rightarrow>
              case now env m of (t, m) \<Rightarrow> Some (Some \<lparr>dm_name = name, armedAt = t, settled = False\<rparr>, m))) = Some (dm, m')"
          using run b name q bs a unfolding pw_def by (auto simp: Option.bind_eq_Some_conv)
        obtain e4 where e4: "grew m3 e4 m4" "all_kind saving e4" by (rule sendsE [OF sends_Settled [OF z, of saving]]) simp_all
        have g4: "grew m ([Sent (save_cmd name pw) a] @ e4) m4" "all_kind saving ([Sent (save_cmd name pw) a] @ e4)"
          using grew_trans [OF g3(1) e4(1)] g3(2) e4(2) by simp_all
        show ?thesis
        proof (cases z)
          case (Inl e)
          then show ?thesis using rest g4 by (intro early [of "[Sent (save_cmd name pw) a] @ e4"] all_saving_arming [OF g4(2)]) auto
        next
          case zr: (Inr k)
          obtain d m5 where d: "send env (arm_cmd name pw) m4 = (d, m5)" by (cases "send env (arm_cmd name pw) m4")
          define es where "es = ([Sent (save_cmd name pw) a] @ e4) @ [Sent (arm_cmd name pw) d]"
          have g5: "grew m es m5" "all_kind arming es"
            using grew_trans [OF g4(1) grew_send [OF d]] all_saving_arming [OF g4(2)] by (simp_all add: es_def)
          show ?thesis
          proof (cases d)
            case (Inl e)
            then show ?thesis using rest zr d g5 by (intro early [of es]) auto
          next
            case (Inr r')
            obtain t m6 where t: "now env m5 = (t, m6)" by (cases "now env m5")
            have "m' = m6" "dm = Some \<lparr>dm_name = name, armedAt = t, settled = False\<rparr>" using rest zr d Inr t by auto
            moreover have "grew m es m6" using grew_trans [OF g5(1) grew_quiet(1) [OF t]] by simp
            ultimately have "fin es" using g5(2) g4(2) Inr unfolding fin_def es_def by auto
            then show ?thesis by blast
          qed
        qed
      qed
    qed
  qed
  then show ?thesis by (simp add: fin_def)
qed

section \<open>Imports and logins\<close>

text \<open>Only the files' imports, and all of them succeeded when the state has not changed.\<close>

definition imports_of :: "string list \<Rightarrow> event \<Rightarrow> bool" where
  "imports_of files e \<longleftrightarrow> (\<exists>s. e = Told s) \<or> (\<exists>f a. f \<in> set files \<and> e = Sent (import_cmd f False importTimeout) a)"

definition import_ok :: "event list \<Rightarrow> string \<Rightarrow> bool" where
  "import_ok es f \<longleftrightarrow> (\<exists>a. Sent (import_cmd f False importTimeout) a \<in> set es \<and> Kind (import_reply False a) = Ok_kind)"

text \<open>Nothing is sent after an import that was not a success.\<close>

fun in_turn :: "event list \<Rightarrow> bool" where
  "in_turn [] \<longleftrightarrow> True"
| "in_turn (e # es) \<longleftrightarrow> in_turn es \<and> (case e of Sent c r \<Rightarrow> Kind (import_reply False r) = Ok_kind \<or> silent es | _ \<Rightarrow> True)"

lemma in_turnD: "in_turn es \<Longrightarrow> es = xs @ Sent c r # ys \<Longrightarrow> Sent d q \<in> set xs \<Longrightarrow> Kind (import_reply False q) = Ok_kind"
proof (induction xs arbitrary: es)
  case (Cons x xs)
  have "\<not> silent (xs @ Sent c r # ys)" by (auto simp: silent_def)
  then show ?case using Cons by (cases x) auto
qed simp

lemma import_ok_mono: "import_ok es f \<Longrightarrow> set es \<subseteq> set fs \<Longrightarrow> import_ok fs f"
  unfolding import_ok_def by blast

lemma import_all_grew:
  "import_all env i files out m = (out', m') \<Longrightarrow> ou_State out = Applied_state \<Longrightarrow>
    \<exists>es. grew m es m' \<and> list_all (imports_of files) es \<and> ou_State out' \<noteq> Preflight_failed \<and> (ou_State out' = Applied_state \<longrightarrow> list_all (import_ok es) files) \<and>
      ou_Code out' \<in> {ou_Code out, ''import''} \<and> in_turn es"
proof (induction files arbitrary: i m)
  case Nil
  then have "m' = m" "out' = out" by simp_all
  then show ?case using Nil.prems(2) by (intro exI [of _ "[]"]) simp
next
  case (Cons f fs)
  obtain oc m1 where oc: "runImport env f False importTimeout (step ''import'' m) = (oc, m1)" by (cases "runImport env f False importTimeout (step ''import'' m)")
  obtain a where a: "grew (step ''import'' m) [Sent (import_cmd f False importTimeout) a] m1" "oc = import_reply False a" using runImport_grew [OF oc] by blast
  define one where "one = [Told ''import'', Sent (import_cmd f False importTimeout) a]"
  have g: "grew m one m1" "list_all (imports_of (f # fs)) one" "in_turn one" using grew_trans [OF grew_step a(1)] by (auto simp: one_def imports_of_def)
  show ?case
  proof (cases "Kind oc = Ok_kind")
    case False
    then have "m' = m1" "ou_State out' \<noteq> Applied_state" "ou_State out' \<noteq> Preflight_failed" "ou_Code out' = ''import''" using Cons.prems oc by (auto simp: Let_def split: if_splits)
    then show ?thesis using g by blast
  next
    case True
    then have "import_all env (i + 1) fs out m1 = (out', m')" using Cons.prems(1) oc by simp
    then obtain es where es: "grew m1 es m'" "list_all (imports_of fs) es" "ou_State out' \<noteq> Preflight_failed"
        "ou_State out' = Applied_state \<longrightarrow> list_all (import_ok es) fs" "ou_Code out' \<in> {ou_Code out, ''import''}" "in_turn es"
      using Cons.IH Cons.prems(2) by blast
    have "import_ok (one @ es) f" using True a(2) by (auto simp: import_ok_def one_def)
    moreover have "list_all (import_ok (one @ es)) fs" if "ou_State out' = Applied_state"
      using es(4) that import_ok_mono [of es _ "one @ es"] unfolding list_all_iff by auto
    moreover have "list_all (imports_of (f # fs)) es" using es(2) by (auto simp: list_all_iff imports_of_def)
    moreover have "in_turn (one @ es)" using True a(2) es(6) by (simp add: one_def)
    ultimately show ?thesis using grew_trans [OF g(1) es(1)] g(2) es(3,5) by (intro exI [of _ "one @ es"]) auto
  qed
qed

text \<open>A fresh login that is believed is the last thing that happened.\<close>

definition logged_in :: "Identity \<Rightarrow> event list \<Rightarrow> bool" where
  "logged_in expect es \<longleftrightarrow> (\<exists>pre ident. es = pre @ [Tried (Inr ident)] \<and> sameRouter ident expect)"

lemma login_loop_grew:
  assumes "login_loop env expect deadline m = Some y"
  shows "\<exists>es. grew m es (snd y) \<and> silent es \<and> (fst y \<longrightarrow> logged_in expect es)"
  using assms
proof (induction rule: login_loop.raw_induct [rotated 1, consumes 1, case_names 1])
  case (1 loop env expect deadline m y)
  obtain a m1 where a: "log_in env m = (a, m1)" by (cases "log_in env m")
  have g1: "grew m [Tried a] m1" using log_in_trace [OF a] by (simp add: grew_def)
  show ?case
  proof (cases "case a of Inl _ \<Rightarrow> False | Inr ident \<Rightarrow> sameRouter ident expect")
    case True
    then obtain ident where "a = Inr ident" "sameRouter ident expect" by (auto split: sum.splits)
    moreover from this have "y = (True, m1)" using 1(2) a by simp
    ultimately show ?thesis using g1 by (intro exI [of _ "[Tried a]"]) (auto simp: logged_in_def)
  next
    case False
    obtain t m2 where t: "now env m1 = (t, m2)" by (cases "now env m1")
    have g2: "grew m [Tried a] m2" using grew_trans [OF g1 grew_quiet(1) [OF t]] by simp
    show ?thesis
    proof (cases "t < deadline")
      case past: False
      then have "y = (False, m2)" using 1(2) a False t by (auto split: sum.splits)
      then show ?thesis using g2 by (intro exI [of _ "[Tried a]"]) simp
    next
      case True
      then have "loop env expect deadline (pause env (3 * second) m2) = Some y" using 1(2) a False t by (auto split: sum.splits)
      then obtain es where es: "grew (pause env (3 * second) m2) es (snd y)" "silent es" "fst y \<longrightarrow> logged_in expect es" using 1(1) by blast
      have "grew m2 es (snd y)" using es(1) by (simp add: grew_def)
      moreover have "fst y \<longrightarrow> logged_in expect (Tried a # es)" using es(3) unfolding logged_in_def by (metis append_Cons)
      ultimately show ?thesis using grew_trans [OF g2] es(2) by (intro exI [of _ "Tried a # es"]) fastforce
    qed
  qed
qed

lemma freshLogin_grew:
  assumes "freshLogin env expect window m = Some (ok, m')"
  shows "\<exists>es. grew m es m' \<and> silent es \<and> (ok \<longrightarrow> logged_in expect es)"
proof -
  obtain t m1 where t: "now env m = (t, m1)" by (cases "now env m")
  obtain es where "grew m1 es m'" "silent es" "ok \<longrightarrow> logged_in expect es"
    using login_loop_grew [of env expect "t + window" m1 "(ok, m')"] assms t by (auto simp: freshLogin_def)
  then show ?thesis using grew_trans [OF grew_quiet(1) [OF t]] by fastforce
qed

lemma revert_loop_grew:
  assumes "revert_loop env deadline due answered m = Some y"
  shows "\<exists>es. grew m es (snd y) \<and> silent es"
  using assms
proof (induction rule: revert_loop.raw_induct [rotated 1, consumes 1, case_names 1])
  case (1 loop env deadline due answered m y)
  obtain t m1 where t: "now env m = (t, m1)" by (cases "now env m")
  obtain a m2 where a: "log_in env (pause env (5 * second) m1) = (a, m2)" by (cases "log_in env (pause env (5 * second) m1)")
  have g: "grew m [Tried a] m2" using log_in_trace [OF a] quiet_trace(3) [OF t] by (simp add: grew_def)
  show ?case
  proof (cases "t < deadline")
    case False
    then have "y = ((False, answered), m1)" using 1(2) t by simp
    then show ?thesis using grew_quiet(1) [OF t] by (intro exI [of _ "[]"]) simp
  next
    case True
    show ?thesis
    proof (cases a)
      case (Inl e)
      then have "loop env deadline due answered m2 = Some y" using 1(2) t True a by simp
      then obtain es where "grew m2 es (snd y)" "silent es" using 1(1) by blast
      then show ?thesis using grew_trans [OF g] by (intro exI [of _ "[Tried a] @ es"]) auto
    next
      case (Inr ident)
      obtain u m3 where u: "now env m2 = (u, m3)" by (cases "now env m2")
      have g3: "grew m [Tried a] m3" using grew_trans [OF g grew_quiet(1) [OF u]] by simp
      show ?thesis
      proof (cases "u - Uptime ident < due - 15 * second")
        case True': True
        then have "loop env deadline due True m3 = Some y" using 1(2) t True a Inr u by simp
        then obtain es where "grew m3 es (snd y)" "silent es" using 1(1) by blast
        then show ?thesis using grew_trans [OF g3] by (intro exI [of _ "[Tried a] @ es"]) auto
      next
        case False
        then have "y = ((True, True), m3)" using 1(2) t True a Inr u by simp
        then show ?thesis using g3 by (intro exI [of _ "[Tried a]"]) simp
      qed
    qed
  qed
qed

end
