(* ===== verification/Deploy_Main.thy ===== *)
theory Deploy_Main
  imports Deploy_Order
begin

text \<open>
  The events from the first import to the end of a run: the fresh login, taking the switch off, the baseline, and waiting
  for a router that cut us off to revert itself.
\<close>

text \<open>
  What takes an armed switch off the router: removing its scheduler entry, or the backup file it loads. \<open>intact\<close> says that
  no such command was sent at all, whatever the answer.
\<close>

definition removal :: "string \<Rightarrow> bool" where
  "removal k \<longleftrightarrow> k = ''/system/scheduler/remove'' \<or> k = ''/file/remove''"

definition intact :: "event list \<Rightarrow> bool" where
  "intact es \<longleftrightarrow> all_kind (\<lambda>k. \<not> removal k) es"

lemma intact_simps [simp]: "intact []" "intact (a @ b) \<longleftrightarrow> intact a \<and> intact b" "intact (Told s # es) \<longleftrightarrow> intact es" "intact (Tried i # es) \<longleftrightarrow> intact es"
  by (auto simp: intact_def)

lemma intact_kind: "all_kind K es \<Longrightarrow> (\<And>k. K k \<Longrightarrow> \<not> removal k) \<Longrightarrow> intact es"
  unfolding intact_def by (rule all_kind_mono)

lemma intact_silent: "silent es \<Longrightarrow> intact es"
  unfolding silent_def by (erule intact_kind) simp

lemma intact_imports: "list_all (imports_of files) es \<Longrightarrow> intact es"
  by (auto simp: intact_def all_kind_def of_kind_def removal_def list_all_iff imports_of_def split: event.splits)

definition ending :: "string \<Rightarrow> bool" where
  "ending k \<longleftrightarrow> reading k \<or> has_suffix k ''/export'' \<or> k = ''/system/scheduler/remove''"

lemma calm_ending: "ending k \<Longrightarrow> calm k"
  using calm_export by (auto simp: ending_def calm_def)

text \<open>
  The switch of that name was looked up, its row says that it never ran, and its entry was asked to be removed, which was
  answered by \<open>q\<close>; before that nothing was removed.
\<close>

definition ask_cmd :: "string \<Rightarrow> Cmd" where
  "ask_cmd name = \<lparr>cmd_Path = ''/system/scheduler/print'', cmd_Args = [''?name='' @ name, ''=.proplist=.id,run-count''], cmd_Timeout = 15 * second\<rparr>"

definition off_cmd :: "row \<Rightarrow> Cmd" where
  "off_cmd r = \<lparr>cmd_Path = ''/system/scheduler/remove'', cmd_Args = [''=.id='' @ cell r ''.id''], cmd_Timeout = 15 * second\<rparr>"

definition asked_off :: "string \<Rightarrow> do_error + answer \<Rightarrow> event list \<Rightarrow> event list \<Rightarrow> bool" where
  "asked_off name q es post \<longleftrightarrow>
     (\<exists>pre res r rs. es = pre @ Sent (ask_cmd name) (Inr res) # Sent (off_cmd r) q # post \<and> an_rows res = r # rs \<and>
        (cell r ''run-count'' = [] \<or> cell r ''run-count'' = ''0'') \<and> intact pre)"

definition took_off :: "string \<Rightarrow> event list \<Rightarrow> bool" where
  "took_off name es \<longleftrightarrow> (\<exists>q post. asked_off name (Inr q) es post)"

text \<open>
  Nothing was removed; or, once we were back in on the right router, the switch alone was asked to go, once, and that
  failed.
\<close>

definition kept :: "Identity \<Rightarrow> string \<Rightarrow> event list \<Rightarrow> bool" where
  "kept expect name es \<longleftrightarrow> intact es \<or>
     (\<exists>bef ident aft x post. es = bef @ Tried (Inr ident) # aft \<and> sameRouter ident expect \<and> intact bef \<and>
        asked_off name (Inl x) aft post \<and> intact post)"

lemma asked_off_more: "asked_off name q es post \<Longrightarrow> asked_off name q (es @ fs) (post @ fs)" "asked_off name q es post \<Longrightarrow> intact pre \<Longrightarrow> asked_off name q (pre @ es) post"
proof -
  assume "asked_off name q es post"
  then obtain as res r rs where e: "es = as @ Sent (ask_cmd name) (Inr res) # Sent (off_cmd r) q # post" "an_rows res = r # rs"
      "cell r ''run-count'' = [] \<or> cell r ''run-count'' = ''0''" "intact as"
    unfolding asked_off_def by blast
  have "es @ fs = as @ Sent (ask_cmd name) (Inr res) # Sent (off_cmd r) q # (post @ fs)" using e(1) by simp
  then show "asked_off name q (es @ fs) (post @ fs)" unfolding asked_off_def using e(2-4) by blast
  assume "intact pre"
  moreover have "pre @ es = (pre @ as) @ Sent (ask_cmd name) (Inr res) # Sent (off_cmd r) q # post" using e(1) by simp
  ultimately show "asked_off name q (pre @ es) post" unfolding asked_off_def using e(2-4) by (metis intact_simps(2))
qed

lemma took_off_more: "took_off name es \<Longrightarrow> took_off name (es @ fs)" "took_off name es \<Longrightarrow> took_off name (Told s # es)"
proof -
  assume "took_off name es"
  then obtain q post where q: "asked_off name (Inr q) es post" by (auto simp: took_off_def)
  then show "took_off name (es @ fs)" using asked_off_more(1) unfolding took_off_def by blast
  have "asked_off name (Inr q) (Told s # es) post" using asked_off_more(2) [OF q, of "[Told s]"] by simp
  then show "took_off name (Told s # es)" unfolding took_off_def by blast
qed

lemma disarm_grew:
  assumes "disarm env d m = (off, m')"
  shows "\<exists>es. grew m es m' \<and> all_kind ending es \<and> (if off then took_off (dm_name d) es else intact es \<or> (\<exists>x. asked_off (dm_name d) (Inl x) es []))"
proof -
  obtain a m1 where a: "send env (ask_cmd (dm_name d)) m = (a, m1)" by (cases "send env (ask_cmd (dm_name d)) m")
  have p: "reading ''/system/scheduler/print''" by (simp add: reading_def has_suffix_def)
  have g1: "grew m [Sent (ask_cmd (dm_name d)) a] m1" "all_kind ending [Sent (ask_cmd (dm_name d)) a]" "intact [Sent (ask_cmd (dm_name d)) a]"
    using grew_send [OF a] p by (simp_all add: ask_cmd_def ending_def intact_def removal_def)
  note run = assms [unfolded disarm_def, folded ask_cmd_def]
  show ?thesis
  proof (cases "\<exists>res r rs. a = Inr res \<and> an_rows res = r # rs \<and> \<not> (cell r ''run-count'' \<noteq> [] \<and> cell r ''run-count'' \<noteq> ''0'')")
    case False
    then have "m' = m1" "\<not> off" using run a by (auto split: sum.splits list.splits if_splits)
    then show ?thesis using g1 by (intro exI [of _ "[Sent (ask_cmd (dm_name d)) a]"]) simp
  next
    case True
    then obtain res r rs where r: "a = Inr res" "an_rows res = r # rs" "\<not> (cell r ''run-count'' \<noteq> [] \<and> cell r ''run-count'' \<noteq> ''0'')" by blast
    obtain b m2 where b: "send env (off_cmd r) m1 = (b, m2)" by (cases "send env (off_cmd r) m1")
    define es where "es = [Sent (ask_cmd (dm_name d)) a, Sent (off_cmd r) b]"
    have off: "off = (case b of Inl _ \<Rightarrow> False | Inr _ \<Rightarrow> True)" "m' = m2" using run a r b by (auto simp: off_cmd_def split: if_splits)
    have asked: "asked_off (dm_name d) b es []"
      unfolding asked_off_def es_def using r by (intro exI [of _ "[]"] exI [of _ res] exI [of _ r] exI [of _ rs]) auto
    have "grew m es m2" using grew_trans [OF g1(1) grew_send [OF b]] by (simp add: es_def)
    moreover have "all_kind ending es" using g1(2) by (simp add: es_def off_cmd_def ending_def)
    ultimately show ?thesis using off asked by (cases b) (auto simp: took_off_def)
  qed
qed

lemma finish_run_grew:
  assumes "finish_run env a dm out m = Some ((out', dm'), m')"
  shows "\<exists>es. grew m es m' \<and> all_kind ending es \<and> ou_State out' = ou_State out \<and> dm' = dm"
proof (cases "ou_State out = Applied_state")
  case True
  then obtain r where r: "Snapshot env (pl_Template (rn_Plan a)) (step ''baseline'' m) = Some (r, m')"
    "out' = out\<lparr>Baseline := (case r of Inl _ \<Rightarrow> [] | Inr t \<Rightarrow> t), ou_Code := []\<rparr>" "dm' = dm"
    using assms by (auto simp: finish_run_def Option.bind_eq_Some_conv)
  obtain es where es: "grew (step ''baseline'' m) es m'" "all_kind ending es"
    using sends_grew [OF sends_Snapshot [OF r(1)], of ending] by (auto simp: ending_def)
  show ?thesis using grew_trans [OF grew_step es(1)] es(2) r(2,3) True by (intro exI [of _ "Told ''baseline'' # es"]) simp
next
  case False
  then have "m' = m" "out' = out" "dm' = dm" using assms by (auto simp: finish_run_def)
  then show ?thesis by (intro exI [of _ "[]"]) simp
qed

lemma lockedOut_grew:
  assumes "lockedOut env dm out m = Some ((out', dm'), m')"
  shows "\<exists>es. grew m es m' \<and> silent es \<and> ou_State out' \<noteq> Preflight_failed \<and> ou_State out' \<noteq> Applied_state \<and>
    (case dm of None \<Rightarrow> dm' = None | Some d \<Rightarrow> dm' = Some d \<or> dm' = Some (d\<lparr>settled := True\<rparr>) \<and> ou_Code out' = ''reverted'')"
proof (cases dm)
  case None
  then have "m' = m" "ou_State out' = Unknown_state" "dm' = None" using assms by (auto simp: lockedOut_def)
  then show ?thesis using None by (intro exI [of _ "[]"]) simp
next
  case (Some d)
  then obtain came answered where r: "revert_loop env (armedAt d + comeBackWindow) (armedAt d + DeadManAfter) False (step ''reverting'' m) = Some ((came, answered), m')"
    "(out', dm') = (if came
       then (out\<lparr>ou_State := Failed_state, ou_Code := ''reverted'', ou_Applied := None_applied, Reverted := True\<rparr>, Some (d\<lparr>settled := True\<rparr>))
       else (out\<lparr>ou_State := Unknown_state, ou_Applied := Unknown_applied, ou_Code := (if answered then ''not-reverted'' else ''locked-out'')\<rparr>, Some d))"
    using assms by (auto simp: lockedOut_def Option.bind_eq_Some_conv)
  obtain es where es: "grew (step ''reverting'' m) es m'" "silent es" using revert_loop_grew [OF r(1)] by auto
  have "grew m (Told ''reverting'' # es) m'" using grew_trans [OF grew_step es(1)] by simp
  then show ?thesis using es(2) r(2) Some by (intro exI [of _ "Told ''reverting'' # es"]) (auto split: if_splits)
qed

text \<open>What the outcome of a change says about what was sent.\<close>

definition outcome_ok :: "Run \<Rightarrow> string list \<Rightarrow> string option \<Rightarrow> Outcome \<Rightarrow> event list \<Rightarrow> event list \<Rightarrow> bool" where
  "outcome_ok a files armed out ims es \<longleftrightarrow>
     ou_State out \<noteq> Preflight_failed \<and>
     (ou_State out = Applied_state \<longrightarrow>
        list_all (import_ok ims) files \<and>
        (\<exists>pre ident post. es = pre @ Tried (Inr ident) # post \<and> sameRouter ident (Expect a) \<and> intact pre \<and>
           (\<forall>name. armed = Some name \<longrightarrow> took_off name post)))"

lemma change_router_grew:
  assumes "change_router env a files dm out m = Some ((out', dm'), m')" "ou_Code out = []" "\<forall>d. dm = Some d \<longrightarrow> \<not> settled d"
  shows "\<exists>ims es. grew m (ims @ es) m' \<and> list_all (imports_of files) ims \<and> in_turn ims \<and> all_kind ending es \<and> outcome_ok a files (map_option dm_name dm) out' ims es \<and>
    (case dm of None \<Rightarrow> dm' = None
     | Some d \<Rightarrow> dm' = Some d \<and> kept (Expect a) (dm_name d) es \<or> dm' = Some (d\<lparr>settled := True\<rparr>) \<and> ou_Code out' \<notin> {''locked-out'', ''not-reverted''})"
proof -
  define start where "start = out\<lparr>ou_State := Applied_state, ou_Applied := All\<rparr>"
  obtain o1 m1 where i: "import_all env 0 files start m = (o1, m1)" by (cases "import_all env 0 files start m")
  have "ou_State start = Applied_state" "ou_Code start = []" using assms(2) by (simp_all add: start_def)
  then obtain ims where ims: "grew m ims m1" "list_all (imports_of files) ims" "ou_State o1 \<noteq> Preflight_failed"
      "ou_State o1 = Applied_state \<longrightarrow> list_all (import_ok ims) files" "ou_Code o1 \<in> {[], ''import''}" "in_turn ims"
    using import_all_grew [OF i] by auto
  obtain t0 m2 where t0: "now env (step ''reconnect'' m1) = (t0, m2)" by (cases "now env (step ''reconnect'' m1)")
  obtain ok m3 where ok: "freshLogin env (Expect a) reconnectWindow (pause env firewallSettle m2) = Some (ok, m3)"
    and rest: "(if \<not> ok then lockedOut env dm o1 m3
       else case now env m3 of (t1, m) \<Rightarrow>
         (let out = o1\<lparr>ReconnectMS := milliseconds (t1 - t0)\<rparr>
          in case dm of
               None \<Rightarrow> finish_run env a None out m
             | Some d \<Rightarrow>
                 (case disarm env d (step ''disarm'' m) of (off, m) \<Rightarrow>
                    if off then finish_run env a (Some (d\<lparr>settled := True\<rparr>)) out m else lockedOut env dm out m))) = Some ((out', dm'), m')"
    using assms(1) i t0 by (auto simp: change_router_def start_def Option.bind_eq_Some_conv)
  obtain e3 where e3: "grew (pause env firewallSettle m2) e3 m3" "silent e3" "ok \<longrightarrow> logged_in (Expect a) e3" using freshLogin_grew [OF ok] by blast
  define es where "es = Told ''reconnect'' # e3"
  have g3: "grew m (ims @ es) m3" "all_kind ending es" "intact es"
    using ims(1) e3 quiet_trace(3) [OF t0] silent_kind intact_silent by (simp_all add: grew_def es_def)
  have seen: "ok \<Longrightarrow> \<exists>pre ident. es = pre @ [Tried (Inr ident)] \<and> sameRouter ident (Expect a)"
    using e3(3) unfolding es_def logged_in_def by (metis append_Cons)
  have locked: ?thesis if l: "lockedOut env dm o2 m4 = Some ((out', dm'), m')" and g: "grew m (ims @ fs) m4" "all_kind ending fs" "\<And>d ls. dm = Some d \<Longrightarrow> intact ls \<Longrightarrow> kept (Expect a) (dm_name d) (fs @ ls)" for o2 m4 fs
  proof -
    obtain ls where ls: "grew m4 ls m'" "silent ls" "ou_State out' \<noteq> Preflight_failed" "ou_State out' \<noteq> Applied_state"
      "case dm of None \<Rightarrow> dm' = None | Some d \<Rightarrow> dm' = Some d \<or> dm' = Some (d\<lparr>settled := True\<rparr>) \<and> ou_Code out' = ''reverted''"
      using lockedOut_grew [OF l] by blast
    have "grew m (ims @ (fs @ ls)) m'" using grew_trans [OF g(1) ls(1)] by simp
    moreover have "all_kind ending (fs @ ls)" "\<And>d. dm = Some d \<Longrightarrow> kept (Expect a) (dm_name d) (fs @ ls)"
      using g(2,3) silent_kind [OF ls(2)] intact_silent [OF ls(2)] by simp_all
    moreover have "outcome_ok a files (map_option dm_name dm) out' ims (fs @ ls)" using ls(3,4) by (simp add: outcome_ok_def)
    ultimately show ?thesis using ims(2,6) ls(5) by (intro exI [of _ ims] exI [of _ "fs @ ls"]) (auto split: option.splits)
  qed
  show ?thesis
  proof (cases ok)
    case False
    then have "lockedOut env dm o1 m3 = Some ((out', dm'), m')" using rest by simp
    then show ?thesis by (rule locked [OF _ g3(1,2)]) (use g3(3) in \<open>simp add: kept_def\<close>)
  next
    case True
    obtain t1 m4 where t1: "now env m3 = (t1, m4)" by (cases "now env m3")
    define o2 where "o2 = o1\<lparr>ReconnectMS := milliseconds (t1 - t0)\<rparr>"
    have g4: "grew m (ims @ es) m4" using grew_trans [OF g3(1) grew_quiet(1) [OF t1]] by simp
    have o2: "ou_State o2 = ou_State o1" "ou_Code o2 = ou_Code o1" by (simp_all add: o2_def)
    have finished: "\<exists>gs. grew m (ims @ fs @ gs) m' \<and> all_kind ending (fs @ gs) \<and> outcome_ok a files (map_option dm_name dm) out' ims (fs @ gs) \<and> dm' = dm2 \<and>
        ou_Code out' \<notin> {''locked-out'', ''not-reverted''}"
      if f: "finish_run env a dm2 o2 m5 = Some ((out', dm'), m')" and g: "grew m (ims @ fs) m5" "all_kind ending fs" "fs = es @ ds" "\<And>d. dm = Some d \<Longrightarrow> took_off (dm_name d) ds" for dm2 m5 fs ds
    proof -
      obtain gs where gs: "grew m5 gs m'" "all_kind ending gs" "ou_State out' = ou_State o2" "dm' = dm2" using finish_run_grew [OF f] by blast
      obtain pre ident where id: "es = pre @ [Tried (Inr ident)]" "sameRouter ident (Expect a)" using seen [OF True] by blast
      have "fs @ gs = pre @ Tried (Inr ident) # (ds @ gs)" using id(1) g(3) by simp
      moreover have "\<forall>name. map_option dm_name dm = Some name \<longrightarrow> took_off name (ds @ gs)" using g(4) took_off_more(1) by auto
      moreover have "intact pre" using g3(3) id(1) by simp
      ultimately have "outcome_ok a files (map_option dm_name dm) out' ims (fs @ gs)" using id(2) gs(3) o2(1) ims(3,4) unfolding outcome_ok_def by metis
      moreover have "ou_Code out' = [] \<or> out' = o2" using f by (auto simp: finish_run_def Option.bind_eq_Some_conv split: if_splits)
      then have "ou_Code out' \<notin> {''locked-out'', ''not-reverted''}" using o2(2) ims(5) by auto
      moreover have "grew m (ims @ fs @ gs) m'" using grew_trans [OF g(1) gs(1)] by simp
      ultimately show ?thesis using g(2) gs(2,4) by (intro exI [of _ gs]) simp
    qed
    show ?thesis
    proof (cases dm)
      case None
      then have "finish_run env a None o2 m4 = Some ((out', dm'), m')" using rest True t1 by (simp add: o2_def)
      then obtain gs where gs: "grew m (ims @ es @ gs) m'" "all_kind ending (es @ gs)" "outcome_ok a files (map_option dm_name dm) out' ims (es @ gs)" "dm' = None"
        using finished [OF _ g4 g3(2), where ds = "[]"] None by auto
      show ?thesis by (intro exI [of _ ims] exI [of _ "es @ gs"]) (use gs ims(2,6) None in simp)
    next
      case (Some d)
      obtain off m5 where d: "disarm env d (step ''disarm'' m4) = (off, m5)" by (cases "disarm env d (step ''disarm'' m4)")
      obtain ds where ds: "grew (step ''disarm'' m4) ds m5" "all_kind ending ds" "if off then took_off (dm_name d) ds else intact ds \<or> (\<exists>x. asked_off (dm_name d) (Inl x) ds [])" using disarm_grew [OF d] by blast
      define fs where "fs = es @ Told ''disarm'' # ds"
      have g5: "grew m (ims @ fs) m5" "all_kind ending fs" "fs = es @ Told ''disarm'' # ds"
        using grew_trans [OF g4 grew_trans [OF grew_step ds(1)]] g3(2) ds(2) by (auto simp: fs_def)
      show ?thesis
      proof (cases off)
        case False
        then have l: "lockedOut env dm o2 m5 = Some ((out', dm'), m')" using rest True t1 Some d by (simp add: o2_def)
        have k: "kept (Expect a) (dm_name e) (fs @ ls)" if e: "dm = Some e" "intact ls" for e ls
        proof (cases "intact ds")
          case True
          then show ?thesis using g3(3) e(2) by (simp add: fs_def kept_def)
        next
          case gone: False
          then obtain x where "asked_off (dm_name d) (Inl x) ds []" using ds(3) False by auto
          then have x: "asked_off (dm_name e) (Inl x) (Told ''disarm'' # ds @ ls) ls"
            using asked_off_more(1) [of "dm_name d" "Inl x" ds "[]" ls] asked_off_more(2) [of "dm_name d" "Inl x" "ds @ ls" ls "[Told ''disarm'']"] e(1) Some by simp
          obtain pre ident where id: "es = pre @ [Tried (Inr ident)]" "sameRouter ident (Expect a)" using seen [OF True] by blast
          have "fs @ ls = pre @ Tried (Inr ident) # (Told ''disarm'' # ds @ ls)" using id(1) by (simp add: fs_def)
          then show ?thesis unfolding kept_def using id x g3(3) e(2) by (metis intact_simps(2))
        qed
        show ?thesis by (rule locked [OF l g5(1,2) k])
      next
        case off: True
        then have "finish_run env a (Some (d\<lparr>settled := True\<rparr>)) o2 m5 = Some ((out', dm'), m')" using rest True t1 Some d by (simp add: o2_def)
        then obtain gs where gs: "grew m (ims @ fs @ gs) m'" "all_kind ending (fs @ gs)" "outcome_ok a files (map_option dm_name dm) out' ims (fs @ gs)"
            "dm' = Some (d\<lparr>settled := True\<rparr>)" "ou_Code out' \<notin> {''locked-out'', ''not-reverted''}"
          using finished [OF _ g5] ds(3) off Some took_off_more(2) by auto
        show ?thesis by (intro exI [of _ ims] exI [of _ "fs @ gs"]) (use gs ims(2,6) Some in simp)
      qed
    qed
  qed
qed

end
