(* ===== verification/Deploy_Sound.thy ===== *)
theory Deploy_Sound
  imports Deploy_Main
begin

text \<open>
  What a whole run promises, read off its trace: an import is sent only when everything before it was done, the switch
  stays on a router that locked us out, and a run that says it applied the template has logged in again.
\<close>

section \<open>The shape of a run\<close>

text \<open>The plan is the approved one, nothing in it is refused, and what must be acknowledged was.\<close>

definition agreed :: "Run \<Rightarrow> Prepared \<Rightarrow> bool" where
  "agreed a prep \<longleftrightarrow> Hash prep = Approved a \<and>
     (\<forall>f\<in>set (Findings prep). Level f \<noteq> Refuse \<and> (Level f = Ack \<longrightarrow> FindingKey f \<in> set (Acked a)))"

lemma judge_findings_None: "judge_findings a fs missing = None \<longleftrightarrow>
    \<not> missing \<and> (\<forall>f\<in>set fs. Level f \<noteq> Refuse \<and> (Level f = Ack \<longrightarrow> FindingKey f \<in> set (Acked a)))"
  by (induction a fs missing rule: judge_findings.induct) (auto split: Level.splits)

lemma judge_plan_None: "judge_plan prep a = None \<longleftrightarrow> agreed a prep"
  by (simp add: judge_plan_def agreed_def judge_findings_None)

lemma leave_grew: "\<exists>gs. grew m gs (snd (leave env out dm m)) \<and> all_kind sweeping gs \<and> (\<forall>d. dm = Some d \<longrightarrow> \<not> settled d \<longrightarrow> gs = [])"
proof (cases "case dm of None \<Rightarrow> True | Some d \<Rightarrow> settled d")
  case True
  obtain gs where "grew m gs (sweep env m)" "all_kind sweeping gs" using sends_sweep by (rule sendsE)
  then show ?thesis using True by (auto simp: leave_def)
next
  case False
  then show ?thesis by (intro exI [of _ "[]"]) (auto simp: leave_def split: option.splits)
qed

lemma fst_leave [simp]: "fst (leave env out dm m) = out"
  by (simp add: leave_def)

definition harmless :: "string \<Rightarrow> bool" where
  "harmless k \<longleftrightarrow> k \<noteq> ''/import''"

lemma harmless_simps [simp]: "calm k \<Longrightarrow> harmless k" "\<not> harmless ''/import''" "harmless ''/system/scheduler/add''"
  by (auto simp: harmless_def calm_def)

lemma arming_harmless: "arming k \<Longrightarrow> harmless k"
  by (auto simp: arming_def may_send_def harmless_def)

lemma saving_calm: "saving k \<Longrightarrow> calm k"
  by (auto simp: saving_def intro: calm_may)

lemma calm_harmless: "all_kind calm es \<Longrightarrow> all_kind harmless es"
  by (erule all_kind_mono) simp

lemma checked_more: "checked kit a es prep files \<Longrightarrow> checked kit a (es @ fs) prep files"
proof -
  assume c: "checked kit a es prep files"
  obtain parts where parts: "SplitParts (Rendered prep) MaxPart = Inr parts" "list_all2 (uploaded es) files parts" using c by (auto simp: checked_def)
  obtain pre again post where again: "es = pre @ [Told ''recheck''] @ post" "list_all (dry_ok pre) files" "prepared kit (rn_Plan a) post again"
      "Hash again = Hash prep" "keys_of (Findings again) = keys_of (Findings prep)"
    using c unfolding checked_def by blast
  have "list_all2 (uploaded (es @ fs)) files parts" by (rule list_all2_mono [OF parts(2)]) (erule uploaded_mono, simp)
  moreover have "list_all (dry_ok (es @ fs)) files" using c dry_ok_mono [of es _ "es @ fs"] by (auto simp: checked_def list_all_iff)
  moreover have "es @ fs = pre @ [Told ''recheck''] @ (post @ fs)" using again(1) by simp
  moreover have "prepared kit (rn_Plan a) (post @ fs) again" by (rule prepared_mono [OF again(3)]) simp
  moreover have "prepared kit (rn_Plan a) (es @ fs) prep" by (rule prepared_mono [of kit _ es]) (use c in \<open>simp_all add: checked_def\<close>)
  moreover have "\<exists>bid. Saved (Inr bid) \<in> set (es @ fs)" "judge_plan prep a = None" using c by (auto simp: checked_def)
  ultimately show ?thesis using parts(1) again(2,4,5) unfolding checked_def by blast
qed

text \<open>What the trace of a run is made of, by how far the run got.\<close>

definition ran :: "toolkit \<Rightarrow> Run \<Rightarrow> Outcome \<Rightarrow> event list \<Rightarrow> event list \<Rightarrow> event list \<Rightarrow> event list \<Rightarrow> string list \<Rightarrow> Prepared \<Rightarrow> bool" where
  "ran kit a out pre ims es gs files prep \<longleftrightarrow>
     all_kind harmless pre \<and> checked kit a pre prep files \<and> list_all (imports_of files) ims \<and> in_turn ims \<and> all_kind ending es \<and>
     all_kind sweeping gs \<and>
     (if LockClass (Findings prep)
      then \<exists>pf name pw r. pre = pf @ [Sent (arm_cmd name pw) (Inr r)] \<and> all_kind calm pf \<and> outcome_ok a files (Some name) out ims es \<and>
             (ou_Code out \<in> {''locked-out'', ''not-reverted''} \<longrightarrow> kept (Expect a) name es \<and> gs = [])
      else all_kind calm pre \<and> outcome_ok a files None out ims es)"

definition stopped :: "Outcome \<Rightarrow> event list \<Rightarrow> bool" where
  "stopped out es \<longleftrightarrow> ou_State out = Preflight_failed \<and> all_kind harmless es \<and> (all_kind calm es \<or> ou_Code out = ''dead-man'')"

lemma changed_ran:
  assumes "change_router env a files dm out m = Some ((out', dm'), m1)" "leave env out' dm' m1 = (o2, m')" "ou_Code out = []"
    "case dm of None \<Rightarrow> \<not> LockClass (Findings prep) \<and> all_kind calm pre
     | Some d \<Rightarrow> LockClass (Findings prep) \<and> \<not> settled d \<and> (\<exists>pf pw r. pre = pf @ [Sent (arm_cmd (dm_name d) pw) (Inr r)] \<and> all_kind calm pf)"
    "checked kit a pre prep files"
  shows "\<exists>ims es gs. grew m (ims @ es @ gs) m' \<and> ran kit a o2 pre ims es gs files prep"
proof -
  have unsettled: "\<forall>d. dm = Some d \<longrightarrow> \<not> settled d" using assms(4) by (auto split: option.splits)
  obtain ims es where i: "grew m (ims @ es) m1" "list_all (imports_of files) ims" "in_turn ims" "all_kind ending es" "outcome_ok a files (map_option dm_name dm) out' ims es"
    "case dm of None \<Rightarrow> dm' = None
     | Some d \<Rightarrow> dm' = Some d \<and> kept (Expect a) (dm_name d) es \<or> dm' = Some (d\<lparr>settled := True\<rparr>) \<and> ou_Code out' \<notin> {''locked-out'', ''not-reverted''}"
    using change_router_grew [OF assms(1,3) unsettled] by blast
  obtain gs where gs: "grew m1 gs m'" "all_kind sweeping gs" "\<forall>d. dm' = Some d \<longrightarrow> \<not> settled d \<longrightarrow> gs = []"
    using leave_grew [of m1 env out' dm'] assms(2) by auto
  have o2: "o2 = out'" using fst_leave [of env out' dm' m1] assms(2) by simp
  have h: "all_kind harmless pre" using assms(4) calm_harmless by (auto split: option.splits)
  have "grew m (ims @ es @ gs) m'" using grew_trans [OF i(1) gs(1)] by simp
  moreover have "ran kit a o2 pre ims es gs files prep"
  proof (cases dm)
    case None
    then show ?thesis using i h assms(4,5) gs(2) o2 by (simp add: ran_def)
  next
    case (Some d)
    have "ou_Code out' \<in> {''locked-out'', ''not-reverted''} \<longrightarrow> kept (Expect a) (dm_name d) es \<and> gs = []" using i(6) gs(3) Some unsettled by auto
    moreover obtain pf pw r where "pre = pf @ [Sent (arm_cmd (dm_name d) pw) (Inr r)]" "all_kind calm pf" "LockClass (Findings prep)"
      using assms(4) Some by auto
    moreover have "outcome_ok a files (Some (dm_name d)) o2 ims es" using i(5) Some o2 by simp
    ultimately show ?thesis using i(2,3,4) h assms(5) gs(2) o2 unfolding ran_def by auto
  qed
  ultimately show ?thesis by blast
qed

lemma RunAdditions_shape:
  assumes "RunAdditions kit env a m = Some (out, m')"
  shows "(\<exists>es. grew m es m' \<and> stopped out es) \<or>
    (\<exists>pre ims es gs files prep. grew m (pre @ ims @ es @ gs) m' \<and> ran kit a out pre ims es gs files prep)"
proof -
  obtain r m1 where r: "preflight kit env a m = Some (r, m1)"
    and rest: "(case r of
             Inl out \<Rightarrow> Some (leave env out None m1)
           | Inr (prep, files, out) \<Rightarrow>
               if LockClass (Findings prep)
               then do { (dm, m) \<leftarrow> arm env (step ''arm'' m1);
                         (case dm of
                            None \<Rightarrow> Some (leave env (out\<lparr>ou_Code := ''dead-man''\<rparr>) None m)
                          | Some d \<Rightarrow>
                              do { ((out, dm), m) \<leftarrow> change_router env a files (Some d) out m; Some (leave env out dm m) }) }
               else do { ((out, dm), m) \<leftarrow> change_router env a files None out m1; Some (leave env out dm m) }) = Some (out, m')"
    using assms by (auto simp: RunAdditions_def Option.bind_eq_Some_conv)
  obtain es where es: "grew m es m1" "all_kind calm es"
    "case r of Inl out \<Rightarrow> ou_State out = Preflight_failed
     | Inr (prep, files, out) \<Rightarrow> ou_Code out = [] \<and> ou_State out = Preflight_failed \<and> checked kit a es prep files"
    using preflight_checked [OF r] by blast
  show ?thesis
  proof (cases r)
    case (Inl o1)
    then have l: "leave env o1 None m1 = (out, m')" using rest by simp
    obtain gs where "grew m1 gs m'" "all_kind sweeping gs" using leave_grew [of m1 env o1 None] l by auto
    moreover have "out = o1" using fst_leave [of env o1 None m1] l by simp
    moreover have "all_kind calm (es @ gs)" using es(2) calculation(2) all_kind_mono [of sweeping gs calm] by simp
    ultimately show ?thesis
      using grew_trans [OF es(1)] es(3) Inl all_kind_mono [of calm "es @ gs" harmless] unfolding stopped_def by fastforce
  next
    case (Inr x)
    obtain prep files o1 where x: "x = (prep, files, o1)" by (cases x)
    have c: "ou_Code o1 = []" "ou_State o1 = Preflight_failed" "checked kit a es prep files" using es(3) Inr x by auto
    show ?thesis
    proof (cases "LockClass (Findings prep)")
      case False
      then obtain o2 dm m2 where o2: "change_router env a files None o1 m1 = Some ((o2, dm), m2)" "leave env o2 dm m2 = (out, m')"
        using rest Inr x by (auto simp: Option.bind_eq_Some_conv)
      obtain ims fs gs where "grew m1 (ims @ fs @ gs) m'" "ran kit a out es ims fs gs files prep"
        using changed_ran [OF o2 c(1) _ c(3)] False es(2) by auto
      then show ?thesis using grew_trans [OF es(1)] by blast
    next
      case lock: True
      then obtain dm m2 where dm: "arm env (step ''arm'' m1) = Some (dm, m2)"
        and rest2: "(case dm of None \<Rightarrow> Some (leave env (o1\<lparr>ou_Code := ''dead-man''\<rparr>) None m2)
          | Some d \<Rightarrow> do { ((out, dm), m) \<leftarrow> change_router env a files (Some d) o1 m2; Some (leave env out dm m) }) = Some (out, m')"
        using rest Inr x by (auto simp: Option.bind_eq_Some_conv)
      obtain as where as: "grew (step ''arm'' m1) as m2" "all_kind arming as"
        "\<forall>d. dm = Some d \<longrightarrow> \<not> settled d \<and> (\<exists>pre pw r. as = pre @ [Sent (arm_cmd (dm_name d) pw) (Inr r)] \<and> all_kind saving pre)"
        using arm_grew [OF dm] by blast
      define pre where "pre = es @ Told ''arm'' # as"
      have g: "grew m pre m2" using grew_trans [OF es(1) grew_trans [OF grew_step as(1)]] by (simp add: pre_def)
      have h: "all_kind harmless pre" using es(2) as(2) all_kind_mono [of calm es harmless] all_kind_mono [OF as(2) arming_harmless] by (simp add: pre_def)
      show ?thesis
      proof (cases dm)
        case None
        then have l: "leave env (o1\<lparr>ou_Code := ''dead-man''\<rparr>) None m2 = (out, m')" using rest2 by simp
        obtain gs where gs: "grew m2 gs m'" "all_kind sweeping gs" using leave_grew [of m2 env "o1\<lparr>ou_Code := ''dead-man''\<rparr>" None] l by auto
        have "out = o1\<lparr>ou_Code := ''dead-man''\<rparr>" using fst_leave [of env _ None m2] l by (metis fst_conv)
        then have "stopped out (pre @ gs)" using h c(2) all_kind_mono [OF gs(2), of harmless] by (simp add: stopped_def)
        then show ?thesis using grew_trans [OF g gs(1)] by blast
      next
        case (Some d)
        then obtain o2 dm2 m3 where o2: "change_router env a files (Some d) o1 m2 = Some ((o2, dm2), m3)" "leave env o2 dm2 m3 = (out, m')"
          using rest2 by (auto simp: Option.bind_eq_Some_conv)
        obtain sv pw q where sv: "as = sv @ [Sent (arm_cmd (dm_name d) pw) (Inr q)]" "all_kind saving sv" "\<not> settled d" using as(3) Some by blast
        have shape: "pre = (es @ Told ''arm'' # sv) @ [Sent (arm_cmd (dm_name d) pw) (Inr q)]" "all_kind calm (es @ Told ''arm'' # sv)"
          using sv es(2) all_kind_mono [OF sv(2) saving_calm] by (simp_all add: pre_def)
        have ch: "checked kit a pre prep files" unfolding pre_def by (rule checked_more [OF c(3)])
        have armed: "case Some d of None \<Rightarrow> \<not> LockClass (Findings prep) \<and> all_kind calm pre
     | Some d \<Rightarrow> LockClass (Findings prep) \<and> \<not> settled d \<and> (\<exists>pf pw r. pre = pf @ [Sent (arm_cmd (dm_name d) pw) (Inr r)] \<and> all_kind calm pf)"
          using lock sv(3) shape by auto
        obtain ims fs gs where "grew m2 (ims @ fs @ gs) m'" "ran kit a out pre ims fs gs files prep"
          using changed_ran [OF o2 c(1) armed ch] by blast
        then show ?thesis using grew_trans [OF g] by blast
      qed
    qed
  qed
qed


section \<open>What a run promises\<close>

lemma split_middle:
  "as @ bs @ cs = xs @ e # ys \<Longrightarrow> P e \<Longrightarrow> list_all (\<lambda>x. \<not> P x) as \<Longrightarrow> list_all (\<lambda>x. \<not> P x) cs \<Longrightarrow>
    \<exists>b1 b2. bs = b1 @ e # b2 \<and> xs = as @ b1 \<and> ys = b2 @ cs"
proof (induction as arbitrary: xs)
  case Nil
  then show ?case
  proof (induction bs arbitrary: xs)
    case Nil
    then have "e \<in> set cs" by simp
    then show ?case using Nil.prems by (auto simp: list_all_iff)
  next
    case (Cons b bs)
    show ?case
    proof (cases xs)
      case Nil
      then show ?thesis using Cons.prems by (intro exI [of _ "[]"] exI [of _ bs]) auto
    next
      case xs: (Cons x xs')
      then obtain b1 b2 where "bs = b1 @ e # b2" "xs' = b1" "ys = b2 @ cs" using Cons.IH [of xs'] Cons.prems by auto
      then show ?thesis using xs Cons.prems by (intro exI [of _ "b # b1"] exI [of _ b2]) simp
    qed
  qed
next
  case (Cons a as)
  then show ?case by (cases xs) auto
qed

definition event_kind :: "string \<Rightarrow> event \<Rightarrow> bool" where
  "event_kind k e \<longleftrightarrow> (\<exists>c r. e = Sent c r \<and> kind_of c = k)"

lemma no_kind: "all_kind K es \<Longrightarrow> \<not> K k \<Longrightarrow> list_all (\<lambda>e. \<not> event_kind k e) es"
  unfolding all_kind_def list_all_iff event_kind_def of_kind_def by auto

lemma real_kind [simp]: "real_import c \<Longrightarrow> kind_of c = ''/import''"
  by (simp add: real_import_def kind_of_def)

lemma kind_real: "kind_of c = ''/import'' \<Longrightarrow> real_import c"
  by (auto simp: real_import_def kind_of_def split: if_splits)

lemma ending_kinds [simp]: "\<not> ending ''/import''" "\<not> ending ''/system/scheduler/add''" "\<not> sweeping ''/import''" "\<not> sweeping ''/system/scheduler/add''"
  by (auto simp: sweeping_def dest: calm_ending)

lemma kept_later: "kept expect name es \<Longrightarrow> intact ims \<Longrightarrow> kept expect name (ims @ es)"
proof -
  assume k: "kept expect name es" and i: "intact ims"
  show ?thesis
  proof (cases "intact es")
    case True
    then show ?thesis using i by (simp add: kept_def)
  next
    case False
    then obtain bef ident aft x post where e: "es = bef @ Tried (Inr ident) # aft" "sameRouter ident expect" "intact bef" "asked_off name (Inl x) aft post" "intact post"
      using k by (auto simp: kept_def)
    have "ims @ es = (ims @ bef) @ Tried (Inr ident) # aft" "intact (ims @ bef)" using e(1,3) i by simp_all
    then show ?thesis using e(2,4,5) unfolding kept_def by blast
  qed
qed

text \<open>All that was done before an import was sent.\<close>

definition cleared :: "toolkit \<Rightarrow> Run \<Rightarrow> event list \<Rightarrow> Cmd \<Rightarrow> bool" where
  "cleared kit a es c \<longleftrightarrow>
     (\<exists>prep files f. agreed a prep \<and> checked kit a es prep files \<and> f \<in> set files \<and> c = import_cmd f False importTimeout \<and>
        (LockClass (Findings prep) \<longrightarrow> (\<exists>name pw r. Sent (arm_cmd name pw) (Inr r) \<in> set es))) \<and>
     (\<forall>d r. Sent d r \<in> set es \<longrightarrow> real_import d \<longrightarrow> Kind (import_reply False r) = Ok_kind)"

lemma ran_import:
  assumes "ran kit a out pre ims es gs files prep" "pre @ ims @ es @ gs = xs @ Sent c r # ys" "real_import c"
  shows "cleared kit a xs c"
proof -
  note r = assms(1) [unfolded ran_def]
  have quiet: "list_all (\<lambda>e. \<not> event_kind ''/import'' e) pre" "list_all (\<lambda>e. \<not> event_kind ''/import'' e) (es @ gs)"
    using r no_kind [of harmless pre "''/import''"] no_kind [of ending es "''/import''"] no_kind [of sweeping gs "''/import''"] by auto
  have e: "event_kind ''/import'' (Sent c r)" using assms(3) by (simp add: event_kind_def)
  obtain b1 b2 where b: "ims = b1 @ Sent c r # b2" "xs = pre @ b1" using split_middle [OF assms(2) e quiet] by blast
  have "imports_of files (Sent c r)" using r b(1) by simp
  then obtain f where f: "f \<in> set files" "c = import_cmd f False importTimeout" by (auto simp: imports_of_def)
  have armed: "\<exists>name pw r. Sent (arm_cmd name pw) (Inr r) \<in> set xs" if l: "LockClass (Findings prep)"
  proof -
    obtain pf name pw q where "pre = pf @ [Sent (arm_cmd name pw) (Inr q)]" using r l by auto
    then have "Sent (arm_cmd name pw) (Inr q) \<in> set xs" using b(2) by simp
    then show ?thesis by blast
  qed
  have good: "Kind (import_reply False q) = Ok_kind" if d: "Sent d q \<in> set xs" "real_import d" for d q
  proof -
    have "Sent d q \<notin> set pre" using quiet(1) d(2) by (auto simp: list_all_iff event_kind_def)
    then have "Sent d q \<in> set b1" using d(1) b(2) by simp
    then show ?thesis using in_turnD [OF _ b(1)] r by blast
  qed
  have "agreed a prep" using r by (simp add: checked_def judge_plan_None)
  moreover have "checked kit a xs prep files" using r checked_more b(2) by blast
  ultimately show ?thesis using f armed good unfolding cleared_def by blast
qed

text \<open>
  C1. An import is sent to a router only when: the template was prepared from rows read from it; what is sent is what was
  approved, holds nothing that is refused, and what must be acknowledged was; a backup was stored; every part of it was
  uploaded and passed a dry run; prepared once more after that it had not changed; the switch that undoes it is armed when
  the change could cut us off; and every import before it succeeded.
\<close>

theorem import_is_cleared:
  assumes "RunAdditions kit env a m = Some (out, m')" "trace m = []" "trace m' = xs @ Sent c r # ys" "real_import c"
  shows "cleared kit a xs c"
  using RunAdditions_shape [OF assms(1)]
proof (elim disjE exE conjE)
  fix es assume es: "grew m es m'" "stopped out es"
  have "list_all (\<lambda>e. \<not> event_kind ''/import'' e) es" using es(2) no_kind [of harmless es "''/import''"] by (simp add: stopped_def)
  moreover have "Sent c r \<in> set es" using es(1) assms(2,3) by (auto simp: grew_def dest: sym)
  ultimately show ?thesis using real_kind [OF assms(4)] unfolding list_all_iff event_kind_def by blast
next
  fix pre ims es gs files prep
  assume g: "grew m (pre @ ims @ es @ gs) m'" "ran kit a out pre ims es gs files prep"
  have "pre @ ims @ es @ gs = xs @ Sent c r # ys" using g(1) assms(2,3) by (simp add: grew_def)
  from ran_import [OF g(2) this assms(4)] show ?thesis .
qed

text \<open>
  C2. When a run ends locked out, or with a router that did not revert itself, it did not take the switch off. After the
  switch was armed no file is removed; no removal of a scheduler entry is even sent, except in one case: once we were let
  back in on the router the run was planned for, the row of this very switch, which says it never ran, was asked to be
  removed, once, and the router answered with an error or the answer was lost.
\<close>

theorem dead_man_stays:
  assumes "RunAdditions kit env a m = Some (out, m')" "trace m = []" "trace m' = xs @ Sent (arm_cmd name pw) (Inr r) # ys"
    "ou_Code out \<in> {''locked-out'', ''not-reverted''}"
  shows "kept (Expect a) name ys"
proof -
  define add where "add = event_kind ''/system/scheduler/add''"
  have e: "add (Sent (arm_cmd name pw) (Inr r))" by (simp add: add_def event_kind_def)
  have none: "False" if n: "list_all (\<lambda>e. \<not> add e) es" "grew m es m'" for es
    using n assms(2,3) e by (auto simp: grew_def list_all_iff)
  show ?thesis
    using RunAdditions_shape [OF assms(1)]
  proof (elim disjE exE conjE)
    fix es assume es: "grew m es m'" "stopped out es"
    have "all_kind calm es" using es(2) assms(4) by (auto simp: stopped_def)
    then show ?thesis using none [OF _ es(1)] no_kind [of calm es] by (simp add: add_def)
  next
    fix pre ims es gs files prep
    assume g: "grew m (pre @ ims @ es @ gs) m'" "ran kit a out pre ims es gs files prep"
    note s = g(2) [unfolded ran_def]
    have i: "list_all (\<lambda>e. \<not> add e) ims" "intact ims" using s intact_imports [of files ims] by (auto simp: list_all_iff imports_of_def add_def event_kind_def)
    have q: "list_all (\<lambda>e. \<not> add e) es" "list_all (\<lambda>e. \<not> add e) gs"
      unfolding add_def using s by (auto intro!: no_kind [of ending es] no_kind [of sweeping gs])
    show ?thesis
    proof (cases "LockClass (Findings prep)")
      case False
      then have "list_all (\<lambda>e. \<not> add e) pre" using s no_kind [of calm pre] by (simp add: add_def)
      then have "list_all (\<lambda>e. \<not> add e) (pre @ ims @ es @ gs)" using i(1) q by simp
      then show ?thesis using none [OF _ g(1)] by blast
    next
      case True
      then obtain pf n p t where pf: "pre = pf @ [Sent (arm_cmd n p) (Inr t)]" "all_kind calm pf" "kept (Expect a) n es" "gs = []"
        using s assms(4) by auto
      have "pf @ [Sent (arm_cmd n p) (Inr t)] @ (ims @ es) = xs @ Sent (arm_cmd name pw) (Inr r) # ys"
        using g(1) pf(1,4) assms(2,3) by (simp add: grew_def)
      moreover have "list_all (\<lambda>e. \<not> add e) pf" using pf(2) no_kind [of calm pf] by (simp add: add_def)
      moreover have "list_all (\<lambda>e. \<not> add e) (ims @ es)" using i(1) q(1) by simp
      ultimately obtain b1 b2 where "[Sent (arm_cmd n p) (Inr t)] = b1 @ Sent (arm_cmd name pw) (Inr r) # b2" "ys = b2 @ ims @ es"
        using split_middle [where P = add, OF _ e] by blast
      then have "ys = ims @ es" "arm_cmd n p = arm_cmd name pw" by (cases b1; simp)+
      then show ?thesis using kept_later [OF pf(3) i(2)] by (simp add: arm_cmd_def)
    qed
  qed
qed

text \<open>
  C3. A run that says it applied the template has imported every part with success, and has logged in afresh after that to
  the router it was planned for. Where the change needed a switch, only then was it taken off: between the arming and that
  login no removal of a scheduler entry or of a file was sent at all, and after the login the switch that was armed was
  looked up by its name, its row said it never ran, and the router accepted the removal of that row.
\<close>

theorem applied_means_logged_in:
  assumes "RunAdditions kit env a m = Some (out, m')" "trace m = []" "ou_State out = Applied_state"
  shows "\<exists>prep files xs ident ys. trace m' = xs @ Tried (Inr ident) # ys \<and> sameRouter ident (Expect a) \<and>
    agreed a prep \<and> checked kit a xs prep files \<and> list_all (import_ok xs) files \<and>
    (LockClass (Findings prep) \<longrightarrow>
      (\<exists>pf name pw q mid. xs = pf @ Sent (arm_cmd name pw) (Inr q) # mid \<and> intact mid \<and> took_off name ys))"
  using RunAdditions_shape [OF assms(1)]
proof (elim disjE exE conjE)
  fix es assume "grew m es m'" "stopped out es"
  then show ?thesis using assms(3) by (simp add: stopped_def)
next
  fix pre ims es gs files prep
  assume g: "grew m (pre @ ims @ es @ gs) m'" "ran kit a out pre ims es gs files prep"
  note s = g(2) [unfolded ran_def]
  have "\<exists>nm. outcome_ok a files nm out ims es \<and>
    (LockClass (Findings prep) \<longrightarrow> (\<exists>pf name pw q. nm = Some name \<and> pre = pf @ [Sent (arm_cmd name pw) (Inr q)]))"
  proof (cases "LockClass (Findings prep)")
    case True
    then obtain pf name pw q where "pre = pf @ [Sent (arm_cmd name pw) (Inr q)]" "outcome_ok a files (Some name) out ims es" using s by (simp only: if_True) blast
    then show ?thesis by blast
  next
    case False
    then show ?thesis using s by (simp only: if_False) blast
  qed
  then obtain nm where nm: "outcome_ok a files nm out ims es"
    "LockClass (Findings prep) \<longrightarrow> (\<exists>pf name pw q. nm = Some name \<and> pre = pf @ [Sent (arm_cmd name pw) (Inr q)])" by blast
  obtain bef ident post where t: "es = bef @ Tried (Inr ident) # post" "sameRouter ident (Expect a)" "list_all (import_ok ims) files"
    and calm_until: "intact bef" and off: "\<forall>name. nm = Some name \<longrightarrow> took_off name post"
    using nm(1) assms(3) unfolding outcome_ok_def by blast
  let ?xs = "pre @ ims @ bef"
  have "trace m' = ?xs @ Tried (Inr ident) # (post @ gs)" using g(1) assms(2) t(1) by (simp add: grew_def)
  moreover have "checked kit a ?xs prep files" using s checked_more by blast
  moreover have "list_all (import_ok ?xs) files" using t(3) import_ok_mono [of ims _ ?xs] by (auto simp: list_all_iff)
  moreover have "agreed a prep" using s by (simp add: checked_def judge_plan_None)
  moreover have "\<exists>pf name pw q mid. ?xs = pf @ Sent (arm_cmd name pw) (Inr q) # mid \<and> intact mid \<and> took_off name (post @ gs)" if lock: "LockClass (Findings prep)"
  proof -
    obtain pf name pw q where o: "pre = pf @ [Sent (arm_cmd name pw) (Inr q)]" "took_off name post" using off nm(2) lock by blast
    have "?xs = pf @ Sent (arm_cmd name pw) (Inr q) # (ims @ bef)" using o(1) by simp
    moreover have "intact (ims @ bef)" using calm_until s intact_imports [of files ims] by simp
    ultimately show ?thesis using took_off_more(1) [OF o(2), of gs] by blast
  qed
  ultimately show ?thesis using t(2) by blast
qed

end
