(* ===== verification/Deploy_Ends.thy ===== *)
theory Deploy_Ends
  imports Deploy_Sound
begin

text \<open>
  A run comes to an end: its loops wait for a time, and a sleep moves the clock. \<open>clock\<close> is a time the world has reached;
  a reading of the clock is not before it, and nothing turns it back.
\<close>

definition clocked :: "('w \<Rightarrow> int) \<Rightarrow> 'w Env \<Rightarrow> bool" where
  "clocked clock env \<longleftrightarrow>
     (\<forall>c w. clock w \<le> clock (snd (Do env c w))) \<and> (\<forall>w. clock w \<le> clock (snd (Fresh env w))) \<and>
     (\<forall>w. clock w \<le> fst (Now env w) \<and> clock w \<le> clock (snd (Now env w))) \<and>
     (\<forall>d w. 0 \<le> d \<longrightarrow> clock w + d \<le> clock (Sleep env d w))"

lemma clocked_now: "clocked clock env \<Longrightarrow> now env m = (t, m') \<Longrightarrow> clock (world m) \<le> t \<and> clock (world m) \<le> clock (world m')"
  by (auto simp: clocked_def now_def split: prod.splits)
    (metis fst_conv snd_conv)+

lemma clocked_send: "clocked clock env \<Longrightarrow> send env c m = (a, m') \<Longrightarrow> clock (world m) \<le> clock (world m')"
  by (auto simp: clocked_def send_def split: prod.splits) (metis snd_conv)

lemma clocked_writer: "clocked clock env \<Longrightarrow> writer env t p as m = (a, m') \<Longrightarrow> clock (world m) \<le> clock (world m')"
  using clocked_send by (fastforce simp: writer_def split: prod.splits)

lemma clocked_log_in: "clocked clock env \<Longrightarrow> log_in env m = (a, m') \<Longrightarrow> clock (world m) \<le> clock (world m')"
  by (auto simp: clocked_def log_in_def split: prod.splits) (metis snd_conv)

lemma clocked_pause: "clocked clock env \<Longrightarrow> 0 \<le> d \<Longrightarrow> clock (world m) + d \<le> clock (world (pause env d m))"
  by (simp add: clocked_def pause_def)

section \<open>The loops\<close>

lemma settle_loop_ends:
  assumes "clocked clock env"
  shows "\<exists>y. settle_loop env (writer env t) name deadline prev n m = Some y"
proof (induction "nat (deadline - clock (world m))" arbitrary: prev n m rule: less_induct)
  case less
  obtain u m1 where u: "now env m = (u, m1)" by (cases "now env m")
  obtain a m2 where a: "writer env t ''/file/print'' [''=.proplist=name,size''] m1 = (a, m2)" by (cases "writer env t ''/file/print'' [''=.proplist=name,size''] m1")
  show ?case
  proof (cases "u < deadline")
    case False
    then show ?thesis by (subst settle_loop.simps) (simp add: u)
  next
    case True
    define m3 where "m3 = pause env (300 * 10 ^ 6) m2"
    have "clock (world m) < clock (world m3)"
      using clocked_now [OF assms u] clocked_writer [OF assms a] clocked_pause [OF assms, of "300 * 10 ^ 6" m2] by (simp add: m3_def)
    then have "nat (deadline - clock (world m3)) < nat (deadline - clock (world m))" using clocked_now [OF assms u] True by linarith
    from less [OF this] have next_ends: "\<exists>y. settle_loop env (writer env t) name deadline p k m3 = Some y" for p k .
    then show ?thesis
      by (subst settle_loop.simps) (use True in \<open>auto simp: u a Let_def m3_def split: sum.splits\<close>)
  qed
qed

lemma Settled_ends: "clocked clock env \<Longrightarrow> \<exists>r m'. Settled env (writer env t) name timeout m = Some (r, m')"
  using settle_loop_ends [of clock env t name] by (fastforce simp: Settled_def split: prod.splits)

lemma login_loop_ends:
  assumes "clocked clock env"
  shows "\<exists>y. login_loop env expect deadline m = Some y"
proof (induction "nat (deadline - clock (world m))" arbitrary: m rule: less_induct)
  case less
  obtain a m1 where a: "log_in env m = (a, m1)" by (cases "log_in env m")
  obtain t m2 where t: "now env m1 = (t, m2)" by (cases "now env m1")
  show ?case
  proof (cases "t < deadline")
    case False
    then show ?thesis by (subst login_loop.simps) (auto simp: a t)
  next
    case True
    define m3 where "m3 = pause env (3 * second) m2"
    have "clock (world m) < clock (world m3)" "clock (world m) \<le> t"
      using clocked_log_in [OF assms a] clocked_now [OF assms t] clocked_pause [OF assms, of "3 * second" m2] by (simp_all add: m3_def second_def)
    then have "nat (deadline - clock (world m3)) < nat (deadline - clock (world m))" using True by linarith
    from less [OF this] show ?thesis
      by (subst login_loop.simps) (use True in \<open>auto simp: a t m3_def\<close>)
  qed
qed

lemma freshLogin_ends: "clocked clock env \<Longrightarrow> \<exists>ok m'. freshLogin env expect window m = Some (ok, m')"
  using login_loop_ends [of clock env expect] by (fastforce simp: freshLogin_def split: prod.splits)

lemma revert_loop_ends:
  assumes "clocked clock env"
  shows "\<exists>y. revert_loop env deadline due answered m = Some y"
proof (induction "nat (deadline - clock (world m))" arbitrary: m answered rule: less_induct)
  case less
  obtain t m1 where t: "now env m = (t, m1)" by (cases "now env m")
  define m2 where "m2 = pause env (5 * second) m1"
  obtain a m3 where a: "log_in env m2 = (a, m3)" by (cases "log_in env m2")
  obtain u m4 where u: "now env m3 = (u, m4)" by (cases "now env m3")
  show ?case
  proof (cases "t < deadline")
    case False
    then show ?thesis by (subst revert_loop.simps) (auto simp: t)
  next
    case True
    have "clock (world m) < clock (world m3)" "clock (world m3) \<le> clock (world m4)" "clock (world m) \<le> t"
      using clocked_now [OF assms t] clocked_pause [OF assms, of "5 * second" m1] clocked_log_in [OF assms a] clocked_now [OF assms u]
      by (simp_all add: m2_def second_def)
    then have d: "nat (deadline - clock (world m3)) < nat (deadline - clock (world m))" "nat (deadline - clock (world m4)) < nat (deadline - clock (world m))"
      using True by linarith+
    from less [OF d(1)] less [OF d(2)] show ?thesis
      by (subst revert_loop.simps) (use True in \<open>auto simp: t a [unfolded m2_def] u m2_def split: sum.splits\<close>)
  qed
qed

section \<open>The run\<close>

lemma ends_bind: "\<exists>s m1. f = Some (s, m1) \<Longrightarrow> (\<And>s m1. \<exists>r m'. g (s, m1) = Some (r, m')) \<Longrightarrow> \<exists>r m'. f \<bind> g = Some (r, m')"
  by fastforce

lemma ExportText_ends: "clocked clock env \<Longrightarrow> \<exists>r m'. ExportText env (writer env t) path base m = Some (r, m')"
proof -
  assume c: "clocked clock env"
  have "\<exists>r m'. (Settled env (writer env t) (base @ ''.rsc'') settleTimeout m1 \<bind> (\<lambda>(s, m).
      case s of Inl e \<Rightarrow> Some (Inl e, m) | Inr k \<Rightarrow> Some (ReadRouterFile (writer env t) (base @ ''.rsc'') k m))) = Some (r, m')" for m1
    by (rule ends_bind [OF Settled_ends [OF c]]) (auto split: sum.split)
  then show ?thesis by (auto simp: ExportText_def split: prod.split sum.split)
qed

lemma export_loop_ends: "clocked clock env \<Longrightarrow> \<exists>r m'. export_loop env xs m = Some (r, m')"
proof (induction xs arbitrary: m)
  case (Cons x xs)
  obtain b m1 where b: "NewBaseName env m = (b, m1)" by (cases "NewBaseName env m")
  show ?case
  proof (cases b)
    case (Inr base)
    obtain t m2 where t: "ExportText env (writer env (30 * second)) (x @ ''/export'') base m1 = Some (t, m2)" using ExportText_ends [OF Cons.prems] by blast
    obtain r m3 where "export_loop env xs m2 = Some (r, m3)" using Cons.IH [OF Cons.prems] by blast
    then show ?thesis using b Inr t by (cases t) simp_all
  qed (simp add: b)
qed simp

lemma captureReport_ends: "clocked clock env \<Longrightarrow> \<exists>r m'. captureReport env f m = Some (r, m')"
proof -
  assume c: "clocked clock env"
  have "\<exists>r m'. (Settled env (writer env (15 * second)) name (15 * second) m1 \<bind> (\<lambda>(s, m).
      case s of Inl _ \<Rightarrow> Some ([], m)
      | Inr k \<Rightarrow> (case ReadRouterFile (writer env (15 * second)) name k m of (b, m) \<Rightarrow>
          Some ((case b of Inl _ \<Rightarrow> [] | Inr s \<Rightarrow> replace_crlf s), m)))) = Some (r, m')" for name m1
    by (rule ends_bind [OF Settled_ends [OF c]]) (auto split: sum.split prod.split)
  then show ?thesis by (auto simp: captureReport_def split: prod.split sum.split)
qed

lemma preflight_ends: "clocked clock env \<Longrightarrow> \<exists>r m'. preflight kit env a m = Some (r, m')"
proof -
  assume c: "clocked clock env"
  have report: "\<exists>r m'. captureReport env f m = Some (r, m')" for f m by (rule captureReport_ends [OF c])
  have then_ends: "\<exists>r m'. (do { (rep, m) \<leftarrow> captureReport env f m; Some (Inl (g rep), m) }) = Some (r, m')" for f m and g :: "string \<Rightarrow> Outcome"
    using report [of f m] by auto
  show ?thesis
    unfolding preflight_def Let_def
    by (auto split: prod.split sum.split option.split intro!: then_ends)
qed

lemma arm_ends: "clocked clock env \<Longrightarrow> \<exists>r m'. arm env m = Some (r, m')"
proof -
  assume c: "clocked clock env"
  have settled: "\<exists>s m'. Settled env (writer env (15 * second)) name timeout m = Some (s, m')" for name timeout m by (rule Settled_ends [OF c])
  obtain b m1 where b: "NewBaseName env m = (b, m1)" by (cases "NewBaseName env m")
  obtain q m2 where q: "random_bytes env 18 m1 = (q, m2)" by (cases "random_bytes env 18 m1")
  obtain a m3 where a: "send env (save_cmd (projr b) (EncodeToString (projr q))) m2 = (a, m3)" by (cases "send env (save_cmd (projr b) (EncodeToString (projr q))) m2")
  obtain s m4 where s: "Settled env (writer env (15 * second)) (projr b @ ''.backup'') (60 * second) m3 = Some (s, m4)" using settled by blast
  show ?thesis using a s by (cases b; cases q; cases a; cases s) (auto simp: arm_def b q split: prod.split sum.split)
qed

lemma lockedOut_ends: "clocked clock env \<Longrightarrow> \<exists>r m'. lockedOut env dm out m = Some (r, m')"
proof -
  assume c: "clocked clock env"
  show ?thesis
  proof (cases dm)
    case (Some d)
    obtain y where "revert_loop env (armedAt d + comeBackWindow) (armedAt d + DeadManAfter) False (step ''reverting'' m) = Some y" using revert_loop_ends [OF c] by blast
    then show ?thesis using Some by (cases y) (auto simp: lockedOut_def split: prod.split)
  qed (simp add: lockedOut_def)
qed

lemma finish_run_ends: "clocked clock env \<Longrightarrow> \<exists>r m'. finish_run env a dm out m = Some (r, m')"
proof -
  assume c: "clocked clock env"
  obtain r m1 where "export_loop env (outermost (Menus (pl_Template (rn_Plan a)))) (step ''baseline'' m) = Some (r, m1)" using export_loop_ends [OF c] by blast
  then show ?thesis by (simp add: finish_run_def Snapshot_def exportMenus_def)
qed

lemma change_router_ends: "clocked clock env \<Longrightarrow> \<exists>r m'. change_router env a files dm out m = Some (r, m')"
proof -
  assume c: "clocked clock env"
  obtain o1 m1 where i: "import_all env 0 files (out\<lparr>ou_State := Applied_state, ou_Applied := All\<rparr>) m = (o1, m1)"
    by (cases "import_all env 0 files (out\<lparr>ou_State := Applied_state, ou_Applied := All\<rparr>) m")
  obtain t0 m2 where t0: "now env (step ''reconnect'' m1) = (t0, m2)" by (cases "now env (step ''reconnect'' m1)")
  obtain ok m3 where ok: "freshLogin env (Expect a) reconnectWindow (pause env firewallSettle m2) = Some (ok, m3)" using freshLogin_ends [OF c] by blast
  obtain t1 m4 where t1: "now env m3 = (t1, m4)" by (cases "now env m3")
  note locked = lockedOut_ends [OF c] and finished = finish_run_ends [OF c]
  show ?thesis
  proof (cases ok)
    case False
    then show ?thesis using locked by (simp add: change_router_def i t0 ok)
  next
    case True
    show ?thesis
    proof (cases dm)
      case None
      then show ?thesis using finished True by (simp add: change_router_def i t0 ok t1 Let_def)
    next
      case (Some d)
      obtain off m5 where "disarm env d (step ''disarm'' m4) = (off, m5)" by (cases "disarm env d (step ''disarm'' m4)")
      then show ?thesis using finished locked True Some by (cases off) (simp_all add: change_router_def i t0 ok t1 Let_def)
    qed
  qed
qed

text \<open>
  C4. A run returns. Its loops poll until a deadline, and each of their turns sleeps, so it is enough that the clock is
  never turned back and that a sleep lasts as long as it is asked to.
\<close>

theorem run_returns:
  assumes "clocked clock env"
  shows "\<exists>out m'. RunAdditions kit env a m = Some (out, m')"
proof -
  obtain r m1 where r: "preflight kit env a m = Some (r, m1)" using preflight_ends [OF assms] by blast
  obtain dm m2 where dm: "arm env (step ''arm'' m1) = Some (dm, m2)" using arm_ends [OF assms] by blast
  have changed: "\<exists>out m'. (do { ((out, dm), m) \<leftarrow> change_router env a files d o1 m; Some (leave env out dm m) }) = Some (out, m')" for files d o1 m
  proof -
    obtain q m3 where "change_router env a files d o1 m = Some (q, m3)" using change_router_ends [OF assms] by blast
    then show ?thesis by (cases q) (simp add: leave_def)
  qed
  show ?thesis
  proof (cases r)
    case (Inl out)
    then show ?thesis using r by (simp add: RunAdditions_def leave_def)
  next
    case (Inr x)
    obtain prep files o1 where x: "x = (prep, files, o1)" by (cases x)
    show ?thesis using r dm Inr x changed by (cases dm) (simp_all add: RunAdditions_def leave_def)
  qed
qed

end
