(* ===== verification/Deploy_Demo.thy ===== *)
theory Deploy_Demo
  imports Deploy_Ends "HOL-Library.Code_Target_Nat"
begin

text \<open>
  A run on a concrete router, clock and plan: a template of one route is deployed twice, once to a router that keeps
  answering and once to one the route cuts off. The clock of the router is in the world, with whether it lets us in.
\<close>

definition demo_router :: Identity where
  "demo_router = \<lparr>id_Board = ''CHR'', id_Serial = [], id_OSVersion = ''7.24'', Uptime = 0\<rparr>"

definition demo_name :: string where "demo_name = ''mikrodash-cfg-0000000000000000''"

definition demo_reply :: "Cmd \<Rightarrow> answer" where
  "demo_reply c =
     \<lparr>an_rows =
        (if cmd_Path c = ''/system/resource/print'' then [[(''board-name'', ''CHR''), (''version'', ''7.24 (stable)''), (''uptime'', ''0'')]]
         else if cmd_Path c = ''/file/print'' then [[(''.id'', ''*1''), (''name'', demo_name @ ''.backup''), (''size'', ''9'')]]
         else if cmd_Path c = ''/system/scheduler/print'' then [[(''.id'', ''*2''), (''name'', demo_name), (''run-count'', ''0'')]]
         else []),
      an_done = [(''ret'', ''true'')]\<rparr>"

definition demo_env :: "bool \<Rightarrow> (int \<times> bool) Env" where
  "demo_env cuts =
     \<lparr>Do = (\<lambda>c (t, up). (Inr (demo_reply c), (t, up \<and> \<not> (cuts \<and> real_import c)))),
      Fresh = (\<lambda>(t, up). (if up then Inr demo_router else Inl ''no route to host'', (t, up))),
      TakeBackup = (\<lambda>w. (Inr 1, w)),
      Now = (\<lambda>w. (fst w, w)),
      Sleep = (\<lambda>d (t, up). (t + 10 * d, up)),
      Rand = (\<lambda>n w. (Inr (replicate n CHR 0x00), w))\<rparr>"

definition demo_template :: Template where
  "demo_template = parsed [''/ip route'', ''add dst-address=10.0.0.0/8'']"

definition demo_kit :: toolkit where
  "demo_kit = \<lparr>menuIndex = [(''/ip/route'', [])], folding = id, sha256 = id\<rparr>"

definition demo_run :: Run where
  "demo_run = \<lparr>rn_Plan = \<lparr>pl_Template = demo_template, Values = [], Live = live_router, pl_Shipped = False\<rparr>, Expect = demo_router,
     Approved = unlines [''/ip route'', ''add dst-address=10.0.0.0/8''], Acked = [''lockout-route@2'']\<rparr>"

definition demo_start :: "(int \<times> bool) machine" where
  "demo_start = \<lparr>world = (0, True), trace = []\<rparr>"

definition demo_end :: "bool \<Rightarrow> (Outcome \<times> (int \<times> bool) machine) option" where
  "demo_end cuts = RunAdditions demo_kit (demo_env cuts) demo_run demo_start"

definition demo_arming :: Cmd where
  "demo_arming = arm_cmd demo_name (EncodeToString (replicate 18 CHR 0x00))"

fun is_import :: "event \<Rightarrow> bool" where
  "is_import (Sent c r) \<longleftrightarrow> real_import c"
| "is_import e \<longleftrightarrow> False"

fun is_arming :: "event \<Rightarrow> bool" where
  "is_arming (Sent c (Inr r)) \<longleftrightarrow> c = demo_arming"
| "is_arming e \<longleftrightarrow> False"

text \<open>How the run ended, whether it sent an import, and whether it armed the switch.\<close>

definition demo_summary :: "Outcome \<times> (int \<times> bool) machine \<Rightarrow> string \<times> State \<times> bool \<times> bool" where
  "demo_summary = (\<lambda>(out, m). (ou_Code out, ou_State out,
     list_ex is_import (trace m), list_ex is_arming (trace m)))"

lemma demo_applied: "map_option demo_summary (demo_end False) = Some ([], Applied_state, True, True)"
  by code_simp

lemma demo_locked_out: "map_option demo_summary (demo_end True) = Some (''locked-out'', Unknown_state, True, True)"
  by code_simp

lemma demo_import:
  assumes "map_option demo_summary (demo_end cuts) = Some (code, st, True, armed)"
  shows "\<exists>out m xs c r ys. demo_end cuts = Some (out, m) \<and> ou_Code out = code \<and> ou_State out = st \<and> trace m = xs @ Sent c r # ys \<and> real_import c"
proof -
  obtain out m where m: "demo_end cuts = Some (out, m)" "ou_Code out = code" "ou_State out = st"
    "list_ex is_import (trace m)"
    using assms by (auto simp: demo_summary_def)
  then obtain e where "e \<in> set (trace m)" "is_import e" by (auto simp: list_ex_iff)
  then obtain c r where "Sent c r \<in> set (trace m)" "real_import c" by (cases e rule: is_import.cases) auto
  moreover from this(1) obtain xs ys where "trace m = xs @ Sent c r # ys" using split_list by fast
  ultimately show ?thesis using m(1-3) by blast
qed

lemma demo_armed:
  assumes "map_option demo_summary (demo_end cuts) = Some (code, st, imported, True)"
  shows "\<exists>out m xs r ys. demo_end cuts = Some (out, m) \<and> ou_Code out = code \<and> trace m = xs @ Sent demo_arming (Inr r) # ys"
proof -
  obtain out m where m: "demo_end cuts = Some (out, m)" "ou_Code out = code"
    "list_ex is_arming (trace m)"
    using assms by (auto simp: demo_summary_def)
  then obtain e where "e \<in> set (trace m)" "is_arming e" by (auto simp: list_ex_iff)
  then obtain r where "Sent demo_arming (Inr r) \<in> set (trace m)" by (cases e rule: is_arming.cases) auto
  from split_list [OF this] obtain xs ys where "trace m = xs @ Sent demo_arming (Inr r) # ys" by blast
  then show ?thesis using m(1,2) by blast
qed

lemma demo_starts: "trace demo_start = []"
  by (simp add: demo_start_def)

theorem import_is_cleared_witness:
  "\<exists>out m xs c r ys. demo_end False = Some (out, m) \<and> trace m = xs @ Sent c r # ys \<and> real_import c \<and> cleared demo_kit demo_run xs c"
proof -
  obtain out m xs c r ys where d: "demo_end False = Some (out, m)" "trace m = xs @ Sent c r # ys" "real_import c"
    using demo_import [OF demo_applied] by blast
  from import_is_cleared [OF d(1) [unfolded demo_end_def] demo_starts d(2,3)] d show ?thesis by blast
qed

theorem dead_man_stays_witness:
  "\<exists>out m xs r ys. demo_end True = Some (out, m) \<and> ou_Code out = ''locked-out'' \<and> trace m = xs @ Sent demo_arming (Inr r) # ys \<and> kept demo_router demo_name ys"
proof -
  obtain out m xs r ys where d: "demo_end True = Some (out, m)" "ou_Code out = ''locked-out''" "trace m = xs @ Sent demo_arming (Inr r) # ys"
    using demo_armed [OF demo_locked_out] by blast
  have e: "Expect demo_run = demo_router" by (simp add: demo_run_def)
  from dead_man_stays [OF d(1) [unfolded demo_end_def] demo_starts d(3) [unfolded demo_arming_def]] d e show ?thesis by auto
qed

text \<open>The plan is the one that can be prepared, and it needs the switch.\<close>

lemma demo_locks:
  assumes "checked demo_kit demo_run xs prep files" shows "LockClass (Findings prep)"
proof -
  obtain live where live: "prepare_with demo_kit (rn_Plan demo_run) live = Some prep" "map fst live = EnsureMenus (pl_Template (rn_Plan demo_run))"
    using assms by (auto simp: checked_def prepared_def)
  have "EnsureMenus (pl_Template (rn_Plan demo_run)) = []" by code_simp
  then have "prepare_with demo_kit (rn_Plan demo_run) [] = Some prep" using live by simp
  moreover have "map_option (\<lambda>p. LockClass (Findings p)) (prepare_with demo_kit (rn_Plan demo_run) []) = Some True" by code_simp
  ultimately show ?thesis by simp
qed

theorem applied_means_logged_in_witness:
  "\<exists>out m prep files pf name pw q mid ident ys. demo_end False = Some (out, m) \<and> ou_State out = Applied_state \<and>
    trace m = (pf @ Sent (arm_cmd name pw) (Inr q) # mid) @ Tried (Inr ident) # ys \<and> sameRouter ident demo_router \<and> agreed demo_run prep \<and>
    checked demo_kit demo_run (pf @ Sent (arm_cmd name pw) (Inr q) # mid) prep files \<and>
    list_all (import_ok (pf @ Sent (arm_cmd name pw) (Inr q) # mid)) files \<and> intact mid \<and> took_off name ys"
proof -
  obtain out m where d: "demo_end False = Some (out, m)" "ou_State out = Applied_state" using demo_import [OF demo_applied] by blast
  have e: "Expect demo_run = demo_router" by (simp add: demo_run_def)
  obtain prep files xs ident ys where r: "trace m = xs @ Tried (Inr ident) # ys" "sameRouter ident demo_router" "agreed demo_run prep"
      "checked demo_kit demo_run xs prep files" "list_all (import_ok xs) files"
      "LockClass (Findings prep) \<longrightarrow> (\<exists>pf name pw q mid. xs = pf @ Sent (arm_cmd name pw) (Inr q) # mid \<and> intact mid \<and> took_off name ys)"
    using applied_means_logged_in [OF d(1) [unfolded demo_end_def] demo_starts d(2)] unfolding e by blast
  then obtain pf name pw q mid where "xs = pf @ Sent (arm_cmd name pw) (Inr q) # mid" "intact mid" "took_off name ys"
    using demo_locks [OF r(4)] by blast
  with d r(1-5) show ?thesis by blast
qed

theorem run_returns_witness:
  "\<exists>out m. RunAdditions demo_kit (demo_env True) demo_run demo_start = Some (out, m)"
proof -
  have "clocked fst (demo_env True)" by (auto simp: clocked_def demo_env_def split: prod.split)
  from run_returns [OF this] show ?thesis .
qed

end
