(* ===== verification/Spec2Isabelle.thy ===== *)
theory Spec2Isabelle
  imports Conn_State Dormancy Diff Access Spans Reports Ros_Wire Roslimit Backups Netguard Trusted_Proxy Restore_Token Websession Path_Guard List_Guard Alert_Sends Deploy_Demo
begin

text \<open>
  A verification library for MikroDash, the Go server of a dashboard for MikroTik routers. The server holds an API
  connection to every router, runs collectors over it, shows their readings in a browser, lets authorised users change
  the router or deploy a template to it, raises alerts, mails reports and stores configuration backups. The library models the parts that decide:
  whether a router is offline, which collectors may sleep, who may do what, what would cut the dashboard off, when an
  alert opens and who hears of it, what a backup changed, what a configuration template says and how it is deployed. File names below are relative to \<^verbatim>\<open>src/internal\<close>.
\<close>

section \<open>How the code is represented\<close>

text \<open>
  A struct is a record, an enumeration or an interface with known implementations is a datatype, a method is a function
  that takes the receiver and returns it updated, an error is \<^const>\<open>Inl\<close> of its message or \<^const>\<open>None\<close>. A \<open>string\<close> is
  a list of bytes. A map is an association list with distinct keys (\<open>gomap\<close>); where Go's iteration order matters the
  order is an argument or the theorem holds for every list. An \<open>int64\<close> that is a clock or a count is an \<^typ>\<open>int\<close> with a
  bound proved where it is computed by arithmetic, bytes on a wire are machine words, and a \<open>float64\<close> is the rational it
  stands for, an infinity or a NaN (the sign of a zero is not kept; nothing modelled reads it).

  Arguments of the model stand for what is not in the repository or not deterministic: the clock, random bytes, the time
  zone database (\<open>zones\<close>), the environment, the Unicode case tables (\<open>uni\<close>), the rows a router answers with, the faults
  of the SQL engine. Where a theorem needs one of them to behave it says so in a premise, and its witness has an
  instance: the offsets of a zone for the calendar, that a router carries out a write of its accounts (\<open>writes_as_told\<close>).

  A mutex makes each operation one step; what a goroutine or a callback would be given is the result of the step. Loops
  are structural recursion or \<open>function\<close> with a proved measure, so every definition is total and there is no fuel; the
  one search with a bound of its own, the edit script, is cut at \<open>maxEdits\<close> by the code, and the theorem says what the
  cut means.
\<close>

section \<open>The theories\<close>

text \<open>
  Shared.
  \<^item> \<^verbatim>\<open>Prelude\<close>: maps, insertion sort, runs of a step function (\<open>run\<close>), and the locales \<open>step_machine\<close> (a step
    relation with an invariant) and \<open>refined_machine\<close> (one that moreover simulates an abstract machine).
  \<^item> \<^verbatim>\<open>Go_Strings\<close>, \<^verbatim>\<open>Go_Json\<close>, \<^verbatim>\<open>Go_Float\<close>, \<^verbatim>\<open>Netip\<close>, \<^verbatim>\<open>Calendar\<close>: what the program uses of Go's \<^verbatim>\<open>strings\<close>,
    \<^verbatim>\<open>strconv\<close>, \<^verbatim>\<open>encoding/json\<close>, \<^verbatim>\<open>net/netip\<close> and \<^verbatim>\<open>time\<close>.
  \<^item> \<^verbatim>\<open>Expiring\<close>: the locale \<open>expiring_store\<close>, for maps that may drop an entry once it has expired.

  Connections.
  \<^item> \<^verbatim>\<open>Conn_State\<close> (\<^verbatim>\<open>history/connectivity.go\<close>, \<^verbatim>\<open>connstate/tracker.go\<close>): the debounce between a lost socket and a
    router that is offline, and the tracker that holds one per router. What a debounce records and announces is computed
    from its history of calls alone (\<open>history_rows\<close>, \<open>history_status\<close>), and the tracker is a product of debounces: no
    router's events reach another's.
  \<^item> \<^verbatim>\<open>Dormancy\<close> (\<^verbatim>\<open>dormancy\<close>): which collectors sleep, back off and are probed. A plan carries a change of the set
    of dormant collectors exactly when there is one, and its operations match it.
  \<^item> \<^verbatim>\<open>Ros_Wire\<close> (\<^verbatim>\<open>routeros/framer.go\<close>, \<^verbatim>\<open>fatalwatch.go\<close>, \<^verbatim>\<open>tagwatch.go\<close>): the framing of the RouterOS API, read
    back from any split of the stream, and the two watchers on it.
  \<^item> \<^verbatim>\<open>Roslimit\<close> (\<^verbatim>\<open>roslimit\<close>): the gate on commands in flight and the rolling count of commands.

  Authorisation.
  \<^item> \<^verbatim>\<open>Page_List\<close>, \<^verbatim>\<open>Grant_Store\<close>, \<^verbatim>\<open>Rbac\<close>, \<^verbatim>\<open>Access\<close> (\<^verbatim>\<open>pages\<close>, the grant graph of \<^verbatim>\<open>db\<close>, \<^verbatim>\<open>rbac\<close>, two functions of
    \<^verbatim>\<open>server/users_write_api.go\<close>): the resolver answers what the grants say and a database fault never becomes a yes (locale
    \<open>decision\<close>), the permissions of an administrator come only from builtin roles granted globally, and a guarded change
    leaves an administrator.
  \<^item> \<^verbatim>\<open>Netguard\<close>, \<^verbatim>\<open>Trusted_Proxy\<close>, \<^verbatim>\<open>Websession\<close>, \<^verbatim>\<open>Restore_Token\<close> (\<^verbatim>\<open>netguard\<close>, \<^verbatim>\<open>trustedproxy\<close>, \<^verbatim>\<open>websession\<close>,
    \<^verbatim>\<open>backups/restoretoken.go\<close>): where an outgoing connection may go, whose address a request has, and the two stores
    of tokens, each an interpretation of \<open>expiring_store\<close>.

  Self-lockout guards (\<^verbatim>\<open>guard\<close>).
  \<^item> \<^verbatim>\<open>Self_Guard\<close>, \<^verbatim>\<open>Path_Guard\<close>, \<^verbatim>\<open>Fw_Guard\<close>, \<^verbatim>\<open>List_Guard\<close>: what of a router is ours, and for every write whether it
    would cut us off. The guards that compare our addresses with what a write touches interpret the locale
    \<open>address_guard\<close>; the firewall guard is compared with a predicate on the packets that keep us connected, within
    bounds its theorem names and outside which two lemmas show it silent.

  Alerts.
  \<^item> \<^verbatim>\<open>Alert_Held\<close>, \<^verbatim>\<open>Alert_Rules\<close> (\<^verbatim>\<open>alert\<close>): the machine that decides a reading has been over a floor for the hold time,
    and the rules of the evaluator over a store of open alerts (a record of operations, as the interface is in Go). A
    rule is a trace of \<open>emit\<close> calls (the predicate \<open>acts\<close>), which carries every statement about all rules; the rules
    that compare a row with the last one interpret the locale \<open>edge_rule\<close>, against the sightings of the rows so far.
  \<^item> \<^verbatim>\<open>Alert_Wire\<close> (\<^verbatim>\<open>alertwire\<close>, \<^verbatim>\<open>db/alertwrite.go\<close>): the two histories, both interpretations of the locale
    \<open>alert_store\<close>, and the wire that gives each router its evaluator.
  \<^item> \<^verbatim>\<open>Alert_Sends\<close> (\<^verbatim>\<open>alertdispatch\<close>, \<^verbatim>\<open>notify\<close>, \<^verbatim>\<open>server/alert_send.go\<close>, \<^verbatim>\<open>server/notify_channels.go\<close>,
    \<^verbatim>\<open>db/alertsent.go\<close>): who hears of an alert, when, and in what words.

  Records.
  \<^item> \<^verbatim>\<open>Spans\<close> (\<^verbatim>\<open>history/spans.go\<close>, \<^verbatim>\<open>coverage.go\<close>, \<^verbatim>\<open>history.go\<close>): the strip of a router's states over a window, which
    tiles it, and the undo of a write.
  \<^item> \<^verbatim>\<open>Reports\<close> (\<^verbatim>\<open>reports/period.go\<close>, \<^verbatim>\<open>server/report_scheduler.go\<close>): the calendar period of a report and when one is due.
    What the three passes of \<open>InstantOf\<close> find is exact around one change of the clock (\<open>instant_exact\<close>, in
    \<^verbatim>\<open>Calendar\<close>); the statements on report periods are for zones whose offset does not change.
  \<^item> \<^verbatim>\<open>Backups\<close>, \<^verbatim>\<open>Diff\<close> (\<^verbatim>\<open>backups\<close>): when a backup is due, what retention removes, what a settings write stores, and the
    comparison of two exports by a shortest edit script.

  Configuration templates and deploys.
  \<^item> \<^verbatim>\<open>Tpl_Text\<close>, \<^verbatim>\<open>Tpl_Parse\<close>, \<^verbatim>\<open>Tpl_Safe\<close>, \<^verbatim>\<open>Tpl_Write\<close> (\<^verbatim>\<open>cfgtpl/ast.go\<close>, \<^verbatim>\<open>quote.go\<close>,
    \<^verbatim>\<open>parse.go\<close>, \<^verbatim>\<open>format.go\<close>): the dialect a configuration template is written in. Reading is a lexer over bytes whose
    index errors are a value of their own, \<open>Panics\<close>; it is shown never to be reached. Writing is the one writer that \<open>Format\<close>
    and \<open>Render\<close> share.
  \<^item> \<^verbatim>\<open>Tpl_Words\<close>, \<^verbatim>\<open>Tpl_Lines\<close>, \<^verbatim>\<open>Tpl_Shape\<close>, \<^verbatim>\<open>Tpl_Round\<close>: what is written reads back - word by word, line by line, the
    whole text; and a rendered value can never become syntax. \<^verbatim>\<open>Tpl_Split\<close>: the pieces a text is sent in.
  \<^item> \<^verbatim>\<open>Tpl_Live\<close>, \<^verbatim>\<open>Tpl_Analyze\<close> (\<^verbatim>\<open>cfgtpl/analyze.go\<close>): the findings on a template's structure and on a router's
    way in. \<^verbatim>\<open>Tpl_Ensure\<close> (\<^verbatim>\<open>ensure.go\<close>): lines that add a row unless it is there.
  \<^item> \<^verbatim>\<open>Import_Reply\<close> (\<^verbatim>\<open>importout.go\<close>, \<^verbatim>\<open>file.go\<close>, \<^verbatim>\<open>target.go\<close>, \<^verbatim>\<open>routeros/duration.go\<close>): what a reply to an import
    says, the names of files, which router an export fits, durations with their wrap-around.
  \<^item> \<^verbatim>\<open>Deploy_Env\<close>, \<^verbatim>\<open>Deploy_Run\<close> (\<^verbatim>\<open>cfgdeploy/deploy.go\<close>, \<^verbatim>\<open>additions.go\<close>, \<^verbatim>\<open>backups/runner.go\<close>,
    \<^verbatim>\<open>backups/read.go\<close>): an additions run. The router, the clock and the random bytes are functions on a world of any type;
    every call and its answer is appended to a trace. Loops that poll until a deadline are partial functions into options,
    so that not returning is \<^const>\<open>None\<close>.
  \<^item> \<^verbatim>\<open>Deploy_Sends\<close>, \<^verbatim>\<open>Deploy_Safe\<close>, \<^verbatim>\<open>Deploy_Order\<close>, \<^verbatim>\<open>Deploy_Main\<close>, \<^verbatim>\<open>Deploy_Sound\<close>, \<^verbatim>\<open>Deploy_Ends\<close>: the events each part
    of a run adds to the trace, by kind and in order; from them what a whole run promises, and that it returns when the
    clock is not turned back and a sleep lasts. \<^verbatim>\<open>Deploy_Demo\<close>: one plan run against two concrete routers.

  The parts meet where the code makes them meet: the tracker's verdicts are the events of \<open>RouterStatus\<close> and of the
  strip; a fired alert goes from the wire to the sends with the key its channels subscribe to (\<open>eventKeyFor\<close>); the guards
  read rows as \<open>Self_Guard\<close> does and share its verdicts; the account writes carry out the plans of \<open>Access\<close> on the tables
  of \<open>Grant_Store\<close>; the findings on a template ask \<open>Fw_Guard\<close> what a rule would match, a deploy arms its switch by them, and
  its baseline is normalised as a backup is.
\<close>

section \<open>What modelling showed\<close>

text \<open>
  Where the code does not do what it means to, the model follows the code and the fact is a lemma or a remark beside it:
  an address with a zone passes the outbound guard; a firewall rule with a negated interface of ours, and one whose source
  is an IPv4 prefix while we are seen at a mapped address, are read as harmless; a stream released late leaves the
  level of open streams one too low; a failed read of the recorded runs makes a report due again; a mail channel with only a
  carbon copy is chosen and never sent (\<open>bcc_channel_never_sent\<close>); counts from a million up are written with an exponent
  (\<open>trimNum_million\<close>); a verb in a slash path that a word follows is kept as a menu word and sent as a command
  (\<open>verb_in_path\<close>); an edit of a firewall rule is not judged as an added one is (\<open>edited_rule_passes\<close>); an unknown interface
  passes where a known one is flagged, while ours are not known (\<open>unknown_interface_passes\<close>).
\<close>

section \<open>Not modelled\<close>

text \<open>
  The HTTP and WebSocket handlers, the sessions that own goroutines and connections, the collectors and the tables that
  describe RouterOS menus, the SQL text and the files on disk, cryptography, mail and PDF rendering, the sign-in with a
  provider, geolocation databases, the WireGuard endpoint, the assistant and the security catalogue. They move data
  between the parts above and the outside and decide little, or rest on code that is not in the repository. The parts of a
  modelled component that are missing are named in its theory: the payload rows of the reports page, database faults of
  the alert tables, the starts and stops of schedulers, \<open>Fingerprint\<close> of a backup (a hash), the dialer that installs the
  outbound guard, the declared variables of a template and the templates that are shipped, the runs that reset a router
  or clone one.
\<close>

end
